(* ===== verification/VM_Prelude.thy ===== *)
theory VM_Prelude
  imports Main "HOL-Library.Word" "HOL-Library.Monad_Syntax"
begin

text \<open>
  Shared vocabulary of the development: the machine types of the VM sources as
  words, the collections of simplification rules the component theories extend,
  and generic lemmas on words and lists that several components use.
\<close>

unbundle bit_operations_syntax

section \<open>Machine types\<close>

text \<open>
  The sources are modelled for a little-endian host with a 64-bit \<open>uword\<close>
  (\<^verbatim>\<open>ARCH_IS_64_BIT\<close>).  Signed and unsigned C++ integers of one width share a word
  type; \<open>uint\<close>/\<open>unat\<close> read a word as unsigned and \<open>sint\<close> as two's complement.
\<close>

type_synonym u8 = "8 word"
type_synonym u16 = "16 word"
type_synonym u32 = "32 word"
type_synonym u64 = "64 word"

named_theorems word_nat "readings of word operations as natural numbers"

declare unat_word_ariths [word_nat]

lemma unat_and_mask [word_nat]:
  fixes x :: "'a::len word"
  shows "unat (x AND mask n) = unat x mod 2 ^ n"
  by (simp only: take_bit_eq_mask [symmetric] unsigned_take_bit_eq) (simp add: take_bit_eq_mod)

lemma unat_drop_div [word_nat]:
  fixes x :: "'a::len word"
  shows "unat (drop_bit n x) = unat x div 2 ^ n"
  by (simp only: unat_drop_bit_eq) (simp add: drop_bit_eq_div)

lemma unat_drop_less [intro]:
  fixes x :: "'a::len word"
  assumes "x \<noteq> 0" "0 < n"
  shows "unat (drop_bit n x) < unat x"
proof -
  have "(1::nat) < 2 ^ n" using assms(2) by (intro one_less_power) simp_all
  then show ?thesis
    using assms(1) by (simp only: unat_drop_div) (rule div_less_dividend, simp_all add: unat_gt_0)
qed

lemma unat_exp [simp]:
  assumes "k < LENGTH('a)"
  shows "unat ((2::'a::len word) ^ k) = 2 ^ k"
proof -
  have "unat (of_nat (2 ^ k) :: 'a word) = 2 ^ k"
    using assms by (simp only: unat_of_nat) simp
  then show ?thesis by simp
qed

lemma bit_unat_iff:
  fixes x :: "'a::len word"
  shows "bit (unat x) n \<longleftrightarrow> bit x n"
  by (simp add: bit_unsigned_iff)

lemma msb_split:
  fixes x :: "'a::len word"
  assumes "x \<noteq> 0"
  obtains k where "k < LENGTH('a)" "2 ^ k \<le> unat x" "unat x < 2 ^ Suc k"
proof -
  have pos: "1 \<le> unat x" using assms by (simp add: unat_gt_0 Suc_le_eq)
  obtain k where k: "2 ^ k \<le> unat x" "unat x < 2 ^ (k + 1)"
    using ex_power_ivl1 [OF order_refl pos] by blast
  have "(2::nat) ^ k < 2 ^ LENGTH('a)"
    using k(1) unsigned_less [of x] by (rule le_less_trans)
  then have "k < LENGTH('a)" by simp
  with k that show ?thesis by simp
qed

lemma bit_top:
  fixes x :: "'a::len word"
  assumes "2 ^ k \<le> unat x" "unat x < 2 ^ Suc k"
  shows "bit x k"
proof -
  have "unat x div 2 ^ k = 1"
    using assms by (intro div_nat_eqI) simp_all
  then show ?thesis
    by (simp add: bit_unat_iff [symmetric] bit_iff_odd)
qed

lemma bit_imp_exp_le:
  fixes x :: "'a::len word"
  assumes "bit x n"
  shows "2 ^ n \<le> unat x"
proof (rule ccontr)
  assume "\<not> 2 ^ n \<le> unat x"
  then have "unat x div 2 ^ n = 0" by simp
  with assms show False by (simp add: bit_unat_iff [symmetric] bit_iff_odd)
qed

lemma unat_and_not_mask [word_nat]:
  fixes x :: "'a::len word"
  shows "unat (x AND NOT (mask k)) = unat x div 2 ^ k * 2 ^ k"
proof -
  have "unat (x AND NOT (mask k)) = push_bit k (drop_bit k (unat x))"
    by (rule bit_eqI) (auto simp: bit_simps bit_unat_iff dest: bit_imp_le_length)
  then show ?thesis by (simp add: push_bit_eq_mult drop_bit_eq_div)
qed

lemma sint_unat:
  fixes x :: "'a::len word"
  shows "sint x = (if bit x (LENGTH('a) - 1) then int (unat x) - 2 ^ LENGTH('a) else int (unat x))"
proof -
  have e: "Suc (LENGTH('a) - Suc 0) = LENGTH('a)" by simp
  have "sint x = signed_take_bit (LENGTH('a) - Suc 0) (uint x)" by (simp add: sint_uint)
  also have "\<dots> = uint x - 2 ^ LENGTH('a) * of_bool (bit (uint x) (LENGTH('a) - Suc 0))"
    by (subst signed_take_bit_eq_take_bit_minus) (simp add: e take_bit_int_eq_self)
  finally show ?thesis
    by (simp add: bit_uint_iff)
qed

lemma sint_neg_iff: "sint x < 0 \<longleftrightarrow> bit x (LENGTH('a) - 1)" for x :: "'a::len word"
  using unsigned_less [of x, where ?'a = int] by (simp add: sint_unat)

lemma Suc_0_less_exp [simp]: "0 < k \<Longrightarrow> Suc 0 < 2 ^ k"
  using one_less_power [of "2::nat" k] by simp

section \<open>Arrays\<close>

text \<open>
  An access outside of an array has no result; \<open>put\<close> is the effect of a loop that stores a sequence of
  elements from some index on.
\<close>

definition read_at :: "'a list \<Rightarrow> nat \<Rightarrow> 'a option" where
  "read_at a i = (if i < length a then Some (a ! i) else None)"

definition write_at :: "'a list \<Rightarrow> nat \<Rightarrow> 'a \<Rightarrow> 'a list option" where
  "write_at a i x = (if i < length a then Some (a[i := x]) else None)"

definition put :: "'a list \<Rightarrow> nat \<Rightarrow> 'a list \<Rightarrow> 'a list" where
  "put dst j xs = take j dst @ xs @ drop (j + length xs) dst"

lemma length_put [simp]: "j + length xs \<le> length dst \<Longrightarrow> length (put dst j xs) = length dst"
  by (simp add: put_def)

lemma put_Nil [simp]: "put dst j [] = dst"
  by (simp add: put_def)

lemma put_put:
  "j + length xs + length ys \<le> length dst \<Longrightarrow> put (put dst j xs) (j + length xs) ys = put dst j (xs @ ys)"
  by (simp add: put_def ac_simps)

lemma write_at_put: "j < length dst \<Longrightarrow> write_at dst j x = Some (put dst j [x])"
  by (simp add: write_at_def put_def upd_conv_take_nth_drop)

lemma write_at_put2:
  "j + 1 < length dst \<Longrightarrow> Option.bind (write_at dst j x) (\<lambda>d. write_at d (j + 1) y) = Some (put dst j [x, y])"
  using put_put [of j "[x]" "[y]" dst] by (simp add: write_at_put)

end
