(* ===== verification/Platform_Utils.thy ===== *)
theory Platform_Utils
  imports VM_Prelude
begin

text \<open>
  The bit-level helpers of \<^verbatim>\<open>Utils\<close> (\<^verbatim>\<open>runtime/platform/utils.h\<close>, \<^verbatim>\<open>utils.cc\<close>) at the unsigned types:
  powers of two, alignment, rounding, the highest set bit, bit lengths and bit reversal.  Where the
  source asserts that an argument is a power of two, that is a hypothesis of the lemmas.
\<close>

section \<open>Powers of two, alignment and rounding\<close>

definition IsPowerOfTwo :: "'a::len word \<Rightarrow> bool" where
  "IsPowerOfTwo x \<longleftrightarrow> (x AND (x - 1)) = 0 \<and> x \<noteq> 0"

function ShiftForPowerOfTwo_loop :: "'a::len word \<Rightarrow> nat \<Rightarrow> nat" where
  "ShiftForPowerOfTwo_loop x num_shifts =
     (if 1 < x then ShiftForPowerOfTwo_loop (drop_bit 1 x) (num_shifts + 1) else num_shifts)"
  by pat_completeness auto
termination
  by (relation "measure (\<lambda>(x, _). unat x)")
     (auto intro!: unat_drop_less)

declare ShiftForPowerOfTwo_loop.simps [simp del]

definition ShiftForPowerOfTwo :: "'a::len word \<Rightarrow> nat option" where
  "ShiftForPowerOfTwo x = (if IsPowerOfTwo x then Some (ShiftForPowerOfTwo_loop x 0) else None)"

definition IsAligned :: "'a::len word \<Rightarrow> 'a word \<Rightarrow> bool" where
  "IsAligned x n \<longleftrightarrow> (x AND (n - 1)) = 0"

definition RoundDown :: "'a::len word \<Rightarrow> 'a word \<Rightarrow> 'a word" where
  "RoundDown x n = x AND (- n)"

definition RoundUp :: "'a::len word \<Rightarrow> 'a word \<Rightarrow> 'a word" where
  "RoundUp x n = RoundDown (x + n - 1) n"

definition RoundUpToPowerOfTwo :: "u64 \<Rightarrow> u64" where
  "RoundUpToPowerOfTwo x0 =
     (let x = x0 - 1;
          x = x OR drop_bit 1 x;
          x = x OR drop_bit 2 x;
          x = x OR drop_bit 4 x;
          x = x OR drop_bit 8 x;
          x = x OR drop_bit 16 x;
          x = x OR drop_bit 32 x
      in x + 1)"

lemma pow2_minus_one_mask: "(2::'a::len word) ^ k - 1 = mask k"
  by (simp add: mask_eq_exp_minus_1)

lemma IsPowerOfTwo_pow2:
  assumes "k < LENGTH('a)"
  shows "IsPowerOfTwo ((2::'a::len word) ^ k)"
proof -
  have "(2::'a word) ^ k AND mask k = 0"
    by (rule bit_word_eqI) (auto simp: bit_simps)
  moreover have "(2::'a word) ^ k \<noteq> 0"
    using assms by (simp add: exp_eq_zero_iff)
  ultimately show ?thesis
    by (simp add: IsPowerOfTwo_def pow2_minus_one_mask)
qed

lemma IsPowerOfTwo_iff:
  fixes x :: "'a::len word"
  shows "IsPowerOfTwo x \<longleftrightarrow> (\<exists>k < LENGTH('a). x = 2 ^ k)"
proof
  assume pow: "IsPowerOfTwo x"
  then have nz: "x \<noteq> 0" and clr: "x AND (x - 1) = 0" by (auto simp: IsPowerOfTwo_def)
  from nz obtain k where k: "k < LENGTH('a)" "2 ^ k \<le> unat x" "unat x < 2 ^ Suc k"
    by (rule msb_split)
  have "x = 2 ^ k"
  proof (rule ccontr)
    assume ne: "x \<noteq> 2 ^ k"
    have u2: "unat ((2::'a word) ^ k) = 2 ^ k" using k(1) by simp
    have "unat x \<noteq> 2 ^ k" using ne u2 by (metis word_unat_eq_iff)
    then have gt: "2 ^ k < unat x" using k(2) by simp
    have um: "unat (x - 1) = unat x - 1" using nz by (simp add: unat_minus_one)
    have "bit x k" using k(2,3) by (rule bit_top)
    moreover have "bit (x - 1) k"
      using gt k(3) by (intro bit_top) (simp_all add: um)
    ultimately have "bit (x AND (x - 1)) k" by (simp add: bit_and_iff)
    with clr show False by simp
  qed
  then show "\<exists>k < LENGTH('a). x = 2 ^ k" using k(1) by blast
next
  assume "\<exists>k < LENGTH('a). x = 2 ^ k"
  then show "IsPowerOfTwo x" using IsPowerOfTwo_pow2 by blast
qed

lemma IsAligned_iff:
  fixes x n :: "'a::len word"
  assumes "IsPowerOfTwo n"
  shows "IsAligned x n \<longleftrightarrow> unat n dvd unat x"
proof -
  obtain k where k: "k < LENGTH('a)" "n = 2 ^ k" using assms by (auto simp: IsPowerOfTwo_iff)
  have "IsAligned x n \<longleftrightarrow> unat (x AND mask k) = 0"
    by (simp add: IsAligned_def k pow2_minus_one_mask unat_eq_0)
  also have "\<dots> \<longleftrightarrow> unat n dvd unat x"
    using k by (simp only: unat_and_mask) (simp add: dvd_eq_mod_eq_0)
  finally show ?thesis .
qed

lemma unat_RoundDown:
  fixes x n :: "'a::len word"
  assumes "IsPowerOfTwo n"
  shows "unat (RoundDown x n) = unat x div unat n * unat n"
proof -
  obtain k where k: "k < LENGTH('a)" "n = 2 ^ k" using assms by (auto simp: IsPowerOfTwo_iff)
  have "RoundDown x n = x AND NOT (mask k)"
    by (simp add: RoundDown_def k minus_exp_eq_not_mask)
  then show ?thesis using k by (simp only: unat_and_not_mask) simp
qed

lemma unat_RoundUp:
  fixes x n :: "'a::len word"
  assumes pow: "IsPowerOfTwo n" and fits: "unat x + unat n \<le> 2 ^ LENGTH('a)"
  shows "unat (RoundUp x n) = (unat x + unat n - 1) div unat n * unat n"
proof -
  have n: "n \<noteq> 0" using pow by (simp add: IsPowerOfTwo_def)
  then have n1: "unat (n - 1) = unat n - 1" by (simp add: unat_minus_one)
  have npos: "0 < unat n" using n by (simp add: unat_gt_0)
  have "x + n - 1 = x + (n - 1)" by (simp add: algebra_simps)
  moreover have "unat (x + (n - 1)) = unat x + unat n - 1"
    using fits npos by (subst unat_word_ariths(1)) (simp add: n1)
  ultimately show ?thesis
    using unat_RoundDown [OF pow, of "x + n - 1"] by (simp only: RoundUp_def)
qed

lemma ShiftForPowerOfTwo_loop_pow2:
  "k < LENGTH('a) \<Longrightarrow> ShiftForPowerOfTwo_loop ((2::'a::len word) ^ k) s = s + k"
proof (induction k arbitrary: s)
  case 0
  then show ?case by (subst ShiftForPowerOfTwo_loop.simps) simp
next
  case (Suc k)
  have "drop_bit 1 ((2::'a word) ^ Suc k) = 2 ^ k"
    using Suc.prems by (intro bit_word_eqI) (auto simp: bit_simps)
  moreover have "(1::'a word) < 2 ^ Suc k"
    using Suc.prems by (simp add: word_less_nat_alt del: power_Suc)
  ultimately show ?case
    using Suc by (subst ShiftForPowerOfTwo_loop.simps) simp
qed

lemma ShiftForPowerOfTwo_log:
  fixes x :: "'a::len word"
  shows "ShiftForPowerOfTwo x = Some k \<longleftrightarrow> k < LENGTH('a) \<and> x = 2 ^ k"
proof
  assume "ShiftForPowerOfTwo x = Some k"
  then show "k < LENGTH('a) \<and> x = 2 ^ k"
    by (auto simp: ShiftForPowerOfTwo_def IsPowerOfTwo_iff ShiftForPowerOfTwo_loop_pow2 split: if_splits)
next
  assume "k < LENGTH('a) \<and> x = 2 ^ k"
  then show "ShiftForPowerOfTwo x = Some k"
    by (auto simp: ShiftForPowerOfTwo_def IsPowerOfTwo_pow2 ShiftForPowerOfTwo_loop_pow2)
qed

section \<open>RoundUpToPowerOfTwo\<close>

text \<open>
  Each line of the routine doubles the width of the window of higher bits that is
  folded into a bit, so after the last line a bit is set iff some bit at or above
  it was set.
\<close>

lemma smear_step:
  fixes x y :: "'a::len word"
  assumes "\<And>i. bit y i \<longleftrightarrow> (\<exists>j<m. bit x (i + j))"
  shows "bit (y OR drop_bit m y) i \<longleftrightarrow> (\<exists>j<2 * m. bit x (i + j))"
proof -
  have "bit (y OR drop_bit m y) i \<longleftrightarrow> (\<exists>j<m. bit x (i + j)) \<or> (\<exists>j<m. bit x (m + i + j))"
    by (simp add: bit_or_iff bit_drop_bit_eq assms)
  also have "\<dots> \<longleftrightarrow> (\<exists>j<2 * m. bit x (i + j))" (is "?A \<longleftrightarrow> ?B")
  proof
    assume ?A
    then show ?B
    proof (elim disjE exE conjE)
      fix j assume "j < m" "bit x (i + j)"
      then show ?B by (intro exI [of _ j]) simp
    next
      fix j assume "j < m" "bit x (m + i + j)"
      then show ?B by (intro exI [of _ "m + j"]) (simp add: ac_simps)
    qed
  next
    assume ?B
    then obtain j where j: "j < 2 * m" "bit x (i + j)" by blast
    show ?A
    proof (cases "j < m")
      case False
      with j have "j - m < m" "bit x (m + i + (j - m))" by simp_all
      then show ?thesis by blast
    qed (use j in blast)
  qed
  finally show ?thesis .
qed

definition smear :: "u64 \<Rightarrow> u64" where
  "smear x = RoundUpToPowerOfTwo (x + 1) - 1"

lemma bit_smear: "bit (smear x) i \<longleftrightarrow> (\<exists>j<64. bit x (i + j))"
proof -
  have s0: "bit x i \<longleftrightarrow> (\<exists>j<1. bit x (i + j))" for i by simp
  note s1 = smear_step [OF s0]
  note s2 = smear_step [OF s1, simplified]
  note s3 = smear_step [OF s2, simplified]
  note s4 = smear_step [OF s3, simplified]
  note s5 = smear_step [OF s4, simplified]
  note s6 = smear_step [OF s5, simplified]
  show ?thesis using s6 by (simp add: smear_def RoundUpToPowerOfTwo_def Let_def)
qed

lemma smear_mask:
  assumes "2 ^ h \<le> unat x" "unat x < 2 ^ Suc h"
  shows "smear x = mask (Suc h)"
proof (rule bit_word_eqI)
  fix i assume i: "i < LENGTH(64)"
  have top: "bit x h" using assms by (rule bit_top)
  then have h: "h < 64" using bit_imp_le_length by fastforce
  have above: "\<not> bit x n" if "h < n" for n
  proof
    assume "bit x n"
    then have "2 ^ n \<le> unat x" by (rule bit_imp_exp_le)
    moreover have "(2::nat) ^ Suc h \<le> 2 ^ n" using that by (intro power_increasing) simp_all
    ultimately show False using assms(2) by simp
  qed
  show "bit (smear x) i = bit (mask (Suc h) :: u64) i"
  proof (cases "i \<le> h")
    case True
    with top h i have "\<exists>j<64. bit x (i + j)" by (intro exI [of _ "h - i"]) simp
    with True i show ?thesis by (simp add: bit_smear bit_mask_iff)
  next
    case False
    then show ?thesis using above by (simp add: bit_smear bit_mask_iff)
  qed
qed

lemma RoundUpToPowerOfTwo_smear: "RoundUpToPowerOfTwo x = smear (x - 1) + 1"
  by (simp add: smear_def)

lemma RoundUpToPowerOfTwo_value:
  assumes "2 ^ h < unat x" "unat x \<le> 2 ^ Suc h"
  shows "RoundUpToPowerOfTwo x = 2 ^ Suc h"
proof -
  have "x \<noteq> 0" using assms(1) by auto
  then have "unat (x - 1) = unat x - 1" by (simp add: unat_minus_one)
  then have "smear (x - 1) = mask (Suc h)"
    using assms by (intro smear_mask) simp_all
  then show ?thesis by (simp add: RoundUpToPowerOfTwo_smear mask_eq_exp_minus_1)
qed

text \<open>
  C39. For every \<open>x\<close> with \<open>0 < x \<le> 2 ^ 63\<close>, \<open>RoundUpToPowerOfTwo x\<close> is the least power of two that
  is at least \<open>x\<close>.
\<close>

theorem RoundUpToPowerOfTwo_least:
  assumes "x \<noteq> 0" and "x \<le> 2 ^ 63"
  shows "IsPowerOfTwo (RoundUpToPowerOfTwo x) \<and> x \<le> RoundUpToPowerOfTwo x
    \<and> (\<forall>p. IsPowerOfTwo p \<and> x \<le> p \<longrightarrow> RoundUpToPowerOfTwo x \<le> p)"
proof (cases "x = 1")
  case True
  then have "RoundUpToPowerOfTwo x = 1" by (simp add: RoundUpToPowerOfTwo_def)
  then show ?thesis
    using IsPowerOfTwo_pow2 [where k = 0 and 'a = 64] True by (auto simp: IsPowerOfTwo_def)
next
  case False
  let ?u = "unat x"
  have "x - 1 \<noteq> 0" using False by simp
  then obtain h where h: "h < 64" "2 ^ h \<le> unat (x - 1)" "unat (x - 1) < 2 ^ Suc h"
    by (rule msb_split) simp
  have m1: "unat (x - 1) = ?u - 1" using assms(1) by (simp add: unat_minus_one)
  have upos: "0 < ?u" using assms(1) by (simp add: unat_gt_0)
  have hb: "2 ^ h < ?u" "?u \<le> 2 ^ Suc h" using h m1 upos by simp_all
  have u63: "?u \<le> 2 ^ 63" using assms(2) by (simp add: word_le_nat_alt)
  have "(2::nat) ^ h < 2 ^ 63" using hb(1) u63 by (rule less_le_trans)
  then have h63: "h < 63" by (rule power_less_imp_less_exp [rotated]) simp
  have r: "RoundUpToPowerOfTwo x = 2 ^ Suc h" using hb by (rule RoundUpToPowerOfTwo_value)
  have ur: "unat ((2::u64) ^ Suc h) = 2 ^ Suc h" using h63 by (intro unat_exp) simp
  have least: "2 ^ Suc h \<le> p" if p: "IsPowerOfTwo p" "x \<le> p" for p :: u64
  proof -
    obtain k where k: "k < 64" "p = 2 ^ k" using p(1) by (auto simp: IsPowerOfTwo_iff)
    have "?u \<le> 2 ^ k" using p(2) k by (simp add: word_le_nat_alt)
    then have "(2::nat) ^ h < 2 ^ k" using hb(1) by (rule less_le_trans [rotated])
    then have "Suc h \<le> k" by simp
    then have "(2::nat) ^ Suc h \<le> 2 ^ k" by (intro power_increasing) simp_all
    then show ?thesis using k ur by (simp add: word_le_nat_alt del: power_Suc)
  qed
  show ?thesis
    using r least hb(2) ur h63 IsPowerOfTwo_pow2 [where k = "Suc h" and 'a = 64]
    by (auto simp: word_le_nat_alt simp del: power_Suc)
qed

theorem RoundUpToPowerOfTwo_least_witness:
  "IsPowerOfTwo (RoundUpToPowerOfTwo 100) \<and> 100 \<le> RoundUpToPowerOfTwo 100"
  using RoundUpToPowerOfTwo_least [of 100] by simp

section \<open>Bit counting and reversal\<close>

definition HighestBit_step :: "nat \<Rightarrow> u64 \<times> nat \<Rightarrow> u64 \<times> nat" where
  "HighestBit_step s = (\<lambda>(x, r). let t = drop_bit s x in if t \<noteq> 0 then (t, r + s) else (x, r))"

definition HighestBit :: "u64 \<Rightarrow> nat" where
  "HighestBit v =
     (let x = (if 0 <s v then v else - v);
          (x, r) = HighestBit_step 2 (HighestBit_step 4 (HighestBit_step 8
                     (HighestBit_step 16 (HighestBit_step 32 (x, 0)))))
      in if 1 < x then r + 1 else r)"

definition BitLength :: "u64 \<Rightarrow> nat" where
  "BitLength v =
     (let value = v XOR signed_drop_bit 63 v
      in if value = 0 then 0 else HighestBit value + 1)"

function ReverseBits64_loop :: "u64 \<Rightarrow> u64 \<Rightarrow> u64 \<Rightarrow> u64" where
  "ReverseBits64_loop x rbit result =
     (if x \<noteq> 0
      then ReverseBits64_loop (drop_bit 1 x) (drop_bit 1 rbit)
             (if x AND 1 \<noteq> 0 then result OR rbit else result)
      else result)"
  by pat_completeness auto
termination
  by (relation "measure (\<lambda>(x, _, _). unat x)") (auto intro!: unat_drop_less)

declare ReverseBits64_loop.simps [simp del]

definition ReverseBits64 :: "u64 \<Rightarrow> u64" where
  "ReverseBits64 x = ReverseBits64_loop x (push_bit 63 1) 0"

definition HighestBit_inv :: "nat \<Rightarrow> nat \<Rightarrow> u64 \<times> nat \<Rightarrow> bool" where
  "HighestBit_inv m s = (\<lambda>(x, r). unat x = m div 2 ^ r \<and> x \<noteq> 0 \<and> unat x < 2 ^ s)"

lemma HighestBit_step_inv:
  assumes "HighestBit_inv m (2 * s) p"
  shows "HighestBit_inv m s (HighestBit_step s p)"
proof -
  obtain x r where p: "p = (x, r)" by fastforce
  let ?t = "drop_bit s x"
  have t: "unat ?t = unat x div 2 ^ s" by (simp only: unat_drop_div)
  have "unat x < 2 ^ s * 2 ^ s" "unat x = m div 2 ^ r" "x \<noteq> 0"
    using assms by (simp_all add: HighestBit_inv_def p mult_2 power_add)
  then have bound: "unat ?t < 2 ^ s" and quot: "unat ?t = m div 2 ^ (r + s)"
    by (simp_all only: t less_mult_imp_div_less power_add div_mult2_eq)
  show ?thesis
  proof (cases "?t = 0")
    case True
    then have "unat x div 2 ^ s = 0" using t by simp
    then have "unat x < 2 ^ s" by (simp add: div_eq_0_iff)
    with True assms show ?thesis by (simp add: HighestBit_step_def HighestBit_inv_def p)
  next
    case False
    then show ?thesis
      using bound quot by (simp only: HighestBit_step_def HighestBit_inv_def p) simp
  qed
qed

lemma HighestBit_log:
  assumes "v \<noteq> 0" and "m = unat (if 0 <s v then v else - v)"
  shows "2 ^ HighestBit v \<le> m \<and> m < 2 ^ Suc (HighestBit v)"
proof -
  let ?x0 = "if 0 <s v then v else - v"
  let ?p = "HighestBit_step 2 (HighestBit_step 4 (HighestBit_step 8
              (HighestBit_step 16 (HighestBit_step 32 (?x0, 0)))))"
  have "HighestBit_inv m 64 (?x0, 0)"
    using assms unsigned_less [of ?x0, where ?'a = nat] by (simp add: HighestBit_inv_def)
  then have "HighestBit_inv m 32 (HighestBit_step 32 (?x0, 0))"
    using HighestBit_step_inv [where s = 32] by simp
  then have "HighestBit_inv m 16 (HighestBit_step 16 (HighestBit_step 32 (?x0, 0)))"
    using HighestBit_step_inv [where s = 16] by simp
  then have "HighestBit_inv m 8 (HighestBit_step 8 (HighestBit_step 16 (HighestBit_step 32 (?x0, 0))))"
    using HighestBit_step_inv [where s = 8] by simp
  then have "HighestBit_inv m 4 (HighestBit_step 4 (HighestBit_step 8
      (HighestBit_step 16 (HighestBit_step 32 (?x0, 0)))))"
    using HighestBit_step_inv [where s = 4] by simp
  then have "HighestBit_inv m 2 ?p"
    using HighestBit_step_inv [where s = 2] by simp
  then obtain x r where p: "?p = (x, r)" and x: "unat x = m div 2 ^ r" "x \<noteq> 0" "unat x < 4"
    by (cases ?p) (auto simp: HighestBit_inv_def)
  have hb: "HighestBit v = (if 1 < x then r + 1 else r)"
    unfolding HighestBit_def Let_def p by simp
  obtain q where m: "m = unat x * 2 ^ r + q" and lt: "q < 2 ^ r"
  proof (rule that)
    show "m = unat x * 2 ^ r + m mod 2 ^ r" by (simp only: x(1) div_mult_mod_eq)
  qed simp
  have "unat x = 1 \<or> unat x = 2 \<or> unat x = 3"
    using x(2,3) unat_gt_0 [of x] by linarith
  then show ?thesis
    using m lt hb by (auto simp: word_less_nat_alt)
qed

lemma signed_drop_bit_63: "signed_drop_bit 63 (v :: u64) = (if bit v 63 then - 1 else 0)"
  by (rule bit_word_eqI) (auto simp: bit_simps not_le)

lemma BitLength_value:
  defines "flip \<equiv> \<lambda>v :: u64. v XOR signed_drop_bit 63 v"
  shows "int (unat (flip v)) = (if 0 \<le> sint v then sint v else - sint v - 1)"
    and "\<not> bit (flip v) 63"
proof -
  note sd = signed_drop_bit_63 [of v]
  have neg: "sint v < 0 \<longleftrightarrow> bit v 63" by (simp add: sint_neg_iff)
  show "\<not> bit (flip v) 63"
    by (simp add: flip_def sd bit_xor_iff bit_minus_1_iff)
  show "int (unat (flip v)) = (if 0 \<le> sint v then sint v else - sint v - 1)"
  proof (cases "bit v 63")
    case True
    have "flip v = - v - 1" using True by (simp add: flip_def sd not_eq_complement)
    moreover have "uint (- v - 1) = 2 ^ 64 - 1 - uint v"
      using uint_lt2p [of v] minus_mod_int_eq [of "2 ^ 64" "uint v + 1"]
      by (simp add: uint_word_ariths mod_diff_left_eq)
    ultimately show ?thesis using True neg by (simp add: sint_unat)
  next
    case False
    then show ?thesis using neg by (simp add: flip_def sd sint_unat)
  qed
qed

lemma BitLength_fits:
  "- (2 ^ BitLength v) \<le> sint v \<and> sint v < 2 ^ BitLength v
   \<and> (\<forall>n. - (2 ^ n) \<le> sint v \<and> sint v < 2 ^ n \<longrightarrow> BitLength v \<le> n)"
proof -
  let ?w = "v XOR signed_drop_bit 63 v"
  note val = BitLength_value(1) [of v]
  have enc: "- (2 ^ n) \<le> sint v \<and> sint v < 2 ^ n \<longleftrightarrow> unat ?w < 2 ^ n" for n
  proof -
    have "unat ?w < 2 ^ n \<longleftrightarrow> int (unat ?w) < 2 ^ n"
      by (metis of_nat_less_iff of_nat_numeral of_nat_power)
    then show ?thesis using val by auto
  qed
  have least: "unat ?w < 2 ^ BitLength v \<and> (\<forall>n. unat ?w < 2 ^ n \<longrightarrow> BitLength v \<le> n)"
  proof (cases "?w = 0")
    case True
    then show ?thesis by (simp add: BitLength_def)
  next
    case False
    have "\<not> bit ?w 63" by (rule BitLength_value(2))
    then have "0 \<le> sint ?w" by (simp add: sint_unat)
    moreover have "sint ?w \<noteq> 0" using False by (simp add: signed_eq_0_iff)
    ultimately have "0 <s ?w" by (simp add: word_sless_alt)
    then have h: "2 ^ HighestBit ?w \<le> unat ?w" "unat ?w < 2 ^ Suc (HighestBit ?w)"
      using HighestBit_log [OF False refl] by simp_all
    have "BitLength v \<le> n" if "unat ?w < 2 ^ n" for n
    proof -
      from h(1) that have "(2::nat) ^ HighestBit ?w < 2 ^ n" by (rule le_less_trans)
      then show ?thesis using False by (simp add: BitLength_def Let_def)
    qed
    then show ?thesis using h(2) False by (simp add: BitLength_def Let_def)
  qed
  then show ?thesis by (simp add: enc conj_assoc [symmetric])
qed

text \<open>
  \<open>BitLength v\<close> is the least \<open>n\<close> such that the signed 64-bit value fits in \<open>n\<close> bits and a sign bit,
  for every value including the most negative one.
\<close>

theorem BitLength_least:
  "- (2 ^ BitLength v) \<le> sint v \<and> sint v < 2 ^ BitLength v
   \<and> (\<forall>n. - (2 ^ n) \<le> sint v \<and> sint v < 2 ^ n \<longrightarrow> BitLength v \<le> n)"
  by (rule BitLength_fits)

theorem BitLength_least_witness: "BitLength 0xFFFFFFFFFFFFFF00 \<le> 8"
proof -
  have "- (2 ^ 8) \<le> sint (0xFFFFFFFFFFFFFF00 :: u64) \<and> sint (0xFFFFFFFFFFFFFF00 :: u64) < 2 ^ 8" by simp
  then show ?thesis using BitLength_least [of "0xFFFFFFFFFFFFFF00"] by blast
qed

lemma ReverseBits64_loop_bits:
  assumes "k \<le> 64" "x = drop_bit k x0" "rbit = drop_bit k (push_bit 63 1)"
    and "\<And>i. i < 64 \<Longrightarrow> bit result i \<longleftrightarrow> 63 - i < k \<and> bit x0 (63 - i)"
    and "i < 64"
  shows "bit (ReverseBits64_loop x rbit result) i \<longleftrightarrow> bit x0 (63 - i)"
  using assms
proof (induction x rbit result arbitrary: k rule: ReverseBits64_loop.induct)
  case (1 x rbit result)
  show ?case
  proof (cases "x = 0")
    case True
    have "\<not> bit x0 (63 - i)" if "\<not> 63 - i < k"
    proof -
      have "bit x (63 - i - k) \<longleftrightarrow> bit x0 (63 - i)" using that
        by (simp only: "1.prems"(2) bit_drop_bit_eq o_def le_add_diff_inverse not_less)
      then show ?thesis using True by simp
    qed
    then show ?thesis using True "1.prems"(4,5) by (subst ReverseBits64_loop.simps) auto
  next
    case False
    have "drop_bit 64 x0 = 0" by (rule bit_word_eqI) (simp add: bit_simps)
    then have k: "k < 64" using "1.prems"(1,2) False by (cases "k = 64") auto
    have rbit: "rbit = 2 ^ (63 - k)"
    proof (rule bit_word_eqI)
      fix n assume "n < LENGTH(64)"
      then show "bit rbit n = bit (2 ^ (63 - k) :: u64) n"
        using k by (simp only: "1.prems"(3) bit_drop_bit_eq o_def bit_push_bit_iff bit_1_iff bit_exp_iff)
          (auto simp: possible_bit_word)
    qed
    have odd: "x AND 1 \<noteq> 0 \<longleftrightarrow> bit x0 k"
      by (simp add: "1.prems"(2) and_one_eq mod_2_eq_odd bit_iff_odd_drop_bit)
    have "bit (ReverseBits64_loop (drop_bit 1 x) (drop_bit 1 rbit)
            (if x AND 1 \<noteq> 0 then result OR rbit else result)) i \<longleftrightarrow> bit x0 (63 - i)"
    proof (rule "1.IH" [OF False, of "Suc k"])
      fix j assume j: "j < (64::nat)"
      show "bit (if x AND 1 \<noteq> 0 then result OR rbit else result) j
          \<longleftrightarrow> 63 - j < Suc k \<and> bit x0 (63 - j)"
        using "1.prems"(4) [OF j] k j odd
        by (auto simp: rbit bit_simps less_Suc_eq)
    qed (use k "1.prems" in \<open>simp_all add: drop_bit_drop_bit\<close>)
    then show ?thesis using False by (subst ReverseBits64_loop.simps) simp
  qed
qed

text \<open>Bit \<open>i\<close> of \<open>ReverseBits64 x\<close> is bit \<open>63 - i\<close> of \<open>x\<close>, although the loop stops at the last set bit.\<close>

theorem ReverseBits64_reverses:
  assumes "i < 64"
  shows "bit (ReverseBits64 x) i \<longleftrightarrow> bit x (63 - i)"
  unfolding ReverseBits64_def
  by (rule ReverseBits64_loop_bits [of 0]) (use assms in simp_all)

theorem ReverseBits64_reverses_witness: "bit (ReverseBits64 1) 63"
  using ReverseBits64_reverses [of 63 1] by simp

end
