(* ===== verification/Magic_Division.thy ===== *)
theory Magic_Division
  imports Platform_Utils "HOL-Library.Signed_Division"
begin

text \<open>
  Division of a 64-bit integer by a compile-time constant.  The optimizing compiler
  replaces it by a multiplication with a \<open>magic\<close> factor: \<open>CalculateMagicAndShiftForDivRem\<close>
  (\<^verbatim>\<open>runtime/platform/utils.cc\<close>) computes the factor and a shift, and
  \<open>EmitInt64ModTruncDiv\<close> (\<^verbatim>\<open>vm/compiler/backend/il_x64.cc\<close>, \<^verbatim>\<open>il_arm64.cc\<close>) emits the
  instruction sequence that uses them.  The model executes the emitted sequence on
  register values.  The search loop is a \<open>do ... while\<close> with no syntactic bound, so it is a
  partial function; it is shown to return for every divisor the compiler passes.
\<close>

section \<open>Magic numbers\<close>

partial_function (option) magic_loop ::
  "u64 \<Rightarrow> u64 \<Rightarrow> nat \<Rightarrow> u64 \<Rightarrow> u64 \<Rightarrow> u64 \<Rightarrow> u64 \<Rightarrow> (nat \<times> u64) option" where
  "magic_loop abs_d abs_nc p quotient1 remainder1 quotient2 remainder2 =
     (let p = p + 1;
          quotient1 = 2 * quotient1;
          remainder1 = 2 * remainder1;
          (quotient1, remainder1) =
            (if abs_nc \<le> remainder1 then (quotient1 + 1, remainder1 - abs_nc)
             else (quotient1, remainder1));
          quotient2 = 2 * quotient2;
          remainder2 = 2 * remainder2;
          (quotient2, remainder2) =
            (if abs_d \<le> remainder2 then (quotient2 + 1, remainder2 - abs_d)
             else (quotient2, remainder2));
          delta = abs_d - remainder2
      in if quotient1 < delta \<or> (quotient1 = delta \<and> remainder1 = 0)
         then magic_loop abs_d abs_nc p quotient1 remainder1 quotient2 remainder2
         else Some (p, quotient2))"

definition CalculateMagicAndShiftForDivRem :: "u64 \<Rightarrow> (u64 \<times> nat) option" where
  "CalculateMagicAndShiftForDivRem divisor =
     (if \<not> (divisor \<le>s - 2 \<or> 2 \<le>s divisor) then None else
      let ex = push_bit 63 1;
          abs_d = (if 0 \<le>s divisor then divisor else - divisor);
          sign_bit = drop_bit 63 divisor;
          tmp = ex + sign_bit;
          abs_nc = tmp - 1 - (tmp mod abs_d)
      in case magic_loop abs_d abs_nc 63 (ex div abs_nc) (ex mod abs_nc)
                (ex div abs_d) (ex mod abs_d) of
           None \<Rightarrow> None
         | Some (p, quotient2) \<Rightarrow>
             Some (if 0 <s divisor then quotient2 + 1 else - quotient2 - 1, p - 64))"

datatype op_kind = kMOD | kTRUNCDIV

definition mul_high :: "u64 \<Rightarrow> u64 \<Rightarrow> u64" where
  "mul_high a b = word_of_int ((sint a * sint b) div 2 ^ 64)"

definition EmitInt64ModTruncDiv :: "op_kind \<Rightarrow> u64 \<Rightarrow> u64 \<Rightarrow> u64 option" where
  "EmitInt64ModTruncDiv op divisor left =
     (if divisor \<le>s - 2 \<or> 2 \<le>s divisor then
        (case CalculateMagicAndShiftForDivRem divisor of
           None \<Rightarrow> None
         | Some (magic, shift) \<Rightarrow>
             let TMP = left;
                 RDX = mul_high magic TMP;
                 RDX = (if 0 <s divisor \<and> magic <s 0 then RDX + TMP
                        else if divisor <s 0 \<and> 0 <s magic then RDX - TMP else RDX);
                 RDX = (if shift \<noteq> 0 then signed_drop_bit shift RDX else RDX);
                 RAX = RDX;
                 RDX = drop_bit 63 RDX;
                 RDX = RDX + RAX
             in case op of
                  kTRUNCDIV \<Rightarrow> Some RDX
                | kMOD \<Rightarrow>
                    let RAX = TMP;
                        TMP = divisor;
                        RDX = RDX * TMP;
                        RAX = RAX - RDX;
                        RAX = (if 0 \<le>s RAX then RAX
                               else if 0 <s divisor then RAX + TMP else RAX - TMP)
                    in Some RAX)
      else None)"

definition EmitInt64ModTruncDiv_arm64 :: "op_kind \<Rightarrow> u64 \<Rightarrow> u64 \<Rightarrow> u64 option" where
  "EmitInt64ModTruncDiv_arm64 op divisor left =
     (if divisor \<le>s - 2 \<or> 2 \<le>s divisor then
        (case CalculateMagicAndShiftForDivRem divisor of
           None \<Rightarrow> None
         | Some (magic, shift) \<Rightarrow>
             let TMP2 = mul_high magic left;
                 TMP2 = (if 0 <s divisor \<and> magic <s 0 then TMP2 + left
                         else if divisor <s 0 \<and> 0 <s magic then TMP2 - left else TMP2);
                 TMP2 = (if shift \<noteq> 0 then signed_drop_bit shift TMP2 else TMP2)
             in case op of
                  kTRUNCDIV \<Rightarrow> Some (TMP2 - signed_drop_bit 63 TMP2)
                | kMOD \<Rightarrow>
                    let TMP2 = TMP2 - signed_drop_bit 63 TMP2;
                        TMP = divisor;
                        res = left - TMP2 * TMP;
                        TMP2 = (if 0 <s divisor then res + TMP else res - TMP)
                    in Some (if res <s 0 then TMP2 else res))
      else None)"

section \<open>Arithmetic of the magic quotient\<close>

lemma congruent_below:
  fixes a b D :: int
  assumes "a mod D = b mod D" "a < b + D" "0 < D"
  shows "a \<le> b"
proof -
  have "D dvd a - b" using assms(1) by (simp add: mod_eq_dvd_iff)
  then obtain k where k: "a - b = D * k" by (elim dvdE)
  have "D * k < D * 1" using k assms(2) by simp
  then have "k < 1" using assms(3) by (simp only: mult_less_cancel_left_pos)
  then have "D * k \<le> 0" using assms(3) by (simp add: mult_le_0_iff)
  with k show ?thesis by simp
qed

lemma magic_strict:
  fixes D e nc P n :: int
  assumes "2 \<le> D" "0 < e" "nc mod D = D - 1" "D - 1 \<le> nc" "nc * e < P"
    and "0 \<le> n" "n < nc + D"
  shows "n * e < (D - n mod D) * P"
proof -
  let ?r = "n mod D"
  have r: "0 \<le> ?r" "?r < D" using assms(1) by simp_all
  have P: "0 < P" 
  proof -
    have "0 \<le> nc * e" using assms(1,2,4) by simp
    then show ?thesis using assms(5) by simp
  qed
  let ?k = "n - (?r + 1)"
  have "?k mod D = (- 1) mod D" by (simp add: mod_diff_eq [of n D "?r + 1", symmetric] mod_simps)
  also have "\<dots> = nc mod D" using assms(1,3) by (simp add: zmod_minus1)
  finally have kmod: "?k mod D = nc mod D" .
  have "?k < nc + D" and D0: "0 < D" using assms(1,7) r(1) by linarith+
  with kmod have "?k \<le> nc" by (intro congruent_below)
  then have k: "?k * e \<le> nc * e" using assms(2) by simp
  show ?thesis
  proof (cases "?r = D - 1")
    case True
    have "n \<le> nc" using True assms(3,7) D0 by (intro congruent_below) simp_all
    then have "n * e \<le> nc * e" using assms(2) by simp
    then show ?thesis using True assms(5) by simp
  next
    case False
    then have r1: "?r + 1 \<le> D - 1" using r by simp
    then have "(?r + 1) * e \<le> (D - 1) * e" using assms(2) by (intro mult_right_mono) simp_all
    also have "\<dots> \<le> nc * e" using assms(2,4) by (intro mult_right_mono) simp_all
    finally have "?k * e + (?r + 1) * e < 2 * P" using k assms(5) by linarith
    moreover have "2 * P \<le> (D - ?r) * P" using r1 P by (intro mult_right_mono) simp_all
    ultimately show ?thesis by (simp add: algebra_simps)
  qed
qed

lemma magic_bracket:
  fixes D e M P n :: int
  assumes "M * D = P + e" "0 < D" "0 < e" "0 < P"
  shows "0 \<le> n \<Longrightarrow> n div D * P \<le> M * n"
    and "0 < n \<Longrightarrow> n div D * P < M * n"
    and "n * e < (D - n mod D) * P \<Longrightarrow> M * n < (n div D + 1) * P"
    and "n * e \<le> (D - n mod D) * P \<Longrightarrow> M * n \<le> (n div D + 1) * P"
proof -
  let ?q = "n div D" and ?r = "n mod D"
  obtain q r where qr: "?q = q" "?r = r" and n: "n = q * D + r" by (metis div_mult_mod_eq)
  have "(M * n) * D = (P + e) * n" using assms(1) by (simp add: ac_simps)
  also have "\<dots> = P * (q * D + r) + e * n" using n by (simp add: algebra_simps)
  finally have key: "(M * n) * D = ?q * P * D + ?r * P + n * e"
    unfolding qr by (simp add: algebra_simps)
  have r: "0 \<le> ?r" using assms(2) by simp
  have rP: "0 \<le> ?r * P" using r assms(4) by simp
  show "?q * P \<le> M * n" if "0 \<le> n"
  proof -
    have "0 \<le> n * e" using that assms(3) by simp
    then have "?q * P * D \<le> (M * n) * D" using key rP by linarith
    then show ?thesis using assms(2) by (simp only: mult_le_cancel_right_pos)
  qed
  show "?q * P < M * n" if "0 < n"
  proof -
    have "0 < n * e" using that assms(3) by simp
    then have "?q * P * D < (M * n) * D" using key rP by linarith
    then show ?thesis using assms(2) by (simp only: mult_less_cancel_right_pos)
  qed
  show "M * n < (?q + 1) * P" if "n * e < (D - ?r) * P"
  proof -
    have "(M * n) * D < ((?q + 1) * P) * D" using key that by (simp add: algebra_simps)
    then show ?thesis using assms(2) by (simp only: mult_less_cancel_right_pos)
  qed
  show "M * n \<le> (?q + 1) * P" if "n * e \<le> (D - ?r) * P"
  proof -
    have "(M * n) * D \<le> ((?q + 1) * P) * D" using key that by (simp add: algebra_simps)
    then show ?thesis using assms(2) by (simp only: mult_le_cancel_right_pos)
  qed
qed

lemma magic_floor:
  fixes D e M P n :: int
  assumes "M * D = P + e" "0 < D" "0 < e" "0 < P" "0 \<le> n" "n * e < (D - n mod D) * P"
  shows "(M * n) div P = n div D"
  using magic_bracket(1) [OF assms(1-4), of n] magic_bracket(3) [OF assms(1-4), of n] assms
  by (intro int_div_pos_eq [where r = "M * n - n div D * P"]) (simp_all add: algebra_simps)

lemma magic_ceiling:
  fixes D e M P n :: int
  assumes "M * D = P + e" "0 < D" "0 < e" "0 < P" "0 < n" "n * e \<le> (D - n mod D) * P"
  shows "(- (M * n)) div P = - (n div D) - 1"
  using magic_bracket(2) [OF assms(1-4), of n] magic_bracket(4) [OF assms(1-4), of n] assms
  by (intro int_div_pos_eq [where r = "(n div D + 1) * P - M * n"]) (simp_all add: algebra_simps)

text \<open>
  The numerator \<open>-2 ^ 63\<close> of a positive divisor lies one past the range the choice of
  \<open>nc\<close> accounts for when \<open>2 ^ 63 mod D = D - 1\<close>.
\<close>

lemma magic_extreme:
  fixes D S H :: int
  assumes "2 \<le> D" "0 < S" "H mod D = D - 1"
  shows "H * (D - (H * S) mod D) \<le> (D - H mod D) * (H * S) \<or> H < 0"
proof (cases "H < 0")
  case False
  have "(H * S) mod D = ((H mod D) * S) mod D" by (simp add: mod_mult_left_eq)
  also have "\<dots> = (D * S - S) mod D" by (simp only: assms(3)) (simp add: algebra_simps)
  also have "\<dots> = (- S) mod D" by (simp add: mod_diff_left_eq [of "D * S", symmetric])
  finally have m: "(H * S) mod D = (- S) mod D" .
  have "D - (- S) mod D \<le> S"
  proof (cases "S < D")
    case True
    then have "(- S) mod D = D - S" using assms(1,2) by (simp add: zmod_zminus1_eq_if)
    then show ?thesis by simp
  next
    case False
    have "0 \<le> (- S) mod D" using assms(1) by simp
    then show ?thesis using False by simp
  qed
  then have "H * (D - (H * S) mod D) \<le> H * S" using False m by (intro mult_left_mono) simp_all
  then show ?thesis using assms(3) by simp
qed simp

section \<open>The search for the shift\<close>

lemma double_div_mod:
  fixes n d :: nat
  assumes "0 < d"
  shows "(2 * n) div d = (if d \<le> 2 * (n mod d) then 2 * (n div d) + 1 else 2 * (n div d))"
    and "(2 * n) mod d = (if d \<le> 2 * (n mod d) then 2 * (n mod d) - d else 2 * (n mod d))"
proof -
  obtain q r where qr: "n div d = q" "n mod d = r" and n: "n = q * d + r" by (metis div_mult_mod_eq)
  have r: "r < d" using qr(2) assms by auto
  show "(2 * n) div d = (if d \<le> 2 * (n mod d) then 2 * (n div d) + 1 else 2 * (n div d))"
    unfolding qr using r by (auto simp: n algebra_simps intro!: div_nat_eqI)
  then show "(2 * n) mod d = (if d \<le> 2 * (n mod d) then 2 * (n mod d) - d else 2 * (n mod d))"
    unfolding qr using r by (auto simp: n algebra_simps modulo_nat_def)
qed

definition magic_err :: "nat \<Rightarrow> nat \<Rightarrow> nat" where
  "magic_err D p = D - 2 ^ p mod D"

lemma magic_err_bounds: "0 < D \<Longrightarrow> 0 < magic_err D p" "magic_err D p \<le> D"
  by (simp_all add: magic_err_def)

lemma magic_err_dvd: "0 < D \<Longrightarrow> magic_err D p = D \<longleftrightarrow> D dvd 2 ^ p"
  by (auto simp: magic_err_def dvd_eq_mod_eq_0)

lemma magic_continue_iff:
  fixes N d e :: nat
  assumes "0 < d"
  shows "N div d < e \<or> (N div d = e \<and> N mod d = 0) \<longleftrightarrow> N \<le> d * e"
proof -
  obtain q r where qr: "N div d = q" "N mod d = r" and n: "N = q * d + r" by (metis div_mult_mod_eq)
  have r: "r < d" using qr(2) assms by auto
  show ?thesis unfolding qr
  proof (cases rule: linorder_cases [of q e])
    case less
    then have "q * d + d \<le> e * d" by (metis Suc_leI add.commute mult_Suc mult_le_mono1)
    then show "(q < e \<or> q = e \<and> r = 0) \<longleftrightarrow> N \<le> d * e" using less r n by (simp add: mult.commute)
  next
    case equal
    then show "(q < e \<or> q = e \<and> r = 0) \<longleftrightarrow> N \<le> d * e" using n by (auto simp: mult.commute)
  next
    case greater
    then have "e * d + d \<le> q * d" by (metis Suc_leI add.commute mult_Suc mult_le_mono1)
    then show "(q < e \<or> q = e \<and> r = 0) \<longleftrightarrow> N \<le> d * e" using greater assms n by (simp add: mult.commute)
  qed
qed

text \<open>One doubling of a quotient and remainder pair on words.\<close>

lemma double_pair:
  fixes d q r :: u64
  assumes "d \<noteq> 0" "unat d \<le> 2 ^ 63" "unat q = N div unat d" "unat r = N mod unat d"
    and "N div unat d < 2 ^ 63"
    and "(q', r') = (if d \<le> 2 * r then (2 * q + 1, 2 * r - d) else (2 * q, 2 * r))"
  shows "unat q' = (2 * N) div unat d" and "unat r' = (2 * N) mod unat d"
proof -
  have d0: "0 < unat d" using assms(1) by (simp add: unat_gt_0)
  have r: "unat r < unat d" using assms(4) d0 by simp
  have u2: "unat (2 * w) = 2 * unat w" if "unat w < 2 ^ 63" for w :: u64
    using that by (simp add: unat_word_ariths)
  have ur: "unat (2 * r) = 2 * unat r" using r assms(2) by (intro u2) simp
  have uq: "unat (2 * q) = 2 * unat q" using assms(3,5) by (intro u2) simp
  have uq1: "unat (2 * q + 1) = 2 * unat q + 1"
    using uq assms(3,5) by (subst unat_word_ariths) simp
  have le: "d \<le> 2 * r \<longleftrightarrow> unat d \<le> 2 * (N mod unat d)"
    by (simp add: word_le_nat_alt ur assms(4))
  have us: "unat (2 * r - d) = 2 * unat r - unat d" if "d \<le> 2 * r"
    using that ur by (simp add: unat_sub)
  show "unat q' = (2 * N) div unat d" "unat r' = (2 * N) mod unat d"
    using assms(6) le us uq uq1 ur
    by (auto simp: double_div_mod [OF d0] assms(3,4) split: if_splits)
qed

definition magic_open :: "nat \<Rightarrow> nat \<Rightarrow> nat \<Rightarrow> bool" where
  "magic_open D C p \<longleftrightarrow> p = 63 \<or> 2 ^ p \<le> C * magic_err D p"

lemma magic_open_bound:
  assumes "magic_open D C p" "D \<le> 2 ^ 63" "C \<le> 2 ^ 63"
  shows "p \<le> 126"
proof (cases "p = 63")
  case False
  then have "2 ^ p \<le> C * magic_err D p" using assms(1) by (simp add: magic_open_def)
  also have "\<dots> \<le> 2 ^ 63 * 2 ^ 63"
    using assms(2,3) magic_err_bounds(2) [of D p] by (intro mult_le_mono) simp_all
  also have "\<dots> = (2::nat) ^ 126" by simp
  finally show ?thesis by (rule power_le_imp_le_exp [rotated]) simp
qed simp

lemma magic_loop_correct:
  fixes d nc :: u64
  defines "D \<equiv> unat d" and "C \<equiv> unat nc"
  assumes bounds: "0 < D" "D \<le> 2 ^ 63" "0 < C" "C \<le> 2 ^ 63"
    and small: "\<And>p. magic_open D C p \<Longrightarrow> 2 ^ p div C < 2 ^ 63 \<and> 2 ^ p div D < 2 ^ 63"
    and inv: "magic_open D C p" "63 \<le> p"
      "unat q1 = 2 ^ p div C" "unat r1 = 2 ^ p mod C" "unat q2 = 2 ^ p div D" "unat r2 = 2 ^ p mod D"
  shows "\<exists>p' q. magic_loop d nc p q1 r1 q2 r2 = Some (Suc p', q) \<and> 63 \<le> p'
      \<and> magic_open D C p' \<and> C * magic_err D (Suc p') < 2 ^ Suc p' \<and> unat q = 2 ^ Suc p' div D"
  using inv
proof (induction "126 - p" arbitrary: p q1 r1 q2 r2 rule: less_induct)
  case less
  have nz: "d \<noteq> 0" "nc \<noteq> 0" using bounds(1,3) by (auto simp: D_def C_def)
  obtain q1' r1' where s1: "(q1', r1') = (if nc \<le> 2 * r1 then (2 * q1 + 1, 2 * r1 - nc) else (2 * q1, 2 * r1))"
    by (metis surj_pair)
  obtain q2' r2' where s2: "(q2', r2') = (if d \<le> 2 * r2 then (2 * q2 + 1, 2 * r2 - d) else (2 * q2, 2 * r2))"
    by (metis surj_pair)
  have v1: "unat q1' = 2 ^ Suc p div C" "unat r1' = 2 ^ Suc p mod C"
    using double_pair [OF nz(2) _ _ _ _ s1, of "2 ^ p"] bounds(4) less.prems small [OF less.prems(1)]
    by (simp_all add: C_def)
  have v2: "unat q2' = 2 ^ Suc p div D" "unat r2' = 2 ^ Suc p mod D"
    using double_pair [OF nz(1) _ _ _ _ s2, of "2 ^ p"] bounds(2) less.prems small [OF less.prems(1)]
    by (simp_all add: D_def)
  have "r2' \<le> d" using v2(2) bounds(1) by (simp add: word_le_nat_alt D_def)
  then have delta: "unat (d - r2') = magic_err D (Suc p)"
    using v2(2) by (simp add: unat_sub magic_err_def D_def)
  have cont: "q1' < d - r2' \<or> q1' = d - r2' \<and> r1' = 0 \<longleftrightarrow> 2 ^ Suc p \<le> C * magic_err D (Suc p)"
    using magic_continue_iff [OF bounds(3), of "2 ^ Suc p" "magic_err D (Suc p)"]
    by (simp add: word_less_nat_alt word_unat_eq_iff v1 delta del: power_Suc)
  have step: "magic_loop d nc p q1 r1 q2 r2 =
      (if 2 ^ Suc p \<le> C * magic_err D (Suc p) then magic_loop d nc (Suc p) q1' r1' q2' r2'
       else Some (Suc p, q2'))"
    unfolding cont [symmetric]
    by (subst magic_loop.simps) (simp add: s1 [symmetric] s2 [symmetric])
  show ?case
  proof (cases "2 ^ Suc p \<le> C * magic_err D (Suc p)")
    case True
    then have op: "magic_open D C (Suc p)" by (simp add: magic_open_def)
    then have "Suc p \<le> 126" using bounds(2,4) by (rule magic_open_bound)
    then have "126 - Suc p < 126 - p" by simp
    from less.hyps [OF this op _ v1 v2] less.prems(2) True show ?thesis
      by (simp add: step del: power_Suc)
  next
    case False
    then show ?thesis using less.prems v2(1) by (auto simp: step simp del: power_Suc)
  qed
qed

definition magic_params :: "nat \<Rightarrow> nat \<Rightarrow> nat \<Rightarrow> bool" where
  "magic_params D s C \<longleftrightarrow> 2 \<le> D \<and> s \<le> 1 \<and> D + 1 \<le> 2 ^ 63 + s
     \<and> C = (2 ^ 63 + s) - 1 - (2 ^ 63 + s) mod D"

lemma magic_params_bounds:
  assumes "magic_params D s C"
  shows "D \<le> 2 ^ 63" "C \<le> 2 ^ 63 - 1 + s" "2 ^ 63 + s \<le> C + D" "C mod D = D - 1" "D - 1 \<le> C" "2 \<le> C"
    "C \<le> 2 ^ 63"
proof -
  let ?t = "2 ^ 63 + s :: nat"
  have D: "2 \<le> D" "s \<le> 1" "D + 1 \<le> ?t" and C: "C = ?t - 1 - ?t mod D"
    using assms by (auto simp: magic_params_def)
  show "D \<le> 2 ^ 63" "C \<le> 2 ^ 63 - 1 + s" "C \<le> 2 ^ 63" using D C by simp_all
  have lt: "?t mod D < D" using D(1) by (intro mod_less_divisor) simp
  then show ge: "?t \<le> C + D" using C D by linarith
  obtain k r where k: "?t div D = k" "?t mod D = r" and t: "?t = k * D + r"
    by (metis div_mult_mod_eq)
  have k1: "1 \<le> k" using D(1,3) lt t unfolding k by (cases k) auto
  then obtain j where j: "k = Suc j" by (cases k) auto
  have Cv: "C = j * D + (D - 1)" using C t D(1) unfolding k j by simp
  show "C mod D = D - 1" using D(1) by (simp only: Cv mod_mult_self3) simp
  show "D - 1 \<le> C" by (simp add: Cv)
  then show "2 \<le> C" using ge D by simp
qed

lemma dvd_exp2:
  fixes n :: nat
  assumes "n dvd 2 ^ p"
  shows "\<exists>i. n = 2 ^ i"
  using assms
proof (induction p arbitrary: n)
  case 0
  then show ?case by (auto intro: exI [of _ 0])
next
  case (Suc p)
  show ?case
  proof (cases "even n")
    case True
    then obtain m where m: "n = 2 * m" by (elim evenE)
    then have "m dvd 2 ^ p" using Suc.prems by simp
    then obtain i where "m = 2 ^ i" using Suc.IH by blast
    then have "n = 2 ^ Suc i" using m by simp
    then show ?thesis by blast
  next
    case False
    then have "coprime n 2" by simp
    then have "n dvd 2 ^ p" using Suc.prems by (simp add: coprime_dvd_mult_right_iff)
    then show ?thesis by (rule Suc.IH)
  qed
qed

lemma magic_params_not_dvd:
  assumes "magic_params D s C" "C = 2 ^ 63"
  shows "\<not> D dvd 2 ^ j"
proof
  assume "D dvd 2 ^ j"
  then obtain i where i: "D = 2 ^ i" using dvd_exp2 by blast
  note b = magic_params_bounds [OF assms(1)]
  have "(2::nat) ^ i \<le> 2 ^ 63" using b(1) i by simp
  then have "i \<le> 63" by (rule power_le_imp_le_exp [rotated]) simp
  then have "D dvd C" using le_imp_power_dvd [of i 63 "2::nat"] assms(2) i by simp
  then show False using b(4) assms(1) by (simp add: magic_params_def)
qed

lemma odd_dvd_exp: "odd C \<Longrightarrow> C dvd 2 ^ p \<Longrightarrow> C = 1" for C :: nat
  using dvd_exp2 [of C p] by auto

lemma magic_params_small:
  assumes "magic_params D s C" "magic_open D C p"
  shows "2 ^ p div C < 2 ^ 63 \<and> 2 ^ p div D < 2 ^ 63"
proof -
  note b = magic_params_bounds [OF assms(1)]
  have D2: "2 \<le> D" using assms(1) by (simp add: magic_params_def)
  let ?e = "magic_err D p"
  consider "p = 63" | "2 ^ p \<le> C * ?e" using assms(2) by (auto simp: magic_open_def)
  then show ?thesis
  proof cases
    case 1
    have "(2::nat) ^ 63 div C \<le> 2 ^ 63 div 2" "(2::nat) ^ 63 div D \<le> 2 ^ 63 div 2"
      using b(6) D2 by (intro div_le_mono2; simp)+
    then show ?thesis using 1 by simp
  next
    case 2
    have e: "?e \<le> D" by (rule magic_err_bounds)
    have C0: "0 < C" using b(6) by simp
    have "2 ^ p div C \<le> ?e" using div_le_mono [OF 2, of C] C0 by simp
    moreover have "2 ^ p div C \<noteq> 2 ^ 63"
    proof
      assume eq: "2 ^ p div C = 2 ^ 63"
      then have "?e = 2 ^ 63" "D = 2 ^ 63" using \<open>2 ^ p div C \<le> ?e\<close> e b(1) by linarith+
      moreover have "C * 2 ^ 63 \<le> 2 ^ p" 
        using eq div_times_less_eq_dividend [of "2 ^ p" C] by (simp add: mult.commute)
      ultimately have "2 ^ p = C * 2 ^ 63" using 2 by simp
      then have "C dvd 2 ^ p" by simp
      moreover have "odd C"
      proof
        assume "even C"
        then have "even (C mod D)" using \<open>D = 2 ^ 63\<close> by (intro dvd_mod) simp_all
        then show False using b(4) \<open>D = 2 ^ 63\<close> by simp
      qed
      ultimately show False using odd_dvd_exp b(6) by fastforce
    qed
    moreover have "2 ^ p div D \<le> C"
    proof -
      have "2 ^ p \<le> C * D" using 2 e by (meson mult_le_mono2 le_trans)
      then have "2 ^ p div D \<le> C * D div D" by (rule div_le_mono)
      then show ?thesis using D2 by simp
    qed
    moreover have "2 ^ p div D \<noteq> 2 ^ 63"
    proof
      assume eq: "2 ^ p div D = 2 ^ 63"
      then have C: "C = 2 ^ 63" using \<open>2 ^ p div D \<le> C\<close> b(7) by linarith
      have "C * D \<le> 2 ^ p" using eq C div_times_less_eq_dividend [of "2 ^ p" D] by simp
      then have "C * D \<le> C * ?e" using 2 by linarith
      then have "?e = D" using C0 e by simp
      then have "D dvd 2 ^ p" using D2 by (simp add: magic_err_dvd)
      then show False using magic_params_not_dvd [OF assms(1) C] by blast
    qed
    ultimately show ?thesis using e b(1,7) by linarith
  qed
qed

lemma magic_params_fits:
  assumes "magic_params D s C" "magic_open D C p"
  shows "2 ^ Suc p div D + 1 < 2 ^ 64"
proof -
  note b = magic_params_bounds [OF assms(1)]
  have D2: "2 \<le> D" using assms(1) by (simp add: magic_params_def)
  let ?e = "magic_err D p"
  consider "p = 63" | "2 ^ p \<le> C * ?e" using assms(2) by (auto simp: magic_open_def)
  then show ?thesis
  proof cases
    case 1
    have "(2::nat) ^ Suc 63 div D \<le> 2 ^ Suc 63 div 2" using D2 by (intro div_le_mono2) simp_all
    then show ?thesis using 1 by simp
  next
    case 2
    have lt: "2 * (C * ?e) < (2 ^ 64 - 1) * D"
    proof (cases "C = 2 ^ 63")
      case True
      have "?e \<noteq> D" using magic_params_not_dvd [OF assms(1) True] D2 by (simp add: magic_err_dvd)
      then have "?e \<le> D - 1" using magic_err_bounds(2) [of D p] by linarith
      then have "2 * (C * ?e) \<le> 2 ^ 64 * (D - 1)" using True by simp
      then show ?thesis using b(1) D2 by (simp add: algebra_simps)
    next
      case False
      then have "C \<le> 2 ^ 63 - 1" using b(7) by simp
      then have "C * ?e \<le> (2 ^ 63 - 1) * D" using magic_err_bounds(2) [of D p] by (intro mult_le_mono)
      then show ?thesis using D2 by simp
    qed
    have "2 ^ Suc p < (2 ^ 64 - 1) * D" using 2 lt by simp
    then have "2 ^ Suc p div D < 2 ^ 64 - 1" by (rule less_mult_imp_div_less)
    then show ?thesis by simp
  qed
qed

lemma word_sabs:
  fixes d :: u64
  shows "unat (if 0 \<le>s d then d else - d) = nat \<bar>sint d\<bar>"
proof (cases "0 \<le> sint d")
  case True
  then have "\<not> bit d 63" using sint_neg_iff [of d] by auto
  then show ?thesis using True by (simp add: word_sle_eq sint_unat)
next
  case False
  then have b: "bit d 63" using sint_neg_iff [of d] by auto
  then have "d \<noteq> 0" by auto
  have "int (unat (- d)) = (- int (unat d)) mod 2 ^ 64"
    by (simp add: uint_word_ariths)
  also have "\<dots> = 2 ^ 64 - int (unat d)"
    using \<open>d \<noteq> 0\<close> uint_lt2p [of d] by (simp add: zmod_zminus1_eq_if uint_0_iff)
  finally have "int (unat (- d)) = 2 ^ 64 - int (unat d)" .
  moreover have "sint d = int (unat d) - 2 ^ 64" using b by (simp only: sint_unat) simp
  ultimately have "int (unat (- d)) = - sint d" by simp
  then show ?thesis using False by (simp add: word_sle_eq del: of_nat_unat)
qed

lemma sign_bit_unat:
  fixes d :: u64
  shows "unat (drop_bit 63 d) = (if sint d < 0 then 1 else 0)"
proof -
  have "drop_bit 63 d = (if bit d 63 then 1 else 0)"
  proof (rule bit_word_eqI)
    fix n :: nat
    show "bit (drop_bit 63 d) n = bit (if bit d 63 then 1 else 0 :: u64) n"
      by (cases "n = 0") (auto simp: bit_simps dest: bit_imp_le_length)
  qed
  then show ?thesis using sint_neg_iff [of d] by simp
qed

lemma CalculateMagicAndShiftForDivRem_spec:
  fixes d :: u64
  assumes range: "sint d \<le> - 2 \<or> 2 \<le> sint d"
  defines "D \<equiv> nat \<bar>sint d\<bar>" and "s \<equiv> if sint d < 0 then 1 else (0::nat)"
  shows "\<exists>C shift M. CalculateMagicAndShiftForDivRem d
            = Some (if 0 <s d then of_nat M else - of_nat M, shift)
      \<and> shift \<le> 63 \<and> M = 2 ^ (64 + shift) div D + 1 \<and> M < 2 ^ 64
      \<and> magic_params D s C \<and> C * magic_err D (64 + shift) < 2 ^ (64 + shift)"
proof -
  let ?ex = "push_bit 63 1 :: u64"
  let ?abs = "if 0 \<le>s d then d else - d"
  let ?tmp = "?ex + drop_bit 63 d"
  let ?nc = "?tmp - 1 - ?tmp mod ?abs"
  have sl: "- (2 ^ 63) \<le> sint d" "sint d < 2 ^ 63"
    using sint_ge [of d] sint_lt [of d] by simp_all
  have D: "2 \<le> D" "D + 1 \<le> 2 ^ 63 + s" using range sl by (auto simp: D_def s_def)
  have uabs: "unat ?abs = D" unfolding D_def by (rule word_sabs)
  have uex: "unat ?ex = 2 ^ 63" by simp
  have us: "unat (drop_bit 63 d) = s" unfolding s_def by (rule sign_bit_unat)
  have s1: "s \<le> 1" by (simp add: s_def)
  have utmp: "unat ?tmp = 2 ^ 63 + s"
    using us s1 uex by (subst unat_word_ariths) simp
  define C where "C = 2 ^ 63 + s - 1 - (2 ^ 63 + s) mod D"
  have par: "magic_params D s C" using D s1 by (simp add: magic_params_def C_def)
  note b = magic_params_bounds [OF par]
  have "?tmp \<noteq> 0" using utmp by auto
  from unat_minus_one [OF this] have t1: "unat (?tmp - 1) = 2 ^ 63 + s - 1" by (simp only: utmp)
  have tm: "unat (?tmp mod ?abs) = (2 ^ 63 + s) mod D" using utmp uabs by (simp only: unat_mod)
  have "(2 ^ 63 + s) mod D < D" using D(1) by simp
  then have "?tmp mod ?abs \<le> ?tmp - 1" using D(2) t1 tm by (simp only: word_le_nat_alt)
  then have unc: "unat ?nc = C" using t1 tm by (simp only: unat_sub C_def)
  obtain p' q where loop: "magic_loop ?abs ?nc 63 (?ex div ?nc) (?ex mod ?nc) (?ex div ?abs) (?ex mod ?abs)
          = Some (Suc p', q)" and p': "63 \<le> p'" "magic_open D C p'"
      "C * magic_err D (Suc p') < 2 ^ Suc p'" "unat q = 2 ^ Suc p' div D"
  proof -
    have b': "0 < D" "D \<le> 2 ^ 63" "0 < C" "C \<le> 2 ^ 63" "magic_open D C 63" "(63::nat) \<le> 63"
      using D(1) b by (simp_all add: magic_open_def)
    have init: "unat (?ex div ?nc) = 2 ^ 63 div C" "unat (?ex mod ?nc) = 2 ^ 63 mod C"
      "unat (?ex div ?abs) = 2 ^ 63 div D" "unat (?ex mod ?abs) = 2 ^ 63 mod D"
      by (simp_all only: unat_div unat_mod uex uabs unc)
    show ?thesis
      using magic_loop_correct [of ?abs ?nc 63, unfolded uabs unc, OF b'(1-4)
          magic_params_small [OF par] b'(5,6) init] that by blast
  qed
  define M where "M = 2 ^ Suc p' div D + 1"
  have M: "M < 2 ^ 64" unfolding M_def by (rule magic_params_fits [OF par p'(2)])
  have qM: "q + 1 = of_nat M" unfolding M_def p'(4) [symmetric] by simp
  then have qM': "- q - 1 = - of_nat M" by (simp flip: qM)
  have p126: "p' \<le> 126" using p'(2) b(1,7) by (rule magic_open_bound)
  have e: "64 + (Suc p' - 64) = Suc p'" using p'(1) by simp
  have "CalculateMagicAndShiftForDivRem d
      = Some (if 0 <s d then of_nat M else - of_nat M, Suc p' - 64)"
    unfolding CalculateMagicAndShiftForDivRem_def Let_def loop
    using range by (simp add: qM qM' word_sle_eq)
  then show ?thesis
    using M par p'(3) p126 e by (intro exI [of _ C] exI [of _ "Suc p' - 64"] exI [of _ M]) (simp add: M_def)
qed

lemma sint_word_of_int_self:
  assumes "- (2 ^ 63) \<le> k" "k < 2 ^ 63"
  shows "sint (word_of_int k :: u64) = k"
  using assms by (simp add: sint_sbintrunc' signed_take_bit_int_eq_self)

lemma sint_bounds64: "- (2 ^ 63) \<le> sint (w :: u64)" "sint (w :: u64) < 2 ^ 63"
  using sint_ge [of w] sint_lt [of w] by simp_all

text \<open>The adjusted high product is the floor of the exact product with the magic factor.\<close>

lemma magic_high_product:
  fixes d n :: u64
  assumes M: "0 < M" "M < 2 ^ 64" and d: "sint d \<noteq> 0"
  defines "m \<equiv> if 0 <s d then of_nat M else - of_nat M :: u64"
    and "K \<equiv> if 0 < sint d then int M else - int M"
  shows "(if 0 <s d \<and> m <s 0 then mul_high m n + n
          else if d <s 0 \<and> 0 <s m then mul_high m n - n else mul_high m n)
        = word_of_int ((K * sint n) div 2 ^ 64)"
proof -
  have m: "m = word_of_int K" using d by (auto simp: m_def K_def word_sless_alt)
  have K: "- (2 ^ 64) < K" "K < 2 ^ 64" using M by (auto simp: K_def)
  have up: "word_of_int ((K * sint n) div 2 ^ 64) = (word_of_int (((K - 2 ^ 64) * sint n) div 2 ^ 64) + n :: u64)"
  proof -
    have "(K * sint n) div 2 ^ 64 = ((K - 2 ^ 64) * sint n + 2 ^ 64 * sint n) div 2 ^ 64"
      by (simp add: algebra_simps)
    also have "\<dots> = ((K - 2 ^ 64) * sint n) div 2 ^ 64 + sint n" by simp
    finally show ?thesis by simp
  qed
  have down: "word_of_int ((K * sint n) div 2 ^ 64) = (word_of_int (((K + 2 ^ 64) * sint n) div 2 ^ 64) - n :: u64)"
  proof -
    have "((K + 2 ^ 64) * sint n) div 2 ^ 64 = (K * sint n + 2 ^ 64 * sint n) div 2 ^ 64"
      by (simp add: algebra_simps)
    also have "\<dots> = (K * sint n) div 2 ^ 64 + sint n" by simp
    finally show ?thesis by simp
  qed
  have wrap_up: "sint m = K - 2 ^ 64" if "2 ^ 63 \<le> K"
  proof -
    have "m = word_of_int (K - 2 ^ 64)" by (simp add: m)
    moreover have "sint (word_of_int (K - 2 ^ 64) :: u64) = K - 2 ^ 64"
      using that K by (intro sint_word_of_int_self) simp_all
    ultimately show ?thesis by (simp only:)
  qed
  have wrap_down: "sint m = K + 2 ^ 64" if "K < - (2 ^ 63)"
  proof -
    have "m = word_of_int (K + 2 ^ 64)" by (simp add: m)
    moreover have "sint (word_of_int (K + 2 ^ 64) :: u64) = K + 2 ^ 64"
      using that K by (intro sint_word_of_int_self) simp_all
    ultimately show ?thesis by (simp only:)
  qed
  have same: "sint m = K" if "- (2 ^ 63) \<le> K" "K < 2 ^ 63"
    unfolding m using that by (rule sint_word_of_int_self)
  consider "2 ^ 63 \<le> K" | "K < - (2 ^ 63)" | "- (2 ^ 63) \<le> K" "K < 2 ^ 63" by linarith
  then show ?thesis
  proof cases
    case 1
    then have "0 < sint d" by (auto simp: K_def split: if_splits)
    with 1 wrap_up K up show ?thesis by (simp add: mul_high_def word_sless_alt)
  next
    case 2
    then have "sint d < 0" using M d by (auto simp: K_def split: if_splits)
    with 2 wrap_down K down show ?thesis by (simp add: mul_high_def word_sless_alt)
  next
    case 3
    with same M have "\<not> (0 <s d \<and> m <s 0)" "\<not> (d <s 0 \<and> 0 <s m)"
      by (auto simp: word_sless_alt K_def)
    then show ?thesis using same [OF 3] by (auto simp: mul_high_def)
  qed
qed

lemma magic_quotient:
  fixes d n :: int and C D M :: nat
  assumes par: "magic_params D (if d < 0 then 1 else 0) C" and D: "D = nat \<bar>d\<bar>"
    and err: "C * magic_err D (64 + shift) < 2 ^ (64 + shift)"
    and M: "M = 2 ^ (64 + shift) div D + 1"
    and n: "- (2 ^ 63) \<le> n" "n < 2 ^ 63"
  defines "K \<equiv> if 0 < d then int M else - int M"
  defines "t \<equiv> (K * n) div 2 ^ (64 + shift)"
  shows "(if t < 0 then t + 1 else t) = n sdiv d"
proof -
  let ?P = "2 ^ (64 + shift) :: int"
  let ?D = "int D" and ?C = "int C" and ?M = "int M"
  define e where "e = int (magic_err D (64 + shift))"
  have D2: "2 \<le> ?D" using par by (simp add: magic_params_def)
  then have d0: "d \<noteq> 0" "\<bar>d\<bar> = ?D" using D by auto
  note b = magic_params_bounds [OF par]
  have b': "?C mod ?D = ?D - 1" "?D - 1 \<le> ?C"
    using b(4,5) D2 by (simp_all flip: of_nat_mod add: of_nat_diff)
  have e0: "0 < e" using D2 magic_err_bounds(1) [of D "64 + shift"] by (simp add: e_def)
  have eP: "e = ?D - ?P mod ?D"
    using D2 by (simp add: e_def magic_err_def of_nat_diff of_nat_mod)
  have err': "?C * e < ?P"
    using err unfolding e_def by (metis of_nat_less_iff of_nat_mult of_nat_numeral of_nat_power)
  have "?M = ?P div ?D + 1" by (simp add: M of_nat_div)
  then have MD: "?M * ?D = ?P + e" by (simp add: eP algebra_simps minus_mod_eq_mult_div)
  have strict: "m * e < (?D - m mod ?D) * ?P" if "0 \<le> m" "m < ?C + ?D" for m
    using D2 e0 b' err' that by (rule magic_strict)
  have CD: "2 ^ 63 + (if d < 0 then 1 else 0) \<le> ?C + ?D" using b(3) by (simp split: if_splits)
  have floor: "(?M * m) div ?P = m div ?D" if "0 \<le> m" "m < ?C + ?D" for m
    using MD _ e0 _ that(1) strict [OF that] by (rule magic_floor) (use D2 in simp_all)
  have ceiling: "(- (?M * m)) div ?P = - (m div ?D) - 1" if m: "0 < m" "m \<le> 2 ^ 63" for m
  proof (rule magic_ceiling [OF MD _ e0 _ m(1)])
    show "m * e \<le> (?D - m mod ?D) * ?P"
    proof (cases "m < ?C + ?D")
      case True
      then show ?thesis using strict [of m] m(1) by simp
    next
      case False
      then have mC: "m = 2 ^ 63" "m = ?C + ?D" using m(2) CD by (simp_all split: if_splits)
      have "m mod ?D = ?D - 1" using b'(1) mC(2) by simp
      moreover have "?P = m * 2 ^ (1 + shift)" by (simp add: mC(1) power_add)
      ultimately show ?thesis
        using magic_extreme [OF D2, of "2 ^ (1 + shift)" m] m(1) by (simp add: eP)
    qed
  qed (use D2 in simp_all)
  have div0: "0 \<le> m div ?D" if "0 \<le> m" for m using that D2 by (simp add: pos_imp_zdiv_nonneg_iff)
  show ?thesis
  proof (cases "0 < d")
    case True
    then have K: "K = ?M" by (simp add: K_def)
    show ?thesis
    proof (cases "0 \<le> n")
      case n0: True
      have "t = n div ?D" unfolding t_def K using n n0 CD True by (intro floor) simp_all
      then show ?thesis using div0 [OF n0] True n0 d0 by (auto simp: signed_divide_int_def sgn_if)
    next
      case False
      have "t = - ((- n) div ?D) - 1"
        unfolding t_def K using ceiling [of "- n"] n False by simp
      then show ?thesis using div0 [of "- n"] True False d0 by (simp add: signed_divide_int_def sgn_if)
    qed
  next
    case False
    then have K: "K = - ?M" and dneg: "d < 0" using d0 by (auto simp: K_def)
    show ?thesis
    proof (cases "0 < n")
      case n0: True
      have "t = - (n div ?D) - 1" unfolding t_def K using ceiling [of n] n n0 by simp
      then show ?thesis using div0 [of n] dneg n0 d0 by (simp add: signed_divide_int_def sgn_if)
    next
      case n0: False
      have "t = (- n) div ?D" unfolding t_def K using floor [of "- n"] n n0 CD dneg by simp
      then show ?thesis using div0 [of "- n"] n0 dneg d0 by (auto simp: signed_divide_int_def sgn_if)
    qed
  qed
qed

lemma drop_63_sign: "drop_bit 63 (w :: u64) = (if sint w < 0 then 1 else 0)"
  using sign_bit_unat [of w] by (simp add: word_unat_eq_iff split: if_splits)

text \<open>The quotient register after the sign correction.\<close>

lemma magic_register:
  fixes n :: u64 and K :: int
  assumes "\<bar>K\<bar> < 2 ^ 64" and "shift \<le> 63"
  defines "r \<equiv> signed_drop_bit shift (word_of_int ((K * sint n) div 2 ^ 64) :: u64)"
    and "t \<equiv> (K * sint n) div 2 ^ (64 + shift)"
  shows "sint (drop_bit 63 r + r) = (if t < 0 then t + 1 else t)"
proof -
  have "\<bar>K * sint n\<bar> \<le> (2 ^ 64 - 1) * 2 ^ 63"
    unfolding abs_mult using assms(1) sint_bounds64 [of n] by (intro mult_mono) auto
  then have k: "- (2 ^ 63) \<le> (K * sint n) div 2 ^ 64" "(K * sint n) div 2 ^ 64 < 2 ^ 63"
    unfolding abs_le_iff by (simp_all, linarith+)
  have "sint r = drop_bit shift ((K * sint n) div 2 ^ 64)"
    unfolding r_def sint_signed_drop_bit_eq using k by (simp add: sint_word_of_int_self)
  also have "\<dots> = t" by (simp add: t_def drop_bit_eq_div power_add zdiv_zmult2_eq)
  finally have t: "sint r = t" .
  show ?thesis
  proof (cases "t < 0")
    case True
    have "drop_bit 63 r + r = word_of_int (t + 1)" using True by (simp add: drop_63_sign flip: t)
    moreover have "sint (word_of_int (t + 1) :: u64) = t + 1"
      using True sint_bounds64 [of r] t by (intro sint_word_of_int_self) simp_all
    ultimately show ?thesis using True by (simp only: if_True)
  next
    case False
    then show ?thesis using t by (simp add: drop_63_sign)
  qed
qed

lemma smod_euclid:
  fixes n d :: int
  assumes "d \<noteq> 0"
  shows "(if n - (n sdiv d) * d < 0 then n - (n sdiv d) * d + \<bar>d\<bar> else n - (n sdiv d) * d) = n mod \<bar>d\<bar>"
proof -
  have rem: "n - (n sdiv d) * d = sgn n * (\<bar>n\<bar> mod \<bar>d\<bar>)"
    by (simp add: minus_sdiv_mult_eq_smod signed_modulo_int_def)
  have m0: "0 \<le> \<bar>n\<bar> mod \<bar>d\<bar>" "\<bar>n\<bar> mod \<bar>d\<bar> < \<bar>d\<bar>" using assms by simp_all
  show ?thesis
  proof (cases "0 \<le> n")
    case True
    then have "n - (n sdiv d) * d = n mod \<bar>d\<bar>" unfolding rem by (auto simp: sgn_if)
    then show ?thesis using m0 True by simp
  next
    case False
    then have "n - (n sdiv d) * d = - ((- n) mod \<bar>d\<bar>)" unfolding rem by (simp add: sgn_if)
    moreover have "n mod \<bar>d\<bar> = (if (- n) mod \<bar>d\<bar> = 0 then 0 else \<bar>d\<bar> - (- n) mod \<bar>d\<bar>)"
      using zmod_zminus1_eq_if [of "- n" "\<bar>d\<bar>"] by simp
    ultimately show ?thesis using m0 False by auto
  qed
qed

lemma asr_63_sign: "signed_drop_bit 63 (w :: u64) = (if sint w < 0 then - 1 else 0)"
  using sint_neg_iff [of w] by (simp add: signed_drop_bit_63)

text \<open>The two back ends compute the same value.\<close>

lemma EmitInt64ModTruncDiv_arm64_eq:
  "EmitInt64ModTruncDiv_arm64 op d n = EmitInt64ModTruncDiv op d n"
proof -
  have corr: "w - signed_drop_bit 63 w = drop_bit 63 w + w" for w :: u64
    by (simp add: asr_63_sign drop_63_sign)
  have sel: "(if w <s 0 then a else w) = (if 0 \<le>s w then w else a)" for w a :: u64
    by (auto simp: word_sle_eq word_sless_alt)
  show ?thesis
    unfolding EmitInt64ModTruncDiv_def EmitInt64ModTruncDiv_arm64_def Let_def corr sel ..
qed

text \<open>
  C9. For every divisor other than -1, 0 and 1 and every dividend, the instruction sequence that
  \<open>EmitInt64ModTruncDiv\<close> emits (multiplication by the magic number, shifts and
  corrections) leaves the truncated quotient in the result register, and for the modulo operation the
  remainder of Dart, which is never negative.
\<close>

theorem EmitInt64ModTruncDiv_correct:
  assumes "sint d \<le> - 2 \<or> 2 \<le> sint d"
  shows "\<exists>q r. EmitInt64ModTruncDiv kTRUNCDIV d n = Some q \<and> sint q = sint n sdiv sint d
      \<and> EmitInt64ModTruncDiv kMOD d n = Some r \<and> sint r = sint n mod \<bar>sint d\<bar>"
proof -
  have d0: "sint d \<noteq> 0" using assms by auto
  obtain C shift M where calc: "CalculateMagicAndShiftForDivRem d
            = Some (if 0 <s d then of_nat M else - of_nat M, shift)"
      and c: "shift \<le> 63" "M = 2 ^ (64 + shift) div nat \<bar>sint d\<bar> + 1" "M < 2 ^ 64"
      "magic_params (nat \<bar>sint d\<bar>) (if sint d < 0 then 1 else 0) C"
      "C * magic_err (nat \<bar>sint d\<bar>) (64 + shift) < 2 ^ (64 + shift)"
    using CalculateMagicAndShiftForDivRem_spec [OF assms] by blast
  define K where "K = (if 0 < sint d then int M else - int M)"
  let ?r = "signed_drop_bit shift (word_of_int ((K * sint n) div 2 ^ 64) :: u64)"
  let ?q = "drop_bit 63 ?r + ?r"
  have M0: "0 < M" using c(2) by simp
  have K64: "\<bar>K\<bar> < 2 ^ 64" using c(3) by (simp add: K_def)
  have q: "sint ?q = sint n sdiv sint d"
    unfolding magic_register [OF K64 c(1)]
    by (rule magic_quotient [OF c(4) refl c(5,2) sint_bounds64, folded K_def])
  note high = magic_high_product [OF M0 c(3) d0, of n, folded K_def]
  have guard: "d \<le>s - 2 \<or> 2 \<le>s d" using assms by (simp add: word_sle_eq)
  have reg: "(if shift \<noteq> 0 then signed_drop_bit shift w else w) = signed_drop_bit shift w" for w :: u64
    by simp
  have div: "EmitInt64ModTruncDiv kTRUNCDIV d n = Some ?q"
    using guard by (simp only: EmitInt64ModTruncDiv_def calc Let_def option.case prod.case high reg op_kind.case if_True)
  let ?m = "n - ?q * d"
  have md: "EmitInt64ModTruncDiv kMOD d n = Some (if 0 \<le>s ?m then ?m else if 0 <s d then ?m + d else ?m - d)"
    using guard by (simp only: EmitInt64ModTruncDiv_def calc Let_def option.case prod.case high reg op_kind.case if_True)
  have db: "\<bar>sint d\<bar> \<le> 2 ^ 63" using sint_bounds64 [of d] by simp
  have "\<bar>sint n - (sint n sdiv sint d) * sint d\<bar> < \<bar>sint d\<bar>"
    using d0 by (simp add: minus_sdiv_mult_eq_smod signed_modulo_int_def abs_mult sgn_if)
  moreover have "?m = word_of_int (sint n - (sint n sdiv sint d) * sint d)"
    by (simp flip: q)
  moreover note db
  ultimately have m: "sint ?m = sint n - (sint n sdiv sint d) * sint d"
    using sint_word_of_int_self [of "sint n - (sint n sdiv sint d) * sint d"] by simp
  have "sint (if 0 \<le>s ?m then ?m else if 0 <s d then ?m + d else ?m - d) = sint n mod \<bar>sint d\<bar>"
    (is "sint ?out = _")
  proof (cases "0 \<le> sint ?m")
    case True
    then show ?thesis using smod_euclid [OF d0, of "sint n"] m by (simp add: word_sle_eq)
  next
    case False
    have "?out = word_of_int (sint ?m + \<bar>sint d\<bar>)"
      using False by (auto simp: word_sle_eq word_sless_alt)
    moreover have "sint (word_of_int (sint ?m + \<bar>sint d\<bar>) :: u64) = sint ?m + \<bar>sint d\<bar>"
      using False db sint_bounds64 [of ?m] by (intro sint_word_of_int_self) linarith+
    ultimately show ?thesis using smod_euclid [OF d0, of "sint n"] m False by simp
  qed
  then show ?thesis using div md q by blast
qed

theorem EmitInt64ModTruncDiv_correct_witness:
  "\<exists>q r. EmitInt64ModTruncDiv kTRUNCDIV 7 (- 23) = Some q \<and> sint q = - 3
      \<and> EmitInt64ModTruncDiv kMOD 7 (- 23) = Some r \<and> sint r = 5"
  using EmitInt64ModTruncDiv_correct [of 7 "- 23"] by (simp add: signed_divide_int_def)

end
