(* ===== verification/String_Hash.thy ===== *)
theory String_Hash
  imports VM_Prelude
begin

text \<open>
  The hash functions of \<^verbatim>\<open>runtime/platform/utils.cc\<close> and \<^verbatim>\<open>hashmap.h\<close>.  A string is the list
  of its bytes; the address it starts at enters \<open>StringHash\<close> only through its remainder
  modulo four, the argument \<open>misalignment\<close>.
\<close>

section \<open>Definitions\<close>

definition kStringHashM :: u32 where "kStringHashM = 0x5bd1e995"
definition kStringHashR :: nat where "kStringHashR = 24"

definition MIX :: "u32 \<Rightarrow> u32 \<Rightarrow> u32" where
  "MIX hash part =
     (let part = part * kStringHashM;
          part = part XOR drop_bit kStringHashR part;
          part = part * kStringHashM;
          hash = hash * kStringHashM
      in hash XOR part)"

text \<open>A 32-bit load from the first four bytes, on a little-endian host.\<close>

primrec le_bytes :: "u8 list \<Rightarrow> u32" where
  "le_bytes [] = 0"
| "le_bytes (b # bs) = ucast b OR push_bit 8 (le_bytes bs)"

definition load32 :: "u8 list \<Rightarrow> u32" where
  "load32 cursor = le_bytes (take 4 cursor)"

text \<open>
  The fall-through switches: \<open>or_bytes n sl cursor\<close> collects \<open>cursor[0 .. n-1]\<close> shifted
  left by \<open>sl\<close>, \<open>n \<le> 3\<close>.
\<close>

definition or_bytes :: "nat \<Rightarrow> nat \<Rightarrow> u8 list \<Rightarrow> u32 \<Rightarrow> u32" where
  "or_bytes n sl cursor w =
     (let w = (if n = 3 then w OR push_bit (16 + sl) (ucast (cursor ! 2)) else w);
          w = (if n = 3 \<or> n = 2 then w OR push_bit (8 + sl) (ucast (cursor ! 1)) else w)
      in if n = 3 \<or> n = 2 \<or> n = 1 then w OR push_bit sl (ucast (cursor ! 0)) else w)"

fun mix_windows :: "nat \<Rightarrow> nat \<Rightarrow> u32 \<Rightarrow> u32 \<Rightarrow> u8 list \<Rightarrow> u32 \<times> u32 \<times> u8 list" where
  "mix_windows sl sr hash data_window cursor =
     (if 4 \<le> length cursor then
        (let aligned_part = load32 cursor;
             data_window = data_window OR push_bit sl aligned_part;
             hash = MIX hash data_window;
             data_window = drop_bit sr aligned_part
         in mix_windows sl sr hash data_window (drop 4 cursor))
      else (hash, data_window, cursor))"

fun mix_words :: "u32 \<Rightarrow> u8 list \<Rightarrow> u32 \<times> u8 list" where
  "mix_words hash cursor =
     (if 4 \<le> length cursor then mix_words (MIX hash (load32 cursor)) (drop 4 cursor)
      else (hash, cursor))"

declare mix_windows.simps [simp del] mix_words.simps [simp del]

definition hash_body :: "nat \<Rightarrow> u32 \<Rightarrow> u8 list \<Rightarrow> u32 \<times> u8 list" where
  "hash_body misalignment hash cursor =
     (if 4 \<le> length cursor then
        (if 0 < misalignment then
           (let sr = misalignment * 8;
                sl = 32 - sr;
                pre_alignment_length = 4 - misalignment;
                data_window = or_bytes pre_alignment_length 0 cursor 0;
                cursor = drop pre_alignment_length cursor;
                (hash, data_window, cursor) = mix_windows sl sr hash data_window cursor
            in if misalignment \<le> length cursor then
                 (let data_window = or_bytes misalignment sl cursor data_window
                  in (MIX hash data_window, drop misalignment cursor))
               else
                 (let data_window = or_bytes (length cursor) sl cursor data_window
                  in ((hash XOR data_window) * kStringHashM, [])))
         else mix_words hash cursor)
      else (hash, cursor))"

definition hash_tail :: "u32 \<Rightarrow> u8 list \<Rightarrow> u32" where
  "hash_tail hash cursor =
     (let n = length cursor;
          hash = (if n = 3 then hash XOR push_bit 16 (ucast (cursor ! 2)) else hash);
          hash = (if n = 3 \<or> n = 2 then hash XOR push_bit 8 (ucast (cursor ! 1)) else hash)
      in if n = 3 \<or> n = 2 \<or> n = 1 then (hash XOR ucast (cursor ! 0)) * kStringHashM else hash)"

definition StringHash :: "nat \<Rightarrow> u8 list \<Rightarrow> u32" where
  "StringHash misalignment data =
     (let (hash, cursor) = hash_body misalignment (of_nat (length data)) data;
          hash = hash_tail hash cursor;
          hash = hash XOR drop_bit 13 hash;
          hash = hash * kStringHashM
      in hash XOR drop_bit 15 hash)"

section \<open>Windows of bytes\<close>

lemma bit_le_bytes:
  "bit (le_bytes bs) i \<longleftrightarrow> i < 32 \<and> i div 8 < length bs \<and> bit (bs ! (i div 8)) (i mod 8)"
proof (induction bs arbitrary: i)
  case (Cons b bs)
  show ?case
  proof (cases "i < 8")
    case True
    then show ?thesis by (simp add: bit_simps)
  next
    case False
    then obtain j where j: "i = j + 8" by (metis le_iff_add add.commute not_less)
    have "\<not> bit b i" using False bit_imp_le_length by fastforce
    moreover have "i div 8 = Suc (j div 8)" "i mod 8 = j mod 8" using j by simp_all
    ultimately show ?thesis using Cons.IH [of j] j by (auto simp: bit_simps simp del: div_add_self2)
  qed
qed simp

lemma le_bytes_append:
  "le_bytes (xs @ ys) = le_bytes xs OR push_bit (8 * length xs) (le_bytes ys)"
  by (induction xs) (simp_all add: push_bit_or or.assoc add.commute)

lemma le_bytes_take4: "le_bytes (take 4 bs) = le_bytes bs"
  by (rule bit_word_eqI) (auto simp: bit_le_bytes)

lemma le_bytes_drop:
  assumes "length bs \<le> 4"
  shows "drop_bit (8 * n) (le_bytes bs) = le_bytes (drop n bs)"
proof (rule bit_word_eqI)
  fix i assume "i < LENGTH(32)"
  moreover have "(8 * n + i) div 8 = n + i div 8" "(8 * n + i) mod 8 = i mod 8" by simp_all
  moreover have "8 * n + i < 32" if "n + i div 8 < length bs" using that assms by linarith
  ultimately show "bit (drop_bit (8 * n) (le_bytes bs)) i = bit (le_bytes (drop n bs)) i"
    by (auto simp: bit_drop_bit_eq bit_le_bytes less_diff_conv ac_simps)
qed

lemma le_bytes_xor: "le_bytes (b # bs) = ucast b XOR push_bit 8 (le_bytes bs)"
proof -
  have "bit b i \<Longrightarrow> i < 8" for i using bit_imp_le_length [of b i] by simp
  then show ?thesis by (intro bit_word_eqI) (auto simp: bit_simps not_le)
qed

lemma list_le3_cases:
  assumes "length xs \<le> 3"
  obtains "xs = []" | a where "xs = [a]" | a b where "xs = [a, b]" | a b c where "xs = [a, b, c]"
proof -
  have "length xs = 0 \<or> length xs = Suc 0 \<or> length xs = Suc (Suc 0) \<or> length xs = Suc (Suc (Suc 0))"
    using assms by linarith
  then show ?thesis using that by (auto simp: length_Suc_conv)
qed

lemma or_bytes_le:
  assumes "n \<le> 3" "n \<le> length cursor"
  shows "or_bytes n sl cursor w = w OR push_bit sl (le_bytes (take n cursor))"
proof -
  obtain xs ys where c: "cursor = xs @ ys" "length xs = n"
    using assms(2) by (metis append_take_drop_id length_take min.absorb2)
  have "length xs \<le> 3" using c(2) assms(1) by simp
  then show ?thesis using c
    by (cases rule: list_le3_cases) (auto simp: or_bytes_def Let_def push_bit_or ac_simps)
qed

lemma hash_tail_le:
  assumes "length cursor \<le> 3"
  shows "hash_tail hash cursor = (if cursor = [] then hash else (hash XOR le_bytes cursor) * kStringHashM)"
  using assms
  by (cases rule: list_le3_cases)
     (auto simp: hash_tail_def Let_def le_bytes_xor push_bit_xor ac_simps simp del: le_bytes.simps(2))

section \<open>Alignment does not matter\<close>

lemma mix_words_short: "length cursor < 4 \<Longrightarrow> mix_words h cursor = (h, cursor)"
  by (simp add: mix_words.simps)

lemma mix_words_long: "4 \<le> length cursor \<Longrightarrow> mix_words h cursor = mix_words (MIX h (le_bytes cursor)) (drop 4 cursor)"
  by (subst mix_words.simps) (simp add: load32_def le_bytes_take4)

lemma mix_windows_words:
  assumes "mix_windows sl sr h w cursor = (h', w', cursor')"
    and "w = le_bytes pre" "sl = 8 * length pre" "sr = 32 - sl" "length pre \<le> 4"
  shows "\<exists>pre'. length pre' = length pre \<and> w' = le_bytes pre' \<and> length cursor' < 4
    \<and> mix_words h (pre @ cursor) = mix_words h' (pre' @ cursor')"
  using assms
proof (induction sl sr h w cursor arbitrary: pre rule: mix_windows.induct)
  case (1 sl sr h w cursor)
  show ?case
  proof (cases "4 \<le> length cursor")
    case False
    then show ?thesis using "1.prems" by (auto simp: mix_windows.simps)
  next
    case True
    define part where "part = take 4 cursor"
    let ?m = "4 - length pre"
    have sr: "sr = 8 * ?m" using "1.prems"(3-5) by simp
    have lp: "length part = 4" using True by (simp add: part_def)
    have win: "w OR push_bit sl (load32 cursor) = le_bytes (pre @ cursor)"
      using "1.prems"(2,3) le_bytes_take4 [of cursor] by (simp add: le_bytes_append load32_def)
    have nw: "drop_bit sr (load32 cursor) = le_bytes (drop ?m part)"
      using lp unfolding sr load32_def part_def by (intro le_bytes_drop) simp
    have len: "length (drop ?m part) = length pre" using lp "1.prems"(5) by simp
    have "drop ?m cursor = drop ?m (part @ drop 4 cursor)" by (simp add: part_def)
    then have d4: "drop 4 (pre @ cursor) = drop ?m part @ drop 4 cursor"
      using lp "1.prems"(5) by simp
    have step: "mix_windows sl sr (MIX h (le_bytes (pre @ cursor))) (le_bytes (drop ?m part)) (drop 4 cursor)
        = (h', w', cursor')"
      using "1.prems"(1) True by (subst (asm) mix_windows.simps) (simp add: win nw)
    have "\<exists>pre'. length pre' = length (drop ?m part) \<and> w' = le_bytes pre' \<and> length cursor' < 4
      \<and> mix_words (MIX h (le_bytes (pre @ cursor))) (drop ?m part @ drop 4 cursor) = mix_words h' (pre' @ cursor')"
      using "1.IH" [OF True refl refl refl refl, unfolded win nw, OF step refl] len "1.prems"(3-5) by simp
    then show ?thesis using mix_words_long [of "pre @ cursor" h] True len d4 by simp
  qed
qed

text \<open>
  C35. The hash of a byte string does not depend on the alignment of the buffer that holds it: the
  word-by-word path for unaligned data, which assembles each word from two aligned loads, computes
  the value of the aligned path.
\<close>

theorem StringHash_alignment_independent:
  assumes "misalignment < 4"
  shows "StringHash misalignment data = StringHash 0 data"
proof (cases "4 \<le> length data \<and> 0 < misalignment")
  case False
  then show ?thesis by (auto simp: StringHash_def hash_body_def)
next
  case True
  let ?h = "of_nat (length data) :: u32" and ?k = "4 - misalignment"
  let ?pre = "take ?k data" and ?cur = "drop ?k data"
  have k: "?k \<le> 3" "?k \<le> length data" and lpre: "length ?pre = ?k" using True assms by auto
  have w0: "or_bytes ?k 0 data 0 = le_bytes ?pre" using or_bytes_le [OF k] by simp
  have sl: "32 - misalignment * 8 = 8 * ?k" using assms by simp
  obtain h' w' cur where run: "mix_windows (8 * ?k) (misalignment * 8) ?h (le_bytes ?pre) ?cur = (h', w', cur)"
    by (metis surj_pair)
  have "misalignment * 8 = 32 - 8 * ?k" using assms by simp
  from mix_windows_words [OF run refl _ this] lpre obtain pre where
    pre: "length pre = ?k" "w' = le_bytes pre" "length cur < 4"
      "mix_words ?h data = mix_words h' (pre @ cur)" by auto
  have win: "or_bytes n (8 * ?k) cur w' = le_bytes (pre @ take n cur)" if "n \<le> 3" "n \<le> length cur" for n
    using or_bytes_le [OF that] pre(1,2) by (simp add: le_bytes_append)
  have "case_prod hash_tail (hash_body misalignment ?h data) = case_prod hash_tail (mix_words ?h data)"
  proof (cases "misalignment \<le> length cur")
    case m: True
    have "le_bytes (pre @ take misalignment cur) = le_bytes (pre @ cur)"
      using pre(1) assms le_bytes_take4 [of "pre @ cur"] by simp
    moreover have "mix_words h' (pre @ cur) = (MIX h' (le_bytes (pre @ cur)), drop misalignment cur)"
      using pre(1,3) m assms by (simp add: mix_words_long mix_words_short)
    ultimately show ?thesis
      using True m assms win [of misalignment] by (simp add: hash_body_def Let_def w0 sl run pre(4))
  next
    case m: False
    have "mix_words h' (pre @ cur) = (h', pre @ cur)" using pre(1) m assms by (intro mix_words_short) simp
    moreover have "hash_tail h' (pre @ cur) = (h' XOR le_bytes (pre @ cur)) * kStringHashM"
      using pre(1) m assms by (subst hash_tail_le) auto
    ultimately show ?thesis
      using True m assms win [of "length cur"] pre(3)
      by (simp add: hash_body_def Let_def w0 sl run pre(4) hash_tail_le)
  qed
  then show ?thesis
    using True by (simp add: StringHash_def hash_body_def [of 0] split_beta)
qed

theorem StringHash_alignment_independent_witness:
  "StringHash 3 [104, 101, 108, 108, 111, 33, 33] = StringHash 0 [104, 101, 108, 108, 111, 33, 33]"
  by (rule StringHash_alignment_independent) simp

end
