(* ===== verification/Keyed_Map.thy ===== *)
theory Keyed_Map
  imports VM_Prelude
begin

text \<open>
  The contract of a mutable dictionary, as its clients use it: the query, update and deletion
  operations, the keys and tables they accept, and the number of entries.  The client's view is
  a finite map \<open>f\<close>; \<open>rep m f\<close> says that the table \<open>m\<close> stores exactly \<open>f\<close>.
  \<open>fits\<close> says that the table can take one more entry.
\<close>

locale keyed_map =
  fixes inv :: "'m \<Rightarrow> bool" and ok :: "'k \<Rightarrow> bool" and fits :: "'m \<Rightarrow> bool"
    and get :: "'m \<Rightarrow> 'k \<Rightarrow> 'v option" and put :: "'m \<Rightarrow> 'k \<Rightarrow> 'v \<Rightarrow> 'm option"
    and del :: "'m \<Rightarrow> 'k \<Rightarrow> 'm option" and cnt :: "'m \<Rightarrow> nat"
  assumes put_law: "inv m \<Longrightarrow> ok k \<Longrightarrow> get m k \<noteq> None \<or> fits m \<Longrightarrow>
      \<exists>m'. put m k v = Some m' \<and> inv m' \<and> (get m k \<noteq> None \<longrightarrow> fits m' = fits m)
        \<and> cnt m' = cnt m + (if get m k = None then 1 else 0)
        \<and> (\<forall>k'. ok k' \<longrightarrow> get m' k' = (if k' = k then Some v else get m k'))"
    and del_law: "inv m \<Longrightarrow> ok k \<Longrightarrow>
      \<exists>m'. del m k = Some m' \<and> inv m' \<and> fits m' = fits m
        \<and> cnt m' = cnt m - (if get m k = None then 0 else 1)
        \<and> (\<forall>k'. ok k' \<longrightarrow> get m' k' = (if k' = k then None else get m k'))"
begin

definition rep :: "'m \<Rightarrow> ('k \<rightharpoonup> 'v) \<Rightarrow> bool" where
  "rep m f \<longleftrightarrow> inv m \<and> finite (dom f) \<and> (\<forall>k. if ok k then get m k = f k else f k = None)
     \<and> cnt m = card (dom f)"

lemma rep_get: "rep m f \<Longrightarrow> ok k \<Longrightarrow> get m k = f k"
  unfolding rep_def by (metis (full_types))

lemma rep_ok: "rep m f \<Longrightarrow> k \<in> dom f \<Longrightarrow> ok k"
  unfolding rep_def by (metis domIff)

lemma rep_cnt: "rep m f \<Longrightarrow> cnt m = card (dom f)"
  by (simp add: rep_def)

lemma rep_put:
  assumes "rep m f" "ok k" "k \<in> dom f \<or> fits m"
  obtains m' where "put m k v = Some m'" "rep m' (f(k \<mapsto> v))" "k \<in> dom f \<longrightarrow> fits m' = fits m"
proof -
  have g: "get m k = f k" using assms by (simp add: rep_get)
  obtain m' where m': "put m k v = Some m'" "inv m'" "get m k \<noteq> None \<longrightarrow> fits m' = fits m"
      "cnt m' = cnt m + (if get m k = None then 1 else 0)"
      "\<forall>k'. ok k' \<longrightarrow> get m' k' = (if k' = k then Some v else get m k')"
    using put_law [of m k v] assms g by (auto simp: rep_def domIff)
  have "cnt m' = card (dom (f(k \<mapsto> v)))"
    using m'(4) g assms(1) by (auto simp: rep_def domIff card_insert_if)
  moreover have "if ok k' then get m' k' = (f(k \<mapsto> v)) k' else (f(k \<mapsto> v)) k' = None" for k'
    using m'(5) assms(1,2) rep_get [OF assms(1)] by (auto simp: rep_def)
  ultimately have "rep m' (f(k \<mapsto> v))"
    using m'(2) assms(1,2) unfolding rep_def by (intro conjI allI) simp_all
  then show ?thesis using that m'(1,3) g by (auto simp: domIff)
qed

lemma rep_del:
  assumes "rep m f" "ok k"
  obtains m' where "del m k = Some m'" "rep m' (f(k := None))" "fits m' = fits m"
proof -
  have g: "get m k = f k" using assms by (simp add: rep_get)
  obtain m' where m': "del m k = Some m'" "inv m'" "fits m' = fits m"
      "cnt m' = cnt m - (if get m k = None then 0 else 1)"
      "\<forall>k'. ok k' \<longrightarrow> get m' k' = (if k' = k then None else get m k')"
    using del_law [of m k] assms by (auto simp: rep_def)
  have "cnt m' = card (dom (f(k := None)))"
    using m'(4) g assms(1) by (auto simp: rep_def domIff card_Diff_singleton_if)
  moreover have "if ok k' then get m' k' = (f(k := None)) k' else (f(k := None)) k' = None" for k'
    using m'(5) assms(1,2) rep_get [OF assms(1)] by (auto simp: rep_def)
  ultimately have "rep m' (f(k := None))"
    using m'(2) assms(1,2) unfolding rep_def by (intro conjI allI) simp_all
  then show ?thesis using that m'(1,3) by simp
qed

end

end
