(* ===== verification/Simple_HashMap.thy ===== *)
theory Simple_HashMap
  imports Platform_Utils Keyed_Map
begin

text \<open>
  \<^verbatim>\<open>SimpleHashMap\<close> (\<^verbatim>\<open>runtime/platform/hashmap.h\<close>, \<^verbatim>\<open>hashmap.cc\<close>): an open-addressing hash table with
  linear probing, deletion by shifting entries back, and growth at 80% occupancy.
  A pointer is a 64-bit word with \<open>NULL = 0\<close>; a pointer to a table entry is its index.
  An operation whose \<^verbatim>\<open>ASSERT\<close> fails or whose loop does not return has the result \<open>None\<close>.
\<close>

section \<open>State and operations\<close>

type_synonym ptr = u64

abbreviation NULL :: ptr where "NULL \<equiv> 0"

record Entry =
  key :: ptr
  "value" :: ptr
  hash :: u32

record SimpleHashMap =
  hm_match :: "ptr \<Rightarrow> ptr \<Rightarrow> bool"
  hm_map :: "Entry list"
  hm_capacity :: nat
  hm_occupancy :: nat

definition SamePointerValue :: "ptr \<Rightarrow> ptr \<Rightarrow> bool" where
  "SamePointerValue key1 key2 \<longleftrightarrow> key1 = key2"

definition null_entry :: Entry where
  "null_entry = \<lparr>key = NULL, value = NULL, hash = 0\<rparr>"

definition Initialize :: "SimpleHashMap \<Rightarrow> nat \<Rightarrow> SimpleHashMap option" where
  "Initialize m capacity =
     (if IsPowerOfTwo (of_nat capacity :: u32)
      then Some (m\<lparr>hm_map := replicate capacity null_entry, hm_capacity := capacity, hm_occupancy := 0\<rparr>)
      else None)"

definition new_SimpleHashMap :: "(ptr \<Rightarrow> ptr \<Rightarrow> bool) \<Rightarrow> nat \<Rightarrow> SimpleHashMap option" where
  "new_SimpleHashMap match initial_capacity =
     Initialize \<lparr>hm_match = match, hm_map = [], hm_capacity = 0, hm_occupancy = 0\<rparr> initial_capacity"

definition slot_of :: "nat \<Rightarrow> u32 \<Rightarrow> nat" where
  "slot_of capacity h = unat (h AND of_nat (capacity - 1))"

abbreviation start_slot :: "SimpleHashMap \<Rightarrow> u32 \<Rightarrow> nat" where
  "start_slot m h \<equiv> slot_of (hm_capacity m) h"

definition next_slot :: "SimpleHashMap \<Rightarrow> nat \<Rightarrow> nat" where
  "next_slot m p = (if hm_capacity m \<le> p + 1 then 0 else p + 1)"

partial_function (option) Probe_loop :: "SimpleHashMap \<Rightarrow> ptr \<Rightarrow> u32 \<Rightarrow> nat \<Rightarrow> nat option" where
  "Probe_loop m k h p =
     (if key (hm_map m ! p) \<noteq> NULL \<and> (h \<noteq> hash (hm_map m ! p) \<or> \<not> hm_match m k (key (hm_map m ! p)))
      then Probe_loop m k h (next_slot m p)
      else Some p)"

definition Probe :: "SimpleHashMap \<Rightarrow> ptr \<Rightarrow> u32 \<Rightarrow> nat option" where
  "Probe m k h =
     (if k \<noteq> NULL \<and> IsPowerOfTwo (of_nat (hm_capacity m) :: u32) \<and> hm_occupancy m < hm_capacity m
      then Probe_loop m k h (start_slot m h) else None)"

definition set_value :: "SimpleHashMap \<Rightarrow> nat \<Rightarrow> ptr \<Rightarrow> SimpleHashMap" where
  "set_value m p v = m\<lparr>hm_map := (hm_map m)[p := (hm_map m ! p)\<lparr>value := v\<rparr>]\<rparr>"

text \<open>
  \<open>Resize\<close> and \<open>Lookup\<close> call each other.  The rehashing loop takes the \<open>Lookup\<close> it calls as
  an argument, and \<open>Lookup\<close> carries the nesting depth that is left.
\<close>

type_synonym lookup_fun =
  "SimpleHashMap \<Rightarrow> ptr \<Rightarrow> u32 \<Rightarrow> bool \<Rightarrow> (SimpleHashMap \<times> nat option) option"

fun rehash :: "lookup_fun \<Rightarrow> SimpleHashMap \<Rightarrow> Entry list \<Rightarrow> nat \<Rightarrow> SimpleHashMap option" where
  "rehash lookup m es 0 = Some m"
| "rehash lookup m [] (Suc n) = None"
| "rehash lookup m (e # es) (Suc n) =
     (if key e \<noteq> NULL then
        (case lookup m (key e) (hash e) True of
           Some (m', Some p) \<Rightarrow> rehash lookup (set_value m' p (value e)) es n
         | _ \<Rightarrow> None)
      else rehash lookup m es (Suc n))"

definition Resize :: "lookup_fun \<Rightarrow> SimpleHashMap \<Rightarrow> SimpleHashMap option" where
  "Resize lookup m =
     (case Initialize m ((hm_capacity m * 2) mod 2 ^ 32) of
        None \<Rightarrow> None
      | Some m' \<Rightarrow> rehash lookup m' (hm_map m) (hm_occupancy m))"

primrec Lookup_depth :: "nat \<Rightarrow> lookup_fun" where
  "Lookup_depth 0 m k h ins = None"
| "Lookup_depth (Suc d) m k h ins =
     (case Probe m k h of
        None \<Rightarrow> None
      | Some p \<Rightarrow>
          if key (hm_map m ! p) \<noteq> NULL then Some (m, Some p)
          else if ins then
            (let m = m\<lparr>hm_map := (hm_map m)[p := \<lparr>key = k, value = NULL, hash = h\<rparr>],
                       hm_occupancy := hm_occupancy m + 1\<rparr>
             in if hm_capacity m \<le> hm_occupancy m + hm_occupancy m div 4 then
                  (case Resize (Lookup_depth d) m of
                     None \<Rightarrow> None
                   | Some m' \<Rightarrow> (case Probe m' k h of None \<Rightarrow> None | Some p' \<Rightarrow> Some (m', Some p')))
                else Some (m, Some p))
          else Some (m, None))"

declare Lookup_depth.simps [simp del]

text \<open>An insertion into the doubled table never grows it again: depth two is enough.\<close>

definition Lookup :: lookup_fun where
  "Lookup = Lookup_depth 2"

text \<open>
  The loop of \<open>Remove\<close>: \<open>candidate\<close> is the entry to clear, \<open>nxt\<close> scans forward.
\<close>

partial_function (option) Remove_loop :: "SimpleHashMap \<Rightarrow> nat \<Rightarrow> nat \<Rightarrow> (SimpleHashMap \<times> nat) option" where
  "Remove_loop m candidate nxt =
     (let nxt = next_slot m nxt
      in if key (hm_map m ! nxt) = NULL then Some (m, candidate)
         else
           (let start = start_slot m (hash (hm_map m ! nxt))
            in if (candidate < nxt \<and> (start \<le> candidate \<or> nxt < start)) \<or>
                  (nxt < candidate \<and> (start \<le> candidate \<and> nxt < start))
               then Remove_loop (m\<lparr>hm_map := (hm_map m)[candidate := hm_map m ! nxt]\<rparr>) nxt nxt
               else Remove_loop m candidate nxt))"

definition Remove :: "SimpleHashMap \<Rightarrow> ptr \<Rightarrow> u32 \<Rightarrow> SimpleHashMap option" where
  "Remove m k h =
     (case Probe m k h of
        None \<Rightarrow> None
      | Some candidate \<Rightarrow>
          if key (hm_map m ! candidate) = NULL then Some m
          else if hm_occupancy m < hm_capacity m then
            (case Remove_loop m candidate candidate of
               None \<Rightarrow> None
             | Some (m, candidate) \<Rightarrow>
                 Some (m\<lparr>hm_map := (hm_map m)[candidate := (hm_map m ! candidate)\<lparr>key := NULL\<rparr>],
                         hm_occupancy := hm_occupancy m - 1\<rparr>))
          else None)"

text \<open>\<open>Clear\<close> returns the values passed to the clear function, in order, beside the new table.\<close>

definition Clear :: "SimpleHashMap \<Rightarrow> bool \<Rightarrow> SimpleHashMap \<times> ptr list" where
  "Clear m has_clear =
     (m\<lparr>hm_map := map (\<lambda>e. e\<lparr>key := NULL\<rparr>) (hm_map m), hm_occupancy := 0\<rparr>,
      if has_clear then map value (filter (\<lambda>e. key e \<noteq> NULL) (hm_map m)) else [])"

function Next_loop :: "SimpleHashMap \<Rightarrow> nat \<Rightarrow> nat option" where
  "Next_loop m p =
     (if p < hm_capacity m then (if key (hm_map m ! p) \<noteq> NULL then Some p else Next_loop m (p + 1))
      else None)"
  by pat_completeness auto
termination by (relation "measure (\<lambda>(m, p). hm_capacity m - p)") auto

declare Next_loop.simps [simp del]

definition Start :: "SimpleHashMap \<Rightarrow> nat option" where
  "Start m = Next_loop m 0"

definition Next :: "SimpleHashMap \<Rightarrow> nat \<Rightarrow> nat option" where
  "Next m p = Next_loop m (p + 1)"

section \<open>Cyclic distance\<close>

definition cdist :: "nat \<Rightarrow> nat \<Rightarrow> nat \<Rightarrow> nat" where
  "cdist N a b = (if a \<le> b then b - a else b + N - a)"

lemma cdist_bound: "a < N \<Longrightarrow> b < N \<Longrightarrow> cdist N a b < N"
  by (auto simp: cdist_def)

lemma cdist_0_iff: "a < N \<Longrightarrow> b < N \<Longrightarrow> cdist N a b = 0 \<longleftrightarrow> a = b"
  by (auto simp: cdist_def)

lemma cdist_inj: "a < N \<Longrightarrow> b < N \<Longrightarrow> c < N \<Longrightarrow> cdist N a b = cdist N a c \<longleftrightarrow> b = c"
  by (auto simp: cdist_def split: if_splits)

lemma cdist_next:
  assumes "p < N" "j < N" "j \<noteq> p"
  shows "Suc (cdist N (if N \<le> p + 1 then 0 else p + 1) j) = cdist N p j"
  using assms by (auto simp: cdist_def split: if_splits)

section \<open>Well-formed tables\<close>

abbreviation used :: "Entry \<Rightarrow> bool" where "used e \<equiv> key e \<noteq> NULL"

definition count_used :: "Entry list \<Rightarrow> nat" where
  "count_used es = length (filter used es)"

definition chained :: "Entry list \<Rightarrow> bool" where
  "chained es \<longleftrightarrow> (let N = length es in
     \<forall>i<N. used (es ! i) \<longrightarrow>
       (\<forall>j<N. cdist N (slot_of N (hash (es ! i))) j < cdist N (slot_of N (hash (es ! i))) i
          \<longrightarrow> used (es ! j)))"

definition unique_keys :: "(ptr \<Rightarrow> ptr \<Rightarrow> bool) \<Rightarrow> Entry list \<Rightarrow> bool" where
  "unique_keys match es \<longleftrightarrow>
     (\<forall>i<length es. \<forall>j<length es. used (es ! i) \<and> used (es ! j) \<and> hash (es ! i) = hash (es ! j)
        \<and> match (key (es ! i)) (key (es ! j)) \<longrightarrow> i = j)"

definition hm_wf :: "SimpleHashMap \<Rightarrow> bool" where
  "hm_wf m \<longleftrightarrow> equivp (hm_match m) \<and> (\<exists>n\<le>31. hm_capacity m = 2 ^ n)
     \<and> length (hm_map m) = hm_capacity m \<and> hm_occupancy m = count_used (hm_map m)
     \<and> hm_occupancy m < hm_capacity m \<and> chained (hm_map m) \<and> unique_keys (hm_match m) (hm_map m)"

definition hm_load :: "SimpleHashMap \<Rightarrow> bool" where
  "hm_load m \<longleftrightarrow> hm_occupancy m + hm_occupancy m div 4 < hm_capacity m"

definition contents :: "SimpleHashMap \<Rightarrow> Entry set" where
  "contents m = {e \<in> set (hm_map m). used e}"

lemma chainedD:
  assumes "chained es" "i < length es" "used (es ! i)" "j < length es"
    and "cdist (length es) (slot_of (length es) (hash (es ! i))) j
          < cdist (length es) (slot_of (length es) (hash (es ! i))) i"
  shows "used (es ! j)"
  using assms unfolding chained_def Let_def by blast

lemma unique_keysD:
  assumes "unique_keys match es" "i < length es" "j < length es" "used (es ! i)" "used (es ! j)"
    and "hash (es ! i) = hash (es ! j)" "match (key (es ! i)) (key (es ! j))"
  shows "i = j"
  using assms unfolding unique_keys_def by blast

lemma hm_wf_nth_inj:
  assumes "hm_wf m" "i < hm_capacity m" "j < hm_capacity m" "used (hm_map m ! i)"
    and "hm_map m ! i = hm_map m ! j"
  shows "i = j"
proof -
  have "unique_keys (hm_match m) (hm_map m)" "equivp (hm_match m)" "length (hm_map m) = hm_capacity m"
    using assms(1) by (auto simp: hm_wf_def)
  then show ?thesis using assms by (intro unique_keysD [of "hm_match m" "hm_map m"]) (simp_all add: equivp_reflp)
qed

lemma IsPowerOfTwo_capacity: "n \<le> 31 \<Longrightarrow> IsPowerOfTwo (of_nat (2 ^ n) :: u32)"
  using IsPowerOfTwo_pow2 [where ?'a = 32 and k = n] by simp

lemma slot_of_less: "n \<le> 31 \<Longrightarrow> slot_of (2 ^ n) h < 2 ^ n"
proof -
  have "of_nat (2 ^ n - 1) = (mask n :: u32)" by (simp add: mask_eq_exp_minus_1 of_nat_diff)
  then show ?thesis by (simp add: slot_of_def) (simp add: unat_and_mask)
qed

lemma count_used_card: "count_used es = card {i. i < length es \<and> used (es ! i)}"
  by (simp add: count_used_def length_filter_conv_card)

lemma count_used_update:
  assumes "i < length es" "\<not> used (es ! i)" "used e"
  shows "count_used (es[i := e]) = Suc (count_used es)"
proof -
  have "{j. j < length (es[i := e]) \<and> used (es[i := e] ! j)} = insert i {j. j < length es \<and> used (es ! j)}"
    using assms by (auto simp: nth_list_update)
  then show ?thesis using assms by (simp add: count_used_card)
qed

lemma count_used_clear:
  assumes "i < length es" "used (es ! i)" "\<not> used e"
  shows "Suc (count_used (es[i := e])) = count_used es"
proof -
  have "{j. j < length es \<and> used (es ! j)} = insert i {j. j < length (es[i := e]) \<and> used (es[i := e] ! j)}"
    using assms by (auto simp: nth_list_update)
  then show ?thesis using assms by (simp add: count_used_card)
qed

lemma count_used_same:
  assumes "i < length es" "used (es ! i)" "used e"
  shows "count_used (es[i := e]) = count_used es"
proof -
  have "{j. j < length es \<and> used (es ! j)} = {j. j < length (es[i := e]) \<and> used (es[i := e] ! j)}"
    using assms by (auto simp: nth_list_update)
  then show ?thesis by (simp only: count_used_card)
qed

lemma count_used_lt_free:
  assumes "count_used es < length es"
  shows "\<exists>j<length es. \<not> used (es ! j)"
proof (rule ccontr)
  assume "\<not> ?thesis"
  then have "{i. i < length es \<and> used (es ! i)} = {..<length es}" by auto
  then show False using assms by (simp add: count_used_card)
qed

section \<open>Probing\<close>

lemma if_not_P_swap: "(if P then x else y) = (if \<not> P then y else x)"
  by simp

definition stop_slot :: "SimpleHashMap \<Rightarrow> ptr \<Rightarrow> u32 \<Rightarrow> nat \<Rightarrow> bool" where
  "stop_slot m k h p \<longleftrightarrow>
     \<not> (used (hm_map m ! p) \<and> (h \<noteq> hash (hm_map m ! p) \<or> \<not> hm_match m k (key (hm_map m ! p))))"

lemma Probe_loop_stop:
  "Probe_loop m k h p = (if stop_slot m k h p then Some p else Probe_loop m k h (next_slot m p))"
  unfolding stop_slot_def by (subst Probe_loop.simps) (rule if_not_P_swap)

lemma Probe_loop_first:
  assumes "p < hm_capacity m" "j < hm_capacity m" "stop_slot m k h j"
  shows "\<exists>q<hm_capacity m. Probe_loop m k h p = Some q \<and> stop_slot m k h q
    \<and> (\<forall>i<hm_capacity m. cdist (hm_capacity m) p i < cdist (hm_capacity m) p q \<longrightarrow> \<not> stop_slot m k h i)"
  using assms(1)
proof (induction "cdist (hm_capacity m) p j" arbitrary: p rule: less_induct)
  case less
  let ?N = "hm_capacity m"
  show ?case
  proof (cases "stop_slot m k h p")
    case True
    then have "Probe_loop m k h p = Some p"
      by (subst Probe_loop_stop) simp
    then show ?thesis using True less.prems by (intro exI [of _ p]) (simp add: cdist_def)
  next
    case False
    let ?p = "next_slot m p"
    have step: "Probe_loop m k h p = Probe_loop m k h ?p"
      using False by (subst Probe_loop_stop) simp
    have jp: "j \<noteq> p" using False assms(3) by auto
    have p': "?p < ?N" using less.prems by (simp add: next_slot_def)
    have dist: "Suc (cdist ?N ?p i) = cdist ?N p i" if "i < ?N" "i \<noteq> p" for i
      using cdist_next [OF less.prems that] by (simp add: next_slot_def)
    have "cdist ?N ?p j < cdist ?N p j" using dist [OF assms(2) jp] by simp
    from less.hyps [OF this p'] obtain q where q: "q < ?N" "Probe_loop m k h ?p = Some q" "stop_slot m k h q"
      "\<forall>i<?N. cdist ?N ?p i < cdist ?N ?p q \<longrightarrow> \<not> stop_slot m k h i" by blast
    have qp: "q \<noteq> p" using False q(3) by auto
    have "\<not> stop_slot m k h i" if "i < ?N" "cdist ?N p i < cdist ?N p q" for i
    proof (cases "i = p")
      case False
      then have "cdist ?N ?p i < cdist ?N ?p q" using dist [OF that(1) False] dist [OF q(1) qp] that(2) by simp
      then show ?thesis using q(4) that(1) by blast
    qed (use \<open>\<not> stop_slot m k h p\<close> in simp)
    then show ?thesis using q step by auto
  qed
qed

lemma Probe_wf:
  assumes wf: "hm_wf m" and k: "k \<noteq> NULL"
  obtains q where "Probe m k h = Some q" "q < hm_capacity m"
    "used (hm_map m ! q) \<Longrightarrow> hash (hm_map m ! q) = h \<and> hm_match m k (key (hm_map m ! q))"
    "\<not> used (hm_map m ! q) \<Longrightarrow> \<forall>i<hm_capacity m. used (hm_map m ! i) \<longrightarrow> hash (hm_map m ! i) = h
        \<longrightarrow> \<not> hm_match m k (key (hm_map m ! i))"
    "\<forall>j<hm_capacity m. cdist (hm_capacity m) (start_slot m h) j < cdist (hm_capacity m) (start_slot m h) q
        \<longrightarrow> used (hm_map m ! j)"
proof -
  let ?N = "hm_capacity m" and ?es = "hm_map m" and ?s = "start_slot m h"
  obtain n where n: "n \<le> 31" "?N = 2 ^ n" using wf by (auto simp: hm_wf_def)
  have len: "length ?es = ?N" and occ: "hm_occupancy m < ?N" and ch: "chained ?es"
    using wf by (auto simp: hm_wf_def)
  have s: "?s < ?N" using slot_of_less [OF n(1)] n(2) by simp
  obtain j where j: "j < ?N" "\<not> used (?es ! j)"
    using count_used_lt_free [of ?es] wf by (auto simp: hm_wf_def)
  then have "stop_slot m k h j" by (simp add: stop_slot_def)
  from Probe_loop_first [OF s j(1) this] obtain q where q: "q < ?N" "Probe_loop m k h ?s = Some q" "stop_slot m k h q"
    "\<forall>i<?N. cdist ?N ?s i < cdist ?N ?s q \<longrightarrow> \<not> stop_slot m k h i" by blast
  have pr: "Probe m k h = Some q"
    using k occ q(2) IsPowerOfTwo_capacity [OF n(1)] n(2) by (simp add: Probe_def)
  have absent: "\<not> hm_match m k (key (?es ! i))"
    if nu: "\<not> used (?es ! q)" and i: "i < ?N" "used (?es ! i)" "hash (?es ! i) = h" for i
  proof
    assume "hm_match m k (key (?es ! i))"
    then have st: "stop_slot m k h i" using i by (simp add: stop_slot_def)
    have "\<not> cdist ?N ?s q < cdist ?N ?s i"
      using chainedD [OF ch, of i q] i q(1) nu len by metis
    moreover have "cdist ?N ?s q \<noteq> cdist ?N ?s i"
      using cdist_inj [OF s q(1) i(1)] nu i(2) by auto
    ultimately have "cdist ?N ?s i < cdist ?N ?s q" by simp
    then show False using q(4) i(1) st by blast
  qed
  have hit: "hash (?es ! q) = h \<and> hm_match m k (key (?es ! q))" if "used (?es ! q)"
    using q(3) that unfolding stop_slot_def by blast
  have before: "\<forall>j<?N. cdist ?N ?s j < cdist ?N ?s q \<longrightarrow> used (?es ! j)"
    using q(4) unfolding stop_slot_def by blast
  show ?thesis
    using that [OF pr q(1) hit _ before] absent by blast
qed

section \<open>Queries\<close>

definition hm_get :: "SimpleHashMap \<Rightarrow> ptr \<Rightarrow> u32 \<Rightarrow> ptr option" where
  "hm_get m k h =
     (case Lookup m k h False of Some (_, Some p) \<Rightarrow> Some (value (hm_map m ! p)) | _ \<Rightarrow> None)"

definition hm_put :: "lookup_fun \<Rightarrow> SimpleHashMap \<Rightarrow> ptr \<Rightarrow> u32 \<Rightarrow> ptr \<Rightarrow> SimpleHashMap option" where
  "hm_put lookup m k h v =
     (case lookup m k h True of Some (m', Some p) \<Rightarrow> Some (set_value m' p v) | _ \<Rightarrow> None)"

definition same_key :: "SimpleHashMap \<Rightarrow> ptr \<Rightarrow> u32 \<Rightarrow> Entry \<Rightarrow> bool" where
  "same_key m k h e \<longleftrightarrow> hash e = h \<and> hm_match m k (key e)"

lemma contents_nth:
  "e \<in> contents m \<longleftrightarrow> (\<exists>i<length (hm_map m). hm_map m ! i = e \<and> used (hm_map m ! i))"
  by (auto simp: contents_def in_set_conv_nth)

lemma Probe_found:
  assumes wf: "hm_wf m" and k: "k \<noteq> NULL"
  obtains q where "Probe m k h = Some q" "q < hm_capacity m"
    "\<And>e. e \<in> contents m \<and> same_key m k h e \<longleftrightarrow> used (hm_map m ! q) \<and> e = hm_map m ! q"
    "\<forall>j<hm_capacity m. cdist (hm_capacity m) (start_slot m h) j < cdist (hm_capacity m) (start_slot m h) q
        \<longrightarrow> used (hm_map m ! j)"
proof -
  obtain q where q: "Probe m k h = Some q" "q < hm_capacity m"
    "used (hm_map m ! q) \<Longrightarrow> hash (hm_map m ! q) = h \<and> hm_match m k (key (hm_map m ! q))"
    "\<not> used (hm_map m ! q) \<Longrightarrow> \<forall>i<hm_capacity m. used (hm_map m ! i) \<longrightarrow> hash (hm_map m ! i) = h
        \<longrightarrow> \<not> hm_match m k (key (hm_map m ! i))"
    "\<forall>j<hm_capacity m. cdist (hm_capacity m) (start_slot m h) j < cdist (hm_capacity m) (start_slot m h) q
        \<longrightarrow> used (hm_map m ! j)"
    using Probe_wf [OF wf k, of h] by blast
  have len: "length (hm_map m) = hm_capacity m" and eq: "equivp (hm_match m)"
    and un: "unique_keys (hm_match m) (hm_map m)" using wf by (auto simp: hm_wf_def)
  have "e \<in> contents m \<and> same_key m k h e \<longleftrightarrow> used (hm_map m ! q) \<and> e = hm_map m ! q" for e
  proof
    assume "e \<in> contents m \<and> same_key m k h e"
    then obtain i where i: "i < hm_capacity m" "hm_map m ! i = e" "used (hm_map m ! i)"
      "hash (hm_map m ! i) = h" "hm_match m k (key (hm_map m ! i))"
      by (auto simp: contents_nth same_key_def len)
    then have u: "used (hm_map m ! q)" using q(4) by blast
    then have "hm_match m (key (hm_map m ! q)) (key (hm_map m ! i))"
      using q(3) i(5) eq by (meson equivp_symp equivp_transp)
    then have "q = i" using un u i q(2,3) len unfolding unique_keys_def by metis
    then show "used (hm_map m ! q) \<and> e = hm_map m ! q" using i by simp
  next
    assume "used (hm_map m ! q) \<and> e = hm_map m ! q"
    then show "e \<in> contents m \<and> same_key m k h e"
      using q(2,3) len by (auto simp: contents_nth same_key_def)
  qed
  then show ?thesis using that q(1,2,5) by blast
qed

lemma Lookup_no_insert:
  "Lookup m k h False = (case Probe m k h of None \<Rightarrow> None | Some p \<Rightarrow>
     Some (m, if used (hm_map m ! p) then Some p else None))"
  by (simp add: Lookup_def numeral_2_eq_2 Lookup_depth.simps split: option.split)

lemma hm_get_iff:
  assumes "hm_wf m" "k \<noteq> NULL"
  shows "hm_get m k h = Some v \<longleftrightarrow> (\<exists>e\<in>contents m. same_key m k h e \<and> value e = v)"
proof -
  obtain q where q: "Probe m k h = Some q"
    "\<And>e. e \<in> contents m \<and> same_key m k h e \<longleftrightarrow> used (hm_map m ! q) \<and> e = hm_map m ! q"
    by (rule Probe_found [OF assms]) blast
  have "hm_get m k h = (if used (hm_map m ! q) then Some (value (hm_map m ! q)) else None)"
    by (simp add: hm_get_def Lookup_no_insert q(1))
  then show ?thesis by (metis option.distinct(1) option.inject q(2))
qed

lemma hm_get_None_iff:
  assumes "hm_wf m" "k \<noteq> NULL"
  shows "hm_get m k h = None \<longleftrightarrow> (\<forall>e\<in>contents m. \<not> same_key m k h e)"
  using hm_get_iff [OF assms, of h] by (cases "hm_get m k h") auto

section \<open>Insertion\<close>

lemma chained_insert:
  assumes "chained es" "q < length es" "used e"
    and "\<forall>j<length es. cdist (length es) (slot_of (length es) (hash e)) j
            < cdist (length es) (slot_of (length es) (hash e)) q \<longrightarrow> used (es ! j)"
  shows "chained (es[q := e])"
  unfolding chained_def Let_def length_list_update
proof (intro allI impI)
  fix i j
  let ?N = "length es" and ?es = "es[q := e]"
  assume i: "i < ?N" "used (?es ! i)" and j: "j < ?N"
    and d: "cdist ?N (slot_of ?N (hash (?es ! i))) j < cdist ?N (slot_of ?N (hash (?es ! i))) i"
  show "used (?es ! j)"
  proof (cases "j = q")
    case False
    show ?thesis
    proof (cases "i = q")
      case True
      then show ?thesis using assms(2,4) d j False by (simp add: nth_list_update)
    next
      case iq: False
      have "used (es ! j)"
        using chainedD [OF assms(1) i(1) _ j] i(2) d iq by simp
      then show ?thesis using False by simp
    qed
  qed (use assms in simp)
qed

lemma contents_insert:
  assumes "q < length es" "\<not> used (es ! q)" "used e"
  shows "{x \<in> set (es[q := e]). used x} = insert e {x \<in> set es. used x}"
  using assms by (auto simp: in_set_conv_nth nth_list_update split: if_splits)

lemma unique_insert:
  assumes "equivp match" "unique_keys match es" "q < length es"
    and "\<forall>i<length es. used (es ! i) \<longrightarrow> hash (es ! i) = hash e \<longrightarrow> \<not> match (key e) (key (es ! i))"
  shows "unique_keys match (es[q := e])"
  unfolding unique_keys_def length_list_update
proof (intro allI impI, elim conjE)
  fix i j
  let ?es = "es[q := e]"
  assume i: "i < length es" and j: "j < length es" and u: "used (?es ! i)" "used (?es ! j)"
    and h: "hash (?es ! i) = hash (?es ! j)" and m: "match (key (?es ! i)) (key (?es ! j))"
  have sym: "match (key (?es ! j)) (key (?es ! i))" using m assms(1) by (meson equivp_symp)
  show "i = j"
  proof (rule ccontr)
    assume ne: "i \<noteq> j"
    consider "i = q" | "j = q" | "i \<noteq> q" "j \<noteq> q" by blast
    then show False
    proof cases
      case 1
      then show False using assms(3,4) j u h m ne by (metis nth_list_update_eq nth_list_update_neq)
    next
      case 2
      then show False using assms(3,4) i u h sym ne by (metis nth_list_update_eq nth_list_update_neq)
    next
      case 3
      then show False using assms(2) i j u h m ne unfolding unique_keys_def by (metis nth_list_update_neq)
    qed
  qed
qed

definition grown :: "SimpleHashMap \<Rightarrow> nat \<Rightarrow> Entry \<Rightarrow> SimpleHashMap" where
  "grown m q e = m\<lparr>hm_map := (hm_map m)[q := e], hm_occupancy := hm_occupancy m + 1\<rparr>"

lemma grown_wf:
  assumes wf: "hm_wf m" and q: "q < hm_capacity m" "\<not> used (hm_map m ! q)" and e: "used e"
    and absent: "\<forall>x\<in>contents m. \<not> same_key m (key e) (hash e) x"
    and before: "\<forall>j<hm_capacity m. cdist (hm_capacity m) (start_slot m (hash e)) j
        < cdist (hm_capacity m) (start_slot m (hash e)) q \<longrightarrow> used (hm_map m ! j)"
  shows "chained (hm_map (grown m q e))" "unique_keys (hm_match m) (hm_map (grown m q e))"
    "hm_occupancy (grown m q e) = count_used (hm_map (grown m q e))"
    "contents (grown m q e) = insert e (contents m)"
    "hm_occupancy m + 1 < hm_capacity m \<Longrightarrow> hm_wf (grown m q e)"
proof -
  have len: "length (hm_map m) = hm_capacity m" and eq: "equivp (hm_match m)"
    and un: "unique_keys (hm_match m) (hm_map m)" and ch: "chained (hm_map m)"
    and occ: "hm_occupancy m = count_used (hm_map m)" using wf by (auto simp: hm_wf_def)
  show c: "chained (hm_map (grown m q e))"
    using chained_insert [OF ch _ e, of q] q before len by (simp add: grown_def)
  have "\<forall>i<length (hm_map m). used (hm_map m ! i) \<longrightarrow> hash (hm_map m ! i) = hash e
      \<longrightarrow> \<not> hm_match m (key e) (key (hm_map m ! i))"
  proof (intro allI impI)
    fix i assume "i < length (hm_map m)" "used (hm_map m ! i)" "hash (hm_map m ! i) = hash e"
    moreover from this have "hm_map m ! i \<in> contents m" by (auto simp: contents_nth)
    ultimately show "\<not> hm_match m (key e) (key (hm_map m ! i))"
      using absent by (simp add: same_key_def)
  qed
  then show u: "unique_keys (hm_match m) (hm_map (grown m q e))"
    using unique_insert [OF eq un, of q e] q len by (simp add: grown_def)
  show o: "hm_occupancy (grown m q e) = count_used (hm_map (grown m q e))"
    using count_used_update [of q "hm_map m" e] q e len occ by (simp add: grown_def)
  show "contents (grown m q e) = insert e (contents m)"
    using contents_insert [of q "hm_map m" e] q e len by (simp add: grown_def contents_def)
  show "hm_wf (grown m q e)" if "hm_occupancy m + 1 < hm_capacity m"
    using wf c u o that by (simp add: hm_wf_def grown_def)
qed

definition lookup_inserts :: "lookup_fun \<Rightarrow> SimpleHashMap \<Rightarrow> ptr \<Rightarrow> u32 \<Rightarrow> bool" where
  "lookup_inserts lookup m k h \<longleftrightarrow>
     (\<exists>m' p. lookup m k h True = Some (m', Some p) \<and> hm_wf m' \<and> hm_match m' = hm_match m
        \<and> hm_capacity m \<le> hm_capacity m' \<and> (hm_load m \<longrightarrow> hm_load m')
        \<and> p < hm_capacity m' \<and> used (hm_map m' ! p) \<and> same_key m k h (hm_map m' ! p)
        \<and> (if \<exists>x\<in>contents m. same_key m k h x then m' = m
            else contents m' = insert \<lparr>key = k, value = NULL, hash = h\<rparr> (contents m)
              \<and> hm_map m' ! p = \<lparr>key = k, value = NULL, hash = h\<rparr>))"

lemma Lookup_depth_Suc:
  assumes "Probe m k h = Some p"
  shows "Lookup_depth (Suc d) m k h True =
     (if used (hm_map m ! p) then Some (m, Some p)
      else (let m' = grown m p \<lparr>key = k, value = NULL, hash = h\<rparr>
            in if hm_capacity m \<le> hm_occupancy m' + hm_occupancy m' div 4
               then (case Resize (Lookup_depth d) m' of
                       None \<Rightarrow> None
                     | Some m'' \<Rightarrow> (case Probe m'' k h of None \<Rightarrow> None | Some p' \<Rightarrow> Some (m'', Some p')))
               else Some (m', Some p)))"
  using assms by (simp add: grown_def Let_def Lookup_depth.simps)

lemma lookup_inserts_present:
  assumes wf: "hm_wf m" and k: "k \<noteq> NULL" and ex: "\<exists>x\<in>contents m. same_key m k h x"
  shows "lookup_inserts (Lookup_depth (Suc d)) m k h"
proof -
  obtain q where q: "Probe m k h = Some q" "q < hm_capacity m"
    "\<And>e. e \<in> contents m \<and> same_key m k h e \<longleftrightarrow> used (hm_map m ! q) \<and> e = hm_map m ! q"
    by (rule Probe_found [OF wf k, of h]) (erule that, assumption+)
  then have "used (hm_map m ! q)" "same_key m k h (hm_map m ! q)" using ex by blast+
  then show ?thesis using ex q(1,2) wf by (simp add: lookup_inserts_def Lookup_depth_Suc)
qed

lemma Lookup_depth_no_growth:
  assumes wf: "hm_wf m" and k: "k \<noteq> NULL"
    and room: "Suc (hm_occupancy m) + Suc (hm_occupancy m) div 4 < hm_capacity m"
  shows "lookup_inserts (Lookup_depth (Suc d)) m k h"
proof -
  let ?e = "\<lparr>key = k, value = NULL, hash = h\<rparr>"
  obtain q where q: "Probe m k h = Some q" "q < hm_capacity m"
    "\<And>e. e \<in> contents m \<and> same_key m k h e \<longleftrightarrow> used (hm_map m ! q) \<and> e = hm_map m ! q"
    "\<forall>j<hm_capacity m. cdist (hm_capacity m) (start_slot m h) j < cdist (hm_capacity m) (start_slot m h) q
        \<longrightarrow> used (hm_map m ! j)"
    using Probe_found [OF wf k, of h] by blast
  show ?thesis
  proof (cases "used (hm_map m ! q)")
    case True
    then have "\<exists>x\<in>contents m. same_key m k h x" using q(3) by blast
    then show ?thesis by (rule lookup_inserts_present [OF wf k])
  next
    case False
    have absent: "\<forall>x\<in>contents m. \<not> same_key m k h x" using q(3) False by blast
    have len: "length (hm_map m) = hm_capacity m" and eq: "equivp (hm_match m)"
      using wf by (auto simp: hm_wf_def)
    note g = grown_wf [OF wf q(2) False, of ?e]
    have wf': "hm_wf (grown m q ?e)" and co: "contents (grown m q ?e) = insert ?e (contents m)"
      using g absent q(4) k room by simp_all
    have nth: "hm_map (grown m q ?e) ! q = ?e" using q(2) len by (simp add: grown_def)
    have "Lookup_depth (Suc d) m k h True = Some (grown m q ?e, Some q)"
      using room False by (simp add: Lookup_depth_Suc [OF q(1)] Let_def) (simp add: grown_def)
    moreover have "same_key m k h ?e" using eq by (simp add: same_key_def equivp_reflp)
    moreover have "hm_load (grown m q ?e)" using room by (simp add: hm_load_def grown_def)
    ultimately show ?thesis
      using wf' co nth absent k q(2) by (auto simp: lookup_inserts_def grown_def [of m q ?e])
  qed
qed

lemma set_value_wf:
  assumes wf: "hm_wf m" and p: "p < hm_capacity m" "used (hm_map m ! p)"
  shows "hm_wf (set_value m p v)"
    and "contents (set_value m p v) =
      insert ((hm_map m ! p)\<lparr>value := v\<rparr>) (contents m - {hm_map m ! p})"
proof -
  let ?e = "(hm_map m ! p)\<lparr>value := v\<rparr>" and ?es = "hm_map m"
  have len: "length ?es = hm_capacity m" using wf by (auto simp: hm_wf_def)
  have kh: "key (?es[p := ?e] ! i) = key (?es ! i)" "hash (?es[p := ?e] ! i) = hash (?es ! i)" for i
    by (cases "p < length ?es"; cases "i = p"; simp add: list_update_beyond)+
  have "count_used (?es[p := ?e]) = count_used ?es"
    using p len by (intro count_used_same) simp_all
  moreover have "chained (?es[p := ?e]) = chained ?es" unfolding chained_def length_list_update kh ..
  moreover have "unique_keys (hm_match m) (?es[p := ?e]) = unique_keys (hm_match m) ?es"
    unfolding unique_keys_def length_list_update kh ..
  ultimately show "hm_wf (set_value m p v)"
    using wf by (simp add: hm_wf_def set_value_def)
  note inj = hm_wf_nth_inj [OF wf p(1) _ p(2)]
  show "contents (set_value m p v) = insert ?e (contents m - {?es ! p})"
  proof (intro equalityI subsetI)
    fix x assume "x \<in> contents (set_value m p v)"
    then obtain i where i: "i < hm_capacity m" "?es[p := ?e] ! i = x" "used x"
      using len by (auto simp: contents_nth set_value_def)
    show "x \<in> insert ?e (contents m - {?es ! p})"
    proof (cases "i = p")
      case False
      then show ?thesis using i inj [OF i(1)] len by (auto simp: contents_nth)
    qed (use i p len in simp)
  next
    fix x assume x: "x \<in> insert ?e (contents m - {?es ! p})"
    show "x \<in> contents (set_value m p v)"
    proof (cases "x = ?e")
      case True
      then show ?thesis using p len by (auto simp: contents_nth set_value_def intro!: exI [of _ p])
    next
      case False
      then obtain i where i: "i < hm_capacity m" "?es ! i = x" "used x" "i \<noteq> p"
        using x len by (auto simp: contents_nth)
      then show ?thesis using len by (auto simp: contents_nth set_value_def intro!: exI [of _ i])
    qed
  qed
qed

lemma hm_put_new:
  assumes wf: "hm_wf m" and k: "k \<noteq> NULL" and ins: "lookup_inserts lookup m k h"
    and absent: "\<forall>x\<in>contents m. \<not> same_key m k h x"
  obtains m' p where "lookup m k h True = Some (m', Some p)"
    "hm_wf (set_value m' p v)" "hm_match (set_value m' p v) = hm_match m"
    "contents (set_value m' p v) = insert \<lparr>key = k, value = v, hash = h\<rparr> (contents m)"
    "hm_capacity m \<le> hm_capacity (set_value m' p v)"
proof -
  let ?e = "\<lparr>key = k, value = NULL, hash = h\<rparr>"
  obtain m' p where m': "lookup m k h True = Some (m', Some p)" "hm_wf m'" "hm_match m' = hm_match m"
    "p < hm_capacity m'" "used (hm_map m' ! p)" "contents m' = insert ?e (contents m)" "hm_map m' ! p = ?e"
    and cap: "hm_capacity m \<le> hm_capacity m'"
    using ins absent unfolding lookup_inserts_def by auto
  have "?e \<notin> contents m" using absent wf by (auto simp: same_key_def hm_wf_def equivp_reflp)
  then have "contents (set_value m' p v) = insert \<lparr>key = k, value = v, hash = h\<rparr> (contents m)"
    using set_value_wf(2) [OF m'(2,4,5), of v] m'(6,7) by auto
  then show ?thesis
    using that m'(1,3) cap set_value_wf(1) [OF m'(2,4,5)] by (simp add: set_value_def)
qed

section \<open>Growth\<close>

lemma Initialize_wf:
  assumes "equivp (hm_match m)" "n \<le> 31"
  obtains m' where "Initialize m (2 ^ n) = Some m'" "hm_wf m'" "contents m' = {}"
    "hm_match m' = hm_match m" "hm_capacity m' = 2 ^ n" "hm_occupancy m' = 0"
proof -
  define m' where "m' = m\<lparr>hm_map := replicate (2 ^ n) null_entry, hm_capacity := 2 ^ n, hm_occupancy := 0\<rparr>"
  have "Initialize m (2 ^ n) = Some m'"
    using IsPowerOfTwo_capacity [OF assms(2)] by (simp add: Initialize_def m'_def)
  moreover have "hm_wf m'"
    using assms by (auto simp: hm_wf_def m'_def count_used_def chained_def unique_keys_def null_entry_def)
  moreover have "contents m' = {}" by (auto simp: contents_def m'_def null_entry_def)
  ultimately show ?thesis using that by (simp add: m'_def)
qed

lemma finite_contents [simp]: "finite (contents m)"
  by (simp add: contents_def)

lemma card_contents:
  assumes "hm_wf m"
  shows "card (contents m) = hm_occupancy m"
proof -
  let ?I = "{i. i < length (hm_map m) \<and> used (hm_map m ! i)}"
  have "inj_on (\<lambda>i. hm_map m ! i) ?I"
    using hm_wf_nth_inj [OF assms] assms by (intro inj_onI) (auto simp: hm_wf_def)
  moreover have "contents m = (\<lambda>i. hm_map m ! i) ` ?I" by (auto simp: contents_nth)
  ultimately show ?thesis using assms by (simp add: card_image hm_wf_def count_used_card)
qed

lemma unique_keys_Cons:
  assumes "equivp match" "unique_keys match (e # es)"
  shows "unique_keys match es"
    and "used e \<Longrightarrow> x \<in> set es \<Longrightarrow> used x \<Longrightarrow> hash x = hash e \<Longrightarrow> \<not> match (key x) (key e)"
proof -
  show "unique_keys match es"
    unfolding unique_keys_def
  proof (intro allI impI, elim conjE)
    fix i j assume "i < length es" "j < length es" "used (es ! i)" "used (es ! j)"
      "hash (es ! i) = hash (es ! j)" "match (key (es ! i)) (key (es ! j))"
    then show "i = j" using unique_keysD [OF assms(2), of "Suc i" "Suc j"] by simp
  qed
  show "\<not> match (key x) (key e)" if x: "used e" "x \<in> set es" "used x" "hash x = hash e"
  proof -
    obtain i where "i < length es" "es ! i = x" using x(2) by (auto simp: in_set_conv_nth)
    then show ?thesis using unique_keysD [OF assms(2), of "Suc i" 0] x by auto
  qed
qed

lemma rehash_wf:
  assumes "hm_wf m" "n = count_used es" "unique_keys (hm_match m) es"
    and "\<forall>e\<in>set es. used e \<longrightarrow> (\<forall>x\<in>contents m. \<not> same_key m (key e) (hash e) x)"
    and "(hm_occupancy m + n) + (hm_occupancy m + n) div 4 < hm_capacity m"
  shows "\<exists>m'. rehash (Lookup_depth (Suc d)) m es n = Some m' \<and> hm_wf m' \<and> hm_match m' = hm_match m
    \<and> hm_capacity m \<le> hm_capacity m' \<and> contents m' = contents m \<union> {e \<in> set es. used e}"
  using assms
proof (induction es arbitrary: m n)
  case Nil
  then show ?case by (simp add: count_used_def)
next
  case (Cons e es)
  have eq: "equivp (hm_match m)" using Cons.prems(1) by (simp add: hm_wf_def)
  note uniq = unique_keys_Cons [OF eq Cons.prems(3)]
  show ?case
  proof (cases "used e")
    case False
    then have n: "n = count_used es" using Cons.prems(2) by (simp add: count_used_def)
    have "rehash (Lookup_depth (Suc d)) m (e # es) n = rehash (Lookup_depth (Suc d)) m es n"
      using False by (cases n) simp_all
    moreover have "{x \<in> set (e # es). used x} = {x \<in> set es. used x}" using False by auto
    ultimately show ?thesis using Cons.IH [OF Cons.prems(1) n uniq(1)] Cons.prems(4,5) by simp
  next
    case True
    then obtain n' where n: "n = Suc n'" "n' = count_used es"
      using Cons.prems(2) by (auto simp: count_used_def)
    have absent: "\<forall>x\<in>contents m. \<not> same_key m (key e) (hash e) x" using Cons.prems(4) True by simp
    have room: "Suc (hm_occupancy m) + Suc (hm_occupancy m) div 4 < hm_capacity m"
    proof -
      have "Suc (hm_occupancy m) \<le> hm_occupancy m + n" using n by simp
      then have "Suc (hm_occupancy m) div 4 \<le> (hm_occupancy m + n) div 4" by (rule div_le_mono)
      then show ?thesis using Cons.prems(5) n by linarith
    qed
    obtain m' p where m': "Lookup_depth (Suc d) m (key e) (hash e) True = Some (m', Some p)"
      "hm_wf (set_value m' p (value e))" "hm_match (set_value m' p (value e)) = hm_match m"
      "contents (set_value m' p (value e)) = insert \<lparr>key = key e, value = value e, hash = hash e\<rparr> (contents m)"
      "hm_capacity m \<le> hm_capacity (set_value m' p (value e))"
      using hm_put_new [OF Cons.prems(1) True Lookup_depth_no_growth [OF Cons.prems(1) True room] absent,
          where v = "value e"] by blast
    let ?m = "set_value m' p (value e)"
    have eta: "\<lparr>key = key e, value = value e, hash = hash e\<rparr> = e" by (cases e) simp
    have co: "contents ?m = insert e (contents m)" using m'(4) by (simp only: eta)
    have "e \<notin> contents m" using absent eq by (auto simp: same_key_def equivp_reflp)
    then have occ: "hm_occupancy ?m = Suc (hm_occupancy m)"
      using card_contents [OF m'(2)] card_contents [OF Cons.prems(1)] co by simp
    have "\<exists>m''. rehash (Lookup_depth (Suc d)) ?m es n' = Some m'' \<and> hm_wf m'' \<and> hm_match m'' = hm_match ?m
      \<and> hm_capacity ?m \<le> hm_capacity m'' \<and> contents m'' = contents ?m \<union> {x \<in> set es. used x}"
    proof (rule Cons.IH [OF m'(2) n(2)])
      show "unique_keys (hm_match ?m) es" using uniq(1) m'(3) by simp
      show "\<forall>x\<in>set es. used x \<longrightarrow> (\<forall>y\<in>contents ?m. \<not> same_key ?m (key x) (hash x) y)"
        using uniq(2) [OF True] Cons.prems(4) by (auto simp: co same_key_def m'(3))
      show "(hm_occupancy ?m + n') + (hm_occupancy ?m + n') div 4 < hm_capacity ?m"
        using Cons.prems(5) m'(5) by (simp add: occ n(1))
    qed
    then show ?thesis using True m'(1,3,5) co n(1) by (auto simp: insert_commute) 
  qed
qed

lemma Resize_wf:
  assumes eq: "equivp (hm_match m)" and cap: "hm_capacity m = 2 ^ n" "n \<le> 30"
    and len: "length (hm_map m) = hm_capacity m" and occ: "hm_occupancy m = count_used (hm_map m)"
    and un: "unique_keys (hm_match m) (hm_map m)"
  obtains m' where "Resize (Lookup_depth (Suc d)) m = Some m'" "hm_wf m'" "hm_match m' = hm_match m"
    "2 * hm_capacity m \<le> hm_capacity m'" "contents m' = contents m"
proof -
  have "(2::nat) ^ Suc n \<le> 2 ^ 31" using cap(2) by (intro power_increasing) simp_all
  then have c2: "(hm_capacity m * 2) mod 2 ^ 32 = 2 ^ Suc n" using cap(1) by simp
  obtain m0 where m0: "Initialize m (2 ^ Suc n) = Some m0" "hm_wf m0" "contents m0 = {}"
    "hm_match m0 = hm_match m" "hm_capacity m0 = 2 ^ Suc n" "hm_occupancy m0 = 0"
    using Initialize_wf [OF eq, of "Suc n"] cap(2) by auto
  have "count_used (hm_map m) \<le> hm_capacity m" unfolding count_used_def len [symmetric] by (rule length_filter_le)
  then have c: "hm_occupancy m \<le> 2 ^ n" "0 < (2::nat) ^ n" using occ cap(1) by simp_all
  have "4 * (hm_occupancy m div 4) \<le> hm_occupancy m" by simp
  then have room: "hm_occupancy m + hm_occupancy m div 4 < 2 ^ Suc n"
    using c unfolding power_Suc by linarith
  have "\<exists>m'. rehash (Lookup_depth (Suc d)) m0 (hm_map m) (hm_occupancy m) = Some m' \<and> hm_wf m'
      \<and> hm_match m' = hm_match m0 \<and> hm_capacity m0 \<le> hm_capacity m'
      \<and> contents m' = contents m0 \<union> {e \<in> set (hm_map m). used e}"
    using m0 occ un room by (intro rehash_wf) simp_all
  then show ?thesis using that m0 c2 cap(1) by (auto simp: Resize_def contents_def [of m])
qed

lemma Lookup_inserts:
  assumes wf: "hm_wf m" and k: "k \<noteq> NULL" and cap: "hm_capacity m \<le> 2 ^ 30"
  shows "lookup_inserts Lookup m k h"
proof (cases "Suc (hm_occupancy m) + Suc (hm_occupancy m) div 4 < hm_capacity m")
  case True
  then show ?thesis
    unfolding Lookup_def numeral_2_eq_2 by (rule Lookup_depth_no_growth [OF wf k])
next
  case False
  let ?e = "\<lparr>key = k, value = NULL, hash = h\<rparr>"
  obtain q where q: "Probe m k h = Some q" "q < hm_capacity m"
    "\<And>e. e \<in> contents m \<and> same_key m k h e \<longleftrightarrow> used (hm_map m ! q) \<and> e = hm_map m ! q"
    "\<forall>j<hm_capacity m. cdist (hm_capacity m) (start_slot m h) j < cdist (hm_capacity m) (start_slot m h) q
        \<longrightarrow> used (hm_map m ! j)"
    using Probe_found [OF wf k, of h] by blast
  show ?thesis
  proof (cases "used (hm_map m ! q)")
    case True
    then have "\<exists>x\<in>contents m. same_key m k h x" using q(3) by blast
    then show ?thesis unfolding Lookup_def numeral_2_eq_2 by (rule lookup_inserts_present [OF wf k])
  next
    case nu: False
    have absent: "\<forall>x\<in>contents m. \<not> same_key m k h x" using q(3) nu by blast
    obtain n where n: "n \<le> 31" "hm_capacity m = 2 ^ n" and len: "length (hm_map m) = hm_capacity m"
      and eq: "equivp (hm_match m)" using wf by (auto simp: hm_wf_def)
    have "(2::nat) ^ n \<le> 2 ^ 30" using cap n(2) by simp
    then have n30: "n \<le> 30" by (rule power_le_imp_le_exp [rotated]) simp
    let ?g = "grown m q ?e"
    note g = grown_wf [OF wf q(2) nu, of ?e]
    have gm: "hm_match ?g = hm_match m" "hm_capacity ?g = hm_capacity m"
      "length (hm_map ?g) = hm_capacity m" "hm_occupancy ?g = Suc (hm_occupancy m)"
      using len by (simp_all add: grown_def)
    obtain m' where m': "Resize (Lookup_depth (Suc 0)) ?g = Some m'" "hm_wf m'" "hm_match m' = hm_match m"
      "2 * hm_capacity m \<le> hm_capacity m'" "contents m' = insert ?e (contents m)"
    proof (rule Resize_wf [of ?g n 0])
      show "hm_occupancy ?g = count_used (hm_map ?g)" "unique_keys (hm_match ?g) (hm_map ?g)"
        using g absent q(4) k gm by simp_all
    qed (use g(4) absent q(4) k gm eq n n30 in \<open>simp_all\<close>)
    obtain p where p: "Probe m' k h = Some p" "p < hm_capacity m'"
      "\<And>e. e \<in> contents m' \<and> same_key m' k h e \<longleftrightarrow> used (hm_map m' ! p) \<and> e = hm_map m' ! p"
      by (rule Probe_found [OF m'(2) k, of h]) (erule that, assumption+)
    have sk: "same_key m k h ?e" "same_key m' k h ?e" using eq m'(3) by (simp_all add: same_key_def equivp_reflp)
    then have pe: "used (hm_map m' ! p)" "hm_map m' ! p = ?e" using p(3) [of ?e] m'(5) by auto
    have "Lookup m k h True = Some (m', Some p)"
      using False nu m'(1) p(1) gm(4)
      by (simp add: Lookup_def numeral_2_eq_2 Lookup_depth_Suc [OF q(1)] Let_def)
    moreover have "hm_load m'"
    proof -
      have "?e \<notin> contents m" using absent sk(1) by blast
      then have "card (insert ?e (contents m)) = Suc (card (contents m))"
        by (intro card_insert_disjoint) (simp_all only: finite_contents not_False_eq_True)
      then have o: "hm_occupancy m' = Suc (hm_occupancy m)"
        unfolding card_contents [OF wf] m'(5) [symmetric] card_contents [OF m'(2)] .
      have "hm_occupancy m < hm_capacity m" using wf by (simp add: hm_wf_def)
      then show ?thesis unfolding hm_load_def o using m'(4) by linarith
    qed
    moreover have "\<not> (\<exists>x\<in>contents m. same_key m k h x)" using absent by blast
    moreover have "hm_capacity m \<le> hm_capacity m'" using m'(4) by linarith
    ultimately show ?thesis
      unfolding lookup_inserts_def
      using m'(2,3,5) p(2) pe sk(1) by (intro exI [of _ m'] exI [of _ p]) (simp only: if_False simp_thms)
  qed
qed

text \<open>The map laws of the table: what a query returns after \<open>Lookup(key, hash, true)->value = v\<close>.\<close>

lemma option_eqI: "(\<And>v. a = Some v \<longleftrightarrow> b = Some v) \<Longrightarrow> a = b"
  by (cases a; cases b) auto

lemma hm_get_cong:
  assumes "hm_wf m" "hm_wf m'" "k \<noteq> NULL" "hm_match m' = hm_match m"
    and "\<And>e. same_key m k h e \<Longrightarrow> e \<in> contents m' \<longleftrightarrow> e \<in> contents m"
  shows "hm_get m' k h = hm_get m k h"
proof (rule option_eqI)
  fix v
  have "same_key m' k h e = same_key m k h e" for e using assms(4) by (simp add: same_key_def)
  then show "hm_get m' k h = Some v \<longleftrightarrow> hm_get m k h = Some v"
    using assms(5) by (auto simp: hm_get_iff [OF assms(1,3)] hm_get_iff [OF assms(2,3)])
qed

lemma hm_put_lookup:
  assumes wf: "hm_wf m" and k: "k \<noteq> NULL" and cap: "hm_get m k h = None \<Longrightarrow> hm_capacity m \<le> 2 ^ 30"
  obtains m1 p where "Lookup m k h True = Some (m1, Some p)" "hm_wf m1" "hm_match m1 = hm_match m"
    "hm_load m \<longrightarrow> hm_load m1" "hm_get m k h \<noteq> None \<longrightarrow> m1 = m"
    "p < hm_capacity m1" "used (hm_map m1 ! p)" "same_key m k h (hm_map m1 ! p)"
    "contents m1 = insert (hm_map m1 ! p) (contents m)"
    "hm_occupancy m1 = hm_occupancy m + (if hm_get m k h = None then 1 else 0)"
proof -
  have none: "hm_get m k h = None \<longleftrightarrow> \<not> (\<exists>x\<in>contents m. same_key m k h x)"
    using hm_get_None_iff [OF wf k] by blast
  have "lookup_inserts Lookup m k h"
  proof (cases "hm_get m k h = None")
    case False
    then have "\<exists>x\<in>contents m. same_key m k h x" by (simp add: none)
    then show ?thesis unfolding Lookup_def numeral_2_eq_2 by (rule lookup_inserts_present [OF wf k])
  qed (rule Lookup_inserts [OF wf k cap])
  then obtain m1 p where l: "Lookup m k h True = Some (m1, Some p)" "hm_wf m1" "hm_match m1 = hm_match m"
      "hm_load m \<longrightarrow> hm_load m1" "p < hm_capacity m1" "used (hm_map m1 ! p)" "same_key m k h (hm_map m1 ! p)"
      "if \<exists>x\<in>contents m. same_key m k h x then m1 = m
       else contents m1 = insert \<lparr>key = k, value = NULL, hash = h\<rparr> (contents m)
              \<and> hm_map m1 ! p = \<lparr>key = k, value = NULL, hash = h\<rparr>"
    unfolding lookup_inserts_def by blast
  have len: "length (hm_map m1) = hm_capacity m1" using l(2) by (simp add: hm_wf_def)
  have "hm_map m1 ! p \<in> contents m1" using l(5,6) len by (simp add: contents_def)
  then have co: "contents m1 = insert (hm_map m1 ! p) (contents m)" using l(8) by (auto split: if_splits)
  have "hm_map m1 ! p \<notin> contents m" if "hm_get m k h = None" using that none l(7) by blast
  then have "hm_occupancy m1 = hm_occupancy m + (if hm_get m k h = None then 1 else 0)"
    using l(8) none co unfolding card_contents [OF l(2), symmetric] card_contents [OF wf, symmetric]
    by (cases "hm_get m k h = None") (simp_all only: card_insert_disjoint [OF finite_contents] if_True if_False
      simp_thms add_0_right Suc_eq_plus1)
  then show ?thesis using that [OF l(1-4) _ l(5-7) co] none l(8) by simp
qed

lemma hm_put_get:
  assumes wf: "hm_wf m" and k: "k \<noteq> NULL" and cap: "hm_get m k h = None \<Longrightarrow> hm_capacity m \<le> 2 ^ 30"
  obtains m' where "hm_put Lookup m k h v = Some m'" "hm_wf m'" "hm_match m' = hm_match m"
    "hm_load m \<longrightarrow> hm_load m'" "hm_get m k h \<noteq> None \<longrightarrow> hm_capacity m' = hm_capacity m"
    "hm_occupancy m' = hm_occupancy m + (if hm_get m k h = None then 1 else 0)"
    "\<And>k' h'. k' \<noteq> NULL \<Longrightarrow>
          hm_get m' k' h' = (if h' = h \<and> hm_match m k' k then Some v else hm_get m k' h')"
proof -
  obtain m1 p where l: "Lookup m k h True = Some (m1, Some p)" "hm_wf m1" "hm_match m1 = hm_match m"
    "hm_load m \<longrightarrow> hm_load m1" "hm_get m k h \<noteq> None \<longrightarrow> m1 = m"
    "p < hm_capacity m1" "used (hm_map m1 ! p)" "same_key m k h (hm_map m1 ! p)"
    "contents m1 = insert (hm_map m1 ! p) (contents m)"
    "hm_occupancy m1 = hm_occupancy m + (if hm_get m k h = None then 1 else 0)"
    using hm_put_lookup [OF wf k cap] by blast
  let ?x = "hm_map m1 ! p" and ?m = "set_value m1 p v"
  let ?y = "?x\<lparr>value := v\<rparr>"
  note s = set_value_wf [OF l(2,6,7), of v]
  have eq: "equivp (hm_match m)" using wf by (simp add: hm_wf_def)
  have mm: "hm_match ?m = hm_match m" using l(3) by (simp add: set_value_def)
  have y: "same_key m k' h' ?y \<longleftrightarrow> h' = h \<and> hm_match m k' k"
    and x: "same_key m k' h' ?x \<longleftrightarrow> h' = h \<and> hm_match m k' k" for k' h'
    using l(8) eq unfolding same_key_def by (auto dest: equivp_symp equivp_transp)
  have get: "hm_get ?m k' h' = (if h' = h \<and> hm_match m k' k then Some v else hm_get m k' h')"
    if k': "k' \<noteq> NULL" for k' h'
  proof (cases "h' = h \<and> hm_match m k' k")
    case True
    then have "same_key ?m k' h' ?y" using y mm by (simp add: same_key_def)
    then have "hm_get ?m k' h' = Some v" using hm_get_iff [OF s(1) k'] s(2) by auto
    then show ?thesis using True by simp
  next
    case False
    have "hm_get ?m k' h' = hm_get m k' h'"
    proof (rule hm_get_cong [OF wf s(1) k' mm])
      fix e assume "same_key m k' h' e"
      then have "e \<noteq> ?x" "e \<noteq> ?y" using x y False by blast+
      then show "e \<in> contents ?m \<longleftrightarrow> e \<in> contents m" using s(2) l(9) by auto
    qed
    then show ?thesis using False by (simp only: if_False)
  qed
  have "hm_load m \<longrightarrow> hm_load ?m" "hm_get m k h \<noteq> None \<longrightarrow> hm_capacity ?m = hm_capacity m"
    "hm_occupancy ?m = hm_occupancy m + (if hm_get m k h = None then 1 else 0)"
    "hm_put Lookup m k h v = Some ?m"
    using l(1,4,5,10) by (simp_all add: hm_load_def set_value_def hm_put_def)
  then show ?thesis using that [of ?m] s(1) mm get by blast
qed

section \<open>Removal\<close>

text \<open>
  The loop invariant of \<open>Remove\<close>: \<open>c\<close> is the entry to clear and \<open>i\<close> the last entry looked at.
  Every other entry is reached from its home slot over used entries, and no entry after \<open>c\<close>
  up to \<open>i\<close> needs \<open>c\<close> for that.
\<close>

abbreviation home :: "Entry list \<Rightarrow> nat \<Rightarrow> nat" where
  "home es p \<equiv> slot_of (length es) (hash (es ! p))"

definition cleared :: "Entry list \<Rightarrow> nat \<Rightarrow> Entry list" where
  "cleared es c = es[c := (es ! c)\<lparr>key := NULL\<rparr>]"

definition passes :: "Entry list \<Rightarrow> nat \<Rightarrow> nat \<Rightarrow> bool" where
  "passes es p j \<longleftrightarrow> cdist (length es) (home es p) j < cdist (length es) (home es p) p"

definition hole_inv :: "Entry list \<Rightarrow> nat \<Rightarrow> nat \<Rightarrow> bool" where
  "hole_inv es c i \<longleftrightarrow> c < length es \<and> i < length es \<and> used (es ! c)
     \<and> (\<forall>p<length es. \<forall>j<length es. p \<noteq> c \<longrightarrow> used (es ! p) \<longrightarrow> passes es p j \<longrightarrow> used (es ! j))
     \<and> (\<forall>p<length es. p \<noteq> c \<longrightarrow> cdist (length es) c p \<le> cdist (length es) c i \<longrightarrow>
          used (es ! p) \<and> \<not> passes es p c)"

lemma move_condition:
  assumes "c < N" "n < N" "s < N" "c \<noteq> n"
  shows "(c < n \<and> (s \<le> c \<or> n < s)) \<or> (n < c \<and> (s \<le> c \<and> n < s)) \<longleftrightarrow> cdist N s c < cdist N s n"
  using assms by (auto simp: cdist_def)

lemma cdist_forward:
  assumes "c < N" "i < N" "f < N" "cdist N c i < cdist N c f"
  defines "n \<equiv> (if N \<le> i + 1 then 0 else i + 1)"
  shows "n < N" "cdist N c n = Suc (cdist N c i)" "n \<noteq> c" "Suc (cdist N n f) = cdist N i f"
  using assms by (auto simp: cdist_def split: if_splits)

lemma cdist_beyond:
  assumes "c < N" "n < N" "p < N" "s < N" "cdist N c n < cdist N c p" "cdist N s c < cdist N s p"
  shows "cdist N s n < cdist N s p"
  using assms by (auto simp: cdist_def split: if_splits)

lemma relocate_unique:
  assumes "c < length es" "n < length es" "c \<noteq> n" "unique_keys match (cleared es c)"
  shows "unique_keys match (cleared (es[c := es ! n]) n)"
proof -
  define s where "s p = (if p = c then n else p)" for p
  let ?D = "cleared es c" and ?D' = "cleared (es[c := es ! n]) n"
  have D: "used (?D' ! p) \<Longrightarrow> p \<noteq> n \<and> ?D ! s p = ?D' ! p \<and> s p < length es" if "p < length es" for p
    using assms(1-3) that by (auto simp: cleared_def s_def nth_list_update split: if_splits)
  have len: "length ?D' = length es" "length ?D = length es" by (simp_all add: cleared_def)
  show ?thesis
    unfolding unique_keys_def len
  proof (intro allI impI, elim conjE)
    fix p q assume p: "p < length es" and q: "q < length es" and u: "used (?D' ! p)" "used (?D' ! q)"
      and h: "hash (?D' ! p) = hash (?D' ! q)" and m: "match (key (?D' ! p)) (key (?D' ! q))"
    note Dp = D [OF p u(1)] and Dq = D [OF q u(2)]
    have "s p = s q" using unique_keysD [OF assms(4)] Dp Dq u h m len by metis
    then show "p = q" using Dp Dq by (auto simp: s_def split: if_splits)
  qed
qed

lemma cleared_contents:
  assumes "c < length es"
  shows "{e \<in> set (cleared es c). used e} = {es ! p | p. p < length es \<and> p \<noteq> c \<and> used (es ! p)}"
proof -
  have "x = cleared es c ! p \<and> p < length es \<and> used (cleared es c ! p)
      \<longleftrightarrow> x = es ! p \<and> p < length es \<and> p \<noteq> c \<and> used (es ! p)" for x p
    using assms by (cases "p = c") (simp_all add: cleared_def)
  moreover have "{e \<in> set (cleared es c). used e}
      = {x. \<exists>p. x = cleared es c ! p \<and> p < length es \<and> used (cleared es c ! p)}"
    by (auto simp: in_set_conv_nth cleared_def)
  ultimately show ?thesis by simp
qed

lemma relocate_contents:
  assumes "c < length es" "n < length es" "c \<noteq> n" "used (es ! n)"
  shows "{e \<in> set (cleared (es[c := es ! n]) n). used e} = {e \<in> set (cleared es c). used e}" (is "?L = ?R")
proof -
  have "?R = {es ! p | p. p < length es \<and> p \<noteq> c \<and> used (es ! p)}"
    using assms(1) by (rule cleared_contents)
  moreover have "?L = {es[c := es ! n] ! p | p. p < length es \<and> p \<noteq> n \<and> used (es[c := es ! n] ! p)}"
    using cleared_contents [of n "es[c := es ! n]"] assms(2) by simp
  moreover have "\<dots> = {es ! p | p. p < length es \<and> p \<noteq> c \<and> used (es ! p)}"
    (is "?A = ?B")
  proof (intro set_eqI iffI)
    fix x assume "x \<in> ?A"
    then show "x \<in> ?B" using assms by (auto simp: nth_list_update split: if_splits)
  next
    fix x assume "x \<in> ?B"
    then obtain p where p: "p < length es" "p \<noteq> c" "used (es ! p)" "x = es ! p" by blast
    show "x \<in> ?A"
    proof (cases "p = n")
      case True
      then show ?thesis using p assms by (intro CollectI exI [of _ c]) simp
    next
      case False
      then show ?thesis using p by (intro CollectI exI [of _ p]) simp
    qed
  qed
  ultimately show ?thesis by simp
qed

lemma hole_step_keep:
  assumes inv: "hole_inv es c i" and n: "n < length es" "cdist (length es) c n = Suc (cdist (length es) c i)"
    and u: "used (es ! n)" and np: "\<not> passes es n c"
  shows "hole_inv es c n"
proof -
  have "p = n \<or> cdist (length es) c p \<le> cdist (length es) c i"
    if "p < length es" "cdist (length es) c p \<le> cdist (length es) c n" for p
    using that n inv cdist_inj [of c "length es" p n] unfolding hole_inv_def by linarith
  then show ?thesis using inv n(1) u np unfolding hole_inv_def by blast
qed

lemma hole_step_move:
  assumes inv: "hole_inv es c i" and n: "n < length es" "n \<noteq> c" and u: "used (es ! n)" and ps: "passes es n c"
    and home: "home es n < length es"
  shows "hole_inv (es[c := es ! n]) n n"
proof -
  let ?es = "es[c := es ! n]" and ?N = "length es"
  have c: "c < ?N" "used (es ! c)" using inv by (auto simp: hole_inv_def)
  have used: "used (?es ! j) = used (es ! j)" for j using c u by (cases "j = c") simp_all
  have "used (?es ! j)" if p: "p < ?N" "j < ?N" "p \<noteq> n" "used (?es ! p)" "passes ?es p j" for p j
  proof (cases "p = c")
    case True
    have "passes es n j" using p(5) ps True c unfolding passes_def by simp
    then show ?thesis using inv n u p(2) used unfolding hole_inv_def by blast
  next
    case False
    then have "passes es p j" using p(5) unfolding passes_def by simp
    then show ?thesis using inv False p used unfolding hole_inv_def by blast
  qed
  moreover have "p = n" if "p < ?N" "cdist ?N n p \<le> cdist ?N n n" for p
    using that n cdist_0_iff [of n ?N p] cdist_0_iff [of n ?N n] by simp
  ultimately show ?thesis
    unfolding hole_inv_def using n u c used by (auto simp del: nth_list_update)
qed

lemma hole_clear:
  assumes inv: "hole_inv es c i" and n: "n < length es" "cdist (length es) c n = Suc (cdist (length es) c i)"
    and u: "\<not> used (es ! n)" and home: "\<And>p. p < length es \<Longrightarrow> home es p < length es"
  shows "chained (cleared es c)"
  unfolding chained_def Let_def cleared_def length_list_update
proof (intro allI impI)
  let ?es = "es[c := (es ! c)\<lparr>key := NULL\<rparr>]" and ?N = "length es"
  fix p j assume p: "p < ?N" "used (?es ! p)" and j: "j < ?N"
    and d: "cdist ?N (slot_of ?N (hash (?es ! p))) j < cdist ?N (slot_of ?N (hash (?es ! p))) p"
  have c: "c < ?N" using inv by (simp add: hole_inv_def)
  then have pc: "p \<noteq> c" "used (es ! p)" using p by (auto simp: nth_list_update split: if_splits)
  then have pj: "passes es p j" using d by (simp add: passes_def)
  have uj: "used (es ! j)" using inv p(1) j pc pj unfolding hole_inv_def by blast
  have "\<not> passes es p c"
  proof
    assume pas: "passes es p c"
    then have "\<not> cdist ?N c p \<le> cdist ?N c i" using inv p(1) pc unfolding hole_inv_def by blast
    moreover have "cdist ?N c p \<noteq> cdist ?N c n" using cdist_inj [of c ?N p n] c n(1) p(1) u pc(2) by auto
    ultimately have "passes es p n"
      using cdist_beyond [OF c n(1) p(1) home [OF p(1)]] n(2) pas unfolding passes_def by simp
    then show False using inv p(1) n(1) pc u unfolding hole_inv_def by blast
  qed
  then have "j \<noteq> c" using pj by blast
  then show "used (?es ! j)" using uj by simp
qed

definition removed :: "(ptr \<Rightarrow> ptr \<Rightarrow> bool) \<Rightarrow> Entry list \<Rightarrow> nat \<Rightarrow> Entry list \<Rightarrow> nat \<Rightarrow> bool" where
  "removed match es c es' c' \<longleftrightarrow> length es' = length es \<and> c' < length es \<and> used (es' ! c')
     \<and> count_used es' = count_used es \<and> chained (cleared es' c') \<and> unique_keys match (cleared es' c')
     \<and> {e \<in> set (cleared es' c'). used e} = {e \<in> set (cleared es c). used e}"

lemma Remove_loop_inv:
  assumes "n \<le> 31" "hm_capacity m = 2 ^ n" "length (hm_map m) = hm_capacity m" "f < hm_capacity m"
    and "hole_inv (hm_map m) c i" "\<not> used (hm_map m ! f)"
    and "cdist (hm_capacity m) c i < cdist (hm_capacity m) c f"
    and "unique_keys (hm_match m) (cleared (hm_map m) c)"
  shows "\<exists>es' c'. Remove_loop m c i = Some (m\<lparr>hm_map := es'\<rparr>, c') \<and> removed (hm_match m) (hm_map m) c es' c'"
  using assms
proof (induction "cdist (hm_capacity m) i f" arbitrary: m c i)
  case 0
  then have "i = f" using cdist_0_iff [of i "hm_capacity m" f] by (auto simp: hole_inv_def)
  then show ?case using 0 by simp
next
  case (Suc d)
  let ?N = "hm_capacity m" and ?es = "hm_map m"
  define nx where "nx = next_slot m i"
  have len: "length ?es = ?N" by (rule Suc.prems)
  have c: "c < ?N" "i < ?N" "used (?es ! c)" using Suc.prems(3,5) by (auto simp: hole_inv_def)
  have nx: "nx < ?N" "cdist ?N c nx = Suc (cdist ?N c i)" "nx \<noteq> c" "Suc (cdist ?N nx f) = cdist ?N i f"
    using cdist_forward [OF c(1,2) Suc.prems(4,7)] by (simp_all add: nx_def next_slot_def)
  have dd: "d = cdist ?N nx f" using nx(4) Suc.hyps(2) by simp
  have home: "home ?es p < length ?es" for p using slot_of_less [OF Suc.prems(1)] Suc.prems(2) len by simp
  let ?cond = "(c < nx \<and> (home ?es nx \<le> c \<or> nx < home ?es nx)) \<or> (nx < c \<and> (home ?es nx \<le> c \<and> nx < home ?es nx))"
  have cond: "?cond \<longleftrightarrow> passes ?es nx c"
    using move_condition [of c ?N nx "home ?es nx"] c nx home len by (simp add: passes_def)
  have loop: "Remove_loop m c i = (if \<not> used (?es ! nx) then Some (m, c)
      else if passes ?es nx c then Remove_loop (m\<lparr>hm_map := ?es[c := ?es ! nx]\<rparr>) nx nx
      else Remove_loop m c nx)"
    by (subst Remove_loop.simps) (simp only: Let_def nx_def [symmetric] len [symmetric] cond not_not)
  consider (stop) "\<not> used (?es ! nx)" | (move) "used (?es ! nx)" "passes ?es nx c"
    | (keep) "used (?es ! nx)" "\<not> passes ?es nx c" by blast
  then show ?case
  proof cases
    case stop
    have "chained (cleared ?es c)"
      using hole_clear [OF Suc.prems(5), of nx] nx(1,2) stop home len by simp
    then have "removed (hm_match m) ?es c ?es c" using c len Suc.prems(8) by (simp add: removed_def)
    then show ?thesis using loop stop by (intro exI [of _ ?es] exI [of _ c]) simp
  next
    case move
    let ?m = "m\<lparr>hm_map := ?es[c := ?es ! nx]\<rparr>"
    have fnx: "f \<noteq> nx" "f \<noteq> c" using move(1) Suc.prems(6) c by auto
    have "\<exists>es' c'. Remove_loop ?m nx nx = Some (?m\<lparr>hm_map := es'\<rparr>, c') \<and> removed (hm_match ?m) (hm_map ?m) nx es' c'"
    proof (rule Suc.hyps(1))
      show "hole_inv (hm_map ?m) nx nx"
        using hole_step_move [OF Suc.prems(5), of nx] nx move home len by simp
      show "unique_keys (hm_match ?m) (cleared (hm_map ?m) nx)"
        using relocate_unique [of c ?es nx] nx c len Suc.prems(8) by simp
      show "cdist (hm_capacity ?m) nx nx < cdist (hm_capacity ?m) nx f"
        using fnx nx(1) Suc.prems(4) cdist_0_iff [of nx ?N f] cdist_0_iff [of nx ?N nx] by simp
    qed (use Suc.prems dd fnx in simp_all)
    then obtain es' c' where r: "Remove_loop ?m nx nx = Some (m\<lparr>hm_map := es'\<rparr>, c')"
      "removed (hm_match m) (?es[c := ?es ! nx]) nx es' c'" by auto
    have "removed (hm_match m) ?es c es' c'"
      using r(2) relocate_contents [of c ?es nx] count_used_same [of c ?es "?es ! nx"] c nx move(1) len
      by (simp add: removed_def)
    then show ?thesis using loop move r(1) by (intro exI [of _ es'] exI [of _ c']) simp
  next
    case keep
    have "\<exists>es' c'. Remove_loop m c nx = Some (m\<lparr>hm_map := es'\<rparr>, c') \<and> removed (hm_match m) ?es c es' c'"
    proof (rule Suc.hyps(1) [OF dd Suc.prems(1-4)])
      show "hole_inv ?es c nx" using hole_step_keep [OF Suc.prems(5), of nx] nx keep len by simp
      have "nx \<noteq> f" using keep(1) Suc.prems(6) by auto
      then have "cdist ?N c nx \<noteq> cdist ?N c f" using cdist_inj [of c ?N nx f] c nx Suc.prems(4) by simp
      then show "cdist ?N c nx < cdist ?N c f" using Suc.prems(7) nx(2) by simp
    qed (use Suc.prems in simp_all)
    then show ?thesis using loop keep by simp
  qed
qed

lemma unique_keys_cleared:
  assumes "unique_keys match es"
  shows "unique_keys match (cleared es c)"
proof -
  have e: "cleared es c ! p = es ! p" if "p < length es" "used (cleared es c ! p)" for p
    using that by (cases "p = c") (simp_all add: cleared_def)
  have len: "length (cleared es c) = length es" by (simp add: cleared_def)
  show ?thesis
    unfolding unique_keys_def len
  proof (intro allI impI, elim conjE)
    fix p q assume "p < length es" "q < length es" "used (cleared es c ! p)" "used (cleared es c ! q)"
      "hash (cleared es c ! p) = hash (cleared es c ! q)" "match (key (cleared es c ! p)) (key (cleared es c ! q))"
    then show "p = q" using e [of p] e [of q] unique_keysD [OF assms, of p q] by simp
  qed
qed

lemma Remove_spec:
  assumes wf: "hm_wf m" and k: "k \<noteq> NULL"
  shows "\<exists>m'. Remove m k h = Some m' \<and> hm_wf m' \<and> hm_match m' = hm_match m \<and> hm_capacity m' = hm_capacity m
    \<and> contents m' = {e \<in> contents m. \<not> same_key m k h e}
    \<and> hm_occupancy m' = hm_occupancy m - (if \<exists>e\<in>contents m. same_key m k h e then 1 else 0)"
proof -
  let ?N = "hm_capacity m" and ?es = "hm_map m"
  have len: "length ?es = ?N" and lt: "hm_occupancy m < ?N" and occ: "hm_occupancy m = count_used ?es"
    and ch: "chained ?es" and un: "unique_keys (hm_match m) ?es" and eq: "equivp (hm_match m)"
    using wf by (auto simp: hm_wf_def)
  obtain n where n: "n \<le> 31" "?N = 2 ^ n" using wf by (auto simp: hm_wf_def)
  obtain q where q: "Probe m k h = Some q" "q < ?N"
    "\<And>e. e \<in> contents m \<and> same_key m k h e \<longleftrightarrow> used (?es ! q) \<and> e = ?es ! q"
    by (rule Probe_found [OF wf k, of h]) (erule that, assumption+)
  show ?thesis
  proof (cases "used (?es ! q)")
    case False
    then have "contents m = {e \<in> contents m. \<not> same_key m k h e}" "\<not> (\<exists>e\<in>contents m. same_key m k h e)"
      using q(3) by blast+
    then show ?thesis using False q(1) wf by (simp add: Remove_def)
  next
    case True
    obtain f where f: "f < ?N" "\<not> used (?es ! f)" using count_used_lt_free [of ?es] lt occ len by auto
    have fq: "q \<noteq> f" using True f(2) by auto
    have self: "\<not> cdist ?N q p \<le> cdist ?N q q" if "p < ?N" "p \<noteq> q" for p
      using that q(2) cdist_0_iff [of q ?N q] cdist_0_iff [of q ?N p] by simp
    have inv: "hole_inv ?es q q"
      unfolding hole_inv_def
    proof (intro conjI allI impI)
      show "used (?es ! j)" if "p < length ?es" "j < length ?es" "used (?es ! p)" "passes ?es p j" for p j
        using chainedD [OF ch that(1,3,2)] that(4) by (simp add: passes_def)
    qed (use q(2) len True self in auto)
    have uc: "unique_keys (hm_match m) (cleared ?es q)"
      using un by (rule unique_keys_cleared)
    have "cdist ?N q q < cdist ?N q f" using fq q(2) f(1) cdist_0_iff [of q ?N f] cdist_0_iff [of q ?N q] by simp
    from Remove_loop_inv [OF n len f(1) inv f(2) this uc] obtain es' c' where
      r: "Remove_loop m q q = Some (m\<lparr>hm_map := es'\<rparr>, c')" "removed (hm_match m) ?es q es' c'" by blast
    let ?m = "m\<lparr>hm_map := cleared es' c', hm_occupancy := hm_occupancy m - 1\<rparr>"
    have R: "Remove m k h = Some ?m" using True q(1) lt r(1) by (simp add: Remove_def cleared_def)
    have cnt: "Suc (count_used (cleared es' c')) = count_used es'"
      using r(2) count_used_clear [of c' es'] by (simp add: removed_def cleared_def)
    have co: "contents ?m = {e \<in> contents m. \<not> same_key m k h e}"
    proof -
      have "contents ?m = {e \<in> set (cleared ?es q). used e}" using r(2) by (simp add: removed_def contents_def)
      also have "\<dots> = {?es ! p | p. p < length ?es \<and> p \<noteq> q \<and> used (?es ! p)}"
        using q(2) len by (simp add: cleared_contents)
      also have "\<dots> = {e \<in> contents m. e \<noteq> ?es ! q}"
        using hm_wf_nth_inj [OF wf] q(2) True len by (fastforce simp: contents_nth)
      also have "\<dots> = {e \<in> contents m. \<not> same_key m k h e}" using q(3) True by blast
      finally show ?thesis .
    qed
    have "hm_wf ?m"
      using r(2) cnt eq n len lt occ by (auto simp: hm_wf_def removed_def cleared_def)
    moreover have "\<exists>e\<in>contents m. same_key m k h e" using q(3) True by blast
    ultimately show ?thesis using R co by (intro exI [of _ ?m]) simp
  qed
qed

lemma Remove_get:
  assumes "hm_wf m" "k \<noteq> NULL"
  shows "\<exists>m'. Remove m k h = Some m' \<and> hm_wf m' \<and> hm_match m' = hm_match m \<and> (hm_load m \<longrightarrow> hm_load m')
    \<and> hm_capacity m' = hm_capacity m
    \<and> hm_occupancy m' = hm_occupancy m - (if hm_get m k h = None then 0 else 1)
    \<and> (\<forall>k' h'. k' \<noteq> NULL \<longrightarrow> hm_get m' k' h' = (if h' = h \<and> hm_match m k' k then None else hm_get m k' h'))"
proof -
  obtain m' where r: "Remove m k h = Some m'" "hm_wf m'" "hm_match m' = hm_match m" "hm_capacity m' = hm_capacity m"
    "contents m' = {e \<in> contents m. \<not> same_key m k h e}" "hm_occupancy m' = hm_occupancy m - (if \<exists>e\<in>contents m. same_key m k h e then 1 else 0)"
    using Remove_spec [OF assms, of h] by blast
  have occ: "hm_occupancy m' = hm_occupancy m - (if hm_get m k h = None then 0 else 1)"
    using r(6) hm_get_None_iff [OF assms, of h] by auto
  then have le: "hm_occupancy m' \<le> hm_occupancy m" by simp
  have eq: "equivp (hm_match m)" using assms by (simp add: hm_wf_def)
  have "hm_get m' k' h' = (if h' = h \<and> hm_match m k' k then None else hm_get m k' h')" if k': "k' \<noteq> NULL" for k' h'
  proof (cases "h' = h \<and> hm_match m k' k")
    case True
    then have "same_key m' k' h' e \<Longrightarrow> same_key m k h e" for e
      using eq r(3) unfolding same_key_def by (auto dest: equivp_symp equivp_transp)
    then have "hm_get m' k' h' = None" using hm_get_None_iff [OF r(2) k'] r(5) by blast
    then show ?thesis using True by simp
  next
    case False
    have "\<not> same_key m k h e" if "same_key m k' h' e" for e
      using that False eq unfolding same_key_def by (auto dest: equivp_symp equivp_transp)
    then have "hm_get m' k' h' = hm_get m k' h'"
      using r(5) by (intro hm_get_cong [OF assms(1) r(2) k' r(3)]) blast
    then show ?thesis using False by (simp only: if_False)
  qed
  moreover have "hm_load m \<longrightarrow> hm_load m'"
    using r(4) le div_le_mono [OF le, of 4] by (auto simp: hm_load_def)
  ultimately show ?thesis using r(1-4) occ by blast
qed

section \<open>Clearing and iteration\<close>

lemma Clear_spec:
  assumes "hm_wf m"
  shows "hm_wf (fst (Clear m b))" "contents (fst (Clear m b)) = {}"
    "k \<noteq> NULL \<Longrightarrow> hm_get (fst (Clear m b)) k h = None"
proof -
  let ?m = "fst (Clear m b)"
  have nu: "\<not> used (hm_map ?m ! i)" if "i < length (hm_map m)" for i
    using that by (simp add: Clear_def)
  have len: "length (hm_map ?m) = length (hm_map m)" by (simp add: Clear_def)
  have "chained (hm_map ?m)" "unique_keys (hm_match ?m) (hm_map ?m)"
    using nu unfolding chained_def unique_keys_def Let_def len by blast+
  moreover have "count_used (hm_map ?m) = 0"
    unfolding count_used_card len using nu by simp
  ultimately show wf: "hm_wf ?m" using assms len by (auto simp: hm_wf_def Clear_def)
  show co: "contents ?m = {}" using nu unfolding contents_nth set_eq_iff len by blast
  show "hm_get ?m k h = None" if "k \<noteq> NULL" using hm_get_None_iff [OF wf that] co by simp
qed

lemma Next_loop_Some_iff:
  "Next_loop m p = Some q \<longleftrightarrow>
     p \<le> q \<and> q < hm_capacity m \<and> used (hm_map m ! q) \<and> (\<forall>j. p \<le> j \<and> j < q \<longrightarrow> \<not> used (hm_map m ! j))"
proof (induction m p rule: Next_loop.induct)
  case (1 m p)
  show ?case
  proof (cases "p < hm_capacity m \<and> \<not> used (hm_map m ! p)")
    case True
    then have "Next_loop m p = Next_loop m (p + 1)" by (subst Next_loop.simps) simp
    moreover have "p \<le> j \<longleftrightarrow> p = j \<or> p + 1 \<le> j" for j by auto
    ultimately show ?thesis using 1 True by auto
  next
    case False
    then show ?thesis by (subst Next_loop.simps) (auto simp: not_le intro: antisym_conv2 leI)
  qed
qed


section \<open>The dictionary contract\<close>

definition pointer_map :: "SimpleHashMap \<Rightarrow> bool" where
  "pointer_map m \<longleftrightarrow> hm_wf m \<and> hm_match m = SamePointerValue"

lemma equivp_SamePointerValue: "equivp SamePointerValue"
  by (auto simp: equivp_def SamePointerValue_def fun_eq_iff)

interpretation hm: keyed_map pointer_map "\<lambda>k. k \<noteq> NULL" "\<lambda>m. hm_capacity m \<le> 2 ^ 30"
  "\<lambda>m k. hm_get m k (hf k)" "\<lambda>m k v. hm_put Lookup m k (hf k) v" "\<lambda>m k. Remove m k (hf k)" hm_occupancy
  for hf :: "ptr \<Rightarrow> u32"
proof unfold_locales
  fix m :: SimpleHashMap and k v :: ptr
  assume m: "pointer_map m" and k: "k \<noteq> NULL" and fits: "hm_get m k (hf k) \<noteq> None \<or> hm_capacity m \<le> 2 ^ 30"
  have mm: "hm_match m = SamePointerValue" and wf: "hm_wf m" using m by (auto simp: pointer_map_def)
  obtain m' where "hm_put Lookup m k (hf k) v = Some m'" "hm_wf m'" "hm_match m' = hm_match m"
      "hm_get m k (hf k) \<noteq> None \<longrightarrow> hm_capacity m' = hm_capacity m"
      "hm_occupancy m' = hm_occupancy m + (if hm_get m k (hf k) = None then 1 else 0)"
      "\<And>k' h'. k' \<noteq> NULL \<Longrightarrow>
          hm_get m' k' h' = (if h' = hf k \<and> hm_match m k' k then Some v else hm_get m k' h')"
  proof (rule hm_put_get [OF wf k, of "hf k" v])
    show "hm_get m k (hf k) = None \<Longrightarrow> hm_capacity m \<le> 2 ^ 30" using fits by blast
  qed (erule that, assumption+)
  then show "\<exists>m'. hm_put Lookup m k (hf k) v = Some m' \<and> pointer_map m'
      \<and> (hm_get m k (hf k) \<noteq> None \<longrightarrow> (hm_capacity m' \<le> 2 ^ 30) = (hm_capacity m \<le> 2 ^ 30))
      \<and> hm_occupancy m' = hm_occupancy m + (if hm_get m k (hf k) = None then 1 else 0)
      \<and> (\<forall>k'. k' \<noteq> NULL \<longrightarrow> hm_get m' k' (hf k') = (if k' = k then Some v else hm_get m k' (hf k')))"
    using mm by (intro exI [of _ m']) (auto simp: pointer_map_def SamePointerValue_def)
next
  fix m :: SimpleHashMap and k :: ptr
  assume m: "pointer_map m" and k: "k \<noteq> NULL"
  have mm: "hm_match m = SamePointerValue" and wf: "hm_wf m" using m by (auto simp: pointer_map_def)
  obtain m' where "Remove m k (hf k) = Some m'" "hm_wf m'" "hm_match m' = hm_match m"
      "hm_capacity m' = hm_capacity m"
      "hm_occupancy m' = hm_occupancy m - (if hm_get m k (hf k) = None then 0 else 1)"
      "\<And>k' h'. k' \<noteq> NULL \<Longrightarrow>
          hm_get m' k' h' = (if h' = hf k \<and> hm_match m k' k then None else hm_get m k' h')"
    using Remove_get [OF wf k, of "hf k"] by blast
  then show "\<exists>m'. Remove m k (hf k) = Some m' \<and> pointer_map m'
      \<and> (hm_capacity m' \<le> 2 ^ 30) = (hm_capacity m \<le> 2 ^ 30)
      \<and> hm_occupancy m' = hm_occupancy m - (if hm_get m k (hf k) = None then 0 else 1)
      \<and> (\<forall>k'. k' \<noteq> NULL \<longrightarrow> hm_get m' k' (hf k') = (if k' = k then None else hm_get m k' (hf k')))"
    using mm by (intro exI [of _ m']) (auto simp: pointer_map_def SamePointerValue_def)
qed

lemma new_SimpleHashMap_rep:
  assumes "n \<le> 31"
  obtains m where "new_SimpleHashMap SamePointerValue (2 ^ n) = Some m" "hm.rep hf m Map.empty"
    "hm_capacity m = 2 ^ n" "hm_load m"
proof -
  let ?m = "\<lparr>hm_match = SamePointerValue, hm_map = [], hm_capacity = 0, hm_occupancy = 0\<rparr>"
  obtain m where m: "Initialize ?m (2 ^ n) = Some m" "hm_wf m" "contents m = {}"
      "hm_match m = SamePointerValue" "hm_capacity m = 2 ^ n" "hm_occupancy m = 0"
    using Initialize_wf [of ?m n] equivp_SamePointerValue assms by auto
  have "hm.rep hf m Map.empty"
    using m hm_get_None_iff [OF m(2)] by (simp add: hm.rep_def pointer_map_def)
  then show ?thesis using that [of m] m by (simp add: new_SimpleHashMap_def hm_load_def)
qed

section \<open>Properties\<close>

definition collision_table :: SimpleHashMap where
  "collision_table = \<lparr>hm_match = SamePointerValue,
     hm_map = [null_entry, \<lparr>key = 5, value = 50, hash = 1\<rparr>, \<lparr>key = 9, value = 90, hash = 5\<rparr>, null_entry],
     hm_capacity = 4, hm_occupancy = 2\<rparr>"

lemma collision_table_wf: "hm_wf collision_table" "hm_load collision_table"
proof -
  let ?es = "hm_map collision_table"
  have len: "length ?es = 4" by (simp add: collision_table_def)
  have "(4::nat) = 2 ^ 2" by simp
  then have cap: "\<exists>n\<le>31. hm_capacity collision_table = 2 ^ n"
    by (intro exI [of _ 2]) (simp add: collision_table_def)
  have i4: "(\<forall>i<4. P i) \<longleftrightarrow> P 0 \<and> P 1 \<and> P 2 \<and> P 3" for P :: "nat \<Rightarrow> bool"
    by (simp add: numeral_eq_Suc All_less_Suc conj_ac)
  have s: "slot_of 4 1 = 1" "slot_of 4 5 = 1" by (simp_all add: slot_of_def)
  have "chained ?es"
    unfolding chained_def Let_def len i4 by (simp add: collision_table_def null_entry_def s cdist_def)
  moreover have "unique_keys (hm_match collision_table) ?es"
    unfolding unique_keys_def len i4 by (simp add: collision_table_def null_entry_def SamePointerValue_def)
  ultimately show "hm_wf collision_table"
    using cap equivp_SamePointerValue
    by (simp add: hm_wf_def collision_table_def count_used_def null_entry_def)
  show "hm_load collision_table" by (simp add: hm_load_def collision_table_def)
qed

text \<open>
  C23. Storing through the entry that \<open>Lookup(key, hash, insert = true)\<close> returns succeeds on every
  well-formed table, growing it when it becomes more than 80% full.  The new table is well formed
  and below that load again.  A query for an equal key returns the stored value and every other
  query returns what it returned before.
\<close>

theorem Lookup_insert_law:
  assumes "hm_wf m" "hm_load m" "k \<noteq> NULL" "hm_capacity m \<le> 2 ^ 30"
  shows "\<exists>m1 p. Lookup m k h True = Some (m1, Some p) \<and>
    hm_wf (set_value m1 p v) \<and> hm_load (set_value m1 p v) \<and>
    (\<forall>k' h'. k' \<noteq> NULL \<longrightarrow> hm_get (set_value m1 p v) k' h' =
        (if h' = h \<and> hm_match m k' k then Some v else hm_get m k' h'))"
proof -
  obtain m' where m': "hm_put Lookup m k h v = Some m'" "hm_wf m'" "hm_load m'"
    "\<And>k' h'. k' \<noteq> NULL \<Longrightarrow> hm_get m' k' h' = (if h' = h \<and> hm_match m k' k then Some v else hm_get m k' h')"
    using hm_put_get [OF assms(1,3) assms(4), of h v] assms(2) by metis
  from m'(1) obtain m1 p where "Lookup m k h True = Some (m1, Some p)" "m' = set_value m1 p v"
    by (auto simp: hm_put_def split: option.splits)
  then show ?thesis using m'(2-4) by blast
qed

theorem Lookup_insert_law_witness:
  "\<exists>m1 p. Lookup collision_table 7 5 True = Some (m1, Some p) \<and> hm_wf (set_value m1 p 70)
     \<and> hm_get (set_value m1 p 70) 7 5 = Some 70"
proof -
  have k: "7 \<noteq> NULL" and c: "hm_capacity collision_table \<le> 2 ^ 30" and m: "hm_match collision_table 7 7"
    by (simp_all add: collision_table_def SamePointerValue_def)
  let ?g = "\<lambda>m1 p k' h'. hm_get (set_value m1 p 70) k' h'"
  from Lookup_insert_law [OF collision_table_wf k c, of 5 70] obtain m1 p where
    l: "Lookup collision_table 7 5 True = Some (m1, Some p)" "hm_wf (set_value m1 p 70)"
      "\<forall>k' h'. k' \<noteq> NULL \<longrightarrow> ?g m1 p k' h' =
        (if h' = 5 \<and> hm_match collision_table k' 7 then Some 70 else hm_get collision_table k' h')"
    by (elim exE conjE) (rule that)
  from l(3) k have "?g m1 p 7 5 = (if (5::u32) = 5 \<and> hm_match collision_table 7 7 then Some 70
      else hm_get collision_table 7 5)" by (elim allE [of _ 7] allE [of _ 5]) simp
  then have "?g m1 p 7 5 = Some 70" using m by simp
  then show ?thesis using l(1,2) by (intro exI conjI)
qed

text \<open>
  C12. \<open>Remove(key, hash)\<close> returns on every well-formed table and leaves a well-formed one: shifting
  the following entries back keeps every other entry reachable.  A query for the removed key finds
  nothing and every other query returns what it returned before.
\<close>

theorem Remove_law:
  assumes "hm_wf m" "k \<noteq> NULL"
  shows "\<exists>m'. Remove m k h = Some m' \<and> hm_wf m' \<and> hm_capacity m' = hm_capacity m \<and>
    hm_occupancy m' = hm_occupancy m - (if hm_get m k h = None then 0 else 1) \<and>
    (\<forall>k' h'. k' \<noteq> NULL \<longrightarrow> hm_get m' k' h' = (if h' = h \<and> hm_match m k' k then None else hm_get m k' h'))"
  using Remove_get [OF assms, of h] by blast

theorem Remove_law_witness:
  "\<exists>m'. Remove collision_table 5 1 = Some m' \<and> hm_wf m' \<and> hm_get m' 9 5 = Some 90 \<and> hm_get m' 5 1 = None"
proof -
  let ?e = "\<lparr>key = 9, value = 90, hash = 5\<rparr>" and ?m = collision_table
  have e: "?e \<in> contents ?m" "same_key ?m 9 5 ?e" "value ?e = 90"
    by (simp_all add: collision_table_def contents_def same_key_def SamePointerValue_def)
  have k: "9 \<noteq> NULL" "5 \<noteq> NULL" and m: "\<not> hm_match ?m 9 5" "hm_match ?m 5 5"
    by (simp_all add: collision_table_def SamePointerValue_def)
  have g: "hm_get ?m 9 5 = Some 90" using hm_get_iff [OF collision_table_wf(1) k(1), of 5 90] e by blast
  from Remove_law [OF collision_table_wf(1) k(2), of 1] obtain m' where
    r: "Remove ?m 5 1 = Some m'" "hm_wf m'"
      "\<forall>k' h'. k' \<noteq> NULL \<longrightarrow> hm_get m' k' h' = (if h' = 1 \<and> hm_match ?m k' 5 then None else hm_get ?m k' h')"
    by (elim exE conjE) (rule that)
  have "hm_get m' 9 5 = Some 90" using r(3) [rule_format, OF k(1), of 5] g m(1) by simp
  moreover have "hm_get m' 5 1 = None" using r(3) [rule_format, OF k(2), of 1] m(2) by simp
  ultimately show ?thesis using r(1,2) by (intro exI conjI)
qed

text \<open>
  Iteration with \<open>Start\<close> and \<open>Next\<close> visits the used entries in the order of their slots
  and skips none: \<open>Start\<close> is the first used slot, \<open>Next\<close> the first used slot after its argument.
\<close>

theorem Start_Next_in_order:
  "(Start m = Some q \<longleftrightarrow> q < hm_capacity m \<and> used (hm_map m ! q) \<and> (\<forall>j. j < q \<longrightarrow> \<not> used (hm_map m ! j))) \<and>
   (Next m p = Some q \<longleftrightarrow> p < q \<and> q < hm_capacity m \<and> used (hm_map m ! q)
      \<and> (\<forall>j. p < j \<and> j < q \<longrightarrow> \<not> used (hm_map m ! j)))"
  by (simp add: Start_def Next_def Next_loop_Some_iff Suc_le_eq)

theorem Start_Next_in_order_witness: "Start collision_table = Some 1 \<and> Next collision_table 1 = Some 2"
  using Start_Next_in_order [of collision_table 1 0] Start_Next_in_order [of collision_table 2 1]
  by (auto simp: collision_table_def null_entry_def)


end
