(* ===== verification/Priority_Queue.thy ===== *)
theory Priority_Queue
  imports Simple_HashMap "HOL-Library.Multiset"
begin

text \<open>
  \<^verbatim>\<open>PriorityQueue\<close> (\<^verbatim>\<open>runtime/platform/priority_queue.h\<close>) at its instance in the event handler's timeout
  queue: priorities are \<^verbatim>\<open>int64_t\<close>, values are ports.  A binary min-heap in an array, with a
  \<^verbatim>\<open>SimpleHashMap\<close> from values to array offsets.  Fresh memory from \<^verbatim>\<open>malloc\<close> and \<^verbatim>\<open>realloc\<close> is
  represented by zero entries, which no operation reads.
\<close>

section \<open>State and operations\<close>

record pq_entry =
  priority :: u64
  pq_value :: u64

record PriorityQueue =
  min_heap :: "pq_entry list"
  min_heap_size :: nat
  pq_size :: nat
  hashmap :: SimpleHashMap

definition kMinimumSize :: nat where
  "kMinimumSize = 16"

definition junk_entry :: pq_entry where
  "junk_entry = \<lparr>priority = 0, pq_value = 0\<rparr>"

definition MatchFun :: "ptr \<Rightarrow> ptr \<Rightarrow> bool" where
  "MatchFun key1 key2 \<longleftrightarrow> key1 = key2"

definition new_PriorityQueue :: "PriorityQueue option" where
  "new_PriorityQueue =
     (case new_SimpleHashMap MatchFun kMinimumSize of
        None \<Rightarrow> None
      | Some m \<Rightarrow> Some \<lparr>min_heap = replicate kMinimumSize junk_entry, min_heap_size = kMinimumSize,
                        pq_size = 0, hashmap = m\<rparr>)"

definition IsEmpty :: "PriorityQueue \<Rightarrow> bool" where
  "IsEmpty q \<longleftrightarrow> pq_size q = 0"

definition HashKey :: "u64 \<Rightarrow> u32" where
  "HashKey k = ucast k"

definition FindMapEntry :: "PriorityQueue \<Rightarrow> u64 \<Rightarrow> u64 option" where
  "FindMapEntry q k = hm_get (hashmap q) k (HashKey k)"

definition ContainsValue :: "PriorityQueue \<Rightarrow> u64 \<Rightarrow> bool" where
  "ContainsValue q v \<longleftrightarrow> FindMapEntry q v \<noteq> None"

definition RemoveMapEntry :: "PriorityQueue \<Rightarrow> u64 \<Rightarrow> PriorityQueue option" where
  "RemoveMapEntry q k =
     (if FindMapEntry q k \<noteq> None
      then map_option (\<lambda>m. q\<lparr>hashmap := m\<rparr>) (Remove (hashmap q) k (HashKey k)) else None)"

definition SetMapEntry :: "PriorityQueue \<Rightarrow> u64 \<Rightarrow> nat \<Rightarrow> PriorityQueue option" where
  "SetMapEntry q k i =
     map_option (\<lambda>m. q\<lparr>hashmap := m\<rparr>) (hm_put Lookup (hashmap q) k (HashKey k) (of_nat i))"

definition pq_Set :: "PriorityQueue \<Rightarrow> nat \<Rightarrow> pq_entry \<Rightarrow> PriorityQueue option" where
  "pq_Set q offset1 e = SetMapEntry (q\<lparr>min_heap := (min_heap q)[offset1 := e]\<rparr>) (pq_value e) offset1"

definition pq_Swap :: "PriorityQueue \<Rightarrow> nat \<Rightarrow> nat \<Rightarrow> PriorityQueue option" where
  "pq_Swap q offset1 offset2 =
     do {
       let temp = min_heap q ! offset1;
       let h = (min_heap q)[offset1 := min_heap q ! offset2];
       let h = h[offset2 := temp];
       q \<leftarrow> SetMapEntry (q\<lparr>min_heap := h\<rparr>) (pq_value (h ! offset1)) offset1;
       SetMapEntry q (pq_value (h ! offset2)) offset2
     }"

definition pq_Replace :: "PriorityQueue \<Rightarrow> nat \<Rightarrow> nat \<Rightarrow> PriorityQueue option" where
  "pq_Replace q index with_other =
     do {
       q \<leftarrow> RemoveMapEntry q (pq_value (min_heap q ! index));
       let entry = min_heap q ! with_other;
       q \<leftarrow> SetMapEntry q (pq_value entry) index;
       Some (q\<lparr>min_heap := (min_heap q)[index := entry]\<rparr>)
     }"

definition pq_Resize :: "PriorityQueue \<Rightarrow> nat \<Rightarrow> PriorityQueue option" where
  "pq_Resize q n =
     (if pq_size q < n \<and> n \<noteq> min_heap_size q
      then Some (q\<lparr>min_heap := take n (min_heap q) @ replicate (n - length (min_heap q)) junk_entry,
                   min_heap_size := n\<rparr>)
      else None)"

function BubbleUp :: "PriorityQueue \<Rightarrow> nat \<Rightarrow> PriorityQueue option" where
  "BubbleUp q offset =
     (if offset = 0 then Some q
      else
        (let parent = (offset - 1) div 2
         in if priority (min_heap q ! offset) <s priority (min_heap q ! parent)
            then (case pq_Swap q parent offset of None \<Rightarrow> None | Some q' \<Rightarrow> BubbleUp q' parent)
            else BubbleUp q parent))"
  by pat_completeness auto
termination by (relation "measure snd") auto

declare BubbleUp.simps [simp del]

definition smallest_index :: "PriorityQueue \<Rightarrow> nat \<Rightarrow> nat" where
  "smallest_index q offset =
     (let left_child_index = 2 * offset + 1;
          smallest = (if priority (min_heap q ! left_child_index) <s priority (min_heap q ! offset)
                      then left_child_index else offset);
          right_child_index = left_child_index + 1
      in if right_child_index < pq_size q \<and>
            priority (min_heap q ! right_child_index) <s priority (min_heap q ! smallest)
         then right_child_index else smallest)"

partial_function (option) BubbleDown :: "PriorityQueue \<Rightarrow> nat \<Rightarrow> PriorityQueue option" where
  "BubbleDown q offset =
     (if \<not> 2 * offset + 1 < pq_size q then Some q
      else if offset = smallest_index q offset then Some q
      else Option.bind (pq_Swap q offset (smallest_index q offset))
             (\<lambda>q'. BubbleDown q' (smallest_index q offset)))"

definition RemoveAt :: "PriorityQueue \<Rightarrow> nat \<Rightarrow> PriorityQueue option" where
  "RemoveAt q offset =
     (if offset < pq_size q then
        do {
          let q = q\<lparr>pq_size := pq_size q - 1\<rparr>;
          q \<leftarrow> (if offset = pq_size q then RemoveMapEntry q (pq_value (min_heap q ! offset))
                else do { q' \<leftarrow> pq_Replace q offset (pq_size q); BubbleDown q' offset });
          if pq_size q \<le> min_heap_size q div 4 \<and> kMinimumSize \<le> min_heap_size q div 2
          then pq_Resize q (min_heap_size q div 2) else Some q
        }
      else None)"

definition pq_Insert :: "PriorityQueue \<Rightarrow> u64 \<Rightarrow> u64 \<Rightarrow> PriorityQueue option" where
  "pq_Insert q p v =
     (if ContainsValue q v then None
      else
        do {
          q \<leftarrow> (if pq_size q = min_heap_size q then pq_Resize q (2 * min_heap_size q) else Some q);
          q \<leftarrow> pq_Set q (pq_size q) \<lparr>priority = p, pq_value = v\<rparr>;
          q \<leftarrow> BubbleUp q (pq_size q);
          Some (q\<lparr>pq_size := pq_size q + 1\<rparr>)
        })"

definition Minimum :: "PriorityQueue \<Rightarrow> pq_entry option" where
  "Minimum q = (if IsEmpty q then None else Some (min_heap q ! 0))"

definition RemoveMinimum :: "PriorityQueue \<Rightarrow> PriorityQueue option" where
  "RemoveMinimum q = (if IsEmpty q then None else RemoveAt q 0)"

definition RemoveByValue :: "PriorityQueue \<Rightarrow> u64 \<Rightarrow> (PriorityQueue \<times> bool) option" where
  "RemoveByValue q v =
     (case FindMapEntry q v of
        Some offset \<Rightarrow>
          do {
            q \<leftarrow> RemoveAt q (unat offset);
            if hm_occupancy (hashmap q) = pq_size q then Some (q, True) else None
          }
      | None \<Rightarrow> Some (q, False))"

definition InsertOrChangePriority :: "PriorityQueue \<Rightarrow> u64 \<Rightarrow> u64 \<Rightarrow> (PriorityQueue \<times> bool) option" where
  "InsertOrChangePriority q p v =
     (case FindMapEntry q v of
        None \<Rightarrow> map_option (\<lambda>q. (q, True)) (pq_Insert q p v)
      | Some off \<Rightarrow>
          (let offset = unat off
           in if \<not> offset < pq_size q then None
              else
                (let q = q\<lparr>min_heap := (min_heap q)[offset := (min_heap q ! offset)\<lparr>priority := p\<rparr>]\<rparr>
                 in map_option (\<lambda>q. (q, False))
                     (if offset = 0 then BubbleDown q offset
                      else
                        (let parent = (offset - 1) div 2;
                             diff = priority (min_heap q ! offset) - priority (min_heap q ! parent)
                         in if diff <s 0 then BubbleUp q offset
                            else if 0 <s diff then BubbleDown q offset
                            else Some q)))))"

section \<open>Heap order\<close>

abbreviation parent_of :: "nat \<Rightarrow> nat" where "parent_of i \<equiv> (i - 1) div 2"

definition heap_ordered :: "nat \<Rightarrow> (nat \<Rightarrow> int) \<Rightarrow> bool" where
  "heap_ordered n f \<longleftrightarrow> (\<forall>i<n. 0 < i \<longrightarrow> f (parent_of i) \<le> f i)"

definition below_parent :: "nat \<Rightarrow> (nat \<Rightarrow> int) \<Rightarrow> nat \<Rightarrow> bool" where
  "below_parent n f p \<longleftrightarrow> (\<forall>i<n. 0 < i \<longrightarrow> parent_of i = p \<longrightarrow> 0 < p \<longrightarrow> f (parent_of p) \<le> f i)"

definition up_inv :: "nat \<Rightarrow> (nat \<Rightarrow> int) \<Rightarrow> nat \<Rightarrow> bool" where
  "up_inv n f p \<longleftrightarrow> (\<forall>i<n. 0 < i \<longrightarrow> i \<noteq> p \<longrightarrow> f (parent_of i) \<le> f i) \<and> below_parent n f p"

definition down_inv :: "nat \<Rightarrow> (nat \<Rightarrow> int) \<Rightarrow> nat \<Rightarrow> bool" where
  "down_inv n f p \<longleftrightarrow> (\<forall>i<n. 0 < i \<longrightarrow> parent_of i \<noteq> p \<longrightarrow> f (parent_of i) \<le> f i) \<and> below_parent n f p"

lemma parent_less: "0 < i \<Longrightarrow> parent_of i < i"
  by auto

lemma parent_child: "0 < i \<Longrightarrow> parent_of i = p \<longleftrightarrow> i = 2 * p + 1 \<or> i = 2 * p + 2"
  by presburger

lemma heap_ordered_below:
  assumes h: "heap_ordered n f" and p: "p < n"
  shows "below_parent n f p"
  unfolding below_parent_def
proof (intro allI impI)
  fix i assume "i < n" "0 < i" "parent_of i = p" "0 < p"
  then have "f (parent_of p) \<le> f p" "f p \<le> f i" using h p unfolding heap_ordered_def by auto
  then show "f (parent_of p) \<le> f i" by simp
qed

lemma up_inv_0: "up_inv n f 0 \<Longrightarrow> heap_ordered n f"
  by (auto simp: up_inv_def heap_ordered_def)

lemma up_inv_step_ok:
  assumes inv: "up_inv n f p" and p: "0 < p" "p < n" and le: "f (parent_of p) \<le> f p"
  shows "up_inv n f (parent_of p)"
proof -
  have "heap_ordered n f" using inv le unfolding up_inv_def heap_ordered_def by blast
  moreover have "parent_of p < n" using p by auto
  ultimately show ?thesis using heap_ordered_below unfolding up_inv_def heap_ordered_def by blast
qed

lemma up_inv_step_swap:
  assumes inv: "up_inv n f p" and p: "0 < p" "p < n" and gt: "f p < f (parent_of p)"
  defines "g \<equiv> f(parent_of p := f p, p := f (parent_of p))"
  shows "up_inv n g (parent_of p)"
proof -
  let ?q = "parent_of p"
  have q: "?q < p" "?q < n" using p by auto
  have up: "f (parent_of i) \<le> f i" if "i < n" "0 < i" "i \<noteq> p" for i
    using inv that unfolding up_inv_def by blast
  have sub: "f ?q \<le> f i" if "i < n" "0 < i" "parent_of i = p" for i
    using inv that p unfolding up_inv_def below_parent_def by blast
  have gq: "g ?q = f p" and gp: "g p = f ?q" and g: "i \<noteq> ?q \<Longrightarrow> i \<noteq> p \<Longrightarrow> g i = f i" for i
    using q by (auto simp: g_def)
  have "g (parent_of i) \<le> g i" if i: "i < n" "0 < i" "i \<noteq> ?q" for i
  proof (cases "i = p")
    case True
    then show ?thesis using gp gq gt by simp
  next
    case False
    have gi: "g i = f i" using g i(3) False by blast
    consider "parent_of i = p" | "parent_of i = ?q" | "parent_of i \<noteq> p" "parent_of i \<noteq> ?q" by blast
    then show ?thesis
    proof cases
      case 1 then show ?thesis using sub [OF i(1,2)] gp gi by simp
    next
      case 2 then show ?thesis using up [OF i(1,2) False] gq gi gt by simp
    next
      case 3 then show ?thesis using up [OF i(1,2) False] g gi by simp
    qed
  qed
  moreover have "g (parent_of ?q) \<le> g i" if i: "i < n" "0 < i" "parent_of i = ?q" "0 < ?q" for i
  proof -
    have pq: "parent_of ?q < ?q" using i(4) by (rule parent_less)
    have fq: "f (parent_of ?q) \<le> f ?q" using up [OF q(2) i(4)] q by simp
    have gpq: "g (parent_of ?q) = f (parent_of ?q)" using g pq q by simp
    show ?thesis
    proof (cases "i = p")
      case True then show ?thesis using gp gpq fq by simp
    next
      case False
      have "i \<noteq> ?q" using i(3,4) parent_less [OF i(2)] by auto
      then show ?thesis using up [OF i(1,2) False] i(3) fq g False gpq by simp
    qed
  qed
  ultimately show ?thesis unfolding up_inv_def below_parent_def by blast
qed

lemma down_inv_done:
  assumes inv: "down_inv n f p" and le: "\<And>i. i < n \<Longrightarrow> i = 2 * p + 1 \<or> i = 2 * p + 2 \<Longrightarrow> f p \<le> f i"
  shows "heap_ordered n f"
  unfolding heap_ordered_def
proof (intro allI impI)
  fix i assume i: "i < n" "0 < i"
  show "f (parent_of i) \<le> f i"
  proof (cases "parent_of i = p")
    case True
    then show ?thesis using le [OF i(1)] parent_child [OF i(2), of p] by simp
  next
    case False
    then show ?thesis using inv i unfolding down_inv_def by blast
  qed
qed

lemma down_inv_step:
  assumes inv: "down_inv n f p" and c: "c < n" "c = 2 * p + 1 \<or> c = 2 * p + 2" and gt: "f c < f p"
    and least: "\<And>i. i < n \<Longrightarrow> i = 2 * p + 1 \<or> i = 2 * p + 2 \<Longrightarrow> f c \<le> f i"
  defines "g \<equiv> f(p := f c, c := f p)"
  shows "down_inv n g c"
proof -
  have pc: "parent_of c = p" "p < c" "0 < c" using c(2) by auto
  have dn: "f (parent_of i) \<le> f i" if "i < n" "0 < i" "parent_of i \<noteq> p" for i
    using inv that unfolding down_inv_def by blast
  have sub: "f (parent_of p) \<le> f i" if "i < n" "0 < i" "parent_of i = p" "0 < p" for i
    using inv that unfolding down_inv_def below_parent_def by blast
  have gp: "g p = f c" and gc: "g c = f p" and g: "i \<noteq> p \<Longrightarrow> i \<noteq> c \<Longrightarrow> g i = f i" for i
    using pc by (auto simp: g_def)
  have "g (parent_of i) \<le> g i" if i: "i < n" "0 < i" "parent_of i \<noteq> c" for i
  proof (cases "parent_of i = p")
    case True
    then have ch: "i = 2 * p + 1 \<or> i = 2 * p + 2" using parent_child i by blast
    then have ip: "i \<noteq> p" by auto
    show ?thesis
    proof (cases "i = c")
      case True
      then show ?thesis using \<open>parent_of i = p\<close> gp gc gt by simp
    next
      case False
      then show ?thesis using \<open>parent_of i = p\<close> least [OF i(1) ch] gp g ip by simp
    qed
  next
    case False
    then have ic: "i \<noteq> c" using pc by auto
    have gpi: "g (parent_of i) = f (parent_of i)" using g False i(3) by simp
    show ?thesis
    proof (cases "i = p")
      case True
      then show ?thesis using sub [OF c(1) pc(3,1)] i(2) gp gpi by simp
    next
      case ne: False
      then show ?thesis using dn [OF i(1,2) False] gpi g ic by simp
    qed
  qed
  moreover have "g (parent_of c) \<le> g i" if i: "i < n" "0 < i" "parent_of i = c" "0 < c" for i
  proof -
    have ic: "i > c" using i parent_less by auto
    have "parent_of i \<noteq> p" using i pc by auto
    then have "f c \<le> f i" using dn [OF i(1,2)] i(3) by simp
    then show ?thesis using pc gp g ic by simp
  qed
  ultimately show ?thesis unfolding down_inv_def below_parent_def by blast
qed

lemma heap_ordered_min:
  assumes "heap_ordered n f"
  shows "i < n \<Longrightarrow> f 0 \<le> f i"
proof (induction i rule: less_induct)
  case (less i)
  show ?case
  proof (cases "i = 0")
    case False
    then have "f 0 \<le> f (parent_of i)" "f (parent_of i) \<le> f i"
      using less assms unfolding heap_ordered_def by auto
    then show ?thesis by simp
  qed simp
qed

section \<open>The map of offsets\<close>

definition idx :: "pq_entry list \<Rightarrow> u64 \<rightharpoonup> u64" where
  "idx xs = map_of (zip (map pq_value xs) (map of_nat [0..<length xs]))"

lemma idx_Some_iff:
  assumes "distinct (map pq_value xs)"
  shows "idx xs v = Some w \<longleftrightarrow> (\<exists>i<length xs. pq_value (xs ! i) = v \<and> w = of_nat i)"
proof -
  have "idx xs v = Some w \<longleftrightarrow> (v, w) \<in> set (zip (map pq_value xs) (map of_nat [0..<length xs]))"
    unfolding idx_def using assms by (intro map_of_eq_Some_iff) (simp add: map_fst_zip)
  also have "\<dots> \<longleftrightarrow> (\<exists>i<length xs. map pq_value xs ! i = v \<and> map of_nat [0..<length xs] ! i = w)"
    by (auto simp: in_set_zip)
  also have "\<dots> \<longleftrightarrow> (\<exists>i<length xs. pq_value (xs ! i) = v \<and> w = of_nat i)" by (intro ex_cong) auto
  finally show ?thesis .
qed

lemma dom_idx: "dom (idx xs) = pq_value ` set xs"
  unfolding idx_def by (simp add: dom_map_of_zip)

lemma idx_nth: "distinct (map pq_value xs) \<Longrightarrow> i < length xs \<Longrightarrow> idx xs (pq_value (xs ! i)) = Some (of_nat i)"
  using idx_Some_iff by blast

definition swapped :: "pq_entry list \<Rightarrow> nat \<Rightarrow> nat \<Rightarrow> pq_entry list" where
  "swapped xs i j = xs[i := xs ! j, j := xs ! i]"

lemma mset_swapped: "i < length xs \<Longrightarrow> j < length xs \<Longrightarrow> mset (swapped xs i j) = mset xs"
  unfolding swapped_def by (rule mset_swap)

lemma distinct_values_mset:
  "mset xs = mset ys \<Longrightarrow> distinct (map pq_value xs) \<longleftrightarrow> distinct (map pq_value ys)"
  by (rule mset_eq_imp_distinct_iff) simp

lemma idx_permuted:
  assumes d: "distinct (map pq_value xs)" "distinct (map pq_value ys)" and len: "length ys = length xs"
    and i: "i < length xs" and j: "j < length xs" and ne: "i \<noteq> j"
    and same: "\<And>k. k < length xs \<Longrightarrow> k \<noteq> i \<Longrightarrow> k \<noteq> j \<Longrightarrow> ys ! k = xs ! k"
    and sw: "pq_value (ys ! i) = pq_value (xs ! j)" "pq_value (ys ! j) = pq_value (xs ! i)"
  shows "idx ys = (idx xs)(pq_value (xs ! j) \<mapsto> of_nat i, pq_value (xs ! i) \<mapsto> of_nat j)"
proof (rule ext)
  fix v
  have vne: "pq_value (xs ! i) \<noteq> pq_value (xs ! j)" using d(1) i j ne by (simp add: distinct_conv_nth)
  consider "v = pq_value (xs ! i)" | "v = pq_value (xs ! j)"
    | k where "k < length xs" "k \<noteq> i" "k \<noteq> j" "v = pq_value (xs ! k)" | "v \<notin> pq_value ` set xs"
    by (metis image_iff in_set_conv_nth)
  then show "idx ys v = ((idx xs)(pq_value (xs ! j) \<mapsto> of_nat i, pq_value (xs ! i) \<mapsto> of_nat j)) v"
  proof cases
    case 1 then show ?thesis using idx_nth [OF d(2), of j] j len sw by simp
  next
    case 2 then show ?thesis using idx_nth [OF d(2), of i] i len sw vne by simp
  next
    case 3
    then have "v \<noteq> pq_value (xs ! i)" "v \<noteq> pq_value (xs ! j)" using d(1) i j by (auto simp: distinct_conv_nth)
    then show ?thesis using idx_nth [OF d(2), of k] idx_nth [OF d(1), of k] 3 same len by simp
  next
    case 4
    have "pq_value (ys ! k) \<in> pq_value ` set xs" if "k < length xs" for k
      using that same [of k] sw i j by (cases "k = i"; cases "k = j") auto
    then have "v \<notin> pq_value ` set ys" using 4 len by (auto simp: in_set_conv_nth)
    then have "idx ys v = None" "idx xs v = None" using 4 dom_idx by blast+
    then show ?thesis using 4 i j by auto
  qed
qed

section \<open>The represented heap\<close>

abbreviation prio :: "pq_entry list \<Rightarrow> nat \<Rightarrow> int" where
  "prio xs i \<equiv> sint (priority (xs ! i))"

definition pq_rep :: "PriorityQueue \<Rightarrow> pq_entry list \<Rightarrow> bool" where
  "pq_rep q xs \<longleftrightarrow> length xs \<le> min_heap_size q \<and> length (min_heap q) = min_heap_size q
     \<and> take (length xs) (min_heap q) = xs \<and> distinct (map pq_value xs)
     \<and> hm.rep HashKey (hashmap q) (idx xs)"

definition frame :: "PriorityQueue \<Rightarrow> PriorityQueue \<Rightarrow> bool" where
  "frame q q' \<longleftrightarrow> pq_size q' = pq_size q \<and> min_heap_size q' = min_heap_size q
     \<and> (hm_capacity (hashmap q') \<le> 2 ^ 30 \<longleftrightarrow> hm_capacity (hashmap q) \<le> 2 ^ 30)"

lemma frame_refl: "frame q q"
  by (simp add: frame_def)

lemma frame_trans: "frame q q' \<Longrightarrow> frame q' q'' \<Longrightarrow> frame q q''"
  by (simp add: frame_def)

lemma pq_rep_nth: "pq_rep q xs \<Longrightarrow> i < length xs \<Longrightarrow> min_heap q ! i = xs ! i"
  unfolding pq_rep_def by (metis nth_take)

lemma pq_rep_length: "pq_rep q xs \<Longrightarrow> length xs < 2 ^ 31"
proof -
  assume r: "pq_rep q xs"
  then have rep: "hm.rep HashKey (hashmap q) (idx xs)" and d: "distinct (map pq_value xs)"
    by (auto simp: pq_rep_def)
  then have "hm_wf (hashmap q)" by (auto simp: hm.rep_def pointer_map_def)
  then obtain n where n: "n \<le> 31" "hm_occupancy (hashmap q) < 2 ^ n" by (auto simp: hm_wf_def)
  have "card (dom (idx xs)) = length xs" using distinct_card [OF d] by (simp add: dom_idx)
  then have "length xs < 2 ^ n" using hm.rep_cnt [OF rep] n by simp
  also have "(2::nat) ^ n \<le> 2 ^ 31" using n(1) by (intro power_increasing) simp_all
  finally show ?thesis .
qed

lemma pq_rep_value: "pq_rep q xs \<Longrightarrow> i < length xs \<Longrightarrow> pq_value (xs ! i) \<noteq> NULL"
  using hm.rep_ok [of HashKey "hashmap q" "idx xs"] dom_idx unfolding pq_rep_def by fastforce

lemma FindMapEntry_rep:
  assumes "pq_rep q xs" "v \<noteq> NULL"
  shows "FindMapEntry q v = idx xs v"
  using assms hm.rep_get unfolding FindMapEntry_def pq_rep_def by blast

lemma SetMapEntry_rep:
  assumes "hm.rep HashKey (hashmap q) f" "v \<noteq> NULL" "v \<in> dom f \<or> hm_capacity (hashmap q) \<le> 2 ^ 30"
  obtains m where "SetMapEntry q v i = Some (q\<lparr>hashmap := m\<rparr>)" "hm.rep HashKey m (f(v \<mapsto> of_nat i))"
    "v \<in> dom f \<longrightarrow> (hm_capacity m \<le> 2 ^ 30 \<longleftrightarrow> hm_capacity (hashmap q) \<le> 2 ^ 30)"
  by (rule hm.rep_put [OF assms, of "of_nat i"]) (rule that, simp_all add: SetMapEntry_def)

lemma SetMapEntry_present:
  assumes "hm.rep HashKey (hashmap q) f" "v \<in> dom f"
  obtains m where "SetMapEntry q v i = Some (q\<lparr>hashmap := m\<rparr>)" "hm.rep HashKey m (f(v \<mapsto> of_nat i))"
    "hm_capacity m \<le> 2 ^ 30 \<longleftrightarrow> hm_capacity (hashmap q) \<le> 2 ^ 30"
proof (rule SetMapEntry_rep [OF assms(1), of v i])
  show "v \<noteq> NULL" using hm.rep_ok [OF assms] .
  show "v \<in> dom f \<or> hm_capacity (hashmap q) \<le> 2 ^ 30" using assms(2) by blast
qed (use assms(2) that in blast)

lemma RemoveMapEntry_rep:
  assumes "hm.rep HashKey (hashmap q) f" "v \<in> dom f"
  obtains m where "RemoveMapEntry q v = Some (q\<lparr>hashmap := m\<rparr>)" "hm.rep HashKey m (f(v := None))"
    "hm_capacity m \<le> 2 ^ 30 \<longleftrightarrow> hm_capacity (hashmap q) \<le> 2 ^ 30"
proof -
  have v: "v \<noteq> NULL" using hm.rep_ok [OF assms] .
  obtain m where m: "Remove (hashmap q) v (HashKey v) = Some m" "hm.rep HashKey m (f(v := None))"
    "(hm_capacity m \<le> 2 ^ 30) = (hm_capacity (hashmap q) \<le> 2 ^ 30)"
    by (rule hm.rep_del [OF assms(1) v])
  have "FindMapEntry q v \<noteq> None" using hm.rep_get [OF assms(1) v] assms(2) by (auto simp: FindMapEntry_def)
  then show ?thesis using that m by (simp add: RemoveMapEntry_def)
qed

lemma pq_Swap_rep:
  assumes r: "pq_rep q xs" and i: "i < length xs" and j: "j < length xs" and ne: "i \<noteq> j"
  obtains q' where "pq_Swap q i j = Some q'" "pq_rep q' (swapped xs i j)" "frame q q'"
proof -
  let ?h = "(min_heap q)[i := min_heap q ! j, j := min_heap q ! i]"
  have rep: "hm.rep HashKey (hashmap q) (idx xs)" and d: "distinct (map pq_value xs)"
    and len: "length xs \<le> length (min_heap q)" using r by (auto simp: pq_rep_def)
  note nth = pq_rep_nth [OF r]
  have h: "?h ! i = xs ! j" "?h ! j = xs ! i" using i j ne len nth by simp_all
  have vi: "pq_value (xs ! i) \<in> dom (idx xs)" and vj: "pq_value (xs ! j) \<in> dom (idx xs)"
    using i j by (auto simp: dom_idx)
  have vi': "pq_value (xs ! i) \<in> dom ((idx xs)(pq_value (xs ! j) \<mapsto> of_nat i))" using vi by simp
  obtain m1 where m1: "SetMapEntry (q\<lparr>min_heap := ?h\<rparr>) (pq_value (xs ! j)) i = Some (q\<lparr>min_heap := ?h, hashmap := m1\<rparr>)"
    "hm.rep HashKey m1 ((idx xs)(pq_value (xs ! j) \<mapsto> of_nat i))"
    "hm_capacity m1 \<le> 2 ^ 30 \<longleftrightarrow> hm_capacity (hashmap q) \<le> 2 ^ 30"
    using SetMapEntry_present [of "q\<lparr>min_heap := ?h\<rparr>" "idx xs" "pq_value (xs ! j)" i] rep vj by auto
  obtain m2 where m2: "SetMapEntry (q\<lparr>min_heap := ?h, hashmap := m1\<rparr>) (pq_value (xs ! i)) j
      = Some (q\<lparr>min_heap := ?h, hashmap := m2\<rparr>)"
    "hm.rep HashKey m2 ((idx xs)(pq_value (xs ! j) \<mapsto> of_nat i, pq_value (xs ! i) \<mapsto> of_nat j))"
    "hm_capacity m2 \<le> 2 ^ 30 \<longleftrightarrow> hm_capacity m1 \<le> 2 ^ 30"
    using SetMapEntry_present [of "q\<lparr>min_heap := ?h, hashmap := m1\<rparr>" _ "pq_value (xs ! i)" j, OF _ vi'] m1(2)
    by auto
  let ?q = "q\<lparr>min_heap := ?h, hashmap := m2\<rparr>"
  have S: "pq_Swap q i j = Some ?q" using m1(1) m2(1) h by (simp add: pq_Swap_def Let_def)
  have d': "distinct (map pq_value (swapped xs i j))"
    using distinct_values_mset [OF mset_swapped [OF i j]] d by simp
  have "take (length xs) ?h = swapped xs i j"
    using r i j nth by (simp add: pq_rep_def swapped_def take_update_swap)
  moreover have "idx (swapped xs i j) = (idx xs)(pq_value (xs ! j) \<mapsto> of_nat i, pq_value (xs ! i) \<mapsto> of_nat j)"
    using i j ne d d' by (intro idx_permuted) (simp_all add: swapped_def)
  ultimately have "pq_rep ?q (swapped xs i j)"
    using m2(2) d' r by (simp add: pq_rep_def swapped_def)
  then show ?thesis using that [OF S] m1(3) m2(3) by (simp add: frame_def)
qed

lemma swapped_prio:
  "i < length xs \<Longrightarrow> j < length xs \<Longrightarrow> prio (swapped xs i j) = (prio xs)(i := prio xs j, j := prio xs i)"
  by (auto simp: swapped_def nth_list_update fun_eq_iff)

lemma length_swapped [simp]: "length (swapped xs i j) = length xs"
  by (simp add: swapped_def)

lemma heap_ordered_cong: "(\<And>i. i < n \<Longrightarrow> f i = g i) \<Longrightarrow> heap_ordered n f = heap_ordered n g"
  unfolding heap_ordered_def by (intro all_cong) auto

lemma BubbleUp_rep:
  assumes "pq_rep q xs" "p < length xs" "up_inv (length xs) (prio xs) p"
  shows "\<exists>q' xs'. BubbleUp q p = Some q' \<and> pq_rep q' xs' \<and> frame q q' \<and> mset xs' = mset xs
    \<and> heap_ordered (length xs) (prio xs')"
  using assms
proof (induction q p arbitrary: xs rule: BubbleUp.induct)
  case (1 q p)
  show ?case
  proof (cases "p = 0")
    case True
    then show ?thesis using 1(3-5) up_inv_0 frame_refl by (subst BubbleUp.simps) auto
  next
    case False
    let ?r = "parent_of p"
    have r: "?r < p" "?r < length xs" "?r \<noteq> p" using False 1(4) by auto
    have lt: "priority (min_heap q ! p) <s priority (min_heap q ! ?r) \<longleftrightarrow> prio xs p < prio xs ?r"
      using pq_rep_nth [OF 1(3)] r 1(4) by (simp add: word_sless_alt)
    show ?thesis
    proof (cases "prio xs p < prio xs ?r")
      case True
      obtain q1 where q1: "pq_Swap q ?r p = Some q1" "pq_rep q1 (swapped xs ?r p)" "frame q q1"
        using pq_Swap_rep [OF 1(3) r(2) 1(4) r(3)] by blast
      have "up_inv (length xs) (prio (swapped xs ?r p)) ?r"
        using up_inv_step_swap [OF 1(5) _ 1(4) True] False r 1(4) by (simp add: swapped_prio)
      then have "\<exists>q' xs'. BubbleUp q1 ?r = Some q' \<and> pq_rep q' xs' \<and> frame q1 q' \<and>
          mset xs' = mset (swapped xs ?r p) \<and> heap_ordered (length (swapped xs ?r p)) (prio xs')"
        using 1(1) [OF False refl _ q1(1), of "swapped xs ?r p"] lt True q1(2) r(2) by simp
      then obtain q' xs' where q': "BubbleUp q1 ?r = Some q'" "pq_rep q' xs'" "frame q1 q'"
          "mset xs' = mset (swapped xs ?r p)" "heap_ordered (length xs) (prio xs')"
        unfolding length_swapped by blast
      have "BubbleUp q p = BubbleUp q1 ?r"
        using False lt True q1(1) by (subst BubbleUp.simps) (simp add: Let_def)
      then show ?thesis
        using q' frame_trans [OF q1(3) q'(3)] mset_swapped [OF r(2) 1(4)]
        by (intro exI [of _ q'] exI [of _ xs']) simp
    next
      case le: False
      then have "up_inv (length xs) (prio xs) ?r" using up_inv_step_ok [OF 1(5) _ 1(4)] False by simp
      then show ?thesis
        using 1(2) [OF False refl _ 1(3) r(2)] lt le False by (subst BubbleUp.simps) (simp add: Let_def)
    qed
  qed
qed

lemma smallest_index_spec:
  assumes r: "pq_rep q xs" and n: "pq_size q = length xs" and l: "2 * p + 1 < length xs"
  defines "s \<equiv> smallest_index q p"
  shows "s = p \<or> s = 2 * p + 1 \<or> s = 2 * p + 2" "s < length xs" "prio xs s \<le> prio xs p"
    "s \<noteq> p \<Longrightarrow> prio xs s < prio xs p"
    "i < length xs \<Longrightarrow> i = 2 * p + 1 \<or> i = 2 * p + 2 \<Longrightarrow> prio xs s \<le> prio xs i"
  using l pq_rep_nth [OF r] n unfolding s_def smallest_index_def
  by (auto simp: Let_def word_sless_alt split: if_splits)

lemma BubbleDown_rep:
  assumes "pq_rep q xs" "pq_size q = length xs" "p < length xs"
  shows "\<exists>q' xs'. BubbleDown q p = Some q' \<and> pq_rep q' xs' \<and> frame q q' \<and> mset xs' = mset xs
    \<and> (down_inv (length xs) (prio xs) p \<longrightarrow> heap_ordered (length xs) (prio xs'))"
  using assms
proof (induction "length xs - p" arbitrary: q xs p rule: less_induct)
  case less
  let ?s = "smallest_index q p"
  show ?case
  proof (cases "2 * p + 1 < length xs \<and> p \<noteq> ?s")
    case False
    have "heap_ordered (length xs) (prio xs)" if "down_inv (length xs) (prio xs) p"
    proof (rule down_inv_done [OF that])
      fix i assume i: "i < length xs" "i = 2 * p + 1 \<or> i = 2 * p + 2"
      then have l: "2 * p + 1 < length xs" by auto
      then show "prio xs p \<le> prio xs i"
        using False smallest_index_spec(5) [OF less.prems(1,2) l i] by simp
    qed
    moreover have "BubbleDown q p = Some q" using False less.prems(2) by (subst BubbleDown.simps) auto
    ultimately show ?thesis using less.prems frame_refl by blast
  next
    case True
    then have l: "2 * p + 1 < length xs" and ne: "?s \<noteq> p" by auto
    note s = smallest_index_spec [OF less.prems(1,2) l]
    have ch: "?s = 2 * p + 1 \<or> ?s = 2 * p + 2" and ps: "p < ?s" using s(1) ne by auto
    obtain q1 where q1: "pq_Swap q p ?s = Some q1" "pq_rep q1 (swapped xs p ?s)" "frame q q1"
      using pq_Swap_rep [OF less.prems(1,3) s(2)] ne by metis
    have dn: "down_inv (length xs) (prio (swapped xs p ?s)) ?s" if "down_inv (length xs) (prio xs) p"
      using down_inv_step [OF that s(2) ch s(4) [OF ne] s(5)] less.prems(3) s(2)
      by (simp add: swapped_prio)
    have "\<exists>q' xs'. BubbleDown q1 ?s = Some q' \<and> pq_rep q' xs' \<and> frame q1 q' \<and>
        mset xs' = mset (swapped xs p ?s) \<and> (down_inv (length (swapped xs p ?s)) (prio (swapped xs p ?s)) ?s \<longrightarrow>
          heap_ordered (length (swapped xs p ?s)) (prio xs'))"
      by (intro less.hyps) (use q1(2,3) less.prems(2) s(2) ps in \<open>simp_all add: frame_def\<close>)
    then obtain q' xs' where q': "BubbleDown q1 ?s = Some q'" "pq_rep q' xs'" "frame q1 q'"
        "mset xs' = mset (swapped xs p ?s)"
        "down_inv (length xs) (prio (swapped xs p ?s)) ?s \<longrightarrow> heap_ordered (length xs) (prio xs')"
      unfolding length_swapped by blast
    have "BubbleDown q p = BubbleDown q1 ?s"
      using l ne q1(1) less.prems(2) by (subst BubbleDown.simps) simp
    then show ?thesis
      using q' dn frame_trans [OF q1(3) q'(3)] mset_swapped [OF less.prems(3) s(2)]
      by (intro exI [of _ q'] exI [of _ xs']) simp
  qed
qed

section \<open>Insertion and deletion\<close>

definition entries :: "PriorityQueue \<Rightarrow> pq_entry multiset" where
  "entries q = mset (take (pq_size q) (min_heap q))"

definition pq_consistent :: "PriorityQueue \<Rightarrow> bool" where
  "pq_consistent q \<longleftrightarrow> pq_size q \<le> min_heap_size q \<and> pq_rep q (take (pq_size q) (min_heap q))
     \<and> (\<exists>k\<ge>4. min_heap_size q = 2 ^ k)"

definition pq_wf :: "PriorityQueue \<Rightarrow> bool" where
  "pq_wf q \<longleftrightarrow> pq_consistent q \<and> heap_ordered (pq_size q) (prio (min_heap q))"

lemma pq_rep_consistent:
  assumes "pq_rep q xs" "pq_size q = length xs" "\<exists>k\<ge>4. min_heap_size q = 2 ^ k"
  shows "pq_consistent q" "entries q = mset xs" "pq_wf q \<longleftrightarrow> heap_ordered (length xs) (prio xs)"
proof -
  have t: "take (pq_size q) (min_heap q) = xs" using assms(1,2) by (simp add: pq_rep_def)
  show c: "pq_consistent q" using assms t by (auto simp: pq_consistent_def pq_rep_def)
  show "entries q = mset xs" by (simp add: entries_def t)
  show "pq_wf q \<longleftrightarrow> heap_ordered (length xs) (prio xs)"
    using c assms(2) heap_ordered_cong [of "length xs" "prio (min_heap q)" "prio xs"] pq_rep_nth [OF assms(1)]
    by (simp add: pq_wf_def)
qed

lemma pq_consistentD:
  assumes "pq_consistent q"
  obtains xs where "pq_rep q xs" "pq_size q = length xs" "\<exists>k\<ge>4. min_heap_size q = 2 ^ k"
    "xs = take (pq_size q) (min_heap q)"
proof (rule that [OF _ _ _ refl])
  show "pq_rep q (take (pq_size q) (min_heap q))" "\<exists>k\<ge>4. min_heap_size q = 2 ^ k"
    using assms by (auto simp: pq_consistent_def)
  then show "pq_size q = length (take (pq_size q) (min_heap q))"
    using assms by (auto simp: pq_consistent_def pq_rep_def)
qed

lemma idx_append:
  assumes "pq_value e \<notin> pq_value ` set xs" "distinct (map pq_value xs)"
  shows "idx (xs @ [e]) = (idx xs)(pq_value e \<mapsto> of_nat (length xs))"
proof (rule ext, rule option_eqI)
  fix v w
  have d: "distinct (map pq_value (xs @ [e]))" using assms by auto
  show "idx (xs @ [e]) v = Some w \<longleftrightarrow> ((idx xs)(pq_value e \<mapsto> of_nat (length xs))) v = Some w"
  proof (cases "v = pq_value e")
    case True
    then show ?thesis using idx_nth [OF d, of "length xs"] by auto
  next
    case False
    have "(\<exists>i<length (xs @ [e]). pq_value ((xs @ [e]) ! i) = v \<and> w = of_nat i) \<longleftrightarrow>
        (\<exists>i<length xs. pq_value (xs ! i) = v \<and> w = of_nat i)"
      using False by (auto simp: nth_append less_Suc_eq split: if_splits)
    then show ?thesis using False by (simp only: idx_Some_iff [OF d] idx_Some_iff [OF assms(2)] fun_upd_apply if_False)
  qed
qed

lemma idx_butlast:
  assumes "distinct (map pq_value (xs @ [e]))"
  shows "idx xs = (idx (xs @ [e]))(pq_value e := None)"
proof -
  have n: "pq_value e \<notin> pq_value ` set xs" "distinct (map pq_value xs)" using assms by auto
  then have "idx xs (pq_value e) = None" using dom_idx by blast
  then show ?thesis unfolding idx_append [OF n] by (auto simp: fun_eq_iff)
qed

lemma up_inv_append:
  assumes "heap_ordered (length xs) (prio xs)"
  shows "up_inv (Suc (length xs)) (prio (xs @ [e])) (length xs)"
proof -
  have "prio (xs @ [e]) (parent_of i) \<le> prio (xs @ [e]) i" if "i < Suc (length xs)" "0 < i" "i \<noteq> length xs" for i
  proof -
    have "i < length xs" "parent_of i < length xs" using that by auto
    then show ?thesis using assms that by (simp add: heap_ordered_def nth_append)
  qed
  moreover have "below_parent (Suc (length xs)) (prio (xs @ [e])) (length xs)" by (auto simp: below_parent_def)
  ultimately show ?thesis unfolding up_inv_def by blast
qed

lemma pq_Resize_rep:
  assumes "pq_rep q xs" "length xs \<le> n" "pq_size q < n" "n \<noteq> min_heap_size q"
  obtains q' where "pq_Resize q n = Some q'" "pq_rep q' xs" "pq_size q' = pq_size q" "min_heap_size q' = n"
    "hashmap q' = hashmap q"
proof -
  let ?q = "q\<lparr>min_heap := take n (min_heap q) @ replicate (n - length (min_heap q)) junk_entry, min_heap_size := n\<rparr>"
  have "pq_rep ?q xs" using assms(1,2) by (auto simp: pq_rep_def min_def)
  then show ?thesis using that [of ?q] assms(3,4) by (simp add: pq_Resize_def)
qed

lemma pq_Insert_rep:
  assumes wf: "pq_wf q" and v: "v \<noteq> NULL" "\<not> ContainsValue q v" and cap: "hm_capacity (hashmap q) \<le> 2 ^ 30"
  shows "\<exists>q'. pq_Insert q p v = Some q' \<and> pq_wf q' \<and> entries q' = add_mset \<lparr>priority = p, pq_value = v\<rparr> (entries q)"
proof -
  let ?e = "\<lparr>priority = p, pq_value = v\<rparr>"
  obtain xs where xs: "pq_rep q xs" "pq_size q = length xs" "\<exists>k\<ge>4. min_heap_size q = 2 ^ k"
    using pq_consistentD [of q] wf unfolding pq_wf_def by blast
  have ent: "entries q = mset xs" and ho: "heap_ordered (length xs) (prio xs)"
    using pq_rep_consistent [OF xs] wf by auto
  have nv: "v \<notin> pq_value ` set xs"
    using v(2) FindMapEntry_rep [OF xs(1) v(1)] unfolding ContainsValue_def dom_idx [symmetric] by (simp add: domIff)
  have "\<exists>q1. (if pq_size q = min_heap_size q then pq_Resize q (2 * min_heap_size q) else Some q) = Some q1
      \<and> pq_rep q1 xs \<and> pq_size q1 = length xs \<and> length xs < min_heap_size q1
      \<and> (\<exists>k\<ge>4. min_heap_size q1 = 2 ^ k) \<and> hashmap q1 = hashmap q"
  proof (cases "pq_size q = min_heap_size q")
    case True
    obtain k where k: "k \<ge> 4" "min_heap_size q = 2 ^ k" using xs(3) by blast
    then have "0 < min_heap_size q" by simp
    then obtain q1 where q1: "pq_Resize q (2 * min_heap_size q) = Some q1" "pq_rep q1 xs" "pq_size q1 = pq_size q"
        "min_heap_size q1 = 2 * min_heap_size q" "hashmap q1 = hashmap q"
      using pq_Resize_rep [OF xs(1), of "2 * min_heap_size q"] True xs(2) by auto
    have "min_heap_size q1 = 2 ^ Suc k" "Suc k \<ge> 4" using q1(4) k by simp_all
    then have "\<exists>k\<ge>4. min_heap_size q1 = 2 ^ k" by blast
    then show ?thesis using q1 True xs(2) \<open>0 < min_heap_size q\<close> by (intro exI [of _ q1]) simp
  next
    case False
    then show ?thesis using xs by (auto simp: pq_rep_def)
  qed
  then obtain q1 where q1: "(if pq_size q = min_heap_size q then pq_Resize q (2 * min_heap_size q) else Some q) = Some q1"
      "pq_rep q1 xs" "pq_size q1 = length xs" "length xs < min_heap_size q1"
      "\<exists>k\<ge>4. min_heap_size q1 = 2 ^ k" "hashmap q1 = hashmap q" by blast
  let ?q = "q1\<lparr>min_heap := (min_heap q1)[length xs := ?e]\<rparr>"
  have rep: "hm.rep HashKey (hashmap ?q) (idx xs)" and d: "distinct (map pq_value xs)"
    using q1(2) by (auto simp: pq_rep_def)
  obtain m where m: "SetMapEntry ?q v (length xs) = Some (?q\<lparr>hashmap := m\<rparr>)"
      "hm.rep HashKey m ((idx xs)(v \<mapsto> of_nat (length xs)))"
    using SetMapEntry_rep [OF rep v(1), of "length xs"] cap q1(6) by auto
  have S: "pq_Set q1 (pq_size q1) ?e = Some (?q\<lparr>hashmap := m\<rparr>)" using m(1) q1(3) by (simp add: pq_Set_def)
  have rep2: "pq_rep (?q\<lparr>hashmap := m\<rparr>) (xs @ [?e])"
    using q1(2,4) m(2) d nv idx_append [of ?e xs] by (auto simp: pq_rep_def take_Suc_conv_app_nth)
  obtain q2 ys where q2: "BubbleUp (?q\<lparr>hashmap := m\<rparr>) (length xs) = Some q2" "pq_rep q2 ys" "frame (?q\<lparr>hashmap := m\<rparr>) q2"
      "mset ys = mset (xs @ [?e])" "heap_ordered (Suc (length xs)) (prio ys)"
    using BubbleUp_rep [OF rep2, of "length xs"] up_inv_append [OF ho] by auto
  let ?q3 = "q2\<lparr>pq_size := pq_size q2 + 1\<rparr>"
  have len: "length ys = Suc (length xs)" using mset_eq_length [OF q2(4)] by simp
  have I: "pq_Insert q p v = Some ?q3"
    using v(2) q1(1,3) S q2(1) by (simp add: pq_Insert_def)
  have "pq_rep ?q3 ys" "pq_size ?q3 = length ys" "\<exists>k\<ge>4. min_heap_size ?q3 = 2 ^ k"
    using q2(2,3) q1(3,5) len by (auto simp: pq_rep_def frame_def)
  from pq_rep_consistent [OF this] show ?thesis using I q2(4,5) ent len by auto
qed

text \<open>Deleting the entry at an offset: the last entry takes its place.\<close>

definition dropped :: "pq_entry list \<Rightarrow> nat \<Rightarrow> pq_entry list" where
  "dropped xs i = (if i = length xs - 1 then butlast xs else (butlast xs)[i := last xs])"

lemma length_dropped [simp]: "length (dropped xs i) = length xs - 1"
  by (simp add: dropped_def)

lemma mset_dropped:
  assumes "i < length xs"
  shows "mset (dropped xs i) = mset xs - {#xs ! i#}"
proof -
  obtain ys e where xs: "xs = ys @ [e]" using assms by (cases xs rule: rev_cases) auto
  show ?thesis
  proof (cases "i = length ys")
    case True then show ?thesis by (simp add: dropped_def xs)
  next
    case False
    then have i: "i < length ys" using assms xs by simp
    then have "ys ! i \<in># mset ys" by simp
    then show ?thesis using i False by (simp add: dropped_def xs mset_update nth_append)
  qed
qed

lemma distinct_replaced:
  assumes "distinct (map pq_value (ys @ [e]))"
  shows "distinct (map pq_value (ys[i := e]))"
  unfolding map_update using assms by (intro distinct_list_update) auto

lemma idx_dropped:
  assumes d: "distinct (map pq_value (ys @ [e]))" and i: "i < length ys"
  shows "idx (ys[i := e]) = (idx (ys @ [e]))(pq_value (ys ! i) := None, pq_value e \<mapsto> of_nat i)"
proof (rule ext, rule option_eqI)
  fix v w
  have d1: "distinct (map pq_value ys)" and ni: "pq_value e \<notin> pq_value ` set ys" using d by auto
  have ne: "pq_value (ys ! k) \<noteq> pq_value e" if "k < length ys" for k
  proof -
    have "pq_value (ys ! k) \<in> pq_value ` set ys" using that by (intro imageI nth_mem)
    then show ?thesis using ni by metis
  qed
  have d2: "distinct (map pq_value (ys[i := e]))"
    using d by (rule distinct_replaced)
  show "idx (ys[i := e]) v = Some w \<longleftrightarrow>
      ((idx (ys @ [e]))(pq_value (ys ! i) := None, pq_value e \<mapsto> of_nat i)) v = Some w"
  proof (cases "v = pq_value e")
    case True
    then show ?thesis using idx_nth [OF d2, of i] i by auto
  next
    case False
    have "(\<exists>k<length ys. pq_value (ys[i := e] ! k) = v \<and> w = of_nat k) \<longleftrightarrow>
        v \<noteq> pq_value (ys ! i) \<and> (\<exists>k<length (ys @ [e]). pq_value ((ys @ [e]) ! k) = v \<and> w = of_nat k)" (is "?L \<longleftrightarrow> ?R")
    proof
      assume ?L
      then obtain k where k: "k < length ys" "k \<noteq> i" "pq_value (ys ! k) = v" "w = of_nat k"
        using False i by (auto simp: nth_list_update split: if_splits)
      then have "v \<noteq> pq_value (ys ! i)" using d1 i by (auto simp: distinct_conv_nth)
      then show ?R using k by (auto simp: nth_append intro!: exI [of _ k])
    next
      assume ?R
      then obtain k where k: "k < length ys" "pq_value (ys ! k) = v" "w = of_nat k" "v \<noteq> pq_value (ys ! i)"
        using False by (auto simp: nth_append less_Suc_eq split: if_splits)
      then have "k \<noteq> i" by blast
      then show ?L using k by (intro exI [of _ k]) simp
    qed
    then show ?thesis
      using False unfolding idx_Some_iff [OF d2] length_list_update
      by (auto simp: idx_Some_iff [OF d])
  qed
qed

lemma pq_Replace_rep:
  assumes r: "pq_rep q xs" and i: "Suc i < length xs"
  obtains q' where "pq_Replace q i (length xs - 1) = Some q'" "pq_rep q' (dropped xs i)" "frame q q'"
proof -
  obtain ys e where xs: "xs = ys @ [e]" using i by (cases xs rule: rev_cases) auto
  have iy: "i < length ys" using i xs by simp
  have rep: "hm.rep HashKey (hashmap q) (idx xs)" and d: "distinct (map pq_value xs)" using r by (auto simp: pq_rep_def)
  have nth: "min_heap q ! i = ys ! i" "min_heap q ! length ys = e"
    using pq_rep_nth [OF r] iy by (simp_all add: xs nth_append)
  have dom: "pq_value (ys ! i) \<in> dom (idx xs)" "pq_value e \<in> dom ((idx xs)(pq_value (ys ! i) := None))"
    using d iy by (auto simp: dom_idx xs)
  obtain m1 where m1: "RemoveMapEntry q (pq_value (ys ! i)) = Some (q\<lparr>hashmap := m1\<rparr>)"
      "hm.rep HashKey m1 ((idx xs)(pq_value (ys ! i) := None))"
      "hm_capacity m1 \<le> 2 ^ 30 \<longleftrightarrow> hm_capacity (hashmap q) \<le> 2 ^ 30"
    by (rule RemoveMapEntry_rep [OF rep dom(1)])
  have m1': "hm.rep HashKey (hashmap (q\<lparr>hashmap := m1\<rparr>)) ((idx xs)(pq_value (ys ! i) := None))" using m1(2) by simp
  obtain m2 where m2: "SetMapEntry (q\<lparr>hashmap := m1\<rparr>) (pq_value e) i = Some (q\<lparr>hashmap := m2\<rparr>)"
      "hm.rep HashKey m2 ((idx xs)(pq_value (ys ! i) := None, pq_value e \<mapsto> of_nat i))"
      "hm_capacity m2 \<le> 2 ^ 30 \<longleftrightarrow> hm_capacity m1 \<le> 2 ^ 30"
    using SetMapEntry_present [OF m1' dom(2), of i] by auto
  let ?q = "q\<lparr>min_heap := (min_heap q)[i := e], hashmap := m2\<rparr>"
  have R: "pq_Replace q i (length xs - 1) = Some ?q"
    using m1(1) m2(1) nth by (simp add: pq_Replace_def xs)
  have dr: "dropped xs i = ys[i := e]" using iy by (simp add: dropped_def xs)
  have ty: "take (length ys) (min_heap q) = ys"
    using r unfolding pq_rep_def xs by (metis append_eq_conv_conj length_append_singleton take_take min.commute min_def le_SucI order_refl)
  have "distinct (map pq_value (ys[i := e]))"
    using d unfolding xs by (rule distinct_replaced)
  then have "pq_rep ?q (dropped xs i)"
    using r m2(2) ty idx_dropped [of ys e i] d iy unfolding dr by (simp add: pq_rep_def xs take_update_swap)
  then show ?thesis using that [OF R] m1(3) m2(3) by (simp add: frame_def)
qed

lemma pq_rep_size: "pq_rep (q\<lparr>pq_size := n\<rparr>) xs = pq_rep q xs"
  by (simp add: pq_rep_def)

lemma down_inv_dropped:
  assumes h: "heap_ordered (length xs) (prio xs)" and i: "Suc i < length xs"
    and up: "0 < i \<Longrightarrow> prio xs (parent_of i) \<le> prio xs (length xs - 1)"
  shows "down_inv (length xs - 1) (prio (dropped xs i)) i"
proof -
  let ?n = "length xs - 1" and ?ys = "dropped xs i"
  have xs: "xs \<noteq> []" using i by auto
  have nth: "?ys ! k = (if k = i then xs ! ?n else xs ! k)" if "k < ?n" for k
    using that i last_conv_nth [of xs] xs by (auto simp: dropped_def nth_butlast nth_list_update)
  have ho: "prio xs (parent_of k) \<le> prio xs k" if "k < length xs" "0 < k" for k
    using h that by (simp add: heap_ordered_def)
  have "prio ?ys (parent_of k) \<le> prio ?ys k" if "k < ?n" "0 < k" "parent_of k \<noteq> i" for k
    using that nth [of k] nth [of "parent_of k"] ho [of k] up by (auto split: if_splits)
  moreover have "prio ?ys (parent_of i) \<le> prio ?ys k" if k: "k < ?n" "0 < k" "parent_of k = i" "0 < i" for k
  proof -
    have "k \<noteq> i" "parent_of i < ?n" "parent_of i \<noteq> i" "k < length xs" using k i by auto
    moreover have "prio xs (parent_of i) \<le> prio xs i" "prio xs i \<le> prio xs k"
      using ho [of i] ho [of k] k i by auto
    ultimately show ?thesis using nth [of k] nth [of "parent_of i"] k by simp
  qed
  ultimately show ?thesis unfolding down_inv_def below_parent_def by blast
qed

lemma RemoveAt_rep:
  assumes c: "pq_consistent q" and i: "i < pq_size q"
  shows "\<exists>q'. RemoveAt q i = Some q' \<and> pq_consistent q' \<and> entries q' = entries q - {#min_heap q ! i#}
    \<and> pq_size q' = pq_size q - 1
    \<and> (heap_ordered (pq_size q) (prio (min_heap q)) \<longrightarrow>
       (0 < i \<longrightarrow> prio (min_heap q) (parent_of i) \<le> prio (min_heap q) (pq_size q - 1)) \<longrightarrow> pq_wf q')"
proof -
  obtain xs where xs: "pq_rep q xs" "pq_size q = length xs" and k: "\<exists>k\<ge>4. min_heap_size q = 2 ^ k"
    using pq_consistentD [OF c] by metis
  have ix: "i < length xs" using i xs(2) by simp
  have nth: "min_heap q ! j = xs ! j" if "j < length xs" for j using pq_rep_nth [OF xs(1) that] .
  have ent: "entries q = mset xs" using pq_rep_consistent(2) [OF xs k] .
  have ho: "heap_ordered (pq_size q) (prio (min_heap q)) \<longleftrightarrow> heap_ordered (length xs) (prio xs)"
    unfolding xs(2) by (rule heap_ordered_cong) (simp add: nth)
  let ?q = "q\<lparr>pq_size := pq_size q - 1\<rparr>" and ?ok = "0 < i \<longrightarrow> prio xs (parent_of i) \<le> prio xs (length xs - 1)"
  have rq: "pq_rep ?q xs" using xs(1) by (simp add: pq_rep_size)
  have "\<exists>q1 ys. (if i = pq_size ?q then RemoveMapEntry ?q (pq_value (min_heap ?q ! i))
        else do { q' \<leftarrow> pq_Replace ?q i (pq_size ?q); BubbleDown q' i }) = Some q1
      \<and> pq_rep q1 ys \<and> pq_size q1 = length ys \<and> min_heap_size q1 = min_heap_size q \<and> mset ys = mset (dropped xs i)
      \<and> (heap_ordered (length xs) (prio xs) \<longrightarrow> ?ok \<longrightarrow> heap_ordered (length ys) (prio ys))"
  proof (cases "i = length xs - 1")
    case True
    obtain ys e where xse: "xs = ys @ [e]" using ix by (cases xs rule: rev_cases) auto
    have d: "distinct (map pq_value (ys @ [e]))" using xs(1) xse by (simp add: pq_rep_def)
    have e: "min_heap q ! i = e" using True ix nth xse by (simp add: nth_append)
    have rep: "hm.rep HashKey (hashmap ?q) (idx xs)" using rq by (simp add: pq_rep_def)
    have "pq_value e \<in> dom (idx xs)" by (simp add: dom_idx xse)
    then obtain m where m: "RemoveMapEntry ?q (pq_value e) = Some (?q\<lparr>hashmap := m\<rparr>)"
        "hm.rep HashKey m ((idx xs)(pq_value e := None))" using RemoveMapEntry_rep [OF rep] by blast
    have t: "take (length ys) (min_heap q) = ys"
      using xs(1) unfolding pq_rep_def xse by (metis append_eq_conv_conj length_append_singleton take_take min.commute min_def le_SucI order_refl)
    have "pq_rep (?q\<lparr>hashmap := m\<rparr>) ys" using xs(1) m(2) d t idx_butlast [OF d] by (auto simp: pq_rep_def xse)
    moreover have "dropped xs i = ys" using True by (simp add: dropped_def xse)
    moreover have "heap_ordered (length xs) (prio xs) \<longrightarrow> heap_ordered (length ys) (prio ys)"
      by (auto simp: heap_ordered_def xse nth_append)
    ultimately show ?thesis using True m(1) e xs(2)
      by (intro exI [of _ "?q\<lparr>hashmap := m\<rparr>"] exI [of _ ys]) (simp add: xse)
  next
    case False
    then have si: "Suc i < length xs" using ix by auto
    obtain q1 where q1: "pq_Replace ?q i (length xs - 1) = Some q1" "pq_rep q1 (dropped xs i)" "frame ?q q1"
      using pq_Replace_rep [OF rq si] .
    have sz: "pq_size q1 = length (dropped xs i)" "i < length (dropped xs i)" "min_heap_size q1 = min_heap_size q"
      using q1(3) xs(2) si by (auto simp: frame_def)
    obtain q2 ys where q2: "BubbleDown q1 i = Some q2" "pq_rep q2 ys" "frame q1 q2" "mset ys = mset (dropped xs i)"
        "down_inv (length (dropped xs i)) (prio (dropped xs i)) i \<longrightarrow> heap_ordered (length (dropped xs i)) (prio ys)"
      using BubbleDown_rep [OF q1(2) sz(1,2)] by blast
    have len: "length ys = length (dropped xs i)" using mset_eq_length [OF q2(4)] .
    have "heap_ordered (length ys) (prio ys)" if "heap_ordered (length xs) (prio xs)" ?ok
      using down_inv_dropped [OF that(1) si] that(2) q2(5) len by simp
    then show ?thesis using q1(1) q2(1-4) sz False len xs(2) by (intro exI [of _ q2] exI [of _ ys]) (simp add: frame_def)
  qed
  then obtain q1 ys where q1: "(if i = pq_size ?q then RemoveMapEntry ?q (pq_value (min_heap ?q ! i))
        else do { q' \<leftarrow> pq_Replace ?q i (pq_size ?q); BubbleDown q' i }) = Some q1"
      "pq_rep q1 ys" "pq_size q1 = length ys" "min_heap_size q1 = min_heap_size q" "mset ys = mset (dropped xs i)"
      "heap_ordered (length xs) (prio xs) \<longrightarrow> ?ok \<longrightarrow> heap_ordered (length ys) (prio ys)" by blast
  let ?c = "pq_size q1 \<le> min_heap_size q1 div 4 \<and> kMinimumSize \<le> min_heap_size q1 div 2"
  have "\<exists>q2. (if ?c then pq_Resize q1 (min_heap_size q1 div 2) else Some q1) = Some q2
      \<and> pq_rep q2 ys \<and> pq_size q2 = length ys \<and> (\<exists>k\<ge>4. min_heap_size q2 = 2 ^ k)"
  proof (cases ?c)
    case True
    obtain k where k': "k \<ge> 4" "min_heap_size q1 = 2 ^ k" using k q1(4) by auto
    then obtain k1 where k1: "k = Suc k1" by (cases k) auto
    then have h: "min_heap_size q1 div 2 = 2 ^ k1" "k1 \<ge> 4"
      using k' True power_le_imp_le_exp [of "2::nat" 4 k1] by (auto simp: kMinimumSize_def)
    have "pq_size q1 < min_heap_size q1 div 2" "min_heap_size q1 div 2 \<noteq> min_heap_size q1"
      using True unfolding kMinimumSize_def by linarith+
    then obtain q2 where "pq_Resize q1 (min_heap_size q1 div 2) = Some q2" "pq_rep q2 ys" "pq_size q2 = pq_size q1"
        "min_heap_size q2 = min_heap_size q1 div 2" using pq_Resize_rep [OF q1(2)] q1(3) by (metis less_imp_le)
    then show ?thesis using True h q1(3) by auto
  next
    case False
    then show ?thesis using q1(2,3,4) k by auto
  qed
  then obtain q2 where q2: "(if ?c then pq_Resize q1 (min_heap_size q1 div 2) else Some q1) = Some q2"
      "pq_rep q2 ys" "pq_size q2 = length ys" "\<exists>k\<ge>4. min_heap_size q2 = 2 ^ k" by blast
  have R: "RemoveAt q i = Some q2"
    unfolding RemoveAt_def Let_def q1(1) using i q2(1) by simp
  have len: "length ys = length xs - 1" using mset_eq_length [OF q1(5)] by simp
  note p = pq_rep_consistent [OF q2(2-4)]
  have pr: "parent_of i < length xs" "length xs - 1 < length xs" using ix by auto
  show ?thesis
    using R p q1(5,6) mset_dropped [OF ix] ent nth [OF ix] nth [OF pr(1)] nth [OF pr(2)] len xs(2) q2(3) ho
    by (intro exI [of _ q2]) simp
qed

lemma new_PriorityQueue_wf:
  obtains q where "new_PriorityQueue = Some q" "pq_wf q" "entries q = {#}" "hm_capacity (hashmap q) = 16" "pq_size q = 0"
proof -
  have M: "MatchFun = SamePointerValue" by (simp add: fun_eq_iff MatchFun_def SamePointerValue_def)
  obtain m where m: "new_SimpleHashMap SamePointerValue (2 ^ 4) = Some m" "hm.rep HashKey m Map.empty"
      "hm_capacity m = 2 ^ 4" by (rule new_SimpleHashMap_rep [of 4]) simp_all
  let ?q = "\<lparr>min_heap = replicate kMinimumSize junk_entry, min_heap_size = kMinimumSize, pq_size = 0, hashmap = m\<rparr>"
  have N: "new_PriorityQueue = Some ?q" using m(1) by (simp add: new_PriorityQueue_def M kMinimumSize_def)
  have "idx [] = Map.empty" by (simp add: idx_def)
  then have r: "pq_rep ?q []" using m(2) by (simp add: pq_rep_def)
  have "(16::nat) = 2 ^ 4" by simp
  then have "\<exists>k\<ge>4. min_heap_size ?q = 2 ^ k" unfolding kMinimumSize_def by (intro exI [of _ 4]) simp
  from pq_rep_consistent [OF r _ this] show ?thesis using that [OF N] m(3) by (simp add: heap_ordered_def)
qed

lemma idx_offset:
  assumes "pq_consistent q" "v \<noteq> NULL"
  shows "case FindMapEntry q v of
      None \<Rightarrow> v \<notin> pq_value ` set_mset (entries q)
    | Some w \<Rightarrow> unat w < pq_size q \<and> pq_value (min_heap q ! unat w) = v"
proof -
  obtain xs where xs: "pq_rep q xs" "pq_size q = length xs" and k: "\<exists>k\<ge>4. min_heap_size q = 2 ^ k"
    using pq_consistentD [OF assms(1)] by metis
  have d: "distinct (map pq_value xs)" using xs(1) by (simp add: pq_rep_def)
  have f: "FindMapEntry q v = idx xs v" using FindMapEntry_rep [OF xs(1) assms(2)] .
  have ent: "entries q = mset xs" using pq_rep_consistent(2) [OF xs k] .
  show ?thesis
  proof (cases "idx xs v")
    case None
    then have "v \<notin> dom (idx xs)" by (simp add: domIff)
    then show ?thesis using None f ent by (simp add: dom_idx)
  next
    case (Some w)
    then obtain i where i: "i < length xs" "pq_value (xs ! i) = v" "w = of_nat i" using idx_Some_iff [OF d] by blast
    have "length xs < 2 ^ 31" using pq_rep_length [OF xs(1)] .
    then have "unat w = i" using i(1,3) of_nat_inverse [of i w] by simp
    then show ?thesis using Some f i xs(2) pq_rep_nth [OF xs(1) i(1)] by simp
  qed
qed

text \<open>Overwriting the priority of one entry.\<close>

lemma change_priority_rep:
  fixes p :: u64
  assumes c: "pq_consistent q" and i: "i < pq_size q"
  defines "q' \<equiv> q\<lparr>min_heap := (min_heap q)[i := (min_heap q ! i)\<lparr>priority := p\<rparr>]\<rparr>"
  obtains xs where "pq_rep q xs" "pq_size q = length xs" "\<exists>k\<ge>4. min_heap_size q = 2 ^ k"
    "pq_rep q' (xs[i := (xs ! i)\<lparr>priority := p\<rparr>])" "pq_size q' = length xs" "\<exists>k\<ge>4. min_heap_size q' = 2 ^ k"
proof -
  obtain xs where xs: "pq_rep q xs" "pq_size q = length xs" and k: "\<exists>k\<ge>4. min_heap_size q = 2 ^ k"
    using pq_consistentD [OF c] by metis
  let ?ys = "xs[i := (xs ! i)\<lparr>priority := p\<rparr>]"
  have v: "map pq_value ?ys = map pq_value xs"
    using i xs(2) by (simp add: map_update) (metis list_update_id nth_map)
  then have "idx ?ys = idx xs" by (simp add: idx_def)
  moreover have "take (length xs) (min_heap q') = ?ys"
    using xs(1) pq_rep_nth [OF xs(1)] i xs(2) by (simp add: q'_def pq_rep_def take_update_swap)
  ultimately have "pq_rep q' ?ys" using xs(1) v by (simp add: pq_rep_def q'_def)
  then show ?thesis using that [OF xs k] xs(2) k by (simp add: q'_def)
qed

lemma changed_up:
  fixes p :: u64
  assumes h: "heap_ordered (length xs) (prio xs)" and i: "i < length xs"
  defines "ys \<equiv> xs[i := (xs ! i)\<lparr>priority := p\<rparr>]"
  shows "0 < i \<Longrightarrow> sint p \<le> prio xs (parent_of i) \<Longrightarrow> up_inv (length xs) (prio ys) i"
    and "(0 < i \<Longrightarrow> prio xs (parent_of i) \<le> sint p) \<Longrightarrow> down_inv (length xs) (prio ys) i"
proof -
  have y: "prio ys k = (if k = i then sint p else prio xs k)" for k using i by (simp add: ys_def nth_list_update)
  have ho: "prio xs (parent_of k) \<le> prio xs k" if "k < length xs" "0 < k" for k
    using h that by (simp add: heap_ordered_def)
  have b: "below_parent (length xs) (prio ys) i"
    unfolding below_parent_def
  proof (intro allI impI)
    fix k assume k: "k < length xs" "0 < k" "parent_of k = i" "0 < i"
    then have "k \<noteq> i" "parent_of i \<noteq> i" by auto
    then show "prio ys (parent_of i) \<le> prio ys k"
      using heap_ordered_below [OF h i] k unfolding below_parent_def by (simp add: y)
  qed
  show "up_inv (length xs) (prio ys) i" if "0 < i" "sint p \<le> prio xs (parent_of i)"
  proof -
    have "prio ys (parent_of k) \<le> prio ys k" if k: "k < length xs" "0 < k" "k \<noteq> i" for k
      using ho [OF k(1,2)] ho [OF i \<open>0 < i\<close>] \<open>sint p \<le> _\<close> k(3) by (auto simp: y)
    then show ?thesis using b unfolding up_inv_def by blast
  qed
  show "down_inv (length xs) (prio ys) i" if "0 < i \<Longrightarrow> prio xs (parent_of i) \<le> sint p"
  proof -
    have "prio ys (parent_of k) \<le> prio ys k" if k: "k < length xs" "0 < k" "parent_of k \<noteq> i" for k
      using ho [OF k(1,2)] \<open>0 < i \<Longrightarrow> _\<close> k by (auto simp: y)
    then show ?thesis using b unfolding down_inv_def by blast
  qed
qed

lemma sint_diff:
  fixes a b :: u64
  assumes "0 \<le> sint a" "0 \<le> sint b"
  shows "sint (a - b) = sint a - sint b"
  using assms sint_lt [of a] sint_lt [of b] by (simp add: sint_word_ariths signed_take_bit_int_eq_self)

lemma removed_entries:
  assumes "pq_consistent q" "i < pq_size q" "pq_value (min_heap q ! i) = v"
  shows "v \<in> pq_value ` set_mset (entries q)"
    "entries q - {#min_heap q ! i#} = filter_mset (\<lambda>e. pq_value e \<noteq> v) (entries q)"
proof -
  obtain xs where xs: "pq_rep q xs" "pq_size q = length xs" and k: "\<exists>k\<ge>4. min_heap_size q = 2 ^ k"
    using pq_consistentD [OF assms(1)] by metis
  have ent: "entries q = mset xs" using pq_rep_consistent(2) [OF xs k] .
  have d: "distinct (map pq_value xs)" using xs(1) by (simp add: pq_rep_def)
  have i: "i < length xs" and e: "min_heap q ! i = xs ! i" using assms(2) xs pq_rep_nth by auto
  then show "v \<in> pq_value ` set_mset (entries q)" using ent assms(3) by auto
  have ne: "\<forall>x\<in>set (take i xs) \<union> set (drop (Suc i) xs). pq_value x \<noteq> v"
  proof -
    have "distinct (map pq_value (take i xs @ xs ! i # drop (Suc i) xs))" using d i by (simp add: id_take_nth_drop [symmetric])
    then show ?thesis using assms(3) e by (auto simp: image_iff)
  qed
  have m: "mset xs = add_mset (xs ! i) (mset (take i xs) + mset (drop (Suc i) xs))"
    using arg_cong [OF id_take_nth_drop [OF i], of mset] by simp
  have "filter_mset (\<lambda>e. pq_value e \<noteq> v) (mset (take i xs) + mset (drop (Suc i) xs))
      = mset (take i xs) + mset (drop (Suc i) xs)"
    using ne by (intro filter_mset_eq_conv [THEN iffD2]) auto
  then show "entries q - {#min_heap q ! i#} = filter_mset (\<lambda>e. pq_value e \<noteq> v) (entries q)"
    using assms(3) e unfolding ent m by simp
qed

lemma consistent_size:
  assumes "pq_consistent q"
  shows "hm_occupancy (hashmap q) = pq_size q"
proof -
  obtain xs where xs: "pq_rep q xs" "pq_size q = length xs" using pq_consistentD [OF assms] by metis
  then have "hm.rep HashKey (hashmap q) (idx xs)" "distinct (map pq_value xs)" by (auto simp: pq_rep_def)
  then show ?thesis using hm.rep_cnt [of HashKey "hashmap q" "idx xs"] distinct_card [of "map pq_value xs"] xs(2)
    by (simp add: dom_idx)
qed

lemma changed_entry:
  assumes wf: "pq_wf q" and f: "FindMapEntry q v = Some w" and i: "unat w < pq_size q"
    and p: "0 \<le>s p" and pos: "\<forall>e\<in>#entries q. 0 \<le>s priority e"
  shows "\<exists>q'. InsertOrChangePriority q p v = Some (q', False) \<and> pq_wf q'
    \<and> entries q' = add_mset ((min_heap q ! unat w)\<lparr>priority := p\<rparr>) (entries q - {#min_heap q ! unat w#})"
proof -
  let ?i = "unat w"
  let ?q = "q\<lparr>min_heap := (min_heap q)[?i := (min_heap q ! ?i)\<lparr>priority := p\<rparr>]\<rparr>"
  have c: "pq_consistent q" using wf by (simp add: pq_wf_def)
  obtain xs where xs: "pq_rep q xs" "pq_size q = length xs" "\<exists>k\<ge>4. min_heap_size q = 2 ^ k"
    and r: "pq_rep ?q (xs[?i := (xs ! ?i)\<lparr>priority := p\<rparr>])" "pq_size ?q = length xs" "\<exists>k\<ge>4. min_heap_size ?q = 2 ^ k"
    by (rule change_priority_rep [OF c i, of p])
  let ?ys = "xs[?i := (xs ! ?i)\<lparr>priority := p\<rparr>]"
  have ix: "?i < length xs" using i xs(2) by simp
  have ho: "heap_ordered (length xs) (prio xs)" and ent: "entries q = mset xs"
    using wf pq_rep_consistent [OF xs] by auto
  have e: "min_heap q ! ?i = xs ! ?i" using pq_rep_nth [OF xs(1) ix] .
  have ly: "?i < length ?ys" "pq_size ?q = length ?ys" using ix r(2) by simp_all
  note ch = changed_up [OF ho ix, of p]
  have y: "prio ?ys k = (if k = ?i then sint p else prio xs k)" for k using ix by (simp add: nth_list_update)
  have nn: "0 \<le> sint p" "k < length xs \<Longrightarrow> 0 \<le> prio xs k" for k using p pos ent by (auto simp: word_sle_eq)
  let ?r = "if ?i = 0 then BubbleDown ?q ?i
     else if priority (?ys ! ?i) - priority (?ys ! parent_of ?i) <s 0 then BubbleUp ?q ?i
     else if 0 <s priority (?ys ! ?i) - priority (?ys ! parent_of ?i) then BubbleDown ?q ?i else Some ?q"
  have par: "parent_of ?i < length ?ys" using ix by auto
  have I: "InsertOrChangePriority q p v = map_option (\<lambda>q. (q, False)) ?r"
    using f i pq_rep_nth [OF r(1) ly(1)] pq_rep_nth [OF r(1) par]
    by (simp add: InsertOrChangePriority_def Let_def)
  have diff: "sint (priority (?ys ! ?i) - priority (?ys ! parent_of ?i)) = sint p - prio xs (parent_of ?i)" if "0 < ?i"
  proof -
    have "parent_of ?i \<noteq> ?i" "parent_of ?i < length xs" using that ix by auto
    then show ?thesis using ix nn by (simp add: sint_diff)
  qed
  have "\<exists>q' zs. ?r = Some q' \<and> pq_rep q' zs \<and> frame ?q q' \<and> mset zs = mset ?ys \<and> heap_ordered (length xs) (prio zs)"
  proof -
    consider (down) "0 < ?i \<longrightarrow> prio xs (parent_of ?i) < sint p" | (up) "0 < ?i" "sint p < prio xs (parent_of ?i)"
      | (eq) "0 < ?i" "sint p = prio xs (parent_of ?i)" by linarith
    then show ?thesis
    proof cases
      case down
      then have "down_inv (length ?ys) (prio ?ys) ?i" using ch(2) by (simp add: less_imp_le)
      moreover have "?r = BubbleDown ?q ?i" using down diff by (auto simp: word_sless_alt)
      ultimately show ?thesis using BubbleDown_rep [OF r(1) ly(2,1)] by auto
    next
      case up
      then have "up_inv (length ?ys) (prio ?ys) ?i" using ch(1) by simp
      moreover have "?r = BubbleUp ?q ?i" using up diff by (auto simp: word_sless_alt)
      ultimately show ?thesis using BubbleUp_rep [OF r(1) ly(1)] by auto
    next
      case eq
      then have d: "down_inv (length ?ys) (prio ?ys) ?i" and u: "up_inv (length ?ys) (prio ?ys) ?i"
        using ch by simp_all
      have "heap_ordered (length ?ys) (prio ?ys)"
        using u eq y parent_less [OF eq(1)] unfolding heap_ordered_def up_inv_def by auto
      moreover have "?r = Some ?q" using eq diff by (auto simp: word_sless_alt)
      ultimately show ?thesis using r(1) frame_refl by auto
    qed
  qed
  then obtain q' zs where q': "?r = Some q'" "pq_rep q' zs" "frame ?q q'" "mset zs = mset ?ys" "heap_ordered (length xs) (prio zs)"
    by blast
  have lz: "length zs = length xs" using mset_eq_length [OF q'(4)] by simp
  have "pq_size q' = length zs" "\<exists>k\<ge>4. min_heap_size q' = 2 ^ k" using q'(3) r(2,3) lz by (auto simp: frame_def)
  note k = pq_rep_consistent [OF q'(2) this]
  have "mset ?ys = add_mset ((xs ! ?i)\<lparr>priority := p\<rparr>) (mset xs - {#xs ! ?i#})" using ix by (simp add: mset_update)
  then show ?thesis using I q'(1,4,5) k lz e ent by (intro exI [of _ q']) simp
qed

declare Probe_loop.simps [code] Remove_loop.simps [code] BubbleDown.simps [code]

definition stale_minimum_run :: "(pq_entry \<times> pq_entry list) option" where
  "stale_minimum_run =
     do {
       q \<leftarrow> new_PriorityQueue;
       q \<leftarrow> pq_Insert q 6 1;
       q \<leftarrow> pq_Insert q 16 2;
       q \<leftarrow> pq_Insert q 10 3;
       q \<leftarrow> pq_Insert q 19 4;
       q \<leftarrow> pq_Insert q 15 5;
       q \<leftarrow> pq_Insert q 18 6;
       q \<leftarrow> pq_Insert q 5 7;
       (q, _) \<leftarrow> RemoveByValue q 4;
       q \<leftarrow> RemoveMinimum q;
       q \<leftarrow> RemoveMinimum q;
       e \<leftarrow> Minimum q;
       Some (e, take (pq_size q) (min_heap q))
     }"

section \<open>Properties\<close>

lemma sample_queue:
  obtains q q1 where "new_PriorityQueue = Some q" "pq_wf q" "entries q = {#}" "\<not> ContainsValue q 7"
    "hm_capacity (hashmap q) \<le> 2 ^ 30"
    "pq_Insert q 30 7 = Some q1" "pq_wf q1" "entries q1 = {#\<lparr>priority = 30, pq_value = 7\<rparr>#}"
    "hm_capacity (hashmap q1) \<le> 2 ^ 30"
proof -
  obtain q where q: "new_PriorityQueue = Some q" "pq_wf q" "entries q = {#}" "hm_capacity (hashmap q) = 16" "pq_size q = 0"
    by (rule new_PriorityQueue_wf)
  have n: "\<not> ContainsValue q 7"
    using idx_offset [of q 7] q(2,5) by (auto simp: pq_wf_def ContainsValue_def split: option.splits)
  have c: "hm_capacity (hashmap q) \<le> 2 ^ 30" and k: "7 \<noteq> NULL" using q(4) by simp_all
  obtain q1 where q1: "pq_Insert q 30 7 = Some q1" "pq_wf q1" "entries q1 = add_mset \<lparr>priority = 30, pq_value = 7\<rparr> (entries q)"
    using pq_Insert_rep [OF q(2) k n c, of 30] by blast
  have "map_option (\<lambda>q. hm_capacity (hashmap q)) (new_PriorityQueue \<bind> (\<lambda>q. pq_Insert q 30 7)) = Some 16"
    by code_simp
  then have "hm_capacity (hashmap q1) \<le> 2 ^ 30" by (simp add: q(1) q1(1))
  then show ?thesis using that [of q q1] q(1-3) n c q1 by simp
qed

text \<open>
  C24. \<open>Insert\<close> of a value that the queue does not hold succeeds, growing the array when it is
  full.  It adds exactly that entry, keeps the heap order, and keeps the hash map equal to the
  offsets of the values in the array.
\<close>

theorem pq_Insert_correct:
  assumes "pq_wf q" "v \<noteq> NULL" "\<not> ContainsValue q v" "hm_capacity (hashmap q) \<le> 2 ^ 30"
  shows "\<exists>q'. pq_Insert q p v = Some q' \<and> pq_wf q'
    \<and> entries q' = add_mset \<lparr>priority = p, pq_value = v\<rparr> (entries q)"
  using assms by (rule pq_Insert_rep)

theorem pq_Insert_correct_witness:
  "\<exists>q q'. new_PriorityQueue = Some q \<and> pq_Insert q 30 7 = Some q' \<and> pq_wf q'
     \<and> entries q' = {#\<lparr>priority = 30, pq_value = 7\<rparr>#}"
  by (rule sample_queue) (use pq_Insert_correct [of _ 7 30] in auto)

text \<open>
  C15. On a non-empty queue \<open>Minimum\<close> returns an entry whose priority is least, and
  \<open>RemoveMinimum\<close> removes exactly that entry and keeps the queue well formed, whether or not it
  shrinks the array.
\<close>

theorem Minimum_RemoveMinimum_correct:
  assumes "pq_wf q" "\<not> IsEmpty q"
  shows "\<exists>e q'. Minimum q = Some e \<and> e \<in># entries q \<and> (\<forall>x\<in>#entries q. priority e \<le>s priority x)
    \<and> RemoveMinimum q = Some q' \<and> pq_wf q' \<and> entries q' = entries q - {#e#}"
proof -
  have n: "0 < pq_size q" using assms(2) by (simp add: IsEmpty_def)
  have c: "pq_consistent q" and h: "heap_ordered (pq_size q) (prio (min_heap q))" using assms(1) by (auto simp: pq_wf_def)
  have len: "pq_size q \<le> length (min_heap q)" using c by (auto simp: pq_consistent_def pq_rep_def)
  let ?e = "min_heap q ! 0"
  have "?e \<in># entries q" using n len by (auto simp: entries_def in_set_conv_nth)
  moreover have "priority ?e \<le>s priority x" if "x \<in># entries q" for x
    using that heap_ordered_min [OF h] len by (auto simp: entries_def in_set_conv_nth word_sle_eq)
  moreover obtain q' where "RemoveAt q 0 = Some q'" "pq_wf q'" "entries q' = entries q - {#?e#}"
    using RemoveAt_rep [OF c n] h by auto
  ultimately show ?thesis using assms(2) by (auto simp: Minimum_def RemoveMinimum_def)
qed

theorem Minimum_RemoveMinimum_correct_witness:
  "\<exists>q q1 e q'. new_PriorityQueue = Some q \<and> pq_Insert q 30 7 = Some q1 \<and> Minimum q1 = Some e
     \<and> priority e = 30 \<and> RemoveMinimum q1 = Some q' \<and> entries q' = {#}"
proof (rule sample_queue)
  fix q q1 assume q: "new_PriorityQueue = Some q" and q1: "pq_Insert q 30 7 = Some q1" "pq_wf q1"
    "entries q1 = {#\<lparr>priority = 30, pq_value = 7\<rparr>#}"
  have "\<not> IsEmpty q1" using q1(3) by (cases "pq_size q1") (simp_all add: IsEmpty_def entries_def)
  then show ?thesis using Minimum_RemoveMinimum_correct [OF q1(2)] q q1(1,3) by auto
qed

text \<open>
  C26. \<open>RemoveByValue\<close> returns false and changes nothing when no entry has the value.  Otherwise
  it removes exactly the entry with that value, its assertion on the sizes holds, and the hash map
  still gives the offset of every value.
\<close>

theorem RemoveByValue_consistent:
  assumes "pq_consistent q" "v \<noteq> NULL"
  shows "\<exists>q' b. RemoveByValue q v = Some (q', b) \<and> pq_consistent q'
    \<and> (b \<longleftrightarrow> v \<in> pq_value ` set_mset (entries q))
    \<and> entries q' = filter_mset (\<lambda>e. pq_value e \<noteq> v) (entries q)"
proof (cases "FindMapEntry q v")
  case None
  then have "v \<notin> pq_value ` set_mset (entries q)" using idx_offset [OF assms] by simp
  moreover then have "filter_mset (\<lambda>e. pq_value e \<noteq> v) (entries q) = entries q"
    by (intro filter_mset_eq_conv [THEN iffD2]) auto
  ultimately show ?thesis
    using None assms(1) by (intro exI [of _ q] exI [of _ False]) (simp add: RemoveByValue_def)
next
  case (Some w)
  then have w: "unat w < pq_size q" "pq_value (min_heap q ! unat w) = v" using idx_offset [OF assms] by simp_all
  obtain q' where q': "RemoveAt q (unat w) = Some q'" "pq_consistent q'"
      "entries q' = entries q - {#min_heap q ! unat w#}" "pq_size q' = pq_size q - 1"
    using RemoveAt_rep [OF assms(1) w(1)] by blast
  show ?thesis
    using removed_entries [OF assms(1) w] consistent_size [OF q'(2)] q' Some
    by (intro exI [of _ q'] exI [of _ True]) (simp add: RemoveByValue_def)
qed

theorem RemoveByValue_consistent_witness:
  "\<exists>q q1 q'. new_PriorityQueue = Some q \<and> pq_Insert q 30 7 = Some q1
     \<and> RemoveByValue q1 7 = Some (q', True) \<and> entries q' = {#}"
proof (rule sample_queue)
  fix q q1 assume q: "new_PriorityQueue = Some q" and q1: "pq_Insert q 30 7 = Some q1" "pq_wf q1"
    "entries q1 = {#\<lparr>priority = 30, pq_value = 7\<rparr>#}"
  then show ?thesis using RemoveByValue_consistent [of q1 7] by (auto simp: pq_wf_def)
qed

text \<open>
  \<open>RemoveByValue\<close> can break the heap order: the entry that takes the freed place is only
  moved down, never up.  After seven insertions, one \<open>RemoveByValue\<close> and two
  \<open>RemoveMinimum\<close>, \<open>Minimum\<close> returns the entry with priority 15 while the queue holds one with
  priority 10.
\<close>

lemma RemoveByValue_breaks_Minimum:
  "map_option (\<lambda>(e, es). (priority e, map priority es)) stale_minimum_run = Some (15, [15, 10, 18, 16])"
  by code_simp

text \<open>
  C25. \<open>InsertOrChangePriority\<close> returns true exactly when it added a new entry.  Otherwise it gives the
  entry of the value its new priority; both ways the queue stays well formed.  Priorities are non-negative,
  so that the difference the code computes does not overflow.
\<close>

theorem InsertOrChangePriority_correct:
  assumes "pq_wf q" "v \<noteq> NULL" "hm_capacity (hashmap q) \<le> 2 ^ 30"
    and "0 \<le>s p" "\<forall>e\<in>#entries q. 0 \<le>s priority e"
  shows "\<exists>q' b. InsertOrChangePriority q p v = Some (q', b) \<and> pq_wf q'
    \<and> (b \<longleftrightarrow> v \<notin> pq_value ` set_mset (entries q))
    \<and> entries q' = add_mset \<lparr>priority = p, pq_value = v\<rparr> (filter_mset (\<lambda>e. pq_value e \<noteq> v) (entries q))"
proof (cases "FindMapEntry q v")
  case None
  have c: "pq_consistent q" using assms(1) by (simp add: pq_wf_def)
  have nv: "v \<notin> pq_value ` set_mset (entries q)" using idx_offset [OF c assms(2)] None by simp
  then have f: "filter_mset (\<lambda>e. pq_value e \<noteq> v) (entries q) = entries q"
    by (intro filter_mset_eq_conv [THEN iffD2]) auto
  obtain q' where "pq_Insert q p v = Some q'" "pq_wf q'"
      "entries q' = add_mset \<lparr>priority = p, pq_value = v\<rparr> (entries q)"
    using pq_Insert_rep [OF assms(1,2) _ assms(3), of p] None by (auto simp: ContainsValue_def)
  then show ?thesis using None nv f by (intro exI [of _ q'] exI [of _ True]) (simp add: InsertOrChangePriority_def)
next
  case (Some w)
  have c: "pq_consistent q" using assms(1) by (simp add: pq_wf_def)
  have w: "unat w < pq_size q" "pq_value (min_heap q ! unat w) = v" using idx_offset [OF c assms(2)] Some by simp_all
  obtain q' where q': "InsertOrChangePriority q p v = Some (q', False)" "pq_wf q'"
    "entries q' = add_mset ((min_heap q ! unat w)\<lparr>priority := p\<rparr>) (entries q - {#min_heap q ! unat w#})"
    using changed_entry [OF assms(1) Some w(1) assms(4,5)] by blast
  have "(min_heap q ! unat w)\<lparr>priority := p\<rparr> = \<lparr>priority = p, pq_value = v\<rparr>"
    using w(2) by (cases "min_heap q ! unat w") simp
  then show ?thesis using q' removed_entries [OF c w] by (intro exI [of _ q'] exI [of _ False]) simp
qed

theorem InsertOrChangePriority_correct_witness:
  "\<exists>q q1 q'. new_PriorityQueue = Some q \<and> pq_Insert q 30 7 = Some q1 \<and> hm_capacity (hashmap q1) \<le> 2 ^ 30
     \<and> InsertOrChangePriority q1 20 7 = Some (q', False) \<and> entries q' = {#\<lparr>priority = 20, pq_value = 7\<rparr>#}"
proof (rule sample_queue)
  fix q q1 assume q: "new_PriorityQueue = Some q" and q1: "pq_Insert q 30 7 = Some q1" "pq_wf q1"
    "entries q1 = {#\<lparr>priority = 30, pq_value = 7\<rparr>#}" "hm_capacity (hashmap q1) \<le> 2 ^ 30"
  have "0 \<le>s (20::u64)" "\<forall>e\<in>#entries q1. 0 \<le>s priority e" "7 \<noteq> NULL" using q1(3) by (simp_all add: word_sle_eq)
  then show ?thesis using InsertOrChangePriority_correct [OF q1(2) _ q1(4), of 7 20] q q1 by auto
qed

end
