(* ===== verification/Platform_Arith.thy ===== *)
theory Platform_Arith
  imports Platform_Utils
begin

text \<open>
  The remaining arithmetic of \<^verbatim>\<open>Utils\<close> (\<^verbatim>\<open>runtime/platform/utils.h\<close>): saturating and wrapping
  operations, the overflow and range tests that guard them, field tests, rotations, masks and
  hexadecimal digits.  An operation with an \<^verbatim>\<open>ASSERT\<close> has the result \<open>None\<close> where it fails.
  \<^verbatim>\<open>int64_t\<close> and \<^verbatim>\<open>intptr_t\<close> values are 64-bit words read by \<open>sint\<close>.
\<close>

section \<open>Operations\<close>

definition kMaxInt64 :: u64 where "kMaxInt64 = 0x7FFFFFFFFFFFFFFF"
definition kMinInt64 :: u64 where "kMinInt64 = 0x8000000000000000"

definition AbsWithSaturation :: "u64 \<Rightarrow> u64" where
  "AbsWithSaturation x =
     (if x <s 0 then (if x = kMinInt64 then kMaxInt64 else - x) else x)"

definition CountOneBits32 :: "u32 \<Rightarrow> u32" where
  "CountOneBits32 x =
     (let x = x - (drop_bit 1 x AND 0x55555555);
          x = (x AND 0x33333333) + (drop_bit 2 x AND 0x33333333);
          x = (x + drop_bit 4 x) AND 0x0F0F0F0F;
          x = x + drop_bit 8 x;
          x = x + drop_bit 16 x
      in x AND 0x0000003F)"

definition CountOneBits64 :: "u64 \<Rightarrow> u32" where
  "CountOneBits64 x = CountOneBits32 (ucast x) + CountOneBits32 (ucast (drop_bit 32 x))"

definition IsInt :: "nat \<Rightarrow> u64 \<Rightarrow> bool option" where
  "IsInt N v =
     (if 0 < N \<and> N < 64
      then (let limit = push_bit (N - 1) 1 in Some (- limit \<le>s v \<and> v <s limit)) else None)"

definition IsUint :: "nat \<Rightarrow> u64 \<Rightarrow> bool option" where
  "IsUint N v =
     (if 0 < N \<and> N < 64
      then (let limit = push_bit N 1 - 1 in Some (0 \<le>s v \<and> v \<le> limit)) else None)"

definition IsAbsoluteUint :: "nat \<Rightarrow> u64 \<Rightarrow> bool option" where
  "IsAbsoluteUint N v =
     (if 0 < N \<and> N < 64 then IsUint N (if v <s 0 then - v else v) else None)"

definition Low16Bits :: "u32 \<Rightarrow> u32" where
  "Low16Bits v = v AND 0xFFFF"

definition High16Bits :: "u32 \<Rightarrow> u32" where
  "High16Bits v = signed_drop_bit 16 v"

definition Low32Bits :: "u64 \<Rightarrow> u32" where
  "Low32Bits v = ucast v"

definition High32Bits :: "u64 \<Rightarrow> u32" where
  "High32Bits v = ucast (signed_drop_bit 32 v)"

definition LowHighTo64Bits :: "u32 \<Rightarrow> u32 \<Rightarrow> u64" where
  "LowHighTo64Bits low high = push_bit 32 (scast high) OR (ucast low AND 0xFFFFFFFF)"

definition IsDecimalDigit :: "u32 \<Rightarrow> bool" where
  "IsDecimalDigit c \<longleftrightarrow> 48 \<le> c \<and> c \<le> 57"

definition IsAlphaNumeric :: "u32 \<Rightarrow> bool" where
  "IsAlphaNumeric c \<longleftrightarrow> (65 \<le> c \<and> c \<le> 90) \<or> (97 \<le> c \<and> c \<le> 122) \<or> IsDecimalDigit c"

text \<open>A \<^verbatim>\<open>char\<close> is a signed byte; it is widened with its sign where it becomes a \<^verbatim>\<open>uint32_t\<close> or an \<^verbatim>\<open>int\<close>.\<close>

definition IsHexDigit :: "u8 \<Rightarrow> bool" where
  "IsHexDigit c \<longleftrightarrow> IsDecimalDigit (scast c) \<or> (65 \<le>s c \<and> c \<le>s 70) \<or> (97 \<le>s c \<and> c \<le>s 102)"

definition HexDigitToInt :: "u8 \<Rightarrow> u32 option" where
  "HexDigitToInt c =
     (if \<not> IsHexDigit c then None
      else if IsDecimalDigit (scast c) then Some (scast c - 48)
      else if 65 \<le>s c \<and> c \<le>s 70 then Some (10 + (scast c - 65))
      else Some (10 + (scast c - 97)))"

definition IntToHexDigit :: "u32 \<Rightarrow> u8 option" where
  "IntToHexDigit i =
     (if 0 \<le>s i \<and> i <s 16
      then (if i <s 10 then Some (ucast (48 + i)) else Some (ucast (65 + (i - 10)))) else None)"

definition RangeCheck :: "u64 \<Rightarrow> u64 \<Rightarrow> u64 \<Rightarrow> bool" where
  "RangeCheck offset count len \<longleftrightarrow>
     0 \<le>s offset \<and> 0 \<le>s count \<and> 0 \<le>s len \<and> count \<le>s len - offset"

definition WillAddOverflow :: "u64 \<Rightarrow> u64 \<Rightarrow> bool" where
  "WillAddOverflow a b \<longleftrightarrow>
     (0 <s b \<and> kMaxInt64 - b <s a) \<or> (b <s 0 \<and> a <s kMinInt64 - b)"

definition WillSubOverflow :: "u64 \<Rightarrow> u64 \<Rightarrow> bool" where
  "WillSubOverflow a b \<longleftrightarrow>
     (0 <s b \<and> a <s kMinInt64 + b) \<or> (b <s 0 \<and> kMaxInt64 + b <s a)"

definition AddWithWrapAround :: "u64 \<Rightarrow> u64 \<Rightarrow> u64" where
  "AddWithWrapAround a b = a + b"

definition SubWithWrapAround :: "u64 \<Rightarrow> u64 \<Rightarrow> u64" where
  "SubWithWrapAround a b = a - b"

definition MulWithWrapAround :: "u64 \<Rightarrow> u64 \<Rightarrow> u64" where
  "MulWithWrapAround a b = a * b"

definition NegWithWrapAround :: "u64 \<Rightarrow> u64" where
  "NegWithWrapAround a = - a"

definition ShiftLeftWithTruncation :: "u64 \<Rightarrow> u64 \<Rightarrow> u64 option" where
  "ShiftLeftWithTruncation a b =
     (if 0 \<le>s b then (if 64 \<le>s b then Some 0 else Some (push_bit (unat b) a)) else None)"

text \<open>
  The rotations at an unsigned type of width \<open>LENGTH('a)\<close>.  Shifting by the whole width is undefined
  in C++, so a rotation by the width has the result \<open>None\<close>.
\<close>

definition RotateLeft :: "'a::len word \<Rightarrow> nat \<Rightarrow> 'a word option" where
  "RotateLeft v rot =
     (if rot < LENGTH('a)
      then Some (push_bit rot v OR drop_bit ((LENGTH('a) - rot) mod LENGTH('a)) v) else None)"

definition RotateRight :: "'a::len word \<Rightarrow> nat \<Rightarrow> 'a word option" where
  "RotateRight v rot =
     (if rot < LENGTH('a)
      then Some (drop_bit rot v OR push_bit ((LENGTH('a) - rot) mod LENGTH('a)) v) else None)"

definition IsJavascriptInt :: "u64 \<Rightarrow> bool" where
  "IsJavascriptInt v \<longleftrightarrow> - 0x20000000000000 \<le>s v \<and> v \<le>s 0x20000000000000"

definition NBitMaskUnsafe :: "nat \<Rightarrow> u64" where
  "NBitMaskUnsafe n = (if n = 64 then - 1 else push_bit n 1 - 1)"

definition NBitMask :: "nat \<Rightarrow> u64 option" where
  "NBitMask n = (if n \<le> 64 then Some (NBitMaskUnsafe n) else None)"

definition SignedNBitMask :: "nat \<Rightarrow> u64 option" where
  "SignedNBitMask n = NBitMask n"

definition Utils_Bit :: "nat \<Rightarrow> u64 option" where
  "Utils_Bit n = (if n < 64 then Some (push_bit n 1) else None)"

definition TestBit :: "u64 \<Rightarrow> nat \<Rightarrow> bool option" where
  "TestBit m position = (if position < 64 then Some (drop_bit position m AND 1 \<noteq> 0) else None)"

section \<open>Signed readings\<close>

lemma sint_consts [simp]: "sint kMaxInt64 = 2 ^ 63 - 1" "sint kMinInt64 = - (2 ^ 63)"
  by (simp_all add: kMaxInt64_def kMinInt64_def)

lemma sint_range64: "- (2 ^ 63) \<le> sint (x :: u64)" "sint (x :: u64) < 2 ^ 63"
  using sint_ge [of x] sint_lt [of x] by simp_all

lemma sint_in_range: "- (2 ^ 63) \<le> i \<Longrightarrow> i < 2 ^ 63 \<Longrightarrow> sint (word_of_int i :: u64) = i"
  by (simp add: int_word_sint)

lemma sint_add_iff:
  fixes a b :: u64
  shows "sint (a + b) = sint a + sint b \<longleftrightarrow> - (2 ^ 63) \<le> sint a + sint b \<and> sint a + sint b < 2 ^ 63"
  using sint_range64 [of "a + b"] sint_in_range [of "sint a + sint b"] by (auto simp flip: wi_hom_add)

lemma sint_sub_iff:
  fixes a b :: u64
  shows "sint (a - b) = sint a - sint b \<longleftrightarrow> - (2 ^ 63) \<le> sint a - sint b \<and> sint a - sint b < 2 ^ 63"
  using sint_range64 [of "a - b"] sint_in_range [of "sint a - sint b"] by auto

lemma sint_kMax_minus: "0 < sint b \<Longrightarrow> sint (kMaxInt64 - b) = 2 ^ 63 - 1 - sint b"
  using sint_sub_iff [of kMaxInt64 b] sint_range64 [of b] by simp

lemma sint_kMin_minus: "sint b < 0 \<Longrightarrow> sint (kMinInt64 - b) = - (2 ^ 63) - sint b"
  using sint_sub_iff [of kMinInt64 b] sint_range64 [of b] by simp

lemma sint_kMin_plus: "0 < sint b \<Longrightarrow> sint (kMinInt64 + b) = - (2 ^ 63) + sint b"
  using sint_add_iff [of kMinInt64 b] sint_range64 [of b] by simp

lemma sint_kMax_plus: "sint b < 0 \<Longrightarrow> sint (kMaxInt64 + b) = 2 ^ 63 - 1 + sint b"
  using sint_add_iff [of kMaxInt64 b] sint_range64 [of b] by simp

lemma WillAddOverflow_iff:
  "WillAddOverflow a b \<longleftrightarrow> \<not> (- (2 ^ 63) \<le> sint a + sint b \<and> sint a + sint b < 2 ^ 63)"
proof -
  note r = sint_range64 [of a] sint_range64 [of b]
  consider "b = 0" | "0 < sint b" | "sint b < 0" using signed_eq_0_iff [of b] by (metis linorder_neqE)
  then show ?thesis
    by cases (use r in \<open>auto simp: WillAddOverflow_def word_sless_alt sint_kMax_minus sint_kMin_minus\<close>)
qed

lemma WillSubOverflow_iff:
  "WillSubOverflow a b \<longleftrightarrow> \<not> (- (2 ^ 63) \<le> sint a - sint b \<and> sint a - sint b < 2 ^ 63)"
proof -
  note r = sint_range64 [of a] sint_range64 [of b]
  consider "b = 0" | "0 < sint b" | "sint b < 0" using signed_eq_0_iff [of b] by (metis linorder_neqE)
  then show ?thesis
    by cases (use r in \<open>auto simp: WillSubOverflow_def word_sless_alt sint_kMin_plus sint_kMax_plus\<close>)
qed

lemma bit_rotl:
  fixes v :: "'a::len word"
  assumes "r < LENGTH('a)" "i < LENGTH('a)"
  shows "bit (push_bit r v OR drop_bit ((LENGTH('a) - r) mod LENGTH('a)) v) i
    \<longleftrightarrow> bit v (if r \<le> i then i - r else i + LENGTH('a) - r)"
proof (cases "r = 0")
  case True then show ?thesis using assms by (simp add: bit_simps)
next
  case False
  then have "(LENGTH('a) - r) mod LENGTH('a) = LENGTH('a) - r" using assms by simp
  moreover have "\<not> bit v (LENGTH('a) - r + i)" if "r \<le> i"
  proof
    assume "bit v (LENGTH('a) - r + i)"
    then have "LENGTH('a) - r + i < LENGTH('a)" by (rule bit_imp_le_length)
    then show False using that assms by simp
  qed
  ultimately show ?thesis using assms by (auto simp: bit_simps ac_simps)
qed

lemma bit_rotr:
  fixes v :: "'a::len word"
  assumes "r < LENGTH('a)" "i < LENGTH('a)"
  shows "bit (drop_bit r v OR push_bit ((LENGTH('a) - r) mod LENGTH('a)) v) i
    \<longleftrightarrow> bit v (if i + r < LENGTH('a) then i + r else i + r - LENGTH('a))"
proof (cases "r = 0")
  case True then show ?thesis using assms by (simp add: bit_simps)
next
  case False
  then have "(LENGTH('a) - r) mod LENGTH('a) = LENGTH('a) - r" using assms by simp
  moreover have "\<not> bit v (r + i)" if "LENGTH('a) \<le> i + r"
    using that bit_imp_le_length [of v "r + i"] by auto
  ultimately show ?thesis using assms by (auto simp: bit_simps ac_simps)
qed

section \<open>Properties\<close>

text \<open>
  \<open>WillAddOverflow\<close> and \<open>WillSubOverflow\<close> are exact: they answer true iff the
  wrapped 64-bit sum or difference differs from the mathematical one.
\<close>

theorem WillAdd_WillSub_exact:
  "(WillAddOverflow a b \<longleftrightarrow> sint (AddWithWrapAround a b) \<noteq> sint a + sint b) \<and>
   (WillSubOverflow a b \<longleftrightarrow> sint (SubWithWrapAround a b) \<noteq> sint a - sint b)"
  by (simp only: WillAddOverflow_iff WillSubOverflow_iff AddWithWrapAround_def SubWithWrapAround_def
    sint_add_iff sint_sub_iff simp_thms)

text \<open>
  \<open>RangeCheck\<close> accepts exactly the non-negative windows that lie inside the buffer, in
  unbounded arithmetic: the subtraction it uses cannot overflow where it matters.
\<close>

theorem RangeCheck_exact:
  "RangeCheck offset count len \<longleftrightarrow>
     0 \<le> sint offset \<and> 0 \<le> sint count \<and> 0 \<le> sint len \<and> sint offset + sint count \<le> sint len"
proof -
  have "sint (len - offset) = sint len - sint offset" if "0 \<le> sint offset" "0 \<le> sint len"
    using that sint_sub_iff [of len offset] sint_range64 [of len] sint_range64 [of offset] by simp
  then show ?thesis by (auto simp: RangeCheck_def word_sle_eq)
qed

text \<open>Rotating right undoes rotating left by the same amount, at every width and amount below it.\<close>

theorem RotateRight_RotateLeft:
  fixes v :: "'a::len word"
  assumes "r < LENGTH('a)"
  shows "Option.bind (RotateLeft v r) (\<lambda>w. RotateRight w r) = Some v"
proof -
  let ?w = "push_bit r v OR drop_bit ((LENGTH('a) - r) mod LENGTH('a)) v"
  have "drop_bit r ?w OR push_bit ((LENGTH('a) - r) mod LENGTH('a)) ?w = v"
  proof (rule bit_word_eqI)
    fix i assume i: "i < LENGTH('a)"
    let ?j = "if i + r < LENGTH('a) then i + r else i + r - LENGTH('a)"
    have j: "?j < LENGTH('a)" using i assms by auto
    have "(if r \<le> ?j then ?j - r else ?j + LENGTH('a) - r) = i" using i assms by auto
    then show "bit (drop_bit r ?w OR push_bit ((LENGTH('a) - r) mod LENGTH('a)) ?w) i \<longleftrightarrow> bit v i"
      unfolding bit_rotr [OF assms i] bit_rotl [OF assms j] by simp
  qed
  then show ?thesis using assms by (simp add: RotateLeft_def RotateRight_def)
qed

theorem RotateRight_RotateLeft_witness:
  "Option.bind (RotateLeft (0x12345678 :: u32) 8) (\<lambda>w. RotateRight w 8) = Some 0x12345678"
  by (rule RotateRight_RotateLeft) simp

end
