(* ===== verification/Data_Stream.thy ===== *)
theory Data_Stream
  imports Platform_Arith
begin

text \<open>
  The byte streams of \<^verbatim>\<open>runtime/vm/datastream.h\<close> and \<^verbatim>\<open>datastream.cc\<close>: \<^verbatim>\<open>ReadStream\<close>, the growing
  \<^verbatim>\<open>BaseWriteStream\<close> with its malloc and streaming variants, and the variable-length integer encodings
  they share.  A pointer into a buffer is its offset, a natural number.  Reading past the end, a
  failing \<^verbatim>\<open>ASSERT\<close> and a shift by more than the width have the result \<open>None\<close>.
\<close>

section \<open>Constants\<close>

definition kDataBitsPerByte :: nat where "kDataBitsPerByte = 7"
definition kByteMask :: u8 where "kByteMask = 127"
definition kMaxUnsignedDataPerByte :: u8 where "kMaxUnsignedDataPerByte = 127"
definition kMinDataPerByte :: int where "kMinDataPerByte = - 64"
definition kMaxDataPerByte :: int where "kMaxDataPerByte = 63"
definition kEndByteMarker :: u8 where "kEndByteMarker = 192"
definition kEndUnsignedByteMarker :: u8 where "kEndUnsignedByteMarker = 128"
definition kDataByteMask :: u8 where "kDataByteMask = 127"
definition kMoreDataMask :: u8 where "kMoreDataMask = 128"
definition kSignMask :: u8 where "kSignMask = 64"

lemmas stream_consts = kDataBitsPerByte_def kByteMask_def kMaxUnsignedDataPerByte_def kMinDataPerByte_def
  kMaxDataPerByte_def kEndByteMarker_def kEndUnsignedByteMarker_def kDataByteMask_def kMoreDataMask_def
  kSignMask_def

section \<open>ReadStream\<close>

record ReadStream =
  rs_buffer :: "u8 list"
  rs_current :: nat

abbreviation rs_end :: "ReadStream \<Rightarrow> nat" where
  "rs_end st \<equiv> length (rs_buffer st)"

definition new_ReadStream :: "u8 list \<Rightarrow> ReadStream" where
  "new_ReadStream buffer = \<lparr>rs_buffer = buffer, rs_current = 0\<rparr>"

definition rs_SetPosition :: "ReadStream \<Rightarrow> nat \<Rightarrow> ReadStream option" where
  "rs_SetPosition st v = (if v \<le> rs_end st then Some (st\<lparr>rs_current := v\<rparr>) else None)"

definition new_ReadStream_at :: "u8 list \<Rightarrow> nat \<Rightarrow> ReadStream option" where
  "new_ReadStream_at buffer pos = rs_SetPosition (new_ReadStream buffer) pos"

definition ReadByte :: "ReadStream \<Rightarrow> (u8 \<times> ReadStream) option" where
  "ReadByte st =
     (if rs_current st < rs_end st
      then Some (rs_buffer st ! rs_current st, st\<lparr>rs_current := rs_current st + 1\<rparr>) else None)"

definition ReadBytes :: "ReadStream \<Rightarrow> nat \<Rightarrow> (u8 list \<times> ReadStream) option" where
  "ReadBytes st len =
     (if rs_current st \<le> rs_end st \<and> len \<le> rs_end st - rs_current st
      then Some (take len (drop (rs_current st) (rs_buffer st)), st\<lparr>rs_current := rs_current st + len\<rparr>)
      else None)"

definition rs_Position :: "ReadStream \<Rightarrow> nat" where
  "rs_Position st = rs_current st"

definition rs_Advance :: "ReadStream \<Rightarrow> nat \<Rightarrow> ReadStream option" where
  "rs_Advance st v =
     (if rs_current st \<le> rs_end st \<and> v \<le> rs_end st - rs_current st
      then Some (st\<lparr>rs_current := rs_current st + v\<rparr>) else None)"

definition rs_Align :: "ReadStream \<Rightarrow> nat \<Rightarrow> ReadStream option" where
  "rs_Align st alignment =
     (let position_before = rs_Position st;
          position_after = unat (RoundUp (of_nat position_before :: u64) (of_nat alignment))
      in rs_Advance st (position_after - position_before))"

definition PendingBytes :: "ReadStream \<Rightarrow> nat option" where
  "PendingBytes st = (if rs_current st \<le> rs_end st then Some (rs_end st - rs_current st) else None)"

text \<open>
  The shift amounts for which \<^verbatim>\<open><<\<close> is defined: values narrower than 32 bits are promoted to \<^verbatim>\<open>int\<close>.
\<close>

definition shift_ok :: "'a::len itself \<Rightarrow> nat \<Rightarrow> bool" where
  "shift_ok TYPE('a) s \<longleftrightarrow> s < max 32 LENGTH('a)"

lemma ReadByte_less: "ReadByte st = Some (b, st') \<Longrightarrow> rs_end st' - rs_current st' < rs_end st - rs_current st"
  by (auto simp: ReadByte_def split: if_splits)

function Read_loop :: "u8 \<Rightarrow> ReadStream \<Rightarrow> 'a::len word \<Rightarrow> nat \<Rightarrow> 'a word \<Rightarrow> ('a word \<times> ReadStream) option" where
  "Read_loop end_byte_marker st r s b =
     (if \<not> shift_ok TYPE('a) s then None
      else
        (let r = r OR push_bit s b; s = s + kDataBitsPerByte
         in case ReadByte st of
              None \<Rightarrow> None
            | Some (b, st) \<Rightarrow>
                if b \<le> kMaxUnsignedDataPerByte then Read_loop end_byte_marker st r s (ucast b)
                else if shift_ok TYPE('a) s then Some (r OR push_bit s (ucast b - ucast end_byte_marker), st)
                else None))"
  by pat_completeness auto
termination
  by (relation "measure (\<lambda>(_, st, _). rs_end st - rs_current st)") (auto dest: ReadByte_less)

declare Read_loop.simps [simp del]

definition Read_marker :: "u8 \<Rightarrow> ReadStream \<Rightarrow> ('a::len word \<times> ReadStream) option" where
  "Read_marker end_byte_marker st =
     (case ReadByte st of
        None \<Rightarrow> None
      | Some (b, st) \<Rightarrow>
          if kMaxUnsignedDataPerByte < b then Some (ucast b - ucast end_byte_marker, st)
          else Read_loop end_byte_marker st 0 0 (ucast b))"

definition Read_value :: "ReadStream \<Rightarrow> ('a::len word \<times> ReadStream) option" where
  "Read_value st = Read_marker kEndByteMarker st"

definition ReadUnsigned :: "ReadStream \<Rightarrow> ('a::len word \<times> ReadStream) option" where
  "ReadUnsigned st = Read_marker kEndUnsignedByteMarker st"

type_synonym 'a unrolled = "ReadStream \<Rightarrow> 'a word \<Rightarrow> ('a word \<times> ReadStream) option"

definition UNROLLED_INIT :: "u8 \<Rightarrow> 'a::len unrolled \<Rightarrow> ReadStream \<Rightarrow> ('a word \<times> ReadStream) option" where
  "UNROLLED_INIT end_byte_marker k st =
     (case ReadByte st of
        None \<Rightarrow> None
      | Some (b, st) \<Rightarrow>
          if kMaxUnsignedDataPerByte < b then Some (ucast b - ucast end_byte_marker, st) else k st (ucast b))"

definition UNROLLED_BODY :: "u8 \<Rightarrow> nat \<Rightarrow> 'a::len unrolled \<Rightarrow> 'a unrolled" where
  "UNROLLED_BODY end_byte_marker bit_start k st r =
     (case ReadByte st of
        None \<Rightarrow> None
      | Some (b, st) \<Rightarrow>
          if kMaxUnsignedDataPerByte < b
          then Some (r OR push_bit bit_start (ucast b - ucast end_byte_marker), st)
          else k st (r OR push_bit bit_start (ucast b)))"

definition UNROLLED_END :: "u8 \<Rightarrow> nat \<Rightarrow> 'a::len unrolled" where
  "UNROLLED_END end_byte_marker bit_start st r =
     (case ReadByte st of
        None \<Rightarrow> None
      | Some (b, st) \<Rightarrow>
          if kMaxUnsignedDataPerByte < b
          then Some (r OR push_bit bit_start (ucast b - ucast end_byte_marker), st) else None)"

definition Read16 :: "u8 \<Rightarrow> ReadStream \<Rightarrow> (u16 \<times> ReadStream) option" where
  "Read16 m = UNROLLED_INIT m (UNROLLED_BODY m 7 (UNROLLED_END m 14))"

definition Read32 :: "u8 \<Rightarrow> ReadStream \<Rightarrow> (u32 \<times> ReadStream) option" where
  "Read32 m = UNROLLED_INIT m (UNROLLED_BODY m 7 (UNROLLED_BODY m 14 (UNROLLED_BODY m 21 (UNROLLED_END m 28))))"

definition Read64 :: "u8 \<Rightarrow> ReadStream \<Rightarrow> (u64 \<times> ReadStream) option" where
  "Read64 m = UNROLLED_INIT m (UNROLLED_BODY m 7 (UNROLLED_BODY m 14 (UNROLLED_BODY m 21 (UNROLLED_BODY m 28
     (UNROLLED_BODY m 35 (UNROLLED_BODY m 42 (UNROLLED_BODY m 49 (UNROLLED_BODY m 56 (UNROLLED_END m 63)))))))))"

definition Raw_Read1 :: "ReadStream \<Rightarrow> (u8 \<times> ReadStream) option" where "Raw_Read1 st = ReadByte st"
definition Raw_Read2 :: "ReadStream \<Rightarrow> (u16 \<times> ReadStream) option" where "Raw_Read2 st = Read16 kEndByteMarker st"
definition Raw_Read4 :: "ReadStream \<Rightarrow> (u32 \<times> ReadStream) option" where "Raw_Read4 st = Read32 kEndByteMarker st"
definition Raw_Read8 :: "ReadStream \<Rightarrow> (u64 \<times> ReadStream) option" where "Raw_Read8 st = Read64 kEndByteMarker st"

definition ReadWordWith32BitReads :: "ReadStream \<Rightarrow> (u64 \<times> ReadStream) option" where
  "ReadWordWith32BitReads st =
     do {
       (partial0, st) \<leftarrow> Raw_Read4 st;
       let v = 0 OR push_bit (0 * 32) (ucast partial0);
       (partial1, st) \<leftarrow> Raw_Read4 st;
       Some (v OR push_bit (1 * 32) (ucast partial1), st)
     }"

function ReadLEB128_loop :: "ReadStream \<Rightarrow> 'a::len word \<Rightarrow> nat \<Rightarrow> ('a word \<times> nat \<times> u8 \<times> ReadStream) option" where
  "ReadLEB128_loop st r s =
     (if \<not> s < LENGTH('a) then None
      else case ReadByte st of
             None \<Rightarrow> None
           | Some (b, st) \<Rightarrow>
               let r = r OR push_bit s (ucast (b AND kDataByteMask)); s = s + 7
               in if b AND kMoreDataMask \<noteq> 0 then ReadLEB128_loop st r s else Some (r, s, b, st))"
  by pat_completeness auto
termination
  by (relation "measure (\<lambda>(st, _). rs_end st - rs_current st)") (auto dest: ReadByte_less)

declare ReadLEB128_loop.simps [simp del]

definition ReadLEB128 :: "ReadStream \<Rightarrow> ('a::len word \<times> ReadStream) option" where
  "ReadLEB128 st =
     (case ReadLEB128_loop st 0 0 of
        None \<Rightarrow> None
      | Some (r, s, _, st) \<Rightarrow> if s < 7 + LENGTH('a) then Some (r, st) else None)"

definition ReadSLEB128 :: "ReadStream \<Rightarrow> ('a::len word \<times> ReadStream) option" where
  "ReadSLEB128 st =
     (case ReadLEB128_loop st 0 0 of
        None \<Rightarrow> None
      | Some (r, s, b, st) \<Rightarrow>
          if s < 7 + LENGTH('a)
          then Some (r OR (if b AND kSignMask \<noteq> 0 \<and> s < LENGTH('a) then NOT (push_bit s 1 - 1) else 0), st)
          else None)"

section \<open>Write streams\<close>

datatype ws_error = AssertFailed | OutOfMemory
datatype ws_kind = MallocStream | ZoneStream | StreamingStream

text \<open>
  One record for the three classes: \<open>ws_flushed\<close> is the data a streaming stream has passed to its
  callback, and stays empty for the others.
\<close>

record WriteStream =
  ws_kind :: ws_kind
  ws_initial_size :: nat
  ws_buffer :: "u8 list"
  ws_current :: nat
  ws_capacity :: nat
  ws_flushed :: "u8 list"

type_synonym 'a ws_result = "ws_error + 'a"

primrec ws_bind :: "'a ws_result \<Rightarrow> ('a \<Rightarrow> 'b ws_result) \<Rightarrow> 'b ws_result" where
  "ws_bind (Inl e) f = Inl e"
| "ws_bind (Inr x) f = f x"

definition new_WriteStream :: "ws_kind \<Rightarrow> u64 \<Rightarrow> WriteStream" where
  "new_WriteStream kind initial =
     \<lparr>ws_kind = kind, ws_initial_size = unat (RoundUpToPowerOfTwo initial), ws_buffer = [], ws_current = 0,
      ws_capacity = 0, ws_flushed = []\<rparr>"

definition Flush :: "WriteStream \<Rightarrow> WriteStream" where
  "Flush st = st\<lparr>ws_flushed := ws_flushed st @ take (ws_current st) (ws_buffer st), ws_current := 0\<rparr>"

text \<open>
  \<open>alloc n\<close> says whether the allocator grants a buffer of \<open>n\<close> bytes; the bytes beyond the old
  contents are represented by zeros.  The result \<open>None\<close> is a null buffer.
\<close>

definition resized :: "u8 list \<Rightarrow> nat \<Rightarrow> u8 list" where
  "resized buf n = take n buf @ replicate (n - length buf) 0"

definition Realloc_malloc :: "(nat \<Rightarrow> bool) \<Rightarrow> WriteStream \<Rightarrow> nat \<Rightarrow> WriteStream option" where
  "Realloc_malloc alloc st new_size =
     (if alloc new_size
      then Some (st\<lparr>ws_buffer := resized (ws_buffer st) new_size, ws_capacity := new_size\<rparr>) else None)"

definition Realloc_zone :: "(nat \<Rightarrow> bool) \<Rightarrow> WriteStream \<Rightarrow> nat \<Rightarrow> WriteStream option" where
  "Realloc_zone alloc st new_size =
     (if alloc new_size
      then Some (st\<lparr>ws_buffer := resized (ws_buffer st) new_size, ws_capacity := new_size\<rparr>) else None)"

definition Realloc_streaming :: "(nat \<Rightarrow> bool) \<Rightarrow> WriteStream \<Rightarrow> nat \<Rightarrow> WriteStream option" where
  "Realloc_streaming alloc st new_size =
     (let st = Flush st
      in if new_size \<le> ws_capacity st then Some st
         else
           (let new_capacity = unat (RoundUp (of_nat new_size :: u64) (64 * 1024))
            in if alloc new_capacity
               then Some (st\<lparr>ws_buffer := resized (ws_buffer st) new_capacity, ws_capacity := new_capacity,
                             ws_current := 0\<rparr>)
               else None))"

definition Realloc :: "(nat \<Rightarrow> bool) \<Rightarrow> WriteStream \<Rightarrow> nat \<Rightarrow> WriteStream option" where
  "Realloc alloc st n =
     (case ws_kind st of
        MallocStream \<Rightarrow> Realloc_malloc alloc st n
      | ZoneStream \<Rightarrow> Realloc_zone alloc st n
      | StreamingStream \<Rightarrow> Realloc_streaming alloc st n)"

definition Remaining :: "WriteStream \<Rightarrow> nat" where
  "Remaining st = ws_capacity st - ws_current st"

definition EnsureSpace :: "(nat \<Rightarrow> bool) \<Rightarrow> WriteStream \<Rightarrow> nat \<Rightarrow> WriteStream ws_result" where
  "EnsureSpace alloc st size_needed =
     (if size_needed \<le> Remaining st then Inr st
      else
        (let increment_size =
               (if ws_capacity st < size_needed
                then unat (RoundUp (of_nat size_needed :: u64) (of_nat (ws_initial_size st)))
                else ws_capacity st);
             new_size = ws_capacity st + increment_size
         in if \<not> ws_capacity st < new_size then Inl AssertFailed
            else case Realloc alloc st new_size of
                   None \<Rightarrow> Inl OutOfMemory
                 | Some st \<Rightarrow> if size_needed \<le> Remaining st then Inr st else Inl AssertFailed))"

definition WriteBytes :: "(nat \<Rightarrow> bool) \<Rightarrow> WriteStream \<Rightarrow> u8 list \<Rightarrow> WriteStream ws_result" where
  "WriteBytes alloc st bs =
     (if bs \<noteq> [] then
        ws_bind (EnsureSpace alloc st (length bs))
          (\<lambda>st. Inr (st\<lparr>ws_buffer := take (ws_current st) (ws_buffer st) @ bs
                                     @ drop (ws_current st + length bs) (ws_buffer st),
                       ws_current := ws_current st + length bs\<rparr>))
      else Inr st)"

definition WriteByte :: "(nat \<Rightarrow> bool) \<Rightarrow> WriteStream \<Rightarrow> u8 \<Rightarrow> WriteStream ws_result" where
  "WriteByte alloc st v =
     ws_bind (EnsureSpace alloc st 1)
       (\<lambda>st. Inr (st\<lparr>ws_buffer := (ws_buffer st)[ws_current st := v], ws_current := ws_current st + 1\<rparr>))"

definition base_SetPosition :: "(nat \<Rightarrow> bool) \<Rightarrow> WriteStream \<Rightarrow> nat \<Rightarrow> WriteStream ws_result" where
  "base_SetPosition alloc st v =
     ws_bind (EnsureSpace alloc st (v - ws_current st)) (\<lambda>st. Inr (st\<lparr>ws_current := v\<rparr>))"

definition ws_Position :: "WriteStream \<Rightarrow> nat" where
  "ws_Position st =
     (case ws_kind st of
        StreamingStream \<Rightarrow> length (ws_flushed st) + ws_current st
      | _ \<Rightarrow> ws_current st)"

definition ws_SetPosition :: "(nat \<Rightarrow> bool) \<Rightarrow> WriteStream \<Rightarrow> nat \<Rightarrow> WriteStream ws_result" where
  "ws_SetPosition alloc st v =
     (case ws_kind st of
        StreamingStream \<Rightarrow>
          if length (ws_flushed st) \<le> v then base_SetPosition alloc st (v - length (ws_flushed st))
          else Inl AssertFailed
      | _ \<Rightarrow> base_SetPosition alloc st v)"

definition ws_Align :: "(nat \<Rightarrow> bool) \<Rightarrow> WriteStream \<Rightarrow> nat \<Rightarrow> (WriteStream \<times> nat) ws_result" where
  "ws_Align alloc st alignment =
     (let position_before = ws_Position st;
          position_after = unat (RoundUp (of_nat position_before :: u64) (of_nat alignment));
          len = position_after - position_before
      in if len \<noteq> 0 then
           ws_bind (EnsureSpace alloc st len)
             (\<lambda>st. ws_bind (ws_SetPosition alloc
                 (st\<lparr>ws_buffer := take (ws_current st) (ws_buffer st) @ replicate len 0
                                   @ drop (ws_current st + len) (ws_buffer st)\<rparr>) position_after)
               (\<lambda>st. Inr (st, len)))
         else Inr (st, len))"

definition Steal :: "WriteStream \<Rightarrow> (u8 list \<times> nat) \<times> WriteStream" where
  "Steal st =
     ((ws_buffer st, ws_Position st), st\<lparr>ws_buffer := [], ws_current := 0, ws_capacity := 0\<rparr>)"

text \<open>A routine that calls \<open>WriteByte\<close> in a loop is given by the bytes it passes, in order.\<close>

primrec WriteAll :: "(nat \<Rightarrow> bool) \<Rightarrow> WriteStream \<Rightarrow> u8 list \<Rightarrow> WriteStream ws_result" where
  "WriteAll alloc st [] = Inr st"
| "WriteAll alloc st (b # bs) = ws_bind (WriteByte alloc st b) (\<lambda>st. WriteAll alloc st bs)"

lemma sint_sdiv128: "sint (signed_drop_bit 7 (v :: 'a::len word)) = sint v div 128"
  by (simp add: sint_signed_drop_bit_eq drop_bit_eq_div)

function Write_bytes :: "'a::len word \<Rightarrow> u8 list" where
  "Write_bytes v =
     (if sint v < kMinDataPerByte \<or> kMaxDataPerByte < sint v
      then ucast (v AND ucast kByteMask) # Write_bytes (signed_drop_bit 7 v)
      else [ucast v + kEndByteMarker])"
  by pat_completeness auto
termination
proof (relation "measure (\<lambda>v. nat \<bar>sint v\<bar>)")
  fix v :: "'a word"
  assume "sint v < kMinDataPerByte \<or> kMaxDataPerByte < sint v"
  then have "\<bar>sint v div 128\<bar> < \<bar>sint v\<bar>" by (auto simp: stream_consts)
  then show "(signed_drop_bit 7 v, v) \<in> measure (\<lambda>v. nat \<bar>sint v\<bar>)" by (simp add: sint_sdiv128)
qed simp

declare Write_bytes.simps [simp del]

function WriteUnsigned_bytes :: "'a::len word \<Rightarrow> u8 list" where
  "WriteUnsigned_bytes v =
     (if 127 < unat v
      then ucast (v AND ucast kByteMask) # WriteUnsigned_bytes (drop_bit 7 v)
      else [ucast v + kEndUnsignedByteMarker])"
  by pat_completeness auto
termination by (relation "measure unat") (auto intro!: unat_drop_less)

declare WriteUnsigned_bytes.simps [simp del]

function WriteLEB128_bytes :: "'a::len word \<Rightarrow> u8 list" where
  "WriteLEB128_bytes remainder =
     (let part = ucast (remainder AND ucast kDataByteMask);
          remainder = drop_bit 7 remainder
      in if remainder = 0 then [part] else (part OR kMoreDataMask) # WriteLEB128_bytes remainder)"
  by pat_completeness auto
termination
proof (relation "measure unat")
  fix v :: "'a word" and part :: u8 and w
  assume "w = drop_bit 7 v" "w \<noteq> 0"
  moreover then have "v \<noteq> 0" by auto
  ultimately show "(w, v) \<in> measure unat" by (auto intro!: unat_drop_less)
qed simp

declare WriteLEB128_bytes.simps [simp del]

text \<open>
  The negative branch sets the top seven bits after the shift, which the arithmetic shift of the
  model has already done; the assertions on the sign of the remainder are branches.
\<close>

partial_function (option) WriteSLEB128_loop :: "bool \<Rightarrow> 'a::len word \<Rightarrow> u8 list option" where
  "WriteSLEB128_loop is_negative remainder =
     (let part = ucast (remainder AND ucast kDataByteMask);
          rest = (if is_negative then signed_drop_bit 7 remainder OR NOT (push_bit (LENGTH('a) - 7) 1 - 1)
                  else signed_drop_bit 7 remainder);
          is_last_part = (if is_negative then rest = NOT 0 \<and> part AND kSignMask \<noteq> 0
                          else rest = 0 \<and> part AND kSignMask = 0)
      in if is_negative \<longleftrightarrow> 0 \<le> sint rest then None
         else if is_last_part then Some [part]
         else Option.bind (WriteSLEB128_loop is_negative rest) (\<lambda>bs. Some ((part OR kMoreDataMask) # bs)))"

definition WriteSLEB128_bytes :: "'a::len word \<Rightarrow> u8 list option" where
  "WriteSLEB128_bytes v = WriteSLEB128_loop (sint v < 0) v"

definition ws_Write :: "(nat \<Rightarrow> bool) \<Rightarrow> WriteStream \<Rightarrow> 'a::len word \<Rightarrow> WriteStream ws_result" where
  "ws_Write alloc st v = WriteAll alloc st (Write_bytes v)"

definition WriteUnsigned :: "(nat \<Rightarrow> bool) \<Rightarrow> WriteStream \<Rightarrow> 'a::len word \<Rightarrow> WriteStream ws_result" where
  "WriteUnsigned alloc st v = WriteAll alloc st (WriteUnsigned_bytes v)"

definition WriteLEB128 :: "(nat \<Rightarrow> bool) \<Rightarrow> WriteStream \<Rightarrow> 'a::len word \<Rightarrow> WriteStream ws_result" where
  "WriteLEB128 alloc st v = WriteAll alloc st (WriteLEB128_bytes v)"

definition WriteSLEB128 :: "(nat \<Rightarrow> bool) \<Rightarrow> WriteStream \<Rightarrow> 'a::len word \<Rightarrow> WriteStream ws_result" where
  "WriteSLEB128 alloc st v =
     (case WriteSLEB128_bytes v of None \<Rightarrow> Inl AssertFailed | Some bs \<Rightarrow> WriteAll alloc st bs)"

definition WriteWordWith32BitWrites :: "(nat \<Rightarrow> bool) \<Rightarrow> WriteStream \<Rightarrow> u64 \<Rightarrow> WriteStream ws_result" where
  "WriteWordWith32BitWrites alloc st v =
     ws_bind (ws_Write alloc st (ucast (drop_bit (0 * 32) v) AND ucast (NBitMaskUnsafe 32) :: u32))
       (\<lambda>st. ws_Write alloc st (ucast (drop_bit (1 * 32) v) AND ucast (NBitMaskUnsafe 32) :: u32))"

section \<open>Reading what was written\<close>

definition remaining_bytes :: "ReadStream \<Rightarrow> u8 list" where
  "remaining_bytes st = drop (rs_current st) (rs_buffer st)"

lemma ReadByte_Cons:
  assumes "remaining_bytes st = b # bs"
  obtains st' where "ReadByte st = Some (b, st')" "remaining_bytes st' = bs"
proof -
  have l: "rs_current st < rs_end st"
    using assms unfolding remaining_bytes_def by (metis drop_all leI list.distinct(1))
  then have "b = rs_buffer st ! rs_current st" "bs = drop (Suc (rs_current st)) (rs_buffer st)"
    using assms by (simp_all add: remaining_bytes_def Cons_nth_drop_Suc [symmetric])
  then show ?thesis using l that [of "st\<lparr>rs_current := rs_current st + 1\<rparr>"]
    by (simp add: ReadByte_def remaining_bytes_def)
qed

lemma ReadByte_Some:
  assumes "ReadByte st = Some (b, st')"
  shows "remaining_bytes st = b # remaining_bytes st'"
  using assms by (auto simp: ReadByte_def remaining_bytes_def Cons_nth_drop_Suc split: if_splits)

lemma push_split:
  fixes v :: "'a::len word"
  shows "push_bit s (v AND mask 7) OR push_bit (s + 7) (signed_drop_bit 7 v) = push_bit s v"
proof (rule bit_word_eqI)
  fix i assume i: "i < LENGTH('a)"
  show "bit (push_bit s (v AND mask 7) OR push_bit (s + 7) (signed_drop_bit 7 v)) i = bit (push_bit s v) i"
    using i by (cases "i < s"; cases "i - s < 7")
      (auto simp: bit_simps min_def not_less le_diff_conv2 add.commute possible_bit_def)
qed

lemma push_split_unsigned:
  fixes v :: "'a::len word"
  shows "push_bit s (v AND mask 7) OR push_bit (s + 7) (drop_bit 7 v) = push_bit s v"
proof (rule bit_word_eqI)
  fix i assume i: "i < LENGTH('a)"
  show "bit (push_bit s (v AND mask 7) OR push_bit (s + 7) (drop_bit 7 v)) i = bit (push_bit s v) i"
    using i by (cases "i < s"; cases "i - s < 7")
      (auto simp: bit_simps not_less le_diff_conv2 add.commute possible_bit_def)
qed

lemma ucast_low7:
  fixes v :: "'a::len word"
  assumes "8 \<le> LENGTH('a)"
  shows "ucast (ucast (v AND mask 7) :: u8) = v AND mask 7" "(ucast (v AND mask 7) :: u8) \<le> 127"
proof -
  show "ucast (ucast (v AND mask 7) :: u8) = v AND mask 7"
    by (rule bit_word_eqI) (auto simp: bit_simps)
  have "unat (ucast (v AND mask 7) :: u8) = unat (v AND mask 7) mod 2 ^ 8"
    by (simp add: unsigned_ucast_eq take_bit_eq_mod)
  also have "\<dots> < 128" by (simp add: unat_and_mask)
  finally show "(ucast (v AND mask 7) :: u8) \<le> 127" by (simp add: word_le_nat_alt)
qed

lemma ucast_word_of_int_low: "8 \<le> LENGTH('a) \<Longrightarrow> (ucast (word_of_int i :: 'a::len word) :: u8) = word_of_int i"
  by (rule bit_word_eqI) (simp add: bit_simps)

lemma uint_u8: "0 \<le> j \<Longrightarrow> j < 256 \<Longrightarrow> uint (word_of_int j :: u8) = j"
  by (simp add: uint_word_of_int_eq take_bit_int_eq_self)

lemma end_byte:
  fixes v :: "'a::len word"
  assumes "8 \<le> LENGTH('a)" "v = word_of_int i" "j = i + m" "128 \<le> j" "j < 256" "0 \<le> m" "m < 256"
  shows "(ucast v + word_of_int m :: u8) = word_of_int j" "127 < (word_of_int j :: u8)"
    "ucast (word_of_int j :: u8) - ucast (word_of_int m :: u8) = v"
proof -
  have "(ucast v :: u8) = word_of_int i" using assms(1,2) by (simp add: ucast_word_of_int_low)
  then show "(ucast v + word_of_int m :: u8) = word_of_int j" using assms(3) by simp
  have u: "uint (word_of_int j :: u8) = j" and um: "uint (word_of_int m :: u8) = m"
    using assms(4-7) by (simp_all only: uint_u8)
  show "127 < (word_of_int j :: u8)" using u assms(4) by (simp add: word_less_def)
  have "(ucast (word_of_int j :: u8) :: 'a word) = word_of_int j" using u by (simp add: ucast_eq)
  moreover have "(ucast (word_of_int m :: u8) :: 'a word) = word_of_int m" using um by (simp add: ucast_eq)
  ultimately show "ucast (word_of_int j :: u8) - ucast (word_of_int m :: u8) = v" using assms(2,3) by simp
qed

text \<open>One step of a decoder after the bits below \<open>s\<close> have been read into \<open>r\<close>.\<close>

definition Read_step :: "u8 \<Rightarrow> ReadStream \<Rightarrow> 'a::len word \<Rightarrow> nat \<Rightarrow> ('a word \<times> ReadStream) option" where
  "Read_step m st r s =
     (case ReadByte st of
        None \<Rightarrow> None
      | Some (b, st) \<Rightarrow>
          if b \<le> 127 then Read_loop m st r s (ucast b)
          else if shift_ok TYPE('a) s then Some (r OR push_bit s (ucast b - ucast m), st) else None)"

lemma Read_loop_step:
  "Read_loop m st (r :: 'a::len word) s b = (if shift_ok TYPE('a) s then Read_step m st (r OR push_bit s b) (s + 7) else None)"
  by (subst Read_loop.simps) (simp add: Read_step_def Let_def stream_consts cong: if_cong option.case_cong)

lemma Read_marker_step: "Read_marker m st = (Read_step m st 0 0 :: ('a::len word \<times> ReadStream) option)"
  by (auto simp: Read_marker_def Read_step_def shift_ok_def stream_consts not_le max_def split: option.splits)

lemma kByteMask_mask: "8 \<le> LENGTH('a) \<Longrightarrow> (ucast kByteMask :: 'a::len word) = mask 7"
proof -
  have m: "kByteMask = mask 7" by (simp add: stream_consts mask_eq_exp_minus_1)
  assume "8 \<le> LENGTH('a)"
  then show ?thesis unfolding m by (intro bit_word_eqI) (auto simp: bit_simps)
qed

lemma fits_signed_step:
  fixes v :: "'a::len word"
  assumes "- (2 ^ n) \<le> sint v" "sint v < 2 ^ n" "sint v < - 64 \<or> 63 < sint v"
  shows "7 \<le> n" "- (2 ^ (n - 7)) \<le> sint v div 128" "sint v div 128 < 2 ^ (n - 7)"
proof -
  show n: "7 \<le> n"
  proof (rule ccontr)
    assume "\<not> 7 \<le> n"
    then have "(2::int) ^ n \<le> 2 ^ 6" by (intro power_increasing) simp_all
    then show False using assms by simp
  qed
  have e: "(2::int) ^ n = 128 * 2 ^ (n - 7)" using n power_add [of "2::int" 7 "n - 7"] by simp
  show "- (2 ^ (n - 7)) \<le> sint v div 128" "sint v div 128 < 2 ^ (n - 7)" using assms(1,2) unfolding e by linarith+
qed

lemma Read_step_Write:
  fixes v :: "'a::len word"
  assumes "8 \<le> LENGTH('a)" "s < LENGTH('a)"
    and "- (2 ^ (LENGTH('a) - 1 - s)) \<le> sint v" "sint v < 2 ^ (LENGTH('a) - 1 - s)"
    and "remaining_bytes st = Write_bytes v @ rest"
  shows "\<exists>st'. Read_step kEndByteMarker st r s = Some (r OR push_bit s v, st') \<and> remaining_bytes st' = rest"
  using assms
proof (induction v arbitrary: r s st rule: Write_bytes.induct)
  case (1 v)
  have ok: "shift_ok TYPE('a) s" using "1.prems"(2) by (simp add: shift_ok_def)
  show ?case
  proof (cases "sint v < - 64 \<or> 63 < sint v")
    case True
    then have c: "sint v < kMinDataPerByte \<or> kMaxDataPerByte < sint v" by (simp add: stream_consts)
    note f = fits_signed_step [OF "1.prems"(3,4) True]
    let ?b = "ucast (v AND mask 7) :: u8"
    have "remaining_bytes st = ?b # Write_bytes (signed_drop_bit 7 v) @ rest"
      using "1.prems"(5) c kByteMask_mask [OF "1.prems"(1)] by (subst (asm) Write_bytes.simps) simp
    then obtain st1 where st1: "ReadByte st = Some (?b, st1)" "remaining_bytes st1 = Write_bytes (signed_drop_bit 7 v) @ rest"
      by (rule ReadByte_Cons)
    let ?r = "r OR push_bit s (v AND mask 7)"
    have "\<exists>st'. Read_step kEndByteMarker st1 ?r (s + 7) = Some (?r OR push_bit (s + 7) (signed_drop_bit 7 v), st')
        \<and> remaining_bytes st' = rest"
    proof (rule "1.IH" [OF c "1.prems"(1)])
      have e: "LENGTH('a) - 1 - (s + 7) = LENGTH('a) - 1 - s - 7" by simp
      show "s + 7 < LENGTH('a)" using f(1) by simp
      show "- (2 ^ (LENGTH('a) - 1 - (s + 7))) \<le> sint (signed_drop_bit 7 v)"
        "sint (signed_drop_bit 7 v) < 2 ^ (LENGTH('a) - 1 - (s + 7))"
        using f(2,3) unfolding e sint_sdiv128 by simp_all
    qed (rule st1(2))
    moreover have "?r OR push_bit (s + 7) (signed_drop_bit 7 v) = r OR push_bit s v"
      unfolding or.assoc push_split ..
    moreover have "Read_step kEndByteMarker st r s = Read_step kEndByteMarker st1 ?r (s + 7)"
      using st1(1) ucast_low7 [OF "1.prems"(1), of v] ok by (simp add: Read_step_def [of _ st] Read_loop_step)
    ultimately show ?thesis by simp
  next
    case False
    let ?j = "sint v + 192"
    have v: "v = word_of_int (sint v)" by simp
    note e = end_byte [OF "1.prems"(1) v refl, of 192]
    have m: "kEndByteMarker = word_of_int 192" by (simp add: stream_consts)
    have "Write_bytes v = [word_of_int ?j]"
      using False e(1) by (subst Write_bytes.simps) (simp add: stream_consts)
    then obtain st1 where st1: "ReadByte st = Some (word_of_int ?j, st1)" "remaining_bytes st1 = rest"
      using ReadByte_Cons [of st "word_of_int ?j" rest] "1.prems"(5) by auto
    have "\<not> (word_of_int ?j :: u8) \<le> 127" using e(2) False by (simp only: not_le) simp
    then show ?thesis
      using st1 e(3) False ok by (simp only: Read_step_def option.case prod.case if_False if_True m) simp
  qed
qed

lemma fits_unsigned_step:
  fixes v :: "'a::len word"
  assumes "unat v < 2 ^ n" "127 < unat v"
  shows "7 < n" "unat (drop_bit 7 v) < 2 ^ (n - 7)"
proof -
  show n: "7 < n"
  proof (rule ccontr)
    assume "\<not> 7 < n"
    then have "(2::nat) ^ n \<le> 2 ^ 7" by (intro power_increasing) simp_all
    then show False using assms by simp
  qed
  have e: "(2::nat) ^ n = 128 * 2 ^ (n - 7)" using n power_add [of "2::nat" 7 "n - 7"] by simp
  have "unat (drop_bit 7 v) = unat v div 128" by (simp add: unat_drop_div)
  also have "\<dots> < 2 ^ (n - 7)" using assms(1) unfolding e by (simp add: less_mult_imp_div_less mult.commute)
  finally show "unat (drop_bit 7 v) < 2 ^ (n - 7)" .
qed

lemma Read_step_WriteUnsigned:
  fixes v :: "'a::len word"
  assumes "8 \<le> LENGTH('a)" "s < LENGTH('a)" "unat v < 2 ^ (LENGTH('a) - s)"
    and "remaining_bytes st = WriteUnsigned_bytes v @ rest"
  shows "\<exists>st'. Read_step kEndUnsignedByteMarker st r s = Some (r OR push_bit s v, st') \<and> remaining_bytes st' = rest"
  using assms
proof (induction v arbitrary: r s st rule: WriteUnsigned_bytes.induct)
  case (1 v)
  have ok: "shift_ok TYPE('a) s" using "1.prems"(2) by (simp add: shift_ok_def)
  show ?case
  proof (cases "127 < unat v")
    case True
    note f = fits_unsigned_step [OF "1.prems"(3) True]
    let ?b = "ucast (v AND mask 7) :: u8"
    have "remaining_bytes st = ?b # WriteUnsigned_bytes (drop_bit 7 v) @ rest"
      using "1.prems"(4) True kByteMask_mask [OF "1.prems"(1)] by (subst (asm) WriteUnsigned_bytes.simps) simp
    then obtain st1 where st1: "ReadByte st = Some (?b, st1)" "remaining_bytes st1 = WriteUnsigned_bytes (drop_bit 7 v) @ rest"
      by (rule ReadByte_Cons)
    let ?r = "r OR push_bit s (v AND mask 7)"
    have "\<exists>st'. Read_step kEndUnsignedByteMarker st1 ?r (s + 7) = Some (?r OR push_bit (s + 7) (drop_bit 7 v), st')
        \<and> remaining_bytes st' = rest"
      using f by (intro "1.IH" [OF True "1.prems"(1)] st1(2)) simp_all
    moreover have "?r OR push_bit (s + 7) (drop_bit 7 v) = r OR push_bit s v"
      unfolding or.assoc push_split_unsigned ..
    moreover have "Read_step kEndUnsignedByteMarker st r s = Read_step kEndUnsignedByteMarker st1 ?r (s + 7)"
      using st1(1) ucast_low7 [OF "1.prems"(1), of v] ok by (simp add: Read_step_def [of _ st] Read_loop_step)
    ultimately show ?thesis by simp
  next
    case False
    let ?j = "uint v + 128"
    have v: "v = word_of_int (uint v)" by simp
    have "int (unat v) \<le> 127" using False by linarith
    then have u: "uint v \<le> 127" "0 \<le> uint v" by simp_all
    have p: "128 \<le> uint v + 128" "uint v + 128 < 256" "0 \<le> (128 :: int)" "(128 :: int) < 256" using u by simp_all
    note e = end_byte [OF "1.prems"(1) v refl p]
    have m: "kEndUnsignedByteMarker = word_of_int 128" by (simp add: stream_consts)
    have "WriteUnsigned_bytes v = [word_of_int ?j]"
      using False e(1) unfolding m [symmetric] by (subst WriteUnsigned_bytes.simps) simp
    then obtain st1 where st1: "ReadByte st = Some (word_of_int ?j, st1)" "remaining_bytes st1 = rest"
      using ReadByte_Cons [of st "word_of_int ?j" rest] "1.prems"(4) by auto
    have "\<not> (word_of_int ?j :: u8) \<le> 127" using e(2) by (simp only: not_le not_True_eq_False)
    then show ?thesis
      using st1 e(3) ok by (simp only: Read_step_def option.case prod.case if_False if_True m) blast
  qed
qed

lemma ucast7_flags:
  fixes v :: "'a::len word"
  assumes "8 \<le> LENGTH('a)"
  defines "p \<equiv> ucast (v AND mask 7) :: u8"
  shows "p AND kMoreDataMask = 0" "(p OR kMoreDataMask) AND kMoreDataMask \<noteq> 0"
    "p AND kDataByteMask = p" "(p OR kMoreDataMask) AND kDataByteMask = p"
    "(p OR kMoreDataMask) AND kSignMask = p AND kSignMask" "p AND kSignMask \<noteq> 0 \<longleftrightarrow> bit v 6"
proof -
  have k: "kMoreDataMask = 2 ^ 7" "kSignMask = 2 ^ 6" and m: "kDataByteMask = mask 7"
    by (simp_all add: stream_consts mask_eq_exp_minus_1)
  have b: "bit kMoreDataMask n \<longleftrightarrow> n = 7" "bit kSignMask n \<longleftrightarrow> n = 6" for n
    unfolding k bit_exp_iff possible_bit_word by auto
  show "p AND kMoreDataMask = 0" "p AND kDataByteMask = p"
    "(p OR kMoreDataMask) AND kDataByteMask = p" "(p OR kMoreDataMask) AND kSignMask = p AND kSignMask"
    unfolding m p_def by (rule bit_word_eqI, auto simp: bit_simps b)+
  have "bit ((p OR kMoreDataMask) AND kMoreDataMask) 7" by (simp add: bit_simps b)
  then show "(p OR kMoreDataMask) AND kMoreDataMask \<noteq> 0" by auto
  have "p AND kSignMask = (if bit v 6 then kSignMask else 0)"
    unfolding m p_def using assms(1) by (intro bit_word_eqI) (auto simp: bit_simps b)
  then show "p AND kSignMask \<noteq> 0 \<longleftrightarrow> bit v 6" by (simp add: stream_consts)
qed

lemma kDataByteMask_mask: "8 \<le> LENGTH('a) \<Longrightarrow> (ucast kDataByteMask :: 'a::len word) = mask 7"
  using kByteMask_mask [where 'a = 'a] by (simp add: kByteMask_def kDataByteMask_def)

lemma ReadLEB128_loop_WriteLEB128:
  fixes v :: "'a::len word"
  assumes "8 \<le> LENGTH('a)" "s < LENGTH('a)" "unat v < 2 ^ (LENGTH('a) - s)"
    and "remaining_bytes st = WriteLEB128_bytes v @ rest"
  shows "\<exists>s' b st'. ReadLEB128_loop st r s = Some (r OR push_bit s v, s', b, st') \<and> s' < 7 + LENGTH('a)
    \<and> remaining_bytes st' = rest"
  using assms
proof (induction v arbitrary: r s st rule: WriteLEB128_bytes.induct)
  case (1 v)
  let ?p = "ucast (v AND mask 7) :: u8"
  note fl = ucast7_flags [OF "1.prems"(1), of v] and low = ucast_low7 [OF "1.prems"(1), of v]
  note mask = kDataByteMask_mask [OF "1.prems"(1)]
  show ?case
  proof (cases "drop_bit 7 v = 0")
    case True
    have "remaining_bytes st = ?p # rest" using "1.prems"(4) True mask by (subst (asm) WriteLEB128_bytes.simps) (simp add: Let_def)
    then obtain st1 where st1: "ReadByte st = Some (?p, st1)" "remaining_bytes st1 = rest" by (rule ReadByte_Cons)
    have "push_bit s (v AND mask 7) = push_bit s v" using push_split_unsigned [of s v] True by simp
    then show ?thesis using st1 "1.prems"(2) fl low by (subst ReadLEB128_loop.simps) (simp add: Let_def)
  next
    case False
    have big: "127 < unat v"
    proof (rule ccontr)
      assume "\<not> 127 < unat v"
      then have "unat (drop_bit 7 v) = 0" by (simp add: unat_drop_div)
      then show False using False by (simp add: unsigned_eq_0_iff)
    qed
    note f = fits_unsigned_step [OF "1.prems"(3) big]
    have "remaining_bytes st = (?p OR kMoreDataMask) # WriteLEB128_bytes (drop_bit 7 v) @ rest"
      using "1.prems"(4) False mask by (subst (asm) WriteLEB128_bytes.simps) (simp add: Let_def)
    then obtain st1 where st1: "ReadByte st = Some (?p OR kMoreDataMask, st1)"
      "remaining_bytes st1 = WriteLEB128_bytes (drop_bit 7 v) @ rest" by (rule ReadByte_Cons)
    let ?r = "r OR push_bit s (v AND mask 7)"
    have "\<exists>s' b st'. ReadLEB128_loop st1 ?r (s + 7) = Some (?r OR push_bit (s + 7) (drop_bit 7 v), s', b, st')
        \<and> s' < 7 + LENGTH('a) \<and> remaining_bytes st' = rest"
      using f st1(2) by (intro "1.IH" [OF refl refl False "1.prems"(1)]) simp_all
    moreover have "?r OR push_bit (s + 7) (drop_bit 7 v) = r OR push_bit s v"
      unfolding or.assoc push_split_unsigned ..
    moreover have "ReadLEB128_loop st r s = ReadLEB128_loop st1 ?r (s + 7)"
      using st1(1) "1.prems"(2) fl low by (subst ReadLEB128_loop.simps) (simp add: Let_def)
    ultimately show ?thesis by simp
  qed
qed

lemma bit_sint_div:
  fixes v :: "'a::len word"
  assumes "n < LENGTH('a)"
  shows "bit v n \<longleftrightarrow> odd (sint v div 2 ^ n)"
proof -
  have "bit v n \<longleftrightarrow> bit (sint v) n" using assms by (simp add: bit_sint_iff min_def) 
  then show ?thesis by (simp add: bit_iff_odd)
qed

lemma bit_small_signed:
  fixes v :: "'a::len word"
  assumes "- 64 \<le> sint v" "sint v \<le> 63" "6 \<le> n" "n < LENGTH('a)"
  shows "bit v n \<longleftrightarrow> sint v < 0"
proof -
  have "(2::int) ^ 6 \<le> 2 ^ n" using assms(3) by (intro power_increasing) simp_all
  then have "(sint v + 2 ^ n) div 2 ^ n = 0" if "sint v < 0"
    using that assms(1) by (intro div_pos_pos_trivial) simp_all
  moreover have "sint v div 2 ^ n = 0" if "\<not> sint v < 0"
    using that assms(2) \<open>2 ^ 6 \<le> 2 ^ n\<close> by (intro div_pos_pos_trivial) simp_all
  moreover have "(sint v + 2 ^ n) div 2 ^ n = sint v div 2 ^ n + 1" by (rule div_add_self2) simp
  ultimately have "sint v div 2 ^ n = (if sint v < 0 then - 1 else 0)" by (auto simp del: div_add_self2)
  then show ?thesis using bit_sint_div [OF assms(4)] by (simp split: if_splits)
qed

lemma SLEB_last_iff:
  fixes v :: "'a::len word"
  assumes "8 \<le> LENGTH('a)"
  shows "(if sint v < 0 then signed_drop_bit 7 v = NOT 0 \<and> bit v 6 else signed_drop_bit 7 v = 0 \<and> \<not> bit v 6)
    \<longleftrightarrow> - 64 \<le> sint v \<and> sint v \<le> 63"
proof -
  have b: "bit v 6 \<longleftrightarrow> odd (sint v div 64)" using bit_sint_div [of 6 v] assms by simp
  have n: "signed_drop_bit 7 v = NOT 0 \<longleftrightarrow> sint v div 128 = - 1"
    using sint_sdiv128 [of v] signed_word_eqI [of "signed_drop_bit 7 v" "- 1"] by auto
  have z: "signed_drop_bit 7 v = 0 \<longleftrightarrow> sint v div 128 = 0"
    using sint_sdiv128 [of v] signed_eq_0_iff [of "signed_drop_bit 7 v"] by auto
  have "sint v div 128 = sint v div 64 div 2" by (simp add: zdiv_zmult2_eq [symmetric])
  then show ?thesis unfolding b n z by (auto elim!: oddE evenE)
qed

lemma SLEB_step:
  fixes v :: "'a::len word"
  assumes L: "8 \<le> LENGTH('a)"
  defines "p \<equiv> ucast (v AND mask 7) :: u8"
  shows "WriteSLEB128_loop (sint v < 0) v =
    (if - 64 \<le> sint v \<and> sint v \<le> 63 then Some [p]
     else Option.bind (WriteSLEB128_loop (sint (signed_drop_bit 7 v) < 0) (signed_drop_bit 7 v))
            (\<lambda>bs. Some ((p OR kMoreDataMask) # bs)))"
proof -
  let ?n = "sint v < 0" and ?d = "signed_drop_bit 7 v"
  have sg: "sint ?d < 0 \<longleftrightarrow> ?n" unfolding sint_sdiv128 by linarith
  have "push_bit (LENGTH('a) - 7) 1 - 1 = (mask (LENGTH('a) - 7) :: 'a word)"
    by (simp add: mask_eq_exp_minus_1 push_bit_eq_mult)
  moreover have "?d OR NOT (mask (LENGTH('a) - 7)) = ?d" if ?n
  proof (rule bit_word_eqI)
    fix i assume i: "i < LENGTH('a)"
    have "bit v (LENGTH('a) - 1)" using that by (simp add: sint_neg_iff)
    then show "bit (?d OR NOT (mask (LENGTH('a) - 7))) i = bit ?d i"
      using i L by (auto simp: bit_simps min_def)
  qed
  ultimately have rest: "(if ?n then ?d OR NOT (push_bit (LENGTH('a) - 7) 1 - 1) else ?d) = ?d" by simp
  note fl = ucast7_flags(6) [OF L, of v, folded p_def]
  have last: "(if ?n then ?d = NOT 0 \<and> p AND kSignMask \<noteq> 0 else ?d = 0 \<and> p AND kSignMask = 0)
      \<longleftrightarrow> - 64 \<le> sint v \<and> sint v \<le> 63"
    using SLEB_last_iff [OF L, of v] fl by (cases ?n) auto
  have nn: "\<not> (?n \<longleftrightarrow> 0 \<le> sint ?d)" using sg by auto
  show ?thesis
    by (subst WriteSLEB128_loop.simps)
      (simp only: Let_def kDataByteMask_mask [OF L] p_def [symmetric] rest last nn if_False sg)
qed

lemma push_sign:
  fixes v :: "'a::len word"
  assumes "8 \<le> LENGTH('a)" "- 64 \<le> sint v" "sint v \<le> 63"
  shows "push_bit s (v AND mask 7) OR (if bit v 6 \<and> s + 7 < LENGTH('a) then NOT (push_bit (s + 7) 1 - 1) else 0)
    = push_bit s v"
proof (rule bit_word_eqI)
  fix i assume i: "i < LENGTH('a)"
  have m: "push_bit (s + 7) 1 - 1 = (mask (s + 7) :: 'a word)"
    by (simp add: mask_eq_exp_minus_1 push_bit_eq_mult)
  have b: "bit v n \<longleftrightarrow> bit v 6" if "7 \<le> n" "n < LENGTH('a)" for n
    using bit_small_signed [OF assms(2,3), of n] bit_small_signed [OF assms(2,3), of 6] that assms(1) by simp
  show "bit (push_bit s (v AND mask 7) OR
      (if bit v 6 \<and> s + 7 < LENGTH('a) then NOT (push_bit (s + 7) 1 - 1) else 0)) i = bit (push_bit s v) i"
  proof (cases "s + 7 \<le> i")
    case True
    then show ?thesis using i b [of "i - s"] unfolding m by (auto simp: bit_simps)
  next
    case False
    then show ?thesis using i unfolding m by (auto simp: bit_simps)
  qed
qed

lemma ReadLEB128_loop_WriteSLEB128:
  fixes v :: "'a::len word"
  assumes "8 \<le> LENGTH('a)" "s < LENGTH('a)"
    and "- (2 ^ (LENGTH('a) - 1 - s)) \<le> sint v" "sint v < 2 ^ (LENGTH('a) - 1 - s)"
  shows "\<exists>bs. WriteSLEB128_loop (sint v < 0) v = Some bs \<and>
    (\<forall>st rest r. remaining_bytes st = bs @ rest \<longrightarrow>
      (\<exists>r' s' b st'. ReadLEB128_loop st r s = Some (r', s', b, st') \<and> s' < 7 + LENGTH('a) \<and> remaining_bytes st' = rest
        \<and> r' OR (if b AND kSignMask \<noteq> 0 \<and> s' < LENGTH('a) then NOT (push_bit s' 1 - 1) else 0) = r OR push_bit s v))"
  using assms
proof (induction v arbitrary: s rule: Write_bytes.induct)
  case (1 v)
  let ?p = "ucast (v AND mask 7) :: u8"
  note fl = ucast7_flags [OF "1.prems"(1), of v] and low = ucast_low7 [OF "1.prems"(1), of v]
  note step = SLEB_step [OF "1.prems"(1), of v]
  show ?case
  proof (cases "sint v < - 64 \<or> 63 < sint v")
    case True
    then have c: "sint v < kMinDataPerByte \<or> kMaxDataPerByte < sint v" by (simp add: stream_consts)
    let ?d = "signed_drop_bit 7 v"
    note f = fits_signed_step [OF "1.prems"(3,4) True]
    have e: "LENGTH('a) - 1 - (s + 7) = LENGTH('a) - 1 - s - 7" by simp
    have s7: "s + 7 < LENGTH('a)" using f(1) by simp
    have d: "- (2 ^ (LENGTH('a) - 1 - (s + 7))) \<le> sint ?d" "sint ?d < 2 ^ (LENGTH('a) - 1 - (s + 7))"
      using f(2,3) unfolding e sint_sdiv128 by simp_all
    obtain bs where bs: "WriteSLEB128_loop (sint ?d < 0) ?d = Some bs"
      and rd: "\<And>st rest r. remaining_bytes st = bs @ rest \<Longrightarrow>
        \<exists>r' s' b st'. ReadLEB128_loop st r (s + 7) = Some (r', s', b, st') \<and> s' < 7 + LENGTH('a) \<and> remaining_bytes st' = rest
        \<and> r' OR (if b AND kSignMask \<noteq> 0 \<and> s' < LENGTH('a) then NOT (push_bit s' 1 - 1) else 0) = r OR push_bit (s + 7) ?d"
      using "1.IH" [OF c "1.prems"(1) s7 d(1,2)] by blast
    show ?thesis
    proof (intro exI [of _ "(?p OR kMoreDataMask) # bs"] conjI allI impI)
      show "WriteSLEB128_loop (sint v < 0) v = Some ((?p OR kMoreDataMask) # bs)" using step True bs by auto
    next
      fix st rest r assume "remaining_bytes st = ((?p OR kMoreDataMask) # bs) @ rest"
      then obtain st1 where st1: "ReadByte st = Some (?p OR kMoreDataMask, st1)" "remaining_bytes st1 = bs @ rest"
        using ReadByte_Cons [of st "?p OR kMoreDataMask" "bs @ rest"] by auto
      have L: "ReadLEB128_loop st r s = ReadLEB128_loop st1 (r OR push_bit s (v AND mask 7)) (s + 7)"
        using st1(1) "1.prems"(2) fl low by (subst ReadLEB128_loop.simps) (simp add: Let_def)
      have R: "(r OR push_bit s (v AND mask 7)) OR push_bit (s + 7) ?d = r OR push_bit s v"
        unfolding or.assoc push_split ..
      show "\<exists>r' s' b st'. ReadLEB128_loop st r s = Some (r', s', b, st') \<and> s' < 7 + LENGTH('a)
          \<and> remaining_bytes st' = rest
          \<and> r' OR (if b AND kSignMask \<noteq> 0 \<and> s' < LENGTH('a) then NOT (push_bit s' 1 - 1) else 0) = r OR push_bit s v"
        using rd [OF st1(2), of "r OR push_bit s (v AND mask 7)"] unfolding L R .
    qed
  next
    case False
    show ?thesis
    proof (intro exI [of _ "[?p]"] conjI allI impI)
      show "WriteSLEB128_loop (sint v < 0) v = Some [?p]" using step False by auto
    next
      fix st rest r assume "remaining_bytes st = [?p] @ rest"
      then obtain st1 where st1: "ReadByte st = Some (?p, st1)" "remaining_bytes st1 = rest"
        using ReadByte_Cons [of st ?p rest] by auto
      have "ReadLEB128_loop st r s = Some (r OR push_bit s (v AND mask 7), s + 7, ?p, st1)"
        using st1(1) "1.prems"(2) fl low by (subst ReadLEB128_loop.simps) (simp add: Let_def)
      moreover have "push_bit s (v AND mask 7) OR
          (if ?p AND kSignMask \<noteq> 0 \<and> s + 7 < LENGTH('a) then NOT (push_bit (s + 7) 1 - 1) else 0) = push_bit s v"
        using push_sign [OF "1.prems"(1), of v s] False unfolding fl(6) by simp
      ultimately show "\<exists>r' s' b st'. ReadLEB128_loop st r s = Some (r', s', b, st') \<and> s' < 7 + LENGTH('a)
          \<and> remaining_bytes st' = rest
          \<and> r' OR (if b AND kSignMask \<noteq> 0 \<and> s' < LENGTH('a) then NOT (push_bit s' 1 - 1) else 0) = r OR push_bit s v"
        using st1(2) "1.prems"(2) by (auto simp: or.assoc)
    qed
  qed
qed

section \<open>The unrolled readers\<close>

text \<open>A result kept only when the stream has not advanced past a position.\<close>

definition upto_position :: "nat \<Rightarrow> ('v \<times> ReadStream) option \<Rightarrow> ('v \<times> ReadStream) option" where
  "upto_position e x =
     (case x of None \<Rightarrow> None | Some (v, st) \<Rightarrow> if rs_current st \<le> e then Some (v, st) else None)"

lemma ReadByte_position: "ReadByte st = Some (b, st') \<Longrightarrow> rs_current st' = rs_current st + 1"
  by (auto simp: ReadByte_def split: if_splits)

lemma Read_loop_position:
  "Read_loop m st r s b = Some (v, st') \<Longrightarrow> rs_current st < rs_current st'"
proof (induction m st r s b rule: Read_loop.induct)
  case (1 m st r s b)
  show ?case
  proof (cases "ReadByte st")
    case None
    then show ?thesis using "1.prems" by (simp add: Read_loop.simps [of m st] Let_def split: if_splits)
  next
    case (Some bs)
    obtain c st1 where bs: "bs = (c, st1)" by (cases bs)
    have "rs_current st1 = rs_current st + 1" using Some bs by (simp add: ReadByte_position)
    then show ?thesis
      using "1.prems" "1.IH" [OF _ refl refl Some bs [symmetric]] Some bs
      by (simp add: Read_loop.simps [of m st]) (auto simp: Let_def split: if_splits)
  qed
qed

lemma UNROLLED_END_upto:
  assumes "shift_ok TYPE('a::len) s"
  shows "UNROLLED_END m s st (r :: 'a word) = upto_position (rs_current st + 1) (Read_step m st r s)"
  using assms
  by (auto simp: UNROLLED_END_def Read_step_def stream_consts upto_position_def not_le
      dest!: ReadByte_position Read_loop_position split: option.splits)

lemma UNROLLED_BODY_upto:
  assumes "shift_ok TYPE('a::len) s"
    and "\<And>st r. k st r = upto_position (rs_current st + j) (Read_step m st r (s + 7))"
  shows "UNROLLED_BODY m s k st (r :: 'a word) = upto_position (rs_current st + Suc j) (Read_step m st r s)"
  using assms(1)
  by (auto simp: UNROLLED_BODY_def assms(2) Read_step_def [of m st] Read_loop_step stream_consts upto_position_def not_le
      dest!: ReadByte_position split: option.splits)

lemma UNROLLED_END_all:
  assumes "shift_ok TYPE('a::len) s" "\<not> shift_ok TYPE('a) (s + 7)"
  shows "UNROLLED_END m s st (r :: 'a word) = Read_step m st r s"
  using assms
  by (auto simp: UNROLLED_END_def Read_step_def Read_loop_step stream_consts not_le split: option.splits)

lemma UNROLLED_BODY_all:
  assumes "shift_ok TYPE('a::len) s" and "\<And>st r. k st r = Read_step m st r (s + 7)"
  shows "UNROLLED_BODY m s k st (r :: 'a word) = Read_step m st r s"
  using assms(1)
  by (auto simp: UNROLLED_BODY_def assms(2) Read_step_def [of m st] Read_loop_step stream_consts not_le split: option.splits)

lemma UNROLLED_INIT_BODY: "UNROLLED_INIT m k st = (UNROLLED_BODY m 0 k st 0 :: ('a::len word \<times> ReadStream) option)"
  by (auto simp: UNROLLED_INIT_def UNROLLED_BODY_def split: option.splits)

lemma shift_ok_simps: "shift_ok TYPE(16) s \<longleftrightarrow> s < 32" "shift_ok TYPE(32) s \<longleftrightarrow> s < 32" "shift_ok TYPE(64) s \<longleftrightarrow> s < 64"
  by (simp_all add: shift_ok_def)

section \<open>Growing buffers\<close>

definition ws_contents :: "WriteStream \<Rightarrow> u8 list" where
  "ws_contents st = ws_flushed st @ take (ws_current st) (ws_buffer st)"

definition ws_wf :: "WriteStream \<Rightarrow> bool" where
  "ws_wf st \<longleftrightarrow> length (ws_buffer st) = ws_capacity st \<and> ws_current st \<le> ws_capacity st
     \<and> (\<exists>k\<le>60. ws_initial_size st = 2 ^ k) \<and> (ws_kind st \<noteq> StreamingStream \<longrightarrow> ws_flushed st = [])"

lemma RoundUp_bounds:
  assumes "n < 2 ^ 62" "k \<le> 60"
  shows "n \<le> unat (RoundUp (of_nat n :: u64) (of_nat (2 ^ k)))" "unat (RoundUp (of_nat n :: u64) (of_nat (2 ^ k))) < n + 2 ^ k"
proof -
  have k: "(2::nat) ^ k \<le> 2 ^ 60" using assms(2) by (intro power_increasing) simp_all
  have un: "unat (of_nat n :: u64) = n" using assms(1) by (intro of_nat_inverse [OF refl]) simp
  have uk: "unat (2 ^ k :: u64) = 2 ^ k" using assms(2) by simp
  have "unat (RoundUp (of_nat n :: u64) (2 ^ k)) = (n + 2 ^ k - 1) div 2 ^ k * 2 ^ k"
    using unat_RoundUp [of "2 ^ k :: u64" "of_nat n"] IsPowerOfTwo_pow2 [where 'a = 64, of k] assms k
    unfolding un uk by simp
  then have e: "unat (RoundUp (of_nat n :: u64) (of_nat (2 ^ k))) = (n + 2 ^ k - 1) div 2 ^ k * 2 ^ k" by simp
  have d: "(n + 2 ^ k - 1) div 2 ^ k * 2 ^ k + (n + 2 ^ k - 1) mod 2 ^ k = n + 2 ^ k - 1" by (rule div_mult_mod_eq)
  have m: "(n + 2 ^ k - 1) mod 2 ^ k < 2 ^ k" by simp
  have p: "(1::nat) \<le> 2 ^ k" by simp
  show "n \<le> unat (RoundUp (of_nat n :: u64) (of_nat (2 ^ k)))" unfolding e using d m p by linarith
  show "unat (RoundUp (of_nat n :: u64) (of_nat (2 ^ k))) < n + 2 ^ k" unfolding e using d p by linarith
qed

lemma Realloc_correct:
  assumes wf: "ws_wf st" and n: "ws_capacity st < n" "n < 2 ^ 62" and alloc: "\<And>n. alloc n"
  obtains st' where "Realloc alloc st n = Some st'" "ws_wf st'" "ws_contents st' = ws_contents st"
    "n - ws_current st \<le> Remaining st'" "ws_kind st' = ws_kind st" "n \<le> ws_capacity st'"
    "ws_capacity st' \<le> n + 2 ^ 16" "ws_initial_size st' = ws_initial_size st"
proof (cases "ws_kind st = StreamingStream")
  case False
  let ?st = "st\<lparr>ws_buffer := resized (ws_buffer st) n, ws_capacity := n\<rparr>"
  have "Realloc alloc st n = Some ?st"
    using False alloc by (cases "ws_kind st") (simp_all add: Realloc_def Realloc_malloc_def Realloc_zone_def)
  moreover have "take (ws_current st) (resized (ws_buffer st) n) = take (ws_current st) (ws_buffer st)"
    using wf n(1) by (simp add: resized_def ws_wf_def)
  ultimately show ?thesis
    using that [of ?st] wf n(1) by (auto simp: ws_wf_def ws_contents_def resized_def Remaining_def)
next
  case True
  let ?c = "unat (RoundUp (of_nat n :: u64) (of_nat (2 ^ 16)))"
  let ?st = "(Flush st)\<lparr>ws_buffer := resized (ws_buffer st) ?c, ws_capacity := ?c, ws_current := 0\<rparr>"
  have c: "n \<le> ?c" "?c < n + 2 ^ 16" using RoundUp_bounds [OF n(2), of 16] by simp_all
  have "(64 * 1024 :: u64) = of_nat (2 ^ 16)" by simp
  then have "Realloc alloc st n = Some ?st"
    using True alloc n(1) by (simp add: Realloc_def Realloc_streaming_def Flush_def Let_def)
  then show ?thesis
    using that [of ?st] wf c n(1) True by (auto simp: ws_wf_def ws_contents_def resized_def Remaining_def Flush_def)
qed

lemma EnsureSpace_correct:
  assumes wf: "ws_wf st" and n: "ws_capacity st \<le> 2 ^ 60" "need \<le> 2 ^ 60" and alloc: "\<And>n. alloc n"
  obtains st' where "EnsureSpace alloc st need = Inr st'" "ws_wf st'" "ws_contents st' = ws_contents st"
    "need \<le> Remaining st'" "ws_kind st' = ws_kind st" "ws_initial_size st' = ws_initial_size st"
    "ws_capacity st' \<le> 2 * ws_capacity st + need + ws_initial_size st + 2 ^ 16"
    "Remaining st < need \<Longrightarrow> 2 * ws_capacity st \<le> ws_capacity st'"
proof (cases "need \<le> Remaining st")
  case True
  then show ?thesis using that [of st] wf by (simp add: EnsureSpace_def)
next
  case False
  obtain k where k: "k \<le> 60" "ws_initial_size st = 2 ^ k" using wf by (auto simp: ws_wf_def)
  let ?i = "if ws_capacity st < need then unat (RoundUp (of_nat need :: u64) (of_nat (ws_initial_size st)))
     else ws_capacity st"
  have kb: "(2::nat) ^ k \<le> 2 ^ 60" using k(1) by (intro power_increasing) simp_all
  have b: "need \<le> unat (RoundUp (of_nat need :: u64) (of_nat (2 ^ k)))"
      "unat (RoundUp (of_nat need :: u64) (of_nat (2 ^ k))) < need + 2 ^ k"
    using n(2) k(1) by (intro RoundUp_bounds; simp)+
  have i: "need \<le> ?i" "?i \<le> 2 ^ 61" using b n kb unfolding k(2) by auto
  have pos: "0 < need" using False by auto
  have g: "ws_capacity st < ws_capacity st + ?i" "ws_capacity st + ?i < 2 ^ 62" using i pos n(1) by auto
  obtain st' where st': "Realloc alloc st (ws_capacity st + ?i) = Some st'" "ws_wf st'" "ws_contents st' = ws_contents st"
      "ws_capacity st + ?i - ws_current st \<le> Remaining st'" "ws_kind st' = ws_kind st"
      "ws_capacity st + ?i \<le> ws_capacity st'" "ws_capacity st' \<le> ws_capacity st + ?i + 2 ^ 16"
      "ws_initial_size st' = ws_initial_size st"
    by (rule Realloc_correct [OF wf g alloc])
  have "ws_current st \<le> ws_capacity st" using wf by (simp add: ws_wf_def)
  then have r: "need \<le> Remaining st'" using st'(4) i(1) by linarith
  have "EnsureSpace alloc st need = Inr st'"
    using False g(1) st'(1) r unfolding EnsureSpace_def Let_def by simp
  moreover have "ws_capacity st \<le> ?i" "?i \<le> ws_capacity st + need + 2 ^ k" using b unfolding k(2) by auto
  ultimately show ?thesis using that [of st'] st' r k(2) by auto
qed

definition ws_ok :: "WriteStream \<Rightarrow> bool" where
  "ws_ok st \<longleftrightarrow> ws_wf st \<and> ws_capacity st \<le> 2 ^ 41 \<and> ws_initial_size st \<le> 2 ^ 40"

lemma WriteByte_correct:
  assumes wf: "ws_wf st" and n: "ws_capacity st \<le> 2 ^ 60" "ws_initial_size st \<le> 2 ^ 40" and alloc: "\<And>n. alloc n"
  obtains st' where "WriteByte alloc st b = Inr st'" "ws_wf st'" "ws_contents st' = ws_contents st @ [b]"
    "ws_initial_size st' = ws_initial_size st" "ws_capacity st' + 2 ^ 41 \<le> 2 * (ws_capacity st + 2 ^ 41)"
proof -
  obtain s where s: "EnsureSpace alloc st 1 = Inr s" "ws_wf s" "ws_contents s = ws_contents st" "1 \<le> Remaining s"
      "ws_initial_size s = ws_initial_size st" "ws_capacity s \<le> 2 * ws_capacity st + 1 + ws_initial_size st + 2 ^ 16"
    by (rule EnsureSpace_correct [OF wf n(1) _ alloc, of 1]) simp_all
  let ?s = "s\<lparr>ws_buffer := (ws_buffer s)[ws_current s := b], ws_current := ws_current s + 1\<rparr>"
  have l: "ws_current s < length (ws_buffer s)" using s(2,4) by (simp add: ws_wf_def Remaining_def)
  have "take (Suc (ws_current s)) ((ws_buffer s)[ws_current s := b]) = take (ws_current s) (ws_buffer s) @ [b]"
    using l by (simp add: take_Suc_conv_app_nth)
  then have "ws_contents ?s = ws_contents st @ [b]" using s(3) by (simp add: ws_contents_def)
  moreover have "ws_wf ?s" using s(2,4) l by (auto simp: ws_wf_def)
  moreover have "ws_capacity ?s + 2 ^ 41 \<le> 2 * (ws_capacity st + 2 ^ 41)" using s(6) n(2) by simp
  ultimately show ?thesis using that [of ?s] s(1,5) by (simp add: WriteByte_def)
qed

lemma WriteAll_correct:
  assumes "ws_wf st" "ws_capacity st + 2 ^ 41 \<le> 2 ^ (60 - length bs)" "length bs \<le> 18" "ws_initial_size st \<le> 2 ^ 40"
    and alloc: "\<And>n. alloc n"
  shows "\<exists>st'. WriteAll alloc st bs = Inr st' \<and> ws_wf st' \<and> ws_contents st' = ws_contents st @ bs"
  using assms(1-4)
proof (induction bs arbitrary: st)
  case Nil
  then show ?case by simp
next
  case (Cons b bs)
  have "(2::nat) ^ (60 - length (b # bs)) \<le> 2 ^ 60" by (intro power_increasing) simp_all
  then have n: "ws_capacity st \<le> 2 ^ 60" using Cons.prems(2) by simp
  obtain s where s: "WriteByte alloc st b = Inr s" "ws_wf s" "ws_contents s = ws_contents st @ [b]"
    "ws_initial_size s = ws_initial_size st" "ws_capacity s + 2 ^ 41 \<le> 2 * (ws_capacity st + 2 ^ 41)"
    by (rule WriteByte_correct [OF Cons.prems(1) n Cons.prems(4) alloc])
  have "60 - length bs = Suc (60 - length (b # bs))" using Cons.prems(3) by simp
  then have e: "2 ^ (60 - length bs) = 2 * (2 ^ (60 - length (b # bs)) :: nat)" by (simp only: power_Suc)
  have "ws_capacity s + 2 ^ 41 \<le> 2 ^ (60 - length bs)"
    unfolding e using s(5) mult_le_mono2 [OF Cons.prems(2), of 2] by (rule le_trans)
  then show ?case using Cons.IH [OF s(2)] Cons.prems(3,4) s(1,3,4) by auto
qed

lemma WriteAll_ok:
  assumes "ws_ok st" "length bs \<le> 10" "\<And>n. alloc n"
  shows "\<exists>st'. WriteAll alloc st bs = Inr st' \<and> ws_wf st' \<and> ws_contents st' = ws_contents st @ bs"
proof (rule WriteAll_correct [OF _ _ _ _ assms(3)])
  have "(2::nat) ^ 50 \<le> 2 ^ (60 - length bs)" using assms(2) by (intro power_increasing) simp_all
  then show "ws_capacity st + 2 ^ 41 \<le> 2 ^ (60 - length bs)" using assms(1) by (simp add: ws_ok_def)
qed (use assms in \<open>simp_all add: ws_ok_def\<close>)

lemma length_Write_bytes:
  fixes v :: "'a::len word"
  assumes "- (2 ^ n) \<le> sint v" "sint v < 2 ^ n"
  shows "length (Write_bytes v) \<le> n div 7 + 1"
  using assms
proof (induction v arbitrary: n rule: Write_bytes.induct)
  case (1 v)
  show ?case
  proof (cases "sint v < - 64 \<or> 63 < sint v")
    case True
    note f = fits_signed_step [OF "1.prems" True]
    have "length (Write_bytes (signed_drop_bit 7 v)) \<le> (n - 7) div 7 + 1"
      using "1.IH" [of "n - 7"] True f unfolding sint_sdiv128 by (simp add: stream_consts)
    then show ?thesis using True f(1) by (subst Write_bytes.simps) (simp add: stream_consts le_div_geq)
  qed (subst Write_bytes.simps, simp add: stream_consts)
qed

lemma length_WriteUnsigned_bytes:
  fixes v :: "'a::len word"
  assumes "unat v < 2 ^ n"
  shows "length (WriteUnsigned_bytes v) \<le> n div 7 + 1"
  using assms
proof (induction v arbitrary: n rule: WriteUnsigned_bytes.induct)
  case (1 v)
  show ?case
  proof (cases "127 < unat v")
    case True
    note f = fits_unsigned_step [OF "1.prems" True]
    have "length (WriteUnsigned_bytes (drop_bit 7 v)) \<le> (n - 7) div 7 + 1"
      using "1.IH" [OF True f(2)] .
    then show ?thesis using True f(1) by (subst WriteUnsigned_bytes.simps) (simp add: le_div_geq)
  qed (subst WriteUnsigned_bytes.simps, simp)
qed

lemma length_WriteLEB128_bytes: "length (WriteLEB128_bytes (v :: 'a::len word)) = length (WriteUnsigned_bytes v)"
proof (induction v rule: WriteUnsigned_bytes.induct)
  case (1 v)
  have "drop_bit 7 v = 0 \<longleftrightarrow> unat (drop_bit 7 v) = 0" by (simp add: unsigned_eq_0_iff)
  then have "drop_bit 7 v = 0 \<longleftrightarrow> \<not> 127 < unat v" by (simp add: unat_drop_div div_eq_0_iff not_less) linarith
  then show ?case using 1 by (subst WriteLEB128_bytes.simps, subst WriteUnsigned_bytes.simps) (simp add: Let_def)
qed

lemma length_WriteSLEB128_loop:
  fixes v :: "'a::len word"
  assumes "8 \<le> LENGTH('a)"
  shows "WriteSLEB128_loop (sint v < 0) v = Some bs \<Longrightarrow> length bs = length (Write_bytes v)"
proof (induction v arbitrary: bs rule: Write_bytes.induct)
  case (1 v)
  show ?case
  proof (cases "sint v < - 64 \<or> 63 < sint v")
    case True
    then obtain bs' where bs': "WriteSLEB128_loop (sint (signed_drop_bit 7 v) < 0) (signed_drop_bit 7 v) = Some bs'"
        "length bs = Suc (length bs')"
      using "1.prems" unfolding SLEB_step [OF assms, of v] by (auto split: if_splits bind_splits)
    have "length bs' = length (Write_bytes (signed_drop_bit 7 v))"
      using "1.IH" [OF _ bs'(1)] True by (simp add: stream_consts)
    then show ?thesis using bs'(2) True by (subst Write_bytes.simps) (simp add: stream_consts)
  next
    case False
    then show ?thesis using "1.prems" unfolding SLEB_step [OF assms, of v] by (subst Write_bytes.simps) (auto simp: stream_consts)
  qed
qed

section \<open>Properties\<close>

lemma sint_fits: "- (2 ^ (LENGTH('a) - 1)) \<le> sint (v :: 'a::len word)" "sint (v :: 'a::len word) < 2 ^ (LENGTH('a) - 1)"
  using sint_ge [of v] sint_lt [of v] by simp_all

lemma remaining_at:
  assumes "ws_contents st' = ws_contents st @ bs"
  obtains rs where "new_ReadStream_at (ws_contents st') (length (ws_contents st)) = Some rs" "remaining_bytes rs = bs"
  using assms that by (simp add: new_ReadStream_at_def rs_SetPosition_def new_ReadStream_def remaining_bytes_def)

text \<open>
  C16. Writing a value of any width from 8 to 64 bits to a stream of any kind succeeds when the
  allocator does, appends its encoding to the contents, and reading at the old position gives the
  value back and consumes the whole encoding; for the signed and for the unsigned encoding.
\<close>

theorem Write_Read_roundtrip:
  fixes v :: "'a::len word"
  assumes "ws_ok st" "8 \<le> LENGTH('a)" "LENGTH('a) \<le> 64" "\<forall>n. alloc n"
  shows "(\<exists>st' rs. ws_Write alloc st v = Inr st' \<and> ws_contents st' = ws_contents st @ Write_bytes v \<and>
      Option.bind (new_ReadStream_at (ws_contents st') (length (ws_contents st))) Read_value = Some (v, rs)
      \<and> remaining_bytes rs = []) \<and>
    (\<exists>st' rs. WriteUnsigned alloc st v = Inr st' \<and> ws_contents st' = ws_contents st @ WriteUnsigned_bytes v \<and>
      Option.bind (new_ReadStream_at (ws_contents st') (length (ws_contents st))) ReadUnsigned = Some (v, rs)
      \<and> remaining_bytes rs = [])"
proof
  have alloc: "\<And>n. alloc n" using assms(4) by blast
  have "length (Write_bytes v) \<le> (LENGTH('a) - 1) div 7 + 1" by (rule length_Write_bytes [OF sint_fits])
  then have "length (Write_bytes v) \<le> 10" using assms(3) by linarith
  then obtain st' where st': "ws_Write alloc st v = Inr st'" "ws_contents st' = ws_contents st @ Write_bytes v"
    using WriteAll_ok [where alloc = alloc, OF assms(1) _ alloc] unfolding ws_Write_def by blast
  obtain rs where rs: "new_ReadStream_at (ws_contents st') (length (ws_contents st)) = Some rs"
    "remaining_bytes rs = Write_bytes v" by (rule remaining_at [OF st'(2)])
  have "\<exists>rs'. Read_value rs = Some (v, rs') \<and> remaining_bytes rs' = []"
    using Read_step_Write [of 0 v rs "[]" 0] assms(2) rs(2) sint_fits [of v]
    by (simp add: Read_value_def Read_marker_step)
  then show "\<exists>st' rs. ws_Write alloc st v = Inr st' \<and> ws_contents st' = ws_contents st @ Write_bytes v \<and>
      Option.bind (new_ReadStream_at (ws_contents st') (length (ws_contents st))) Read_value = Some (v, rs)
      \<and> remaining_bytes rs = []"
    using st' rs(1) by auto
next
  have alloc: "\<And>n. alloc n" using assms(4) by blast
  have "length (WriteUnsigned_bytes v) \<le> LENGTH('a) div 7 + 1"
    by (rule length_WriteUnsigned_bytes) (rule unsigned_less)
  then have "length (WriteUnsigned_bytes v) \<le> 10" using assms(3) by linarith
  then obtain st' where st': "WriteUnsigned alloc st v = Inr st'" "ws_contents st' = ws_contents st @ WriteUnsigned_bytes v"
    using WriteAll_ok [where alloc = alloc, OF assms(1) _ alloc] unfolding WriteUnsigned_def by blast
  obtain rs where rs: "new_ReadStream_at (ws_contents st') (length (ws_contents st)) = Some rs"
    "remaining_bytes rs = WriteUnsigned_bytes v" by (rule remaining_at [OF st'(2)])
  have "unat v < 2 ^ LENGTH('a)" by (rule unsigned_less)
  then have "\<exists>rs'. ReadUnsigned rs = Some (v, rs') \<and> remaining_bytes rs' = []"
    using Read_step_WriteUnsigned [of 0 v rs "[]" 0] assms(2) rs(2)
    by (simp add: ReadUnsigned_def Read_marker_step)
  then show "\<exists>st' rs. WriteUnsigned alloc st v = Inr st' \<and> ws_contents st' = ws_contents st @ WriteUnsigned_bytes v \<and>
      Option.bind (new_ReadStream_at (ws_contents st') (length (ws_contents st))) ReadUnsigned = Some (v, rs)
      \<and> remaining_bytes rs = []"
    using st' rs(1) by auto
qed

lemma sample_stream: "ws_ok (new_WriteStream kind 16)" "ws_contents (new_WriteStream kind 16) = []"
proof -
  have "RoundUpToPowerOfTwo 16 = 16" by (simp add: RoundUpToPowerOfTwo_def Let_def)
  then have i: "ws_initial_size (new_WriteStream kind 16) = 2 ^ 4" by (simp add: new_WriteStream_def)
  then have "\<exists>k\<le>60. ws_initial_size (new_WriteStream kind 16) = 2 ^ k" by (intro exI [of _ 4]) simp
  then show "ws_ok (new_WriteStream kind 16)"
    using i unfolding ws_ok_def ws_wf_def by (simp add: new_WriteStream_def)
  show "ws_contents (new_WriteStream kind 16) = []" by (simp add: ws_contents_def new_WriteStream_def)
qed

theorem Write_Read_roundtrip_witness:
  "\<exists>st' rs. ws_Write (\<lambda>_. True) (new_WriteStream MallocStream 16) (- 300 :: u32) = Inr st'
     \<and> Option.bind (new_ReadStream_at (ws_contents st') 0) Read_value = Some (- 300 :: u32, rs)"
  using Write_Read_roundtrip [of "new_WriteStream MallocStream 16" "\<lambda>_. True" "- 300 :: u32"] sample_stream [of MallocStream]
  by auto

text \<open>
  C27. The LEB128 encoding of an unsigned and the SLEB128 encoding of a signed value, of any width from 8
  to 64 bits, are written without a failing assertion, and reading at the old position gives the value
  back and consumes exactly what was written.
\<close>

theorem LEB128_roundtrip:
  fixes v :: "'a::len word"
  assumes "ws_ok st" "8 \<le> LENGTH('a)" "LENGTH('a) \<le> 64" "\<forall>n. alloc n"
  shows "(\<exists>st' rs. WriteLEB128 alloc st v = Inr st' \<and>
      Option.bind (new_ReadStream_at (ws_contents st') (length (ws_contents st))) ReadLEB128 = Some (v, rs)
      \<and> remaining_bytes rs = []) \<and>
    (\<exists>st' rs. WriteSLEB128 alloc st v = Inr st' \<and>
      Option.bind (new_ReadStream_at (ws_contents st') (length (ws_contents st))) ReadSLEB128 = Some (v, rs)
      \<and> remaining_bytes rs = [])"
proof
  have alloc: "\<And>n. alloc n" using assms(4) by blast
  have u: "unat v < 2 ^ LENGTH('a)" by (rule unsigned_less)
  then have "length (WriteLEB128_bytes v) \<le> 10"
    using length_WriteUnsigned_bytes [OF u] assms(3) unfolding length_WriteLEB128_bytes by linarith
  then obtain st' where st': "WriteLEB128 alloc st v = Inr st'" "ws_contents st' = ws_contents st @ WriteLEB128_bytes v"
    using WriteAll_ok [where alloc = alloc, OF assms(1) _ alloc] unfolding WriteLEB128_def by blast
  obtain rs where rs: "new_ReadStream_at (ws_contents st') (length (ws_contents st)) = Some rs"
    "remaining_bytes rs = WriteLEB128_bytes v" by (rule remaining_at [OF st'(2)])
  obtain s' b rs' where "ReadLEB128_loop rs 0 0 = Some (0 OR push_bit 0 v, s', b, rs')" "s' < 7 + LENGTH('a)" "remaining_bytes rs' = []"
    using ReadLEB128_loop_WriteLEB128 [of 0 v rs "[]" 0] assms(2) rs(2) u by auto
  then have "ReadLEB128 rs = Some (v, rs') \<and> remaining_bytes rs' = []" by (simp add: ReadLEB128_def)
  then show "\<exists>st' rs. WriteLEB128 alloc st v = Inr st' \<and>
      Option.bind (new_ReadStream_at (ws_contents st') (length (ws_contents st))) ReadLEB128 = Some (v, rs)
      \<and> remaining_bytes rs = []"
    using st'(1) rs(1) by auto
next
  have alloc: "\<And>n. alloc n" using assms(4) by blast
  have s0: "0 < LENGTH('a)" using assms(2) by simp
  obtain bs where bs: "WriteSLEB128_loop (sint v < 0) v = Some bs"
    and rd: "\<And>st rest r. remaining_bytes st = bs @ rest \<Longrightarrow>
      (\<exists>r' s' b st'. ReadLEB128_loop st r 0 = Some (r', s', b, st') \<and> s' < 7 + LENGTH('a) \<and> remaining_bytes st' = rest
        \<and> r' OR (if b AND kSignMask \<noteq> 0 \<and> s' < LENGTH('a) then NOT (push_bit s' 1 - 1) else 0) = r OR push_bit 0 v)"
    using ReadLEB128_loop_WriteSLEB128 [OF assms(2) s0, of v] sint_fits [of v] unfolding diff_zero by blast
  have "length bs \<le> (LENGTH('a) - 1) div 7 + 1"
    using length_WriteSLEB128_loop [OF assms(2) bs] length_Write_bytes [OF sint_fits, of v] by simp
  then have "length bs \<le> 10" using assms(3) by linarith
  then obtain st' where st': "WriteSLEB128 alloc st v = Inr st'" "ws_contents st' = ws_contents st @ bs"
    using WriteAll_ok [where alloc = alloc, OF assms(1) _ alloc] bs by (auto simp: WriteSLEB128_def WriteSLEB128_bytes_def)
  obtain rs where rs: "new_ReadStream_at (ws_contents st') (length (ws_contents st)) = Some rs"
    "remaining_bytes rs = bs @ []" using remaining_at [OF st'(2)] by auto
  from rd [OF rs(2), of 0] obtain r' s' b rs' where l: "ReadLEB128_loop rs 0 0 = Some (r', s', b, rs')" "s' < 7 + LENGTH('a)"
    "remaining_bytes rs' = []"
    "r' OR (if b AND kSignMask \<noteq> 0 \<and> s' < LENGTH('a) then NOT (push_bit s' 1 - 1) else 0) = 0 OR push_bit 0 v" by blast
  have "ReadSLEB128 rs = Some (0 OR push_bit 0 v, rs')" unfolding ReadSLEB128_def l(1) l(4) [symmetric] using l(2) by simp
  then show "\<exists>st' rs. WriteSLEB128 alloc st v = Inr st' \<and>
      Option.bind (new_ReadStream_at (ws_contents st') (length (ws_contents st))) ReadSLEB128 = Some (v, rs)
      \<and> remaining_bytes rs = []"
    using st'(1) rs(1) l(3) by auto
qed

theorem LEB128_roundtrip_witness:
  "\<exists>st' rs. WriteSLEB128 (\<lambda>_. True) (new_WriteStream ZoneStream 16) (0x8000000000000000 :: u64) = Inr st'
     \<and> Option.bind (new_ReadStream_at (ws_contents st') 0) ReadSLEB128 = Some (0x8000000000000000 :: u64, rs)"
  using LEB128_roundtrip [of "new_WriteStream ZoneStream 16" "\<lambda>_. True" "0x8000000000000000 :: u64"] sample_stream [of ZoneStream]
  by auto

text \<open>
  C37. The unrolled readers \<open>Read16\<close>, \<open>Read32\<close> and \<open>Read64\<close> are the generic loop: on every stream and for every end
  marker \<open>Read32\<close> and \<open>Read64\<close> fail exactly where the loop fails and otherwise return its value and its position.
  \<open>Read16\<close> does so for encodings of at most three bytes and fails on longer ones.  The loop accepts
  those, because it shifts a promoted 32-bit value.
\<close>

theorem unrolled_readers_agree:
  "Read16 m st = (case Read_marker m st of
       None \<Rightarrow> None
     | Some (v, st') \<Rightarrow> if rs_current st' \<le> rs_current st + 3 then Some (v, st') else None) \<and>
   Read32 m st = Read_marker m st \<and> Read64 m st = Read_marker m st"
proof (intro conjI)
  have 3: "UNROLLED_END m 14 st (r :: u16) = upto_position (rs_current st + 1) (Read_step m st r 14)" for st r
    by (rule UNROLLED_END_upto) (simp add: shift_ok_simps)
  have 2: "UNROLLED_BODY m 7 (UNROLLED_END m 14) st (r :: u16) = upto_position (rs_current st + 2) (Read_step m st r 7)" for st r
    using UNROLLED_BODY_upto [where s = 7 and k = "UNROLLED_END m 14" and j = 1 and 'a = 16] 3
    by (simp add: shift_ok_simps numeral_2_eq_2)
  have "UNROLLED_BODY m 0 (UNROLLED_BODY m 7 (UNROLLED_END m 14)) st (0 :: u16) =
      upto_position (rs_current st + 3) (Read_step m st 0 0)"
    using UNROLLED_BODY_upto [where s = 0 and k = "UNROLLED_BODY m 7 (UNROLLED_END m 14)" and j = 2 and 'a = 16] 2
    by (simp add: shift_ok_simps numeral_3_eq_3)
  then show "Read16 m st = (case Read_marker m st of
       None \<Rightarrow> None
     | Some (v, st') \<Rightarrow> if rs_current st' \<le> rs_current st + 3 then Some (v, st') else None)"
    by (simp add: Read16_def UNROLLED_INIT_BODY Read_marker_step upto_position_def)
  show "Read32 m st = Read_marker m st"
    unfolding Read32_def UNROLLED_INIT_BODY Read_marker_step
    by (simp add: UNROLLED_BODY_all UNROLLED_END_all shift_ok_simps)
  show "Read64 m st = Read_marker m st"
    unfolding Read64_def UNROLLED_INIT_BODY Read_marker_step
    by (simp add: UNROLLED_BODY_all UNROLLED_END_all shift_ok_simps)
qed

text \<open>
  C36. \<open>EnsureSpace\<close> on a well-formed stream of any kind returns, keeps what was written, including
  data already flushed by a streaming stream, and leaves room for the request.
\<close>

theorem EnsureSpace_keeps_contents:
  assumes "ws_wf st" "ws_capacity st \<le> 2 ^ 60" "need \<le> 2 ^ 60" "\<forall>n. alloc n"
  shows "\<exists>st'. EnsureSpace alloc st need = Inr st' \<and> ws_wf st' \<and> ws_contents st' = ws_contents st
    \<and> need \<le> Remaining st' \<and> ws_kind st' = ws_kind st"
proof -
  have al: "\<And>n. alloc n" using assms(4) by blast
  show ?thesis
    by (rule EnsureSpace_correct [where alloc = alloc, OF assms(1-3) al]) blast
qed

theorem EnsureSpace_keeps_contents_witness:
  "\<exists>st'. EnsureSpace (\<lambda>_. True) (new_WriteStream StreamingStream 16) 100 = Inr st' \<and> 100 \<le> Remaining st'"
  using EnsureSpace_keeps_contents [of "new_WriteStream StreamingStream 16" 100 "\<lambda>_. True"] sample_stream(1) [of StreamingStream]
  by (auto simp: ws_ok_def)

text \<open>
  A streaming stream never reuses the space that flushing frees: every time \<open>EnsureSpace\<close> has to
  make room, the internal buffer at least doubles, since \<open>Realloc\<close> is always asked for more than the
  present capacity.
\<close>

theorem Streaming_buffer_doubles:
  assumes "ws_wf st" "ws_kind st = StreamingStream" "ws_capacity st \<le> 2 ^ 60" "need \<le> 2 ^ 60" "\<forall>n. alloc n"
    and "Remaining st < need"
  shows "\<exists>st'. EnsureSpace alloc st need = Inr st' \<and> ws_current st' = 0 \<and> 2 * ws_capacity st \<le> ws_capacity st'"
proof -
  have al: "\<And>n. alloc n" using assms(5) by blast
  obtain st' where st': "EnsureSpace alloc st need = Inr st'" "2 * ws_capacity st \<le> ws_capacity st'"
    by (rule EnsureSpace_correct [where alloc = alloc, OF assms(1,3,4) al]) (use assms(6) in blast)
  have "ws_current s = 0" if "Realloc alloc st n = Some s" for n s
    using that assms(2) by (auto simp: Realloc_def Realloc_streaming_def Flush_def Let_def split: if_splits)
  then have "ws_current st' = 0"
    using st'(1) assms(6) by (auto simp: EnsureSpace_def Let_def split: if_splits option.splits)
  then show ?thesis using st' by blast
qed

theorem Streaming_buffer_doubles_witness:
  "\<exists>st'. EnsureSpace (\<lambda>_. True) (new_WriteStream StreamingStream 16) 1 = Inr st' \<and> ws_current st' = 0"
proof -
  let ?st = "new_WriteStream StreamingStream 16"
  have "ws_wf ?st" using sample_stream(1) by (simp add: ws_ok_def)
  moreover have "ws_kind ?st = StreamingStream" "ws_capacity ?st \<le> 2 ^ 60" "Remaining ?st < 1"
    by (simp_all add: new_WriteStream_def Remaining_def)
  ultimately show ?thesis using Streaming_buffer_doubles [of ?st 1 "\<lambda>_. True"] by auto
qed

end
