(* ===== verification/Range_Boundary.thy ===== *)
theory Range_Boundary
  imports Platform_Arith
begin

text \<open>
  Range boundaries of the optimising compiler
  (\<^verbatim>\<open>runtime/vm/compiler/backend/range_analysis.h\<close> and \<^verbatim>\<open>.cc\<close>): the class
  \<^verbatim>\<open>RangeBoundary\<close>, the part of the flow graph it looks at, and the canonicalisation of symbolic
  boundaries.

  An \<^verbatim>\<open>int64_t\<close> of these sources is an \<open>int\<close>; \<open>wf_boundary\<close> says that it is a 64-bit value and the
  lemmas show that every boundary the operations build is well formed.  The overflow tests are the ones
  of \<open>Platform_Arith\<close>, on words.  A failing \<^verbatim>\<open>ASSERT\<close> and a loop that does not end are \<open>None\<close>.
\<close>

section \<open>Data\<close>

subsection \<open>Boundaries and ranges\<close>

text \<open>A \<^verbatim>\<open>Definition*\<close> is a number: only the identity of a definition matters here.\<close>

type_synonym defn = nat

datatype RangeBoundary =
    kUnknown
  | kNegativeInfinity
  | kPositiveInfinity
  | kSymbol defn int
  | kConstant int

datatype RangeSize =
    kRangeBoundarySmi
  | kRangeBoundaryInt16
  | kRangeBoundaryInt32
  | kRangeBoundaryInt64

record Range =
  range_min :: RangeBoundary
  range_max :: RangeBoundary

subsection \<open>The flow graph\<close>

datatype Token =
    kADD | kSUB | kMUL | kTRUNCDIV | kMOD | kSHL | kSHR | kUSHR | kBIT_AND | kBIT_OR | kBIT_XOR
  | kDIV | kEQ | kNE | kLT | kGT | kLTE | kGTE

datatype Representation =
    kNoRepresentation | kTagged | kUntagged | kUnboxedUint8 | kUnboxedInt32 | kUnboxedUint32
  | kUnboxedInt64 | kUnboxedDouble

datatype constant_value = Smi int | Mint int | OtherObject

datatype SlotKind =
    kArray_length | kGrowableObjectArray_length | kTypedDataBase_length | kTypedDataView_offset_in_bytes
  | kTypeArguments_length | kString_length | kDartField | kCapturedVariable
  | kLinkedHashMap_index | kLinkedHashMap_data | kGrowableObjectArray_data | kContext_parent | kTypeArguments
  | kClosure_context | kClosure_delayed_type_arguments | kClosure_function | kClosure_function_type_arguments
  | kClosure_instantiator_type_arguments | kClosureData_default_type_arguments | kFunction_data
  | kFunction_signature | kFunctionType_parameter_names | kFunctionType_parameter_types
  | kFunctionType_type_parameters | kPointerBase_data_field | kTypedDataView_data | kType_arguments
  | kTypeArgumentsIndex | kTypeParameter_bound | kTypeParameter_name | kUnhandledException_exception
  | kUnhandledException_stacktrace | kWeakProperty_key | kWeakProperty_value | kArrayElement
  | kClosureData_default_type_arguments_kind | kFunction_kind_tag | kFunction_packed_fields
  | kTypeParameter_flags | kFunctionType_packed_fields | kClosure_hash | kLinkedHashMap_hash_mask
  | kLinkedHashMap_used_data | kLinkedHashMap_deleted_keys | kArgumentsDescriptor_type_args_len
  | kArgumentsDescriptor_positional_count | kArgumentsDescriptor_count | kArgumentsDescriptor_size

datatype ClassId =
    kTypedDataInt8ArrayCid | kTypedDataUint8ArrayCid | kTypedDataUint8ClampedArrayCid
  | kExternalTypedDataUint8ArrayCid | kExternalTypedDataUint8ClampedArrayCid | kTypedDataInt16ArrayCid
  | kTypedDataUint16ArrayCid | kTypedDataInt32ArrayCid | kTypedDataUint32ArrayCid | kOneByteStringCid
  | kExternalOneByteStringCid | kTwoByteStringCid | kExternalTwoByteStringCid | kOtherCid

text \<open>
  The instructions that define a value and that range inference tells apart.  \<^verbatim>\<open>BinaryIntegerOp\<close> and
  \<^verbatim>\<open>ShiftIntegerOp\<close> carry the representations of their two inputs and of their result.
\<close>

datatype instr =
    Constant constant_value
  | Constraint defn Range
  | Phi "defn list"
  | BinarySmiOp Token defn defn
  | BinaryIntegerOp Token defn defn Representation Representation Representation
  | ShiftIntegerOp Token defn defn Representation Representation
  | LoadField SlotKind Representation
  | LoadIndexed ClassId
  | LoadCodeUnits ClassId nat
  | Utf8Scan
  | IfThenElse int int
  | BoxInteger defn
  | UnboxInt32 defn
  | UnboxUint32 defn
  | UnboxInt64 defn
  | IntConverter Representation Representation defn
  | OtherDefinition

text \<open>
  What is fixed while ranges are inferred.  \<open>AllowsCSE\<close>, \<open>defn_Equals\<close>, \<open>IsArrayLength\<close> and \<open>Dominates\<close>
  stand for the methods of \<^verbatim>\<open>Instruction\<close>, \<^verbatim>\<open>Definition\<close> and \<^verbatim>\<open>BlockEntryInstr\<close> of these names;
  \<open>type_is_smi\<close> and \<open>type_is_int\<close> for \<^verbatim>\<open>Type()->ToCid() == kSmiCid\<close> and \<^verbatim>\<open>Type()->IsInt()\<close>.
\<close>

record flow_graph =
  instr_of :: "defn \<Rightarrow> instr"
  AllowsCSE :: "defn \<Rightarrow> bool"
  defn_Equals :: "defn \<Rightarrow> defn \<Rightarrow> bool"
  IsArrayLength :: "defn \<Rightarrow> bool"
  type_is_smi :: "defn \<Rightarrow> bool"
  type_is_int :: "defn \<Rightarrow> bool"
  IsInt64Definition :: "defn \<Rightarrow> bool"
  IsInt32Definition :: "defn \<Rightarrow> bool"
  defn_representation :: "defn \<Rightarrow> Representation"
  is_truncating :: "defn \<Rightarrow> bool"
  GetBlock :: "defn \<Rightarrow> nat"
  Dominates :: "nat \<Rightarrow> nat \<Rightarrow> bool"

text \<open>The field \<^verbatim>\<open>range_\<close> of every definition; \<open>None\<close> is the null pointer.\<close>

type_synonym ranges = "defn \<Rightarrow> Range option"

subsection \<open>Constants\<close>

definition kSmiMin :: int where "kSmiMin = - (2 ^ 62)"
definition kSmiMax :: int where "kSmiMax = 2 ^ 62 - 1"

definition in_int64 :: "int \<Rightarrow> bool" where
  "in_int64 x \<longleftrightarrow> - (2 ^ 63) \<le> x \<and> x < 2 ^ 63"

definition in_smi :: "int \<Rightarrow> bool" where
  "in_smi x \<longleftrightarrow> kSmiMin \<le> x \<and> x \<le> kSmiMax"

fun size_min :: "RangeSize \<Rightarrow> int" where
  "size_min kRangeBoundarySmi = kSmiMin"
| "size_min kRangeBoundaryInt16 = - (2 ^ 15)"
| "size_min kRangeBoundaryInt32 = - (2 ^ 31)"
| "size_min kRangeBoundaryInt64 = - (2 ^ 63)"

fun size_max :: "RangeSize \<Rightarrow> int" where
  "size_max kRangeBoundarySmi = kSmiMax"
| "size_max kRangeBoundaryInt16 = 2 ^ 15 - 1"
| "size_max kRangeBoundaryInt32 = 2 ^ 31 - 1"
| "size_max kRangeBoundaryInt64 = 2 ^ 63 - 1"

definition in_size :: "RangeSize \<Rightarrow> int \<Rightarrow> bool" where
  "in_size sz x \<longleftrightarrow> size_min sz \<le> x \<and> x \<le> size_max sz"

section \<open>Operations on boundaries\<close>

definition IsUnknown :: "RangeBoundary \<Rightarrow> bool" where
  "IsUnknown b \<longleftrightarrow> b = kUnknown"

fun IsConstant :: "RangeBoundary \<Rightarrow> bool" where
  "IsConstant (kConstant c) = True"
| "IsConstant _ = False"

fun IsSymbol :: "RangeBoundary \<Rightarrow> bool" where
  "IsSymbol (kSymbol s offset) = True"
| "IsSymbol _ = False"

definition IsInfinity :: "RangeBoundary \<Rightarrow> bool" where
  "IsInfinity b \<longleftrightarrow> b = kNegativeInfinity \<or> b = kPositiveInfinity"

definition IsConstantOrInfinity :: "RangeBoundary \<Rightarrow> bool" where
  "IsConstantOrInfinity b \<longleftrightarrow> IsConstant b \<or> IsInfinity b"

fun ConstantValue :: "RangeBoundary \<Rightarrow> int option" where
  "ConstantValue (kConstant c) = Some c"
| "ConstantValue _ = None"

fun symbol :: "RangeBoundary \<Rightarrow> defn option" where
  "symbol (kSymbol s offset) = Some s"
| "symbol _ = None"

text \<open>The field \<^verbatim>\<open>offset_\<close> is zero in every boundary that is not symbolic.\<close>

fun boundary_offset :: "RangeBoundary \<Rightarrow> int" where
  "boundary_offset (kSymbol s offset) = offset"
| "boundary_offset _ = 0"

definition IsValidOffsetForSymbolicRangeBoundary :: "int \<Rightarrow> bool" where
  "IsValidOffsetForSymbolicRangeBoundary offset \<longleftrightarrow>
     \<not> (offset > (2 ^ 63 - 1) - kSmiMax \<or> offset < - (2 ^ 63) - kSmiMin)"

definition MinSmi :: RangeBoundary where "MinSmi = kConstant kSmiMin"
definition MaxSmi :: RangeBoundary where "MaxSmi = kConstant kSmiMax"

definition MinConstant :: "RangeSize \<Rightarrow> RangeBoundary" where
  "MinConstant sz = kConstant (size_min sz)"

definition MaxConstant :: "RangeSize \<Rightarrow> RangeBoundary" where
  "MaxConstant sz = kConstant (size_max sz)"

fun boundary_Clamp :: "RangeSize \<Rightarrow> RangeBoundary \<Rightarrow> RangeBoundary" where
  "boundary_Clamp sz kNegativeInfinity = MinConstant sz"
| "boundary_Clamp sz kPositiveInfinity = MaxConstant sz"
| "boundary_Clamp sz (kConstant c) =
     (if c \<le> size_min sz then MinConstant sz
      else if c \<ge> size_max sz then MaxConstant sz
      else kConstant c)"
| "boundary_Clamp sz b = b"

definition target_IsSmi :: "int \<Rightarrow> bool option" where
  "target_IsSmi v = IsInt 63 (word_of_int v)"

definition OverflowedSmi :: "RangeBoundary \<Rightarrow> bool option" where
  "OverflowedSmi b =
     (case b of
        kConstant c \<Rightarrow> map_option Not (target_IsSmi c)
      | _ \<Rightarrow> Some (IsInfinity b))"

fun IsMinimumOrBelow :: "RangeSize \<Rightarrow> RangeBoundary \<Rightarrow> bool" where
  "IsMinimumOrBelow sz kNegativeInfinity = True"
| "IsMinimumOrBelow sz (kConstant c) = (c \<le> size_min sz)"
| "IsMinimumOrBelow sz _ = False"

fun IsMaximumOrAbove :: "RangeSize \<Rightarrow> RangeBoundary \<Rightarrow> bool" where
  "IsMaximumOrAbove sz kPositiveInfinity = True"
| "IsMaximumOrAbove sz (kConstant c) = (c \<ge> size_max sz)"
| "IsMaximumOrAbove sz _ = False"

definition boundary_Add :: "RangeBoundary \<Rightarrow> RangeBoundary \<Rightarrow> RangeBoundary \<Rightarrow> RangeBoundary option" where
  "boundary_Add a b overflow =
     (if IsInfinity a \<or> IsInfinity b then Some overflow
      else do {
        x \<leftarrow> ConstantValue a;
        y \<leftarrow> ConstantValue b;
        Some (if WillAddOverflow (word_of_int x) (word_of_int y) then overflow
              else kConstant (x + y))
      })"

definition boundary_Sub :: "RangeBoundary \<Rightarrow> RangeBoundary \<Rightarrow> RangeBoundary \<Rightarrow> RangeBoundary option" where
  "boundary_Sub a b overflow =
     (if IsInfinity a \<or> IsInfinity b then Some overflow
      else do {
        x \<leftarrow> ConstantValue a;
        y \<leftarrow> ConstantValue b;
        Some (if WillSubOverflow (word_of_int x) (word_of_int y) then overflow
              else kConstant (x - y))
      })"

definition boundary_Shl :: "RangeBoundary \<Rightarrow> int \<Rightarrow> RangeBoundary \<Rightarrow> RangeBoundary option" where
  "boundary_Shl value_boundary shift_count overflow =
     do {
       v \<leftarrow> ConstantValue value_boundary;
       if shift_count < 0 then None
       else
         let limit = 64 - shift_count
         in if v = 0 then Some (kConstant 0)
            else do {
              fits \<leftarrow> (if shift_count = 0 then Some True
                      else if limit > 0 then IsInt (nat limit) (word_of_int v)
                      else Some False);
              Some (if fits
                    then kConstant (sint (push_bit (nat shift_count) (word_of_int v :: u64)))
                    else overflow)
            }
     }"

definition boundary_Shr :: "RangeBoundary \<Rightarrow> int \<Rightarrow> RangeBoundary option" where
  "boundary_Shr value_boundary shift_count =
     do {
       v \<leftarrow> ConstantValue value_boundary;
       if shift_count < 0 then None
       else Some (kConstant
         (if shift_count \<le> 63
          then sint (signed_drop_bit (nat shift_count) (word_of_int v :: u64))
          else if v \<ge> 0 then 0 else - 1))
     }"

subsection \<open>Symbolic boundaries\<close>

fun IsConstantDefinition :: "flow_graph \<Rightarrow> defn \<Rightarrow> bool" where
  "IsConstantDefinition g d = (case instr_of g d of Constant c \<Rightarrow> True | _ \<Rightarrow> False)"

text \<open>\<^verbatim>\<open>Smi::Cast(d->AsConstant()->value()).Value()\<close>; the cast asserts that the object is a Smi.\<close>

definition SmiCast :: "flow_graph \<Rightarrow> defn \<Rightarrow> int option" where
  "SmiCast g d = (case instr_of g d of Constant (Smi c) \<Rightarrow> Some c | _ \<Rightarrow> None)"

definition FromDefinition :: "flow_graph \<Rightarrow> defn \<Rightarrow> int \<Rightarrow> RangeBoundary option" where
  "FromDefinition g d offs =
     (case SmiCast g d of
        Some c \<Rightarrow> Some (kConstant (c + offs))
      | None \<Rightarrow> if IsValidOffsetForSymbolicRangeBoundary offs then Some (kSymbol d offs) else None)"

text \<open>
  The two bounds follow the symbols through the ranges of their definitions.  The call of
  \<open>ConstantMinSmi\<close> (\<open>ConstantMaxSmi\<close>) of the source is written out, because it calls back.
\<close>

partial_function (option) LowerBound :: "ranges \<Rightarrow> RangeBoundary \<Rightarrow> RangeBoundary option" where
  "LowerBound R b =
     (case b of
        kUnknown \<Rightarrow> None
      | kNegativeInfinity \<Rightarrow> Some kNegativeInfinity
      | kPositiveInfinity \<Rightarrow> Some kNegativeInfinity
      | kConstant c \<Rightarrow> Some b
      | kSymbol s offset \<Rightarrow>
          do {
            m \<leftarrow> (case R s of
                    None \<Rightarrow> Some (MinConstant kRangeBoundarySmi)
                  | Some r \<Rightarrow> do {
                      l \<leftarrow> LowerBound R (range_min r);
                      Some (boundary_Clamp kRangeBoundarySmi l) });
            boundary_Add m (kConstant offset) kNegativeInfinity
          })"

partial_function (option) UpperBound :: "ranges \<Rightarrow> RangeBoundary \<Rightarrow> RangeBoundary option" where
  "UpperBound R b =
     (case b of
        kUnknown \<Rightarrow> None
      | kNegativeInfinity \<Rightarrow> Some kPositiveInfinity
      | kPositiveInfinity \<Rightarrow> Some kPositiveInfinity
      | kConstant c \<Rightarrow> Some b
      | kSymbol s offset \<Rightarrow>
          do {
            m \<leftarrow> (case R s of
                    None \<Rightarrow> Some (MaxConstant kRangeBoundarySmi)
                  | Some r \<Rightarrow> do {
                      l \<leftarrow> UpperBound R (range_max r);
                      Some (boundary_Clamp kRangeBoundarySmi l) });
            boundary_Add m (kConstant offset) kPositiveInfinity
          })"

declare LowerBound.simps [code]
declare UpperBound.simps [code]

definition LowerBound_size :: "ranges \<Rightarrow> RangeSize \<Rightarrow> RangeBoundary \<Rightarrow> int option" where
  "LowerBound_size R sz b =
     do { l \<leftarrow> LowerBound R b; ConstantValue (boundary_Clamp sz l) }"

definition UpperBound_size :: "ranges \<Rightarrow> RangeSize \<Rightarrow> RangeBoundary \<Rightarrow> int option" where
  "UpperBound_size R sz b =
     do { u \<leftarrow> UpperBound R b; ConstantValue (boundary_Clamp sz u) }"

definition SmiLowerBound :: "ranges \<Rightarrow> RangeBoundary \<Rightarrow> int option" where
  "SmiLowerBound R b = LowerBound_size R kRangeBoundarySmi b"

definition SmiUpperBound :: "ranges \<Rightarrow> RangeBoundary \<Rightarrow> int option" where
  "SmiUpperBound R b = UpperBound_size R kRangeBoundarySmi b"

text \<open>The results of \<open>SymbolicAdd\<close> and \<open>SymbolicSub\<close>: \<open>Some None\<close> is the answer false.\<close>

definition symbolic_sum :: "flow_graph \<Rightarrow> defn \<Rightarrow> int \<Rightarrow> int \<Rightarrow> RangeBoundary option option" where
  "symbolic_sum g s offs c =
     (if WillAddOverflow (word_of_int offs) (word_of_int c) then Some None
      else if \<not> IsValidOffsetForSymbolicRangeBoundary (offs + c) then Some None
      else map_option Some (FromDefinition g s (offs + c)))"

definition SymbolicAdd :: "flow_graph \<Rightarrow> RangeBoundary \<Rightarrow> RangeBoundary \<Rightarrow> RangeBoundary option option" where
  "SymbolicAdd g a b =
     (case (a, b) of
        (kSymbol s offs, kConstant c) \<Rightarrow> symbolic_sum g s offs c
      | (kConstant c, kSymbol s offs) \<Rightarrow> symbolic_sum g s offs c
      | _ \<Rightarrow> Some None)"

definition SymbolicSub :: "flow_graph \<Rightarrow> RangeBoundary \<Rightarrow> RangeBoundary \<Rightarrow> RangeBoundary option option" where
  "SymbolicSub g a b =
     (case (a, b) of
        (kSymbol s offs, kConstant c) \<Rightarrow>
          if WillSubOverflow (word_of_int offs) (word_of_int c) then Some None
          else if \<not> IsValidOffsetForSymbolicRangeBoundary (offs - c) then Some None
          else map_option Some (FromDefinition g s (offs - c))
      | _ \<Rightarrow> Some None)"

partial_function (option) UnwrapConstraint :: "flow_graph \<Rightarrow> defn \<Rightarrow> defn option" where
  "UnwrapConstraint g d =
     (case instr_of g d of Constraint e c \<Rightarrow> UnwrapConstraint g e | _ \<Rightarrow> Some d)"

declare UnwrapConstraint.simps [code]

definition AreEqualDefinitions :: "flow_graph \<Rightarrow> defn \<Rightarrow> defn \<Rightarrow> bool option" where
  "AreEqualDefinitions g a b =
     do {
       a \<leftarrow> UnwrapConstraint g a;
       b \<leftarrow> UnwrapConstraint g b;
       Some (a = b \<or> (AllowsCSE g a \<and> AllowsCSE g b \<and> defn_Equals g a b))
     }"

fun DependOnSameSymbol :: "flow_graph \<Rightarrow> RangeBoundary \<Rightarrow> RangeBoundary \<Rightarrow> bool option" where
  "DependOnSameSymbol g (kSymbol s _) (kSymbol t _) = AreEqualDefinitions g s t"
| "DependOnSameSymbol g _ _ = Some False"

fun boundary_Equals :: "flow_graph \<Rightarrow> RangeBoundary \<Rightarrow> RangeBoundary \<Rightarrow> bool option" where
  "boundary_Equals g (kConstant c) (kConstant d) = Some (c = d)"
| "boundary_Equals g (kSymbol s o1) (kSymbol t o2) =
     (if o1 = o2 then AreEqualDefinitions g s t else Some False)"
| "boundary_Equals g a b =
     Some ((IsInfinity a \<and> IsInfinity b \<and> a = b) \<or> (IsUnknown a \<and> IsUnknown b))"

definition Overflowed :: "flow_graph \<Rightarrow> RangeSize \<Rightarrow> RangeBoundary \<Rightarrow> bool option" where
  "Overflowed g sz b =
     (if IsConstantOrInfinity b then map_option Not (boundary_Equals g b (boundary_Clamp sz b))
      else None)"

subsection \<open>Canonicalisation\<close>

text \<open>
  The loop of \<open>CanonicalizeBoundary\<close> on the pair of symbol and offset; \<open>Some None\<close> is the early return of
  \<open>overflow\<close>.
\<close>

partial_function (option) Canonicalize_loop ::
    "flow_graph \<Rightarrow> defn \<Rightarrow> int \<Rightarrow> (defn \<times> int) option option" where
  "Canonicalize_loop g s offset =
     (case instr_of g s of
        Constraint e c \<Rightarrow> Canonicalize_loop g e offset
      | BinarySmiOp op left right \<Rightarrow>
          (if op = kADD then
             (if IsConstantDefinition g right then do {
                rhs \<leftarrow> SmiCast g right;
                if WillAddOverflow (word_of_int offset) (word_of_int rhs) then Some None
                else Canonicalize_loop g left (offset + rhs) }
              else if IsConstantDefinition g left then do {
                rhs \<leftarrow> SmiCast g left;
                if WillAddOverflow (word_of_int offset) (word_of_int rhs) then Some None
                else Canonicalize_loop g right (offset + rhs) }
              else Some (Some (s, offset)))
           else if op = kSUB then
             (if IsConstantDefinition g right then do {
                rhs \<leftarrow> SmiCast g right;
                if WillSubOverflow (word_of_int offset) (word_of_int rhs) then Some None
                else Canonicalize_loop g left (offset - rhs) }
              else Some (Some (s, offset)))
           else Some (Some (s, offset)))
      | _ \<Rightarrow> Some (Some (s, offset)))"

declare Canonicalize_loop.simps [code]

definition CanonicalizeBoundary ::
    "flow_graph \<Rightarrow> RangeBoundary \<Rightarrow> RangeBoundary \<Rightarrow> RangeBoundary option" where
  "CanonicalizeBoundary g a overflow =
     (if IsConstant a \<or> IsInfinity a then Some a
      else do {
        s \<leftarrow> symbol a;
        res \<leftarrow> Canonicalize_loop g s (boundary_offset a);
        (case res of
           None \<Rightarrow> Some overflow
         | Some (s, offset) \<Rightarrow>
             if \<not> IsValidOffsetForSymbolicRangeBoundary offset then Some overflow
             else FromDefinition g s offset)
      })"

text \<open>
  The common step of \<open>CanonicalizeMaxBoundary\<close> and \<open>CanonicalizeMinBoundary\<close>: the symbol is replaced by
  the given end of its range.  The flag is the returned boolean.
\<close>

definition CanonicalizeEnd ::
    "flow_graph \<Rightarrow> (Range \<Rightarrow> RangeBoundary) \<Rightarrow> RangeBoundary \<Rightarrow> ranges \<Rightarrow> RangeBoundary
     \<Rightarrow> (bool \<times> RangeBoundary) option" where
  "CanonicalizeEnd g end_of infinity R a =
     (case a of
        kSymbol s offs \<Rightarrow>
          (case R s of
             None \<Rightarrow> Some (False, a)
           | Some r \<Rightarrow>
               (case end_of r of
                  kSymbol t o2 \<Rightarrow>
                    if WillAddOverflow (word_of_int o2) (word_of_int offs) then Some (True, infinity)
                    else if \<not> IsValidOffsetForSymbolicRangeBoundary (o2 + offs) then Some (True, infinity)
                    else do {
                      b \<leftarrow> FromDefinition g t (o2 + offs);
                      b \<leftarrow> CanonicalizeBoundary g b infinity;
                      Some (True, b) }
                | _ \<Rightarrow> Some (False, a)))
      | _ \<Rightarrow> Some (False, a))"

definition CanonicalizeMaxBoundary :: "flow_graph \<Rightarrow> ranges \<Rightarrow> RangeBoundary \<Rightarrow> (bool \<times> RangeBoundary) option" where
  "CanonicalizeMaxBoundary g R a = CanonicalizeEnd g range_max kPositiveInfinity R a"

definition CanonicalizeMinBoundary :: "flow_graph \<Rightarrow> ranges \<Rightarrow> RangeBoundary \<Rightarrow> (bool \<times> RangeBoundary) option" where
  "CanonicalizeMinBoundary g R a = CanonicalizeEnd g range_min kNegativeInfinity R a"

partial_function (option) Comparison_loop ::
    "flow_graph \<Rightarrow> (RangeBoundary \<Rightarrow> (bool \<times> RangeBoundary) option) \<Rightarrow> RangeBoundary \<Rightarrow> RangeBoundary
     \<Rightarrow> (RangeBoundary \<times> RangeBoundary) option option" where
  "Comparison_loop g op canonical_a canonical_b =
     do {
       same \<leftarrow> DependOnSameSymbol g canonical_a canonical_b;
       if same then Some (Some (canonical_a, canonical_b))
       else do {
         ca \<leftarrow> op canonical_a;
         if fst ca then Comparison_loop g op (snd ca) canonical_b
         else do {
           cb \<leftarrow> op canonical_b;
           if fst cb then Comparison_loop g op (snd ca) (snd cb)
           else Some None
         }
       }
     }"

declare Comparison_loop.simps [code]

definition CanonicalizeForComparison ::
    "flow_graph \<Rightarrow> RangeBoundary \<Rightarrow> RangeBoundary \<Rightarrow> (RangeBoundary \<Rightarrow> (bool \<times> RangeBoundary) option)
     \<Rightarrow> (RangeBoundary \<times> RangeBoundary) option option" where
  "CanonicalizeForComparison g a b op =
     (if \<not> IsSymbol a \<or> \<not> IsSymbol b then Some None else Comparison_loop g op a b)"

subsection \<open>Join and intersection of boundaries\<close>

definition JoinMin :: "flow_graph \<Rightarrow> ranges \<Rightarrow> RangeBoundary \<Rightarrow> RangeBoundary \<Rightarrow> RangeSize \<Rightarrow> RangeBoundary option" where
  "JoinMin g R a b sz =
     do {
       eq \<leftarrow> boundary_Equals g a b;
       if eq then Some b
       else do {
         canonical \<leftarrow> CanonicalizeForComparison g a b (CanonicalizeMinBoundary g R);
         (case canonical of
            Some (a, b) \<Rightarrow> Some (if boundary_offset a \<le> boundary_offset b then a else b)
          | None \<Rightarrow> do {
              inf_a \<leftarrow> LowerBound_size R sz a;
              inf_b \<leftarrow> LowerBound_size R sz b;
              sup_a \<leftarrow> UpperBound_size R sz a;
              sup_b \<leftarrow> UpperBound_size R sz b;
              lower_a \<leftarrow> LowerBound R a;
              lower_b \<leftarrow> LowerBound R b;
              overflowed_a \<leftarrow> Overflowed g sz lower_a;
              overflowed_b \<leftarrow> Overflowed g sz lower_b;
              Some (if sup_a \<le> inf_b \<and> \<not> overflowed_a then a
                    else if sup_b \<le> inf_a \<and> \<not> overflowed_b then b
                    else kConstant (min inf_a inf_b))
            })
       }
     }"

definition JoinMax :: "flow_graph \<Rightarrow> ranges \<Rightarrow> RangeBoundary \<Rightarrow> RangeBoundary \<Rightarrow> RangeSize \<Rightarrow> RangeBoundary option" where
  "JoinMax g R a b sz =
     do {
       eq \<leftarrow> boundary_Equals g a b;
       if eq then Some b
       else do {
         canonical \<leftarrow> CanonicalizeForComparison g a b (CanonicalizeMaxBoundary g R);
         (case canonical of
            Some (a, b) \<Rightarrow> Some (if boundary_offset a \<ge> boundary_offset b then a else b)
          | None \<Rightarrow> do {
              inf_a \<leftarrow> LowerBound_size R sz a;
              inf_b \<leftarrow> LowerBound_size R sz b;
              sup_a \<leftarrow> UpperBound_size R sz a;
              sup_b \<leftarrow> UpperBound_size R sz b;
              upper_a \<leftarrow> UpperBound R a;
              upper_b \<leftarrow> UpperBound R b;
              overflowed_a \<leftarrow> Overflowed g sz upper_a;
              overflowed_b \<leftarrow> Overflowed g sz upper_b;
              Some (if sup_a \<le> inf_b \<and> \<not> overflowed_b then b
                    else if sup_b \<le> inf_a \<and> \<not> overflowed_a then a
                    else kConstant (max sup_a sup_b))
            })
       }
     }"

definition IntersectionMin :: "flow_graph \<Rightarrow> ranges \<Rightarrow> RangeBoundary \<Rightarrow> RangeBoundary \<Rightarrow> RangeBoundary option" where
  "IntersectionMin g R a b =
     (if a = kPositiveInfinity \<or> b = kPositiveInfinity \<or> IsUnknown a \<or> IsUnknown b then None
      else do {
        eq \<leftarrow> boundary_Equals g a b;
        if eq then Some a
        else if IsMinimumOrBelow kRangeBoundarySmi a then Some b
        else if IsMinimumOrBelow kRangeBoundarySmi b then Some a
        else do {
          canonical \<leftarrow> CanonicalizeForComparison g a b (CanonicalizeMinBoundary g R);
          (case canonical of
             Some (a, b) \<Rightarrow> Some (if boundary_offset a \<ge> boundary_offset b then a else b)
           | None \<Rightarrow> do {
               inf_a \<leftarrow> SmiLowerBound R a;
               inf_b \<leftarrow> SmiLowerBound R b;
               Some (if inf_a \<ge> inf_b then a else b)
             })
        }
      })"

definition IntersectionMax :: "flow_graph \<Rightarrow> ranges \<Rightarrow> RangeBoundary \<Rightarrow> RangeBoundary \<Rightarrow> RangeBoundary option" where
  "IntersectionMax g R a b =
     (if a = kNegativeInfinity \<or> b = kNegativeInfinity \<or> IsUnknown a \<or> IsUnknown b then None
      else do {
        eq \<leftarrow> boundary_Equals g a b;
        if eq then Some a
        else if IsMaximumOrAbove kRangeBoundarySmi a then Some b
        else if IsMaximumOrAbove kRangeBoundarySmi b then Some a
        else do {
          canonical \<leftarrow> CanonicalizeForComparison g a b (CanonicalizeMaxBoundary g R);
          (case canonical of
             Some (a, b) \<Rightarrow> Some (if boundary_offset a \<le> boundary_offset b then a else b)
           | None \<Rightarrow> do {
               sup_a \<leftarrow> SmiUpperBound R a;
               sup_b \<leftarrow> SmiUpperBound R b;
               Some (if sup_a \<le> sup_b then a else b)
             })
        }
      })"

section \<open>Meaning of boundaries\<close>

text \<open>
  An environment gives the values of the definitions that have been evaluated.  \<open>lb_sat v b x\<close> says that
  \<open>x\<close> respects the lower boundary \<open>b\<close>; a symbolic boundary needs an evaluated definition with a Smi
  value.  A lower boundary of plus infinity only admits values above the 64-bit range.
\<close>

type_synonym env = "defn \<Rightarrow> int option"

fun lb_sat :: "env \<Rightarrow> RangeBoundary \<Rightarrow> int \<Rightarrow> bool" where
  "lb_sat v kUnknown x = False"
| "lb_sat v kNegativeInfinity x = True"
| "lb_sat v kPositiveInfinity x = (2 ^ 63 \<le> x)"
| "lb_sat v (kConstant c) x = (c \<le> x)"
| "lb_sat v (kSymbol s offset) x = (case v s of None \<Rightarrow> False | Some y \<Rightarrow> in_smi y \<and> y + offset \<le> x)"

fun ub_sat :: "env \<Rightarrow> RangeBoundary \<Rightarrow> int \<Rightarrow> bool" where
  "ub_sat v kUnknown x = False"
| "ub_sat v kNegativeInfinity x = (x < - (2 ^ 63))"
| "ub_sat v kPositiveInfinity x = True"
| "ub_sat v (kConstant c) x = (x \<le> c)"
| "ub_sat v (kSymbol s offset) x = (case v s of None \<Rightarrow> False | Some y \<Rightarrow> in_smi y \<and> x \<le> y + offset)"

definition in_range :: "env \<Rightarrow> Range \<Rightarrow> int \<Rightarrow> bool" where
  "in_range v r x \<longleftrightarrow> lb_sat v (range_min r) x \<and> ub_sat v (range_max r) x"

text \<open>Well-formed boundaries hold 64-bit values and offsets that cannot wrap around.\<close>

fun wf_boundary :: "RangeBoundary \<Rightarrow> bool" where
  "wf_boundary (kConstant c) = in_int64 c"
| "wf_boundary (kSymbol s offset) = IsValidOffsetForSymbolicRangeBoundary offset"
| "wf_boundary _ = True"

definition wf_range :: "Range \<Rightarrow> bool" where
  "wf_range r \<longleftrightarrow>
     wf_boundary (range_min r) \<and> wf_boundary (range_max r) \<and>
     \<not> IsUnknown (range_min r) \<and> \<not> IsUnknown (range_max r) \<and>
     \<not> IsInfinity (range_min r) \<and> \<not> IsInfinity (range_max r)"

text \<open>
  What range analysis relies on.  \<open>well_ranked\<close>: Smi constants are Smis, the inputs that canonicalisation
  follows and the symbols in the range of a definition come before it in some order (SSA form and
  \<open>EnsureAcyclicSymbol\<close>), and assigned ranges are well formed.  \<open>execution\<close>: the environment agrees with
  constants, constraints and non-overflowing Smi additions and subtractions, definitions that common
  subexpression elimination may merge have equal values, and every evaluated definition lies in its range.
\<close>

fun symbol_rank :: "(defn \<Rightarrow> nat) \<Rightarrow> RangeBoundary \<Rightarrow> nat" where
  "symbol_rank rk (kSymbol s offset) = Suc (rk s)"
| "symbol_rank rk _ = 0"

definition wf_instr :: "flow_graph \<Rightarrow> (defn \<Rightarrow> nat) \<Rightarrow> defn \<Rightarrow> bool" where
  "wf_instr g rk d \<longleftrightarrow>
     (case instr_of g d of
        Constant (Smi c) \<Rightarrow> in_smi c
      | Constraint e c \<Rightarrow> rk e < rk d
      | BinarySmiOp op l r \<Rightarrow>
          rk l < rk d \<and> rk r < rk d \<and>
          (IsConstantDefinition g l \<longrightarrow> SmiCast g l \<noteq> None) \<and>
          (IsConstantDefinition g r \<longrightarrow> SmiCast g r \<noteq> None)
      | _ \<Rightarrow> True)"

definition well_ranked :: "flow_graph \<Rightarrow> ranges \<Rightarrow> (defn \<Rightarrow> nat) \<Rightarrow> bool" where
  "well_ranked g R rk \<longleftrightarrow>
     (\<forall>d. wf_instr g rk d) \<and>
     (\<forall>d r. R d = Some r \<longrightarrow> wf_range r \<and> symbol_rank rk (range_min r) \<le> rk d \<and>
        symbol_rank rk (range_max r) \<le> rk d)"

definition computes :: "flow_graph \<Rightarrow> env \<Rightarrow> defn \<Rightarrow> int \<Rightarrow> bool" where
  "computes g v d x \<longleftrightarrow>
     (case instr_of g d of
        Constant (Smi c) \<Rightarrow> x = c
      | Constraint e c \<Rightarrow> v e = Some x
      | BinarySmiOp op l r \<Rightarrow>
          (op = kADD \<longrightarrow> (\<exists>a b. v l = Some a \<and> v r = Some b \<and> in_smi a \<and> in_smi b \<and> x = a + b)) \<and>
          (op = kSUB \<longrightarrow> (\<exists>a b. v l = Some a \<and> v r = Some b \<and> in_smi a \<and> in_smi b \<and> x = a - b))
      | _ \<Rightarrow> True)"

definition execution :: "flow_graph \<Rightarrow> ranges \<Rightarrow> env \<Rightarrow> bool" where
  "execution g R v \<longleftrightarrow>
     (\<forall>d x. v d = Some x \<longrightarrow> computes g v d x) \<and>
     (\<forall>d x r. v d = Some x \<longrightarrow> R d = Some r \<longrightarrow> in_range v r x) \<and>
     (\<forall>d e x y. AllowsCSE g d \<longrightarrow> AllowsCSE g e \<longrightarrow> defn_Equals g d e \<longrightarrow>
        v d = Some x \<longrightarrow> v e = Some y \<longrightarrow> x = y)"

section \<open>Lemmas on constants and sizes\<close>

named_theorems range_defs "the arithmetic definitions of range analysis"

declare in_int64_def [range_defs] in_smi_def [range_defs] kSmiMin_def [range_defs] kSmiMax_def [range_defs]
  in_size_def [range_defs] IsValidOffsetForSymbolicRangeBoundary_def [range_defs]

lemma in_smi_int64: "in_smi x \<Longrightarrow> in_int64 x"
  by (simp add: range_defs)

lemma size_in_int64: "in_size sz x \<Longrightarrow> in_int64 x"
  by (cases sz) (simp_all add: range_defs)

lemma in_size_smi [simp]: "in_size kRangeBoundarySmi x \<longleftrightarrow> in_smi x"
  by (simp add: range_defs)

lemma in_size_int64 [simp]: "in_size kRangeBoundaryInt64 x \<longleftrightarrow> in_int64 x"
  by (auto simp: range_defs)

lemma size_bounds_in_size [simp]: "in_size sz (size_min sz)" "in_size sz (size_max sz)"
  by (cases sz; simp add: range_defs)+

lemma size_min_less_max: "size_min sz < size_max sz"
  by (cases sz) (simp_all add: range_defs)

lemma valid_offset_int64: "IsValidOffsetForSymbolicRangeBoundary off \<Longrightarrow> in_int64 off"
  by (simp add: range_defs)

lemma valid_offset_sum:
  "IsValidOffsetForSymbolicRangeBoundary off \<Longrightarrow> in_smi x \<Longrightarrow> in_int64 (x + off)"
  by (simp add: range_defs)

lemma sint_word_of_int: "in_int64 x \<Longrightarrow> sint (word_of_int x :: u64) = x"
  unfolding in_int64_def by (intro sint_in_range) simp_all

lemma will_add: "in_int64 a \<Longrightarrow> in_int64 b \<Longrightarrow>
    WillAddOverflow (word_of_int a) (word_of_int b) \<longleftrightarrow> \<not> in_int64 (a + b)"
  by (simp add: WillAddOverflow_iff sint_word_of_int in_int64_def)

lemma will_sub: "in_int64 a \<Longrightarrow> in_int64 b \<Longrightarrow>
    WillSubOverflow (word_of_int a) (word_of_int b) \<longleftrightarrow> \<not> in_int64 (a - b)"
  by (simp add: WillSubOverflow_iff sint_word_of_int in_int64_def)

lemma kConstant_not [simp]:
  "IsConstantOrInfinity (kConstant c)" "\<not> IsInfinity (kConstant c)" "\<not> IsUnknown (kConstant c)"
  "IsConstantOrInfinity kNegativeInfinity" "IsConstantOrInfinity kPositiveInfinity"
  "\<not> IsConstantOrInfinity kUnknown" "\<not> IsConstantOrInfinity (kSymbol s off)"
  "IsInfinity kNegativeInfinity" "IsInfinity kPositiveInfinity"
  "\<not> IsInfinity kUnknown" "\<not> IsInfinity (kSymbol s off)"
  "IsUnknown kUnknown" "\<not> IsUnknown kNegativeInfinity" "\<not> IsUnknown kPositiveInfinity"
  "\<not> IsUnknown (kSymbol s off)"
  by (simp_all add: IsConstantOrInfinity_def IsInfinity_def IsUnknown_def)

lemma IsConstant_cases:
  assumes "IsConstantOrInfinity b"
  obtains c where "b = kConstant c" | "b = kNegativeInfinity" | "b = kPositiveInfinity"
  using assms by (cases b) auto

text \<open>The value a constant or infinite boundary is clamped to.\<close>

definition clamp_value :: "RangeSize \<Rightarrow> int \<Rightarrow> int" where
  "clamp_value sz c = max (size_min sz) (min (size_max sz) c)"

declare boundary_Clamp.simps(3) [simp del]

lemma Clamp_constant [simp]: "boundary_Clamp sz (kConstant c) = kConstant (clamp_value sz c)"
  unfolding boundary_Clamp.simps(3) using size_min_less_max [of sz] by (auto simp: clamp_value_def MinConstant_def MaxConstant_def)

lemma clamp_value_in_size [simp]: "in_size sz (clamp_value sz c)"
  using size_min_less_max [of sz] by (auto simp: clamp_value_def in_size_def)

lemma clamp_value_le: "in_size sz x \<Longrightarrow> c \<le> x \<Longrightarrow> clamp_value sz c \<le> x"
  and clamp_value_ge: "in_size sz x \<Longrightarrow> x \<le> c \<Longrightarrow> x \<le> clamp_value sz c"
  by (auto simp: clamp_value_def in_size_def)

lemma clamp_value_id: "clamp_value sz c = c \<longleftrightarrow> in_size sz c" "c = clamp_value sz c \<longleftrightarrow> in_size sz c"
  using size_min_less_max [of sz] by (auto simp: clamp_value_def in_size_def)

lemma Clamp_is_constant:
  assumes "IsConstantOrInfinity b"
  obtains c where "boundary_Clamp sz b = kConstant c" "in_size sz c"
  using assms by (cases rule: IsConstant_cases) (auto simp: MinConstant_def MaxConstant_def)

lemma Clamp_lb:
  assumes "IsConstantOrInfinity b" "lb_sat v b x" "in_size sz x"
  shows "lb_sat v (boundary_Clamp sz b) x"
  using assms(1)
proof (cases rule: IsConstant_cases)
  case 3
  then show ?thesis using assms size_in_int64 [OF assms(3)] by (simp add: in_int64_def)
qed (use assms in \<open>simp_all add: MinConstant_def in_size_def clamp_value_le\<close>)

lemma Clamp_ub:
  assumes "IsConstantOrInfinity b" "ub_sat v b x" "in_size sz x"
  shows "ub_sat v (boundary_Clamp sz b) x"
  using assms(1)
proof (cases rule: IsConstant_cases)
  case 2
  then show ?thesis using assms size_in_int64 [OF assms(3)] by (simp add: in_int64_def)
qed (use assms in \<open>simp_all add: MaxConstant_def in_size_def clamp_value_ge\<close>)

section \<open>Lower and upper bounds\<close>

lemma well_rankedD:
  assumes "well_ranked g R rk"
  shows "wf_instr g rk d"
    and "R d = Some r \<Longrightarrow> wf_range r"
    and "R d = Some r \<Longrightarrow> symbol_rank rk (range_min r) \<le> rk d"
    and "R d = Some r \<Longrightarrow> symbol_rank rk (range_max r) \<le> rk d"
  using assms by (auto simp: well_ranked_def)

lemma executionD:
  assumes "execution g R v" "v d = Some x"
  shows "computes g v d x"
    and "R d = Some r \<Longrightarrow> lb_sat v (range_min r) x"
    and "R d = Some r \<Longrightarrow> ub_sat v (range_max r) x"
  using assms by (auto simp: execution_def in_range_def)

lemma boundary_Add_constants:
  assumes "in_int64 c" "in_int64 off"
  shows "boundary_Add (kConstant c) (kConstant off) overflow =
    Some (if in_int64 (c + off) then kConstant (c + off) else overflow)"
  using assms by (simp add: boundary_Add_def will_add)

lemma LowerBound_simps [simp]:
  "LowerBound R kUnknown = None" "LowerBound R kNegativeInfinity = Some kNegativeInfinity"
  "LowerBound R kPositiveInfinity = Some kNegativeInfinity"
  "LowerBound R (kConstant c) = Some (kConstant c)"
  by (simp_all add: LowerBound.simps)

lemma UpperBound_simps [simp]:
  "UpperBound R kUnknown = None" "UpperBound R kNegativeInfinity = Some kPositiveInfinity"
  "UpperBound R kPositiveInfinity = Some kPositiveInfinity"
  "UpperBound R (kConstant c) = Some (kConstant c)"
  by (simp_all add: UpperBound.simps)

lemma LowerBound_symbol:
  "R s = None \<Longrightarrow> LowerBound R (kSymbol s off) = boundary_Add (kConstant kSmiMin) (kConstant off) kNegativeInfinity"
  "R s = Some r \<Longrightarrow> LowerBound R (range_min r) = Some l \<Longrightarrow> LowerBound R (kSymbol s off) =
     boundary_Add (boundary_Clamp kRangeBoundarySmi l) (kConstant off) kNegativeInfinity"
  by (subst LowerBound.simps, simp add: MinConstant_def)+

lemma UpperBound_symbol:
  "R s = None \<Longrightarrow> UpperBound R (kSymbol s off) = boundary_Add (kConstant kSmiMax) (kConstant off) kPositiveInfinity"
  "R s = Some r \<Longrightarrow> UpperBound R (range_max r) = Some l \<Longrightarrow> UpperBound R (kSymbol s off) =
     boundary_Add (boundary_Clamp kRangeBoundarySmi l) (kConstant off) kPositiveInfinity"
  by (subst UpperBound.simps, simp add: MaxConstant_def)+

lemma LowerBound_spec:
  assumes "well_ranked g R rk" "wf_boundary b" "\<not> IsUnknown b"
  shows "\<exists>l. LowerBound R b = Some l \<and> IsConstantOrInfinity l \<and> l \<noteq> kPositiveInfinity \<and> wf_boundary l
    \<and> (\<forall>v x. execution g R v \<longrightarrow> lb_sat v b x \<longrightarrow> lb_sat v l x)"
  using assms(2,3)
proof (induction "symbol_rank rk b" arbitrary: b rule: less_induct)
  case less
  show ?case
  proof (cases b)
    case (kSymbol s off)
    have off: "in_int64 off" using less.prems kSymbol by (simp add: valid_offset_int64)
    obtain c where c: "LowerBound R b = boundary_Add (kConstant c) (kConstant off) kNegativeInfinity"
      and smi: "in_smi c"
      and sound: "\<And>v y. execution g R v \<Longrightarrow> v s = Some y \<Longrightarrow> in_smi y \<Longrightarrow> c \<le> y"
    proof (cases "R s")
      case None
      then show ?thesis
        using that [of kSmiMin] kSymbol by (simp add: LowerBound_symbol in_smi_def kSmiMin_def kSmiMax_def)
    next
      case (Some r)
      have "symbol_rank rk (range_min r) < symbol_rank rk b"
        using well_rankedD(3) [OF assms(1) Some] kSymbol by simp
      moreover have "wf_boundary (range_min r)" "\<not> IsUnknown (range_min r)"
        using well_rankedD(2) [OF assms(1) Some] by (simp_all add: wf_range_def)
      ultimately obtain l where l: "LowerBound R (range_min r) = Some l" "IsConstantOrInfinity l"
        and ls: "\<And>v x. execution g R v \<Longrightarrow> lb_sat v (range_min r) x \<Longrightarrow> lb_sat v l x"
        using less.hyps by blast
      obtain c where c: "boundary_Clamp kRangeBoundarySmi l = kConstant c" "in_smi c"
        using Clamp_is_constant [OF l(2), of kRangeBoundarySmi] by auto
      have "c \<le> y" if ex: "execution g R v" and y: "v s = Some y" "in_smi y" for v y
      proof -
        have "lb_sat v l y" by (rule ls [OF ex executionD(2) [OF ex y(1) Some]])
        then have "lb_sat v (boundary_Clamp kRangeBoundarySmi l) y" using l(2) y by (intro Clamp_lb) simp_all
        then show ?thesis by (simp add: c)
      qed
      then show ?thesis
        using that [of c] c l(1) Some kSymbol by (simp add: LowerBound_symbol)
    qed
    have "in_int64 c" by (rule in_smi_int64 [OF smi])
    with off c have "LowerBound R b =
        Some (if in_int64 (c + off) then kConstant (c + off) else kNegativeInfinity)"
      by (simp add: boundary_Add_constants)
    moreover have "c + off \<le> x" if "execution g R v" "lb_sat v b x" for v x
      using sound [OF that(1)] that(2) kSymbol by (fastforce split: option.splits)
    ultimately show ?thesis by auto
  qed (use less.prems in auto)
qed

lemma UpperBound_spec:
  assumes "well_ranked g R rk" "wf_boundary b" "\<not> IsUnknown b"
  shows "\<exists>u. UpperBound R b = Some u \<and> IsConstantOrInfinity u \<and> u \<noteq> kNegativeInfinity \<and> wf_boundary u
    \<and> (\<forall>v x. execution g R v \<longrightarrow> ub_sat v b x \<longrightarrow> ub_sat v u x)"
  using assms(2,3)
proof (induction "symbol_rank rk b" arbitrary: b rule: less_induct)
  case less
  show ?case
  proof (cases b)
    case (kSymbol s off)
    have off: "in_int64 off" using less.prems kSymbol by (simp add: valid_offset_int64)
    obtain c where c: "UpperBound R b = boundary_Add (kConstant c) (kConstant off) kPositiveInfinity"
      and smi: "in_smi c"
      and sound: "\<And>v y. execution g R v \<Longrightarrow> v s = Some y \<Longrightarrow> in_smi y \<Longrightarrow> y \<le> c"
    proof (cases "R s")
      case None
      then show ?thesis
        using that [of kSmiMax] kSymbol by (simp add: UpperBound_symbol in_smi_def kSmiMin_def kSmiMax_def)
    next
      case (Some r)
      have "symbol_rank rk (range_max r) < symbol_rank rk b"
        using well_rankedD(4) [OF assms(1) Some] kSymbol by simp
      moreover have "wf_boundary (range_max r)" "\<not> IsUnknown (range_max r)"
        using well_rankedD(2) [OF assms(1) Some] by (simp_all add: wf_range_def)
      ultimately obtain l where l: "UpperBound R (range_max r) = Some l" "IsConstantOrInfinity l"
        and ls: "\<And>v x. execution g R v \<Longrightarrow> ub_sat v (range_max r) x \<Longrightarrow> ub_sat v l x"
        using less.hyps by blast
      obtain c where c: "boundary_Clamp kRangeBoundarySmi l = kConstant c" "in_smi c"
        using Clamp_is_constant [OF l(2), of kRangeBoundarySmi] by auto
      have "y \<le> c" if ex: "execution g R v" and y: "v s = Some y" "in_smi y" for v y
      proof -
        have "ub_sat v l y" by (rule ls [OF ex executionD(3) [OF ex y(1) Some]])
        then have "ub_sat v (boundary_Clamp kRangeBoundarySmi l) y" using l(2) y by (intro Clamp_ub) simp_all
        then show ?thesis by (simp add: c)
      qed
      then show ?thesis
        using that [of c] c l(1) Some kSymbol by (simp add: UpperBound_symbol)
    qed
    have "in_int64 c" by (rule in_smi_int64 [OF smi])
    with off c have "UpperBound R b =
        Some (if in_int64 (c + off) then kConstant (c + off) else kPositiveInfinity)"
      by (simp add: boundary_Add_constants)
    moreover have "x \<le> c + off" if "execution g R v" "ub_sat v b x" for v x
      using sound [OF that(1)] that(2) kSymbol by (fastforce split: option.splits)
    ultimately show ?thesis by auto
  qed (use less.prems in auto)
qed

section \<open>Symbols and canonicalisation\<close>

text \<open>The value of a symbolic or constant boundary, where its symbol has an evaluated Smi value.\<close>

fun bval :: "env \<Rightarrow> RangeBoundary \<Rightarrow> int option" where
  "bval v (kConstant c) = Some c"
| "bval v (kSymbol s offset) =
     (case v s of None \<Rightarrow> None | Some y \<Rightarrow> if in_smi y then Some (y + offset) else None)"
| "bval v _ = None"

lemma bval_symbol_Some:
  "bval v (kSymbol s off) = Some z \<longleftrightarrow> (\<exists>y. v s = Some y \<and> in_smi y \<and> z = y + off)"
  by (auto split: option.splits if_splits)

lemma lb_sat_bval:
  assumes "IsSymbol b \<or> IsConstant b"
  shows "lb_sat v b x \<longleftrightarrow> (\<exists>z. bval v b = Some z \<and> z \<le> x)"
  using assms by (cases b) (auto split: option.splits)

lemma ub_sat_bval:
  assumes "IsSymbol b \<or> IsConstant b"
  shows "ub_sat v b x \<longleftrightarrow> (\<exists>z. bval v b = Some z \<and> x \<le> z)"
  using assms by (cases b) (auto split: option.splits)

lemma SmiCast_Some: "SmiCast g d = Some c \<longleftrightarrow> instr_of g d = Constant (Smi c)"
  by (auto simp: SmiCast_def split: instr.splits constant_value.splits)

lemma SmiCast_in_smi: "well_ranked g R rk \<Longrightarrow> SmiCast g d = Some c \<Longrightarrow> in_smi c"
  using well_rankedD(1) [of g R rk d] by (simp add: wf_instr_def SmiCast_Some)

lemma SmiCast_value: "execution g R v \<Longrightarrow> SmiCast g d = Some c \<Longrightarrow> v d = Some y \<Longrightarrow> y = c"
  using executionD(1) [of g R v d y] by (simp add: computes_def SmiCast_Some)

lemma FromDefinition_spec:
  assumes "well_ranked g R rk" "IsValidOffsetForSymbolicRangeBoundary off"
  shows "\<exists>b. FromDefinition g d off = Some b \<and> wf_boundary b \<and> (IsSymbol b \<or> IsConstant b)
    \<and> symbol_rank rk b \<le> Suc (rk d)
    \<and> (\<forall>v y. execution g R v \<longrightarrow> v d = Some y \<longrightarrow> in_smi y \<longrightarrow> bval v b = Some (y + off))"
proof (cases "SmiCast g d")
  case (Some c)
  then show ?thesis
    using valid_offset_sum [OF assms(2) SmiCast_in_smi [OF assms(1) Some]] SmiCast_value [OF _ Some]
    by (auto simp: FromDefinition_def)
qed (use assms(2) in \<open>simp add: FromDefinition_def\<close>)

lemma Canonicalize_step:
  assumes ranked: "well_ranked g R rk"
  shows "(\<forall>off. Canonicalize_loop g s off = Some (Some (s, off))) \<or>
    (\<exists>t k. rk t < rk s
      \<and> (\<forall>v y. execution g R v \<longrightarrow> v s = Some y \<longrightarrow> in_smi y \<longrightarrow> (\<exists>z. v t = Some z \<and> in_smi z \<and> y = z + k))
      \<and> (\<forall>off. in_int64 off \<longrightarrow> Canonicalize_loop g s off =
           (if in_int64 (off + k) then Canonicalize_loop g t (off + k) else Some None)))"
proof (cases "instr_of g s")
  case (Constraint e c)
  have "rk e < rk s" using well_rankedD(1) [OF ranked, of s] Constraint by (simp add: wf_instr_def)
  moreover have "v e = Some y" if "execution g R v" "v s = Some y" for v y
    using executionD(1) [OF that] Constraint by (simp add: computes_def)
  moreover have "Canonicalize_loop g s off = Canonicalize_loop g e off" for off
    using Constraint by (subst Canonicalize_loop.simps) simp
  ultimately show ?thesis
    by (intro disjI2 exI [of _ e] exI [of _ 0]) (auto simp: range_defs)
next
  case (BinarySmiOp op l r)
  have wf: "rk l < rk s" "rk r < rk s"
    "IsConstantDefinition g l \<Longrightarrow> \<exists>c. SmiCast g l = Some c"
    "IsConstantDefinition g r \<Longrightarrow> \<exists>c. SmiCast g r = Some c"
    using well_rankedD(1) [OF ranked, of s] BinarySmiOp by (auto simp: wf_instr_def)
  have add: "\<exists>a b. v l = Some a \<and> v r = Some b \<and> in_smi a \<and> in_smi b \<and> y = a + b"
    if "execution g R v" "v s = Some y" "op = kADD" for v y
    using executionD(1) [OF that(1,2)] BinarySmiOp that(3) by (simp add: computes_def)
  have sub: "\<exists>a b. v l = Some a \<and> v r = Some b \<and> in_smi a \<and> in_smi b \<and> y = a - b"
    if "execution g R v" "v s = Some y" "op = kSUB" for v y
    using executionD(1) [OF that(1,2)] BinarySmiOp that(3) by (simp add: computes_def)
  note smi = SmiCast_in_smi [OF ranked]
  consider (addr) c where "op = kADD" "IsConstantDefinition g r" "SmiCast g r = Some c"
    | (addl) c where "op = kADD" "\<not> IsConstantDefinition g r" "IsConstantDefinition g l" "SmiCast g l = Some c"
    | (subr) c where "op = kSUB" "IsConstantDefinition g r" "SmiCast g r = Some c"
    | (stop) "op = kADD \<Longrightarrow> \<not> IsConstantDefinition g l" "\<not> (op = kADD \<and> IsConstantDefinition g r)"
        "\<not> (op = kSUB \<and> IsConstantDefinition g r)"
    using wf by blast
  then show ?thesis
  proof cases
    case addr
    note s = SmiCast_value [OF _ addr(3)] and c = smi [OF addr(3)]
    show ?thesis
      by (rule disjI2, rule exI [of _ l], rule exI [of _ c])
        (use addr wf c s add BinarySmiOp in
          \<open>fastforce simp: Canonicalize_loop.simps [of g s] will_add in_smi_int64\<close>)
  next
    case addl
    note s = SmiCast_value [OF _ addl(4)] and c = smi [OF addl(4)]
    show ?thesis
      by (rule disjI2, rule exI [of _ r], rule exI [of _ c])
        (use addl wf c s add BinarySmiOp in
          \<open>fastforce simp: Canonicalize_loop.simps [of g s] will_add in_smi_int64\<close>)
  next
    case subr
    note s = SmiCast_value [OF _ subr(3)] and c = smi [OF subr(3)]
    show ?thesis
      by (rule disjI2, rule exI [of _ l], rule exI [of _ "- c"])
        (use subr wf c s sub BinarySmiOp in
          \<open>fastforce simp: Canonicalize_loop.simps [of g s] will_sub in_smi_int64\<close>)
  next
    case stop
    then show ?thesis using BinarySmiOp by (intro disjI1 allI, subst Canonicalize_loop.simps) auto
  qed
qed (simp_all add: Canonicalize_loop.simps [of g s])

lemma Canonicalize_loop_spec:
  assumes ranked: "well_ranked g R rk" and "in_int64 off"
  shows "\<exists>res. Canonicalize_loop g s off = Some res \<and>
    (\<forall>t k. res = Some (t, k) \<longrightarrow> rk t \<le> rk s \<and>
      (\<forall>v y. execution g R v \<longrightarrow> v s = Some y \<longrightarrow> in_smi y \<longrightarrow>
         (\<exists>z. v t = Some z \<and> in_smi z \<and> z + k = y + off)))"
  using assms(2)
proof (induction "rk s" arbitrary: s off rule: less_induct)
  case less
  from Canonicalize_step [OF ranked, of s] show ?case
  proof (elim disjE exE conjE)
    assume "\<forall>off. Canonicalize_loop g s off = Some (Some (s, off))"
    then show ?thesis by auto
  next
    fix t k
    assume rk: "rk t < rk s"
      and val: "\<forall>v y. execution g R v \<longrightarrow> v s = Some y \<longrightarrow> in_smi y \<longrightarrow>
        (\<exists>z. v t = Some z \<and> in_smi z \<and> y = z + k)"
      and step: "\<forall>off. in_int64 off \<longrightarrow> Canonicalize_loop g s off =
        (if in_int64 (off + k) then Canonicalize_loop g t (off + k) else Some None)"
    show ?thesis
    proof (cases "in_int64 (off + k)")
      case True
      from less.hyps [OF rk True] obtain res where res: "Canonicalize_loop g t (off + k) = Some res"
        and fin: "\<And>u j. res = Some (u, j) \<Longrightarrow> rk u \<le> rk t \<and>
          (\<forall>v y. execution g R v \<longrightarrow> v t = Some y \<longrightarrow> in_smi y \<longrightarrow>
             (\<exists>z. v u = Some z \<and> in_smi z \<and> z + j = y + (off + k)))"
        by blast
      have "rk u \<le> rk s \<and> (\<forall>v y. execution g R v \<longrightarrow> v s = Some y \<longrightarrow> in_smi y \<longrightarrow>
          (\<exists>z. v u = Some z \<and> in_smi z \<and> z + j = y + off))" if "res = Some (u, j)" for u j
        using fin [OF that] rk val by fastforce
      then show ?thesis using res step less.prems True by simp
    qed (use step less.prems in simp)
  qed
qed

lemma CanonicalizeBoundary_spec:
  assumes ranked: "well_ranked g R rk" and "wf_boundary b" "IsSymbol b \<or> IsConstant b"
  shows "\<exists>c. CanonicalizeBoundary g b overflow = Some c \<and>
    (c = overflow \<or> wf_boundary c \<and> (IsSymbol c \<or> IsConstant c) \<and> symbol_rank rk c \<le> symbol_rank rk b \<and>
      (\<forall>v z. execution g R v \<longrightarrow> bval v b = Some z \<longrightarrow> bval v c = Some z))"
proof (cases b)
  case (kSymbol s off)
  then have "in_int64 off" using assms(2) by (simp add: valid_offset_int64)
  from Canonicalize_loop_spec [OF ranked this, of s] obtain res
    where res: "Canonicalize_loop g s off = Some res"
      and fin: "\<And>t k. res = Some (t, k) \<Longrightarrow> rk t \<le> rk s \<and>
      (\<forall>v y. execution g R v \<longrightarrow> v s = Some y \<longrightarrow> in_smi y \<longrightarrow>
         (\<exists>z. v t = Some z \<and> in_smi z \<and> z + k = y + off))" by blast
  show ?thesis
  proof (cases "\<exists>t k. res = Some (t, k) \<and> IsValidOffsetForSymbolicRangeBoundary k")
    case False
    then show ?thesis using res kSymbol
      by (intro exI [of _ overflow]) (auto simp: CanonicalizeBoundary_def split: option.splits)
  next
    case True
    then obtain t k where tk: "res = Some (t, k)" and k: "IsValidOffsetForSymbolicRangeBoundary k" by blast
    from FromDefinition_spec [OF ranked k, of t] obtain c where c: "FromDefinition g t k = Some c"
        "wf_boundary c" "IsSymbol c \<or> IsConstant c" "symbol_rank rk c \<le> Suc (rk t)"
      and cv: "\<And>v y. execution g R v \<Longrightarrow> v t = Some y \<Longrightarrow> in_smi y \<Longrightarrow> bval v c = Some (y + k)" by blast
    have "bval v c = Some z" if "execution g R v" "bval v b = Some z" for v z
    proof -
      from that(2) obtain y where y: "v s = Some y" "in_smi y" "z = y + off"
        unfolding kSymbol bval_symbol_Some by blast
      then show ?thesis using fin [OF tk] cv [OF that(1)] that(1) by fastforce
    qed
    moreover have "CanonicalizeBoundary g b overflow = Some c"
      using res tk k c(1) kSymbol by (simp add: CanonicalizeBoundary_def)
    ultimately show ?thesis using c fin [OF tk] kSymbol by (intro exI [of _ c]) auto
  qed
qed (use assms in \<open>auto simp: CanonicalizeBoundary_def\<close>)

lemma CanonicalizeEnd_spec:
  assumes ranked: "well_ranked g R rk" and wf: "wf_boundary a"
    and ends: "\<And>s r. R s = Some r \<Longrightarrow> wf_boundary (end_of r) \<and> symbol_rank rk (end_of r) \<le> rk s"
  shows "\<exists>ch b. CanonicalizeEnd g end_of infinity R a = Some (ch, b) \<and> (\<not> ch \<longrightarrow> b = a) \<and>
    (ch \<longrightarrow> (\<exists>s off r t k. a = kSymbol s off \<and> R s = Some r \<and> end_of r = kSymbol t k \<and>
      (b = infinity \<or> wf_boundary b \<and> (IsSymbol b \<or> IsConstant b) \<and> symbol_rank rk b < symbol_rank rk a \<and>
        (\<forall>v y. execution g R v \<longrightarrow> v t = Some y \<longrightarrow> in_smi y \<longrightarrow> bval v b = Some (y + k + off)))))"
proof (cases "\<exists>s off r t k. a = kSymbol s off \<and> R s = Some r \<and> end_of r = kSymbol t k")
  case False
  then have "CanonicalizeEnd g end_of infinity R a = Some (False, a)"
    by (auto simp: CanonicalizeEnd_def split: RangeBoundary.splits option.splits)
  then show ?thesis by auto
next
  case True
  then obtain s off r t k where a: "a = kSymbol s off" "R s = Some r" "end_of r = kSymbol t k" by blast
  have off: "in_int64 off" "in_int64 k" and rk: "rk t < rk s"
    using wf ends [OF a(2)] a by (auto simp: valid_offset_int64)
  show ?thesis
  proof (cases "in_int64 (k + off) \<and> IsValidOffsetForSymbolicRangeBoundary (k + off)")
    case False
    then have "CanonicalizeEnd g end_of infinity R a = Some (True, infinity)"
      using a off by (simp add: CanonicalizeEnd_def will_add)
    then show ?thesis using a by auto
  next
    case True
    then have valid: "IsValidOffsetForSymbolicRangeBoundary (k + off)" by simp
    from FromDefinition_spec [OF ranked valid, of t] obtain b where b: "FromDefinition g t (k + off) = Some b"
        "wf_boundary b" "IsSymbol b \<or> IsConstant b" "symbol_rank rk b \<le> Suc (rk t)"
      and bv: "\<And>v y. execution g R v \<Longrightarrow> v t = Some y \<Longrightarrow> in_smi y \<Longrightarrow> bval v b = Some (y + (k + off))" by blast
    from CanonicalizeBoundary_spec [OF ranked b(2,3), of infinity] obtain c
      where c: "CanonicalizeBoundary g b infinity = Some c"
        and cs: "c = infinity \<or> wf_boundary c \<and> (IsSymbol c \<or> IsConstant c) \<and>
          symbol_rank rk c \<le> symbol_rank rk b \<and>
          (\<forall>v z. execution g R v \<longrightarrow> bval v b = Some z \<longrightarrow> bval v c = Some z)" by blast
    have "CanonicalizeEnd g end_of infinity R a = Some (True, c)"
      using a off True b(1) c by (simp add: CanonicalizeEnd_def will_add)
    moreover have "symbol_rank rk b < symbol_rank rk a" using b(4) rk a by simp
    ultimately show ?thesis using a cs bv by (intro exI [of _ True] exI [of _ c]) (auto simp: add.assoc)
  qed
qed

lemma CanonicalizeMinBoundary_spec:
  assumes ranked: "well_ranked g R rk" and wf: "wf_boundary a"
  shows "\<exists>ch b. CanonicalizeMinBoundary g R a = Some (ch, b) \<and> (\<not> ch \<longrightarrow> b = a) \<and>
    (ch \<longrightarrow> (\<exists>s off r t k. a = kSymbol s off \<and> R s = Some r \<and> range_min r = kSymbol t k \<and>
      (b = kNegativeInfinity \<or> wf_boundary b \<and> (IsSymbol b \<or> IsConstant b) \<and> symbol_rank rk b < symbol_rank rk a \<and>
        (\<forall>v y. execution g R v \<longrightarrow> v t = Some y \<longrightarrow> in_smi y \<longrightarrow> bval v b = Some (y + k + off)))))"
  unfolding CanonicalizeMinBoundary_def
  by (rule CanonicalizeEnd_spec [OF assms]) (use well_rankedD [OF ranked] in \<open>auto simp: wf_range_def\<close>)

lemma CanonicalizeMaxBoundary_spec:
  assumes ranked: "well_ranked g R rk" and wf: "wf_boundary a"
  shows "\<exists>ch b. CanonicalizeMaxBoundary g R a = Some (ch, b) \<and> (\<not> ch \<longrightarrow> b = a) \<and>
    (ch \<longrightarrow> (\<exists>s off r t k. a = kSymbol s off \<and> R s = Some r \<and> range_max r = kSymbol t k \<and>
      (b = kPositiveInfinity \<or> wf_boundary b \<and> (IsSymbol b \<or> IsConstant b) \<and> symbol_rank rk b < symbol_rank rk a \<and>
        (\<forall>v y. execution g R v \<longrightarrow> v t = Some y \<longrightarrow> in_smi y \<longrightarrow> bval v b = Some (y + k + off)))))"
  unfolding CanonicalizeMaxBoundary_def
  by (rule CanonicalizeEnd_spec [OF assms]) (use well_rankedD [OF ranked] in \<open>auto simp: wf_range_def\<close>)

subsection \<open>Equal symbols\<close>

lemma UnwrapConstraint_spec:
  assumes ranked: "well_ranked g R rk"
  shows "\<exists>e. UnwrapConstraint g d = Some e \<and> (\<forall>v x. execution g R v \<longrightarrow> v d = Some x \<longrightarrow> v e = Some x)"
proof (induction "rk d" arbitrary: d rule: less_induct)
  case less
  show ?case
  proof (cases "\<exists>e c. instr_of g d = Constraint e c")
    case True
    then obtain e c where e: "instr_of g d = Constraint e c" by blast
    then have "rk e < rk d" using well_rankedD(1) [OF ranked, of d] by (simp add: wf_instr_def)
    moreover have "v e = Some x" if "execution g R v" "v d = Some x" for v x
      using executionD(1) [OF that] e by (simp add: computes_def)
    moreover have "UnwrapConstraint g d = UnwrapConstraint g e"
      using e by (subst UnwrapConstraint.simps) simp
    ultimately show ?thesis using less.hyps [of e] by auto
  next
    case False
    then have "UnwrapConstraint g d = Some d"
      by (subst UnwrapConstraint.simps) (auto split: instr.splits)
    then show ?thesis by blast
  qed
qed

lemma AreEqualDefinitions_spec:
  assumes ranked: "well_ranked g R rk"
  shows "\<exists>q. AreEqualDefinitions g d e = Some q"
    and "AreEqualDefinitions g d e = Some True \<Longrightarrow> execution g R v \<Longrightarrow> v d = Some x \<Longrightarrow> v e = Some y \<Longrightarrow> x = y"
proof -
  from UnwrapConstraint_spec [OF ranked, of d] obtain d' where d: "UnwrapConstraint g d = Some d'"
    and dv: "\<And>v x. execution g R v \<Longrightarrow> v d = Some x \<Longrightarrow> v d' = Some x" by blast
  from UnwrapConstraint_spec [OF ranked, of e] obtain e' where e: "UnwrapConstraint g e = Some e'"
    and ev: "\<And>v x. execution g R v \<Longrightarrow> v e = Some x \<Longrightarrow> v e' = Some x" by blast
  show "\<exists>q. AreEqualDefinitions g d e = Some q" using d e by (simp add: AreEqualDefinitions_def)
  assume "AreEqualDefinitions g d e = Some True" "execution g R v" "v d = Some x" "v e = Some y"
  then have "v d' = Some x" "v e' = Some y" "d' = e' \<or> AllowsCSE g d' \<and> AllowsCSE g e' \<and> defn_Equals g d' e'"
    using d e dv ev by (auto simp: AreEqualDefinitions_def)
  then show "x = y" using \<open>execution g R v\<close> by (auto simp: execution_def)
qed

lemma DependOnSameSymbol_spec:
  assumes ranked: "well_ranked g R rk"
  shows "\<exists>q. DependOnSameSymbol g a b = Some q"
    and "DependOnSameSymbol g a b = Some True \<Longrightarrow> IsSymbol a \<and> IsSymbol b"
    and "DependOnSameSymbol g a b = Some True \<Longrightarrow> execution g R v \<Longrightarrow> bval v a = Some x \<Longrightarrow> bval v b = Some y
      \<Longrightarrow> x - boundary_offset a = y - boundary_offset b"
proof -
  show "\<exists>q. DependOnSameSymbol g a b = Some q"
    by (cases a; cases b) (auto simp: AreEqualDefinitions_spec(1) [OF ranked])
  assume d: "DependOnSameSymbol g a b = Some True"
  then show "IsSymbol a \<and> IsSymbol b" by (cases a; cases b) simp_all
  assume "execution g R v" "bval v a = Some x" "bval v b = Some y"
  then show "x - boundary_offset a = y - boundary_offset b"
    using d AreEqualDefinitions_spec(2) [OF ranked]
    by (cases a; cases b) (auto split: option.splits if_splits)
qed

lemma boundary_Equals_spec:
  assumes ranked: "well_ranked g R rk"
  shows "\<exists>q. boundary_Equals g a b = Some q"
    and "boundary_Equals g a b = Some True \<Longrightarrow> execution g R v \<Longrightarrow> bval v a = Some x \<Longrightarrow> bval v b = Some y \<Longrightarrow> x = y"
    and "boundary_Equals g a b = Some True \<Longrightarrow> \<not> IsSymbol a \<Longrightarrow> a = b"
    and "boundary_Equals g a b = Some True \<Longrightarrow> IsSymbol a \<longleftrightarrow> IsSymbol b"
proof -
  show "\<exists>q. boundary_Equals g a b = Some q"
    by (cases a; cases b) (auto simp: AreEqualDefinitions_spec(1) [OF ranked])
  assume d: "boundary_Equals g a b = Some True"
  then show "\<not> IsSymbol a \<Longrightarrow> a = b" "IsSymbol a \<longleftrightarrow> IsSymbol b" by (cases a; cases b; simp)+
  assume "execution g R v" "bval v a = Some x" "bval v b = Some y"
  then show "x = y"
    using d AreEqualDefinitions_spec(2) [OF ranked]
    by (cases a; cases b) (auto split: option.splits if_splits)
qed

lemma Overflowed_spec:
  assumes "IsConstantOrInfinity b"
  shows "Overflowed g sz b = Some (\<not> (\<exists>c. b = kConstant c \<and> in_size sz c))"
  using assms by (cases rule: IsConstant_cases) (auto simp: Overflowed_def MinConstant_def MaxConstant_def clamp_value_id)

subsection \<open>Comparison of symbolic boundaries\<close>

text \<open>
  The contract of the step functions \<^verbatim>\<open>BoundaryOp\<close> that \<open>CanonicalizeForComparison\<close> is called with: a step
  succeeds, moves a symbolic boundary to an earlier symbol and only weakens the boundary.
\<close>

locale boundary_step =
  fixes step :: "flow_graph \<Rightarrow> ranges \<Rightarrow> RangeBoundary \<Rightarrow> (bool \<times> RangeBoundary) option"
    and sat :: "env \<Rightarrow> RangeBoundary \<Rightarrow> int \<Rightarrow> bool"
  assumes step_total: "well_ranked g R rk \<Longrightarrow> wf_boundary a \<Longrightarrow> \<not> IsUnknown a \<Longrightarrow>
      \<exists>ch b. step g R a = Some (ch, b) \<and> wf_boundary b \<and> \<not> IsUnknown b \<and> (\<not> ch \<longrightarrow> b = a) \<and>
        (ch \<longrightarrow> symbol_rank rk b < symbol_rank rk a)"
    and step_sound: "well_ranked g R rk \<Longrightarrow> wf_boundary a \<Longrightarrow> execution g R v \<Longrightarrow>
      step g R a = Some (ch, b) \<Longrightarrow> sat v a x \<Longrightarrow> sat v b x"
begin

lemma Comparison_loop_spec:
  assumes ranked: "well_ranked g R rk" and "wf_boundary a" "\<not> IsUnknown a" "wf_boundary b" "\<not> IsUnknown b"
  shows "\<exists>res. Comparison_loop g (step g R) a b = Some res \<and>
    (\<forall>a' b'. res = Some (a', b') \<longrightarrow> DependOnSameSymbol g a' b' = Some True \<and> wf_boundary a' \<and> wf_boundary b' \<and>
      symbol_rank rk a' \<le> symbol_rank rk a \<and> symbol_rank rk b' \<le> symbol_rank rk b \<and>
      (\<forall>v x. execution g R v \<longrightarrow> (sat v a x \<longrightarrow> sat v a' x) \<and> (sat v b x \<longrightarrow> sat v b' x)))"
  using assms(2-5)
proof (induction "symbol_rank rk a + symbol_rank rk b" arbitrary: a b rule: less_induct)
  case less
  obtain q where q: "DependOnSameSymbol g a b = Some q" using DependOnSameSymbol_spec(1) [OF ranked] by blast
  obtain ca a1 where a1: "step g R a = Some (ca, a1)" "wf_boundary a1" "\<not> IsUnknown a1"
      "\<not> ca \<Longrightarrow> a1 = a" "ca \<Longrightarrow> symbol_rank rk a1 < symbol_rank rk a"
    using step_total [OF ranked less.prems(1,2)] by blast
  obtain cb b1 where b1: "step g R b = Some (cb, b1)" "wf_boundary b1" "\<not> IsUnknown b1"
      "\<not> cb \<Longrightarrow> b1 = b" "cb \<Longrightarrow> symbol_rank rk b1 < symbol_rank rk b"
    using step_total [OF ranked less.prems(3,4)] by blast
  note sound = step_sound [OF ranked less.prems(1) _ a1(1)] step_sound [OF ranked less.prems(3) _ b1(1)]
  note unfold = Comparison_loop.simps [of g "step g R" a b]
  consider "q" | "\<not> q" "ca" | "\<not> q" "\<not> ca" "cb" | "\<not> q" "\<not> ca" "\<not> cb" by blast
  then show ?case
  proof cases
    case 1
    then show ?thesis using q less.prems by (simp add: unfold)
  next
    case 2
    have "Comparison_loop g (step g R) a b = Comparison_loop g (step g R) a1 b"
      using 2 q a1(1) by (simp add: unfold)
    moreover have "symbol_rank rk a1 + symbol_rank rk b < symbol_rank rk a + symbol_rank rk b"
      using a1(5) 2 by simp
    ultimately show ?thesis using less.hyps [OF _ a1(2,3) less.prems(3,4)] sound(1) by fastforce
  next
    case 3
    have "Comparison_loop g (step g R) a b = Comparison_loop g (step g R) a b1"
      using 3 q a1(1,4) b1(1) by (simp add: unfold)
    moreover have "symbol_rank rk a + symbol_rank rk b1 < symbol_rank rk a + symbol_rank rk b"
      using b1(5) 3 by simp
    ultimately show ?thesis using less.hyps [OF _ less.prems(1,2) b1(2,3)] sound(2) by fastforce
  next
    case 4
    then show ?thesis using q a1(1) b1(1) by (simp add: unfold)
  qed
qed

lemma CanonicalizeForComparison_spec:
  assumes ranked: "well_ranked g R rk" and "wf_boundary a" "\<not> IsUnknown a" "wf_boundary b" "\<not> IsUnknown b"
  shows "\<exists>res. CanonicalizeForComparison g a b (step g R) = Some res \<and>
    (\<forall>a' b'. res = Some (a', b') \<longrightarrow> IsSymbol a \<and> IsSymbol b \<and> DependOnSameSymbol g a' b' = Some True \<and>
      wf_boundary a' \<and> wf_boundary b' \<and>
      symbol_rank rk a' \<le> symbol_rank rk a \<and> symbol_rank rk b' \<le> symbol_rank rk b \<and>
      (\<forall>v x. execution g R v \<longrightarrow> (sat v a x \<longrightarrow> sat v a' x) \<and> (sat v b x \<longrightarrow> sat v b' x)))"
proof (cases "IsSymbol a \<and> IsSymbol b")
  case True
  then show ?thesis
    using Comparison_loop_spec [OF assms] unfolding CanonicalizeForComparison_def by simp
next
  case False
  then have "CanonicalizeForComparison g a b (step g R) = Some None"
    by (auto simp: CanonicalizeForComparison_def)
  then show ?thesis by simp
qed

end

interpretation min_step: boundary_step CanonicalizeMinBoundary lb_sat
proof
  fix g R rk a
  assume ranked: "well_ranked g R rk" and a: "wf_boundary a" "\<not> IsUnknown a"
  from CanonicalizeMinBoundary_spec [OF ranked a(1)]
  show "\<exists>ch b. CanonicalizeMinBoundary g R a = Some (ch, b) \<and> wf_boundary b \<and> \<not> IsUnknown b \<and>
      (\<not> ch \<longrightarrow> b = a) \<and> (ch \<longrightarrow> symbol_rank rk b < symbol_rank rk a)"
    using a by (elim exE conjE, case_tac b) fastforce+
next
  fix g R rk a v ch b x
  assume ranked: "well_ranked g R rk" and a: "wf_boundary a" and ex: "execution g R v"
    and step: "CanonicalizeMinBoundary g R a = Some (ch, b)" and sat: "lb_sat v a x"
  from CanonicalizeMinBoundary_spec [OF ranked a] step
  have "\<not> ch \<longrightarrow> b = a" and ch: "ch \<longrightarrow> (\<exists>s off r t k. a = kSymbol s off \<and> R s = Some r \<and> range_min r = kSymbol t k \<and>
      (b = kNegativeInfinity \<or> wf_boundary b \<and> (IsSymbol b \<or> IsConstant b) \<and> symbol_rank rk b < symbol_rank rk a \<and>
        (\<forall>v y. execution g R v \<longrightarrow> v t = Some y \<longrightarrow> in_smi y \<longrightarrow> bval v b = Some (y + k + off))))"
    by auto
  moreover have "lb_sat v b x" if ch
  proof -
    from ch that obtain s off r t k where e: "a = kSymbol s off" "R s = Some r" "range_min r = kSymbol t k"
      and b: "b = kNegativeInfinity \<or> (IsSymbol b \<or> IsConstant b) \<and>
        (\<forall>v y. execution g R v \<longrightarrow> v t = Some y \<longrightarrow> in_smi y \<longrightarrow> bval v b = Some (y + k + off))" by blast
    from sat e obtain y where y: "v s = Some y" "y + off \<le> x" by (auto split: option.splits)
    then have "lb_sat v (kSymbol t k) y" using executionD(2) [OF ex y(1) e(2)] e(3) by simp
    then obtain z where "v t = Some z" "in_smi z" "z + k \<le> y" by (auto split: option.splits)
    then show ?thesis using b ex y(2) by (auto simp: lb_sat_bval)
  qed
  ultimately show "lb_sat v b x" using sat by blast
qed

interpretation max_step: boundary_step CanonicalizeMaxBoundary ub_sat
proof
  fix g R rk a
  assume ranked: "well_ranked g R rk" and a: "wf_boundary a" "\<not> IsUnknown a"
  from CanonicalizeMaxBoundary_spec [OF ranked a(1)]
  show "\<exists>ch b. CanonicalizeMaxBoundary g R a = Some (ch, b) \<and> wf_boundary b \<and> \<not> IsUnknown b \<and>
      (\<not> ch \<longrightarrow> b = a) \<and> (ch \<longrightarrow> symbol_rank rk b < symbol_rank rk a)"
    using a by (elim exE conjE, case_tac b) fastforce+
next
  fix g R rk a v ch b x
  assume ranked: "well_ranked g R rk" and a: "wf_boundary a" and ex: "execution g R v"
    and step: "CanonicalizeMaxBoundary g R a = Some (ch, b)" and sat: "ub_sat v a x"
  from CanonicalizeMaxBoundary_spec [OF ranked a] step
  have "\<not> ch \<longrightarrow> b = a" and ch: "ch \<longrightarrow> (\<exists>s off r t k. a = kSymbol s off \<and> R s = Some r \<and> range_max r = kSymbol t k \<and>
      (b = kPositiveInfinity \<or> wf_boundary b \<and> (IsSymbol b \<or> IsConstant b) \<and> symbol_rank rk b < symbol_rank rk a \<and>
        (\<forall>v y. execution g R v \<longrightarrow> v t = Some y \<longrightarrow> in_smi y \<longrightarrow> bval v b = Some (y + k + off))))"
    by auto
  moreover have "ub_sat v b x" if ch
  proof -
    from ch that obtain s off r t k where e: "a = kSymbol s off" "R s = Some r" "range_max r = kSymbol t k"
      and b: "b = kPositiveInfinity \<or> (IsSymbol b \<or> IsConstant b) \<and>
        (\<forall>v y. execution g R v \<longrightarrow> v t = Some y \<longrightarrow> in_smi y \<longrightarrow> bval v b = Some (y + k + off))" by blast
    from sat e obtain y where y: "v s = Some y" "x \<le> y + off" by (auto split: option.splits)
    then have "ub_sat v (kSymbol t k) y" using executionD(3) [OF ex y(1) e(2)] e(3) by simp
    then obtain z where "v t = Some z" "in_smi z" "y \<le> z + k" by (auto split: option.splits)
    then show ?thesis using b ex y(2) by (auto simp: ub_sat_bval)
  qed
  ultimately show "ub_sat v b x" using sat by blast
qed

section \<open>Join and intersection\<close>

lemma LowerBound_size_spec:
  assumes "well_ranked g R rk" "wf_boundary b" "\<not> IsUnknown b"
  shows "\<exists>i. LowerBound_size R sz b = Some i \<and> in_size sz i
    \<and> (\<forall>v x. execution g R v \<longrightarrow> in_size sz x \<longrightarrow> lb_sat v b x \<longrightarrow> i \<le> x)"
proof -
  obtain l where l: "LowerBound R b = Some l" "IsConstantOrInfinity l"
    "\<And>v x. execution g R v \<Longrightarrow> lb_sat v b x \<Longrightarrow> lb_sat v l x" using LowerBound_spec [OF assms] by blast
  obtain c where c: "boundary_Clamp sz l = kConstant c" "in_size sz c" using Clamp_is_constant [OF l(2)] .
  have "c \<le> x" if "execution g R v" "in_size sz x" "lb_sat v b x" for v x
    using Clamp_lb [OF l(2) l(3) [OF that(1,3)] that(2)] by (simp add: c)
  then show ?thesis using l(1) c by (simp add: LowerBound_size_def)
qed

lemma UpperBound_size_spec:
  assumes "well_ranked g R rk" "wf_boundary b" "\<not> IsUnknown b"
  shows "\<exists>i. UpperBound_size R sz b = Some i \<and> in_size sz i
    \<and> (\<forall>v x. execution g R v \<longrightarrow> in_size sz x \<longrightarrow> ub_sat v b x \<longrightarrow> x \<le> i)"
proof -
  obtain l where l: "UpperBound R b = Some l" "IsConstantOrInfinity l"
    "\<And>v x. execution g R v \<Longrightarrow> ub_sat v b x \<Longrightarrow> ub_sat v l x" using UpperBound_spec [OF assms] by blast
  obtain c where c: "boundary_Clamp sz l = kConstant c" "in_size sz c" using Clamp_is_constant [OF l(2)] .
  have "x \<le> c" if "execution g R v" "in_size sz x" "ub_sat v b x" for v x
    using Clamp_ub [OF l(2) l(3) [OF that(1,3)] that(2)] by (simp add: c)
  then show ?thesis using l(1) c by (simp add: UpperBound_size_def)
qed

text \<open>A symbolic boundary is representable when its symbol is evaluated and its value has the size.\<close>

fun representable :: "env \<Rightarrow> RangeSize \<Rightarrow> RangeBoundary \<Rightarrow> bool" where
  "representable v sz (kSymbol s offset) =
     (case bval v (kSymbol s offset) of None \<Rightarrow> False | Some z \<Rightarrow> in_size sz z)"
| "representable v sz _ = True"

lemma representable_symbol:
  "IsSymbol b \<Longrightarrow> representable v sz b \<longleftrightarrow> (\<exists>z. bval v b = Some z \<and> in_size sz z)"
  by (cases b) (auto split: option.splits)

lemma not_overflowed_sup:
  assumes ranked: "well_ranked g R rk" and a: "wf_boundary a" "\<not> IsUnknown a" and ex: "execution g R v"
    and fit: "representable v sz a" and l: "LowerBound R a = Some l" "Overflowed g sz l = Some False"
    and sup: "UpperBound_size R sz a = Some s"
  obtains z where "bval v a = Some z" "z \<le> s" "IsSymbol a \<or> IsConstant a"
proof (cases a)
  case (kConstant c)
  then have "in_size sz c" using l Overflowed_spec [of l g sz] by auto
  then have "clamp_value sz c = c" by (simp add: clamp_value_id)
  then show ?thesis using that [of c] sup kConstant by (simp add: UpperBound_size_def)
next
  case (kSymbol t off)
  then have "IsSymbol a" by simp
  then obtain z where z: "bval v a = Some z" "in_size sz z" using fit representable_symbol [of a v sz] by blast
  then have "ub_sat v a z" using kSymbol by (subst ub_sat_bval) simp_all
  then have "z \<le> s" using UpperBound_size_spec [OF ranked a, of sz] ex z(2) sup by auto
  then show ?thesis using that z(1) kSymbol by simp
qed (use a l Overflowed_spec [of l g sz] in auto)

lemma not_overflowed_inf:
  assumes ranked: "well_ranked g R rk" and a: "wf_boundary a" "\<not> IsUnknown a" and ex: "execution g R v"
    and fit: "representable v sz a" and l: "UpperBound R a = Some l" "Overflowed g sz l = Some False"
    and inf: "LowerBound_size R sz a = Some s"
  obtains z where "bval v a = Some z" "s \<le> z" "IsSymbol a \<or> IsConstant a"
proof (cases a)
  case (kConstant c)
  then have "in_size sz c" using l Overflowed_spec [of l g sz] by auto
  then have "clamp_value sz c = c" by (simp add: clamp_value_id)
  then show ?thesis using that [of c] inf kConstant by (simp add: LowerBound_size_def)
next
  case (kSymbol t off)
  then have "IsSymbol a" by simp
  then obtain z where z: "bval v a = Some z" "in_size sz z" using fit representable_symbol [of a v sz] by blast
  then have "lb_sat v a z" using kSymbol by (subst lb_sat_bval) simp_all
  then have "s \<le> z" using LowerBound_size_spec [OF ranked a, of sz] ex z(2) inf by auto
  then show ?thesis using that z(1) kSymbol by simp
qed (use a l Overflowed_spec [of l g sz] in auto)

lemma Equals_sat:
  assumes "well_ranked g R rk" "boundary_Equals g a b = Some True" "execution g R v"
    "representable v sz a" "representable v sz b"
  shows "lb_sat v a x \<longleftrightarrow> lb_sat v b x" "ub_sat v a x \<longleftrightarrow> ub_sat v b x"
proof -
  have "(lb_sat v a x \<longleftrightarrow> lb_sat v b x) \<and> (ub_sat v a x \<longleftrightarrow> ub_sat v b x)"
  proof (cases "IsSymbol a")
    case True
    then have "IsSymbol b" using boundary_Equals_spec(4) [OF assms(1,2)] by simp
    with True obtain y z where "bval v a = Some y" "bval v b = Some z"
      using assms(4,5) by (auto simp: representable_symbol)
    with True \<open>IsSymbol b\<close> show ?thesis
      using boundary_Equals_spec(2) [OF assms(1-3)] by (auto simp: lb_sat_bval ub_sat_bval)
  qed (use boundary_Equals_spec(3) [OF assms(1,2)] in simp)
  then show "lb_sat v a x \<longleftrightarrow> lb_sat v b x" "ub_sat v a x \<longleftrightarrow> ub_sat v b x" by simp_all
qed

lemma SameSymbol_sat:
  assumes ranked: "well_ranked g R rk" and same: "DependOnSameSymbol g a b = Some True"
    and ex: "execution g R v" and def: "bval v a = Some y" "bval v b = Some z"
    and le: "boundary_offset a \<le> boundary_offset b"
  shows "lb_sat v b x \<Longrightarrow> lb_sat v a x" "ub_sat v a x \<Longrightarrow> ub_sat v b x"
proof -
  have "IsSymbol a" "IsSymbol b" using DependOnSameSymbol_spec(2) [OF ranked same] by simp_all
  moreover have "y \<le> z" using DependOnSameSymbol_spec(3) [OF ranked same ex def] le by simp
  ultimately show "lb_sat v b x \<Longrightarrow> lb_sat v a x" "ub_sat v a x \<Longrightarrow> ub_sat v b x"
    using def by (auto simp: lb_sat_bval ub_sat_bval)
qed

lemma canonical_defined:
  assumes ranked: "well_ranked g R rk" and same: "DependOnSameSymbol g a' b' = Some True"
    and sym: "IsSymbol a" "IsSymbol b" and fit: "representable v sz a" "representable v sz b"
    and weak: "\<And>x. (sat v a x \<longrightarrow> sat v a' x) \<and> (sat v b x \<longrightarrow> sat v b' x)"
    and sat: "sat = lb_sat \<or> sat = ub_sat"
  obtains y z where "bval v a' = Some y" "bval v b' = Some z" "IsSymbol a'" "IsSymbol b'"
proof -
  obtain y z where "bval v a = Some y" "bval v b = Some z"
    using fit sym unfolding representable_symbol [OF sym(1)] representable_symbol [OF sym(2)] by blast
  then have "sat v a y" "sat v b z" using sym sat by (auto simp: lb_sat_bval ub_sat_bval)
  then have "sat v a' y" "sat v b' z" using weak by blast+
  moreover have "IsSymbol a'" "IsSymbol b'" using DependOnSameSymbol_spec(2) [OF ranked same] by simp_all
  ultimately show ?thesis using that sat by (auto simp: lb_sat_bval ub_sat_bval)
qed

text \<open>The three ways in which a join is decided: equal boundaries, one symbol, or constant bounds.\<close>

lemma canonical_join_sat:
  assumes ranked: "well_ranked g R rk" and ex: "execution g R v" and same: "DependOnSameSymbol g a' b' = Some True"
    and def: "bval v a' = Some y" "bval v b' = Some z"
  shows "lb_sat v a' x \<or> lb_sat v b' x \<Longrightarrow> lb_sat v (if boundary_offset a' \<le> boundary_offset b' then a' else b') x"
    and "ub_sat v a' x \<or> ub_sat v b' x \<Longrightarrow> ub_sat v (if boundary_offset a' \<ge> boundary_offset b' then a' else b') x"
proof -
  have "y - boundary_offset a' = z - boundary_offset b'" by (rule DependOnSameSymbol_spec(3) [OF ranked same ex def])
  moreover have "IsSymbol a'" "IsSymbol b'" using DependOnSameSymbol_spec(2) [OF ranked same] by simp_all
  ultimately show "lb_sat v a' x \<or> lb_sat v b' x \<Longrightarrow> lb_sat v (if boundary_offset a' \<le> boundary_offset b' then a' else b') x"
    "ub_sat v a' x \<or> ub_sat v b' x \<Longrightarrow> ub_sat v (if boundary_offset a' \<ge> boundary_offset b' then a' else b') x"
    using def by (auto simp: lb_sat_bval ub_sat_bval)
qed

lemma JoinMin_bounds:
  assumes ranked: "well_ranked g R rk" and a: "wf_boundary a" "\<not> IsUnknown a" and b: "wf_boundary b" "\<not> IsUnknown b"
  obtains ia ib sa sb oa ob where
    "LowerBound_size R sz a = Some ia" "LowerBound_size R sz b = Some ib"
    "UpperBound_size R sz a = Some sa" "UpperBound_size R sz b = Some sb"
    "do { l \<leftarrow> LowerBound R a; Overflowed g sz l } = Some oa"
    "do { l \<leftarrow> LowerBound R b; Overflowed g sz l } = Some ob"
    "in_size sz (min ia ib)"
    "\<And>v x. execution g R v \<Longrightarrow> representable v sz a \<Longrightarrow> representable v sz b \<Longrightarrow> in_size sz x \<Longrightarrow>
       lb_sat v a x \<or> lb_sat v b x \<Longrightarrow>
       lb_sat v (if sa \<le> ib \<and> \<not> oa then a else if sb \<le> ia \<and> \<not> ob then b else kConstant (min ia ib)) x"
proof -
  obtain ia where ia: "LowerBound_size R sz a = Some ia" "in_size sz ia"
      "\<And>v x. execution g R v \<Longrightarrow> in_size sz x \<Longrightarrow> lb_sat v a x \<Longrightarrow> ia \<le> x"
    using LowerBound_size_spec [OF ranked a] by blast
  obtain ib where ib: "LowerBound_size R sz b = Some ib" "in_size sz ib"
      "\<And>v x. execution g R v \<Longrightarrow> in_size sz x \<Longrightarrow> lb_sat v b x \<Longrightarrow> ib \<le> x"
    using LowerBound_size_spec [OF ranked b] by blast
  obtain sa sb where s: "UpperBound_size R sz a = Some sa" "UpperBound_size R sz b = Some sb"
    using UpperBound_size_spec [OF ranked a] UpperBound_size_spec [OF ranked b] by blast
  obtain la where la: "LowerBound R a = Some la" "IsConstantOrInfinity la" using LowerBound_spec [OF ranked a] by blast
  obtain lb where lb: "LowerBound R b = Some lb" "IsConstantOrInfinity lb" using LowerBound_spec [OF ranked b] by blast
  obtain oa ob where o: "Overflowed g sz la = Some oa" "Overflowed g sz lb = Some ob"
    using Overflowed_spec [OF la(2)] Overflowed_spec [OF lb(2)] by blast
  have sound: "lb_sat v (if sa \<le> ib \<and> \<not> oa then a else if sb \<le> ia \<and> \<not> ob then b else kConstant (min ia ib)) x"
    if ex: "execution g R v" and f: "representable v sz a" "representable v sz b"
      and x: "in_size sz x" "lb_sat v a x \<or> lb_sat v b x" for v x
  proof -
    have "lb_sat v a x" if c: "sa \<le> ib" "\<not> oa" "lb_sat v b x"
    proof -
      obtain z where "bval v a = Some z" "z \<le> sa" "IsSymbol a \<or> IsConstant a"
        by (rule not_overflowed_sup [OF ranked a ex f(1) la(1) _ s(1)]) (use o c in auto)
      then show ?thesis using ib(3) [OF ex x(1) c(3)] c(1) by (auto simp: lb_sat_bval)
    qed
    moreover have "lb_sat v b x" if c: "sb \<le> ia" "\<not> ob" "lb_sat v a x"
    proof -
      obtain z where "bval v b = Some z" "z \<le> sb" "IsSymbol b \<or> IsConstant b"
        by (rule not_overflowed_sup [OF ranked b ex f(2) lb(1) _ s(2)]) (use o c in auto)
      then show ?thesis using ia(3) [OF ex x(1) c(3)] c(1) by (auto simp: lb_sat_bval)
    qed
    moreover have "min ia ib \<le> x" using x(2) ia(3) [OF ex x(1)] ib(3) [OF ex x(1)] by auto
    ultimately show ?thesis using x(2) by auto
  qed
  have "in_size sz (min ia ib)" using ia(2) ib(2) by (simp add: min_def)
  show ?thesis
    by (rule that [OF ia(1) ib(1) s _ _ \<open>in_size sz (min ia ib)\<close> sound]) (use la lb o in auto)
qed

lemma JoinMin_spec:
  assumes ranked: "well_ranked g R rk" and a: "wf_boundary a" "\<not> IsUnknown a" and b: "wf_boundary b" "\<not> IsUnknown b"
  shows "\<exists>c. JoinMin g R a b sz = Some c \<and> wf_boundary c \<and> \<not> IsUnknown c \<and>
    symbol_rank rk c \<le> max (symbol_rank rk a) (symbol_rank rk b) \<and>
    (\<forall>v x. execution g R v \<longrightarrow> representable v sz a \<longrightarrow> representable v sz b \<longrightarrow> in_size sz x \<longrightarrow>
       lb_sat v a x \<or> lb_sat v b x \<longrightarrow> lb_sat v c x)"
proof -
  obtain q where q: "boundary_Equals g a b = Some q" using boundary_Equals_spec(1) [OF ranked] by blast
  obtain res where res: "CanonicalizeForComparison g a b (CanonicalizeMinBoundary g R) = Some res"
    and can: "\<And>a' b'. res = Some (a', b') \<Longrightarrow> IsSymbol a \<and> IsSymbol b \<and> DependOnSameSymbol g a' b' = Some True \<and>
      wf_boundary a' \<and> wf_boundary b' \<and>
      symbol_rank rk a' \<le> symbol_rank rk a \<and> symbol_rank rk b' \<le> symbol_rank rk b \<and>
      (\<forall>v x. execution g R v \<longrightarrow> (lb_sat v a x \<longrightarrow> lb_sat v a' x) \<and> (lb_sat v b x \<longrightarrow> lb_sat v b' x))"
    using min_step.CanonicalizeForComparison_spec [OF ranked a b] by blast
  consider (eq) "q" | (canonical) a' b' where "\<not> q" "res = Some (a', b')" | (bounds) "\<not> q" "res = None"
    by (cases res) auto
  then show ?thesis
  proof cases
    case eq
    then show ?thesis using q b Equals_sat(1) [OF ranked] by (auto simp: JoinMin_def)
  next
    case canonical
    let ?c = "if boundary_offset a' \<le> boundary_offset b' then a' else b'"
    note c = can [OF canonical(2)]
    have "lb_sat v ?c x" if ex: "execution g R v" and f: "representable v sz a" "representable v sz b"
      and x: "lb_sat v a x \<or> lb_sat v b x" for v x
    proof -
      obtain y z where "bval v a' = Some y" "bval v b' = Some z"
        by (rule canonical_defined [OF ranked _ _ _ f, of a' b' lb_sat]) (use c ex in auto)
      then show ?thesis using canonical_join_sat(1) [OF ranked ex, of a' b' y z x] c x ex by blast
    qed
    moreover have "JoinMin g R a b sz = Some ?c" using q res canonical by (simp add: JoinMin_def)
    moreover have "\<not> IsUnknown a'" "\<not> IsUnknown b'"
      using DependOnSameSymbol_spec(2) [OF ranked, of a' b'] c by (auto simp: IsUnknown_def)
    ultimately show ?thesis using c by (intro exI [of _ ?c]) auto
  next
    case bounds
    obtain ia ib sa sb oa ob where
      vals: "LowerBound_size R sz a = Some ia" "LowerBound_size R sz b = Some ib"
        "UpperBound_size R sz a = Some sa" "UpperBound_size R sz b = Some sb"
        "do { l \<leftarrow> LowerBound R a; Overflowed g sz l } = Some oa"
        "do { l \<leftarrow> LowerBound R b; Overflowed g sz l } = Some ob"
      and m: "in_size sz (min ia ib)"
      and sound: "\<And>v x. execution g R v \<Longrightarrow> representable v sz a \<Longrightarrow> representable v sz b \<Longrightarrow> in_size sz x \<Longrightarrow>
        lb_sat v a x \<or> lb_sat v b x \<Longrightarrow>
        lb_sat v (if sa \<le> ib \<and> \<not> oa then a else if sb \<le> ia \<and> \<not> ob then b else kConstant (min ia ib)) x"
      by (rule JoinMin_bounds [OF ranked a b, of sz]) (rule that, assumption+)
    have "JoinMin g R a b sz = Some (if sa \<le> ib \<and> \<not> oa then a else if sb \<le> ia \<and> \<not> ob then b else kConstant (min ia ib))"
      using q res bounds vals by (cases "LowerBound R a"; cases "LowerBound R b") (simp_all add: JoinMin_def)
    then show ?thesis using sound a b size_in_int64 [OF m] by auto
  qed
qed

lemma JoinMax_bounds:
  assumes ranked: "well_ranked g R rk" and a: "wf_boundary a" "\<not> IsUnknown a" and b: "wf_boundary b" "\<not> IsUnknown b"
  obtains ia ib sa sb oa ob where
    "LowerBound_size R sz a = Some ia" "LowerBound_size R sz b = Some ib"
    "UpperBound_size R sz a = Some sa" "UpperBound_size R sz b = Some sb"
    "do { l \<leftarrow> UpperBound R a; Overflowed g sz l } = Some oa"
    "do { l \<leftarrow> UpperBound R b; Overflowed g sz l } = Some ob"
    "in_size sz (max sa sb)"
    "\<And>v x. execution g R v \<Longrightarrow> representable v sz a \<Longrightarrow> representable v sz b \<Longrightarrow> in_size sz x \<Longrightarrow>
       ub_sat v a x \<or> ub_sat v b x \<Longrightarrow>
       ub_sat v (if sa \<le> ib \<and> \<not> ob then b else if sb \<le> ia \<and> \<not> oa then a else kConstant (max sa sb)) x"
proof -
  obtain ia where ia: "UpperBound_size R sz a = Some ia" "in_size sz ia"
      "\<And>v x. execution g R v \<Longrightarrow> in_size sz x \<Longrightarrow> ub_sat v a x \<Longrightarrow> x \<le> ia"
    using UpperBound_size_spec [OF ranked a] by blast
  obtain ib where ib: "UpperBound_size R sz b = Some ib" "in_size sz ib"
      "\<And>v x. execution g R v \<Longrightarrow> in_size sz x \<Longrightarrow> ub_sat v b x \<Longrightarrow> x \<le> ib"
    using UpperBound_size_spec [OF ranked b] by blast
  obtain sa sb where s: "LowerBound_size R sz a = Some sa" "LowerBound_size R sz b = Some sb"
    using LowerBound_size_spec [OF ranked a] LowerBound_size_spec [OF ranked b] by blast
  obtain la where la: "UpperBound R a = Some la" "IsConstantOrInfinity la" using UpperBound_spec [OF ranked a] by blast
  obtain lb where lb: "UpperBound R b = Some lb" "IsConstantOrInfinity lb" using UpperBound_spec [OF ranked b] by blast
  obtain oa ob where o: "Overflowed g sz la = Some oa" "Overflowed g sz lb = Some ob"
    using Overflowed_spec [OF la(2)] Overflowed_spec [OF lb(2)] by blast
  have sound: "ub_sat v (if ia \<le> sb \<and> \<not> ob then b else if ib \<le> sa \<and> \<not> oa then a else kConstant (max ia ib)) x"
    if ex: "execution g R v" and f: "representable v sz a" "representable v sz b"
      and x: "in_size sz x" "ub_sat v a x \<or> ub_sat v b x" for v x
  proof -
    have "ub_sat v a x" if c: "ib \<le> sa" "\<not> oa" "ub_sat v b x"
    proof -
      obtain z where "bval v a = Some z" "sa \<le> z" "IsSymbol a \<or> IsConstant a"
        by (rule not_overflowed_inf [OF ranked a ex f(1) la(1) _ s(1)]) (use o c in auto)
      then show ?thesis using ib(3) [OF ex x(1) c(3)] c(1) by (auto simp: ub_sat_bval)
    qed
    moreover have "ub_sat v b x" if c: "ia \<le> sb" "\<not> ob" "ub_sat v a x"
    proof -
      obtain z where "bval v b = Some z" "sb \<le> z" "IsSymbol b \<or> IsConstant b"
        by (rule not_overflowed_inf [OF ranked b ex f(2) lb(1) _ s(2)]) (use o c in auto)
      then show ?thesis using ia(3) [OF ex x(1) c(3)] c(1) by (auto simp: ub_sat_bval)
    qed
    moreover have "x \<le> max ia ib" using x(2) ia(3) [OF ex x(1)] ib(3) [OF ex x(1)] by auto
    ultimately show ?thesis using x(2) by auto
  qed
  have "in_size sz (max ia ib)" using ia(2) ib(2) by (simp add: max_def)
  show ?thesis
    by (rule that [OF s ia(1) ib(1) _ _ \<open>in_size sz (max ia ib)\<close> sound]) (use la lb o in auto)
qed

lemma JoinMax_spec:
  assumes ranked: "well_ranked g R rk" and a: "wf_boundary a" "\<not> IsUnknown a" and b: "wf_boundary b" "\<not> IsUnknown b"
  shows "\<exists>c. JoinMax g R a b sz = Some c \<and> wf_boundary c \<and> \<not> IsUnknown c \<and>
    symbol_rank rk c \<le> max (symbol_rank rk a) (symbol_rank rk b) \<and>
    (\<forall>v x. execution g R v \<longrightarrow> representable v sz a \<longrightarrow> representable v sz b \<longrightarrow> in_size sz x \<longrightarrow>
       ub_sat v a x \<or> ub_sat v b x \<longrightarrow> ub_sat v c x)"
proof -
  obtain q where q: "boundary_Equals g a b = Some q" using boundary_Equals_spec(1) [OF ranked] by blast
  obtain res where res: "CanonicalizeForComparison g a b (CanonicalizeMaxBoundary g R) = Some res"
    and can: "\<And>a' b'. res = Some (a', b') \<Longrightarrow> IsSymbol a \<and> IsSymbol b \<and> DependOnSameSymbol g a' b' = Some True \<and>
      wf_boundary a' \<and> wf_boundary b' \<and>
      symbol_rank rk a' \<le> symbol_rank rk a \<and> symbol_rank rk b' \<le> symbol_rank rk b \<and>
      (\<forall>v x. execution g R v \<longrightarrow> (ub_sat v a x \<longrightarrow> ub_sat v a' x) \<and> (ub_sat v b x \<longrightarrow> ub_sat v b' x))"
    using max_step.CanonicalizeForComparison_spec [OF ranked a b] by blast
  consider (eq) "q" | (canonical) a' b' where "\<not> q" "res = Some (a', b')" | (bounds) "\<not> q" "res = None"
    by (cases res) auto
  then show ?thesis
  proof cases
    case eq
    then show ?thesis using q b Equals_sat(2) [OF ranked] by (auto simp: JoinMax_def)
  next
    case canonical
    let ?c = "if boundary_offset a' \<ge> boundary_offset b' then a' else b'"
    note c = can [OF canonical(2)]
    have "ub_sat v ?c x" if ex: "execution g R v" and f: "representable v sz a" "representable v sz b"
      and x: "ub_sat v a x \<or> ub_sat v b x" for v x
    proof -
      obtain y z where "bval v a' = Some y" "bval v b' = Some z"
        by (rule canonical_defined [OF ranked _ _ _ f, of a' b' ub_sat]) (use c ex in auto)
      then show ?thesis using canonical_join_sat(2) [OF ranked ex, of a' b' y z x] c x ex by blast
    qed
    moreover have "JoinMax g R a b sz = Some ?c" using q res canonical by (simp add: JoinMax_def)
    moreover have "\<not> IsUnknown a'" "\<not> IsUnknown b'"
      using DependOnSameSymbol_spec(2) [OF ranked, of a' b'] c by (auto simp: IsUnknown_def)
    ultimately show ?thesis using c by (intro exI [of _ ?c]) auto
  next
    case bounds
    obtain ia ib sa sb oa ob where
      vals: "LowerBound_size R sz a = Some ia" "LowerBound_size R sz b = Some ib"
        "UpperBound_size R sz a = Some sa" "UpperBound_size R sz b = Some sb"
        "do { l \<leftarrow> UpperBound R a; Overflowed g sz l } = Some oa"
        "do { l \<leftarrow> UpperBound R b; Overflowed g sz l } = Some ob"
      and m: "in_size sz (max sa sb)"
      and sound: "\<And>v x. execution g R v \<Longrightarrow> representable v sz a \<Longrightarrow> representable v sz b \<Longrightarrow> in_size sz x \<Longrightarrow>
        ub_sat v a x \<or> ub_sat v b x \<Longrightarrow>
        ub_sat v (if sa \<le> ib \<and> \<not> ob then b else if sb \<le> ia \<and> \<not> oa then a else kConstant (max sa sb)) x"
      by (rule JoinMax_bounds [OF ranked a b, of sz]) (rule that, assumption+)
    have "JoinMax g R a b sz = Some (if sa \<le> ib \<and> \<not> ob then b else if sb \<le> ia \<and> \<not> oa then a else kConstant (max sa sb))"
      using q res bounds vals by (cases "UpperBound R a"; cases "UpperBound R b") (simp_all add: JoinMax_def)
    then show ?thesis using sound a b size_in_int64 [OF m] by auto
  qed
qed

lemma IntersectionMin_spec:
  assumes ranked: "well_ranked g R rk" and a: "wf_boundary a" "\<not> IsUnknown a" "a \<noteq> kPositiveInfinity"
    and b: "wf_boundary b" "\<not> IsUnknown b" "b \<noteq> kPositiveInfinity"
  shows "\<exists>c. IntersectionMin g R a b = Some c \<and> wf_boundary c \<and> \<not> IsUnknown c \<and>
    symbol_rank rk c \<le> max (symbol_rank rk a) (symbol_rank rk b) \<and>
    (\<forall>v x. execution g R v \<longrightarrow> lb_sat v a x \<longrightarrow> lb_sat v b x \<longrightarrow> lb_sat v c x)"
proof -
  obtain q where q: "boundary_Equals g a b = Some q" using boundary_Equals_spec(1) [OF ranked] by blast
  obtain res where res: "CanonicalizeForComparison g a b (CanonicalizeMinBoundary g R) = Some res"
    and can: "\<And>a' b'. res = Some (a', b') \<Longrightarrow> IsSymbol a \<and> IsSymbol b \<and> DependOnSameSymbol g a' b' = Some True \<and>
      wf_boundary a' \<and> wf_boundary b' \<and>
      symbol_rank rk a' \<le> symbol_rank rk a \<and> symbol_rank rk b' \<le> symbol_rank rk b \<and>
      (\<forall>v x. execution g R v \<longrightarrow> (lb_sat v a x \<longrightarrow> lb_sat v a' x) \<and> (lb_sat v b x \<longrightarrow> lb_sat v b' x))"
    using min_step.CanonicalizeForComparison_spec [OF ranked a(1,2) b(1,2)] by blast
  obtain ia ib where bounds: "SmiLowerBound R a = Some ia" "SmiLowerBound R b = Some ib"
    using LowerBound_size_spec [OF ranked a(1,2)] LowerBound_size_spec [OF ranked b(1,2)]
    unfolding SmiLowerBound_def by blast
  have pick: "IntersectionMin g R a b = Some a \<or> IntersectionMin g R a b = Some b \<or>
      (\<exists>a' b'. res = Some (a', b') \<and> IntersectionMin g R a b \<in> {Some a', Some b'})"
    using q res bounds a b by (cases res) (auto simp: IntersectionMin_def)
  have "\<not> IsUnknown a'" "\<not> IsUnknown b'" if "res = Some (a', b')" for a' b'
    using can [OF that] DependOnSameSymbol_spec(2) [OF ranked, of a' b'] by (auto simp: IsUnknown_def)
  then show ?thesis using pick can a b by (elim disjE exE conjE) fastforce+
qed

lemma IntersectionMax_spec:
  assumes ranked: "well_ranked g R rk" and a: "wf_boundary a" "\<not> IsUnknown a" "a \<noteq> kNegativeInfinity"
    and b: "wf_boundary b" "\<not> IsUnknown b" "b \<noteq> kNegativeInfinity"
  shows "\<exists>c. IntersectionMax g R a b = Some c \<and> wf_boundary c \<and> \<not> IsUnknown c \<and>
    symbol_rank rk c \<le> max (symbol_rank rk a) (symbol_rank rk b) \<and>
    (\<forall>v x. execution g R v \<longrightarrow> ub_sat v a x \<longrightarrow> ub_sat v b x \<longrightarrow> ub_sat v c x)"
proof -
  obtain q where q: "boundary_Equals g a b = Some q" using boundary_Equals_spec(1) [OF ranked] by blast
  obtain res where res: "CanonicalizeForComparison g a b (CanonicalizeMaxBoundary g R) = Some res"
    and can: "\<And>a' b'. res = Some (a', b') \<Longrightarrow> IsSymbol a \<and> IsSymbol b \<and> DependOnSameSymbol g a' b' = Some True \<and>
      wf_boundary a' \<and> wf_boundary b' \<and>
      symbol_rank rk a' \<le> symbol_rank rk a \<and> symbol_rank rk b' \<le> symbol_rank rk b \<and>
      (\<forall>v x. execution g R v \<longrightarrow> (ub_sat v a x \<longrightarrow> ub_sat v a' x) \<and> (ub_sat v b x \<longrightarrow> ub_sat v b' x))"
    using max_step.CanonicalizeForComparison_spec [OF ranked a(1,2) b(1,2)] by blast
  obtain ia ib where bounds: "SmiUpperBound R a = Some ia" "SmiUpperBound R b = Some ib"
    using UpperBound_size_spec [OF ranked a(1,2)] UpperBound_size_spec [OF ranked b(1,2)]
    unfolding SmiUpperBound_def by blast
  have pick: "IntersectionMax g R a b = Some a \<or> IntersectionMax g R a b = Some b \<or>
      (\<exists>a' b'. res = Some (a', b') \<and> IntersectionMax g R a b \<in> {Some a', Some b'})"
    using q res bounds a b by (cases res) (auto simp: IntersectionMax_def)
  have "\<not> IsUnknown a'" "\<not> IsUnknown b'" if "res = Some (a', b')" for a' b'
    using can [OF that] DependOnSameSymbol_spec(2) [OF ranked, of a' b'] by (auto simp: IsUnknown_def)
  then show ?thesis using pick can a b by (elim disjE exE conjE) fastforce+
qed

end
