(* ===== verification/Range_Ops.thy ===== *)
theory Range_Ops
  imports Range_Boundary
begin

text \<open>
  The class \<^verbatim>\<open>Range\<close> of \<^verbatim>\<open>runtime/vm/compiler/backend/range_analysis.h\<close>: construction, queries, clamping, and
  the transfer functions for the binary operators with their dispatcher \<open>BinaryOp\<close>.  The results
  \<^verbatim>\<open>*result_min\<close> and \<^verbatim>\<open>*result_max\<close> of a transfer function are the two components of a pair.
\<close>

section \<open>Construction and queries\<close>

definition SetInt64Range :: Range where
  "SetInt64Range = \<lparr>range_min = MinConstant kRangeBoundaryInt64, range_max = MaxConstant kRangeBoundaryInt64\<rparr>"

definition new_Range :: "RangeBoundary \<Rightarrow> RangeBoundary \<Rightarrow> Range option" where
  "new_Range mn mx =
     (if IsUnknown mn \<noteq> IsUnknown mx then None
      else if IsInfinity mn \<or> IsInfinity mx then Some SetInt64Range
      else Some \<lparr>range_min = mn, range_max = mx\<rparr>)"

definition unknown_Range :: Range where
  "unknown_Range = \<lparr>range_min = kUnknown, range_max = kUnknown\<rparr>"

fun Range_IsUnknown :: "Range option \<Rightarrow> bool" where
  "Range_IsUnknown None = True"
| "Range_IsUnknown (Some other) = IsUnknown (range_min other)"

definition Full :: "RangeSize \<Rightarrow> Range" where
  "Full sz = \<lparr>range_min = MinConstant sz, range_max = MaxConstant sz\<rparr>"

definition Range_Equals :: "flow_graph \<Rightarrow> Range \<Rightarrow> Range option \<Rightarrow> bool option" where
  "Range_Equals g r other =
     (if IsUnknown (range_min r) \<noteq> IsUnknown (range_max r) then None
      else case other of
        None \<Rightarrow> Some (IsUnknown (range_min r))
      | Some other \<Rightarrow> do {
          same_min \<leftarrow> boundary_Equals g (range_min r) (range_min other);
          if same_min then boundary_Equals g (range_max r) (range_max other) else Some False
        })"

definition set_min :: "Range \<Rightarrow> RangeBoundary \<Rightarrow> Range" where
  "set_min r b = (if IsInfinity b then SetInt64Range else r\<lparr>range_min := b\<rparr>)"

definition set_max :: "Range \<Rightarrow> RangeBoundary \<Rightarrow> Range" where
  "set_max r b = (if IsInfinity b then SetInt64Range else r\<lparr>range_max := b\<rparr>)"

definition ConstantMin :: "ranges \<Rightarrow> Range option \<Rightarrow> RangeSize \<Rightarrow> RangeBoundary option" where
  "ConstantMin R rng sz =
     (case rng of
        None \<Rightarrow> Some (MinConstant sz)
      | Some r \<Rightarrow> do { l \<leftarrow> LowerBound R (range_min r); Some (boundary_Clamp sz l) })"

definition ConstantMax :: "ranges \<Rightarrow> Range option \<Rightarrow> RangeSize \<Rightarrow> RangeBoundary option" where
  "ConstantMax R rng sz =
     (case rng of
        None \<Rightarrow> Some (MaxConstant sz)
      | Some r \<Rightarrow> do { u \<leftarrow> UpperBound R (range_max r); Some (boundary_Clamp sz u) })"

definition ConstantMinSmi :: "ranges \<Rightarrow> Range option \<Rightarrow> RangeBoundary option" where
  "ConstantMinSmi R rng = ConstantMin R rng kRangeBoundarySmi"

definition ConstantMaxSmi :: "ranges \<Rightarrow> Range option \<Rightarrow> RangeBoundary option" where
  "ConstantMaxSmi R rng = ConstantMax R rng kRangeBoundarySmi"

text \<open>\<^verbatim>\<open>Range::ConstantMin(range).ConstantValue()\<close> and its counterpart, at the 64-bit size.\<close>

definition cmin :: "ranges \<Rightarrow> Range \<Rightarrow> int option" where
  "cmin R r = do { b \<leftarrow> ConstantMin R (Some r) kRangeBoundaryInt64; ConstantValue b }"

definition cmax :: "ranges \<Rightarrow> Range \<Rightarrow> int option" where
  "cmax R r = do { b \<leftarrow> ConstantMax R (Some r) kRangeBoundaryInt64; ConstantValue b }"

definition OnlyLessThanOrEqualTo :: "ranges \<Rightarrow> Range \<Rightarrow> int \<Rightarrow> bool option" where
  "OnlyLessThanOrEqualTo R r val =
     do {
       upper_bound \<leftarrow> UpperBound R (range_max r);
       if upper_bound = kPositiveInfinity then Some False
       else do { c \<leftarrow> ConstantValue upper_bound; Some (c \<le> val) }
     }"

definition OnlyGreaterThanOrEqualTo :: "ranges \<Rightarrow> Range \<Rightarrow> int \<Rightarrow> bool option" where
  "OnlyGreaterThanOrEqualTo R r val =
     do {
       lower_bound \<leftarrow> LowerBound R (range_min r);
       if lower_bound = kNegativeInfinity then Some False
       else do { c \<leftarrow> ConstantValue lower_bound; Some (c \<ge> val) }
     }"

definition IsPositive :: "ranges \<Rightarrow> Range \<Rightarrow> bool option" where
  "IsPositive R r = OnlyGreaterThanOrEqualTo R r 0"

definition IsWithin :: "ranges \<Rightarrow> Range \<Rightarrow> int \<Rightarrow> int \<Rightarrow> bool option" where
  "IsWithin R r min_int max_int =
     do {
       above \<leftarrow> OnlyGreaterThanOrEqualTo R r min_int;
       if above then OnlyLessThanOrEqualTo R r max_int else Some False
     }"

definition Overlaps :: "ranges \<Rightarrow> Range \<Rightarrow> int \<Rightarrow> int \<Rightarrow> bool option" where
  "Overlaps R r min_int max_int =
     do {
       lower \<leftarrow> LowerBound R (range_min r);
       upper \<leftarrow> UpperBound R (range_max r);
       this_min \<leftarrow> (if lower = kNegativeInfinity then Some (- (2 ^ 63)) else ConstantValue lower);
       this_max \<leftarrow> (if upper = kPositiveInfinity then Some (2 ^ 63 - 1) else ConstantValue upper);
       Some (if this_min \<le> min_int \<and> min_int \<le> this_max then True
             else if this_min \<le> max_int \<and> max_int \<le> this_max then True
             else if min_int < this_min \<and> max_int > this_max then True
             else False)
     }"

definition IsUnsatisfiable :: "flow_graph \<Rightarrow> ranges \<Rightarrow> Range \<Rightarrow> bool option" where
  "IsUnsatisfiable g R r =
     (if range_min r = kPositiveInfinity \<or> range_max r = kNegativeInfinity then Some True
      else do {
        lo \<leftarrow> cmin R r;
        hi \<leftarrow> cmax R r;
        if lo > hi then Some True
        else do {
          same \<leftarrow> DependOnSameSymbol g (range_min r) (range_max r);
          Some (same \<and> boundary_offset (range_min r) > boundary_offset (range_max r))
        }
      })"

definition IsFinite :: "Range \<Rightarrow> bool" where
  "IsFinite r \<longleftrightarrow> \<not> IsInfinity (range_min r) \<and> \<not> IsInfinity (range_max r)"

definition Intersect :: "flow_graph \<Rightarrow> ranges \<Rightarrow> Range \<Rightarrow> Range \<Rightarrow> Range option" where
  "Intersect g R r other =
     do {
       mn \<leftarrow> IntersectionMin g R (range_min r) (range_min other);
       mx \<leftarrow> IntersectionMax g R (range_max r) (range_max other);
       new_Range mn mx
     }"

definition Fits :: "flow_graph \<Rightarrow> ranges \<Rightarrow> RangeSize \<Rightarrow> Range \<Rightarrow> bool option" where
  "Fits g R sz r =
     do {
       l \<leftarrow> LowerBound R (range_min r);
       overflowed_min \<leftarrow> Overflowed g sz l;
       if overflowed_min then Some False
       else do {
         u \<leftarrow> UpperBound R (range_max r);
         overflowed_max \<leftarrow> Overflowed g sz u;
         Some (\<not> overflowed_max)
       }
     }"

definition Fits_representation :: "flow_graph \<Rightarrow> ranges \<Rightarrow> Range option \<Rightarrow> Representation \<Rightarrow> bool option" where
  "Fits_representation g R rng rep =
     (case rng of
        None \<Rightarrow> Some False
      | Some r \<Rightarrow>
          (case rep of
             kUnboxedInt64 \<Rightarrow> Some True
           | kUnboxedInt32 \<Rightarrow> Fits g R kRangeBoundaryInt32 r
           | kUnboxedUint32 \<Rightarrow> IsWithin R r 0 (2 ^ 32 - 1)
           | _ \<Rightarrow> Some False))"

definition Range_Clamp :: "RangeSize \<Rightarrow> Range \<Rightarrow> Range" where
  "Range_Clamp sz r =
     \<lparr>range_min = boundary_Clamp sz (range_min r), range_max = boundary_Clamp sz (range_max r)\<rparr>"

definition ClampToConstant :: "ranges \<Rightarrow> RangeSize \<Rightarrow> Range \<Rightarrow> Range option" where
  "ClampToConstant R sz r =
     do {
       l \<leftarrow> LowerBound R (range_min r);
       u \<leftarrow> UpperBound R (range_max r);
       Some \<lparr>range_min = boundary_Clamp sz l, range_max = boundary_Clamp sz u\<rparr>
     }"

subsection \<open>The null-tolerant queries of \<^verbatim>\<open>RangeUtils\<close>\<close>

definition RangeUtils_Fits :: "flow_graph \<Rightarrow> ranges \<Rightarrow> Range option \<Rightarrow> RangeSize \<Rightarrow> bool option" where
  "RangeUtils_Fits g R rng sz =
     (if Range_IsUnknown rng then Some False else Fits g R sz (the rng))"

definition RangeUtils_IsWithin :: "ranges \<Rightarrow> Range option \<Rightarrow> int \<Rightarrow> int \<Rightarrow> bool option" where
  "RangeUtils_IsWithin R rng mn mx =
     (if Range_IsUnknown rng then Some False else IsWithin R (the rng) mn mx)"

definition RangeUtils_IsPositive :: "ranges \<Rightarrow> Range option \<Rightarrow> bool option" where
  "RangeUtils_IsPositive R rng =
     (if Range_IsUnknown rng then Some False else IsPositive R (the rng))"

definition RangeUtils_Overlaps :: "ranges \<Rightarrow> Range option \<Rightarrow> int \<Rightarrow> int \<Rightarrow> bool option" where
  "RangeUtils_Overlaps R rng mn mx =
     (if Range_IsUnknown rng then Some True else Overlaps R (the rng) mn mx)"

definition RangeUtils_CanBeZero :: "ranges \<Rightarrow> Range option \<Rightarrow> bool option" where
  "RangeUtils_CanBeZero R rng = RangeUtils_Overlaps R rng 0 0"

definition RangeUtils_OnlyLessThanOrEqualTo :: "ranges \<Rightarrow> Range option \<Rightarrow> int \<Rightarrow> bool option" where
  "RangeUtils_OnlyLessThanOrEqualTo R rng val =
     (if Range_IsUnknown rng then Some False else OnlyLessThanOrEqualTo R (the rng) val)"

section \<open>Transfer functions\<close>

type_synonym bounds = "(RangeBoundary \<times> RangeBoundary) option"

definition Range_Shl :: "ranges \<Rightarrow> Range \<Rightarrow> Range \<Rightarrow> bounds" where
  "Range_Shl R left right =
     do {
       left_max \<leftarrow> cmax R left;
       left_min \<leftarrow> cmin R left;
       rmax \<leftarrow> cmax R right;
       rmin \<leftarrow> cmin R right;
       let right_max = max rmax 0;
       let right_min = max rmin 0;
       result_min \<leftarrow> boundary_Shl (kConstant left_min) (if left_min > 0 then right_min else right_max)
         (if left_min > 0 then kPositiveInfinity else kNegativeInfinity);
       result_max \<leftarrow> boundary_Shl (kConstant left_max) (if left_max > 0 then right_max else right_min)
         (if left_max > 0 then kPositiveInfinity else kNegativeInfinity);
       Some (result_min, result_max)
     }"

definition Range_Shr :: "ranges \<Rightarrow> Range \<Rightarrow> Range \<Rightarrow> bounds" where
  "Range_Shr R left right =
     do {
       left_max \<leftarrow> cmax R left;
       left_min \<leftarrow> cmin R left;
       rmax \<leftarrow> cmax R right;
       rmin \<leftarrow> cmin R right;
       let right_max = max rmax 0;
       let right_min = max rmin 0;
       result_min \<leftarrow> boundary_Shr (kConstant left_min) (if left_min > 0 then right_max else right_min);
       result_max \<leftarrow> boundary_Shr (kConstant left_max) (if left_max > 0 then right_min else right_max);
       Some (result_min, result_max)
     }"

definition ConvertRangeToUnsigned :: "int \<Rightarrow> int \<Rightarrow> (u64 \<times> u64) option" where
  "ConvertRangeToUnsigned a b =
     (if \<not> a \<le> b then None
      else if a < 0 \<and> b \<ge> 0 then Some (0, - 1)
      else Some (word_of_int a, word_of_int b))"

definition ConvertRangeToSigned :: "u64 \<Rightarrow> u64 \<Rightarrow> (int \<times> int) option" where
  "ConvertRangeToSigned a b =
     (if \<not> a \<le> b then None
      else if a \<le> kMaxInt64 \<and> b \<ge> kMinInt64 then Some (- (2 ^ 63), 2 ^ 63 - 1)
      else Some (sint a, sint b))"

definition Range_Ushr :: "ranges \<Rightarrow> Range \<Rightarrow> Range \<Rightarrow> bounds" where
  "Range_Ushr R left right =
     do {
       left_max \<leftarrow> cmax R left;
       left_min \<leftarrow> cmin R left;
       rmax \<leftarrow> cmax R right;
       rmin \<leftarrow> cmin R right;
       let right_max = max rmax 0;
       let right_min = max rmin 0;
       ul \<leftarrow> ConvertRangeToUnsigned left_min left_max;
       let unsigned_result_min = (if right_max \<ge> 64 then 0 else drop_bit (nat right_max) (fst ul));
       let unsigned_result_max = (if right_min \<ge> 64 then 0 else drop_bit (nat right_min) (snd ul));
       sr \<leftarrow> ConvertRangeToSigned unsigned_result_min unsigned_result_max;
       Some (kConstant (fst sr), kConstant (snd sr))
     }"

definition BitSize :: "ranges \<Rightarrow> Range \<Rightarrow> nat option" where
  "BitSize R r =
     do {
       lo \<leftarrow> cmin R r;
       hi \<leftarrow> cmax R r;
       Some (max (BitLength (word_of_int lo)) (BitLength (word_of_int hi)))
     }"

definition BitwiseOp :: "ranges \<Rightarrow> Range \<Rightarrow> Range \<Rightarrow> bounds" where
  "BitwiseOp R left right =
     do {
       lsize \<leftarrow> BitSize R left;
       rsize \<leftarrow> BitSize R right;
       let bitsize = max lsize rsize;
       lpos \<leftarrow> IsPositive R left;
       rpos \<leftarrow> IsPositive R right;
       Some (if lpos \<and> rpos then kConstant 0 else kConstant (sint (- (push_bit bitsize 1 :: u64))),
             kConstant (sint (push_bit bitsize 1 - 1 :: u64)))
     }"

definition Range_And :: "ranges \<Rightarrow> Range \<Rightarrow> Range \<Rightarrow> bounds" where
  "Range_And R left right =
     do {
       rmin \<leftarrow> cmin R right;
       if rmin \<ge> 0 then do { mx \<leftarrow> ConstantMax R (Some right) kRangeBoundaryInt64; Some (kConstant 0, mx) }
       else do {
         lmin \<leftarrow> cmin R left;
         if lmin \<ge> 0 then do { mx \<leftarrow> ConstantMax R (Some left) kRangeBoundaryInt64; Some (kConstant 0, mx) }
         else BitwiseOp R left right
       }
     }"

definition left_boundary :: "flow_graph \<Rightarrow> defn \<Rightarrow> RangeBoundary \<Rightarrow> RangeBoundary option" where
  "left_boundary g left_defn b = (if IsArrayLength g left_defn then FromDefinition g left_defn 0 else Some b)"

definition Range_Add :: "flow_graph \<Rightarrow> ranges \<Rightarrow> Range \<Rightarrow> Range \<Rightarrow> defn \<Rightarrow> bounds" where
  "Range_Add g R left right left_defn =
     do {
       left_min \<leftarrow> left_boundary g left_defn (range_min left);
       left_max \<leftarrow> left_boundary g left_defn (range_max left);
       smin \<leftarrow> SymbolicAdd g left_min (range_min right);
       result_min \<leftarrow> (case smin of Some b \<Rightarrow> Some b | None \<Rightarrow> do {
         a \<leftarrow> LowerBound R (range_min left);
         b \<leftarrow> LowerBound R (range_min right);
         boundary_Add a b kNegativeInfinity });
       smax \<leftarrow> SymbolicAdd g left_max (range_max right);
       result_max \<leftarrow> (case smax of Some b \<Rightarrow> Some b | None \<Rightarrow> do {
         b \<leftarrow> UpperBound R (range_max right);
         a \<leftarrow> UpperBound R (range_max left);
         boundary_Add b a kPositiveInfinity });
       Some (result_min, result_max)
     }"

definition Range_Sub :: "flow_graph \<Rightarrow> ranges \<Rightarrow> Range \<Rightarrow> Range \<Rightarrow> defn \<Rightarrow> bounds" where
  "Range_Sub g R left right left_defn =
     do {
       left_min \<leftarrow> left_boundary g left_defn (range_min left);
       left_max \<leftarrow> left_boundary g left_defn (range_max left);
       smin \<leftarrow> SymbolicSub g left_min (range_max right);
       result_min \<leftarrow> (case smin of Some b \<Rightarrow> Some b | None \<Rightarrow> do {
         a \<leftarrow> LowerBound R (range_min left);
         b \<leftarrow> UpperBound R (range_max right);
         boundary_Sub a b kNegativeInfinity });
       smax \<leftarrow> SymbolicSub g left_max (range_min right);
       result_max \<leftarrow> (case smax of Some b \<Rightarrow> Some b | None \<Rightarrow> do {
         a \<leftarrow> UpperBound R (range_max left);
         b \<leftarrow> LowerBound R (range_min right);
         boundary_Sub a b kPositiveInfinity });
       Some (result_min, result_max)
     }"

definition OnlyPositiveOrZero :: "ranges \<Rightarrow> Range \<Rightarrow> Range \<Rightarrow> bool option" where
  "OnlyPositiveOrZero R a b =
     do { pa \<leftarrow> OnlyGreaterThanOrEqualTo R a 0; if pa then OnlyGreaterThanOrEqualTo R b 0 else Some False }"

definition OnlyNegativeOrZero :: "ranges \<Rightarrow> Range \<Rightarrow> Range \<Rightarrow> bool option" where
  "OnlyNegativeOrZero R a b =
     do { na \<leftarrow> OnlyLessThanOrEqualTo R a 0; if na then OnlyLessThanOrEqualTo R b 0 else Some False }"

definition ConstantAbsMax :: "ranges \<Rightarrow> Range option \<Rightarrow> int option" where
  "ConstantAbsMax R rng =
     (case rng of
        None \<Rightarrow> Some (2 ^ 63 - 1)
      | Some r \<Rightarrow> do {
          lo \<leftarrow> cmin R r;
          hi \<leftarrow> cmax R r;
          Some (max (sint (AbsWithSaturation (word_of_int lo))) (sint (AbsWithSaturation (word_of_int hi)))) })"

definition ConstantAbsMin :: "ranges \<Rightarrow> Range option \<Rightarrow> int option" where
  "ConstantAbsMin R rng =
     (case rng of
        None \<Rightarrow> Some 0
      | Some r \<Rightarrow> do {
          lo \<leftarrow> cmin R r;
          hi \<leftarrow> cmax R r;
          Some (min (sint (AbsWithSaturation (word_of_int lo))) (sint (AbsWithSaturation (word_of_int hi)))) })"

definition Range_Mul :: "ranges \<Rightarrow> Range \<Rightarrow> Range \<Rightarrow> bounds" where
  "Range_Mul R left right =
     do {
       left_max \<leftarrow> ConstantAbsMax R (Some left);
       right_max \<leftarrow> ConstantAbsMax R (Some right);
       pos \<leftarrow> OnlyPositiveOrZero R left right;
       neg \<leftarrow> OnlyNegativeOrZero R left right;
       if left_max \<le> - kSmiMin \<and> right_max \<le> - kSmiMin \<and>
          (left_max = 0 \<or> right_max \<le> (2 ^ 63 - 1) div left_max)
       then
         let mul_max = left_max * right_max
         in if pos \<or> neg
            then do {
              lmin \<leftarrow> ConstantAbsMin R (Some left);
              rmin \<leftarrow> ConstantAbsMin R (Some right);
              Some (kConstant (lmin * rmin), kConstant mul_max) }
            else Some (kConstant (- mul_max), kConstant mul_max)
       else if pos \<or> neg then Some (kConstant 0, kPositiveInfinity)
       else Some (kNegativeInfinity, kPositiveInfinity)
     }"

definition Range_TruncDiv :: "ranges \<Rightarrow> Range \<Rightarrow> Range \<Rightarrow> bounds" where
  "Range_TruncDiv R left right =
     do {
       lpos \<leftarrow> OnlyGreaterThanOrEqualTo R left 0;
       rpos \<leftarrow> OnlyGreaterThanOrEqualTo R right 1;
       if lpos \<and> rpos
       then do {
         left_max \<leftarrow> ConstantAbsMax R (Some left);
         left_min \<leftarrow> ConstantAbsMin R (Some left);
         right_max \<leftarrow> ConstantAbsMax R (Some right);
         right_min \<leftarrow> ConstantAbsMin R (Some right);
         if right_min = 0 \<or> right_max = 0 then None
         else Some (kConstant (left_min div right_max), kConstant (left_max div right_min)) }
       else Some (kNegativeInfinity, kPositiveInfinity)
     }"

definition Range_Mod :: "ranges \<Rightarrow> Range \<Rightarrow> bounds" where
  "Range_Mod R right =
     do {
       lo \<leftarrow> cmin R right;
       mod_max \<leftarrow> (if lo \<noteq> - (2 ^ 63)
         then do { right_max \<leftarrow> ConstantAbsMax R (Some right); Some (max (right_max - 1) 0) }
         else Some (2 ^ 63 - 1));
       Some (kConstant 0, kConstant mod_max)
     }"

definition transfer :: "flow_graph \<Rightarrow> ranges \<Rightarrow> Token \<Rightarrow> Range \<Rightarrow> Range \<Rightarrow> defn \<Rightarrow> bounds" where
  "transfer g R op left right left_defn =
     (case op of
        kADD \<Rightarrow> Range_Add g R left right left_defn
      | kSUB \<Rightarrow> Range_Sub g R left right left_defn
      | kMUL \<Rightarrow> Range_Mul R left right
      | kTRUNCDIV \<Rightarrow> Range_TruncDiv R left right
      | kMOD \<Rightarrow> Range_Mod R right
      | kSHL \<Rightarrow> Range_Shl R left right
      | kSHR \<Rightarrow> Range_Shr R left right
      | kUSHR \<Rightarrow> Range_Ushr R left right
      | kBIT_AND \<Rightarrow> Range_And R left right
      | kBIT_XOR \<Rightarrow> BitwiseOp R left right
      | kBIT_OR \<Rightarrow> BitwiseOp R left right
      | _ \<Rightarrow> Some (kNegativeInfinity, kPositiveInfinity))"

definition BinaryOp :: "flow_graph \<Rightarrow> ranges \<Rightarrow> Token \<Rightarrow> Range \<Rightarrow> Range \<Rightarrow> defn \<Rightarrow> Range option" where
  "BinaryOp g R op left right left_defn =
     (if \<not> (IsFinite left \<and> IsFinite right) then None
      else do {
        p \<leftarrow> transfer g R op left right left_defn;
        let mn = fst p;
        let mx = snd p;
        if IsUnknown mn \<or> IsUnknown mx then None
        else if (case (mn, mx) of (kConstant l, kConstant u) \<Rightarrow> \<not> l \<le> u | _ \<Rightarrow> False) then None
        else new_Range mn mx
      })"

section \<open>Meaning of the operators\<close>

text \<open>
  The mathematical results of the Dart integer operators; \<open>None\<close> where the operation throws or where no
  integer results.  A 64-bit instruction produces the wrapped result \<open>wrap64\<close>.
\<close>

definition wrap64 :: "int \<Rightarrow> int" where
  "wrap64 x = sint (word_of_int x :: u64)"

fun eval_op :: "Token \<Rightarrow> int \<Rightarrow> int \<Rightarrow> int option" where
  "eval_op kADD a b = Some (a + b)"
| "eval_op kSUB a b = Some (a - b)"
| "eval_op kMUL a b = Some (a * b)"
| "eval_op kTRUNCDIV a b = (if b = 0 then None else Some (sgn a * sgn b * (\<bar>a\<bar> div \<bar>b\<bar>)))"
| "eval_op kMOD a b = (if b = 0 then None else Some (a mod \<bar>b\<bar>))"
| "eval_op kSHL a b = (if b < 0 then None else Some (a * 2 ^ nat b))"
| "eval_op kSHR a b = (if b < 0 then None else Some (a div 2 ^ nat b))"
| "eval_op kUSHR a b = (if b < 0 then None else Some (sint (drop_bit (nat b) (word_of_int a :: u64))))"
| "eval_op kBIT_AND a b = Some (a AND b)"
| "eval_op kBIT_OR a b = Some (a OR b)"
| "eval_op kBIT_XOR a b = Some (a XOR b)"
| "eval_op _ a b = None"

text \<open>A pair of well-formed boundaries, with symbols of rank at most \<open>k\<close>, that encloses \<open>c\<close>.\<close>

definition encloses :: "(defn \<Rightarrow> nat) \<Rightarrow> nat \<Rightarrow> env \<Rightarrow> bounds \<Rightarrow> int \<Rightarrow> bool" where
  "encloses rk k v p c \<longleftrightarrow> (\<exists>mn mx. p = Some (mn, mx) \<and> wf_boundary mn \<and> wf_boundary mx \<and>
     \<not> IsUnknown mn \<and> \<not> IsUnknown mx \<and> symbol_rank rk mn \<le> k \<and> symbol_rank rk mx \<le> k \<and>
     lb_sat v mn c \<and> ub_sat v mx c)"

lemma enclosesI:
  assumes "p = Some (mn, mx)" "wf_boundary mn" "wf_boundary mx" "\<not> IsUnknown mn" "\<not> IsUnknown mx"
    "symbol_rank rk mn \<le> k" "symbol_rank rk mx \<le> k" "lb_sat v mn c" "ub_sat v mx c"
  shows "encloses rk k v p c"
  using assms by (auto simp: encloses_def)

lemma encloses_constants:
  "p = Some (kConstant l, kConstant u) \<Longrightarrow> in_int64 l \<Longrightarrow> in_int64 u \<Longrightarrow> l \<le> c \<Longrightarrow> c \<le> u \<Longrightarrow> encloses rk k v p c"
  by (simp add: encloses_def)

lemma wrap64_id: "in_int64 x \<Longrightarrow> wrap64 x = x"
  by (simp add: wrap64_def sint_word_of_int)

lemma in_int64_sint [simp]: "in_int64 (sint (w :: u64))"
  using sint_range64 [of w] by (simp add: in_int64_def)

lemma in_int64_wrap64 [simp]: "in_int64 (wrap64 x)"
  by (simp add: wrap64_def)

section \<open>Constant bounds of an operand\<close>

lemma ConstantMin_spec:
  assumes "well_ranked g R rk" "wf_boundary (range_min r)" "\<not> IsUnknown (range_min r)"
  obtains c where "ConstantMin R (Some r) sz = Some (kConstant c)" "in_size sz c"
    "\<And>v x. execution g R v \<Longrightarrow> in_size sz x \<Longrightarrow> lb_sat v (range_min r) x \<Longrightarrow> c \<le> x"
proof -
  obtain l where l: "LowerBound R (range_min r) = Some l" "IsConstantOrInfinity l"
      "\<And>v x. execution g R v \<Longrightarrow> lb_sat v (range_min r) x \<Longrightarrow> lb_sat v l x"
    using LowerBound_spec [OF assms] by blast
  obtain c where c: "boundary_Clamp sz l = kConstant c" "in_size sz c" using Clamp_is_constant [OF l(2)] .
  have "c \<le> x" if "execution g R v" "in_size sz x" "lb_sat v (range_min r) x" for v x
    using Clamp_lb [OF l(2) l(3) [OF that(1,3)] that(2)] by (simp add: c)
  then show ?thesis using that c l(1) by (simp add: ConstantMin_def)
qed

lemma ConstantMax_spec:
  assumes "well_ranked g R rk" "wf_boundary (range_max r)" "\<not> IsUnknown (range_max r)"
  obtains c where "ConstantMax R (Some r) sz = Some (kConstant c)" "in_size sz c"
    "\<And>v x. execution g R v \<Longrightarrow> in_size sz x \<Longrightarrow> ub_sat v (range_max r) x \<Longrightarrow> x \<le> c"
proof -
  obtain l where l: "UpperBound R (range_max r) = Some l" "IsConstantOrInfinity l"
      "\<And>v x. execution g R v \<Longrightarrow> ub_sat v (range_max r) x \<Longrightarrow> ub_sat v l x"
    using UpperBound_spec [OF assms] by blast
  obtain c where c: "boundary_Clamp sz l = kConstant c" "in_size sz c" using Clamp_is_constant [OF l(2)] .
  have "x \<le> c" if "execution g R v" "in_size sz x" "ub_sat v (range_max r) x" for v x
    using Clamp_ub [OF l(2) l(3) [OF that(1,3)] that(2)] by (simp add: c)
  then show ?thesis using that c l(1) by (simp add: ConstantMax_def)
qed

text \<open>
  An operand: a well-formed range and a 64-bit value in it.  Its constant bounds enclose the value, and
  the sign queries are sound for it.
\<close>

definition operand :: "flow_graph \<Rightarrow> ranges \<Rightarrow> (defn \<Rightarrow> nat) \<Rightarrow> env \<Rightarrow> Range \<Rightarrow> int \<Rightarrow> bool" where
  "operand g R rk v r a \<longleftrightarrow> well_ranked g R rk \<and> execution g R v \<and> wf_range r \<and> in_range v r a \<and> in_int64 a"

lemma operand_bounds:
  assumes "operand g R rk v r a"
  obtains lo hi where "cmin R r = Some lo" "cmax R r = Some hi"
    "ConstantMax R (Some r) kRangeBoundaryInt64 = Some (kConstant hi)"
    "in_int64 lo" "in_int64 hi" "lo \<le> a" "a \<le> hi"
    "\<And>n. OnlyGreaterThanOrEqualTo R r n = Some True \<Longrightarrow> n \<le> lo"
    "\<And>n. OnlyLessThanOrEqualTo R r n = Some True \<Longrightarrow> hi \<le> n"
proof -
  have o: "well_ranked g R rk" "execution g R v" "in_int64 a" "lb_sat v (range_min r) a" "ub_sat v (range_max r) a"
    and wf: "wf_boundary (range_min r)" "\<not> IsUnknown (range_min r)" "wf_boundary (range_max r)" "\<not> IsUnknown (range_max r)"
    using assms by (auto simp: operand_def in_range_def wf_range_def)
  obtain lo where lo: "ConstantMin R (Some r) kRangeBoundaryInt64 = Some (kConstant lo)" "in_int64 lo" "lo \<le> a"
    by (rule ConstantMin_spec [OF o(1) wf(1,2), of kRangeBoundaryInt64]) (rule that, use o in auto)
  obtain hi where hi: "ConstantMax R (Some r) kRangeBoundaryInt64 = Some (kConstant hi)" "in_int64 hi" "a \<le> hi"
    by (rule ConstantMax_spec [OF o(1) wf(3,4), of kRangeBoundaryInt64]) (rule that, use o in auto)
  obtain l where l: "LowerBound R (range_min r) = Some l" "IsConstantOrInfinity l" "wf_boundary l"
    using LowerBound_spec [OF o(1) wf(1,2)] by blast
  obtain u where u: "UpperBound R (range_max r) = Some u" "IsConstantOrInfinity u" "wf_boundary u"
    using UpperBound_spec [OF o(1) wf(3,4)] by blast
  have id: "clamp_value kRangeBoundaryInt64 c = c" if "in_int64 c" for c using that by (simp add: clamp_value_id)
  have "n \<le> lo" if "OnlyGreaterThanOrEqualTo R r n = Some True" for n
    using that l lo(1) id by (cases l) (auto simp: OnlyGreaterThanOrEqualTo_def ConstantMin_def)
  moreover have "hi \<le> n" if "OnlyLessThanOrEqualTo R r n = Some True" for n
    using that u hi(1) id by (cases u) (auto simp: OnlyLessThanOrEqualTo_def ConstantMax_def)
  ultimately show ?thesis using that lo hi by (simp add: cmin_def cmax_def)
qed

lemma operand_signs:
  assumes "operand g R rk v r a"
  shows "\<exists>q. OnlyGreaterThanOrEqualTo R r n = Some q" "\<exists>q. OnlyLessThanOrEqualTo R r n = Some q"
proof -
  have o: "well_ranked g R rk" and wf: "wf_boundary (range_min r)" "\<not> IsUnknown (range_min r)"
      "wf_boundary (range_max r)" "\<not> IsUnknown (range_max r)"
    using assms by (auto simp: operand_def wf_range_def)
  obtain l where "LowerBound R (range_min r) = Some l" "IsConstantOrInfinity l" "l \<noteq> kPositiveInfinity"
    using LowerBound_spec [OF o wf(1,2)] by blast
  then show "\<exists>q. OnlyGreaterThanOrEqualTo R r n = Some q"
    by (cases l) (auto simp: OnlyGreaterThanOrEqualTo_def)
  obtain u where "UpperBound R (range_max r) = Some u" "IsConstantOrInfinity u" "u \<noteq> kNegativeInfinity"
    using UpperBound_spec [OF o wf(3,4)] by blast
  then show "\<exists>q. OnlyLessThanOrEqualTo R r n = Some q"
    by (cases u) (auto simp: OnlyLessThanOrEqualTo_def)
qed

section \<open>Soundness of the transfer functions\<close>

subsection \<open>Shifts\<close>

lemma sint_pow: "k < 63 \<Longrightarrow> sint (push_bit k 1 :: u64) = 2 ^ k" "k < 64 \<Longrightarrow> sint (- (push_bit k 1) :: u64) = - (2 ^ k)"
proof -
  have w: "(push_bit k 1 :: u64) = word_of_int (2 ^ k)" by (simp add: push_bit_eq_mult)
  have "(2::int) ^ k \<le> 2 ^ 62" if "k < 63" using that by (intro power_increasing) simp_all
  then show "k < 63 \<Longrightarrow> sint (push_bit k 1 :: u64) = 2 ^ k" unfolding w by (intro sint_word_of_int) (simp add: in_int64_def, smt (verit) zero_less_power)
  have "(2::int) ^ k \<le> 2 ^ 63" if "k < 64" using that by (intro power_increasing) simp_all
  moreover have "- (push_bit k 1 :: u64) = word_of_int (- (2 ^ k))" using w by simp
  ultimately show "k < 64 \<Longrightarrow> sint (- (push_bit k 1) :: u64) = - (2 ^ k)"
    by (simp only:) (intro sint_word_of_int, simp add: in_int64_def, smt (verit) zero_less_power)
qed

lemma IsInt_spec:
  assumes "0 < N" "N < 64" "in_int64 x"
  shows "IsInt N (word_of_int x) = Some (- (2 ^ (N - 1)) \<le> x \<and> x < 2 ^ (N - 1))"
  using assms sint_pow(1) [of "N - 1"] sint_pow(2) [of "N - 1"]
  by (auto simp: IsInt_def Let_def word_sle_eq word_sless_alt sint_word_of_int)

lemma pow_nat_mono: "0 \<le> m \<Longrightarrow> m \<le> n \<Longrightarrow> (2::int) ^ nat m \<le> 2 ^ nat n"
  by (intro power_increasing) simp_all

lemma shift_fits:
  assumes "n < 64"
  shows "in_int64 (x * 2 ^ n) \<longleftrightarrow> - (2 ^ (63 - n)) \<le> x \<and> x < 2 ^ (63 - n)"
proof -
  have e: "(2::int) ^ 63 = 2 ^ (63 - n) * 2 ^ n" using assms by (simp flip: power_add)
  have p: "(0::int) < 2 ^ n" by simp
  have "- (2 ^ 63) \<le> x * 2 ^ n \<longleftrightarrow> - (2 ^ (63 - n)) * 2 ^ n \<le> x * 2 ^ n" by (simp only: e) simp
  moreover have "x * 2 ^ n < 2 ^ 63 \<longleftrightarrow> x * 2 ^ n < 2 ^ (63 - n) * 2 ^ n" by (simp only: e)
  ultimately show ?thesis using p unfolding in_int64_def by (metis mult_le_cancel_right_pos mult_less_cancel_right_pos)
qed

lemma boundary_Shl_spec:
  assumes "in_int64 m" "0 \<le> sc"
  shows "boundary_Shl (kConstant m) sc overflow =
    Some (if in_int64 (m * 2 ^ nat sc) then kConstant (m * 2 ^ nat sc) else overflow)"
proof -
  consider "m = 0" | "m \<noteq> 0" "sc = 0" | "m \<noteq> 0" "0 < sc" "sc < 64" | "m \<noteq> 0" "64 \<le> sc" using assms(2) by linarith
  then show ?thesis
  proof cases
    case 3
    have w: "(push_bit (nat sc) (word_of_int m) :: u64) = word_of_int (m * 2 ^ nat sc)"
      by (simp add: push_bit_eq_mult)
    have "nat (64 - sc) - 1 = 63 - nat sc" "nat sc < 64" using 3 by (simp_all add: nat_diff_distrib)
    then have "IsInt (nat (64 - sc)) (word_of_int m) = Some (in_int64 (m * 2 ^ nat sc))"
      using 3 assms(1) by (simp add: IsInt_spec shift_fits)
    moreover have "sint (push_bit (nat sc) (word_of_int m) :: u64) = m * 2 ^ nat sc" if "in_int64 (m * 2 ^ nat sc)"
      unfolding w using that by (rule sint_word_of_int)
    ultimately show ?thesis using 3 by (simp add: boundary_Shl_def)
  next
    case 4
    have "(2::int) ^ 64 \<le> 2 ^ nat sc" using 4 by (intro power_increasing) simp_all
    also have "\<dots> \<le> \<bar>m\<bar> * 2 ^ nat sc" using 4(1) by (simp add: mult_le_cancel_right1)
    finally have "\<not> in_int64 (m * 2 ^ nat sc)"
      by (simp add: in_int64_def abs_mult flip: abs_le_iff) (auto simp: abs_if split: if_splits)
    then show ?thesis using 4 by (simp add: boundary_Shl_def)
  qed (use assms in \<open>simp_all add: boundary_Shl_def sint_word_of_int in_int64_def\<close>)
qed

lemma shl_mono:
  fixes a :: int
  assumes "l \<le> a" "0 \<le> m" "m \<le> b" "b \<le> n"
  shows "0 < l \<Longrightarrow> l * 2 ^ nat m \<le> a * 2 ^ nat b" "l \<le> 0 \<Longrightarrow> l * 2 ^ nat n \<le> a * 2 ^ nat b"
proof -
  have p: "(2::int) ^ nat m \<le> 2 ^ nat b" "(2::int) ^ nat b \<le> 2 ^ nat n" using assms by (auto intro: pow_nat_mono)
  show "l * 2 ^ nat m \<le> a * 2 ^ nat b" if "0 < l" using that assms(1) p by (intro mult_mono) auto
  show "l * 2 ^ nat n \<le> a * 2 ^ nat b" if "l \<le> 0"
  proof -
    have "l * 2 ^ nat n \<le> l * 2 ^ nat b" using that p(2) by (rule mult_left_mono_neg [rotated])
    also have "\<dots> \<le> a * 2 ^ nat b" using assms(1) by (intro mult_right_mono) simp_all
    finally show ?thesis .
  qed
qed

lemma overflow_lb:
  "s \<le> c \<Longrightarrow> lb_sat v (if in_int64 s then kConstant s else kNegativeInfinity) c"
  "s \<le> c \<Longrightarrow> 0 \<le> s \<Longrightarrow> lb_sat v (if in_int64 s then kConstant s else kPositiveInfinity) c"
  by (auto simp: in_int64_def)

lemma overflow_ub:
  "c \<le> s \<Longrightarrow> ub_sat v (if in_int64 s then kConstant s else kPositiveInfinity) c"
  "c \<le> s \<Longrightarrow> s \<le> 0 \<Longrightarrow> ub_sat v (if in_int64 s then kConstant s else kNegativeInfinity) c"
  by (auto simp: in_int64_def)

lemma Shl_sound:
  assumes "operand g R rk v l a" "operand g R rk v r b" "0 \<le> b"
  shows "encloses rk k v (Range_Shl R l r) (a * 2 ^ nat b)"
proof -
  obtain lo hi where l: "cmin R l = Some lo" "cmax R l = Some hi" "in_int64 lo" "in_int64 hi" "lo \<le> a" "a \<le> hi"
    using operand_bounds [OF assms(1)] by metis
  obtain rl rh where r: "cmin R r = Some rl" "cmax R r = Some rh" "rl \<le> b" "b \<le> rh"
    using operand_bounds [OF assms(2)] by metis
  let ?m = "max rl 0" and ?n = "max rh 0" and ?c = "a * 2 ^ nat b"
  have mn: "0 \<le> ?m" "?m \<le> b" "b \<le> ?n" "0 \<le> ?n" using r assms(3) by auto
  note up = shl_mono [OF l(5) mn(1-3)]
  have "- hi \<le> - a" using l(6) by simp
  note neg = shl_mono [OF this mn(1-3)]
  have dn: "0 < hi \<Longrightarrow> ?c \<le> hi * 2 ^ nat ?n" using neg(2) by simp
  have dn0: "hi \<le> 0 \<Longrightarrow> ?c \<le> hi * 2 ^ nat ?m"
    using neg(1) l(6) by (cases "hi = 0") (simp_all add: mult_le_0_iff)
  have signs: "0 < lo \<Longrightarrow> 0 \<le> lo * 2 ^ nat ?m" "hi \<le> 0 \<Longrightarrow> hi * 2 ^ nat ?m \<le> 0"
    by (simp_all add: mult_le_0_iff)
  let ?s1 = "lo * 2 ^ nat (if 0 < lo then ?m else ?n)" and ?s2 = "hi * 2 ^ nat (if 0 < hi then ?n else ?m)"
  let ?i1 = "if 0 < lo then kPositiveInfinity else kNegativeInfinity"
    and ?i2 = "if 0 < hi then kPositiveInfinity else kNegativeInfinity"
  have "Range_Shl R l r = Some (if in_int64 ?s1 then kConstant ?s1 else ?i1, if in_int64 ?s2 then kConstant ?s2 else ?i2)"
    using l r mn by (simp add: Range_Shl_def boundary_Shl_spec)
  then show ?thesis
  proof (rule enclosesI)
    show "lb_sat v (if in_int64 ?s1 then kConstant ?s1 else ?i1) ?c"
      using overflow_lb(1) [OF up(2), of v] overflow_lb(2) [OF up(1) signs(1), of v] by (cases "0 < lo") (simp_all cong: if_cong split del: if_split)
    show "ub_sat v (if in_int64 ?s2 then kConstant ?s2 else ?i2) ?c"
      using overflow_ub(1) [OF dn, of v] overflow_ub(2) [OF dn0 signs(2), of v] by (cases "0 < hi") (simp_all cong: if_cong split del: if_split)
  qed simp_all
qed

lemma sint_shr:
  assumes "in_int64 m"
  shows "sint (signed_drop_bit n (word_of_int m :: u64)) = m div 2 ^ n"
  by (simp add: sint_signed_drop_bit_eq sint_word_of_int [OF assms] drop_bit_eq_div)

lemma div_pow_large:
  fixes m :: int
  assumes "in_int64 m" "64 \<le> n"
  shows "m div 2 ^ n = (if 0 \<le> m then 0 else - 1)"
proof -
  have "(2::int) ^ 63 \<le> 2 ^ n" using assms(2) by (intro power_increasing) simp_all
  then have b: "- (2 ^ n) \<le> m" "m < 2 ^ n" using assms(1) by (simp_all add: in_int64_def)
  show ?thesis
  proof (cases "0 \<le> m")
    case False
    then have "m div 2 ^ n = - 1"
      using b by (intro int_div_pos_eq [of m "2 ^ n" "- 1" "m + 2 ^ n"]) simp_all
    then show ?thesis using False by simp
  qed (use b in simp)
qed

lemma boundary_Shr_spec:
  assumes "in_int64 m" "0 \<le> sc"
  shows "boundary_Shr (kConstant m) sc = Some (kConstant (m div 2 ^ nat sc))"
  using assms div_pow_large [OF assms(1), of "nat sc"] by (auto simp: boundary_Shr_def sint_shr)

lemma shr_mono:
  fixes a :: int
  assumes "l \<le> a" "0 \<le> m" "m \<le> b" "b \<le> n"
  shows "0 < l \<Longrightarrow> l div 2 ^ nat n \<le> a div 2 ^ nat b" "l \<le> 0 \<Longrightarrow> l div 2 ^ nat m \<le> a div 2 ^ nat b"
proof -
  have p: "(2::int) ^ nat m \<le> 2 ^ nat b" "(2::int) ^ nat b \<le> 2 ^ nat n" using assms by (auto intro: pow_nat_mono)
  have step: "l div 2 ^ nat b \<le> a div 2 ^ nat b" using assms(1) by (intro zdiv_mono1) simp_all
  show "l div 2 ^ nat n \<le> a div 2 ^ nat b" if "0 < l"
    using zdiv_mono2 [of l "2 ^ nat b" "2 ^ nat n"] step p(2) that by simp
  show "l div 2 ^ nat m \<le> a div 2 ^ nat b" if "l \<le> 0"
    using zdiv_mono2_neg [of l "2 ^ nat m" "2 ^ nat b"] step p(1) that by (cases "l = 0") simp_all
qed

lemma in_int64_div: "in_int64 m \<Longrightarrow> in_int64 (m div 2 ^ n)"
  using sint_shr [of m n] in_int64_sint [of "signed_drop_bit n (word_of_int m)"] by simp

lemma Shr_sound:
  assumes "operand g R rk v l a" "operand g R rk v r b" "0 \<le> b"
  shows "encloses rk k v (Range_Shr R l r) (a div 2 ^ nat b)"
proof -
  obtain lo hi where l: "cmin R l = Some lo" "cmax R l = Some hi" "in_int64 lo" "in_int64 hi" "lo \<le> a" "a \<le> hi"
    using operand_bounds [OF assms(1)] by metis
  obtain rl rh where r: "cmin R r = Some rl" "cmax R r = Some rh" "rl \<le> b" "b \<le> rh"
    using operand_bounds [OF assms(2)] by metis
  let ?m = "max rl 0" and ?n = "max rh 0"
  have mn: "0 \<le> ?m" "?m \<le> b" "b \<le> ?n" "0 \<le> ?n" using r assms(3) by auto
  have p: "(2::int) ^ nat ?m \<le> 2 ^ nat b" "(2::int) ^ nat b \<le> 2 ^ nat ?n" using mn by (auto intro: pow_nat_mono)
  let ?s1 = "lo div 2 ^ nat (if 0 < lo then ?n else ?m)" and ?s2 = "hi div 2 ^ nat (if 0 < hi then ?m else ?n)"
  have "Range_Shr R l r = Some (kConstant ?s1, kConstant ?s2)"
    using l r mn by (simp add: Range_Shr_def boundary_Shr_spec Let_def)
  moreover have "?s1 \<le> a div 2 ^ nat b" using shr_mono [OF l(5) mn(1-3)] by simp
  moreover have "a div 2 ^ nat b \<le> ?s2"
  proof -
    have "a div 2 ^ nat b \<le> hi div 2 ^ nat b" using l(6) by (intro zdiv_mono1) simp_all
    moreover have "hi div 2 ^ nat b \<le> ?s2"
    proof (cases "0 < hi")
      case True
      then show ?thesis using zdiv_mono2 [of hi "2 ^ nat ?m" "2 ^ nat b"] p(1) by simp
    next
      case False
      then show ?thesis using zdiv_mono2_neg [of hi "2 ^ nat b" "2 ^ nat ?n"] p(2) by (cases "hi = 0") simp_all
    qed
    ultimately show ?thesis by simp
  qed
  ultimately show ?thesis using l by (intro encloses_constants) (simp_all add: in_int64_div)
qed

text \<open>The unsigned shift works on the two's complement bits: the bounds are taken in unsigned order.\<close>

lemma ConvertRangeToUnsigned_spec:
  assumes "in_int64 lo" "in_int64 hi" "lo \<le> a" "a \<le> hi"
  obtains ua ub where "ConvertRangeToUnsigned lo hi = Some (ua, ub)" "ua \<le> word_of_int a" "word_of_int a \<le> ub"
proof (cases "lo < 0 \<and> hi \<ge> 0")
  case True
  then show ?thesis using that [of 0 "- 1"] assms by (simp add: ConvertRangeToUnsigned_def)
next
  case False
  have u: "uint (word_of_int x :: u64) = (if x < 0 then x + 2 ^ 64 else x)" if "in_int64 x" for x
  proof (cases "x < 0")
    case True
    have "x mod 2 ^ 64 = (x + 2 ^ 64) mod 2 ^ 64" by simp
    also have "\<dots> = x + 2 ^ 64" using that True by (intro mod_pos_pos_trivial) (simp_all add: in_int64_def)
    finally show ?thesis using True by (simp add: uint_word_of_int)
  qed (use that in \<open>simp add: uint_word_of_int in_int64_def\<close>)
  have "in_int64 a" using assms by (simp add: in_int64_def)
  then have "(word_of_int lo :: u64) \<le> word_of_int a" "(word_of_int a :: u64) \<le> word_of_int hi"
    using False assms by (auto simp: word_le_def u)
  then show ?thesis using that False assms by (simp add: ConvertRangeToUnsigned_def)
qed

lemma ConvertRangeToSigned_spec:
  fixes w :: u64
  assumes "ua \<le> w" "w \<le> ub"
  obtains lo hi where "ConvertRangeToSigned ua ub = Some (lo, hi)" "in_int64 lo" "in_int64 hi" "lo \<le> sint w" "sint w \<le> hi"
proof (cases "ua \<le> kMaxInt64 \<and> ub \<ge> kMinInt64")
  case True
  then show ?thesis using that [of "- (2 ^ 63)" "2 ^ 63 - 1"] assms order_trans [OF assms] sint_range64 [of w]
    by (simp add: ConvertRangeToSigned_def in_int64_def)
next
  case False
  have s: "sint x = (if uint x < 2 ^ 63 then uint x else uint x - 2 ^ 64)" for x :: u64
  proof -
    have "bit x 63 \<longleftrightarrow> 2 ^ 63 \<le> unat x"
      using bit_imp_exp_le [of x 63] bit_top [of 63 x] unsigned_less [of x] by auto
    also have "\<dots> \<longleftrightarrow> int (2 ^ 63) \<le> int (unat x)" by (rule of_nat_le_iff [symmetric])
    finally show ?thesis using sint_unat [of x] by simp
  qed
  have "sint ua \<le> sint w" "sint w \<le> sint ub"
    using False assms by (auto simp: s word_le_def kMaxInt64_def kMinInt64_def)
  then show ?thesis using that [of "sint ua" "sint ub"] False order_trans [OF assms]
    by (simp add: ConvertRangeToSigned_def)
qed

lemma drop_bit_word_mono:
  fixes x y :: u64
  assumes "x \<le> y" "n \<le> m"
  shows "drop_bit m x \<le> drop_bit n y"
proof -
  have "unat x div 2 ^ m \<le> unat x div 2 ^ n" using assms(2) by (intro div_le_mono2 power_increasing) simp_all
  also have "\<dots> \<le> unat y div 2 ^ n" using assms(1) by (intro div_le_mono) (simp add: word_le_nat_alt)
  finally show ?thesis by (simp add: word_le_nat_alt unat_drop_div)
qed

lemma Ushr_sound:
  assumes "operand g R rk v l a" "operand g R rk v r b" "0 \<le> b"
  shows "encloses rk k v (Range_Ushr R l r) (sint (drop_bit (nat b) (word_of_int a :: u64)))"
proof -
  obtain lo hi where l: "cmin R l = Some lo" "cmax R l = Some hi" "in_int64 lo" "in_int64 hi" "lo \<le> a" "a \<le> hi"
    using operand_bounds [OF assms(1)] by metis
  obtain rl rh where r: "cmin R r = Some rl" "cmax R r = Some rh" "rl \<le> b" "b \<le> rh"
    using operand_bounds [OF assms(2)] by metis
  obtain ua ub where u: "ConvertRangeToUnsigned lo hi = Some (ua, ub)" "ua \<le> word_of_int a" "word_of_int a \<le> ub"
    by (rule ConvertRangeToUnsigned_spec [OF l(3-6)])
  let ?m = "max rl 0" and ?n = "max rh 0"
  have big: "drop_bit (nat x) (w :: u64) = 0" if "64 \<le> x" for x w
  proof -
    have "(2::nat) ^ 64 \<le> 2 ^ nat x" using that by (intro power_increasing) simp_all
    moreover have "unat w < 2 ^ 64" using unsigned_less [of w] by simp
    ultimately have "unat (drop_bit (nat x) w) = 0" unfolding unat_drop_div by (intro div_less) linarith
    then show ?thesis by (simp add: unat_eq_0)
  qed
  have "drop_bit (nat ?n) ua \<le> drop_bit (nat b) (word_of_int a)" "drop_bit (nat b) (word_of_int a) \<le> drop_bit (nat ?m) ub"
    using u r assms(3) by (auto intro!: drop_bit_word_mono)
  then obtain sl sh where "ConvertRangeToSigned (drop_bit (nat ?n) ua) (drop_bit (nat ?m) ub) = Some (sl, sh)"
      "in_int64 sl" "in_int64 sh" "sl \<le> sint (drop_bit (nat b) (word_of_int a :: u64))"
      "sint (drop_bit (nat b) (word_of_int a :: u64)) \<le> sh"
    by (rule ConvertRangeToSigned_spec)
  moreover have e: "(if 64 \<le> ?n then 0 else drop_bit (nat ?n) ua) = drop_bit (nat ?n) ua"
    "(if 64 \<le> ?m then 0 else drop_bit (nat ?m) ub) = drop_bit (nat ?m) ub" using big by auto
  ultimately have "Range_Ushr R l r = Some (kConstant sl, kConstant sh)"
    using l r u unfolding Range_Ushr_def Let_def by (simp only: bind.bind_lunit e fst_conv snd_conv)
  then show ?thesis by (rule encloses_constants) fact+
qed

subsection \<open>Bitwise operators\<close>

lemma fits_signed: "- (2 ^ n) \<le> x \<and> x < 2 ^ n \<longleftrightarrow> signed_take_bit n x = x" for x :: int
  by (auto simp: signed_take_bit_int_eq_self_iff)

lemma fits_bitwise:
  fixes x y :: int
  assumes "- (2 ^ n) \<le> x" "x < 2 ^ n" "- (2 ^ n) \<le> y" "y < 2 ^ n"
  shows "- (2 ^ n) \<le> x AND y \<and> x AND y < 2 ^ n" "- (2 ^ n) \<le> x OR y \<and> x OR y < 2 ^ n"
    "- (2 ^ n) \<le> x XOR y \<and> x XOR y < 2 ^ n"
proof -
  have e: "signed_take_bit n x = x" "signed_take_bit n y = y" using assms by (simp_all flip: fits_signed)
  have "signed_take_bit n (x AND y) = signed_take_bit n x AND signed_take_bit n y"
    "signed_take_bit n (x OR y) = signed_take_bit n x OR signed_take_bit n y"
    "signed_take_bit n (x XOR y) = signed_take_bit n x XOR signed_take_bit n y"
    by (rule bit_eqI, simp add: bit_simps)+
  then show "- (2 ^ n) \<le> x AND y \<and> x AND y < 2 ^ n" "- (2 ^ n) \<le> x OR y \<and> x OR y < 2 ^ n"
    "- (2 ^ n) \<le> x XOR y \<and> x XOR y < 2 ^ n"
    unfolding fits_signed by (simp_all only: e)
qed

lemma BitSize_spec:
  assumes "operand g R rk v r a"
  obtains n where "BitSize R r = Some n" "n \<le> 63" "- (2 ^ n) \<le> a" "a < 2 ^ n"
proof -
  obtain lo hi where l: "cmin R r = Some lo" "cmax R r = Some hi" "in_int64 lo" "in_int64 hi" "lo \<le> a" "a \<le> hi"
    using operand_bounds [OF assms] by metis
  let ?m = "BitLength (word_of_int lo)" and ?n = "BitLength (word_of_int hi)"
  have b: "BitLength w \<le> 63" for w using BitLength_fits [of w] sint_range64 [of w] by blast
  have "- (2 ^ ?m) \<le> lo" "hi < 2 ^ ?n"
    using BitLength_fits [of "word_of_int lo"] BitLength_fits [of "word_of_int hi"] l by (simp_all add: sint_word_of_int)
  moreover have "(2::int) ^ ?m \<le> 2 ^ max ?m ?n" "(2::int) ^ ?n \<le> 2 ^ max ?m ?n" by (intro power_increasing; simp)+
  ultimately have "- (2 ^ max ?m ?n) \<le> a" "a < 2 ^ max ?m ?n" using l by linarith+
  then show ?thesis using that [of "max ?m ?n"] l b by (simp add: BitSize_def)
qed

lemma BitwiseOp_sound:
  assumes "operand g R rk v l a" "operand g R rk v r b" "c = a AND b \<or> c = a OR b \<or> c = a XOR b"
  shows "encloses rk k v (BitwiseOp R l r) c"
proof -
  obtain n1 where n1: "BitSize R l = Some n1" "n1 \<le> 63" "- (2 ^ n1) \<le> a" "a < 2 ^ n1"
    using BitSize_spec [OF assms(1)] .
  obtain n2 where n2: "BitSize R r = Some n2" "n2 \<le> 63" "- (2 ^ n2) \<le> b" "b < 2 ^ n2"
    using BitSize_spec [OF assms(2)] .
  obtain p q where pq: "IsPositive R l = Some p" "IsPositive R r = Some q"
    using operand_signs(1) [OF assms(1), of 0] operand_signs(1) [OF assms(2), of 0] by (auto simp: IsPositive_def)
  let ?n = "max n1 n2"
  have "(2::int) ^ n1 \<le> 2 ^ ?n" "(2::int) ^ n2 \<le> 2 ^ ?n" by (intro power_increasing; simp)+
  then have "- (2 ^ ?n) \<le> a" "a < 2 ^ ?n" "- (2 ^ ?n) \<le> b" "b < 2 ^ ?n" using n1 n2 by linarith+
  then have c: "- (2 ^ ?n) \<le> c" "c < 2 ^ ?n" using fits_bitwise [of ?n a b] assms(3) by auto
  have pos: "0 \<le> c" if "p" "q"
  proof -
    have "0 \<le> a" by (rule operand_bounds [OF assms(1)]) (use that pq in \<open>force simp: IsPositive_def\<close>)
    moreover have "0 \<le> b" by (rule operand_bounds [OF assms(2)]) (use that pq in \<open>force simp: IsPositive_def\<close>)
    ultimately show ?thesis using assms(3) by auto
  qed
  have lo: "sint (- (push_bit ?n 1) :: u64) = - (2 ^ ?n)" using n1 n2 by (intro sint_pow(2)) simp
  have hi: "sint (push_bit ?n 1 - 1 :: u64) = 2 ^ ?n - 1"
  proof -
    have "(2::int) ^ ?n \<le> 2 ^ 63" using n1 n2 by (intro power_increasing) simp_all
    then have "in_int64 (2 ^ ?n - 1)" unfolding in_int64_def by (smt (verit) zero_less_power)
    moreover have "(push_bit ?n 1 - 1 :: u64) = word_of_int (2 ^ ?n - 1)" by (simp add: push_bit_eq_mult)
    ultimately show ?thesis by (simp only: sint_word_of_int)
  qed
  have "in_int64 (- (2 ^ ?n))" "in_int64 (2 ^ ?n - 1)" using in_int64_sint [of "- (push_bit ?n 1)"] in_int64_sint [of "push_bit ?n 1 - 1"] by (simp_all only: lo hi)
  moreover have "BitwiseOp R l r = Some (kConstant (if p \<and> q then 0 else - (2 ^ ?n)), kConstant (2 ^ ?n - 1))"
    unfolding BitwiseOp_def Let_def if_distrib [of kConstant]
    by (simp only: n1(1) n2(1) pq bind.bind_lunit lo hi)
  moreover have "in_int64 0" by (simp add: in_int64_def)
  ultimately show ?thesis using c pos by (intro encloses_constants [of _ "if p \<and> q then 0 else - (2 ^ ?n)" "2 ^ ?n - 1"]) auto
qed

lemma And_sound:
  assumes "operand g R rk v l a" "operand g R rk v r b"
  shows "encloses rk k v (Range_And R l r) (a AND b)"
proof -
  obtain lo hi where l: "cmin R l = Some lo" "ConstantMax R (Some l) kRangeBoundaryInt64 = Some (kConstant hi)"
      "in_int64 hi" "lo \<le> a" "a \<le> hi"
    using operand_bounds [OF assms(1)] by metis
  obtain rl rh where r: "cmin R r = Some rl" "ConstantMax R (Some r) kRangeBoundaryInt64 = Some (kConstant rh)"
      "in_int64 rh" "rl \<le> b" "b \<le> rh"
    using operand_bounds [OF assms(2)] by metis
  consider "0 \<le> rl" | "rl < 0" "0 \<le> lo" | "rl < 0" "lo < 0" by linarith
  then show ?thesis
  proof cases
    case 1
    then have "0 \<le> b" using r by simp
    then have "0 \<le> a AND b" "a AND b \<le> b" by (simp_all add: AND_upper2)
    then show ?thesis using 1 r
      by (intro encloses_constants [of _ 0 rh]) (simp_all add: Range_And_def, simp add: in_int64_def)
  next
    case 2
    then have "0 \<le> a" using l by simp
    then have "0 \<le> a AND b" "a AND b \<le> a" by (simp_all add: AND_upper1)
    then show ?thesis using 2 l r
      by (intro encloses_constants [of _ 0 hi]) (simp_all add: Range_And_def, simp add: in_int64_def)
  next
    case 3
    then have "Range_And R l r = BitwiseOp R l r" using l r by (simp add: Range_And_def)
    then show ?thesis using BitwiseOp_sound [OF assms] by simp
  qed
qed

subsection \<open>Addition and subtraction\<close>

lemma symbolic_sum_spec:
  assumes "well_ranked g R rk" "IsValidOffsetForSymbolicRangeBoundary off" "in_int64 c"
  shows "\<exists>res. symbolic_sum g s off c = Some res \<and> (\<forall>b. res = Some b \<longrightarrow> wf_boundary b \<and> (IsSymbol b \<or> IsConstant b)
    \<and> symbol_rank rk b \<le> Suc (rk s)
    \<and> (\<forall>v y. execution g R v \<longrightarrow> v s = Some y \<longrightarrow> in_smi y \<longrightarrow> bval v b = Some (y + off + c)))"
proof (cases "in_int64 (off + c) \<and> IsValidOffsetForSymbolicRangeBoundary (off + c)")
  case True
  then obtain b where "FromDefinition g s (off + c) = Some b" "wf_boundary b" "IsSymbol b \<or> IsConstant b"
      "symbol_rank rk b \<le> Suc (rk s)"
      "\<And>v y. execution g R v \<Longrightarrow> v s = Some y \<Longrightarrow> in_smi y \<Longrightarrow> bval v b = Some (y + (off + c))"
    using FromDefinition_spec [OF assms(1), of "off + c" s] by blast
  then show ?thesis
    using True assms by (auto simp: symbolic_sum_def will_add valid_offset_int64 add.assoc)
qed (use assms in \<open>auto simp: symbolic_sum_def will_add valid_offset_int64\<close>)

lemma SymbolicAdd_spec:
  assumes "well_ranked g R rk" "execution g R v" "wf_boundary a" "wf_boundary b"
  shows "\<exists>res. SymbolicAdd g a b = Some res \<and> (\<forall>c. res = Some c \<longrightarrow> wf_boundary c \<and> (IsSymbol c \<or> IsConstant c)
    \<and> symbol_rank rk c \<le> max (symbol_rank rk a) (symbol_rank rk b)
    \<and> (\<forall>x y. bval v a = Some x \<longrightarrow> bval v b = Some y \<longrightarrow> bval v c = Some (x + y)))"
proof (cases "(IsSymbol a \<and> IsConstant b) \<or> (IsConstant a \<and> IsSymbol b)")
  case True
  then consider s off c where "a = kSymbol s off" "b = kConstant c" | s off c where "a = kConstant c" "b = kSymbol s off"
    by (cases a; cases b) auto
  then show ?thesis
  proof cases
    case 1
    then obtain res where "symbolic_sum g s off c = Some res"
        "\<And>b. res = Some b \<Longrightarrow> wf_boundary b \<and> (IsSymbol b \<or> IsConstant b) \<and> symbol_rank rk b \<le> Suc (rk s)
          \<and> (\<forall>v y. execution g R v \<longrightarrow> v s = Some y \<longrightarrow> in_smi y \<longrightarrow> bval v b = Some (y + off + c))"
      using symbolic_sum_spec [OF assms(1), of off c s] assms by auto
    then show ?thesis using 1 assms(2) by (force simp: SymbolicAdd_def bval_symbol_Some simp del: bval.simps(2))
  next
    case 2
    then obtain res where "symbolic_sum g s off c = Some res"
        "\<And>b. res = Some b \<Longrightarrow> wf_boundary b \<and> (IsSymbol b \<or> IsConstant b) \<and> symbol_rank rk b \<le> Suc (rk s)
          \<and> (\<forall>v y. execution g R v \<longrightarrow> v s = Some y \<longrightarrow> in_smi y \<longrightarrow> bval v b = Some (y + off + c))"
      using symbolic_sum_spec [OF assms(1), of off c s] assms by auto
    then show ?thesis using 2 assms(2) by (force simp: SymbolicAdd_def bval_symbol_Some add.commute simp del: bval.simps(2))
  qed
qed (auto simp: SymbolicAdd_def split: RangeBoundary.splits)

lemma SymbolicSub_spec:
  assumes "well_ranked g R rk" "execution g R v" "wf_boundary a" "wf_boundary b"
  shows "\<exists>res. SymbolicSub g a b = Some res \<and> (\<forall>c. res = Some c \<longrightarrow> wf_boundary c \<and> (IsSymbol c \<or> IsConstant c)
    \<and> symbol_rank rk c \<le> max (symbol_rank rk a) (symbol_rank rk b)
    \<and> (\<forall>x y. bval v a = Some x \<longrightarrow> bval v b = Some y \<longrightarrow> bval v c = Some (x - y)))"
proof (cases "\<exists>s off c. a = kSymbol s off \<and> b = kConstant c \<and> in_int64 (off - c) \<and>
    IsValidOffsetForSymbolicRangeBoundary (off - c)")
  case True
  then obtain s off c where e: "a = kSymbol s off" "b = kConstant c" "in_int64 (off - c)"
    "IsValidOffsetForSymbolicRangeBoundary (off - c)" by blast
  then obtain d where "FromDefinition g s (off - c) = Some d" "wf_boundary d" "IsSymbol d \<or> IsConstant d"
      "symbol_rank rk d \<le> Suc (rk s)"
      "\<And>v y. execution g R v \<Longrightarrow> v s = Some y \<Longrightarrow> in_smi y \<Longrightarrow> bval v d = Some (y + (off - c))"
    using FromDefinition_spec [OF assms(1) e(4), of s] by blast
  then show ?thesis using e assms
    by (auto simp: SymbolicSub_def will_sub valid_offset_int64 bval_symbol_Some simp del: bval.simps(2))
next
  case False
  then have "SymbolicSub g a b = Some None"
    using assms by (auto simp: SymbolicSub_def will_sub valid_offset_int64 split: RangeBoundary.splits)
  then show ?thesis by simp
qed

lemma boundary_Add_lb:
  assumes "IsConstantOrInfinity a" "wf_boundary a" "lb_sat v a x" "a \<noteq> kPositiveInfinity"
    "IsConstantOrInfinity b" "wf_boundary b" "lb_sat v b y" "b \<noteq> kPositiveInfinity"
  obtains c where "boundary_Add a b kNegativeInfinity = Some c" "wf_boundary c" "IsConstantOrInfinity c" "lb_sat v c (x + y)"
  using assms by (cases a; cases b) (auto simp: boundary_Add_constants, auto simp: boundary_Add_def split: if_splits)

lemma boundary_Add_ub:
  assumes "IsConstantOrInfinity a" "wf_boundary a" "ub_sat v a x" "a \<noteq> kNegativeInfinity"
    "IsConstantOrInfinity b" "wf_boundary b" "ub_sat v b y" "b \<noteq> kNegativeInfinity"
  obtains c where "boundary_Add a b kPositiveInfinity = Some c" "wf_boundary c" "IsConstantOrInfinity c" "ub_sat v c (x + y)"
  using assms by (cases a; cases b) (auto simp: boundary_Add_constants, auto simp: boundary_Add_def split: if_splits)

lemma boundary_Sub_lb:
  assumes "IsConstantOrInfinity a" "wf_boundary a" "lb_sat v a x" "a \<noteq> kPositiveInfinity"
    "IsConstantOrInfinity b" "wf_boundary b" "ub_sat v b y" "b \<noteq> kNegativeInfinity"
  obtains c where "boundary_Sub a b kNegativeInfinity = Some c" "wf_boundary c" "IsConstantOrInfinity c" "lb_sat v c (x - y)"
  using assms by (cases a; cases b) (auto simp: boundary_Sub_def will_sub split: if_splits)

lemma boundary_Sub_ub:
  assumes "IsConstantOrInfinity a" "wf_boundary a" "ub_sat v a x" "a \<noteq> kNegativeInfinity"
    "IsConstantOrInfinity b" "wf_boundary b" "lb_sat v b y" "b \<noteq> kPositiveInfinity"
  obtains c where "boundary_Sub a b kPositiveInfinity = Some c" "wf_boundary c" "IsConstantOrInfinity c" "ub_sat v c (x - y)"
  using assms by (cases a; cases b) (auto simp: boundary_Sub_def will_sub split: if_splits)

lemma operand_ends:
  assumes "operand g R rk v r a"
  shows "wf_boundary (range_min r)" "wf_boundary (range_max r)" "\<not> IsUnknown (range_min r)" "\<not> IsUnknown (range_max r)"
    "IsSymbol (range_min r) \<or> IsConstant (range_min r)" "IsSymbol (range_max r) \<or> IsConstant (range_max r)"
    "lb_sat v (range_min r) a" "ub_sat v (range_max r) a"
  using assms
  by (cases "range_min r"; cases "range_max r"; simp add: operand_def in_range_def wf_range_def)+

lemma operand_lower:
  assumes "operand g R rk v r a"
  obtains l where "LowerBound R (range_min r) = Some l" "IsConstantOrInfinity l" "wf_boundary l" "lb_sat v l a"
    "l \<noteq> kPositiveInfinity"
  using LowerBound_spec [of g R rk "range_min r"] operand_ends [OF assms] assms unfolding operand_def by blast

lemma operand_upper:
  assumes "operand g R rk v r a"
  obtains u where "UpperBound R (range_max r) = Some u" "IsConstantOrInfinity u" "wf_boundary u" "ub_sat v u a"
    "u \<noteq> kNegativeInfinity"
  using UpperBound_spec [of g R rk "range_max r"] operand_ends [OF assms] assms unfolding operand_def by blast

lemma constant_rank [simp]: "IsConstantOrInfinity b \<Longrightarrow> symbol_rank rk b = 0"
  "IsConstantOrInfinity b \<Longrightarrow> \<not> IsUnknown b"
  by (cases b; simp)+

text \<open>The symbol that replaces an array length is a boundary of the operand on both sides.\<close>

lemma left_boundary_spec:
  assumes "operand g R rk v l a" "IsArrayLength g d \<Longrightarrow> v d = Some a \<and> in_smi a" "Suc (rk d) \<le> k"
    "symbol_rank rk (range_min l) \<le> k" "symbol_rank rk (range_max l) \<le> k"
  obtains bl bu where "left_boundary g d (range_min l) = Some bl" "left_boundary g d (range_max l) = Some bu"
    "wf_boundary bl" "wf_boundary bu" "symbol_rank rk bl \<le> k" "symbol_rank rk bu \<le> k"
    "IsSymbol bl \<or> IsConstant bl" "IsSymbol bu \<or> IsConstant bu" "lb_sat v bl a" "ub_sat v bu a"
proof (cases "IsArrayLength g d")
  case True
  have "IsValidOffsetForSymbolicRangeBoundary 0" by (simp add: range_defs)
  then obtain b where b: "FromDefinition g d 0 = Some b" "wf_boundary b" "IsSymbol b \<or> IsConstant b"
      "symbol_rank rk b \<le> Suc (rk d)" "bval v b = Some a"
    using FromDefinition_spec [of g R rk 0 d] assms(1,2) True unfolding operand_def by fastforce
  show ?thesis
    using that [of b b] True b assms(3) by (simp add: left_boundary_def lb_sat_bval ub_sat_bval)
next
  case False
  then show ?thesis
    using that [of "range_min l" "range_max l"] operand_ends [OF assms(1)] assms(4,5) by (simp add: left_boundary_def)
qed

lemma sym_or_const_known: "IsSymbol b \<or> IsConstant b \<Longrightarrow> \<not> IsUnknown b"
  by (cases b) auto

lemma SymbolicAdd_lb:
  assumes "well_ranked g R rk" "execution g R v" "wf_boundary a" "wf_boundary b"
    "IsSymbol a \<or> IsConstant a" "IsSymbol b \<or> IsConstant b" "symbol_rank rk a \<le> k" "symbol_rank rk b \<le> k"
    "lb_sat v a x" "lb_sat v b y"
  obtains res where "SymbolicAdd g a b = Some res"
    "\<And>c. res = Some c \<Longrightarrow> wf_boundary c \<and> \<not> IsUnknown c \<and> symbol_rank rk c \<le> k \<and> lb_sat v c (x + y)"
proof -
  obtain p q where "bval v a = Some p" "bval v b = Some q" and "p \<le> x" "q \<le> y"
    using assms(5,6,9,10) by (auto simp: lb_sat_bval ub_sat_bval)
  then show ?thesis
    using SymbolicAdd_spec [OF assms(1-4)] assms(7,8) that sym_or_const_known
    by (elim exE conjE) (fastforce simp: lb_sat_bval ub_sat_bval)
qed

lemma SymbolicAdd_ub:
  assumes "well_ranked g R rk" "execution g R v" "wf_boundary a" "wf_boundary b"
    "IsSymbol a \<or> IsConstant a" "IsSymbol b \<or> IsConstant b" "symbol_rank rk a \<le> k" "symbol_rank rk b \<le> k"
    "ub_sat v a x" "ub_sat v b y"
  obtains res where "SymbolicAdd g a b = Some res"
    "\<And>c. res = Some c \<Longrightarrow> wf_boundary c \<and> \<not> IsUnknown c \<and> symbol_rank rk c \<le> k \<and> ub_sat v c (x + y)"
proof -
  obtain p q where "bval v a = Some p" "bval v b = Some q" and "x \<le> p" "y \<le> q"
    using assms(5,6,9,10) by (auto simp: lb_sat_bval ub_sat_bval)
  then show ?thesis
    using SymbolicAdd_spec [OF assms(1-4)] assms(7,8) that sym_or_const_known
    by (elim exE conjE) (fastforce simp: lb_sat_bval ub_sat_bval)
qed

lemma SymbolicSub_lb:
  assumes "well_ranked g R rk" "execution g R v" "wf_boundary a" "wf_boundary b"
    "IsSymbol a \<or> IsConstant a" "IsSymbol b \<or> IsConstant b" "symbol_rank rk a \<le> k" "symbol_rank rk b \<le> k"
    "lb_sat v a x" "ub_sat v b y"
  obtains res where "SymbolicSub g a b = Some res"
    "\<And>c. res = Some c \<Longrightarrow> wf_boundary c \<and> \<not> IsUnknown c \<and> symbol_rank rk c \<le> k \<and> lb_sat v c (x - y)"
proof -
  obtain p q where "bval v a = Some p" "bval v b = Some q" and "p \<le> x" "y \<le> q"
    using assms(5,6,9,10) by (auto simp: lb_sat_bval ub_sat_bval)
  then show ?thesis
    using SymbolicSub_spec [OF assms(1-4)] assms(7,8) that sym_or_const_known
    by (elim exE conjE) (fastforce simp: lb_sat_bval ub_sat_bval)
qed

lemma SymbolicSub_ub:
  assumes "well_ranked g R rk" "execution g R v" "wf_boundary a" "wf_boundary b"
    "IsSymbol a \<or> IsConstant a" "IsSymbol b \<or> IsConstant b" "symbol_rank rk a \<le> k" "symbol_rank rk b \<le> k"
    "ub_sat v a x" "lb_sat v b y"
  obtains res where "SymbolicSub g a b = Some res"
    "\<And>c. res = Some c \<Longrightarrow> wf_boundary c \<and> \<not> IsUnknown c \<and> symbol_rank rk c \<le> k \<and> ub_sat v c (x - y)"
proof -
  obtain p q where "bval v a = Some p" "bval v b = Some q" and "x \<le> p" "q \<le> y"
    using assms(5,6,9,10) by (auto simp: lb_sat_bval ub_sat_bval)
  then show ?thesis
    using SymbolicSub_spec [OF assms(1-4)] assms(7,8) that sym_or_const_known
    by (elim exE conjE) (fastforce simp: lb_sat_bval ub_sat_bval)
qed

lemma Add_constant_bounds:
  assumes l: "operand g R rk v l a" and r: "operand g R rk v r b"
  shows "\<exists>ll rl lu ru. LowerBound R (range_min l) = Some ll \<and> LowerBound R (range_min r) = Some rl \<and>
    UpperBound R (range_max l) = Some lu \<and> UpperBound R (range_max r) = Some ru \<and>
    (\<exists>c. boundary_Add ll rl kNegativeInfinity = Some c \<and> wf_boundary c \<and> IsConstantOrInfinity c \<and> lb_sat v c (a + b)) \<and>
    (\<exists>c. boundary_Add ru lu kPositiveInfinity = Some c \<and> wf_boundary c \<and> IsConstantOrInfinity c \<and> ub_sat v c (a + b))"
proof -
  obtain ll where ll: "LowerBound R (range_min l) = Some ll" "IsConstantOrInfinity ll" "wf_boundary ll" "lb_sat v ll a" "ll \<noteq> kPositiveInfinity"
    by (rule operand_lower [OF l])
  obtain rl where rl: "LowerBound R (range_min r) = Some rl" "IsConstantOrInfinity rl" "wf_boundary rl" "lb_sat v rl b" "rl \<noteq> kPositiveInfinity"
    by (rule operand_lower [OF r])
  obtain lu where lu: "UpperBound R (range_max l) = Some lu" "IsConstantOrInfinity lu" "wf_boundary lu" "ub_sat v lu a" "lu \<noteq> kNegativeInfinity"
    by (rule operand_upper [OF l])
  obtain ru where ru: "UpperBound R (range_max r) = Some ru" "IsConstantOrInfinity ru" "wf_boundary ru" "ub_sat v ru b" "ru \<noteq> kNegativeInfinity"
    by (rule operand_upper [OF r])
  show ?thesis
    using boundary_Add_lb [OF ll(2-5) rl(2-5)] boundary_Add_ub [OF ru(2-5) lu(2-5)] ll(1) rl(1) lu(1) ru(1)
    by (metis add.commute)
qed

lemma Sub_constant_bounds:
  assumes l: "operand g R rk v l a" and r: "operand g R rk v r b"
  shows "\<exists>ll rl lu ru. LowerBound R (range_min l) = Some ll \<and> LowerBound R (range_min r) = Some rl \<and>
    UpperBound R (range_max l) = Some lu \<and> UpperBound R (range_max r) = Some ru \<and>
    (\<exists>c. boundary_Sub ll ru kNegativeInfinity = Some c \<and> wf_boundary c \<and> IsConstantOrInfinity c \<and> lb_sat v c (a - b)) \<and>
    (\<exists>c. boundary_Sub lu rl kPositiveInfinity = Some c \<and> wf_boundary c \<and> IsConstantOrInfinity c \<and> ub_sat v c (a - b))"
proof -
  obtain ll where ll: "LowerBound R (range_min l) = Some ll" "IsConstantOrInfinity ll" "wf_boundary ll" "lb_sat v ll a" "ll \<noteq> kPositiveInfinity"
    by (rule operand_lower [OF l])
  obtain rl where rl: "LowerBound R (range_min r) = Some rl" "IsConstantOrInfinity rl" "wf_boundary rl" "lb_sat v rl b" "rl \<noteq> kPositiveInfinity"
    by (rule operand_lower [OF r])
  obtain lu where lu: "UpperBound R (range_max l) = Some lu" "IsConstantOrInfinity lu" "wf_boundary lu" "ub_sat v lu a" "lu \<noteq> kNegativeInfinity"
    by (rule operand_upper [OF l])
  obtain ru where ru: "UpperBound R (range_max r) = Some ru" "IsConstantOrInfinity ru" "wf_boundary ru" "ub_sat v ru b" "ru \<noteq> kNegativeInfinity"
    by (rule operand_upper [OF r])
  show ?thesis
    using boundary_Sub_lb [OF ll(2-5) ru(2-5)] boundary_Sub_ub [OF lu(2-5) rl(2-5)] ll(1) rl(1) lu(1) ru(1)
    by (metis add.commute)
qed

lemma Add_sound:
  assumes l: "operand g R rk v l a" and r: "operand g R rk v r b"
    and d: "IsArrayLength g d \<Longrightarrow> v d = Some a \<and> in_smi a"
    and k: "Suc (rk d) \<le> k" "symbol_rank rk (range_min l) \<le> k" "symbol_rank rk (range_max l) \<le> k"
      "symbol_rank rk (range_min r) \<le> k" "symbol_rank rk (range_max r) \<le> k"
  shows "encloses rk k v (Range_Add g R l r d) (a + b)"
proof -
  have ranked: "well_ranked g R rk" and ex: "execution g R v" using l by (simp_all add: operand_def)
  obtain bl bu where bd: "left_boundary g d (range_min l) = Some bl" "left_boundary g d (range_max l) = Some bu"
      "wf_boundary bl" "wf_boundary bu" "symbol_rank rk bl \<le> k" "symbol_rank rk bu \<le> k"
      "IsSymbol bl \<or> IsConstant bl" "IsSymbol bu \<or> IsConstant bu" "lb_sat v bl a" "ub_sat v bu a"
    by (rule left_boundary_spec [OF l d k(1-3)])
  note re = operand_ends [OF r]
  obtain smin where smin: "SymbolicAdd g bl (range_min r) = Some smin"
    "\<And>c. smin = Some c \<Longrightarrow> wf_boundary c \<and> \<not> IsUnknown c \<and> symbol_rank rk c \<le> k \<and> lb_sat v c (a + b)"
    by (rule SymbolicAdd_lb [OF ranked ex bd(3) re(1) bd(7) re(5) bd(5) k(4) bd(9) re(7)]) (rule that, assumption+)
  obtain smax where smax: "SymbolicAdd g bu (range_max r) = Some smax"
    "\<And>c. smax = Some c \<Longrightarrow> wf_boundary c \<and> \<not> IsUnknown c \<and> symbol_rank rk c \<le> k \<and> ub_sat v c (a + b)"
    by (rule SymbolicAdd_ub [OF ranked ex bd(4) re(2) bd(8) re(6) bd(6) k(5) bd(10) re(8)]) (rule that, assumption+)
  obtain ll rl lu ru where bounds: "LowerBound R (range_min l) = Some ll" "LowerBound R (range_min r) = Some rl"
      "UpperBound R (range_max l) = Some lu" "UpperBound R (range_max r) = Some ru"
    and "\<exists>c. boundary_Add ll rl kNegativeInfinity = Some c \<and> wf_boundary c \<and> IsConstantOrInfinity c \<and> lb_sat v c (a + b)"
    and "\<exists>c. boundary_Add ru lu kPositiveInfinity = Some c \<and> wf_boundary c \<and> IsConstantOrInfinity c \<and> ub_sat v c (a + b)"
    using Add_constant_bounds [OF l r] by blast
  then obtain c1 c2 where c: "boundary_Add ll rl kNegativeInfinity = Some c1" "wf_boundary c1 \<and> IsConstantOrInfinity c1 \<and> lb_sat v c1 (a + b)"
      "boundary_Add ru lu kPositiveInfinity = Some c2" "wf_boundary c2 \<and> IsConstantOrInfinity c2 \<and> ub_sat v c2 (a + b)" by blast
  let ?mn = "case smin of Some c \<Rightarrow> c | None \<Rightarrow> c1" and ?mx = "case smax of Some c \<Rightarrow> c | None \<Rightarrow> c2"
  have "Range_Add g R l r d = Some (?mn, ?mx)"
    using bd smin(1) smax(1) bounds c(1,3) by (simp add: Range_Add_def split: option.splits)
  moreover have "wf_boundary ?mn \<and> \<not> IsUnknown ?mn \<and> symbol_rank rk ?mn \<le> k \<and> lb_sat v ?mn (a + b)"
    using c(2) smin(2) by (cases smin) auto
  moreover have "wf_boundary ?mx \<and> \<not> IsUnknown ?mx \<and> symbol_rank rk ?mx \<le> k \<and> ub_sat v ?mx (a + b)"
    using c(4) smax(2) by (cases smax) auto
  ultimately show ?thesis by (auto simp: encloses_def)
qed

lemma Sub_sound:
  assumes l: "operand g R rk v l a" and r: "operand g R rk v r b"
    and d: "IsArrayLength g d \<Longrightarrow> v d = Some a \<and> in_smi a"
    and k: "Suc (rk d) \<le> k" "symbol_rank rk (range_min l) \<le> k" "symbol_rank rk (range_max l) \<le> k"
      "symbol_rank rk (range_min r) \<le> k" "symbol_rank rk (range_max r) \<le> k"
  shows "encloses rk k v (Range_Sub g R l r d) (a - b)"
proof -
  have ranked: "well_ranked g R rk" and ex: "execution g R v" using l by (simp_all add: operand_def)
  obtain bl bu where bd: "left_boundary g d (range_min l) = Some bl" "left_boundary g d (range_max l) = Some bu"
      "wf_boundary bl" "wf_boundary bu" "symbol_rank rk bl \<le> k" "symbol_rank rk bu \<le> k"
      "IsSymbol bl \<or> IsConstant bl" "IsSymbol bu \<or> IsConstant bu" "lb_sat v bl a" "ub_sat v bu a"
    by (rule left_boundary_spec [OF l d k(1-3)])
  note re = operand_ends [OF r]
  obtain smin where smin: "SymbolicSub g bl (range_max r) = Some smin"
    "\<And>c. smin = Some c \<Longrightarrow> wf_boundary c \<and> \<not> IsUnknown c \<and> symbol_rank rk c \<le> k \<and> lb_sat v c (a - b)"
    by (rule SymbolicSub_lb [OF ranked ex bd(3) re(2) bd(7) re(6) bd(5) k(5) bd(9) re(8)]) (rule that, assumption+)
  obtain smax where smax: "SymbolicSub g bu (range_min r) = Some smax"
    "\<And>c. smax = Some c \<Longrightarrow> wf_boundary c \<and> \<not> IsUnknown c \<and> symbol_rank rk c \<le> k \<and> ub_sat v c (a - b)"
    by (rule SymbolicSub_ub [OF ranked ex bd(4) re(1) bd(8) re(5) bd(6) k(4) bd(10) re(7)]) (rule that, assumption+)
  obtain ll rl lu ru where bounds: "LowerBound R (range_min l) = Some ll" "LowerBound R (range_min r) = Some rl"
      "UpperBound R (range_max l) = Some lu" "UpperBound R (range_max r) = Some ru"
    and "\<exists>c. boundary_Sub ll ru kNegativeInfinity = Some c \<and> wf_boundary c \<and> IsConstantOrInfinity c \<and> lb_sat v c (a - b)"
    and "\<exists>c. boundary_Sub lu rl kPositiveInfinity = Some c \<and> wf_boundary c \<and> IsConstantOrInfinity c \<and> ub_sat v c (a - b)"
    using Sub_constant_bounds [OF l r] by blast
  then obtain c1 c2 where c: "boundary_Sub ll ru kNegativeInfinity = Some c1" "wf_boundary c1 \<and> IsConstantOrInfinity c1 \<and> lb_sat v c1 (a - b)"
      "boundary_Sub lu rl kPositiveInfinity = Some c2" "wf_boundary c2 \<and> IsConstantOrInfinity c2 \<and> ub_sat v c2 (a - b)" by blast
  let ?mn = "case smin of Some c \<Rightarrow> c | None \<Rightarrow> c1" and ?mx = "case smax of Some c \<Rightarrow> c | None \<Rightarrow> c2"
  have "Range_Sub g R l r d = Some (?mn, ?mx)"
    using bd smin(1) smax(1) bounds c(1,3) by (simp add: Range_Sub_def split: option.splits)
  moreover have "wf_boundary ?mn \<and> \<not> IsUnknown ?mn \<and> symbol_rank rk ?mn \<le> k \<and> lb_sat v ?mn (a - b)"
    using c(2) smin(2) by (cases smin) auto
  moreover have "wf_boundary ?mx \<and> \<not> IsUnknown ?mx \<and> symbol_rank rk ?mx \<le> k \<and> ub_sat v ?mx (a - b)"
    using c(4) smax(2) by (cases smax) auto
  ultimately show ?thesis by (auto simp: encloses_def)
qed

subsection \<open>Multiplication, division and modulo\<close>

lemma sint_AbsWithSaturation:
  assumes "in_int64 x"
  shows "sint (AbsWithSaturation (word_of_int x)) = (if x = - (2 ^ 63) then 2 ^ 63 - 1 else \<bar>x\<bar>)"
proof -
  have w: "sint (word_of_int x :: u64) = x" by (rule sint_word_of_int [OF assms])
  have n: "sint (- (word_of_int x :: u64)) = - x" if "x \<noteq> - (2 ^ 63)"
    using sint_word_of_int [of "- x"] assms that by (simp add: in_int64_def)
  have k: "(word_of_int x = kMinInt64) \<longleftrightarrow> x = - (2 ^ 63)"
    using w sint_consts(2) by (metis signed_word_eqI)
  show ?thesis
  proof (cases "x = - (2 ^ 63)")
    case True
    then have "(word_of_int x :: u64) = kMinInt64" using k by simp
    then show ?thesis using True by (simp add: AbsWithSaturation_def word_sless_alt)
  next
    case False
    then show ?thesis using w n k by (simp add: AbsWithSaturation_def word_sless_alt)
  qed
qed

lemma operand_abs:
  assumes "operand g R rk v r a"
  obtains lo mx mn where "ConstantAbsMax R (Some r) = Some mx" "ConstantAbsMin R (Some r) = Some mn"
    "cmin R r = Some lo" "0 \<le> mn" "mn \<le> mx" "mx < 2 ^ 63" "lo \<le> a" "in_int64 lo"
    "lo \<noteq> - (2 ^ 63) \<Longrightarrow> \<bar>a\<bar> \<le> mx" "mx \<le> 2 ^ 62 \<Longrightarrow> \<bar>a\<bar> \<le> mx"
    "\<And>n. OnlyGreaterThanOrEqualTo R r n = Some True \<Longrightarrow> 0 \<le> n \<Longrightarrow> n \<le> mn \<and> mn \<le> a \<and> a \<le> mx"
    "OnlyLessThanOrEqualTo R r 0 = Some True \<Longrightarrow> mn \<le> - a \<and> a \<le> 0"
proof -
  obtain lo hi where b: "cmin R r = Some lo" "cmax R r = Some hi" "in_int64 lo" "in_int64 hi" "lo \<le> a" "a \<le> hi"
    "\<And>n. OnlyGreaterThanOrEqualTo R r n = Some True \<Longrightarrow> n \<le> lo"
    "\<And>n. OnlyLessThanOrEqualTo R r n = Some True \<Longrightarrow> hi \<le> n"
    by (rule operand_bounds [OF assms]) (rule that, assumption+)
  let ?al = "if lo = - (2 ^ 63) then 2 ^ 63 - 1 else \<bar>lo\<bar>" and ?ah = "if hi = - (2 ^ 63) then 2 ^ 63 - 1 else \<bar>hi\<bar>"
  have m: "ConstantAbsMax R (Some r) = Some (max ?al ?ah)" "ConstantAbsMin R (Some r) = Some (min ?al ?ah)"
    using b by (simp_all add: ConstantAbsMax_def ConstantAbsMin_def sint_AbsWithSaturation)
  show ?thesis
  proof (rule that [OF m b(1)])
    fix n assume "OnlyGreaterThanOrEqualTo R r n = Some True" "0 \<le> n"
    then have "n \<le> lo" "0 \<le> lo" using b(7) by force+
    then show "n \<le> min ?al ?ah \<and> min ?al ?ah \<le> a \<and> a \<le> max ?al ?ah" using b(3-6) by (auto simp: in_int64_def)
  next
    assume "OnlyLessThanOrEqualTo R r 0 = Some True"
    then have "hi \<le> 0" by (rule b(8))
    then show "min ?al ?ah \<le> - a \<and> a \<le> 0" using b(3-6) by (auto simp: in_int64_def)
  qed (use b(3-6) in \<open>auto simp: in_int64_def\<close>)
qed

lemma Mul_sound:
  assumes l: "operand g R rk v l a" and r: "operand g R rk v r b"
  shows "encloses rk k v (Range_Mul R l r) (a * b)"
proof -
  obtain lo1 mx1 mn1 where A: "ConstantAbsMax R (Some l) = Some mx1" "ConstantAbsMin R (Some l) = Some mn1"
    "0 \<le> mn1" "mn1 \<le> mx1" "mx1 < 2 ^ 63" "mx1 \<le> 2 ^ 62 \<Longrightarrow> \<bar>a\<bar> \<le> mx1"
    "\<And>n. OnlyGreaterThanOrEqualTo R l n = Some True \<Longrightarrow> 0 \<le> n \<Longrightarrow> n \<le> mn1 \<and> mn1 \<le> a \<and> a \<le> mx1"
    "OnlyLessThanOrEqualTo R l 0 = Some True \<Longrightarrow> mn1 \<le> - a \<and> a \<le> 0"
    by (rule operand_abs [OF l]) (rule that, assumption+)
  obtain lo2 mx2 mn2 where B: "ConstantAbsMax R (Some r) = Some mx2" "ConstantAbsMin R (Some r) = Some mn2"
    "0 \<le> mn2" "mn2 \<le> mx2" "mx2 < 2 ^ 63" "mx2 \<le> 2 ^ 62 \<Longrightarrow> \<bar>b\<bar> \<le> mx2"
    "\<And>n. OnlyGreaterThanOrEqualTo R r n = Some True \<Longrightarrow> 0 \<le> n \<Longrightarrow> n \<le> mn2 \<and> mn2 \<le> b \<and> b \<le> mx2"
    "OnlyLessThanOrEqualTo R r 0 = Some True \<Longrightarrow> mn2 \<le> - b \<and> b \<le> 0"
    by (rule operand_abs [OF r]) (rule that, assumption+)
  obtain pos neg where s: "OnlyPositiveOrZero R l r = Some pos" "OnlyNegativeOrZero R l r = Some neg"
    using operand_signs [OF l, of 0] operand_signs [OF r, of 0] that
    unfolding OnlyPositiveOrZero_def OnlyNegativeOrZero_def by (metis bind.bind_lunit)
  have pos: "mn1 \<le> a \<and> mn2 \<le> b" if pos
    using s(1) that A(7) [of 0] B(7) [of 0] by (auto simp: OnlyPositiveOrZero_def bind_eq_Some_conv split: if_splits)
  have neg: "mn1 \<le> - a \<and> mn2 \<le> - b" if neg
    using s(2) that A(8) B(8) by (auto simp: OnlyNegativeOrZero_def bind_eq_Some_conv split: if_splits)
  have low: "mn1 * mn2 \<le> a * b" if "pos \<or> neg"
    using that pos neg mult_mono [of mn1 a mn2 b] mult_mono [of mn1 "- a" mn2 "- b"] A(3) B(3) by fastforce
  show ?thesis
  proof (cases "mx1 \<le> - kSmiMin \<and> mx2 \<le> - kSmiMin \<and> (mx1 = 0 \<or> mx2 \<le> (2 ^ 63 - 1) div mx1)")
    case True
    have small: "mx1 \<le> 2 ^ 62" "mx2 \<le> 2 ^ 62" using True by (simp_all add: kSmiMin_def)
    have fit: "mx1 * mx2 \<le> 2 ^ 63 - 1"
    proof (cases "mx1 = 0")
      case False
      then have "mx1 * mx2 \<le> mx1 * ((2 ^ 63 - 1) div mx1)" using True A(3,4) by (intro mult_left_mono) auto
      also have "\<dots> \<le> 2 ^ 63 - 1"
        using mult_div_mod_eq [of mx1 "2 ^ 63 - 1"] pos_mod_sign [of mx1 "2 ^ 63 - 1"] False A(3,4) by linarith
      finally show ?thesis .
    qed simp
    have "\<bar>a * b\<bar> \<le> mx1 * mx2"
      unfolding abs_mult using A(6) [OF small(1)] B(6) [OF small(2)] by (intro mult_mono) auto
    then have ab: "- (mx1 * mx2) \<le> a * b" "a * b \<le> mx1 * mx2" by linarith+
    have "0 \<le> mn1 * mn2" "mn1 * mn2 \<le> mx1 * mx2" using A(3,4) B(3,4) by (auto intro: mult_mono)
    then have "in_int64 (mn1 * mn2)" "in_int64 (mx1 * mx2)" "in_int64 (- (mx1 * mx2))"
      using fit unfolding in_int64_def by linarith+
    moreover have "Range_Mul R l r =
        Some (kConstant (if pos \<or> neg then mn1 * mn2 else - (mx1 * mx2)), kConstant (mx1 * mx2))"
      using A(1,2) B(1,2) s True by (auto simp: Range_Mul_def Let_def)
    ultimately show ?thesis using low ab
      by (intro encloses_constants [of _ "if pos \<or> neg then mn1 * mn2 else - (mx1 * mx2)" "mx1 * mx2"]) auto
  next
    case False
    then have "Range_Mul R l r = Some (if pos \<or> neg then kConstant 0 else kNegativeInfinity, kPositiveInfinity)"
      using A(1) B(1) s by (auto simp: Range_Mul_def)
    moreover have "0 \<le> a * b" if "pos \<or> neg"
      using low [OF that] A(3) B(3) by (meson mult_nonneg_nonneg order.trans)
    ultimately show ?thesis by (intro enclosesI) (auto simp: in_int64_def)
  qed
qed

lemma div_in_int64: "0 \<le> x \<Longrightarrow> x < 2 ^ 63 \<Longrightarrow> 1 \<le> y \<Longrightarrow> in_int64 (x div y)"
  using zdiv_mono2 [of x 1 y] pos_imp_zdiv_nonneg_iff [of y x] unfolding in_int64_def by simp

lemma TruncDiv_sound:
  assumes l: "operand g R rk v l a" and r: "operand g R rk v r b" and b: "b \<noteq> 0"
  shows "encloses rk k v (Range_TruncDiv R l r) (sgn a * sgn b * (\<bar>a\<bar> div \<bar>b\<bar>))"
proof -
  obtain lo1 mx1 mn1 where A: "ConstantAbsMax R (Some l) = Some mx1" "ConstantAbsMin R (Some l) = Some mn1"
    "0 \<le> mn1" "mn1 \<le> mx1" "mx1 < 2 ^ 63"
    "\<And>n. OnlyGreaterThanOrEqualTo R l n = Some True \<Longrightarrow> 0 \<le> n \<Longrightarrow> n \<le> mn1 \<and> mn1 \<le> a \<and> a \<le> mx1"
    by (rule operand_abs [OF l]) (rule that, assumption+)
  obtain lo2 mx2 mn2 where B: "ConstantAbsMax R (Some r) = Some mx2" "ConstantAbsMin R (Some r) = Some mn2"
    "0 \<le> mn2" "mn2 \<le> mx2" "mx2 < 2 ^ 63"
    "\<And>n. OnlyGreaterThanOrEqualTo R r n = Some True \<Longrightarrow> 0 \<le> n \<Longrightarrow> n \<le> mn2 \<and> mn2 \<le> b \<and> b \<le> mx2"
    by (rule operand_abs [OF r]) (rule that, assumption+)
  obtain p q where pq: "OnlyGreaterThanOrEqualTo R l 0 = Some p" "OnlyGreaterThanOrEqualTo R r 1 = Some q"
    using operand_signs [OF l, of 0] operand_signs [OF r, of 1] by blast
  show ?thesis
  proof (cases "p \<and> q")
    case True
    then have a: "mn1 \<le> a" "a \<le> mx1" "0 \<le> a" and b: "1 \<le> mn2" "mn2 \<le> b" "b \<le> mx2"
      using A(6) [of 0] B(6) [of 1] pq A(3) by auto
    have "mn1 div mx2 \<le> mn1 div b" using b A(3) by (intro zdiv_mono2) auto
    also have "\<dots> \<le> a div b" using a b by (intro zdiv_mono1) auto
    finally have lo: "mn1 div mx2 \<le> a div b" .
    have "a div b \<le> mx1 div b" using a b by (intro zdiv_mono1) auto
    also have "\<dots> \<le> mx1 div mn2" using a b by (intro zdiv_mono2) auto
    finally have hi: "a div b \<le> mx1 div mn2" .
    have fits: "in_int64 (mn1 div mx2)" "in_int64 (mx1 div mn2)"
      using A(3,4,5) b by (auto intro: div_in_int64)
    have "Range_TruncDiv R l r = Some (kConstant (mn1 div mx2), kConstant (mx1 div mn2))"
      using True pq A(1,2) B(1,2) b by (simp add: Range_TruncDiv_def)
    moreover have "sgn a * sgn b * (\<bar>a\<bar> div \<bar>b\<bar>) = a div b" using a b by (cases "a = 0") auto
    ultimately show ?thesis using lo hi fits by (intro encloses_constants) auto
  next
    case False
    then have "Range_TruncDiv R l r = Some (kNegativeInfinity, kPositiveInfinity)"
      using pq by (auto simp: Range_TruncDiv_def)
    then show ?thesis by (rule enclosesI) simp_all
  qed
qed

lemma Mod_sound:
  assumes r: "operand g R rk v r b" and b: "b \<noteq> 0" "in_int64 b"
  shows "encloses rk k v (Range_Mod R r) (a mod \<bar>b\<bar>)"
proof -
  obtain lo mx mn where B: "ConstantAbsMax R (Some r) = Some mx" "cmin R r = Some lo"
    "0 \<le> mn" "mn \<le> mx" "mx < 2 ^ 63" "lo \<noteq> - (2 ^ 63) \<Longrightarrow> \<bar>b\<bar> \<le> mx"
    by (rule operand_abs [OF r]) (rule that, assumption+)
  have m: "0 \<le> a mod \<bar>b\<bar>" "a mod \<bar>b\<bar> < \<bar>b\<bar>" using b by simp_all
  show ?thesis
  proof (cases "lo = - (2 ^ 63)")
    case True
    then have "Range_Mod R r = Some (kConstant 0, kConstant (2 ^ 63 - 1))" using B by (simp add: Range_Mod_def)
    moreover have "a mod \<bar>b\<bar> \<le> 2 ^ 63 - 1" using m(2) b(2) unfolding in_int64_def by linarith
    ultimately show ?thesis using m(1) by (intro encloses_constants) (simp_all add: in_int64_def)
  next
    case False
    then have "Range_Mod R r = Some (kConstant 0, kConstant (max (mx - 1) 0))" using B by (simp add: Range_Mod_def)
    moreover have "a mod \<bar>b\<bar> \<le> max (mx - 1) 0" using m(2) B(6) [OF False] by linarith
    ultimately show ?thesis using m(1) B(3-5) by (intro encloses_constants) (auto simp: in_int64_def)
  qed
qed

section \<open>The dispatcher\<close>

lemma transfer_sound:
  assumes l: "operand g R rk v l a" and r: "operand g R rk v r b"
    and d: "IsArrayLength g d \<Longrightarrow> v d = Some a \<and> in_smi a"
    and k: "Suc (rk d) \<le> k" "symbol_rank rk (range_min l) \<le> k" "symbol_rank rk (range_max l) \<le> k"
      "symbol_rank rk (range_min r) \<le> k" "symbol_rank rk (range_max r) \<le> k"
    and c: "eval_op op a b = Some c"
  shows "encloses rk k v (transfer g R op l r d) c"
proof -
  have b: "in_int64 b" using r by (simp add: operand_def)
  show ?thesis
    using c Add_sound [OF l r d k] Sub_sound [OF l r d k] Mul_sound [OF l r] TruncDiv_sound [OF l r]
      Mod_sound [OF r _ b] Shl_sound [OF l r] Shr_sound [OF l r] Ushr_sound [OF l r] And_sound [OF l r]
      BitwiseOp_sound [OF l r]
    by (cases op) (auto simp: transfer_def split: if_splits)
qed

lemma BinaryOp_encloses:
  assumes "encloses rk k v (transfer g R op l r d) c" "IsFinite l" "IsFinite r"
  obtains res where "BinaryOp g R op l r d = Some res" "wf_range res" "in_range v res (wrap64 c)"
    "symbol_rank rk (range_min res) \<le> k" "symbol_rank rk (range_max res) \<le> k"
    "res = SetInt64Range \<or> in_range v res c \<and> wrap64 c = c"
proof -
  obtain mn mx where p: "transfer g R op l r d = Some (mn, mx)" "wf_boundary mn" "wf_boundary mx"
      "\<not> IsUnknown mn" "\<not> IsUnknown mx" "symbol_rank rk mn \<le> k" "symbol_rank rk mx \<le> k" "lb_sat v mn c" "ub_sat v mx c"
    using assms(1) by (auto simp: encloses_def)
  have ok: "\<not> (case (mn, mx) of (kConstant l, kConstant u) \<Rightarrow> \<not> l \<le> u | _ \<Rightarrow> False)"
    using p(8,9) by (cases mn; cases mx) auto
  then have eq: "BinaryOp g R op l r d = new_Range mn mx"
    using p(1,4,5) assms(2,3) by (simp add: BinaryOp_def)
  show ?thesis
  proof (cases "IsInfinity mn \<or> IsInfinity mx")
    case True
    have full: "wf_range SetInt64Range" "in_range v SetInt64Range (wrap64 c)"
      "symbol_rank rk (range_min SetInt64Range) = 0" "symbol_rank rk (range_max SetInt64Range) = 0"
      using in_int64_wrap64 [of c]
      by (simp_all add: SetInt64Range_def wf_range_def in_range_def MinConstant_def MaxConstant_def in_int64_def)
    show ?thesis using that [of SetInt64Range] True eq p(4,5) full by (simp add: new_Range_def)
  next
    case False
    then have sc: "IsSymbol mn \<or> IsConstant mn" "IsSymbol mx \<or> IsConstant mx" using p(4,5) by (cases mn; cases mx; simp)+
    obtain x y where xy: "bval v mn = Some x" "x \<le> c" "bval v mx = Some y" "c \<le> y"
      using p(8,9) sc lb_sat_bval ub_sat_bval by blast
    have "in_int64 x" "in_int64 y"
      using xy(1,3) p(2,3) sc valid_offset_sum by (cases mn; cases mx; auto split: option.splits if_splits)+
    then have "in_int64 c" using xy by (simp add: in_int64_def)
    then show ?thesis
      using that [of "\<lparr>range_min = mn, range_max = mx\<rparr>"] False eq p
      by (simp add: new_Range_def wf_range_def in_range_def wrap64_id)
  qed
qed

section \<open>Queries\<close>

lemma Fits_spec:
  assumes "operand g R rk v r x"
  shows "\<exists>f. Fits g R sz r = Some f \<and> (f \<longrightarrow> in_size sz x)"
proof -
  obtain l where l: "LowerBound R (range_min r) = Some l" "IsConstantOrInfinity l" "lb_sat v l x"
    by (rule operand_lower [OF assms])
  obtain u where u: "UpperBound R (range_max r) = Some u" "IsConstantOrInfinity u" "ub_sat v u x"
    by (rule operand_upper [OF assms])
  show ?thesis
    using l u by (auto simp: Fits_def Overflowed_spec in_size_def)
qed

lemma IsWithin_spec:
  assumes "operand g R rk v r x"
  shows "\<exists>w. IsWithin R r lo hi = Some w \<and> (w \<longrightarrow> lo \<le> x \<and> x \<le> hi)"
proof -
  obtain p q where pq: "OnlyGreaterThanOrEqualTo R r lo = Some p" "OnlyLessThanOrEqualTo R r hi = Some q"
    using operand_signs [OF assms] by blast
  obtain l h where b: "l \<le> x" "x \<le> h" "\<And>n. OnlyGreaterThanOrEqualTo R r n = Some True \<Longrightarrow> n \<le> l"
    "\<And>n. OnlyLessThanOrEqualTo R r n = Some True \<Longrightarrow> h \<le> n"
    by (rule operand_bounds [OF assms]) (rule that, assumption+)
  have "p \<Longrightarrow> lo \<le> x" "q \<Longrightarrow> x \<le> hi" using b(1,2) b(3) [of lo] b(4) [of hi] pq by auto
  then show ?thesis using pq by (auto simp: IsWithin_def)
qed

lemma Overlaps_spec:
  assumes "operand g R rk v r x"
  shows "\<exists>q. Overlaps R r lo hi = Some q \<and> (\<not> q \<longrightarrow> \<not> (lo \<le> x \<and> x \<le> hi))"
proof -
  obtain l where l: "LowerBound R (range_min r) = Some l" "IsConstantOrInfinity l" "lb_sat v l x" "l \<noteq> kPositiveInfinity"
    by (rule operand_lower [OF assms])
  obtain u where u: "UpperBound R (range_max r) = Some u" "IsConstantOrInfinity u" "ub_sat v u x" "u \<noteq> kNegativeInfinity"
    by (rule operand_upper [OF assms])
  have x: "in_int64 x" using assms by (simp add: operand_def)
  obtain tl where tl: "(if l = kNegativeInfinity then Some (- (2 ^ 63)) else ConstantValue l) = Some tl" "tl \<le> x"
    using l(2-4) x by (cases l) (auto simp: in_int64_def)
  obtain tu where tu: "(if u = kPositiveInfinity then Some (2 ^ 63 - 1) else ConstantValue u) = Some tu" "x \<le> tu"
    using u(2-4) x by (cases u) (auto simp: in_int64_def)
  show ?thesis using l(1) u(1) tl tu by (auto simp: Overlaps_def simp del: split_paired_Ex)
qed

lemma IsUnsatisfiable_inhabited:
  assumes "operand g R rk v r x"
  shows "IsUnsatisfiable g R r = Some False"
proof -
  obtain lo hi where "cmin R r = Some lo" "cmax R r = Some hi" "lo \<le> x" "x \<le> hi"
    using operand_bounds [OF assms] by metis
  moreover have ranked: "well_ranked g R rk" "execution g R v" using assms by (simp_all add: operand_def)
  moreover obtain q where q: "DependOnSameSymbol g (range_min r) (range_max r) = Some q"
    using DependOnSameSymbol_spec(1) [OF ranked(1)] by blast
  moreover have "boundary_offset (range_min r) \<le> boundary_offset (range_max r)" if q
  proof -
    note e = operand_ends [OF assms]
    obtain y z where "bval v (range_min r) = Some y" "y \<le> x" "bval v (range_max r) = Some z" "x \<le> z"
      using e lb_sat_bval ub_sat_bval by blast
    then show ?thesis using DependOnSameSymbol_spec(3) [OF ranked(1) _ ranked(2)] q that by fastforce
  qed
  moreover have "range_min r \<noteq> kPositiveInfinity" "range_max r \<noteq> kNegativeInfinity"
    using assms by (auto simp: operand_def wf_range_def)
  ultimately show ?thesis by (auto simp: IsUnsatisfiable_def)
qed

text \<open>
  A concrete flow graph for the witnesses: definition 0 is the length of an array, in the range from 0 to
  100; everything else is opaque.
\<close>

definition demo_graph :: flow_graph where
  "demo_graph = \<lparr>instr_of = (\<lambda>d. OtherDefinition), AllowsCSE = (\<lambda>d. False), defn_Equals = (\<lambda>d e. False),
     IsArrayLength = (\<lambda>d. d = 0), type_is_smi = (\<lambda>d. True), type_is_int = (\<lambda>d. True),
     IsInt64Definition = (\<lambda>d. False), IsInt32Definition = (\<lambda>d. False), defn_representation = (\<lambda>d. kTagged),
     is_truncating = (\<lambda>d. False), GetBlock = (\<lambda>d. 0), Dominates = (\<lambda>a b. False)\<rparr>"

definition demo_ranges :: ranges where
  "demo_ranges = (\<lambda>d. if d = 0 then Some \<lparr>range_min = kConstant 0, range_max = kConstant 100\<rparr> else None)"

definition demo_env :: env where
  "demo_env = (\<lambda>d. if d = 0 then Some 7 else None)"

lemma demo_ok: "well_ranked demo_graph demo_ranges (\<lambda>d. 0)" "execution demo_graph demo_ranges demo_env"
  by (auto simp: well_ranked_def wf_instr_def execution_def computes_def demo_graph_def demo_ranges_def demo_env_def
    wf_range_def in_range_def in_int64_def split: if_splits)

section \<open>Properties\<close>

text \<open>
  C7. Binary operators on ranges: for operands in their (well-formed, finite) ranges, \<open>BinaryOp\<close> returns, none of
  its assertions fails, and the range it computes is well formed and contains the 64-bit result of the
  operation, for every operator, with symbolic bounds and wrap-around included.
\<close>

theorem BinaryOp_sound:
  assumes "well_ranked g R rk" "execution g R v"
    and "wf_range l" "in_range v l a" "in_int64 a" "wf_range r" "in_range v r b" "in_int64 b"
    and "IsArrayLength g d \<Longrightarrow> v d = Some a \<and> in_smi a"
    and "eval_op op a b = Some c"
  shows "\<exists>res. BinaryOp g R op l r d = Some res \<and> wf_range res \<and> in_range v res (wrap64 c)"
proof -
  let ?k = "Suc (rk d) + symbol_rank rk (range_min l) + symbol_rank rk (range_max l) +
    symbol_rank rk (range_min r) + symbol_rank rk (range_max r)"
  have "operand g R rk v l a" "operand g R rk v r b" using assms by (simp_all add: operand_def)
  then have "encloses rk ?k v (transfer g R op l r d) c"
    using assms(9,10) by (intro transfer_sound) simp_all
  moreover have "IsFinite l" "IsFinite r" using assms by (simp_all add: IsFinite_def wf_range_def)
  ultimately show ?thesis by (rule BinaryOp_encloses) blast
qed

theorem BinaryOp_sound_witness:
  "\<exists>res. BinaryOp demo_graph demo_ranges kSUB \<lparr>range_min = kConstant 0, range_max = kConstant 100\<rparr>
     \<lparr>range_min = kConstant 1, range_max = kConstant 2\<rparr> 0 = Some res \<and> wf_range res \<and> in_range demo_env res (wrap64 6)"
  by (rule BinaryOp_sound [OF demo_ok, where a = 7 and b = 1])
    (simp_all add: wf_range_def in_range_def in_int64_def demo_env_def demo_graph_def in_smi_def kSmiMin_def kSmiMax_def)

text \<open>
  Queries on a range that contains a value never mislead an optimisation: \<open>Fits\<close> (which removes overflow
  checks) and \<open>IsWithin\<close> answer true only if the value obeys the limits, \<open>Overlaps\<close> (behind \<open>CanBeZero\<close>, which
  removes checks for division by zero) answers false only if the value avoids the interval, and an inhabited
  range is never called unsatisfiable, which would make its block unreachable.
\<close>

theorem range_queries_sound:
  assumes "well_ranked g R rk" "execution g R v" "wf_range r" "in_range v r x" "in_int64 x"
  shows "(\<exists>f. Fits g R sz r = Some f \<and> (f \<longrightarrow> in_size sz x)) \<and>
    (\<exists>w. IsWithin R r lo hi = Some w \<and> (w \<longrightarrow> lo \<le> x \<and> x \<le> hi)) \<and>
    (\<exists>q. Overlaps R r lo hi = Some q \<and> (\<not> q \<longrightarrow> \<not> (lo \<le> x \<and> x \<le> hi))) \<and>
    (\<exists>z. RangeUtils_CanBeZero R (Some r) = Some z \<and> (\<not> z \<longrightarrow> x \<noteq> 0)) \<and>
    IsUnsatisfiable g R r = Some False"
proof -
  have o: "operand g R rk v r x" using assms by (simp add: operand_def)
  have "RangeUtils_CanBeZero R (Some r) = Overlaps R r 0 0"
    using assms(3) by (simp add: RangeUtils_CanBeZero_def RangeUtils_Overlaps_def wf_range_def)
  then show ?thesis
    using Fits_spec [OF o] IsWithin_spec [OF o] Overlaps_spec [OF o, of lo hi] Overlaps_spec [OF o, of 0 0]
      IsUnsatisfiable_inhabited [OF o] by auto
qed

theorem range_queries_sound_witness:
  "\<exists>z. RangeUtils_CanBeZero demo_ranges (Some \<lparr>range_min = kConstant 3, range_max = kSymbol 0 5\<rparr>) = Some z
     \<and> (\<not> z \<longrightarrow> (9::int) \<noteq> 0)"
  using range_queries_sound [OF demo_ok, of "\<lparr>range_min = kConstant 3, range_max = kSymbol 0 5\<rparr>" 9 kRangeBoundarySmi 0 0]
  by (simp add: wf_range_def in_range_def in_int64_def demo_env_def range_defs)

end
