(* ===== verification/Range_Inference.thy ===== *)
theory Range_Inference
  imports Range_Ops
begin

text \<open>
  Range inference (\<^verbatim>\<open>runtime/vm/compiler/backend/range_analysis.cc\<close>): the constraints taken from comparisons, the
  \<^verbatim>\<open>InferRange\<close> methods of the instructions, the join at phis with widening and narrowing, the fixpoint
  iteration, and the elimination of array bounds checks.

  The graph transformations that insert and remove constraint instructions, the scheduling of generalised
  bounds checks and the selection of 32-bit instructions rewrite the flow graph and are not modelled.
\<close>

section \<open>Constraints from comparisons\<close>

fun NegateComparison :: "Token \<Rightarrow> Token option" where
  "NegateComparison kEQ = Some kNE"
| "NegateComparison kNE = Some kEQ"
| "NegateComparison kLT = Some kGTE"
| "NegateComparison kGT = Some kLTE"
| "NegateComparison kLTE = Some kGT"
| "NegateComparison kGTE = Some kLT"
| "NegateComparison _ = None"

fun FlipComparison :: "Token \<Rightarrow> Token option" where
  "FlipComparison kEQ = Some kEQ"
| "FlipComparison kNE = Some kNE"
| "FlipComparison kLT = Some kGT"
| "FlipComparison kGT = Some kLT"
| "FlipComparison kLTE = Some kGTE"
| "FlipComparison kGTE = Some kLTE"
| "FlipComparison _ = None"

definition ConstraintSmiRange :: "flow_graph \<Rightarrow> Token \<Rightarrow> defn \<Rightarrow> Range option" where
  "ConstraintSmiRange g op boundary =
     (case op of
        kEQ \<Rightarrow> do { b \<leftarrow> FromDefinition g boundary 0; new_Range b b }
      | kNE \<Rightarrow> Some (Full kRangeBoundarySmi)
      | kLT \<Rightarrow> do { b \<leftarrow> FromDefinition g boundary (- 1); new_Range MinSmi b }
      | kGT \<Rightarrow> do { b \<leftarrow> FromDefinition g boundary 1; new_Range b MaxSmi }
      | kLTE \<Rightarrow> do { b \<leftarrow> FromDefinition g boundary 0; new_Range MinSmi b }
      | kGTE \<Rightarrow> do { b \<leftarrow> FromDefinition g boundary 0; new_Range b MaxSmi }
      | _ \<Rightarrow> None)"

text \<open>
  The two constraint ranges that \<open>ConstrainValueAfterBranch\<close> attaches to a value that is compared as operand
  \<open>use_index\<close>: at the true and at the false successor.
\<close>

definition ConstrainValueAfterBranch ::
    "flow_graph \<Rightarrow> Token \<Rightarrow> defn \<Rightarrow> defn \<Rightarrow> nat \<Rightarrow> (Range \<times> Range) option" where
  "ConstrainValueAfterBranch g kind left right use_index =
     do {
       p \<leftarrow> (if use_index = 0 then Some (right, kind)
            else if use_index = 1 then do { op \<leftarrow> FlipComparison kind; Some (left, op) }
            else None);
       true_constraint \<leftarrow> ConstraintSmiRange g (snd p) (fst p);
       negated \<leftarrow> NegateComparison (snd p);
       false_constraint \<leftarrow> ConstraintSmiRange g negated (fst p);
       Some (true_constraint, false_constraint)
     }"

text \<open>The constraint that \<open>ConstrainValueAfterCheckBound\<close> attaches to the index or the length of a check.\<close>

definition ConstrainValueAfterCheckBound :: "flow_graph \<Rightarrow> defn \<Rightarrow> defn \<Rightarrow> bool \<Rightarrow> Range option" where
  "ConstrainValueAfterCheckBound g index len is_index =
     (if is_index then do { b \<leftarrow> FromDefinition g len (- 1); new_Range (kConstant 0) b }
      else do { b \<leftarrow> FromDefinition g index 1; new_Range b MaxSmi })"

section \<open>Ranges of inputs\<close>

definition GetSmiRange :: "flow_graph \<Rightarrow> ranges \<Rightarrow> defn \<Rightarrow> Range option" where
  "GetSmiRange g R d =
     (if R d = None \<and> \<not> type_is_smi g d then Some (Full kRangeBoundarySmi) else R d)"

definition GetIntRange :: "flow_graph \<Rightarrow> ranges \<Rightarrow> defn \<Rightarrow> Range option" where
  "GetIntRange g R d =
     (if R d = None \<and> \<not> type_is_int g d then Some (Full kRangeBoundaryInt64) else R d)"

definition GetInputRange :: "flow_graph \<Rightarrow> ranges \<Rightarrow> RangeSize \<Rightarrow> defn \<Rightarrow> Range option option" where
  "GetInputRange g R sz input =
     (case sz of
        kRangeBoundarySmi \<Rightarrow> Some (GetSmiRange g R input)
      | kRangeBoundaryInt32 \<Rightarrow> Some (R input)
      | kRangeBoundaryInt64 \<Rightarrow> Some (GetIntRange g R input)
      | _ \<Rightarrow> None)"

definition RepresentationToRangeSize :: "Representation \<Rightarrow> RangeSize option" where
  "RepresentationToRangeSize r =
     (case r of
        kTagged \<Rightarrow> Some kRangeBoundarySmi
      | kUnboxedUint8 \<Rightarrow> Some kRangeBoundaryInt16
      | kUnboxedInt32 \<Rightarrow> Some kRangeBoundaryInt32
      | kUnboxedInt64 \<Rightarrow> Some kRangeBoundaryInt64
      | kUnboxedUint32 \<Rightarrow> Some kRangeBoundaryInt64
      | _ \<Rightarrow> None)"

section \<open>Phis\<close>

definition RangeSizeForPhi :: "flow_graph \<Rightarrow> defn \<Rightarrow> RangeSize option" where
  "RangeSizeForPhi g phi =
     (if type_is_smi g phi then Some kRangeBoundarySmi
      else if defn_representation g phi = kUnboxedInt32 then Some kRangeBoundaryInt32
      else if type_is_int g phi then Some kRangeBoundaryInt64
      else None)"

definition DependsOnSymbol :: "flow_graph \<Rightarrow> RangeBoundary \<Rightarrow> defn \<Rightarrow> bool option" where
  "DependsOnSymbol g a d =
     (case a of
        kSymbol s offset \<Rightarrow> do { u \<leftarrow> UnwrapConstraint g s; Some (u = d) }
      | _ \<Rightarrow> Some False)"

definition Join :: "flow_graph \<Rightarrow> ranges \<Rightarrow> Range \<Rightarrow> defn \<Rightarrow> Range option \<Rightarrow> RangeSize \<Rightarrow> Range option" where
  "Join g R r d defn_range sz =
     (if Range_IsUnknown defn_range then Some r
      else if Range_IsUnknown (Some r) then defn_range
      else do {
        other \<leftarrow> defn_range;
        unwrapped \<leftarrow> UnwrapConstraint g d;
        on_min \<leftarrow> DependsOnSymbol g (range_min r) unwrapped;
        on_max \<leftarrow> DependsOnSymbol g (range_max r) unwrapped;
        other \<leftarrow> (if on_min \<or> on_max
                 then do { b \<leftarrow> FromDefinition g d 0; new_Range b b }
                 else Some other);
        inf_range \<leftarrow> LowerBound_size R sz (range_min r);
        inf_other \<leftarrow> LowerBound_size R sz (range_min other);
        sup_range \<leftarrow> UpperBound_size R sz (range_max r);
        sup_other \<leftarrow> UpperBound_size R sz (range_max other);
        if sup_range \<le> inf_other then Some (set_max r (range_max other))
        else if sup_other \<le> inf_range then Some (set_min r (range_min other))
        else do {
          mn \<leftarrow> JoinMin g R (range_min r) (range_min other) sz;
          mx \<leftarrow> JoinMax g R (range_max r) (range_max other) sz;
          new_Range mn mx
        }
      })"

definition DominatesPhi :: "flow_graph \<Rightarrow> nat \<Rightarrow> nat \<Rightarrow> bool" where
  "DominatesPhi g a phi_block \<longleftrightarrow> Dominates g a phi_block \<and> a \<noteq> phi_block"

definition EnsureAcyclicSymbol ::
    "flow_graph \<Rightarrow> nat \<Rightarrow> RangeBoundary \<Rightarrow> RangeBoundary \<Rightarrow> RangeBoundary option" where
  "EnsureAcyclicSymbol g phi_block a limit =
     (case a of
        kSymbol s offset \<Rightarrow>
          if DominatesPhi g (GetBlock g s) phi_block then Some a
          else do {
            unwrapped \<leftarrow> UnwrapConstraint g s;
            if unwrapped \<noteq> s \<and> DominatesPhi g (GetBlock g unwrapped) phi_block
            then FromDefinition g unwrapped offset
            else Some limit
          }
      | _ \<Rightarrow> Some a)"

fun Join_inputs :: "flow_graph \<Rightarrow> ranges \<Rightarrow> RangeSize \<Rightarrow> defn list \<Rightarrow> Range \<Rightarrow> Range option" where
  "Join_inputs g R sz [] r = Some r"
| "Join_inputs g R sz (input # inputs) r =
     do {
       input_range \<leftarrow> GetInputRange g R sz input;
       r \<leftarrow> Join g R r input input_range sz;
       Join_inputs g R sz inputs r
     }"

definition Phi_InferRange :: "flow_graph \<Rightarrow> ranges \<Rightarrow> defn \<Rightarrow> defn list \<Rightarrow> Range option" where
  "Phi_InferRange g R phi inputs =
     do {
       sz \<leftarrow> RangeSizeForPhi g phi;
       r \<leftarrow> Join_inputs g R sz inputs unknown_Range;
       mn \<leftarrow> EnsureAcyclicSymbol g (GetBlock g phi) (range_min r) MinSmi;
       let r = set_min r mn;
       mx \<leftarrow> EnsureAcyclicSymbol g (GetBlock g phi) (range_max r) MaxSmi;
       Some (set_max r mx)
     }"

subsection \<open>Widening and narrowing\<close>

definition WidenMin :: "flow_graph \<Rightarrow> ranges \<Rightarrow> Range \<Rightarrow> Range \<Rightarrow> RangeSize \<Rightarrow> RangeBoundary option" where
  "WidenMin g R r new_range sz =
     do {
       let mn = range_min r;
       let new_min = range_min new_range;
       early \<leftarrow> (if IsSymbol mn
         then do {
           l \<leftarrow> LowerBound R mn;
           overflowed \<leftarrow> Overflowed g sz l;
           if overflowed then Some (Some (MinConstant sz))
           else do {
             same \<leftarrow> DependOnSameSymbol g mn new_min;
             if same
             then Some (Some (if boundary_offset mn \<le> boundary_offset new_min then mn else MinConstant sz))
             else do {
               u \<leftarrow> UpperBound_size R sz mn;
               l \<leftarrow> LowerBound_size R sz new_min;
               Some (if u \<le> l then Some mn else None)
             }
           }
         }
         else Some None);
       (case early of
          Some b \<Rightarrow> Some b
        | None \<Rightarrow> do {
            a \<leftarrow> ConstantMin R (Some r) sz;
            b \<leftarrow> ConstantMin R (Some new_range) sz;
            x \<leftarrow> ConstantValue a;
            y \<leftarrow> ConstantValue b;
            Some (if x \<le> y then a else MinConstant sz)
          })
     }"

definition WidenMax :: "flow_graph \<Rightarrow> ranges \<Rightarrow> Range \<Rightarrow> Range \<Rightarrow> RangeSize \<Rightarrow> RangeBoundary option" where
  "WidenMax g R r new_range sz =
     do {
       let mx = range_max r;
       let new_max = range_max new_range;
       early \<leftarrow> (if IsSymbol mx
         then do {
           u \<leftarrow> UpperBound R mx;
           overflowed \<leftarrow> Overflowed g sz u;
           if overflowed then Some (Some (MaxConstant sz))
           else do {
             same \<leftarrow> DependOnSameSymbol g mx new_max;
             if same
             then Some (Some (if boundary_offset mx \<ge> boundary_offset new_max then mx else MaxConstant sz))
             else do {
               l \<leftarrow> LowerBound_size R sz mx;
               u \<leftarrow> UpperBound_size R sz new_max;
               Some (if l \<ge> u then Some mx else None)
             }
           }
         }
         else Some None);
       (case early of
          Some b \<Rightarrow> Some b
        | None \<Rightarrow> do {
            a \<leftarrow> ConstantMax R (Some r) sz;
            b \<leftarrow> ConstantMax R (Some new_range) sz;
            x \<leftarrow> ConstantValue a;
            y \<leftarrow> ConstantValue b;
            Some (if x \<ge> y then a else MaxConstant sz)
          })
     }"

definition NarrowMin :: "ranges \<Rightarrow> Range \<Rightarrow> Range \<Rightarrow> RangeSize \<Rightarrow> RangeBoundary option" where
  "NarrowMin R r new_range sz =
     do {
       a \<leftarrow> ConstantMin R (Some r) sz;
       b \<leftarrow> ConstantMin R (Some new_range) sz;
       x \<leftarrow> ConstantValue a;
       y \<leftarrow> ConstantValue b;
       Some (if x > y then range_min r
             else if IsMinimumOrBelow sz (range_min r) then range_min new_range else range_min r)
     }"

definition NarrowMax :: "ranges \<Rightarrow> Range \<Rightarrow> Range \<Rightarrow> RangeSize \<Rightarrow> RangeBoundary option" where
  "NarrowMax R r new_range sz =
     do {
       a \<leftarrow> ConstantMax R (Some r) sz;
       b \<leftarrow> ConstantMax R (Some new_range) sz;
       x \<leftarrow> ConstantValue a;
       y \<leftarrow> ConstantValue b;
       Some (if x < y then range_max r
             else if IsMaximumOrAbove sz (range_max r) then range_max new_range else range_max r)
     }"

section \<open>The other instructions\<close>

text \<open>
  What inference changes: the ranges of the definitions, the flag \<^verbatim>\<open>can_overflow_\<close> of binary operations, and
  the cached range of the right operand (\<^verbatim>\<open>right_range_\<close>, \<^verbatim>\<open>shift_range_\<close>).
\<close>

record analysis =
  range_of :: ranges
  can_overflow :: "defn \<Rightarrow> bool"
  cached_range :: "defn \<Rightarrow> Range option"

definition Definition_InferRange :: "flow_graph \<Rightarrow> defn \<Rightarrow> Range option" where
  "Definition_InferRange g d =
     (if type_is_smi g d then Some (Full kRangeBoundarySmi)
      else if IsInt64Definition g d then Some (Full kRangeBoundaryInt64)
      else if IsInt32Definition g d then Some (Full kRangeBoundaryInt32)
      else if type_is_int g d then Some (Full kRangeBoundaryInt64)
      else None)"

definition Constant_InferRange :: "constant_value \<Rightarrow> Range option" where
  "Constant_InferRange c =
     (case c of
        Smi x \<Rightarrow> new_Range (kConstant x) (kConstant x)
      | Mint x \<Rightarrow> new_Range (kConstant x) (kConstant x)
      | OtherObject \<Rightarrow> None)"

definition Constraint_InferRange :: "flow_graph \<Rightarrow> ranges \<Rightarrow> defn \<Rightarrow> Range \<Rightarrow> Range option" where
  "Constraint_InferRange g R val constraint =
     (let value_range = GetSmiRange g R val
      in if Range_IsUnknown value_range then Some unknown_Range
         else do {
           result \<leftarrow> Intersect g R (the value_range) constraint;
           unsat \<leftarrow> IsUnsatisfiable g R result;
           Some (if unsat then unknown_Range else result)
         })"

definition Array_kMaxElements :: int where "Array_kMaxElements = 576460752303423487"
definition TypeArguments_kMaxElements :: int where "TypeArguments_kMaxElements = 576460752303423487"
definition String_kMaxElements :: int where "String_kMaxElements = 2305843009213693951"

definition LoadField_InferRange :: "flow_graph \<Rightarrow> defn \<Rightarrow> SlotKind \<Rightarrow> Representation \<Rightarrow> Range option" where
  "LoadField_InferRange g d slot rep =
     (if slot \<in> {kArray_length, kGrowableObjectArray_length}
      then new_Range (kConstant 0) (kConstant Array_kMaxElements)
      else if slot \<in> {kTypedDataBase_length, kTypedDataView_offset_in_bytes} then new_Range (kConstant 0) MaxSmi
      else if slot = kTypeArguments_length then new_Range (kConstant 0) (kConstant TypeArguments_kMaxElements)
      else if slot = kString_length then new_Range (kConstant 0) (kConstant String_kMaxElements)
      else if slot \<in> {kDartField, kCapturedVariable} then Definition_InferRange g d
      else if slot \<in> {kClosureData_default_type_arguments_kind, kFunction_kind_tag, kFunction_packed_fields,
                      kTypeParameter_flags}
      then map_option Full (RepresentationToRangeSize rep)
      else if slot \<in> {kFunctionType_packed_fields, kClosure_hash, kLinkedHashMap_hash_mask,
                      kLinkedHashMap_used_data, kLinkedHashMap_deleted_keys}
      then new_Range (kConstant 0) MaxSmi
      else if slot \<in> {kArgumentsDescriptor_type_args_len, kArgumentsDescriptor_positional_count,
                      kArgumentsDescriptor_count, kArgumentsDescriptor_size}
      then new_Range (kConstant 0) MaxSmi
      else None)"

definition LoadIndexed_InferRange :: "flow_graph \<Rightarrow> defn \<Rightarrow> ClassId \<Rightarrow> Range option" where
  "LoadIndexed_InferRange g d cid =
     (case cid of
        kTypedDataInt8ArrayCid \<Rightarrow> new_Range (kConstant (- 128)) (kConstant 127)
      | kTypedDataUint8ArrayCid \<Rightarrow> new_Range (kConstant 0) (kConstant 255)
      | kTypedDataUint8ClampedArrayCid \<Rightarrow> new_Range (kConstant 0) (kConstant 255)
      | kExternalTypedDataUint8ArrayCid \<Rightarrow> new_Range (kConstant 0) (kConstant 255)
      | kExternalTypedDataUint8ClampedArrayCid \<Rightarrow> new_Range (kConstant 0) (kConstant 255)
      | kTypedDataInt16ArrayCid \<Rightarrow> new_Range (kConstant (- 32768)) (kConstant 32767)
      | kTypedDataUint16ArrayCid \<Rightarrow> new_Range (kConstant 0) (kConstant 65535)
      | kTypedDataInt32ArrayCid \<Rightarrow> new_Range (kConstant (- (2 ^ 31))) (kConstant (2 ^ 31 - 1))
      | kTypedDataUint32ArrayCid \<Rightarrow> new_Range (kConstant 0) (kConstant (2 ^ 32 - 1))
      | kOneByteStringCid \<Rightarrow> new_Range (kConstant 0) (kConstant 0xFF)
      | kTwoByteStringCid \<Rightarrow> new_Range (kConstant 0) (kConstant 0xFFFF)
      | _ \<Rightarrow> Definition_InferRange g d)"

definition LoadCodeUnits_InferRange :: "ClassId \<Rightarrow> nat \<Rightarrow> Range option" where
  "LoadCodeUnits_InferRange cid element_count =
     (if \<not> 0 < element_count then None
      else if cid \<in> {kOneByteStringCid, kExternalOneByteStringCid}
      then (if element_count \<le> 4
            then do { m \<leftarrow> NBitMask (8 * element_count); new_Range (kConstant 0) (kConstant (sint m)) }
            else None)
      else if cid \<in> {kTwoByteStringCid, kExternalTwoByteStringCid}
      then (if element_count \<le> 2
            then do { m \<leftarrow> NBitMask (2 * 8 * element_count); new_Range (kConstant 0) (kConstant (sint m)) }
            else None)
      else None)"

definition Utf8Scan_InferRange :: "Range option" where
  "Utf8Scan_InferRange = new_Range (kConstant 0) MaxSmi"

definition IfThenElse_InferRange :: "int \<Rightarrow> int \<Rightarrow> Range option" where
  "IfThenElse_InferRange if_true if_false =
     new_Range (kConstant (min if_true if_false)) (kConstant (max if_true if_false))"

text \<open>
  \<open>InferRangeHelper\<close> returns the range and, for an operation that is not truncating, the new value of
  \<^verbatim>\<open>can_overflow_\<close>.
\<close>

definition InferRangeHelper ::
    "flow_graph \<Rightarrow> ranges \<Rightarrow> defn \<Rightarrow> Token \<Rightarrow> defn \<Rightarrow> Representation \<Rightarrow> Range option \<Rightarrow> Range option
     \<Rightarrow> (Range \<times> bool option) option" where
  "InferRangeHelper g R d op left rep left_range right_range =
     (if Range_IsUnknown left_range \<or> Range_IsUnknown right_range then Some (unknown_Range, None)
      else do {
        r \<leftarrow> BinaryOp g R op (the left_range) (the right_range) left;
        if Range_IsUnknown (Some r) then None
        else do {
          range_size \<leftarrow> RepresentationToRangeSize rep;
          overflow \<leftarrow> (if is_truncating g d then Some None
            else do { fits \<leftarrow> Fits g R range_size r; Some (Some (\<not> fits)) });
          Some (Range_Clamp range_size r, overflow)
        }
      })"

definition CacheRange :: "ranges \<Rightarrow> Range option \<Rightarrow> Range option \<Rightarrow> RangeSize \<Rightarrow> Range option option" where
  "CacheRange R slot rng sz =
     (case rng of
        Some r \<Rightarrow> map_option Some (ClampToConstant R sz r)
      | None \<Rightarrow> Some (case slot of Some s \<Rightarrow> Some unknown_Range | None \<Rightarrow> None))"

definition set_overflow :: "defn \<Rightarrow> bool option \<Rightarrow> analysis \<Rightarrow> analysis" where
  "set_overflow d overflow st =
     (case overflow of None \<Rightarrow> st | Some b \<Rightarrow> st\<lparr>can_overflow := (can_overflow st)(d := b)\<rparr>)"

definition BinaryIntegerOp_InferRange ::
    "flow_graph \<Rightarrow> defn \<Rightarrow> Token \<Rightarrow> defn \<Rightarrow> defn \<Rightarrow> Representation \<Rightarrow> Representation \<Rightarrow> Representation
     \<Rightarrow> analysis \<Rightarrow> (Range \<times> analysis) option" where
  "BinaryIntegerOp_InferRange g d op left right lrep rrep rep st =
     do {
       left_size \<leftarrow> RepresentationToRangeSize lrep;
       right_size \<leftarrow> RepresentationToRangeSize rrep;
       left_range \<leftarrow> GetInputRange g (range_of st) left_size left;
       right_range \<leftarrow> GetInputRange g (range_of st) right_size right;
       p \<leftarrow> InferRangeHelper g (range_of st) d op left rep left_range right_range;
       Some (fst p, set_overflow d (snd p) st)
     }"

definition BinarySmiOp_InferRange ::
    "flow_graph \<Rightarrow> defn \<Rightarrow> Token \<Rightarrow> defn \<Rightarrow> defn \<Rightarrow> analysis \<Rightarrow> (Range \<times> analysis) option" where
  "BinarySmiOp_InferRange g d op left right st =
     do {
       let right_smi_range = GetSmiRange g (range_of st) right;
       st \<leftarrow> (if op \<in> {kSHL, kSHR, kUSHR, kMOD, kTRUNCDIV}
              then do {
                c \<leftarrow> CacheRange (range_of st) (cached_range st d) right_smi_range kRangeBoundarySmi;
                Some (st\<lparr>cached_range := (cached_range st)(d := c)\<rparr>) }
              else Some st);
       p \<leftarrow> InferRangeHelper g (range_of st) d op left kTagged (GetSmiRange g (range_of st) left) right_smi_range;
       Some (fst p, set_overflow d (snd p) st)
     }"

definition ShiftIntegerOp_InferRange ::
    "flow_graph \<Rightarrow> defn \<Rightarrow> Token \<Rightarrow> defn \<Rightarrow> defn \<Rightarrow> Representation \<Rightarrow> Representation
     \<Rightarrow> analysis \<Rightarrow> (Range \<times> analysis) option" where
  "ShiftIntegerOp_InferRange g d op left right rrep rep st =
     do {
       let right_range = (if rrep = kTagged then GetSmiRange g (range_of st) right else range_of st right);
       c \<leftarrow> CacheRange (range_of st) (cached_range st d) (range_of st right) kRangeBoundaryInt64;
       let st = st\<lparr>cached_range := (cached_range st)(d := c)\<rparr>;
       p \<leftarrow> InferRangeHelper g (range_of st) d op left rep (range_of st left) right_range;
       Some (fst p, set_overflow d (snd p) st)
     }"

definition copy_known :: "Range option \<Rightarrow> Range" where
  "copy_known r = (if Range_IsUnknown r then unknown_Range else the r)"

definition BoxInteger_InferRange :: "ranges \<Rightarrow> defn \<Rightarrow> Range" where
  "BoxInteger_InferRange R val = copy_known (R val)"

definition UnboxInt32_InferRange :: "flow_graph \<Rightarrow> ranges \<Rightarrow> defn \<Rightarrow> Range" where
  "UnboxInt32_InferRange g R val =
     (if type_is_smi g val then copy_known (GetSmiRange g R val)
      else if type_is_int g val then copy_known (GetIntRange g R val)
      else Full kRangeBoundaryInt32)"

definition UnboxUint32_InferRange :: "flow_graph \<Rightarrow> ranges \<Rightarrow> defn \<Rightarrow> Range option" where
  "UnboxUint32_InferRange g R val =
     (if \<not> type_is_smi g val \<and> \<not> type_is_int g val then new_Range (kConstant 0) (kConstant (2 ^ 32 - 1))
      else let value_range = (if type_is_smi g val then GetSmiRange g R val else GetIntRange g R val)
           in if Range_IsUnknown value_range then Some unknown_Range
              else do {
                positive \<leftarrow> IsPositive R (the value_range);
                if positive then value_range else new_Range (kConstant 0) (kConstant (2 ^ 32 - 1))
              })"

definition UnboxInt64_InferRange :: "flow_graph \<Rightarrow> ranges \<Rightarrow> defn \<Rightarrow> Range" where
  "UnboxInt64_InferRange g R val =
     (case R val of
        Some r \<Rightarrow> r
      | None \<Rightarrow> if \<not> IsInt64Definition g val \<and> \<not> type_is_smi g val
               then Full kRangeBoundaryInt64 else unknown_Range)"

text \<open>On a 64-bit target \<^verbatim>\<open>kUnboxedIntPtr\<close> and \<^verbatim>\<open>kUnboxedFfiIntPtr\<close> are \<open>kUnboxedInt64\<close>.\<close>

definition IntConverter_InferRange :: "ranges \<Rightarrow> Representation \<Rightarrow> Representation \<Rightarrow> defn \<Rightarrow> Range option" where
  "IntConverter_InferRange R from to val =
     (if \<not> (if from = kUntagged \<or> to = kUntagged
             then (from = kUntagged \<and> to = kUnboxedInt64) \<or> (from = kUnboxedInt64 \<and> to = kUntagged)
             else from \<in> {kUnboxedInt32, kUnboxedInt64, kUnboxedUint32} \<and>
                  to \<in> {kUnboxedInt32, kUnboxedInt64, kUnboxedUint32})
      then None
      else if Range_IsUnknown (R val) then Some unknown_Range
      else if to = kUnboxedUint32 then new_Range (kConstant 0) (kConstant (2 ^ 32 - 1))
      else Some (if to = kUnboxedInt32 then Range_Clamp kRangeBoundaryInt32 (the (R val)) else the (R val)))"

text \<open>The virtual call \<^verbatim>\<open>defn->InferRange(this, &range)\<close>.\<close>

definition defn_InferRange :: "flow_graph \<Rightarrow> defn \<Rightarrow> analysis \<Rightarrow> (Range \<times> analysis) option" where
  "defn_InferRange g d st =
     (let pure = map_option (\<lambda>r. (r, st)); R = range_of st
      in case instr_of g d of
           Constant c \<Rightarrow> pure (Constant_InferRange c)
         | Constraint e c \<Rightarrow> pure (Constraint_InferRange g R e c)
         | Phi inputs \<Rightarrow> pure (Phi_InferRange g R d inputs)
         | BinarySmiOp op l r \<Rightarrow> BinarySmiOp_InferRange g d op l r st
         | BinaryIntegerOp op l r lrep rrep rep \<Rightarrow> BinaryIntegerOp_InferRange g d op l r lrep rrep rep st
         | ShiftIntegerOp op l r rrep rep \<Rightarrow> ShiftIntegerOp_InferRange g d op l r rrep rep st
         | LoadField slot rep \<Rightarrow> pure (LoadField_InferRange g d slot rep)
         | LoadIndexed cid \<Rightarrow> pure (LoadIndexed_InferRange g d cid)
         | LoadCodeUnits cid n \<Rightarrow> pure (LoadCodeUnits_InferRange cid n)
         | Utf8Scan \<Rightarrow> pure Utf8Scan_InferRange
         | IfThenElse t f \<Rightarrow> pure (IfThenElse_InferRange t f)
         | BoxInteger e \<Rightarrow> Some (BoxInteger_InferRange R e, st)
         | UnboxInt32 e \<Rightarrow> Some (UnboxInt32_InferRange g R e, st)
         | UnboxUint32 e \<Rightarrow> pure (UnboxUint32_InferRange g R e)
         | UnboxInt64 e \<Rightarrow> Some (UnboxInt64_InferRange g R e, st)
         | IntConverter from to e \<Rightarrow> pure (IntConverter_InferRange R from to e)
         | OtherDefinition \<Rightarrow> pure (Definition_InferRange g d))"

section \<open>Iteration\<close>

datatype JoinOperator = NONE | WIDEN | NARROW

definition set_range :: "defn \<Rightarrow> Range \<Rightarrow> analysis \<Rightarrow> analysis" where
  "set_range d r st = st\<lparr>range_of := (range_of st)(d := Some r)\<rparr>"

definition IsPhi :: "flow_graph \<Rightarrow> defn \<Rightarrow> bool" where
  "IsPhi g d \<longleftrightarrow> (case instr_of g d of Phi inputs \<Rightarrow> True | _ \<Rightarrow> False)"

definition InferRange :: "flow_graph \<Rightarrow> JoinOperator \<Rightarrow> defn \<Rightarrow> analysis \<Rightarrow> (bool \<times> analysis) option" where
  "InferRange g op d st =
     do {
       p \<leftarrow> defn_InferRange g d st;
       let r = fst p;
       let st = snd p;
       if Range_IsUnknown (Some r) then Some (False, st)
       else do {
         r \<leftarrow> (if \<not> Range_IsUnknown (range_of st d) \<and> IsPhi g d
               then do {
                 sz \<leftarrow> RangeSizeForPhi g d;
                 let old = the (range_of st d);
                 (case op of
                    WIDEN \<Rightarrow> do {
                      mn \<leftarrow> WidenMin g (range_of st) old r sz;
                      mx \<leftarrow> WidenMax g (range_of st) old r sz;
                      new_Range mn mx }
                  | NARROW \<Rightarrow> do {
                      mn \<leftarrow> NarrowMin (range_of st) old r sz;
                      mx \<leftarrow> NarrowMax (range_of st) old r sz;
                      new_Range mn mx }
                  | NONE \<Rightarrow> Some r)
               }
               else Some r);
         same \<leftarrow> Range_Equals g r (range_of st d);
         if same then Some (False, st) else Some (True, set_range d r st)
       }
     }"

fun Iterate_pass :: "flow_graph \<Rightarrow> JoinOperator \<Rightarrow> defn list \<Rightarrow> bool \<Rightarrow> analysis \<Rightarrow> (bool \<times> analysis) option" where
  "Iterate_pass g op [] changed st = Some (changed, st)"
| "Iterate_pass g op (d # definitions) changed st =
     do {
       p \<leftarrow> InferRange g op d st;
       Iterate_pass g op definitions (changed \<or> fst p) (snd p)
     }"

function Iterate_from :: "flow_graph \<Rightarrow> JoinOperator \<Rightarrow> defn list \<Rightarrow> int \<Rightarrow> int \<Rightarrow> analysis \<Rightarrow> analysis option" where
  "Iterate_from g op definitions max_iterations iteration st =
     do {
       p \<leftarrow> Iterate_pass g op definitions False st;
       if fst p \<and> iteration + 1 < max_iterations
       then Iterate_from g op definitions max_iterations (iteration + 1) (snd p)
       else Some (snd p)
     }"
  by pat_completeness auto
termination
  by (relation "measure (\<lambda>(g, op, definitions, max_iterations, iteration, st). nat (max_iterations - iteration))") auto

declare Iterate_from.simps [simp del]

definition Iterate :: "flow_graph \<Rightarrow> JoinOperator \<Rightarrow> defn list \<Rightarrow> int \<Rightarrow> analysis \<Rightarrow> analysis option" where
  "Iterate g op definitions max_iterations st = Iterate_from g op definitions max_iterations 0 st"

definition kMaxInt32 :: int where "kMaxInt32 = 0x7FFFFFFF"

text \<open>\<open>InferRanges\<close> on the definitions collected in reverse postorder.\<close>

definition InferRanges :: "flow_graph \<Rightarrow> defn list \<Rightarrow> analysis \<Rightarrow> analysis option" where
  "InferRanges g definitions st =
     do {
       st \<leftarrow> Iterate g NONE definitions 2 st;
       st \<leftarrow> Iterate g WIDEN definitions kMaxInt32 st;
       Iterate g NARROW definitions kMaxInt32 st
     }"

section \<open>Bounds check elimination\<close>

partial_function (option) Redundant_loop ::
    "flow_graph \<Rightarrow> ranges \<Rightarrow> RangeBoundary \<Rightarrow> RangeBoundary \<Rightarrow> bool option" where
  "Redundant_loop g R mx canonical_length =
     do {
       same \<leftarrow> DependOnSameSymbol g mx canonical_length;
       if same then Some (boundary_offset mx < boundary_offset canonical_length)
       else do {
         cm \<leftarrow> CanonicalizeMaxBoundary g R mx;
         if fst cm then Redundant_loop g R (snd cm) canonical_length
         else do {
           cl \<leftarrow> CanonicalizeMinBoundary g R canonical_length;
           if fst cl then Redundant_loop g R (snd cm) (snd cl)
           else Some False
         }
       }
     }"

declare Redundant_loop.simps [code]

text \<open>The decision once the index has a range; the result is the returned boolean.\<close>

definition Redundant_decision :: "flow_graph \<Rightarrow> ranges \<Rightarrow> Range \<Rightarrow> defn \<Rightarrow> defn \<Rightarrow> bool option" where
  "Redundant_decision g R index_range index len =
     do {
       lo \<leftarrow> ConstantMinSmi R (Some index_range);
       lo \<leftarrow> ConstantValue lo;
       if lo < 0 then Some False
       else do {
         mx \<leftarrow> FromDefinition g index 0;
         max_upper \<leftarrow> UpperBound R mx;
         array_length \<leftarrow> FromDefinition g len 0;
         length_lower \<leftarrow> LowerBound R array_length;
         over_max \<leftarrow> OverflowedSmi max_upper;
         over_length \<leftarrow> OverflowedSmi length_lower;
         if over_max \<or> over_length then Some False
         else do {
           u \<leftarrow> ConstantValue max_upper;
           l \<leftarrow> ConstantValue length_lower;
           if u < l then Some True
           else do {
             canonical_length \<leftarrow> CanonicalizeBoundary g array_length kPositiveInfinity;
             over_canonical \<leftarrow> OverflowedSmi canonical_length;
             if over_canonical then Some False
             else Redundant_loop g R mx canonical_length
           }
         }
       }
     }"

definition IsRedundantBasedOnRangeInformation ::
    "flow_graph \<Rightarrow> defn \<Rightarrow> defn \<Rightarrow> analysis \<Rightarrow> (bool \<times> analysis) option" where
  "IsRedundantBasedOnRangeInformation g index len st =
     (case range_of st index of
        Some r \<Rightarrow> do { q \<leftarrow> Redundant_decision g (range_of st) r index len; Some (q, st) }
      | None \<Rightarrow>
          (case instr_of g index of
             Constant (Smi c) \<Rightarrow>
               do {
                 is_smi \<leftarrow> target_IsSmi c;
                 if \<not> is_smi then Some (False, st)
                 else do {
                   r \<leftarrow> Constant_InferRange (Smi c);
                   if Range_IsUnknown (Some r) then None
                   else do {
                     let st = set_range index r st;
                     q \<leftarrow> Redundant_decision g (range_of st) r index len;
                     Some (q, st)
                   }
                 }
               }
           | _ \<Rightarrow> Some (False, st)))"

section \<open>Lemmas\<close>

lemma new_Range_spec:
  assumes "wf_boundary mn" "wf_boundary mx" "\<not> IsUnknown mn" "\<not> IsUnknown mx"
    "lb_sat v mn x" "ub_sat v mx x" "in_int64 x"
  obtains r where "new_Range mn mx = Some r" "wf_range r" "in_range v r x"
proof (cases "IsInfinity mn \<or> IsInfinity mx")
  case True
  then show ?thesis using that [of SetInt64Range] assms
    by (simp add: new_Range_def SetInt64Range_def wf_range_def in_range_def MinConstant_def MaxConstant_def in_int64_def)
next
  case False
  then show ?thesis using that [of "\<lparr>range_min = mn, range_max = mx\<rparr>"] assms
    by (simp add: new_Range_def wf_range_def in_range_def)
qed

lemma wf_Full [simp]: "wf_range (Full sz)"
  using size_in_int64 [OF size_bounds_in_size(1) [of sz]] size_in_int64 [OF size_bounds_in_size(2) [of sz]]
  by (simp add: Full_def wf_range_def MinConstant_def MaxConstant_def)

lemma in_range_Full [simp]: "in_range v (Full sz) x \<longleftrightarrow> in_size sz x"
  by (simp add: Full_def in_range_def MinConstant_def MaxConstant_def in_size_def)

subsection \<open>Constraints\<close>

fun compare_op :: "Token \<Rightarrow> int \<Rightarrow> int \<Rightarrow> bool option" where
  "compare_op kEQ x y = Some (x = y)"
| "compare_op kNE x y = Some (x \<noteq> y)"
| "compare_op kLT x y = Some (x < y)"
| "compare_op kGT x y = Some (x > y)"
| "compare_op kLTE x y = Some (x \<le> y)"
| "compare_op kGTE x y = Some (x \<ge> y)"
| "compare_op _ x y = None"

lemma FlipComparison_spec: "compare_op op x y = Some q \<Longrightarrow> \<exists>op'. FlipComparison op = Some op' \<and> compare_op op' y x = Some q"
  by (cases op) auto

lemma NegateComparison_spec: "compare_op op x y = Some q \<Longrightarrow> \<exists>op'. NegateComparison op = Some op' \<and> compare_op op' x y = Some (\<not> q)"
  by (cases op) auto

lemma FromDefinition_small:
  assumes "well_ranked g R rk" "execution g R v" "v d = Some y" "in_smi y" "off \<in> {- 1, 0, 1}"
  obtains b where "FromDefinition g d off = Some b" "wf_boundary b" "\<not> IsUnknown b" "\<not> IsInfinity b"
    "\<And>x. lb_sat v b x \<longleftrightarrow> y + off \<le> x" "\<And>x. ub_sat v b x \<longleftrightarrow> x \<le> y + off"
proof -
  have "IsValidOffsetForSymbolicRangeBoundary off" using assms(5) by (auto simp: range_defs)
  then obtain b where b: "FromDefinition g d off = Some b" "wf_boundary b" "IsSymbol b \<or> IsConstant b"
      "bval v b = Some (y + off)"
    using FromDefinition_spec [OF assms(1), of off d] assms(2-4) by blast
  have "lb_sat v b x \<longleftrightarrow> y + off \<le> x" "ub_sat v b x \<longleftrightarrow> x \<le> y + off" for x
    unfolding lb_sat_bval [OF b(3)] ub_sat_bval [OF b(3)] b(4) by auto
  moreover have "\<not> IsUnknown b" "\<not> IsInfinity b" using b(3) by (cases b; simp)+
  ultimately show ?thesis using that b(1,2) by blast
qed

lemma ConstraintSmiRange_total:
  assumes "well_ranked g R rk" "execution g R v" "v d = Some y" "in_smi y" "compare_op op x y = Some q" "in_smi x"
  obtains r where "ConstraintSmiRange g op d = Some r" "wf_range r" "q \<Longrightarrow> in_range v r x"
proof -
  note e = FromDefinition_small [OF assms(1-4)]
  obtain b0 where b0: "FromDefinition g d 0 = Some b0" "wf_boundary b0" "\<not> IsUnknown b0" "\<not> IsInfinity b0"
    "\<And>x. lb_sat v b0 x \<longleftrightarrow> y + 0 \<le> x" "\<And>x. ub_sat v b0 x \<longleftrightarrow> x \<le> y + 0"
    by (rule e [of 0]) (simp, rule that, assumption+)
  obtain b1 where b1: "FromDefinition g d 1 = Some b1" "wf_boundary b1" "\<not> IsUnknown b1" "\<not> IsInfinity b1"
    "\<And>x. lb_sat v b1 x \<longleftrightarrow> y + 1 \<le> x"
    by (rule e [of 1]) (simp, rule that, assumption+)
  obtain bm where bm: "FromDefinition g d (- 1) = Some bm" "wf_boundary bm" "\<not> IsUnknown bm" "\<not> IsInfinity bm"
    "\<And>x. ub_sat v bm x \<longleftrightarrow> x \<le> y + - 1"
    by (rule e [of "- 1"]) (simp, rule that, assumption+)
  show ?thesis
    using that assms(5,6) b0 b1 bm
    by (cases op) (auto simp: ConstraintSmiRange_def new_Range_def wf_range_def in_range_def MinSmi_def MaxSmi_def
      Full_def MinConstant_def MaxConstant_def range_defs)
qed

lemma GetSmiRange_operand:
  assumes "well_ranked g R rk" "execution g R v" "v d = Some x" "in_smi x" "\<not> Range_IsUnknown (GetSmiRange g R d)"
  obtains r where "GetSmiRange g R d = Some r" "operand g R rk v r x"
  using assms well_rankedD(2) [OF assms(1), of d]
  by (cases "R d") (auto simp: GetSmiRange_def operand_def execution_def in_smi_int64 split: if_splits)

lemma Intersect_spec:
  assumes "operand g R rk v r x" "operand g R rk v c x"
  obtains s where "Intersect g R r c = Some s" "operand g R rk v s x"
proof -
  have ranked: "well_ranked g R rk" and ex: "execution g R v" and x: "in_int64 x" using assms by (simp_all add: operand_def)
  note a = operand_ends [OF assms(1)] and b = operand_ends [OF assms(2)]
  have inf: "range_min r \<noteq> kPositiveInfinity" "range_max r \<noteq> kNegativeInfinity"
    "range_min c \<noteq> kPositiveInfinity" "range_max c \<noteq> kNegativeInfinity"
    using assms by (auto simp: operand_def wf_range_def)
  obtain mn where mn: "IntersectionMin g R (range_min r) (range_min c) = Some mn" "wf_boundary mn" "\<not> IsUnknown mn" "lb_sat v mn x"
    using IntersectionMin_spec [OF ranked a(1,3) inf(1) b(1,3) inf(3)] a(7) b(7) ex by blast
  obtain mx where mx: "IntersectionMax g R (range_max r) (range_max c) = Some mx" "wf_boundary mx" "\<not> IsUnknown mx" "ub_sat v mx x"
    using IntersectionMax_spec [OF ranked a(2,4) inf(2) b(2,4) inf(4)] a(8) b(8) ex by blast
  obtain s where "new_Range mn mx = Some s" "wf_range s" "in_range v s x"
    by (rule new_Range_spec [OF mn(2) mx(2) mn(3) mx(3) mn(4) mx(4) x])
  then show ?thesis using that [of s] mn(1) mx(1) ranked ex x by (simp add: Intersect_def operand_def)
qed

section \<open>Properties of constraints\<close>

text \<open>
  C8. Branch constraints: after comparing two Smis, the constraint attached to either operand at the successor
  that is taken holds, for every comparison, both operand positions and both outcomes.
\<close>

theorem branch_constraints_sound:
  assumes "well_ranked g R rk" "execution g R v" "v left = Some x" "v right = Some y" "in_smi x" "in_smi y"
    and "compare_op kind x y = Some taken" "use_index < 2"
  shows "\<exists>t f. ConstrainValueAfterBranch g kind left right use_index = Some (t, f) \<and> wf_range t \<and> wf_range f \<and>
    in_range v (if taken then t else f) (if use_index = 0 then x else y)"
proof -
  obtain b op z w where p: "(if use_index = 0 then Some (right, kind)
        else if use_index = 1 then do { op \<leftarrow> FlipComparison kind; Some (left, op) } else None) = Some (b, op)"
      and z: "v b = Some z" "in_smi z" and w: "w = (if use_index = 0 then x else y)" "in_smi w" "compare_op op w z = Some taken"
    using assms(3-8) FlipComparison_spec [OF assms(7)] by (cases "use_index = 0") auto
  obtain t where t: "ConstraintSmiRange g op b = Some t" "wf_range t" "taken \<Longrightarrow> in_range v t w"
    by (rule ConstraintSmiRange_total [OF assms(1,2) z w(3,2)]) (rule that, assumption+)
  obtain op' where op': "NegateComparison op = Some op'" "compare_op op' w z = Some (\<not> taken)"
    using NegateComparison_spec [OF w(3)] by blast
  obtain f where f: "ConstraintSmiRange g op' b = Some f" "wf_range f" "\<not> taken \<Longrightarrow> in_range v f w"
    by (rule ConstraintSmiRange_total [OF assms(1,2) z op'(2) w(2)]) (rule that, assumption+)
  have "ConstrainValueAfterBranch g kind left right use_index = Some (t, f)"
    unfolding ConstrainValueAfterBranch_def p using t(1) f(1) op'(1) by simp
  then show ?thesis using t f w(1) by auto
qed

theorem branch_constraints_sound_witness:
  "\<exists>t f. ConstrainValueAfterBranch demo_graph kLT 0 0 1 = Some (t, f) \<and> wf_range t \<and> wf_range f \<and>
    in_range demo_env f 7"
  using branch_constraints_sound [OF demo_ok, of 0 7 0 7 kLT False 1] by (simp add: demo_env_def range_defs)

text \<open>
  C32. Constraint instructions: where a value satisfies both its own range and the constraint, the inferred range of
  the constraint instruction exists, is never dropped as unsatisfiable, and contains the value.
\<close>

theorem Constraint_InferRange_sound:
  assumes "well_ranked g R rk" "execution g R v" "v val = Some x" "in_smi x"
    and "\<not> Range_IsUnknown (GetSmiRange g R val)" "wf_range c" "in_range v c x"
  shows "\<exists>r. Constraint_InferRange g R val c = Some r \<and> wf_range r \<and> in_range v r x"
proof -
  obtain r where r: "GetSmiRange g R val = Some r" "operand g R rk v r x" by (rule GetSmiRange_operand [OF assms(1-5)])
  have "operand g R rk v c x" using assms by (simp add: operand_def in_smi_int64)
  then obtain s where s: "Intersect g R r c = Some s" "operand g R rk v s x" by (rule Intersect_spec [OF r(2)])
  then have "Constraint_InferRange g R val c = Some s"
    using r(1) assms(5) IsUnsatisfiable_inhabited [OF s(2)] by (simp add: Constraint_InferRange_def)
  then show ?thesis using s(2) by (simp add: operand_def)
qed

theorem Constraint_InferRange_sound_witness:
  "\<exists>r. Constraint_InferRange demo_graph demo_ranges 0 \<lparr>range_min = kConstant 5, range_max = kConstant 50\<rparr> = Some r
     \<and> wf_range r \<and> in_range demo_env r 7"
  by (rule Constraint_InferRange_sound [OF demo_ok])
    (simp_all add: demo_env_def demo_ranges_def GetSmiRange_def wf_range_def in_range_def range_defs)

section \<open>Overflow checks\<close>

lemma Range_Clamp_spec:
  assumes "wf_range r" "in_range v r c" "in_size sz c"
  shows "wf_range (Range_Clamp sz r)" "in_range v (Range_Clamp sz r) c"
proof -
  have clamp: "wf_boundary (boundary_Clamp sz b) \<and> \<not> IsUnknown (boundary_Clamp sz b) \<and> \<not> IsInfinity (boundary_Clamp sz b)"
    if "wf_boundary b" "\<not> IsUnknown b" "\<not> IsInfinity b" for b
    using that size_in_int64 [OF clamp_value_in_size, of sz] by (cases b) auto
  then show "wf_range (Range_Clamp sz r)" using assms(1) by (simp add: wf_range_def Range_Clamp_def)
  have "lb_sat v (boundary_Clamp sz b) c" if "lb_sat v b c" "\<not> IsInfinity b" for b
    using that assms(3) by (cases b) (auto intro: clamp_value_le)
  moreover have "ub_sat v (boundary_Clamp sz b) c" if "ub_sat v b c" "\<not> IsInfinity b" for b
    using that assms(3) by (cases b) (auto intro: clamp_value_ge)
  ultimately show "in_range v (Range_Clamp sz r) c"
    using assms(1,2) by (simp add: wf_range_def Range_Clamp_def in_range_def)
qed

lemma InferRangeHelper_spec:
  assumes l: "operand g R rk v l a" and r: "operand g R rk v r b"
    and d: "IsArrayLength g left \<Longrightarrow> v left = Some a \<and> in_smi a"
    and c: "eval_op op a b = Some c" and sz: "RepresentationToRangeSize rep = Some sz"
  obtains res ov where "InferRangeHelper g R d op left rep (Some l) (Some r) = Some (Range_Clamp sz res, ov)"
    "operand g R rk v res (wrap64 c)" "res = SetInt64Range \<or> in_range v res c \<and> wrap64 c = c"
    "if is_truncating g d then ov = None else map_option (\<lambda>f. Some (\<not> f)) (Fits g R sz res) = Some ov"
proof -
  let ?k = "Suc (rk left) + symbol_rank rk (range_min l) + symbol_rank rk (range_max l) +
    symbol_rank rk (range_min r) + symbol_rank rk (range_max r)"
  have enc: "encloses rk ?k v (transfer g R op l r left) c"
    using transfer_sound [OF l r d _ _ _ _ _ c] by simp
  have fin: "IsFinite l" "IsFinite r" and known: "\<not> IsUnknown (range_min l)" "\<not> IsUnknown (range_min r)"
    and ranked: "well_ranked g R rk" "execution g R v"
    using l r by (simp_all add: operand_def IsFinite_def wf_range_def)
  obtain res where res: "BinaryOp g R op l r left = Some res" "wf_range res" "in_range v res (wrap64 c)"
      "res = SetInt64Range \<or> in_range v res c \<and> wrap64 c = c"
    by (rule BinaryOp_encloses [OF enc fin]) (rule that, assumption+)
  have o: "operand g R rk v res (wrap64 c)" using res ranked by (simp add: operand_def)
  obtain f where f: "Fits g R sz res = Some f" using Fits_spec [OF o] by blast
  have u: "\<not> IsUnknown (range_min res)" using res(2) by (simp add: wf_range_def)
  show ?thesis
    by (rule that [OF _ o res(4), of "if is_truncating g d then None else Some (\<not> f)"])
      (use known u res(1) sz f in \<open>simp_all add: InferRangeHelper_def\<close>)
qed

lemma Fits_SetInt64Range:
  "sz \<noteq> kRangeBoundaryInt64 \<Longrightarrow> Fits g R sz SetInt64Range = Some False"
  by (cases sz) (simp_all add: Fits_def SetInt64Range_def MinConstant_def MaxConstant_def Overflowed_spec range_defs)

text \<open>
  C2. Overflow check elimination: for a Smi or 32-bit operation that is not truncating, if inference clears
  \<open>can_overflow\<close>, then for all operands in their ranges the exact mathematical result fits the
  representation, so the removed check could not have failed; and whenever the result fits, the inferred
  range contains it.
\<close>

theorem overflow_check_elimination:
  assumes "well_ranked g R rk" "execution g R v"
    and "wf_range l" "in_range v l a" "in_int64 a" "wf_range r" "in_range v r b" "in_int64 b"
    and "IsArrayLength g left \<Longrightarrow> v left = Some a \<and> in_smi a"
    and "eval_op op a b = Some c" "\<not> is_truncating g d"
    and "RepresentationToRangeSize rep = Some sz" "sz \<noteq> kRangeBoundaryInt64"
  shows "\<exists>res ov. InferRangeHelper g R d op left rep (Some l) (Some r) = Some (res, Some ov) \<and>
    (\<not> ov \<longrightarrow> in_size sz c) \<and> (in_size sz c \<longrightarrow> wf_range res \<and> in_range v res c)"
proof -
  have l: "operand g R rk v l a" and r: "operand g R rk v r b" using assms by (simp_all add: operand_def)
  obtain res ov where h: "InferRangeHelper g R d op left rep (Some l) (Some r) = Some (Range_Clamp sz res, ov)"
      "operand g R rk v res (wrap64 c)" "res = SetInt64Range \<or> in_range v res c \<and> wrap64 c = c"
      "if is_truncating g d then ov = None else map_option (\<lambda>f. Some (\<not> f)) (Fits g R sz res) = Some ov"
    by (rule InferRangeHelper_spec [OF l r assms(9,10,12)]) (simp, rule that, assumption+)
  obtain f where f: "Fits g R sz res = Some f" "f \<longrightarrow> in_size sz (wrap64 c)" using Fits_spec [OF h(2)] by blast
  have ov: "ov = Some (\<not> f)" using h(4) f(1) assms(11) by simp
  have "in_size sz c" if f using h(3) f that Fits_SetInt64Range [OF assms(13)] by fastforce
  moreover have "in_range v res c" if "in_size sz c"
    using h(2) wrap64_id [OF size_in_int64 [OF that]] by (simp add: operand_def)
  ultimately show ?thesis
    using h(1,2) ov Range_Clamp_spec [of res v c sz] by (auto simp: operand_def)
qed

theorem overflow_check_elimination_witness:
  "\<exists>res ov. InferRangeHelper demo_graph demo_ranges 3 kADD 0 kTagged
      (Some \<lparr>range_min = kConstant 0, range_max = kConstant 100\<rparr>) (Some \<lparr>range_min = kConstant 1, range_max = kConstant 1\<rparr>)
      = Some (res, Some ov) \<and>
    (\<not> ov \<longrightarrow> in_size kRangeBoundarySmi 8) \<and> (in_size kRangeBoundarySmi 8 \<longrightarrow> wf_range res \<and> in_range demo_env res 8)"
  by (rule overflow_check_elimination [OF demo_ok, where a = 7 and b = 1])
    (simp_all add: wf_range_def in_range_def in_int64_def demo_env_def demo_graph_def in_smi_def kSmiMin_def kSmiMax_def
      RepresentationToRangeSize_def)

section \<open>Bounds checks\<close>

lemma Redundant_loop_spec:
  assumes ranked: "well_ranked g R rk" and "wf_boundary a" "\<not> IsUnknown a" "wf_boundary b" "\<not> IsUnknown b"
  shows "\<exists>q. Redundant_loop g R a b = Some q \<and>
    (q \<longrightarrow> (\<forall>v i n. execution g R v \<longrightarrow> ub_sat v a i \<longrightarrow> lb_sat v b n \<longrightarrow> i < n))"
  using assms(2-5)
proof (induction "symbol_rank rk a + symbol_rank rk b" arbitrary: a b rule: less_induct)
  case less
  obtain q where q: "DependOnSameSymbol g a b = Some q" using DependOnSameSymbol_spec(1) [OF ranked] by blast
  obtain ca a1 where a1: "CanonicalizeMaxBoundary g R a = Some (ca, a1)" "wf_boundary a1" "\<not> IsUnknown a1"
      "\<not> ca \<Longrightarrow> a1 = a" "ca \<Longrightarrow> symbol_rank rk a1 < symbol_rank rk a"
    using max_step.step_total [OF ranked less.prems(1,2)] by blast
  obtain cb b1 where b1: "CanonicalizeMinBoundary g R b = Some (cb, b1)" "wf_boundary b1" "\<not> IsUnknown b1"
      "\<not> cb \<Longrightarrow> b1 = b" "cb \<Longrightarrow> symbol_rank rk b1 < symbol_rank rk b"
    using min_step.step_total [OF ranked less.prems(3,4)] by blast
  note sound = max_step.step_sound [OF ranked less.prems(1) _ a1(1)] min_step.step_sound [OF ranked less.prems(3) _ b1(1)]
  note unfold = Redundant_loop.simps [of g R a b]
  consider "q" | "\<not> q" "ca" | "\<not> q" "\<not> ca" "cb" | "\<not> q" "\<not> ca" "\<not> cb" by blast
  then show ?case
  proof cases
    case 1
    have "i < n" if e: "boundary_offset a < boundary_offset b" "execution g R v" "ub_sat v a i" "lb_sat v b n" for v i n
    proof -
      have sym: "IsSymbol a" "IsSymbol b" using DependOnSameSymbol_spec(2) [OF ranked] q 1 by auto
      then obtain y z where "bval v a = Some y" "i \<le> y" "bval v b = Some z" "z \<le> n"
        using e(3,4) lb_sat_bval ub_sat_bval by blast
      then show ?thesis using DependOnSameSymbol_spec(3) [OF ranked _ e(2), of a b y z] q 1 e(1) by simp
    qed
    then show ?thesis using q 1 by (simp add: unfold)
  next
    case 2
    have "Redundant_loop g R a b = Redundant_loop g R a1 b" using 2 q a1(1) by (simp add: unfold)
    moreover have "symbol_rank rk a1 + symbol_rank rk b < symbol_rank rk a + symbol_rank rk b" using a1(5) 2 by simp
    ultimately show ?thesis using less.hyps [OF _ a1(2,3) less.prems(3,4)] sound(1) by fastforce
  next
    case 3
    have "Redundant_loop g R a b = Redundant_loop g R a b1" using 3 q a1(1,4) b1(1) by (simp add: unfold)
    moreover have "symbol_rank rk a + symbol_rank rk b1 < symbol_rank rk a + symbol_rank rk b" using b1(5) 3 by simp
    ultimately show ?thesis using less.hyps [OF _ less.prems(1,2) b1(2,3)] sound(2) by fastforce
  next
    case 4
    then have "Redundant_loop g R a b = Some False" using q a1(1) b1(1) by (simp add: unfold)
    then show ?thesis by blast
  qed
qed

lemma OverflowedSmi_spec:
  assumes "wf_boundary b"
  shows "\<exists>q. OverflowedSmi b = Some q" and "OverflowedSmi b = Some False \<Longrightarrow> \<not> IsInfinity b"
  using assms by (cases b; auto simp: OverflowedSmi_def target_IsSmi_def IsInt_spec)+

lemma Redundant_decision_spec:
  assumes ranked: "well_ranked g R rk" and r: "R index = Some r"
  shows "\<exists>q. Redundant_decision g R r index len = Some q \<and>
    (q \<longrightarrow> (\<forall>v i n. execution g R v \<longrightarrow> v index = Some i \<longrightarrow> v len = Some n \<longrightarrow> in_smi i \<longrightarrow> in_smi n \<longrightarrow> 0 \<le> i \<and> i < n))"
proof -
  have wf: "wf_boundary (range_min r)" "\<not> IsUnknown (range_min r)"
    using well_rankedD(2) [OF ranked r] by (simp_all add: wf_range_def)
  have valid: "IsValidOffsetForSymbolicRangeBoundary 0" by (simp add: range_defs)
  obtain lo where lo: "ConstantMinSmi R (Some r) = Some (kConstant lo)"
      "\<And>v x. execution g R v \<Longrightarrow> in_smi x \<Longrightarrow> lb_sat v (range_min r) x \<Longrightarrow> lo \<le> x"
    by (rule ConstantMin_spec [OF ranked wf, of kRangeBoundarySmi]) (rule that, simp_all add: ConstantMinSmi_def)
  obtain mx where mx: "FromDefinition g index 0 = Some mx" "wf_boundary mx" "IsSymbol mx \<or> IsConstant mx"
      "\<And>v y. execution g R v \<Longrightarrow> v index = Some y \<Longrightarrow> in_smi y \<Longrightarrow> bval v mx = Some (y + 0)"
    using FromDefinition_spec [OF ranked valid, of index] by blast
  obtain al where al: "FromDefinition g len 0 = Some al" "wf_boundary al" "IsSymbol al \<or> IsConstant al"
      "\<And>v y. execution g R v \<Longrightarrow> v len = Some y \<Longrightarrow> in_smi y \<Longrightarrow> bval v al = Some (y + 0)"
    using FromDefinition_spec [OF ranked valid, of len] by blast
  note known = sym_or_const_known [OF mx(3)] sym_or_const_known [OF al(3)]
  obtain u where u: "UpperBound R mx = Some u" "IsConstantOrInfinity u" "wf_boundary u"
      "\<And>v x. execution g R v \<Longrightarrow> ub_sat v mx x \<Longrightarrow> ub_sat v u x"
    using UpperBound_spec [OF ranked mx(2) known(1)] by blast
  obtain l where l: "LowerBound R al = Some l" "IsConstantOrInfinity l" "wf_boundary l"
      "\<And>v x. execution g R v \<Longrightarrow> lb_sat v al x \<Longrightarrow> lb_sat v l x"
    using LowerBound_spec [OF ranked al(2) known(2)] by blast
  obtain c where c: "CanonicalizeBoundary g al kPositiveInfinity = Some c"
    and cs: "c = kPositiveInfinity \<or> wf_boundary c \<and> (IsSymbol c \<or> IsConstant c) \<and>
      (\<forall>v z. execution g R v \<longrightarrow> bval v al = Some z \<longrightarrow> bval v c = Some z)"
    using CanonicalizeBoundary_spec [OF ranked al(2,3), of kPositiveInfinity] by blast
  have vals: "lo \<le> i \<and> ub_sat v mx i \<and> lb_sat v al n \<and> bval v al = Some n"
    if "execution g R v" "v index = Some i" "v len = Some n" "in_smi i" "in_smi n" for v i n
    using lo(2) [OF that(1,4) executionD(2) [OF that(1,2) r]] mx(3,4) al(3,4) that by (simp add: ub_sat_bval lb_sat_bval)
  obtain ou ol oc where o: "OverflowedSmi u = Some ou" "OverflowedSmi l = Some ol" "OverflowedSmi c = Some oc"
    using OverflowedSmi_spec(1) [OF u(3)] OverflowedSmi_spec(1) [OF l(3)] OverflowedSmi_spec(1) [of c] cs by auto
  have fin: "\<not> ou \<Longrightarrow> \<exists>cu. u = kConstant cu" "\<not> ol \<Longrightarrow> \<exists>cl. l = kConstant cl"
    using OverflowedSmi_spec(2) [OF u(3)] OverflowedSmi_spec(2) [OF l(3)] o u(2) l(2) by (cases u; cases l; simp)+
  consider "lo < 0 \<or> ou \<or> ol" | cu cl where "0 \<le> lo" "\<not> ou" "\<not> ol" "u = kConstant cu" "l = kConstant cl"
    using fin by (cases "lo < 0 \<or> ou \<or> ol") auto
  then show ?thesis
  proof cases
    case 1
    then show ?thesis using lo(1) mx(1) al(1) u(1) l(1) o by (auto simp: Redundant_decision_def)
  next
    case 2
    consider "cu < cl" | "\<not> cu < cl" "oc" | "\<not> cu < cl" "\<not> oc" by blast
    then show ?thesis
    proof cases
      case 1
      have "0 \<le> i \<and> i < n" if "execution g R v" "v index = Some i" "v len = Some n" "in_smi i" "in_smi n" for v i n
        using vals [OF that] u(4) [OF that(1), of i] l(4) [OF that(1), of n] 2 1 by auto
      then show ?thesis using lo(1) mx(1) al(1) u(1) l(1) o 1 2 by (auto simp: Redundant_decision_def)
    next
      case 3
      then have cw: "wf_boundary c" "IsSymbol c \<or> IsConstant c"
          "\<And>v z. execution g R v \<Longrightarrow> bval v al = Some z \<Longrightarrow> bval v c = Some z"
        using cs o(3) by (auto simp: OverflowedSmi_def)
      obtain q where q: "Redundant_loop g R mx c = Some q"
          "q \<Longrightarrow> \<forall>v i n. execution g R v \<longrightarrow> ub_sat v mx i \<longrightarrow> lb_sat v c n \<longrightarrow> i < n"
        using Redundant_loop_spec [OF ranked mx(2) known(1) cw(1) sym_or_const_known [OF cw(2)]] by blast
      have "0 \<le> i \<and> i < n" if q and e: "execution g R v" "v index = Some i" "v len = Some n" "in_smi i" "in_smi n" for v i n
      proof -
        have "lb_sat v c n" using cw(2) cw(3) [OF e(1)] vals [OF e] by (simp add: lb_sat_bval)
        then show ?thesis using q(2) \<open>q\<close> e(1) vals [OF e] 2(1) by force
      qed
      then show ?thesis using lo(1) mx(1) al(1) u(1) l(1) o c q(1) 2 3 by (auto simp: Redundant_decision_def)
    qed (use lo(1) mx(1) al(1) u(1) l(1) o c 2 in \<open>auto simp: Redundant_decision_def\<close>)
  qed
qed

text \<open>
  C1. Bounds check elimination: if every definition has a value in its range, \<open>IsRedundantBasedOnRangeInformation\<close>
  returns, and it calls a check redundant only if the index is non-negative and below the length, so the
  access without the check stays inside the array.
\<close>

theorem bounds_check_elimination_sound:
  assumes "well_ranked g (range_of st) rk" "execution g (range_of st) v"
    and "v index = Some i" "v len = Some n" "in_smi i" "in_smi n"
  shows "\<exists>q st'. IsRedundantBasedOnRangeInformation g index len st = Some (q, st') \<and> (q \<longrightarrow> 0 \<le> i \<and> i < n)"
proof (cases "range_of st index")
  case (Some r)
  obtain q where "Redundant_decision g (range_of st) r index len = Some q"
      "q \<Longrightarrow> \<forall>v i n. execution g (range_of st) v \<longrightarrow> v index = Some i \<longrightarrow> v len = Some n \<longrightarrow> in_smi i \<longrightarrow> in_smi n \<longrightarrow> 0 \<le> i \<and> i < n"
    using Redundant_decision_spec [OF assms(1) Some, of len] by blast
  then show ?thesis using Some assms(2-6) by (fastforce simp: IsRedundantBasedOnRangeInformation_def)
next
  case None
  show ?thesis
  proof (cases "\<exists>c. instr_of g index = Constant (Smi c)")
    case True
    then obtain c where c: "instr_of g index = Constant (Smi c)" by blast
    have smi: "in_smi c" using well_rankedD(1) [OF assms(1), of index] c by (simp add: wf_instr_def)
    have i: "i = c" using executionD(1) [OF assms(2,3)] c by (simp add: computes_def)
    let ?r = "\<lparr>range_min = kConstant c, range_max = kConstant c\<rparr>"
    let ?R = "(range_of st)(index := Some ?r)"
    have "well_ranked g ?R rk" using assms(1) in_smi_int64 [OF smi] by (auto simp: well_ranked_def wf_range_def)
    moreover have "execution g ?R v" using assms(2,3) i by (auto simp: execution_def in_range_def)
    ultimately obtain q where "Redundant_decision g ?R ?r index len = Some q" "q \<Longrightarrow> 0 \<le> i \<and> i < n"
      using Redundant_decision_spec [of g ?R rk index ?r len] assms(3-6) by auto
    moreover have "target_IsSmi c = Some True"
      using smi in_smi_int64 [OF smi] by (simp add: target_IsSmi_def IsInt_spec in_smi_def kSmiMin_def kSmiMax_def)
    ultimately show ?thesis using None c
      by (auto simp: IsRedundantBasedOnRangeInformation_def Constant_InferRange_def new_Range_def set_range_def Let_def)
  next
    case False
    then have "IsRedundantBasedOnRangeInformation g index len st = Some (False, st)"
      using None by (auto simp: IsRedundantBasedOnRangeInformation_def split: instr.splits constant_value.splits)
    then show ?thesis by blast
  qed
qed

text \<open>The analysis state of the witness: the index 1 has the symbolic range from 0 to the length minus one.\<close>

definition demo_state :: analysis where
  "demo_state = \<lparr>range_of = demo_ranges(1 := Some \<lparr>range_min = kConstant 0, range_max = kSymbol 0 (- 1)\<rparr>),
     can_overflow = (\<lambda>d. True), cached_range = (\<lambda>d. None)\<rparr>"

lemma demo_state_ok:
  "well_ranked demo_graph (range_of demo_state) (\<lambda>d. d)" "execution demo_graph (range_of demo_state) (demo_env(1 := Some 6))"
  by (auto simp: well_ranked_def wf_instr_def execution_def computes_def demo_graph_def demo_ranges_def demo_env_def
    demo_state_def wf_range_def in_range_def range_defs split: if_splits)

theorem bounds_check_elimination_sound_witness:
  "map_option fst (IsRedundantBasedOnRangeInformation demo_graph 1 0 demo_state) = Some True \<and> 0 \<le> (6::int) \<and> (6::int) < 7"
proof -
  have "map_option fst (IsRedundantBasedOnRangeInformation demo_graph 1 0 demo_state) = Some True" by code_simp
  moreover have "\<exists>q st'. IsRedundantBasedOnRangeInformation demo_graph 1 0 demo_state = Some (q, st') \<and> (q \<longrightarrow> 0 \<le> (6::int) \<and> (6::int) < 7)"
    by (rule bounds_check_elimination_sound [OF demo_state_ok, of 1 6 0 7]) (simp_all add: demo_env_def range_defs)
  ultimately show ?thesis by auto
qed

section \<open>Joins\<close>

text \<open>A range is live in an execution if its symbols are evaluated, its bounds have the size and some value lies in it.\<close>

definition live :: "env \<Rightarrow> RangeSize \<Rightarrow> Range \<Rightarrow> bool" where
  "live v sz r \<longleftrightarrow> representable v sz (range_min r) \<and> representable v sz (range_max r) \<and>
     (\<exists>y. in_size sz y \<and> in_range v r y)"

lemma wf_range_ends:
  assumes "wf_range r"
  shows "wf_boundary (range_min r)" "\<not> IsUnknown (range_min r)" "wf_boundary (range_max r)" "\<not> IsUnknown (range_max r)"
    "IsSymbol (range_min r) \<or> IsConstant (range_min r)" "IsSymbol (range_max r) \<or> IsConstant (range_max r)"
    "\<not> IsInfinity (range_min r)" "\<not> IsInfinity (range_max r)"
  using assms by (cases "range_min r"; cases "range_max r"; simp add: wf_range_def)+

lemma between:
  assumes "IsSymbol b \<or> IsConstant b"
  shows "ub_sat v b y \<Longrightarrow> x \<le> y \<Longrightarrow> ub_sat v b x" "lb_sat v b y \<Longrightarrow> y \<le> x \<Longrightarrow> lb_sat v b x"
  using assms by (auto simp: lb_sat_bval ub_sat_bval)

text \<open>The last part of \<open>Join\<close>, for the two ranges that are compared.\<close>

lemma Join_ranges:
  assumes ranked: "well_ranked g R rk" and ex: "execution g R v" and wf: "wf_range r" "wf_range u"
    and live: "live v sz r" "live v sz u" and x: "in_size sz x" "in_range v r x \<or> in_range v u x"
  shows "\<exists>res. (do {
        inf_range \<leftarrow> LowerBound_size R sz (range_min r);
        inf_other \<leftarrow> LowerBound_size R sz (range_min u);
        sup_range \<leftarrow> UpperBound_size R sz (range_max r);
        sup_other \<leftarrow> UpperBound_size R sz (range_max u);
        if sup_range \<le> inf_other then Some (set_max r (range_max u))
        else if sup_other \<le> inf_range then Some (set_min r (range_min u))
        else do {
          mn \<leftarrow> JoinMin g R (range_min r) (range_min u) sz;
          mx \<leftarrow> JoinMax g R (range_max r) (range_max u) sz;
          new_Range mn mx } }) = Some res \<and> wf_range res \<and> in_range v res x"
proof -
  note R = wf_range_ends [OF wf(1)] and U = wf_range_ends [OF wf(2)]
  obtain y z where y: "in_size sz y" "in_range v r y" and z: "in_size sz z" "in_range v u z"
    and rep: "representable v sz (range_min r)" "representable v sz (range_max r)"
      "representable v sz (range_min u)" "representable v sz (range_max u)"
    using live by (auto simp: live_def)
  obtain ir where ir: "LowerBound_size R sz (range_min r) = Some ir" "\<And>x. in_size sz x \<Longrightarrow> lb_sat v (range_min r) x \<Longrightarrow> ir \<le> x"
    using LowerBound_size_spec [OF ranked R(1,2)] ex by blast
  obtain iu where iu: "LowerBound_size R sz (range_min u) = Some iu" "\<And>x. in_size sz x \<Longrightarrow> lb_sat v (range_min u) x \<Longrightarrow> iu \<le> x"
    using LowerBound_size_spec [OF ranked U(1,2)] ex by blast
  obtain sr where sr: "UpperBound_size R sz (range_max r) = Some sr" "\<And>x. in_size sz x \<Longrightarrow> ub_sat v (range_max r) x \<Longrightarrow> x \<le> sr"
    using UpperBound_size_spec [OF ranked R(3,4)] ex by blast
  obtain su where su: "UpperBound_size R sz (range_max u) = Some su" "\<And>x. in_size sz x \<Longrightarrow> ub_sat v (range_max u) x \<Longrightarrow> x \<le> su"
    using UpperBound_size_spec [OF ranked U(3,4)] ex by blast
  consider "sr \<le> iu" | "\<not> sr \<le> iu" "su \<le> ir" | "\<not> sr \<le> iu" "\<not> su \<le> ir" by blast
  then show ?thesis
  proof cases
    case 1
    have "lb_sat v (range_min r) x \<and> ub_sat v (range_max u) x"
      using x y z sr(2) [of y] sr(2) [of x] iu(2) [of x] iu(2) [of z] 1 between(1) [OF U(6), of v z x] between(2) [OF R(5), of v y x]
      unfolding in_range_def by fastforce
    then show ?thesis using ir(1) iu(1) sr(1) su(1) 1 R U by (simp add: set_max_def wf_range_def in_range_def)
  next
    case 2
    have "lb_sat v (range_min u) x \<and> ub_sat v (range_max r) x"
      using x y z su(2) [of z] su(2) [of x] ir(2) [of x] ir(2) [of y] 2 between(1) [OF R(6), of v y x] between(2) [OF U(5), of v z x]
      unfolding in_range_def by fastforce
    then show ?thesis using ir(1) iu(1) sr(1) su(1) 2 R U by (simp add: set_min_def wf_range_def in_range_def)
  next
    case 3
    obtain mn where mn: "JoinMin g R (range_min r) (range_min u) sz = Some mn" "wf_boundary mn" "\<not> IsUnknown mn" "lb_sat v mn x"
      using JoinMin_spec [OF ranked R(1,2) U(1,2), of sz] ex rep(1,3) x unfolding in_range_def by blast
    obtain mx where mx: "JoinMax g R (range_max r) (range_max u) sz = Some mx" "wf_boundary mx" "\<not> IsUnknown mx" "ub_sat v mx x"
      using JoinMax_spec [OF ranked R(3,4) U(3,4), of sz] ex rep(2,4) x unfolding in_range_def by blast
    obtain res where "new_Range mn mx = Some res" "wf_range res" "in_range v res x"
      by (rule new_Range_spec [OF mn(2) mx(2) mn(3) mx(3) mn(4) mx(4) size_in_int64 [OF x(1)]])
    then show ?thesis using ir(1) iu(1) sr(1) su(1) mn(1) mx(1) 3 by simp
  qed
qed

lemma DependsOnSymbol_total:
  assumes "well_ranked g R rk"
  shows "\<exists>q. DependsOnSymbol g b d = Some q"
proof (cases b)
  case (kSymbol s off)
  obtain u where "UnwrapConstraint g s = Some u" using UnwrapConstraint_spec [OF assms] by blast
  then show ?thesis using kSymbol by (auto simp: DependsOnSymbol_def)
qed (auto simp: DependsOnSymbol_def)

text \<open>
  C33. Joins: when the joined definition has a Smi value that lies in its range and both ranges are live in the execution
  (inhabited, with bounds that the size can represent), \<open>Join\<close> returns a well-formed range that contains every
  value of the accumulated range and the value of the joined definition.  It contains every value of the
  joined definition's range as well when neither bound of the accumulated range depends on that
  definition; otherwise the code replaces this range by the definition itself.
\<close>

theorem Join_sound:
  assumes "well_ranked g R rk" "execution g R v" "wf_range r" "wf_range u" "live v sz r" "live v sz u"
    and "v d = Some w" "in_smi w" "in_size sz w" "in_range v u w"
    and "in_size sz x" "in_range v r x \<or> x = w \<or> in_range v u x \<and> (\<forall>e. UnwrapConstraint g d = Some e \<longrightarrow>
       DependsOnSymbol g (range_min r) e = Some False \<and> DependsOnSymbol g (range_max r) e = Some False)"
  shows "\<exists>res. Join g R r d (Some u) sz = Some res \<and> wf_range res \<and> in_range v res x"
proof -
  obtain e where e: "UnwrapConstraint g d = Some e" using UnwrapConstraint_spec [OF assms(1)] by blast
  obtain p q where pq: "DependsOnSymbol g (range_min r) e = Some p" "DependsOnSymbol g (range_max r) e = Some q"
    using DependsOnSymbol_total [OF assms(1)] by blast
  obtain b where b: "FromDefinition g d 0 = Some b" "wf_boundary b" "\<not> IsUnknown b" "\<not> IsInfinity b"
      "\<And>x. lb_sat v b x \<longleftrightarrow> w + 0 \<le> x" "\<And>x. ub_sat v b x \<longleftrightarrow> x \<le> w + 0"
    by (rule FromDefinition_small [OF assms(1,2,7,8), of 0]) (simp, rule that, assumption+)
  let ?s = "\<lparr>range_min = b, range_max = b\<rparr>"
  define u' where "u' = (if p \<or> q then ?s else u)"
  have bb: "new_Range b b = Some ?s" using b by (simp add: new_Range_def)
  have "IsSymbol b \<or> IsConstant b" using b(3,4) by (cases b) auto
  then have wb: "bval v b = Some w" using b(5) [of w] b(6) [of w] by (auto simp: lb_sat_bval ub_sat_bval)
  have "representable v sz b" using wb assms(9) by (cases b) auto
  moreover have "in_range v ?s w" using b by (simp add: in_range_def)
  ultimately have "live v sz ?s" using assms(9) by (auto simp: live_def)
  then have u: "wf_range u'" "live v sz u'" "in_range v u' w"
    using assms(4,6,10) b by (auto simp: u'_def wf_range_def in_range_def)
  have "\<not> IsUnknown (range_min r)" "\<not> IsUnknown (range_min u)" using assms(3,4) by (simp_all add: wf_range_def)
  moreover have "(if p \<or> q then do { b \<leftarrow> FromDefinition g d 0; new_Range b b } else Some u) = Some u'"
    using b(1) bb by (simp add: u'_def)
  moreover have "in_range v r x \<or> in_range v u' x" using assms(12) u(3) e pq by (auto simp: u'_def)
  ultimately show ?thesis
    using Join_ranges [OF assms(1,2,3) u(1) assms(5) u(2) assms(11)] e pq by (simp add: Join_def)
qed

theorem Join_sound_witness:
  "\<exists>res. Join demo_graph (range_of demo_state) \<lparr>range_min = kConstant 0, range_max = kSymbol 0 (- 1)\<rparr> 0
      (Some \<lparr>range_min = kConstant 0, range_max = kConstant 100\<rparr>) kRangeBoundarySmi = Some res \<and> wf_range res
    \<and> in_range (demo_env(1 := Some 6)) res 7"
proof -
  have "live (demo_env(1 := Some 6)) kRangeBoundarySmi \<lparr>range_min = kConstant 0, range_max = kSymbol 0 (- 1)\<rparr>"
    "live (demo_env(1 := Some 6)) kRangeBoundarySmi \<lparr>range_min = kConstant 0, range_max = kConstant 100\<rparr>"
    by (auto simp: live_def in_range_def demo_env_def range_defs intro!: exI [of _ 0])
  from Join_sound [OF demo_state_ok _ _ this, of 0 7 7] show ?thesis
    by (simp add: demo_env_def range_defs wf_range_def in_range_def)
qed

text \<open>
  The inhabitedness that the theorem asks for is necessary.  Take the function body
  \<^verbatim>\<open>x = 2; if (i >= 5 && i < len) x = i; return array[x];\<close> where \<^verbatim>\<open>len\<close> is the array length.
  Definition 0 is the length, 1 is \<^verbatim>\<open>i\<close>, 2 and 3 are the constraints on \<^verbatim>\<open>i\<close> inside the branch, 4 is the constant 2
  and 5 is the phi for \<^verbatim>\<open>x\<close>.
\<close>

definition phi_graph :: flow_graph where
  "phi_graph = demo_graph\<lparr>
     instr_of := (\<lambda>d. if d = 0 then LoadField kArray_length kTagged
       else if d = 2 then Constraint 1 \<lparr>range_min = kConstant 5, range_max = MaxSmi\<rparr>
       else if d = 3 then Constraint 2 \<lparr>range_min = MinSmi, range_max = kSymbol 0 (- 1)\<rparr>
       else if d = 4 then Constant (Smi 2)
       else if d = 5 then Phi [4, 3]
       else OtherDefinition),
     GetBlock := (\<lambda>d. if d = 5 then 2 else if d \<in> {2, 3} then 1 else 0),
     Dominates := (\<lambda>a b. a = 0)\<rparr>"

definition phi_env :: env where
  "phi_env d = (if d = 0 then Some 1 else if d = 1 then Some 0 else if d = 4 then Some 2 else if d = 5 then Some 2 else None)"

definition no_ranges :: analysis where
  "no_ranges = \<lparr>range_of = (\<lambda>d. None), can_overflow = (\<lambda>d. True), cached_range = (\<lambda>d. None)\<rparr>"

lemma phi_ranges:
  "map_option (\<lambda>st. (range_of st 0, range_of st 1, range_of st 4, range_of st 5,
       map_option fst (IsRedundantBasedOnRangeInformation phi_graph 5 0 st)))
     (InferRanges phi_graph [0, 1, 4, 2, 3, 5] no_ranges) =
   Some (Some \<lparr>range_min = kConstant 0, range_max = kConstant Array_kMaxElements\<rparr>,
         Some \<lparr>range_min = kConstant kSmiMin, range_max = kConstant kSmiMax\<rparr>,
         Some \<lparr>range_min = kConstant 2, range_max = kConstant 2\<rparr>,
         Some \<lparr>range_min = kConstant 2, range_max = kSymbol 0 (- 1)\<rparr>, Some True)"
  by code_simp

text \<open>
  The comparison of whole ranges in \<open>Join\<close> is unsound when a branch is not taken: for the body above the analysis gives
  the phi the range from 2 to the length minus one and declares the bounds check redundant, although in the
  run with length 1 and \<^verbatim>\<open>i\<close> = 0, in which all evaluated inputs lie in their inferred ranges, the index is 2.
\<close>

lemma phi_join_eliminates_needed_check:
  "\<exists>st. InferRanges phi_graph [0, 1, 4, 2, 3, 5] no_ranges = Some st
     \<and> map_option fst (IsRedundantBasedOnRangeInformation phi_graph 5 0 st) = Some True
     \<and> in_range phi_env (the (range_of st 0)) 1 \<and> in_range phi_env (the (range_of st 1)) 0
     \<and> in_range phi_env (the (range_of st 4)) 2 \<and> \<not> in_range phi_env (the (range_of st 5)) 2
     \<and> phi_env 5 = Some 2 \<and> phi_env 0 = Some 1"
  using phi_ranges
  by (auto simp: phi_env_def in_range_def Array_kMaxElements_def kSmiMin_def kSmiMax_def)

section \<open>Widening\<close>

lemma WidenMin_spec:
  assumes ranked: "well_ranked g R rk" and wf: "wf_range r" "wf_range n"
  obtains m where "WidenMin g R r n sz = Some m"
    "m = range_min r \<or> m = MinConstant sz \<or> ConstantMin R (Some r) sz = Some m"
    "\<And>v x. execution g R v \<Longrightarrow> representable v sz (range_min r) \<Longrightarrow> representable v sz (range_min n) \<Longrightarrow> in_size sz x \<Longrightarrow>
       lb_sat v (range_min r) x \<or> lb_sat v (range_min n) x \<Longrightarrow> lb_sat v m x"
proof -
  note E = wf_range_ends(1,2) [OF wf(1)] and F = wf_range_ends(1,2) [OF wf(2)]
  obtain a where a: "ConstantMin R (Some r) sz = Some (kConstant a)"
      "\<And>v x. execution g R v \<Longrightarrow> in_size sz x \<Longrightarrow> lb_sat v (range_min r) x \<Longrightarrow> a \<le> x"
    by (rule ConstantMin_spec [OF ranked E, of sz]) (rule that, assumption+)
  obtain b where b: "ConstantMin R (Some n) sz = Some (kConstant b)"
      "\<And>v x. execution g R v \<Longrightarrow> in_size sz x \<Longrightarrow> lb_sat v (range_min n) x \<Longrightarrow> b \<le> x"
    by (rule ConstantMin_spec [OF ranked F, of sz]) (rule that, assumption+)
  have const: "lb_sat v (if a \<le> b then kConstant a else MinConstant sz) x"
    if "execution g R v" "in_size sz x" "lb_sat v (range_min r) x \<or> lb_sat v (range_min n) x" for v x
    using that a(2) [OF that(1,2)] b(2) [OF that(1,2)] by (auto simp: MinConstant_def in_size_def)
  show ?thesis
  proof (cases "IsSymbol (range_min r)")
    case False
    then have "WidenMin g R r n sz = Some (if a \<le> b then kConstant a else MinConstant sz)"
      using a(1) b(1) by (simp add: WidenMin_def)
    then show ?thesis using that const a(1) by (cases "a \<le> b") auto
  next
    case sym: True
    obtain l where l: "LowerBound R (range_min r) = Some l" "IsConstantOrInfinity l" using LowerBound_spec [OF ranked E] by blast
    obtain ov where ov: "Overflowed g sz l = Some ov" using Overflowed_spec [OF l(2)] by blast
    obtain q where q: "DependOnSameSymbol g (range_min r) (range_min n) = Some q" using DependOnSameSymbol_spec(1) [OF ranked] by blast
    obtain u where u: "UpperBound_size R sz (range_min r) = Some u"
        "\<And>v x. execution g R v \<Longrightarrow> in_size sz x \<Longrightarrow> ub_sat v (range_min r) x \<Longrightarrow> x \<le> u"
      using UpperBound_size_spec [OF ranked E, of sz] by blast
    obtain k where k: "LowerBound_size R sz (range_min n) = Some k"
        "\<And>v x. execution g R v \<Longrightarrow> in_size sz x \<Longrightarrow> lb_sat v (range_min n) x \<Longrightarrow> k \<le> x"
      using LowerBound_size_spec [OF ranked F, of sz] by blast
    let ?m = "if ov then MinConstant sz
      else if q then (if boundary_offset (range_min r) \<le> boundary_offset (range_min n) then range_min r else MinConstant sz)
      else if u \<le> k then range_min r else if a \<le> b then kConstant a else MinConstant sz"
    have "WidenMin g R r n sz = Some ?m"
      using sym l(1) ov q u(1) k(1) a(1) b(1) by (simp add: WidenMin_def Let_def)
    moreover have "lb_sat v ?m x"
      if ex: "execution g R v" and rep: "representable v sz (range_min r)" "representable v sz (range_min n)"
        and x: "in_size sz x" "lb_sat v (range_min r) x \<or> lb_sat v (range_min n) x" for v x
    proof -
      obtain z where z: "bval v (range_min r) = Some z" "in_size sz z" using rep(1) representable_symbol [OF sym] by blast
      have zs: "ub_sat v (range_min r) z" using z(1) sym by (subst ub_sat_bval) auto
      have "lb_sat v (range_min r) x" if "q" "boundary_offset (range_min r) \<le> boundary_offset (range_min n)"
      proof -
        have "DependOnSameSymbol g (range_min r) (range_min n) = Some True" using q that by simp
        note same = DependOnSameSymbol_spec(2) [OF ranked this] canonical_join_sat(1) [OF ranked ex this z(1)]
        obtain y where "bval v (range_min n) = Some y" using rep(2) representable_symbol same(1) by blast
        from same(2) [OF this x(2)] show ?thesis using that(2) by simp
      qed
      moreover have "lb_sat v (range_min r) x" if "u \<le> k"
        using x(2) k(2) [OF ex x(1)] u(2) [OF ex z(2) zs] that z(1) sym by (auto simp: lb_sat_bval)
      moreover have "lb_sat v (MinConstant sz) x" using x(1) by (simp add: MinConstant_def in_size_def)
      ultimately show ?thesis using const [OF ex x] by (auto split: if_splits)
    qed
    ultimately show ?thesis using that [of ?m] a(1) by auto
  qed
qed

lemma WidenMax_spec:
  assumes ranked: "well_ranked g R rk" and wf: "wf_range r" "wf_range n"
  obtains m where "WidenMax g R r n sz = Some m"
    "m = range_max r \<or> m = MaxConstant sz \<or> ConstantMax R (Some r) sz = Some m"
    "\<And>v x. execution g R v \<Longrightarrow> representable v sz (range_max r) \<Longrightarrow> representable v sz (range_max n) \<Longrightarrow> in_size sz x \<Longrightarrow>
       ub_sat v (range_max r) x \<or> ub_sat v (range_max n) x \<Longrightarrow> ub_sat v m x"
proof -
  note E = wf_range_ends(3,4) [OF wf(1)] and F = wf_range_ends(3,4) [OF wf(2)]
  obtain a where a: "ConstantMax R (Some r) sz = Some (kConstant a)"
      "\<And>v x. execution g R v \<Longrightarrow> in_size sz x \<Longrightarrow> ub_sat v (range_max r) x \<Longrightarrow> x \<le> a"
    by (rule ConstantMax_spec [OF ranked E, of sz]) (rule that, assumption+)
  obtain b where b: "ConstantMax R (Some n) sz = Some (kConstant b)"
      "\<And>v x. execution g R v \<Longrightarrow> in_size sz x \<Longrightarrow> ub_sat v (range_max n) x \<Longrightarrow> x \<le> b"
    by (rule ConstantMax_spec [OF ranked F, of sz]) (rule that, assumption+)
  have const: "ub_sat v (if a \<ge> b then kConstant a else MaxConstant sz) x"
    if "execution g R v" "in_size sz x" "ub_sat v (range_max r) x \<or> ub_sat v (range_max n) x" for v x
    using that a(2) [OF that(1,2)] b(2) [OF that(1,2)] by (auto simp: MaxConstant_def in_size_def)
  show ?thesis
  proof (cases "IsSymbol (range_max r)")
    case False
    then have "WidenMax g R r n sz = Some (if a \<ge> b then kConstant a else MaxConstant sz)"
      using a(1) b(1) by (simp add: WidenMax_def)
    then show ?thesis using that const a(1) by (cases "a \<ge> b") auto
  next
    case sym: True
    obtain l where l: "UpperBound R (range_max r) = Some l" "IsConstantOrInfinity l" using UpperBound_spec [OF ranked E] by blast
    obtain ov where ov: "Overflowed g sz l = Some ov" using Overflowed_spec [OF l(2)] by blast
    obtain q where q: "DependOnSameSymbol g (range_max r) (range_max n) = Some q" using DependOnSameSymbol_spec(1) [OF ranked] by blast
    obtain u where u: "LowerBound_size R sz (range_max r) = Some u"
        "\<And>v x. execution g R v \<Longrightarrow> in_size sz x \<Longrightarrow> lb_sat v (range_max r) x \<Longrightarrow> u \<le> x"
      using LowerBound_size_spec [OF ranked E, of sz] by blast
    obtain k where k: "UpperBound_size R sz (range_max n) = Some k"
        "\<And>v x. execution g R v \<Longrightarrow> in_size sz x \<Longrightarrow> ub_sat v (range_max n) x \<Longrightarrow> x \<le> k"
      using UpperBound_size_spec [OF ranked F, of sz] by blast
    let ?m = "if ov then MaxConstant sz
      else if q then (if boundary_offset (range_max r) \<ge> boundary_offset (range_max n) then range_max r else MaxConstant sz)
      else if u \<ge> k then range_max r else if a \<ge> b then kConstant a else MaxConstant sz"
    have "WidenMax g R r n sz = Some ?m"
      using sym l(1) ov q u(1) k(1) a(1) b(1) by (simp add: WidenMax_def Let_def)
    moreover have "ub_sat v ?m x"
      if ex: "execution g R v" and rep: "representable v sz (range_max r)" "representable v sz (range_max n)"
        and x: "in_size sz x" "ub_sat v (range_max r) x \<or> ub_sat v (range_max n) x" for v x
    proof -
      obtain z where z: "bval v (range_max r) = Some z" "in_size sz z" using rep(1) representable_symbol [OF sym] by blast
      have zs: "lb_sat v (range_max r) z" using z(1) sym by (subst lb_sat_bval) auto
      have "ub_sat v (range_max r) x" if "q" "boundary_offset (range_max r) \<ge> boundary_offset (range_max n)"
      proof -
        have "DependOnSameSymbol g (range_max r) (range_max n) = Some True" using q that by simp
        note same = DependOnSameSymbol_spec(2) [OF ranked this] canonical_join_sat(2) [OF ranked ex this z(1)]
        obtain y where "bval v (range_max n) = Some y" using rep(2) representable_symbol same(1) by blast
        from same(2) [OF this x(2)] show ?thesis using that(2) by simp
      qed
      moreover have "ub_sat v (range_max r) x" if "u \<ge> k"
        using x(2) k(2) [OF ex x(1)] u(2) [OF ex z(2) zs] that z(1) sym by (auto simp: ub_sat_bval)
      moreover have "ub_sat v (MaxConstant sz) x" using x(1) by (simp add: MaxConstant_def in_size_def)
      ultimately show ?thesis using const [OF ex x] by (auto split: if_splits)
    qed
    ultimately show ?thesis using that [of ?m] a(1) by auto
  qed
qed

text \<open>How often a bound can still change: a symbolic bound twice, a constant once, the limit never.\<close>

definition widening_rank :: "RangeBoundary \<Rightarrow> RangeBoundary \<Rightarrow> nat" where
  "widening_rank limit b = (if IsSymbol b then 2 else if b = limit then 0 else 1)"

definition sized :: "RangeSize \<Rightarrow> RangeBoundary \<Rightarrow> bool" where
  "sized sz b \<longleftrightarrow> boundary_Clamp sz b = b"

lemma Widen_stable:
  assumes wf: "wf_range r" and sized: "sized sz (range_min r)" "sized sz (range_max r)"
  shows "m = range_min r \<or> m = MinConstant sz \<or> ConstantMin R (Some r) sz = Some m \<Longrightarrow> ConstantMin R (Some r) sz = Some (kConstant a) \<Longrightarrow>
      m = range_min r \<or> widening_rank (MinConstant sz) m < widening_rank (MinConstant sz) (range_min r)"
    and "m = range_max r \<or> m = MaxConstant sz \<or> ConstantMax R (Some r) sz = Some m \<Longrightarrow> ConstantMax R (Some r) sz = Some (kConstant a) \<Longrightarrow>
      m = range_max r \<or> widening_rank (MaxConstant sz) m < widening_rank (MaxConstant sz) (range_max r)"
proof -
  note e = wf_range_ends(5,6) [OF wf]
  show "m = range_min r \<or> m = MinConstant sz \<or> ConstantMin R (Some r) sz = Some m \<Longrightarrow> ConstantMin R (Some r) sz = Some (kConstant a) \<Longrightarrow>
      m = range_min r \<or> widening_rank (MinConstant sz) m < widening_rank (MinConstant sz) (range_min r)"
    using e(1) sized(1) by (cases "range_min r") (auto simp: widening_rank_def MinConstant_def ConstantMin_def sized_def)
  show "m = range_max r \<or> m = MaxConstant sz \<or> ConstantMax R (Some r) sz = Some m \<Longrightarrow> ConstantMax R (Some r) sz = Some (kConstant a) \<Longrightarrow>
      m = range_max r \<or> widening_rank (MaxConstant sz) m < widening_rank (MaxConstant sz) (range_max r)"
    using e(2) sized(2) by (cases "range_max r") (auto simp: widening_rank_def MaxConstant_def ConstantMax_def sized_def)
qed

text \<open>
  The ranges that a phi goes through when \<open>InferRange\<close> widens it repeatedly: in every round the ranges \<open>R\<close> of the other
  definitions and the newly inferred range \<open>r\<close> may be different ones.
\<close>

fun widenings :: "flow_graph \<Rightarrow> RangeSize \<Rightarrow> Range \<Rightarrow> (ranges \<times> Range) list \<Rightarrow> Range list option" where
  "widenings g sz old [] = Some [old]"
| "widenings g sz old ((R, r) # rounds) =
     do {
       mn \<leftarrow> WidenMin g R old r sz;
       mx \<leftarrow> WidenMax g R old r sz;
       new \<leftarrow> new_Range mn mx;
       rest \<leftarrow> widenings g sz new rounds;
       Some (old # rest)
     }"

fun changes :: "'a list \<Rightarrow> nat" where
  "changes (x # y # ys) = (if x = y then 0 else 1) + changes (y # ys)"
| "changes _ = 0"

definition covers :: "flow_graph \<Rightarrow> RangeSize \<Rightarrow> ranges \<Rightarrow> Range \<Rightarrow> Range \<Rightarrow> Range \<Rightarrow> bool" where
  "covers g sz R old r new \<longleftrightarrow>
     (\<forall>v x. execution g R v \<longrightarrow> live v sz old \<longrightarrow> live v sz r \<longrightarrow> in_size sz x \<longrightarrow>
        in_range v old x \<or> in_range v r x \<longrightarrow> in_range v new x)"

lemma widened_bound:
  assumes "wf_boundary b" "IsSymbol b \<or> IsConstant b" "sized sz b" "in_size sz a"
    and "m = b \<or> m = MinConstant sz \<or> m = MaxConstant sz \<or> m = kConstant a"
  shows "wf_boundary m \<and> \<not> IsUnknown m \<and> \<not> IsInfinity m \<and> sized sz m"
proof -
  have const: "wf_boundary (kConstant c) \<and> sized sz (kConstant c)" if "in_size sz c" for c
    using that by (cases sz) (auto simp: sized_def clamp_value_id in_size_def range_defs in_int64_def)
  have "in_size sz (size_min sz)" "in_size sz (size_max sz)" using size_min_less_max [of sz] by (simp_all add: in_size_def)
  then show ?thesis
    using assms const [of a] const [of "size_min sz"] const [of "size_max sz"]
    by (cases b) (auto simp: MinConstant_def MaxConstant_def)
qed

lemma widen_round:
  assumes "well_ranked g R rk" "wf_range r" "wf_range n" "sized sz (range_min r)" "sized sz (range_max r)"
  obtains new where "WidenMin g R r n sz = Some (range_min new)" "WidenMax g R r n sz = Some (range_max new)"
    "new_Range (range_min new) (range_max new) = Some new" "wf_range new" "sized sz (range_min new)" "sized sz (range_max new)"
    "range_min new = range_min r \<or> widening_rank (MinConstant sz) (range_min new) < widening_rank (MinConstant sz) (range_min r)"
    "range_max new = range_max r \<or> widening_rank (MaxConstant sz) (range_max new) < widening_rank (MaxConstant sz) (range_max r)"
    "covers g sz R r n new"
proof -
  obtain mn where mn: "WidenMin g R r n sz = Some mn"
    "mn = range_min r \<or> mn = MinConstant sz \<or> ConstantMin R (Some r) sz = Some mn"
    "\<And>v x. execution g R v \<Longrightarrow> representable v sz (range_min r) \<Longrightarrow> representable v sz (range_min n) \<Longrightarrow> in_size sz x \<Longrightarrow>
       lb_sat v (range_min r) x \<or> lb_sat v (range_min n) x \<Longrightarrow> lb_sat v mn x"
    by (rule WidenMin_spec [OF assms(1-3), of sz]) (rule that, assumption+)
  obtain mx where mx: "WidenMax g R r n sz = Some mx"
    "mx = range_max r \<or> mx = MaxConstant sz \<or> ConstantMax R (Some r) sz = Some mx"
    "\<And>v x. execution g R v \<Longrightarrow> representable v sz (range_max r) \<Longrightarrow> representable v sz (range_max n) \<Longrightarrow> in_size sz x \<Longrightarrow>
       ub_sat v (range_max r) x \<or> ub_sat v (range_max n) x \<Longrightarrow> ub_sat v mx x"
    by (rule WidenMax_spec [OF assms(1-3), of sz]) (rule that, assumption+)
  note E = wf_range_ends [OF assms(2)]
  obtain a where a: "ConstantMin R (Some r) sz = Some (kConstant a)" "in_size sz a" by (rule ConstantMin_spec [OF assms(1) E(1,2), of sz])
  obtain b where b: "ConstantMax R (Some r) sz = Some (kConstant b)" "in_size sz b" by (rule ConstantMax_spec [OF assms(1) E(3,4), of sz])
  have wmn: "wf_boundary mn \<and> \<not> IsUnknown mn \<and> \<not> IsInfinity mn \<and> sized sz mn"
    by (rule widened_bound [OF E(1,5) assms(4) a(2)]) (use mn(2) a(1) in auto)
  have wmx: "wf_boundary mx \<and> \<not> IsUnknown mx \<and> \<not> IsInfinity mx \<and> sized sz mx"
    by (rule widened_bound [OF E(3,6) assms(5) b(2)]) (use mx(2) b(1) in auto)
  let ?new = "\<lparr>range_min = mn, range_max = mx\<rparr>"
  have "covers g sz R r n ?new"
    unfolding covers_def
  proof (intro allI impI)
    fix v x
    assume that: "execution g R v" "live v sz r" "live v sz n" "in_size sz x" "in_range v r x \<or> in_range v n x"
    show "in_range v ?new x"
      using that mn(3) [OF that(1) _ _ that(4)] mx(3) [OF that(1) _ _ that(4)] by (auto simp: live_def in_range_def)
  qed
  then show ?thesis
    using that [of ?new] wmn wmx mn(1) mx(1) Widen_stable(1) [OF assms(2,4,5) mn(2) a(1)] Widen_stable(2) [OF assms(2,4,5) mx(2) b(1)]
    by (simp add: new_Range_def wf_range_def)
qed

lemma widenings_rank:
  assumes "wf_range r" "sized sz (range_min r)" "sized sz (range_max r)"
    and "\<forall>(R, n) \<in> set rounds. wf_range n \<and> (\<exists>rk. well_ranked g R rk)"
  shows "\<exists>rs. widenings g sz r rounds = Some (r # rs) \<and> length rs = length rounds \<and> list_all wf_range rs \<and>
    changes (map range_min (r # rs)) \<le> widening_rank (MinConstant sz) (range_min r) \<and>
    changes (map range_max (r # rs)) \<le> widening_rank (MaxConstant sz) (range_max r) \<and>
    (\<forall>i < length rounds. covers g sz (fst (rounds ! i)) ((r # rs) ! i) (snd (rounds ! i)) (rs ! i))"
  using assms
proof (induction rounds arbitrary: r)
  case Nil
  then show ?case by simp
next
  case (Cons p rounds)
  obtain R n where p: "p = (R, n)" by (cases p)
  obtain rk where rk: "well_ranked g R rk" "wf_range n" using Cons.prems(4) p by auto
  obtain new where new: "WidenMin g R r n sz = Some (range_min new)" "WidenMax g R r n sz = Some (range_max new)"
    "new_Range (range_min new) (range_max new) = Some new" "wf_range new" "sized sz (range_min new)" "sized sz (range_max new)"
    "range_min new = range_min r \<or> widening_rank (MinConstant sz) (range_min new) < widening_rank (MinConstant sz) (range_min r)"
    "range_max new = range_max r \<or> widening_rank (MaxConstant sz) (range_max new) < widening_rank (MaxConstant sz) (range_max r)"
    "covers g sz R r n new"
    by (rule widen_round [OF rk(1) Cons.prems(1) rk(2) Cons.prems(2,3)])
  obtain rs where rs: "widenings g sz new rounds = Some (new # rs)" "length rs = length rounds" "list_all wf_range rs"
    "changes (map range_min (new # rs)) \<le> widening_rank (MinConstant sz) (range_min new)"
    "changes (map range_max (new # rs)) \<le> widening_rank (MaxConstant sz) (range_max new)"
    "\<forall>i < length rounds. covers g sz (fst (rounds ! i)) ((new # rs) ! i) (snd (rounds ! i)) (rs ! i)"
    using Cons.IH [OF new(4,5,6)] Cons.prems(4) by auto
  have "\<forall>i < length (p # rounds). covers g sz (fst ((p # rounds) ! i)) ((r # new # rs) ! i) (snd ((p # rounds) ! i)) ((new # rs) ! i)"
    using rs(6) new(9) by (simp add: All_less_Suc2 p)
  moreover have "changes (map range_min (r # new # rs)) \<le> widening_rank (MinConstant sz) (range_min r)"
    using rs(4) new(7) by auto
  moreover have "changes (map range_max (r # new # rs)) \<le> widening_rank (MaxConstant sz) (range_max r)"
    using rs(5) new(8) by auto
  ultimately show ?case using rs(1-3) new(1-4) p by (intro exI [of _ "new # rs"]) simp
qed

text \<open>
  C34. Widening: starting from a range whose bounds are within the phi's size, every sequence of widenings, whatever ranges
  are inferred and assigned to the other definitions in between, succeeds with well-formed ranges, and over the
  whole sequence each bound changes at most twice.  Each widened range contains, in every execution in which the old
  and the new range are live (inhabited, with bounds that the size can represent), the values of the size that
  lie in either of them.
\<close>

theorem widening_covers_and_stabilises:
  assumes "wf_range r" "sized sz (range_min r)" "sized sz (range_max r)"
    and "\<forall>(R, n) \<in> set rounds. wf_range n \<and> (\<exists>rk. well_ranked g R rk)"
  shows "\<exists>rs. widenings g sz r rounds = Some (r # rs) \<and> length rs = length rounds \<and> list_all wf_range rs \<and>
    changes (map range_min (r # rs)) \<le> 2 \<and> changes (map range_max (r # rs)) \<le> 2 \<and>
    (\<forall>i < length rounds. \<forall>v x. execution g (fst (rounds ! i)) v \<longrightarrow>
       live v sz ((r # rs) ! i) \<longrightarrow> live v sz (snd (rounds ! i)) \<longrightarrow> in_size sz x \<longrightarrow>
       in_range v ((r # rs) ! i) x \<or> in_range v (snd (rounds ! i)) x \<longrightarrow> in_range v (rs ! i) x)"
proof -
  have two: "widening_rank limit b \<le> 2" for limit b by (simp add: widening_rank_def)
  show ?thesis
    using widenings_rank [OF assms] two [THEN order_trans [rotated]] unfolding covers_def by blast
qed

theorem widening_covers_and_stabilises_witness:
  "\<exists>r1 r2. widenings demo_graph kRangeBoundarySmi \<lparr>range_min = kConstant 0, range_max = kSymbol 0 3\<rparr>
      [(demo_ranges, \<lparr>range_min = kConstant 1, range_max = kSymbol 0 4\<rparr>), (demo_ranges, \<lparr>range_min = kConstant 0, range_max = kConstant 9\<rparr>)]
      = Some [\<lparr>range_min = kConstant 0, range_max = kSymbol 0 3\<rparr>, r1, r2] \<and>
    changes [kSymbol 0 3, range_max r1, range_max r2] \<le> 2 \<and> in_range demo_env r1 3"
proof -
  let ?r = "\<lparr>range_min = kConstant 0, range_max = kSymbol 0 3\<rparr>"
  let ?n = "\<lparr>range_min = kConstant 1, range_max = kSymbol 0 4\<rparr>" and ?n' = "\<lparr>range_min = kConstant 0, range_max = kConstant 9\<rparr>"
  have "wf_range ?r" "sized kRangeBoundarySmi (range_min ?r)" "sized kRangeBoundarySmi (range_max ?r)"
    "\<forall>(R, n) \<in> set [(demo_ranges, ?n), (demo_ranges, ?n')]. wf_range n \<and> (\<exists>rk. well_ranked demo_graph R rk)"
    using demo_ok(1) by (auto simp: wf_range_def sized_def clamp_value_def range_defs)
  from widening_covers_and_stabilises [OF this] obtain rs where
    rs: "widenings demo_graph kRangeBoundarySmi ?r [(demo_ranges, ?n), (demo_ranges, ?n')] = Some (?r # rs)" "length rs = 2"
      "changes (map range_max (?r # rs)) \<le> 2"
    and cov: "\<And>v x. execution demo_graph demo_ranges v \<Longrightarrow> live v kRangeBoundarySmi ?r \<Longrightarrow> live v kRangeBoundarySmi ?n \<Longrightarrow>
      in_size kRangeBoundarySmi x \<Longrightarrow> in_range v ?r x \<or> in_range v ?n x \<Longrightarrow> in_range v (rs ! 0) x"
    by fastforce
  obtain r1 r2 where r12: "rs = [r1, r2]" using rs(2) by (auto simp: numeral_2_eq_2 length_Suc_conv)
  have "live demo_env kRangeBoundarySmi ?r" "live demo_env kRangeBoundarySmi ?n" "in_range demo_env ?r 3" "in_size kRangeBoundarySmi 3"
    by (auto simp: live_def in_range_def demo_env_def in_size_def range_defs intro!: exI [of _ 1])
  with cov [OF demo_ok(2)] have "in_range demo_env r1 3" by (simp add: r12)
  then show ?thesis using rs(1,3) r12 by auto
qed

end
