(* ===== verification/Unicode_Codec.thy ===== *)
theory Unicode_Codec
  imports VM_Prelude
begin

text \<open>
  The transcoding routines of \<^verbatim>\<open>runtime/platform/unicode.h\<close> and \<^verbatim>\<open>unicode.cc\<close>: the classes
  \<^verbatim>\<open>Utf\<close>, \<^verbatim>\<open>Utf8\<close> and \<^verbatim>\<open>Utf16\<close>.  An \<^verbatim>\<open>int32_t\<close> code point is a 32-bit word read with \<open>sint\<close>; an array
  is the list of its elements and a pointer into it is the rest of the list from there; indices and
  lengths, which never exceed the size of an array, are natural numbers.  A read or a write outside
  an array and a failing \<^verbatim>\<open>ASSERT\<close> have the result \<open>None\<close>.
\<close>

section \<open>Code points\<close>

definition kMaxCodePoint :: int where "kMaxCodePoint = 0x10FFFF"
definition kReplacementChar :: u32 where "kReplacementChar = 0xFFFD"

definition IsLatin1 :: "u32 \<Rightarrow> bool" where
  "IsLatin1 code_point \<longleftrightarrow> 0 \<le> sint code_point \<and> sint code_point \<le> 0xFF"

definition IsBmp :: "u32 \<Rightarrow> bool" where
  "IsBmp code_point \<longleftrightarrow> 0 \<le> sint code_point \<and> sint code_point \<le> 0xFFFF"

definition IsSupplementary :: "u32 \<Rightarrow> bool" where
  "IsSupplementary code_point \<longleftrightarrow> 0xFFFF < sint code_point \<and> sint code_point \<le> kMaxCodePoint"

definition IsOutOfRange :: "u32 \<Rightarrow> bool" where
  "IsOutOfRange code_point \<longleftrightarrow> sint code_point < 0 \<or> kMaxCodePoint < sint code_point"

section \<open>UTF-16\<close>

definition kMaxCodeUnit :: int where "kMaxCodeUnit = 0xFFFF"
definition kLeadSurrogateOffset :: u32 where "kLeadSurrogateOffset = 0xD800 - drop_bit 10 0x10000"

definition Utf16_Length :: "u32 \<Rightarrow> nat" where
  "Utf16_Length ch = (if sint ch \<le> kMaxCodeUnit then 1 else 2)"

definition IsSurrogate :: "u32 \<Rightarrow> bool" where
  "IsSurrogate ch \<longleftrightarrow> ch AND 0xFFFFF800 = 0xD800"

definition IsLeadSurrogate :: "u32 \<Rightarrow> bool" where
  "IsLeadSurrogate ch \<longleftrightarrow> ch AND 0xFFFFFC00 = 0xD800"

definition IsTrailSurrogate :: "u32 \<Rightarrow> bool" where
  "IsTrailSurrogate ch \<longleftrightarrow> ch AND 0xFFFFFC00 = 0xDC00"

definition Utf16_Decode :: "u16 \<Rightarrow> u16 \<Rightarrow> u32" where
  "Utf16_Decode lead trail = 0x10000 + push_bit 10 (ucast lead AND 0x3FF) + (ucast trail AND 0x3FF)"

definition Utf16_Encode :: "u32 \<Rightarrow> u16 list \<Rightarrow> nat \<Rightarrow> u16 list option" where
  "Utf16_Encode codepoint a j =
     (if kMaxCodeUnit < sint codepoint then do {
        a \<leftarrow> write_at a j (ucast (kLeadSurrogateOffset + signed_drop_bit 10 codepoint));
        write_at a (j + 1) (ucast (0xDC00 + (codepoint AND 0x3FF))) }
      else None)"

definition Utf16_Next :: "u16 list \<Rightarrow> nat \<Rightarrow> nat \<Rightarrow> (u32 \<times> nat) option" where
  "Utf16_Next characters i len = do {
     u \<leftarrow> read_at characters i;
     let ch = (ucast u :: u32);
     if IsLeadSurrogate ch \<and> int i < int len - 1 then do {
       u2 \<leftarrow> read_at characters (i + 1);
       let ch2 = (ucast u2 :: u32);
       if IsTrailSurrogate ch2 then Some (Utf16_Decode (ucast ch) (ucast ch2), i + 1 + 1)
       else Some (ch, i + 1) }
     else Some (ch, i + 1) }"

section \<open>UTF-8\<close>

datatype Utf8_Type = kLatin1 | kBMP | kSupplementary

definition kTrailBytes :: "nat list" where
  "kTrailBytes =
    [1, 1, 1, 1, 1, 1, 1, 1, 1, 1, 1, 1, 1, 1, 1, 1,
     1, 1, 1, 1, 1, 1, 1, 1, 1, 1, 1, 1, 1, 1, 1, 1,
     1, 1, 1, 1, 1, 1, 1, 1, 1, 1, 1, 1, 1, 1, 1, 1,
     1, 1, 1, 1, 1, 1, 1, 1, 1, 1, 1, 1, 1, 1, 1, 1,
     1, 1, 1, 1, 1, 1, 1, 1, 1, 1, 1, 1, 1, 1, 1, 1,
     1, 1, 1, 1, 1, 1, 1, 1, 1, 1, 1, 1, 1, 1, 1, 1,
     1, 1, 1, 1, 1, 1, 1, 1, 1, 1, 1, 1, 1, 1, 1, 1,
     1, 1, 1, 1, 1, 1, 1, 1, 1, 1, 1, 1, 1, 1, 1, 1,
     0, 0, 0, 0, 0, 0, 0, 0, 0, 0, 0, 0, 0, 0, 0, 0,
     0, 0, 0, 0, 0, 0, 0, 0, 0, 0, 0, 0, 0, 0, 0, 0,
     0, 0, 0, 0, 0, 0, 0, 0, 0, 0, 0, 0, 0, 0, 0, 0,
     0, 0, 0, 0, 0, 0, 0, 0, 0, 0, 0, 0, 0, 0, 0, 0,
     2, 2, 2, 2, 2, 2, 2, 2, 2, 2, 2, 2, 2, 2, 2, 2,
     2, 2, 2, 2, 2, 2, 2, 2, 2, 2, 2, 2, 2, 2, 2, 2,
     3, 3, 3, 3, 3, 3, 3, 3, 3, 3, 3, 3, 3, 3, 3, 3,
     4, 4, 4, 4, 4, 4, 4, 4, 5, 5, 5, 5, 6, 6, 0, 0]"

definition kMagicBits :: "u32 list" where
  "kMagicBits = [0, 0x00000000, 0x00003080, 0x000E2080, 0x03C82080, 0xFA082080, 0x82082080]"

definition kOverlongMinimum :: "u32 list" where
  "kOverlongMinimum = [0, 0x0, 0x80, 0x800, 0x10000, 0xFFFFFFFF, 0xFFFFFFFF]"

definition kMaxOneByteChar :: int where "kMaxOneByteChar = 0x7F"
definition kMaxTwoByteChar :: int where "kMaxTwoByteChar = 0x7FF"
definition kMaxThreeByteChar :: int where "kMaxThreeByteChar = 0xFFFF"
definition kMaxFourByteChar :: int where "kMaxFourByteChar = kMaxCodePoint"

definition IsTrailByte :: "u8 \<Rightarrow> bool" where
  "IsTrailByte code_unit \<longleftrightarrow> code_unit AND 0xC0 = 0x80"

definition IsNonShortestForm :: "u32 \<Rightarrow> nat \<Rightarrow> bool" where
  "IsNonShortestForm code_point num_code_units \<longleftrightarrow> code_point < kOverlongMinimum ! num_code_units"

definition IsLatin1SequenceStart :: "u8 \<Rightarrow> bool" where
  "IsLatin1SequenceStart code_unit \<longleftrightarrow> code_unit \<le> 0xC3"

definition IsSupplementarySequenceStart :: "u8 \<Rightarrow> bool" where
  "IsSupplementarySequenceStart code_unit \<longleftrightarrow> 0xF0 \<le> code_unit"

definition CodeUnitCount_step :: "nat \<times> Utf8_Type \<Rightarrow> u8 \<Rightarrow> nat \<times> Utf8_Type" where
  "CodeUnitCount_step st code_unit =
     (let (len, char_type) = st in
      if \<not> IsTrailByte code_unit then
        (let len = len + 1 in
         if \<not> IsLatin1SequenceStart code_unit then
           (if IsSupplementarySequenceStart code_unit then (len + 1, kSupplementary)
            else if char_type = kLatin1 then (len, kBMP) else (len, char_type))
         else (len, char_type))
      else (len, char_type))"

definition CodeUnitCount :: "u8 list \<Rightarrow> nat \<times> Utf8_Type" where
  "CodeUnitCount utf8_array = foldl CodeUnitCount_step (0, kLatin1) utf8_array"

text \<open>
  The inner loop of \<open>IsValid\<close> and \<open>Decode\<close>: it adds up the bytes that follow the lead byte at
  index \<open>i\<close>.  \<open>Truncated\<close> is the early return at the end of the array.
\<close>

datatype trail_result = Truncated | Collected nat bool u32

function trail_loop :: "u8 list \<Rightarrow> nat \<Rightarrow> nat \<Rightarrow> nat \<Rightarrow> nat \<Rightarrow> bool \<Rightarrow> u32 \<Rightarrow> trail_result option" where
  "trail_loop utf8_array i array_len num_trail_bytes j is_malformed ch =
     (if j < num_trail_bytes then
        if i + j < array_len then do {
          code_unit \<leftarrow> read_at utf8_array (i + j);
          trail_loop utf8_array i array_len num_trail_bytes (j + 1)
            (is_malformed \<or> \<not> IsTrailByte code_unit) (push_bit 6 ch + ucast code_unit) }
        else Some Truncated
      else Some (Collected j is_malformed ch))"
  by pat_completeness auto
termination by (relation "measure (\<lambda>(_, _, _, n, j, _). n - j)") auto

declare trail_loop.simps [simp del]

definition bad_sequence :: "nat \<Rightarrow> nat \<Rightarrow> bool \<Rightarrow> u32 \<Rightarrow> bool" where
  "bad_sequence num_trail_bytes j is_malformed ch \<longleftrightarrow>
     \<not> (is_malformed = False \<and> j = num_trail_bytes \<and> \<not> IsOutOfRange ch \<and> \<not> IsNonShortestForm ch j)"

definition IsValid_step :: "u8 list \<Rightarrow> nat \<Rightarrow> nat \<Rightarrow> nat option option" where
  "IsValid_step utf8_array array_len i = do {
     b \<leftarrow> read_at utf8_array i;
     let ch = (ucast b AND 0xFF :: u32);
     if ch \<ge> 0x80 then do {
       num_trail_bytes \<leftarrow> read_at kTrailBytes (unat ch);
       r \<leftarrow> trail_loop utf8_array i array_len num_trail_bytes 1 False ch;
       case r of
         Truncated \<Rightarrow> Some None
       | Collected j is_malformed ch \<Rightarrow>
           Some (if bad_sequence num_trail_bytes j is_malformed (ch - kMagicBits ! num_trail_bytes)
                 then None else Some (i + j)) }
     else Some (Some (i + 1)) }"

definition Utf8_Length :: "u32 \<Rightarrow> nat option" where
  "Utf8_Length ch =
     (if sint ch \<le> kMaxOneByteChar then Some 1
      else if sint ch \<le> kMaxTwoByteChar then Some 2
      else if sint ch \<le> kMaxThreeByteChar then Some 3
      else if sint ch \<le> kMaxFourByteChar then Some 4 else None)"

text \<open>The bytes \<open>Encode\<close> stores at \<open>dst\<close>; it returns their number.\<close>

definition kMask :: u32 where "kMask = NOT (push_bit 6 1)"

definition Utf8_Encode :: "u32 \<Rightarrow> u8 list option" where
  "Utf8_Encode ch =
     (if sint ch \<le> kMaxOneByteChar then Some [ucast ch]
      else if sint ch \<le> kMaxTwoByteChar then
        Some [ucast (0xC0 OR signed_drop_bit 6 ch), ucast (0x80 OR (ch AND kMask))]
      else if sint ch \<le> kMaxThreeByteChar then
        Some [ucast (0xE0 OR signed_drop_bit 12 ch), ucast (0x80 OR (signed_drop_bit 6 ch AND kMask)),
              ucast (0x80 OR (ch AND kMask))]
      else if sint ch \<le> kMaxFourByteChar then
        Some [ucast (0xF0 OR signed_drop_bit 18 ch), ucast (0x80 OR (signed_drop_bit 12 ch AND kMask)),
              ucast (0x80 OR (signed_drop_bit 6 ch AND kMask)), ucast (0x80 OR (ch AND kMask))]
      else None)"

definition Utf8_Decode :: "u8 list \<Rightarrow> nat \<Rightarrow> (nat \<times> u32) option" where
  "Utf8_Decode utf8_array array_len = do {
     b \<leftarrow> read_at utf8_array 0;
     let ch = (ucast b AND 0xFF :: u32);
     if ch \<ge> 0x80 then do {
       num_trail_bytes \<leftarrow> read_at kTrailBytes (unat ch);
       r \<leftarrow> trail_loop utf8_array 0 array_len num_trail_bytes 1 False ch;
       case r of
         Truncated \<Rightarrow> Some (0, - 1)
       | Collected i is_malformed ch \<Rightarrow>
           (let ch = ch - kMagicBits ! num_trail_bytes in
            Some (if bad_sequence num_trail_bytes i is_malformed ch then (0, - 1) else (i, ch))) }
     else Some (1, ch) }"

lemma trail_loop_Collected_ge:
  "trail_loop a i n m j mal ch = Some (Collected j' mal' ch') \<Longrightarrow> j \<le> j'"
  by (induction a i n m j mal ch rule: trail_loop.induct)
    (subst (asm) (2) trail_loop.simps, force split: if_splits bind_splits)

lemma IsValid_step_gt: "IsValid_step a n i = Some (Some i') \<Longrightarrow> i < i'"
  by (auto simp: IsValid_step_def Let_def split: if_splits bind_splits trail_result.splits
      dest!: trail_loop_Collected_ge)

lemma Utf8_Decode_pos: "Utf8_Decode a n = Some (k, ch) \<Longrightarrow> ch \<noteq> - 1 \<Longrightarrow> 0 < k"
  by (auto simp: Utf8_Decode_def Let_def split: if_splits bind_splits trail_result.splits
      dest!: trail_loop_Collected_ge)

function IsValid_loop :: "u8 list \<Rightarrow> nat \<Rightarrow> nat \<Rightarrow> bool option" where
  "IsValid_loop utf8_array array_len i =
     (if i < array_len then
        (case IsValid_step utf8_array array_len i of
           None \<Rightarrow> None
         | Some None \<Rightarrow> Some False
         | Some (Some i') \<Rightarrow> IsValid_loop utf8_array array_len i')
      else Some True)"
  by pat_completeness auto
termination by (relation "measure (\<lambda>(_, n, i). n - i)") (auto dest: IsValid_step_gt)

declare IsValid_loop.simps [simp del]

definition IsValid :: "u8 list \<Rightarrow> nat \<Rightarrow> bool option" where
  "IsValid utf8_array array_len = IsValid_loop utf8_array array_len 0"

text \<open>\<open>ReportInvalidByte\<close> returns the index of the offending byte; its messages are not modelled.\<close>

function ReportInvalidByte_loop :: "u8 list \<Rightarrow> nat \<Rightarrow> nat \<Rightarrow> nat \<Rightarrow> nat \<Rightarrow> nat option" where
  "ReportInvalidByte_loop utf8_array array_len len i j =
     (if i < array_len \<and> j < len then do {
        b \<leftarrow> read_at utf8_array i;
        let is_supplementary = IsSupplementarySequenceStart b;
        (num_bytes, ch) \<leftarrow> Utf8_Decode (drop i utf8_array) (array_len - i);
        if ch = - 1 then Some i
        else ReportInvalidByte_loop utf8_array array_len len (i + num_bytes)
               ((if is_supplementary then j + 1 else j) + 1) }
      else Some i)"
  by pat_completeness auto
termination by (relation "measure (\<lambda>(_, n, _, i, _). n - i)") (auto dest: Utf8_Decode_pos)

definition ReportInvalidByte :: "u8 list \<Rightarrow> nat \<Rightarrow> nat \<Rightarrow> nat option" where
  "ReportInvalidByte utf8_array array_len len = ReportInvalidByte_loop utf8_array array_len len 0 0"

text \<open>The decoders return their verdict and the destination array as they leave it.\<close>

function DecodeToLatin1_loop ::
    "u8 list \<Rightarrow> nat \<Rightarrow> u8 list \<Rightarrow> nat \<Rightarrow> nat \<Rightarrow> nat \<Rightarrow> (bool \<times> u8 list) option" where
  "DecodeToLatin1_loop utf8_array array_len dst len i j =
     (if i < array_len \<and> j < len then do {
        b \<leftarrow> read_at utf8_array i;
        if \<not> IsLatin1SequenceStart b then None else do {
          (num_bytes, ch) \<leftarrow> Utf8_Decode (drop i utf8_array) (array_len - i);
          if ch = - 1 then Some (False, dst)
          else if \<not> IsLatin1 ch then None
          else do {
            dst \<leftarrow> write_at dst j (ucast ch);
            DecodeToLatin1_loop utf8_array array_len dst len (i + num_bytes) (j + 1) } } }
      else if i < array_len \<and> j = len then Some (False, dst)
      else Some (True, dst))"
  by pat_completeness auto
termination by (relation "measure (\<lambda>(_, n, _, _, i, _). n - i)") (auto dest: Utf8_Decode_pos)

definition DecodeToLatin1 :: "u8 list \<Rightarrow> nat \<Rightarrow> u8 list \<Rightarrow> nat \<Rightarrow> (bool \<times> u8 list) option" where
  "DecodeToLatin1 utf8_array array_len dst len = DecodeToLatin1_loop utf8_array array_len dst len 0 0"

function DecodeToUTF16_loop ::
    "u8 list \<Rightarrow> nat \<Rightarrow> u16 list \<Rightarrow> nat \<Rightarrow> nat \<Rightarrow> nat \<Rightarrow> (bool \<times> u16 list) option" where
  "DecodeToUTF16_loop utf8_array array_len dst len i j =
     (if i < array_len \<and> j < len then do {
        b \<leftarrow> read_at utf8_array i;
        let is_supplementary = IsSupplementarySequenceStart b;
        (num_bytes, ch) \<leftarrow> Utf8_Decode (drop i utf8_array) (array_len - i);
        if ch = - 1 then Some (False, dst)
        else if is_supplementary then
          if int j = int len - 1 then Some (False, dst)
          else do {
            dst \<leftarrow> Utf16_Encode ch dst j;
            DecodeToUTF16_loop utf8_array array_len dst len (i + num_bytes) (j + 1 + 1) }
        else do {
          dst \<leftarrow> write_at dst j (ucast ch);
          DecodeToUTF16_loop utf8_array array_len dst len (i + num_bytes) (j + 1) } }
      else if i < array_len \<and> j = len then Some (False, dst)
      else Some (True, dst))"
  by pat_completeness auto
termination by (relation "measure (\<lambda>(_, n, _, _, i, _). n - i)") (auto dest: Utf8_Decode_pos)

definition DecodeToUTF16 :: "u8 list \<Rightarrow> nat \<Rightarrow> u16 list \<Rightarrow> nat \<Rightarrow> (bool \<times> u16 list) option" where
  "DecodeToUTF16 utf8_array array_len dst len = DecodeToUTF16_loop utf8_array array_len dst len 0 0"

function DecodeToUTF32_loop ::
    "u8 list \<Rightarrow> nat \<Rightarrow> u32 list \<Rightarrow> nat \<Rightarrow> nat \<Rightarrow> nat \<Rightarrow> (bool \<times> u32 list) option" where
  "DecodeToUTF32_loop utf8_array array_len dst len i j =
     (if i < array_len \<and> j < len then do {
        (num_bytes, ch) \<leftarrow> Utf8_Decode (drop i utf8_array) (array_len - i);
        if ch = - 1 then Some (False, dst)
        else do {
          dst \<leftarrow> write_at dst j ch;
          DecodeToUTF32_loop utf8_array array_len dst len (i + num_bytes) (j + 1) } }
      else if i < array_len \<and> j = len then Some (False, dst)
      else Some (True, dst))"
  by pat_completeness auto
termination by (relation "measure (\<lambda>(_, n, _, _, i, _). n - i)") (auto dest: Utf8_Decode_pos)

definition DecodeToUTF32 :: "u8 list \<Rightarrow> nat \<Rightarrow> u32 list \<Rightarrow> nat \<Rightarrow> (bool \<times> u32 list) option" where
  "DecodeToUTF32 utf8_array array_len dst len = DecodeToUTF32_loop utf8_array array_len dst len 0 0"

text \<open>\<open>strlen\<close>: the bytes before the first NUL; \<open>None\<close> when there is none in the array.\<close>

primrec c_strlen :: "u8 list \<Rightarrow> nat option" where
  "c_strlen [] = None"
| "c_strlen (c # cs) = (if c = 0 then Some 0 else map_option Suc (c_strlen cs))"

definition DecodeCStringToUTF32 :: "u8 list \<Rightarrow> u32 list \<Rightarrow> nat \<Rightarrow> (bool \<times> u32 list) option" where
  "DecodeCStringToUTF32 str dst len = do {
     array_len \<leftarrow> c_strlen str;
     DecodeToUTF32 str array_len dst len }"

declare ReportInvalidByte_loop.simps [simp del] DecodeToLatin1_loop.simps [simp del]
  DecodeToUTF16_loop.simps [simp del] DecodeToUTF32_loop.simps [simp del]

section \<open>A reference for UTF-8\<close>

text \<open>The bit patterns of the Unicode standard, on natural numbers.\<close>

definition utf8 :: "nat \<Rightarrow> nat list" where
  "utf8 c =
     (if c < 0x80 then [c]
      else if c < 0x800 then [192 + c div 64, 128 + c mod 64]
      else if c < 0x10000 then [224 + c div 4096, 128 + c div 64 mod 64, 128 + c mod 64]
      else [240 + c div 262144, 128 + c div 4096 mod 64, 128 + c div 64 mod 64, 128 + c mod 64])"

definition code_point :: "u32 \<Rightarrow> bool" where
  "code_point ch \<longleftrightarrow> unat ch \<le> 0x10FFFF"

lemma unat_ucast [word_nat]: "unat (ucast (x :: 'a::len word) :: 'b::len word) = unat x mod 2 ^ LENGTH('b)"
  by (simp add: unsigned_ucast_eq take_bit_eq_mod)

lemma uint_numeral [simp]:
  fixes x :: "'a::len word"
  shows "uint x \<le> numeral k \<longleftrightarrow> unat x \<le> numeral k"
    and "numeral k < uint x \<longleftrightarrow> numeral k < unat x"
  using of_nat_le_iff [of "unat x" "numeral k", where ?'a = int]
    of_nat_less_iff [of "numeral k" "unat x", where ?'a = int] by simp_all

lemma sint_small: "unat ch < 2 ^ 31 \<Longrightarrow> sint ch = int (unat ch)" for ch :: u32
  using bit_imp_exp_le [of ch 31] by (auto simp: sint_unat)

lemma sint_code_point [simp]: "code_point ch \<Longrightarrow> sint ch = int (unat ch)"
  by (rule sint_small) (simp add: code_point_def)

lemma sint_cases: "sint ch = int (unat ch) \<or> sint ch < 0 \<and> 2 ^ 31 \<le> unat ch" for ch :: u32
proof (cases "bit ch 31")
  case True
  then show ?thesis using bit_imp_exp_le [OF True] sint_neg_iff [of ch] by simp
qed (simp add: sint_unat)

lemma IsOutOfRange_iff: "IsOutOfRange ch \<longleftrightarrow> \<not> code_point ch"
  using sint_cases [of ch] by (auto simp: IsOutOfRange_def code_point_def kMaxCodePoint_def)

lemma IsLatin1_iff: "IsLatin1 ch \<longleftrightarrow> unat ch \<le> 0xFF"
  using sint_cases [of ch] by (auto simp: IsLatin1_def)

lemma IsSupplementary_iff: "IsSupplementary ch \<longleftrightarrow> 0xFFFF < unat ch \<and> code_point ch"
  using sint_cases [of ch] by (auto simp: IsSupplementary_def code_point_def kMaxCodePoint_def)

lemma signed_drop_bit_nonneg:
  assumes "unat ch < 2 ^ 31"
  shows "signed_drop_bit k ch = drop_bit k (ch :: u32)"
proof -
  have "\<not> bit ch 31" using bit_imp_exp_le [of ch 31] assms by auto
  then show ?thesis
    by (intro bit_word_eqI) (auto simp: bit_simps min_def dest: bit_imp_le_length)
qed

lemma lt_8_cases: "n < (8::nat) \<longleftrightarrow> n = 0 \<or> n = 1 \<or> n = 2 \<or> n = 3 \<or> n = 4 \<or> n = 5 \<or> n = 6 \<or> n = 7"
  by auto

lemma trail_byte:
  "unat (ucast ((0x80::u32) OR (x AND kMask)) :: u8) = 128 + unat x mod 64"
proof -
  have "(ucast ((0x80::u32) OR (x AND kMask)) :: u8) = 0x80 + (ucast x AND mask 6)"
  proof (subst disjunctive_add_eq_or)
    show "(0x80::u8) AND (ucast x AND mask 6) = 0"
      by (rule bit_word_eqI) (auto simp: bit_simps lt_8_cases)
    show "(ucast ((0x80::u32) OR (x AND kMask)) :: u8) = 0x80 OR (ucast x AND mask 6)"
      by (rule bit_word_eqI) (auto simp: bit_simps lt_8_cases kMask_def)
  qed
  moreover have "unat (ucast x AND mask 6 :: u8) = unat x mod 64"
    by (simp add: unat_and_mask unat_ucast mod_mod_cancel)
  ultimately show ?thesis by (simp add: unat_word_ariths)
qed

lemma lead_byte:
  assumes "unat x < 2 ^ k" "k \<le> 5" "unat b < 256" "unat b mod 2 ^ k = 0"
  shows "unat (ucast (b OR x) :: u8) = unat b + unat (x :: u32)"
proof -
  have "\<not> bit x n" if "bit b n" for n
  proof
    assume "bit x n"
    then have "2 ^ n < (2::nat) ^ k" using bit_imp_exp_le [of x n] assms(1) by linarith
    then have "n < k" by simp
    then have "\<not> bit (take_bit k (unat b)) n" using assms(4) by (simp add: take_bit_eq_mod)
    then show False using that \<open>n < k\<close> by (simp add: bit_simps bit_unat_iff)
  qed
  then have "b AND x = 0" by (intro bit_word_eqI) (auto simp: bit_simps)
  then have e: "b OR x = b + x" by (rule disjunctive_add_eq_or [symmetric])
  have "unat b + unat x < 256"
  proof -
    have "unat b = 2 ^ k * (unat b div 2 ^ k)" using assms(4) by (metis mult_div_mod_eq add.right_neutral)
    moreover have "(256::nat) = 2 ^ k * 2 ^ (8 - k)" using assms(2) by (simp flip: power_add)
    ultimately have "unat b div 2 ^ k < 2 ^ (8 - k)" using assms(3) by (metis mult_less_cancel1)
    then have "2 ^ k * (unat b div 2 ^ k + 1) \<le> (256::nat)"
      using \<open>256 = _\<close> by (metis Suc_eq_plus1 Suc_leI mult_le_mono2)
    then show ?thesis using \<open>unat b = _\<close> assms(1) by (simp add: algebra_simps)
  qed
  then show ?thesis by (simp add: e unat_ucast unat_word_ariths)
qed

lemmas utf8_consts = kMaxOneByteChar_def kMaxTwoByteChar_def kMaxThreeByteChar_def kMaxFourByteChar_def
  kMaxCodePoint_def

lemma Utf8_Encode_spec:
  assumes "code_point ch"
  obtains bs where "Utf8_Encode ch = Some bs" "map unat bs = utf8 (unat ch)"
proof
  have small: "unat ch < 2 ^ 31" using assms by (simp add: code_point_def)
  define bs where "bs = the (Utf8_Encode ch)"
  show "Utf8_Encode ch = Some bs"
    using assms by (simp add: bs_def Utf8_Encode_def utf8_consts code_point_def)
  have t: "unat ((0x80::u32) OR x AND kMask) mod 256 = 128 + unat x mod 64" for x
    using trail_byte [of x] by (simp add: unat_ucast)
  have d: "unat (signed_drop_bit k ch) = unat ch div 2 ^ k" for k
    by (simp only: signed_drop_bit_nonneg [OF small] unat_drop_div)
  show "map unat bs = utf8 (unat ch)"
    using assms lead_byte [of "signed_drop_bit 6 ch" 5 "0xC0"]
      lead_byte [of "signed_drop_bit 12 ch" 4 "0xE0"] lead_byte [of "signed_drop_bit 18 ch" 3 "0xF0"]
    by (simp add: bs_def Utf8_Encode_def utf8_consts code_point_def utf8_def t d unat_ucast)
qed

lemma Utf8_Length_spec:
  "code_point ch \<Longrightarrow> Utf8_Length ch = Some (length (utf8 (unat ch)))"
  by (simp add: Utf8_Length_def utf8_consts utf8_def code_point_def)

section \<open>Decoding one sequence\<close>

definition sequence_length :: "nat \<Rightarrow> nat" where
  "sequence_length b =
     (if b < 128 then 1 else if b < 192 then 0 else if b < 224 then 2 else if b < 240 then 3
      else if b < 248 then 4 else if b < 252 then 5 else if b < 254 then 6 else 0)"

lemma kTrailBytes_eq: "kTrailBytes = map sequence_length [0..<256]"
  by code_simp

lemma read_kTrailBytes [simp]: "read_at kTrailBytes (unat b) = Some (sequence_length (unat b))" for b :: u8
  using unsigned_less [of b, where ?'a = nat] by (simp add: read_at_def kTrailBytes_eq)

lemma div_64_eq_2: "x div 64 = 2 \<longleftrightarrow> 128 \<le> x \<and> x < 192" for x :: nat
  using div_mult_mod_eq [of x 64] mod_less_divisor [of 64 x] by (auto intro: div_nat_eqI)

lemma IsTrailByte_iff: "IsTrailByte b \<longleftrightarrow> 128 \<le> unat b \<and> unat b < 192"
proof -
  have e: "b AND 0xC0 = b AND NOT (mask 6)"
    by (rule bit_word_eqI) (auto simp: bit_simps lt_8_cases)
  have "IsTrailByte b \<longleftrightarrow> unat (b AND NOT (mask 6)) = 128"
    by (simp add: IsTrailByte_def e word_unat_eq_iff)
  also have "\<dots> \<longleftrightarrow> unat b div 64 = 2" by (simp add: unat_and_not_mask)
  also have "\<dots> \<longleftrightarrow> 128 \<le> unat b \<and> unat b < 192" by (rule div_64_eq_2)
  finally show ?thesis .
qed

definition collect :: "u32 \<Rightarrow> u8 list \<Rightarrow> u32" where
  "collect = foldl (\<lambda>ch code_unit. push_bit 6 ch + ucast code_unit)"

lemma trail_loop_eq:
  assumes "j \<le> m"
  shows "trail_loop a i (length a) m j mal ch =
    Some (if i + m \<le> length a \<or> j = m
          then Collected m (mal \<or> list_ex (\<lambda>b. \<not> IsTrailByte b) (take (m - j) (drop (i + j) a)))
                 (collect ch (take (m - j) (drop (i + j) a)))
          else Truncated)"
  using assms
proof (induction "m - j" arbitrary: j mal ch)
  case 0
  then show ?case by (subst trail_loop.simps) (simp add: collect_def)
next
  case (Suc n)
  then have IH: "trail_loop a i (length a) m (Suc j) mal ch =
    Some (if i + m \<le> length a \<or> Suc j = m
          then Collected m (mal \<or> list_ex (\<lambda>b. \<not> IsTrailByte b) (take (m - Suc j) (drop (i + Suc j) a)))
                 (collect ch (take (m - Suc j) (drop (i + Suc j) a)))
          else Truncated)" for mal ch by simp
  have s: "m - j = Suc (m - Suc j)" using Suc.hyps(2) by simp
  show ?case
  proof (cases "i + j < length a")
    case True
    then have d: "drop (i + j) a = a ! (i + j) # drop (Suc (i + j)) a" by (simp add: Cons_nth_drop_Suc)
    show ?thesis
      using True Suc.prems s by (subst trail_loop.simps) (auto simp: read_at_def IH d collect_def)
  next
    case False
    then show ?thesis using Suc.prems s by (subst trail_loop.simps) auto
  qed
qed

lemma mask_FF [simp]: "(ucast (b :: u8) :: u32) AND 0xFF = ucast b"
proof -
  have "(ucast b :: u32) AND mask 8 = ucast b"
    by (rule bit_word_eqI) (auto simp: bit_simps dest: bit_imp_le_length)
  then show ?thesis by (simp add: mask_eq_exp_minus_1)
qed

lemma ucast_ge_80 [simp]: "(0x80 :: u32) \<le> ucast (b :: u8) \<longleftrightarrow> 128 \<le> unat b"
  using unsigned_less [of b, where ?'a = nat] by (simp add: word_le_nat_alt unat_ucast)

lemma unat_ucast_32 [simp]: "unat (ucast (b :: u8) :: u32) = unat b"
  using unsigned_less [of b, where ?'a = nat] by (simp add: unat_ucast)

lemma sequence_length_le: "sequence_length b \<le> 6"
  by (simp add: sequence_length_def)

definition sequence_value :: "u8 list \<Rightarrow> nat \<Rightarrow> u32" where
  "sequence_value a m = collect (ucast (a ! 0)) (take (m - 1) (drop 1 a)) - kMagicBits ! m"

lemma Utf8_Decode_multi:
  assumes "a \<noteq> []" "128 \<le> unat (a ! 0)"
  defines "m \<equiv> sequence_length (unat (a ! 0))"
  shows "Utf8_Decode a (length a) =
    Some (if 2 \<le> m \<and> m \<le> length a \<and> list_all IsTrailByte (take (m - 1) (drop 1 a)) \<and>
             code_point (sequence_value a m) \<and> kOverlongMinimum ! m \<le> sequence_value a m
          then (m, sequence_value a m) else (0, - 1))"
proof (cases "2 \<le> m")
  case True
  have "trail_loop a 0 (length a) m 1 False (ucast (a ! 0)) =
    Some (if m \<le> length a
          then Collected m (list_ex (\<lambda>b. \<not> IsTrailByte b) (take (m - 1) (drop 1 a)))
                 (collect (ucast (a ! 0)) (take (m - 1) (drop 1 a)))
          else Truncated)"
    using True trail_loop_eq [of 1 m a 0] by simp
  then show ?thesis
    using assms(1,2) True
    by (auto simp: Utf8_Decode_def Let_def read_at_def [of a] m_def [symmetric] bad_sequence_def
        IsOutOfRange_iff IsNonShortestForm_def sequence_value_def list_ex_iff list_all_iff not_less)
next
  case False
  then have "m = 0" using assms(2) by (auto simp: m_def sequence_length_def split: if_splits)
  then show ?thesis
    using assms(1,2)
    by (auto simp: Utf8_Decode_def Let_def read_at_def [of a] m_def [symmetric] bad_sequence_def
        trail_loop.simps [of a 0 "length a" 0])
qed

lemma Utf8_Decode_single:
  "a \<noteq> [] \<Longrightarrow> unat (a ! 0) < 128 \<Longrightarrow> Utf8_Decode a (length a) = Some (1, ucast (a ! 0))"
  by (auto simp: Utf8_Decode_def Let_def read_at_def)

lemma collect_of_nat:
  "collect (of_nat c) bs = of_nat (foldl (\<lambda>c b. 64 * c + unat b) c bs)"
proof (induction bs arbitrary: c)
  case (Cons b bs)
  show ?case
    using Cons.IH [of "64 * c + unat b"] by (simp add: collect_def push_bit_eq_mult mult.commute [of _ 64])
qed (simp add: collect_def)

lemma unat_of_nat_u32: "n < 2 ^ 32 \<Longrightarrow> unat (of_nat n :: u32) = n"
  by (simp add: unat_of_nat)

lemma utf8_2: "y < 64 \<Longrightarrow> 0x80 \<le> 64 * x + y \<Longrightarrow> x < 32 \<Longrightarrow> utf8 (64 * x + y) = [192 + x, 128 + y]"
  by (simp add: utf8_def)

lemma div_mod_64: "c = 64 * q + r \<Longrightarrow> r < 64 \<Longrightarrow> c div 64 = q" "c = 64 * q + r \<Longrightarrow> r < 64 \<Longrightarrow> c mod 64 = r"
  for c :: nat by simp_all

lemma utf8_3:
  assumes "y < 64" "z < 64" "x < 16" "p = 64 * x + y" "c = 64 * p + z" "0x800 \<le> c"
  shows "utf8 c = [224 + x, 128 + y, 128 + z]"
proof -
  note c = div_mod_64 [OF assms(5,2)] and p = div_mod_64 [OF assms(4,1)]
  have "c < 65536" using assms by simp
  moreover
  have "c div 4096 = p div 64" by (simp add: div_mult2_eq [symmetric] flip: c(1))
  ultimately show ?thesis using c p assms(6) by (simp add: utf8_def)
qed

lemma utf8_4:
  assumes "y < 64" "z < 64" "w < 64" "p = 64 * x + y" "q = 64 * p + z" "c = 64 * q + w" "0x10000 \<le> c"
  shows "utf8 c = [240 + x, 128 + y, 128 + z, 128 + w]"
proof -
  note c = div_mod_64 [OF assms(6,3)] and q = div_mod_64 [OF assms(5,2)] and p = div_mod_64 [OF assms(4,1)]
  have "c div 4096 = q div 64" "c div 262144 = q div 64 div 64"
    by (simp_all add: div_mult2_eq [symmetric] flip: c(1))
  then show ?thesis using c q p assms(7) by (simp add: utf8_def)
qed

lemma sequence_bytes:
  assumes "list_all IsTrailByte bs"
  obtains ys where "length ys = length bs" "list_all (\<lambda>y. y < 64) ys" "map unat bs = map (\<lambda>y. 128 + y) ys"
proof
  show "length (map (\<lambda>b. unat b - 128) bs) = length bs" by simp
  show "list_all (\<lambda>y. y < 64) (map (\<lambda>b. unat b - 128) bs)"
    using assms by (auto simp: list_all_iff IsTrailByte_iff)
  show "map unat bs = map (\<lambda>y. 128 + y) (map (\<lambda>b. unat b - 128) bs)"
    using assms by (auto simp: list_all_iff IsTrailByte_iff)
qed

lemma length_list_4:
  "length xs = Suc 0 \<longleftrightarrow> (\<exists>a. xs = [a])"
  "length xs = 2 \<longleftrightarrow> (\<exists>a b. xs = [a, b])"
  "length xs = 3 \<longleftrightarrow> (\<exists>a b c. xs = [a, b, c])"
  by (auto simp: length_Suc_conv numeral_2_eq_2 numeral_3_eq_3)

lemma sequence_value_utf8:
  assumes "b # bs = take m a" "length bs = m - 1" "2 \<le> m" "m \<le> 4" "list_all IsTrailByte bs"
    and m: "sequence_length (unat b) = m" and min: "kOverlongMinimum ! m \<le> sequence_value a m"
  shows "map unat (b # bs) = utf8 (unat (sequence_value a m))"
proof -
  obtain ys where ys: "length ys = length bs" "list_all (\<lambda>y. y < 64) ys"
    "map unat bs = map (\<lambda>y. 128 + y) ys" using assms(5) by (rule sequence_bytes)
  have a: "a ! 0 = b" "take (m - 1) (drop 1 a) = bs"
    using assms(1,3) by (cases a; cases m; auto)+
  have "foldl (\<lambda>c b. 64 * c + unat b) (unat b) bs = foldl (\<lambda>c n. 64 * c + n) (unat b) (map unat bs)"
    by (simp add: foldl_map)
  then have v: "sequence_value a m =
      of_nat (foldl (\<lambda>c n. 64 * c + n) (unat b) (map (\<lambda>y. 128 + y) ys)) - kMagicBits ! m"
    using collect_of_nat [of "unat b" bs] by (simp only: sequence_value_def a ys(3)) simp
  have value_eq: ?thesis
    if "foldl (\<lambda>c n. 64 * c + n) (unat b) (map (\<lambda>y. 128 + y) ys) = c + k" "kMagicBits ! m = of_nat k"
      "c < 2 ^ 32" "unat (kOverlongMinimum ! m) \<le> c \<Longrightarrow> utf8 c = unat b # map (\<lambda>y. 128 + y) ys" for c k
  proof -
    have "sequence_value a m = of_nat c" by (simp only: v that(1,2) of_nat_add add_diff_cancel_right')
    then have "unat (sequence_value a m) = c" using that(3) by (simp only: unat_of_nat_u32)
    then show ?thesis using that(4) min ys(3) by (simp add: word_le_nat_alt)
  qed
  consider "m = 2" | "m = 3" | "m = 4" using assms(3,4) by linarith
  then show ?thesis
  proof cases
    case 1
    obtain y where y: "ys = [y]" "y < 64" using 1 ys(1,2) assms(2) by (auto simp: length_list_4)
    obtain x where x: "unat b = 192 + x" "x < 32"
      using m 1 by (auto simp: sequence_length_def split: if_splits intro!: that [of "unat b - 192"])
    show ?thesis
      using x y utf8_2 [of y x]
      by (intro value_eq [of "64 * x + y" "0x3080"]) (simp_all add: 1 kMagicBits_def kOverlongMinimum_def)
  next
    case 2
    obtain y z where y: "ys = [y, z]" "y < 64" "z < 64"
      using 2 ys(1,2) assms(2) by (auto simp: length_list_4)
    obtain x where x: "unat b = 224 + x" "x < 16"
      using m 2 by (auto simp: sequence_length_def split: if_splits intro!: that [of "unat b - 224"])
    show ?thesis
      using x y utf8_3 [of y z x "64 * x + y"]
      by (intro value_eq [of "64 * (64 * x + y) + z" "0xE2080"])
        (simp_all add: 2 kMagicBits_def kOverlongMinimum_def)
  next
    case 3
    obtain y z w where y: "ys = [y, z, w]" "y < 64" "z < 64" "w < 64"
      using 3 ys(1,2) assms(2) by (auto simp: length_list_4)
    obtain x where x: "unat b = 240 + x" "x < 8"
      using m 3 by (auto simp: sequence_length_def split: if_splits intro!: that [of "unat b - 240"])
    show ?thesis
      using x y utf8_4 [of y z w "64 * x + y" x "64 * (64 * x + y) + z"]
      by (intro value_eq [of "64 * (64 * (64 * x + y) + z) + w" "0x3C82080"])
        (simp_all add: 3 kMagicBits_def kOverlongMinimum_def)
  qed
qed

lemma not_code_point_m1 [simp]: "\<not> code_point (- 1)"
  by (simp add: code_point_def unsigned_minus_1_eq_mask mask_eq_exp_minus_1)

lemma Utf8_Decode_sound:
  assumes "Utf8_Decode a (length a) = Some (k, ch)" "ch \<noteq> - 1"
  shows "code_point ch \<and> map unat (take k a) = utf8 (unat ch) \<and> k \<le> length a"
proof -
  have ne: "a \<noteq> []" using assms(1) by (auto simp: Utf8_Decode_def read_at_def)
  show ?thesis
  proof (cases "unat (a ! 0) < 128")
    case True
    then have "k = 1" "ch = ucast (a ! 0)" using Utf8_Decode_single [OF ne True] assms(1) by simp_all
    then show ?thesis using ne True by (cases a) (simp_all add: code_point_def utf8_def)
  next
    case False
    define m where "m = sequence_length (unat (a ! 0))"
    have r: "2 \<le> m" "m \<le> length a" "list_all IsTrailByte (take (m - 1) (drop 1 a))" "code_point ch"
      "kOverlongMinimum ! m \<le> ch" "k = m" "ch = sequence_value a m"
      using assms Utf8_Decode_multi [OF ne] False by (auto simp: m_def split: if_splits)
    have "m \<le> 4"
    proof (rule ccontr)
      assume "\<not> m \<le> 4"
      then have "m = 5 \<or> m = 6" using sequence_length_le [of "unat (a ! 0)"] m_def by auto
      then have "unat ch = 0xFFFFFFFF"
        using r(5) unsigned_less [of ch, where ?'a = nat] by (auto simp: kOverlongMinimum_def word_le_nat_alt)
      then show False using r(4) by (simp add: code_point_def)
    qed
    moreover have t: "take m a = a ! 0 # take (m - 1) (drop 1 a)"
      using ne r(1) by (cases a; cases m) auto
    ultimately have "map unat (a ! 0 # take (m - 1) (drop 1 a)) = utf8 (unat ch)"
      using r by (simp only:) (rule sequence_value_utf8, auto simp: m_def)
    then show ?thesis using r t by simp
  qed
qed

lemma utf8_fold:
  assumes "2 \<le> length (utf8 c)"
  shows "foldl (\<lambda>c n. 64 * c + n) (hd (utf8 c)) (tl (utf8 c)) = c + unat (kMagicBits ! length (utf8 c))"
proof -
  have "c = 64 * (c div 64) + c mod 64" "c div 64 = 64 * (c div 4096) + c div 64 mod 64"
    "c div 4096 = 64 * (c div 262144) + c div 4096 mod 64"
    using div_mult2_eq [of c 64 64] div_mult2_eq [of c 4096 64] by simp_all
  then show ?thesis using assms by (auto simp: utf8_def kMagicBits_def)
qed

lemma utf8_shape:
  assumes "c \<le> 0x10FFFF"
  shows "sequence_length (hd (utf8 c)) = length (utf8 c)" "list_all (\<lambda>b. 128 \<le> b \<and> b < 192) (tl (utf8 c))"
    "utf8 c \<noteq> []" "128 \<le> hd (utf8 c) \<longleftrightarrow> 2 \<le> length (utf8 c)"
    "unat (kOverlongMinimum ! length (utf8 c)) \<le> c" "length (utf8 c) = 1 \<Longrightarrow> utf8 c = [c]"
    "0xF0 \<le> hd (utf8 c) \<longleftrightarrow> 0xFFFF < c" "hd (utf8 c) \<le> 0xC3 \<longleftrightarrow> c \<le> 0xFF"
  using assms by (auto simp: utf8_def sequence_length_def kOverlongMinimum_def split: if_splits)

lemma Utf8_Decode_complete:
  assumes "code_point ch" "map unat bs = utf8 (unat ch)"
  shows "Utf8_Decode (bs @ rest) (length (bs @ rest)) = Some (length bs, ch)"
proof -
  define c where "c = unat ch"
  have c: "c \<le> 0x10FFFF" using assms(1) by (simp add: c_def code_point_def)
  note shape = utf8_shape [OF c]
  obtain b t where bs: "bs = b # t" using assms(2) shape(3) by (cases bs) (simp_all add: c_def)
  have m1: "utf8 c = unat b # map unat t" using assms(2) by (simp add: bs c_def)
  then have m: "utf8 c = unat b # map unat t" "length (utf8 c) = length bs" by (simp_all add: bs)
  show ?thesis
  proof (cases "t = []")
    case True
    then have "unat b = c" "unat b < 128" using m shape(4,6) by (simp_all add: bs)
    then show ?thesis
      using True by (simp add: bs Utf8_Decode_single [of "b # rest", simplified] word_unat_eq_iff c_def)
  next
    case False
    then have two: "2 \<le> length (utf8 c)" using m by (cases t) (simp_all add: bs)
    have "collect (ucast b) t = of_nat (foldl (\<lambda>c n. 64 * c + n) (hd (utf8 c)) (tl (utf8 c)))"
      using collect_of_nat [of "unat b" t] by (simp add: m foldl_map)
    then have v: "sequence_value (bs @ rest) (length bs) = ch"
      using utf8_fold [OF two] m(2) by (simp add: sequence_value_def bs c_def)
    have "sequence_length (unat ((bs @ rest) ! 0)) = length bs" "128 \<le> unat ((bs @ rest) ! 0)"
      using shape(1,4) m two by (simp_all add: bs)
    then show ?thesis
      using Utf8_Decode_multi [of "bs @ rest"] v two shape(2,5) assms(1) m
      by (simp add: bs list_all_iff IsTrailByte_iff word_le_nat_alt c_def)
  qed
qed

lemma utf8_inj: "utf8 c = utf8 d \<Longrightarrow> c \<le> 0x10FFFF \<Longrightarrow> d \<le> 0x10FFFF \<Longrightarrow> c = d"
  using utf8_fold [of c] utf8_fold [of d] utf8_shape(3,6) [of c] utf8_shape(3,6) [of d]
  by (cases "2 \<le> length (utf8 c)") (auto simp: not_le less_2_cases_iff)

lemma Utf8_Decode_total:
  assumes "a \<noteq> []"
  shows "\<exists>k ch. Utf8_Decode a (length a) = Some (k, ch) \<and> (ch = - 1 \<longrightarrow> k = 0)"
proof (cases "unat (a ! 0) < 128")
  case True
  then have "code_point (ucast (a ! 0))" by (simp add: code_point_def)
  then have "ucast (a ! 0) \<noteq> (- 1 :: u32)" using not_code_point_m1 by metis
  then show ?thesis using Utf8_Decode_single [OF assms True] by simp
next
  case False
  then show ?thesis using Utf8_Decode_multi [OF assms] by auto
qed

section \<open>Decoding a whole array\<close>

text \<open>\<open>encodes a cps\<close>: the array \<open>a\<close> is the UTF-8 form of the code points \<open>cps\<close>.\<close>

definition encodes :: "u8 list \<Rightarrow> u32 list \<Rightarrow> bool" where
  "encodes a cps \<longleftrightarrow> list_all code_point cps \<and> map unat a = concat (map (\<lambda>ch. utf8 (unat ch)) cps)"

function decode_all :: "u8 list \<Rightarrow> u32 list option" where
  "decode_all a =
     (if a = [] then Some [] else do {
        (k, ch) \<leftarrow> Utf8_Decode a (length a);
        if ch = - 1 then None else map_option ((#) ch) (decode_all (drop k a)) })"
  by pat_completeness auto
termination by (relation "measure length") (auto dest: Utf8_Decode_pos)

declare decode_all.simps [simp del]

lemma decode_all_Nil [simp]: "decode_all [] = Some []"
  by (simp add: decode_all.simps)

lemma decode_all_encodes: "decode_all a = Some cps \<Longrightarrow> encodes a cps"
proof (induction a arbitrary: cps rule: decode_all.induct)
  case (1 a)
  show ?case
  proof (cases "a = []")
    case True
    then show ?thesis using 1(2) by (simp add: encodes_def)
  next
    case False
    then obtain k ch where d: "Utf8_Decode a (length a) = Some (k, ch)" using Utf8_Decode_total by blast
    then obtain cps' where c: "ch \<noteq> - 1" "cps = ch # cps'" "decode_all (drop k a) = Some cps'"
      using 1(2) False by (auto simp: decode_all.simps [of a] split: if_splits)
    have "encodes (drop k a) cps'" using 1(1) [OF False d refl c(1) c(3)] .
    moreover have "map unat a = map unat (take k a) @ map unat (drop k a)" by (simp flip: map_append)
    ultimately show ?thesis using Utf8_Decode_sound [OF d c(1)] by (simp add: encodes_def c(2))
  qed
qed

lemma encodes_Cons:
  assumes "encodes a (ch # cps)"
  obtains bs rest where "a = bs @ rest" "map unat bs = utf8 (unat ch)" "encodes rest cps" "code_point ch"
    "Utf8_Decode a (length a) = Some (length bs, ch)" "bs \<noteq> []"
proof -
  have e: "map unat a = utf8 (unat ch) @ concat (map (\<lambda>ch. utf8 (unat ch)) cps)" "code_point ch"
    "list_all code_point cps" using assms by (simp_all add: encodes_def)
  then obtain bs rest where r: "a = bs @ rest" "map unat bs = utf8 (unat ch)"
    "map unat rest = concat (map (\<lambda>ch. utf8 (unat ch)) cps)" by (auto simp: map_eq_append_conv)
  have "bs \<noteq> []" using r(2) utf8_shape(3) [of "unat ch"] e(2) by (auto simp: code_point_def)
  then show ?thesis
    using that [of bs rest] r e(2,3) Utf8_Decode_complete [OF e(2) r(2), of rest] by (simp add: encodes_def)
qed

lemma encodes_decode_all: "encodes a cps \<Longrightarrow> decode_all a = Some cps"
proof (induction cps arbitrary: a)
  case Nil
  then show ?case by (simp add: encodes_def)
next
  case (Cons ch cps)
  from Cons.prems obtain bs rest where r: "a = bs @ rest" "map unat bs = utf8 (unat ch)" "encodes rest cps"
    "code_point ch" "Utf8_Decode a (length a) = Some (length bs, ch)" "bs \<noteq> []" by (rule encodes_Cons)
  have "ch \<noteq> - 1" using r(4) by auto
  then have "decode_all a = map_option ((#) ch) (decode_all (drop (length bs) a))"
    using r(1,5,6) by (simp add: decode_all.simps [of "bs @ rest"])
  then show ?case using Cons.IH [OF r(3)] r(1) by simp
qed

lemma decode_all_iff: "decode_all a = Some cps \<longleftrightarrow> encodes a cps"
  using decode_all_encodes encodes_decode_all by blast

lemma encodes_unique: "encodes a cps \<Longrightarrow> encodes a cps' \<Longrightarrow> cps = cps'"
  by (simp flip: decode_all_iff)

lemma decode_all_step:
  assumes "i < length a"
  obtains k ch where "Utf8_Decode (drop i a) (length a - i) = Some (k, ch)"
    "ch = - 1 \<Longrightarrow> decode_all (drop i a) = None"
    "ch \<noteq> - 1 \<Longrightarrow> decode_all (drop i a) = map_option ((#) ch) (decode_all (drop (i + k) a))"
    "ch \<noteq> - 1 \<Longrightarrow> 0 < k \<and> i + k \<le> length a \<and> code_point ch \<and> map unat (take k (drop i a)) = utf8 (unat ch)"
    "ch = - 1 \<Longrightarrow> k = 0"
proof -
  have ne: "drop i a \<noteq> []" using assms by simp
  then obtain k ch where d: "Utf8_Decode (drop i a) (length (drop i a)) = Some (k, ch)" "ch = - 1 \<longrightarrow> k = 0"
    using Utf8_Decode_total by blast
  show ?thesis
    using d ne Utf8_Decode_sound [OF d(1)] Utf8_Decode_pos [OF d(1)]
    by (intro that [of k ch]) (auto simp: decode_all.simps [of "drop i a"] add.commute)
qed

lemma trail_loop_shift:
  "i \<le> n \<Longrightarrow> trail_loop a i n m j mal ch = trail_loop (drop i a) 0 (n - i) m j mal ch"
proof (induction "m - j" arbitrary: j mal ch)
  case 0
  then show ?case by (simp add: trail_loop.simps [of _ _ _ m j])
next
  case (Suc d)
  have r: "read_at (drop i a) j = read_at a (i + j)" by (auto simp: read_at_def)
  have "trail_loop a i n m (j + 1) mal' ch' = trail_loop (drop i a) 0 (n - i) m (j + 1) mal' ch'" for mal' ch'
    using Suc by simp
  then show ?case by (subst (1 2) trail_loop.simps) (auto simp: r)
qed

lemma IsValid_step_Decode:
  assumes "i < length a" "Utf8_Decode (drop i a) (length a - i) = Some (k, ch)"
  shows "IsValid_step a (length a) i = Some (if ch = - 1 then None else Some (i + k))"
proof -
  have r: "read_at (drop i a) 0 = read_at a i" using assms(1) by (simp add: read_at_def)
  have "\<not> bad_sequence m j mal c \<Longrightarrow> c \<noteq> - 1" for m j mal c
    by (auto simp: bad_sequence_def IsOutOfRange_iff)
  moreover have "code_point (ucast b)" for b :: u8
    using unsigned_less [of b, where ?'a = nat] by (simp add: code_point_def)
  then have "ucast b \<noteq> (- 1 :: u32)" for b :: u8
    using not_code_point_m1 by metis
  ultimately show ?thesis
    using assms
    by (auto simp: IsValid_step_def Utf8_Decode_def Let_def r trail_loop_shift [of i "length a"]
        split: if_splits bind_splits trail_result.splits)
qed

lemma IsValid_loop_decode_all:
  "i \<le> length a \<Longrightarrow> IsValid_loop a (length a) i = Some (decode_all (drop i a) \<noteq> None)"
proof (induction "length a - i" arbitrary: i rule: less_induct)
  case less
  show ?case
  proof (cases "i < length a")
    case True
    obtain k ch where d: "Utf8_Decode (drop i a) (length a - i) = Some (k, ch)"
      "ch = - 1 \<Longrightarrow> decode_all (drop i a) = None"
      "ch \<noteq> - 1 \<Longrightarrow> decode_all (drop i a) = map_option ((#) ch) (decode_all (drop (i + k) a))"
      "ch \<noteq> - 1 \<Longrightarrow> 0 < k \<and> i + k \<le> length a \<and> code_point ch \<and> map unat (take k (drop i a)) = utf8 (unat ch)"
      using True by (rule decode_all_step) blast
    show ?thesis
      using True d less.hyps [of "i + k"] IsValid_step_Decode [OF True d(1)]
      by (cases "ch = - 1") (auto simp: IsValid_loop.simps [of a _ i])
  qed (use less.prems in \<open>simp add: IsValid_loop.simps [of a "length a" "length a"]\<close>)
qed

section \<open>The three decoders\<close>

text \<open>
  \<open>DecodeToLatin1\<close>, \<open>DecodeToUTF16\<close> and \<open>DecodeToUTF32\<close> differ in the units they store for a code
  point and in the lead bytes they accept.  The contract they share:
\<close>

definition outcome :: "(u32 \<Rightarrow> 'a list) \<Rightarrow> u32 list option \<Rightarrow> 'a list \<Rightarrow> nat \<Rightarrow> (bool \<times> 'a list) option \<Rightarrow> bool" where
  "outcome emit cps dst j r \<longleftrightarrow>
     (case cps of
        Some cps \<Rightarrow>
          if j + length (concat (map emit cps)) \<le> length dst then r = Some (True, put dst j (concat (map emit cps)))
          else (\<exists>dst'. r = Some (False, dst') \<and> length dst' = length dst)
      | None \<Rightarrow> \<exists>dst'. r = Some (False, dst') \<and> length dst' = length dst)"

lemma outcome_step:
  assumes d: "cps = map_option ((#) ch) cps'" and room: "j + length (emit ch) \<le> length dst"
    and o: "outcome emit cps' (put dst j (emit ch)) (j + length (emit ch)) r"
  shows "outcome emit cps dst j r"
proof (cases cps')
  case (Some c)
  then show ?thesis
    using o d room put_put [of j "emit ch" "concat (map emit c)" dst]
    by (auto simp: outcome_def add.assoc split: if_splits)
qed (use o d room in \<open>simp add: outcome_def\<close>)

locale utf8_decoder =
  fixes loop :: "u8 list \<Rightarrow> nat \<Rightarrow> 'a list \<Rightarrow> nat \<Rightarrow> nat \<Rightarrow> nat \<Rightarrow> (bool \<times> 'a list) option"
    and emit :: "u32 \<Rightarrow> 'a list"
    and accepts :: "u8 \<Rightarrow> bool"
  assumes stop: "\<not> (i < n \<and> j < len) \<Longrightarrow> loop a n dst len i j = Some (\<not> (i < n \<and> j = len), dst)"
    and invalid: "i < length a \<Longrightarrow> j < len \<Longrightarrow> accepts (a ! i) \<Longrightarrow>
      Utf8_Decode (drop i a) (length a - i) = Some (k, - 1) \<Longrightarrow> loop a (length a) dst len i j = Some (False, dst)"
    and store: "i < length a \<Longrightarrow> accepts (a ! i) \<Longrightarrow> length dst = len \<Longrightarrow>
      Utf8_Decode (drop i a) (length a - i) = Some (k, ch) \<Longrightarrow> ch \<noteq> - 1 \<Longrightarrow> j + length (emit ch) \<le> len \<Longrightarrow>
      loop a (length a) dst len i j = loop a (length a) (put dst j (emit ch)) len (i + k) (j + length (emit ch))"
    and overflow: "i < length a \<Longrightarrow> accepts (a ! i) \<Longrightarrow> length dst = len \<Longrightarrow> j \<le> len \<Longrightarrow>
      Utf8_Decode (drop i a) (length a - i) = Some (k, ch) \<Longrightarrow> ch \<noteq> - 1 \<Longrightarrow> len < j + length (emit ch) \<Longrightarrow>
      loop a (length a) dst len i j = Some (False, dst)"
begin

lemma outcome_full:
  assumes "i < length a" "j = length dst" "accepts (a ! i)" "\<And>ch. emit ch \<noteq> []"
  shows "outcome emit (decode_all (drop i a)) dst j (loop a (length a) dst (length dst) i j)"
proof -
  have s: "loop a (length a) dst (length dst) i j = Some (False, dst)"
    using stop [of i "length a" j "length dst"] assms(1,2) by simp
  show ?thesis
  proof (cases "decode_all (drop i a)")
    case (Some cps)
    then have "cps \<noteq> []" using assms(1) by (auto simp: decode_all_iff encodes_def)
    then have "concat (map emit cps) \<noteq> []" using assms(4) by auto
    then show ?thesis using Some s assms(2) by (simp add: outcome_def)
  qed (use s in \<open>simp add: outcome_def\<close>)
qed

lemma decodes:
  assumes "list_all accepts a" "\<And>ch. emit ch \<noteq> []" "length dst = len" "i \<le> length a" "j \<le> len"
  shows "outcome emit (decode_all (drop i a)) dst j (loop a (length a) dst len i j)"
  using assms(3-)
proof (induction "length a - i" arbitrary: i j dst rule: less_induct)
  case less
  show ?case
  proof (cases "i < length a \<and> j < len")
    case False
    show ?thesis
    proof (cases "i = length a")
      case True
      then show ?thesis using stop [of i "length a" j len] less.prems by (simp add: outcome_def)
    next
      case out: False
      then have "i < length a" "j = length dst" using False less.prems by simp_all
      then show ?thesis
        using outcome_full [of i a j dst] assms(1,2) less.prems(1) by (simp add: list_all_length)
    qed
  next
    case True
    then have acc: "accepts (a ! i)" "i < length a" using assms(1) by (simp_all add: list_all_length)
    obtain k ch where d: "Utf8_Decode (drop i a) (length a - i) = Some (k, ch)"
      "ch = - 1 \<Longrightarrow> decode_all (drop i a) = None"
      "ch \<noteq> - 1 \<Longrightarrow> decode_all (drop i a) = map_option ((#) ch) (decode_all (drop (i + k) a))"
      "ch \<noteq> - 1 \<Longrightarrow> 0 < k \<and> i + k \<le> length a \<and> code_point ch \<and> map unat (take k (drop i a)) = utf8 (unat ch)"
      using acc(2) by (rule decode_all_step) blast
    consider "ch = - 1" | "ch \<noteq> - 1" "len < j + length (emit ch)" | "ch \<noteq> - 1" "j + length (emit ch) \<le> len"
      by linarith
    then show ?thesis
    proof cases
      case 1
      then show ?thesis using d True acc invalid [of i a j len k dst] by (simp add: outcome_def)
    next
      case 2
      then show ?thesis
        using d True acc less.prems overflow [of i a dst len j k ch]
        by (auto simp: outcome_def split: option.splits)
    next
      case 3
      have k: "0 < k" "i + k \<le> length a" using d(4) [OF 3(1)] by simp_all
      have room: "j + length (emit ch) \<le> length dst" using 3(2) less.prems(1) by simp
      have s: "loop a (length a) dst len i j =
          loop a (length a) (put dst j (emit ch)) len (i + k) (j + length (emit ch))"
        using acc(2,1) less.prems(1) d(1) 3 by (rule store)
      have "outcome emit (decode_all (drop (i + k) a)) (put dst j (emit ch)) (j + length (emit ch))
          (loop a (length a) (put dst j (emit ch)) len (i + k) (j + length (emit ch)))"
        using k acc(2) room less.prems(1) 3(2) by (intro less.hyps) simp_all
      then show ?thesis unfolding s by (rule outcome_step [where emit = emit and ch = ch, OF d(3) [OF 3(1)] room])
    qed
  qed
qed

lemma decodes_whole:
  assumes "list_all accepts a" "\<And>ch. emit ch \<noteq> []" "length dst = len"
  shows "encodes a cps \<Longrightarrow> length (concat (map emit cps)) \<le> len \<Longrightarrow>
      loop a (length a) dst len 0 0 = Some (True, put dst 0 (concat (map emit cps)))"
    and "\<not> (\<exists>cps. encodes a cps \<and> length (concat (map emit cps)) \<le> len) \<Longrightarrow>
      \<exists>dst'. loop a (length a) dst len 0 0 = Some (False, dst') \<and> length dst' = len"
proof -
  have o: "outcome emit (decode_all a) dst 0 (loop a (length a) dst len 0 0)"
    using decodes [OF assms, of 0 0] by simp
  show "loop a (length a) dst len 0 0 = Some (True, put dst 0 (concat (map emit cps)))"
    if "encodes a cps" "length (concat (map emit cps)) \<le> len"
    using o that assms(3) by (simp add: outcome_def encodes_decode_all)
  show "\<exists>dst'. loop a (length a) dst len 0 0 = Some (False, dst') \<and> length dst' = len"
    if "\<not> (\<exists>cps. encodes a cps \<and> length (concat (map emit cps)) \<le> len)"
    using o that assms(3) by (cases "decode_all a") (auto simp: outcome_def decode_all_iff)
qed

end

definition utf16 :: "u32 \<Rightarrow> u16 list" where
  "utf16 ch =
     (if unat ch \<le> 0xFFFF then [ucast ch]
      else [of_nat (0xD800 + (unat ch - 0x10000) div 1024), of_nat (0xDC00 + unat ch mod 1024)])"

lemma utf16_not_Nil [simp]: "utf16 ch \<noteq> []"
  by (simp add: utf16_def)

lemma length_utf16: "code_point ch \<Longrightarrow> length (utf16 ch) = Utf16_Length ch"
  by (simp add: utf16_def Utf16_Length_def kMaxCodeUnit_def)

lemma Utf16_units:
  assumes "code_point ch" "0xFFFF < unat ch"
  shows "[ucast (kLeadSurrogateOffset + signed_drop_bit 10 ch), ucast (0xDC00 + (ch AND 0x3FF))] = utf16 ch"
proof -
  have small: "unat ch < 2 ^ 31" using assms(1) by (simp add: code_point_def)
  have m: "(0x3FF :: u32) = mask 10" by (simp add: mask_eq_exp_minus_1)
  have d: "unat (signed_drop_bit 10 ch) = unat ch div 1024"
    by (simp add: signed_drop_bit_nonneg [OF small] unat_drop_div)
  have "(unat ch - 65536) div 1024 = unat ch div 1024 - 64"
    using div_mult_self2 [of 1024 "unat ch - 65536" 64] assms(2) by simp
  then have "unat (ucast (kLeadSurrogateOffset + signed_drop_bit 10 ch) :: u16)
      = unat (of_nat (0xD800 + (unat ch - 0x10000) div 1024) :: u16)"
    using assms by (simp add: unat_ucast unat_of_nat unat_word_ariths kLeadSurrogateOffset_def d code_point_def)
  moreover have "unat (ucast (0xDC00 + (ch AND 0x3FF)) :: u16) = unat (of_nat (0xDC00 + unat ch mod 1024) :: u16)"
    by (simp add: unat_ucast unat_of_nat unat_word_ariths m unat_and_mask)
  ultimately show ?thesis using assms(2) by (simp add: utf16_def word_unat_eq_iff)
qed

lemma Utf16_Encode_put:
  assumes "code_point ch" "0xFFFF < unat ch" "j + 1 < length dst"
  shows "Utf16_Encode ch dst j = Some (put dst j (utf16 ch))"
  using assms(1,2) write_at_put2 [OF assms(3)]
  by (simp add: Utf16_Encode_def kMaxCodeUnit_def flip: Utf16_units [OF assms(1,2)])

lemma lead_byte_of:
  assumes "i < length a" "Utf8_Decode (drop i a) (length a - i) = Some (k, ch)" "ch \<noteq> - 1"
  shows "unat (a ! i) = hd (utf8 (unat ch))" "code_point ch"
proof -
  have s: "code_point ch" "map unat (take k (drop i a)) = utf8 (unat ch)" "0 < k"
    using Utf8_Decode_sound [of "drop i a" k ch] Utf8_Decode_pos assms by auto
  show "code_point ch" by (rule s)
  show "unat (a ! i) = hd (utf8 (unat ch))"
    using s(3) assms(1) by (simp flip: s(2) add: hd_map hd_take hd_drop_conv_nth)
qed

lemma IsSupplementarySequenceStart_iff:
  assumes "i < length a" "Utf8_Decode (drop i a) (length a - i) = Some (k, ch)" "ch \<noteq> - 1"
  shows "IsSupplementarySequenceStart (a ! i) \<longleftrightarrow> 0xFFFF < unat ch"
  using lead_byte_of [OF assms] utf8_shape(7) [of "unat ch"]
  by (simp add: IsSupplementarySequenceStart_def word_le_nat_alt code_point_def)

lemma IsLatin1SequenceStart_iff:
  assumes "i < length a" "Utf8_Decode (drop i a) (length a - i) = Some (k, ch)" "ch \<noteq> - 1"
  shows "IsLatin1SequenceStart (a ! i) \<longleftrightarrow> IsLatin1 ch"
  using lead_byte_of [OF assms] utf8_shape(8) [of "unat ch"]
  by (simp add: IsLatin1SequenceStart_def word_le_nat_alt code_point_def IsLatin1_iff)

interpretation latin1_decoder: utf8_decoder DecodeToLatin1_loop "\<lambda>ch. [ucast ch]" IsLatin1SequenceStart
proof unfold_locales
  fix a :: "u8 list" and dst :: "u8 list" and i j n len k ch
  show "DecodeToLatin1_loop a n dst len i j = Some (\<not> (i < n \<and> j = len), dst)" if "\<not> (i < n \<and> j < len)"
    using that by (subst DecodeToLatin1_loop.simps) auto
  assume i: "i < length a" and l: "IsLatin1SequenceStart (a ! i)"
  show "DecodeToLatin1_loop a (length a) dst len i j = Some (False, dst)"
    if "j < len" "Utf8_Decode (drop i a) (length a - i) = Some (k, - 1)"
    using that i l by (subst DecodeToLatin1_loop.simps) (simp add: read_at_def)
  assume len: "length dst = len" and d: "Utf8_Decode (drop i a) (length a - i) = Some (k, ch)" "ch \<noteq> - 1"
  show "DecodeToLatin1_loop a (length a) dst len i j =
      DecodeToLatin1_loop a (length a) (put dst j [ucast ch]) len (i + k) (j + length [ucast ch])"
    if "j + length [ucast ch] \<le> len"
    using that i l len d IsLatin1SequenceStart_iff [OF i d]
    by (subst DecodeToLatin1_loop.simps) (simp add: read_at_def write_at_put)
  show "DecodeToLatin1_loop a (length a) dst len i j = Some (False, dst)"
    if "j \<le> len" "len < j + length [ucast ch]"
    using that i by (subst DecodeToLatin1_loop.simps) auto
qed

interpretation utf16_decoder: utf8_decoder DecodeToUTF16_loop utf16 "\<lambda>_. True"
proof unfold_locales
  fix a :: "u8 list" and dst :: "u16 list" and i j n len k ch
  show "DecodeToUTF16_loop a n dst len i j = Some (\<not> (i < n \<and> j = len), dst)" if "\<not> (i < n \<and> j < len)"
    using that by (subst DecodeToUTF16_loop.simps) auto
  assume i: "i < length a"
  show "DecodeToUTF16_loop a (length a) dst len i j = Some (False, dst)"
    if "j < len" "Utf8_Decode (drop i a) (length a - i) = Some (k, - 1)"
    using that i by (subst DecodeToUTF16_loop.simps) (simp add: read_at_def)
  assume len: "length dst = len" and d: "Utf8_Decode (drop i a) (length a - i) = Some (k, ch)" "ch \<noteq> - 1"
  note s = IsSupplementarySequenceStart_iff [OF i d] lead_byte_of(2) [OF i d]
  show "DecodeToUTF16_loop a (length a) dst len i j =
      DecodeToUTF16_loop a (length a) (put dst j (utf16 ch)) len (i + k) (j + length (utf16 ch))"
    if "j + length (utf16 ch) \<le> len"
    using that i len d s Utf16_Encode_put [of ch j dst]
    by (subst DecodeToUTF16_loop.simps) (auto simp: read_at_def write_at_put utf16_def split: if_splits)
  show "DecodeToUTF16_loop a (length a) dst len i j = Some (False, dst)"
    if "j \<le> len" "len < j + length (utf16 ch)"
    using that i d s by (subst DecodeToUTF16_loop.simps) (auto simp: read_at_def utf16_def split: if_splits)
qed

interpretation utf32_decoder: utf8_decoder DecodeToUTF32_loop "\<lambda>ch. [ch]" "\<lambda>_. True"
proof unfold_locales
  fix a :: "u8 list" and dst :: "u32 list" and i j n len k ch
  show "DecodeToUTF32_loop a n dst len i j = Some (\<not> (i < n \<and> j = len), dst)" if "\<not> (i < n \<and> j < len)"
    using that by (subst DecodeToUTF32_loop.simps) auto
  assume i: "i < length a"
  show "DecodeToUTF32_loop a (length a) dst len i j = Some (False, dst)"
    if "j < len" "Utf8_Decode (drop i a) (length a - i) = Some (k, - 1)"
    using that i by (subst DecodeToUTF32_loop.simps) simp
  assume len: "length dst = len" and d: "Utf8_Decode (drop i a) (length a - i) = Some (k, ch)" "ch \<noteq> - 1"
  show "DecodeToUTF32_loop a (length a) dst len i j =
      DecodeToUTF32_loop a (length a) (put dst j [ch]) len (i + k) (j + length [ch])"
    if "j + length [ch] \<le> len"
    using that i len d by (subst DecodeToUTF32_loop.simps) (simp add: write_at_put)
  show "DecodeToUTF32_loop a (length a) dst len i j = Some (False, dst)"
    if "j \<le> len" "len < j + length [ch]"
    using that i by (subst DecodeToUTF32_loop.simps) auto
qed

section \<open>Counting code units\<close>

text \<open>The narrowest form that holds the code points of a text.\<close>

definition text_type :: "u32 list \<Rightarrow> Utf8_Type" where
  "text_type cps =
     (if list_ex (\<lambda>ch. 0xFFFF < unat ch) cps then kSupplementary
      else if list_ex (\<lambda>ch. 0xFF < unat ch) cps then kBMP else kLatin1)"

definition widen_type :: "Utf8_Type \<Rightarrow> u32 \<Rightarrow> Utf8_Type" where
  "widen_type t ch =
     (if 0xFFFF < unat ch then kSupplementary else if 0xFF < unat ch \<and> t = kLatin1 then kBMP else t)"

lemma foldl_widen_type:
  "foldl widen_type t cps =
     (if list_ex (\<lambda>ch. 0xFFFF < unat ch) cps then kSupplementary
      else if t = kLatin1 \<and> list_ex (\<lambda>ch. 0xFF < unat ch) cps then kBMP else t)"
  by (induction cps arbitrary: t) (auto simp: widen_type_def)

lemma CodeUnitCount_trail:
  "list_all IsTrailByte bs \<Longrightarrow> foldl CodeUnitCount_step st bs = st"
  by (induction bs arbitrary: st) (auto simp: CodeUnitCount_step_def)

lemma CodeUnitCount_sequence:
  assumes "code_point ch" "map unat bs = utf8 (unat ch)"
  shows "foldl CodeUnitCount_step (n, t) bs = (n + length (utf16 ch), widen_type t ch)"
proof -
  note shape = utf8_shape [OF assms(1) [unfolded code_point_def]]
  obtain b bs' where bs: "bs = b # bs'" using assms(2) shape(3) by (cases bs) auto
  then have b: "unat b = hd (utf8 (unat ch))" "map unat bs' = tl (utf8 (unat ch))"
    by (simp_all flip: assms(2))
  have "list_all IsTrailByte bs'"
    using shape(2) by (simp add: IsTrailByte_iff list_all_iff flip: b(2))
  moreover have "\<not> IsTrailByte b"
    using shape(1) shape(3) b(1) by (auto simp: IsTrailByte_iff sequence_length_def split: if_splits)
  then have "CodeUnitCount_step (n, t) b = (n + length (utf16 ch), widen_type t ch)"
    using shape(7,8) b(1)
    by (simp add: CodeUnitCount_step_def IsLatin1SequenceStart_def IsSupplementarySequenceStart_def
        word_le_nat_alt utf16_def widen_type_def)
  ultimately show ?thesis by (simp add: bs CodeUnitCount_trail)
qed

lemma CodeUnitCount_foldl:
  "encodes a cps \<Longrightarrow> foldl CodeUnitCount_step (n, t) a =
     (n + length (concat (map utf16 cps)), foldl widen_type t cps)"
proof (induction cps arbitrary: a n t)
  case Nil
  then show ?case by (simp add: encodes_def)
next
  case (Cons ch cps)
  from Cons.prems obtain bs rest where r: "a = bs @ rest" "map unat bs = utf8 (unat ch)" "encodes rest cps"
    "code_point ch" by (rule encodes_Cons)
  show ?case using Cons.IH [OF r(3)] by (simp add: r(1) CodeUnitCount_sequence [OF r(4,2)])
qed

lemma CodeUnitCount_encodes:
  "encodes a cps \<Longrightarrow> CodeUnitCount a = (length (concat (map utf16 cps)), text_type cps)"
  by (simp add: CodeUnitCount_def CodeUnitCount_foldl foldl_widen_type text_type_def)

text \<open>On any input, a count of type \<open>kLatin1\<close> means that no byte starts a longer sequence.\<close>

lemma CodeUnitCount_Latin1:
  "snd (CodeUnitCount a) = kLatin1 \<longleftrightarrow> list_all IsLatin1SequenceStart a"
proof -
  have "snd (foldl CodeUnitCount_step (n, t) a) = kLatin1 \<longleftrightarrow> t = kLatin1 \<and> list_all IsLatin1SequenceStart a" for n t
  proof (induction a arbitrary: n t)
    case (Cons b a)
    have "IsTrailByte b \<Longrightarrow> IsLatin1SequenceStart b"
      by (simp add: IsTrailByte_iff IsLatin1SequenceStart_def word_le_nat_alt)
    then show ?case using Cons.IH by (auto simp: CodeUnitCount_step_def Let_def)
  qed simp
  then show ?thesis by (simp add: CodeUnitCount_def)
qed

lemma CodeUnitCount_zero:
  "fst (CodeUnitCount a) = 0 \<longleftrightarrow> list_all IsTrailByte a"
proof -
  have "fst (foldl CodeUnitCount_step (n, t) a) = 0 \<longleftrightarrow> n = 0 \<and> list_all IsTrailByte a" for n t
    by (induction a arbitrary: n t) (auto simp: CodeUnitCount_step_def Let_def)
  then show ?thesis by (simp add: CodeUnitCount_def)
qed

section \<open>The way back from UTF-16\<close>

text \<open>The code points of a UTF-16 text: surrogate pairs are joined, any other unit stands for itself.\<close>

fun utf16_decode :: "u16 list \<Rightarrow> u32 list" where
  "utf16_decode [] = []"
| "utf16_decode [u] = [ucast u]"
| "utf16_decode (u # v # us) =
     (if IsLeadSurrogate (ucast u) \<and> IsTrailSurrogate (ucast v) then Utf16_Decode u v # utf16_decode us
      else ucast u # utf16_decode (v # us))"

lemma unat_ucast_16 [simp]: "unat (ucast (u :: u16) :: u32) = unat u"
  using unsigned_less [of u, where ?'a = nat] by (simp add: unat_ucast)

lemma surrogate_mask: "x AND 0xFFFFFC00 = x AND NOT (mask 10)" for x :: u32
proof -
  have "(0xFFFFFC00 :: u32) = NOT (mask 10)" by (simp add: mask_eq_exp_minus_1)
  then show ?thesis by (simp only:)
qed

lemma IsLeadSurrogate_iff: "IsLeadSurrogate ch \<longleftrightarrow> 0xD800 \<le> unat ch \<and> unat ch < 0xDC00"
  using div_mult_mod_eq [of "unat ch" 1024] mod_less_divisor [of 1024 "unat ch"]
  by (auto simp: IsLeadSurrogate_def surrogate_mask word_unat_eq_iff unat_and_not_mask)

lemma IsTrailSurrogate_iff: "IsTrailSurrogate ch \<longleftrightarrow> 0xDC00 \<le> unat ch \<and> unat ch < 0xE000"
  using div_mult_mod_eq [of "unat ch" 1024] mod_less_divisor [of 1024 "unat ch"]
  by (auto simp: IsTrailSurrogate_def surrogate_mask word_unat_eq_iff unat_and_not_mask)

lemma IsSurrogate_iff: "IsSurrogate ch \<longleftrightarrow> 0xD800 \<le> unat ch \<and> unat ch < 0xE000"
proof -
  have "(0xFFFFF800 :: u32) = NOT (mask 11)" by (simp add: mask_eq_exp_minus_1)
  then have "IsSurrogate ch \<longleftrightarrow> unat ch div 2048 = 27"
    by (simp only: IsSurrogate_def) (simp add: word_unat_eq_iff unat_and_not_mask)
  then show ?thesis
    using div_mult_mod_eq [of "unat ch" 2048] mod_less_divisor [of 2048 "unat ch"]
    by (auto intro: div_nat_eqI)
qed

lemma unat_of_nat_u16: "unat (of_nat n :: u16) = n mod 2 ^ 16"
  by (simp add: unat_of_nat)

lemma unat_Utf16_Decode:
  "unat (Utf16_Decode u v) = 0x10000 + 1024 * (unat u mod 1024) + unat v mod 1024"
proof -
  have m: "(0x3FF :: u32) = mask 10" by (simp add: mask_eq_exp_minus_1)
  have "unat (ucast u AND mask 10 :: u32) = unat u mod 1024" "unat (ucast v AND mask 10 :: u32) = unat v mod 1024"
    by (simp_all add: unat_and_mask)
  moreover have "unat u mod 1024 < 1024" "unat v mod 1024 < 1024" by simp_all
  ultimately show ?thesis
    unfolding Utf16_Decode_def m by (simp add: unat_word_ariths push_bit_eq_mult)
qed

lemma code_point_Utf16_Decode [simp]: "code_point (Utf16_Decode u v)"
proof -
  have "unat u mod 1024 < 1024" "unat v mod 1024 < 1024" by simp_all
  then show ?thesis unfolding code_point_def unat_Utf16_Decode by linarith
qed

lemma utf16_Utf16_Decode:
  assumes "IsLeadSurrogate (ucast u)" "IsTrailSurrogate (ucast v)"
  shows "utf16 (Utf16_Decode u v) = [u, v]"
proof -
  obtain x where x: "unat u = 0xD800 + x" "x < 1024"
    using assms(1) by (auto simp: IsLeadSurrogate_iff intro!: that [of "unat u - 0xD800"])
  obtain y where y: "unat v = 0xDC00 + y" "y < 1024"
    using assms(2) by (auto simp: IsTrailSurrogate_iff intro!: that [of "unat v - 0xDC00"])
  have "(0xD800 + x) mod 1024 = x" "(0xDC00 + y) mod 1024 = y"
    using x(2) y(2) mod_mult_self4 [of 1024 54 x] mod_mult_self4 [of 1024 55 y] by simp_all
  then have c: "unat (Utf16_Decode u v) = 0x10000 + (1024 * x + y)"
    by (simp add: unat_Utf16_Decode x(1) y(1))
  have "(0x10000 + (1024 * x + y)) mod 1024 = y" "(1024 * x + y) div 1024 = x"
    using y(2) mod_mult_self4 [of 1024 "64 + x" y] by (simp_all add: ac_simps)
  moreover have "(of_nat (0xD800 + x) :: u16) = u" "(of_nat (0xDC00 + y) :: u16) = v"
    by (simp_all only: x(1) [symmetric] y(1) [symmetric]) simp_all
  ultimately show ?thesis by (simp add: utf16_def c)
qed

lemma utf16_ucast [simp]: "utf16 (ucast u) = [u]"
  using unsigned_less [of u, where ?'a = nat] by (simp add: utf16_def word_unat_eq_iff unat_ucast)

lemma code_point_ucast_16 [simp]: "code_point (ucast (u :: u16))"
  using unsigned_less [of u, where ?'a = nat] by (simp add: code_point_def)

lemma utf16_utf16_decode: "concat (map utf16 (utf16_decode us)) = us"
  by (induction us rule: utf16_decode.induct) (simp_all add: utf16_Utf16_Decode)

lemma code_point_utf16_decode: "list_all code_point (utf16_decode us)"
  by (induction us rule: utf16_decode.induct) simp_all

lemma supplementary_units:
  assumes "code_point ch" "0xFFFF < unat ch"
  obtains u v where "utf16 ch = [u, v]" "IsLeadSurrogate (ucast u)" "IsTrailSurrogate (ucast v)"
    "Utf16_Decode u v = ch"
proof
  define x where "x = (unat ch - 0x10000) div 1024"
  define y where "y = (unat ch - 0x10000) mod 1024"
  have ch: "unat ch = 0x10000 + (1024 * x + y)" using assms(2) by (simp add: x_def y_def)
  have b: "x < 1024" "y < 1024" using assms(1) by (simp_all add: x_def y_def code_point_def)
  have m: "unat ch mod 1024 = y" using b(2) mod_mult_self4 [of 1024 "64 + x" y] by (simp add: ch ac_simps)
  show "utf16 ch = [of_nat (0xD800 + x), of_nat (0xDC00 + y)]" using assms(2) m by (simp add: utf16_def x_def)
  have u: "unat (of_nat (0xD800 + x) :: u16) = 0xD800 + x" "unat (of_nat (0xDC00 + y) :: u16) = 0xDC00 + y"
    using b by (simp_all only: unat_of_nat_u16) simp_all
  show "IsLeadSurrogate (ucast (of_nat (0xD800 + x) :: u16))"
    "IsTrailSurrogate (ucast (of_nat (0xDC00 + y) :: u16))"
    using b by (simp_all only: IsLeadSurrogate_iff IsTrailSurrogate_iff unat_ucast_16 u) simp_all
  have "(0xD800 + x) mod 1024 = x" "(0xDC00 + y) mod 1024 = y"
    using b mod_mult_self4 [of 1024 54 x] mod_mult_self4 [of 1024 55 y] by simp_all
  then show "Utf16_Decode (of_nat (0xD800 + x)) (of_nat (0xDC00 + y)) = ch"
    by (simp only: word_unat_eq_iff unat_Utf16_Decode u ch)
qed

lemma utf16_decode_pair:
  "IsLeadSurrogate (ucast u) \<Longrightarrow> IsTrailSurrogate (ucast v) \<Longrightarrow>
     utf16_decode (u # v # us) = Utf16_Decode u v # utf16_decode us"
  by simp

lemma utf16_decode_other: "\<not> IsSurrogate (ucast u) \<Longrightarrow> utf16_decode (u # us) = ucast u # utf16_decode us"
  by (cases us) (auto simp: IsSurrogate_iff IsLeadSurrogate_iff)

lemma utf16_decode_utf16:
  "list_all (\<lambda>ch. code_point ch \<and> \<not> IsSurrogate ch) cps \<Longrightarrow> utf16_decode (concat (map utf16 cps)) = cps"
proof (induction cps)
  case (Cons ch cps)
  show ?case
  proof (cases "0xFFFF < unat ch")
    case True
    then obtain u v where "utf16 ch = [u, v]" "IsLeadSurrogate (ucast u)" "IsTrailSurrogate (ucast v)"
      "Utf16_Decode u v = ch" using Cons.prems supplementary_units [of ch] by auto
    then show ?thesis using Cons by (simp add: utf16_decode_pair)
  next
    case False
    then have "ucast (ucast ch :: u16) = ch" by (simp add: word_unat_eq_iff unat_ucast)
    moreover have "utf16 ch = [ucast ch]" using False by (simp add: utf16_def)
    ultimately show ?thesis
      using Cons utf16_decode_other [of "ucast ch" "concat (map utf16 cps)"] by simp
  qed
qed simp

lemma Utf16_Next_decode:
  assumes "i < length us"
  obtains ch i' where "Utf16_Next us i (length us) = Some (ch, i')" "i < i'"
    "utf16_decode (drop i us) = ch # utf16_decode (drop i' us)"
proof (cases "i + 1 < length us")
  case True
  have d: "drop i us = us ! i # us ! (i + 1) # drop (i + 2) us" "drop (i + 1) us = us ! (i + 1) # drop (i + 2) us"
    using True by (simp_all add: Cons_nth_drop_Suc)
  have u: "ucast (ucast u :: u32) = u" for u :: u16
    using unsigned_less [of u, where ?'a = nat] by (simp add: word_unat_eq_iff unat_ucast)
  have l: "int i < int (length us) - 1" using True by simp
  show ?thesis
  proof (cases "IsLeadSurrogate (ucast (us ! i)) \<and> IsTrailSurrogate (ucast (us ! (i + 1)))")
    case pair: True
    then show ?thesis
      using True l by (intro that [of "Utf16_Decode (us ! i) (us ! (i + 1))" "i + 2"])
        (simp_all add: Utf16_Next_def read_at_def d(1) u)
  next
    case other: False
    then show ?thesis
      using True l by (intro that [of "ucast (us ! i)" "i + 1"])
        (auto simp: Utf16_Next_def read_at_def Let_def d(1) d(2) [simplified])
  qed
next
  case False
  then have "drop (Suc i) us = []" by simp
  moreover have "drop i us = [us ! i]" using Cons_nth_drop_Suc [OF assms] calculation by simp
  ultimately show ?thesis using that assms False by (auto simp: Utf16_Next_def read_at_def)
qed

section \<open>Properties\<close>

text \<open>
  C21. For every code point \<open>Utf8::Length\<close> is the number of bytes \<open>Utf8::Encode\<close> writes, these bytes
  are the UTF-8 form of the code point, and \<open>Utf8::Decode\<close> returns the code point exactly on the
  arrays that start with them: what is encoded is read back whatever follows, and no overlong,
  truncated or otherwise different sequence is read as that code point.
\<close>

theorem Utf8_Encode_Decode:
  assumes "\<not> IsOutOfRange ch"
  shows "\<exists>bs. Utf8_Encode ch = Some bs \<and> Utf8_Length ch = Some (length bs) \<and> map unat bs = utf8 (unat ch) \<and>
    (\<forall>a k. Utf8_Decode a (length a) = Some (k, ch) \<longleftrightarrow> k = length bs \<and> take k a = bs)"
proof -
  have cp: "code_point ch" using assms by (simp add: IsOutOfRange_iff)
  then have m1: "ch \<noteq> - 1" by auto
  obtain bs where bs: "Utf8_Encode ch = Some bs" "map unat bs = utf8 (unat ch)" using cp by (rule Utf8_Encode_spec)
  then have len: "length (utf8 (unat ch)) = length bs" by (metis length_map)
  have "Utf8_Decode a (length a) = Some (k, ch) \<longleftrightarrow> k = length bs \<and> take k a = bs" for a k
  proof
    assume "Utf8_Decode a (length a) = Some (k, ch)"
    then have s: "map unat (take k a) = map unat bs" "k \<le> length a"
      using Utf8_Decode_sound [OF _ m1] bs(2) by auto
    then have "take k a = bs" by (metis inj_map_eq_map injI word_unat_eq_iff)
    then show "k = length bs \<and> take k a = bs" using s(2) by auto
  next
    assume "k = length bs \<and> take k a = bs"
    then show "Utf8_Decode a (length a) = Some (k, ch)"
      using Utf8_Decode_complete [OF cp bs(2), of "drop k a"] by (metis append_take_drop_id)
  qed
  then show ?thesis using bs Utf8_Length_spec [OF cp] len by auto
qed

theorem Utf8_Encode_Decode_witness:
  "\<exists>bs. Utf8_Encode 0x20AC = Some bs \<and> Utf8_Length 0x20AC = Some (length bs) \<and> map unat bs = utf8 (unat (0x20AC :: u32)) \<and>
    (\<forall>a k. Utf8_Decode a (length a) = Some (k, 0x20AC) \<longleftrightarrow> k = length bs \<and> take k a = bs)"
  by (rule Utf8_Encode_Decode) (simp add: IsOutOfRange_iff code_point_def)

text \<open>
  C11. \<open>Utf8::IsValid\<close> returns on every array, and it returns true exactly for the arrays that are the
  concatenated UTF-8 forms of a sequence of code points.
\<close>

theorem IsValid_exact: "IsValid a (length a) = Some (\<exists>cps. encodes a cps)"
  using IsValid_loop_decode_all [of 0 a] by (simp add: IsValid_def decode_all_iff)

text \<open>
  C19. \<open>Utf8::DecodeToUTF16\<close> is safe on arbitrary bytes: it returns, never reads or writes outside its
  arrays and never fails an assertion; it reports success exactly when the bytes are valid UTF-8 whose
  UTF-16 form fits the destination, and then the destination starts with that form.
\<close>

theorem DecodeToUTF16_safe:
  "\<exists>ok dst'. DecodeToUTF16 a (length a) dst (length dst) = Some (ok, dst') \<and> length dst' = length dst \<and>
    (ok \<longleftrightarrow> (\<exists>cps. encodes a cps \<and> length (concat (map utf16 cps)) \<le> length dst)) \<and>
    (\<forall>cps. ok \<and> encodes a cps \<longrightarrow> dst' = concat (map utf16 cps) @ drop (length (concat (map utf16 cps))) dst)"
proof (cases "\<exists>cps. encodes a cps \<and> length (concat (map utf16 cps)) \<le> length dst")
  case True
  then obtain cps where cps: "encodes a cps" "length (concat (map utf16 cps)) \<le> length dst" by blast
  have "DecodeToUTF16 a (length a) dst (length dst) = Some (True, put dst 0 (concat (map utf16 cps)))"
    unfolding DecodeToUTF16_def by (rule utf16_decoder.decodes_whole(1)) (use cps in \<open>simp_all add: list_all_iff\<close>)
  moreover have "put dst 0 (concat (map utf16 cps)) = concat (map utf16 cps) @ drop (length (concat (map utf16 cps))) dst"
    by (simp add: put_def)
  ultimately show ?thesis using cps encodes_unique by (auto simp: length_put)
next
  case False
  have "\<exists>dst'. DecodeToUTF16 a (length a) dst (length dst) = Some (False, dst') \<and> length dst' = length dst"
    unfolding DecodeToUTF16_def by (rule utf16_decoder.decodes_whole(2)) (use False in \<open>simp_all add: list_all_iff\<close>)
  then show ?thesis using False by blast
qed

theorem DecodeToUTF16_safe_witness:
  "\<exists>dst'. DecodeToUTF16 [0xC3, 0xA9] (length [0xC3, 0xA9 :: u8]) [0, 0] (length [0, 0 :: u16]) = Some (True, dst') \<and>
    dst' = [0xE9, 0]"
proof -
  have "encodes [0xC3, 0xA9] [0xE9]" by (simp add: encodes_def code_point_def utf8_def)
  then show ?thesis using DecodeToUTF16_safe [of "[0xC3, 0xA9]" "[0, 0]"] by (fastforce simp: utf16_def)
qed

end
