(* ===== verification/Dart_String.thy ===== *)
theory Dart_String
  imports Unicode_Codec "HOL-Library.List_Lexorder"
begin

text \<open>
  The string objects of \<^verbatim>\<open>runtime/vm/object.h\<close> and \<^verbatim>\<open>object.cc\<close>: the four representations of
  \<^verbatim>\<open>String\<close>, their access, comparison, copying, concatenation, substrings and hash codes.  A string is
  the list of its code units; a freshly allocated string has the contents of the memory it is placed
  in, the argument \<open>mem\<close>.  A failing \<^verbatim>\<open>ASSERT\<close>, \<^verbatim>\<open>UNREACHABLE\<close> and \<^verbatim>\<open>FATAL\<close> have the result \<open>None\<close>; a
  \<^verbatim>\<open>StringPtr\<close> that may be \<^verbatim>\<open>String::null()\<close> is an optional string.
\<close>

section \<open>Representation\<close>

datatype String = OneByteString "u8 list" | TwoByteString "u16 list"
  | ExternalOneByteString "u8 list" | ExternalTwoByteString "u16 list"

type_synonym StringPtr = "String option"

definition kHashBits :: nat where "kHashBits = 30"
definition kOneByteChar :: nat where "kOneByteChar = 1"
definition kTwoByteChar :: nat where "kTwoByteChar = 2"
definition kSmiMax :: nat where "kSmiMax = 2 ^ 62 - 1"
definition kMaxElements :: nat where "kMaxElements = kSmiMax div kTwoByteChar"

fun IsOneByteString :: "String \<Rightarrow> bool" where
  "IsOneByteString (OneByteString _) \<longleftrightarrow> True" | "IsOneByteString _ \<longleftrightarrow> False"

fun IsTwoByteString :: "String \<Rightarrow> bool" where
  "IsTwoByteString (TwoByteString _) \<longleftrightarrow> True" | "IsTwoByteString _ \<longleftrightarrow> False"

fun IsExternalOneByteString :: "String \<Rightarrow> bool" where
  "IsExternalOneByteString (ExternalOneByteString _) \<longleftrightarrow> True" | "IsExternalOneByteString _ \<longleftrightarrow> False"

fun IsExternalTwoByteString :: "String \<Rightarrow> bool" where
  "IsExternalTwoByteString (ExternalTwoByteString _) \<longleftrightarrow> True" | "IsExternalTwoByteString _ \<longleftrightarrow> False"

primrec Length :: "String \<Rightarrow> nat" where
  "Length (OneByteString d) = length d"
| "Length (TwoByteString d) = length d"
| "Length (ExternalOneByteString d) = length d"
| "Length (ExternalTwoByteString d) = length d"

primrec CharAt :: "String \<Rightarrow> nat \<Rightarrow> u16 option" where
  "CharAt (OneByteString d) index = map_option ucast (read_at d index)"
| "CharAt (TwoByteString d) index = read_at d index"
| "CharAt (ExternalOneByteString d) index = map_option ucast (read_at d index)"
| "CharAt (ExternalTwoByteString d) index = read_at d index"

definition CharSize :: "String \<Rightarrow> nat" where
  "CharSize str =
     (if IsOneByteString str \<or> IsExternalOneByteString str then kOneByteChar else kTwoByteChar)"

section \<open>Comparison\<close>

function Equals_loop :: "String \<Rightarrow> String \<Rightarrow> nat \<Rightarrow> nat \<Rightarrow> nat \<Rightarrow> bool option" where
  "Equals_loop this str begin_index len i =
     (if i < len then do {
        c \<leftarrow> CharAt this i;
        d \<leftarrow> CharAt str (begin_index + i);
        if c \<noteq> d then Some False else Equals_loop this str begin_index len (i + 1) }
      else Some True)"
  by pat_completeness auto
termination by (relation "measure (\<lambda>(_, _, _, len, i). len - i)") auto

definition Equals_range :: "String \<Rightarrow> String \<Rightarrow> nat \<Rightarrow> nat \<Rightarrow> bool option" where
  "Equals_range this str begin_index len =
     (if (begin_index = 0 \<or> begin_index < Length str) \<and> len \<le> Length str then
        if len \<noteq> Length this then Some False else Equals_loop this str begin_index len 0
      else None)"

function Equals_array_loop :: "String \<Rightarrow> u16 list \<Rightarrow> nat \<Rightarrow> nat \<Rightarrow> bool option" where
  "Equals_array_loop this a len i =
     (if i < len then do {
        c \<leftarrow> CharAt this i;
        d \<leftarrow> read_at a i;
        if c \<noteq> d then Some False else Equals_array_loop this a len (i + 1) }
      else Some True)"
  by pat_completeness auto
termination by (relation "measure (\<lambda>(_, _, len, i). len - i)") auto

definition Equals_Latin1 :: "String \<Rightarrow> u8 list \<Rightarrow> nat \<Rightarrow> bool option" where
  "Equals_Latin1 this latin1_array len =
     (if len \<noteq> Length this then Some False else Equals_array_loop this (map ucast latin1_array) len 0)"

definition Equals_UTF16 :: "String \<Rightarrow> u16 list \<Rightarrow> nat \<Rightarrow> bool option" where
  "Equals_UTF16 this utf16_array len =
     (if len \<noteq> Length this then Some False else Equals_array_loop this utf16_array len 0)"

function Equals_UTF32_loop :: "String \<Rightarrow> u32 list \<Rightarrow> nat \<Rightarrow> nat \<Rightarrow> nat \<Rightarrow> bool option" where
  "Equals_UTF32_loop this utf32_array len i j =
     (if i < len then do {
        ch \<leftarrow> read_at utf32_array i;
        if IsSupplementary ch then do {
          encoded \<leftarrow> Utf16_Encode ch [0, 0] 0;
          if Length this \<le> j + 1 then Some False else do {
            c \<leftarrow> CharAt this j;
            if c \<noteq> encoded ! 0 then Some False else do {
              c2 \<leftarrow> CharAt this (j + 1);
              if c2 \<noteq> encoded ! 1 then Some False
              else Equals_UTF32_loop this utf32_array len (i + 1) (j + 2) } } }
        else if Length this \<le> j then Some False
        else do {
          c \<leftarrow> CharAt this j;
          if (ucast c :: u32) \<noteq> ch then Some False
          else Equals_UTF32_loop this utf32_array len (i + 1) (j + 1) } }
      else Some (j = Length this))"
  by pat_completeness auto
termination by (relation "measure (\<lambda>(_, _, len, i, _). len - i)") auto

definition Equals_UTF32 :: "String \<Rightarrow> u32 list \<Rightarrow> nat \<Rightarrow> bool option" where
  "Equals_UTF32 this utf32_array len = Equals_UTF32_loop this utf32_array len 0 0"

definition EqualsConcat :: "String \<Rightarrow> String \<Rightarrow> String \<Rightarrow> bool option" where
  "EqualsConcat this str1 str2 =
     (if Length this = Length str1 + Length str2 then do {
        b \<leftarrow> Equals_range str1 this 0 (Length str1);
        if b then Equals_range str2 this (Length str1) (Length str2) else Some False }
      else Some False)"

function CompareTo_loop :: "String \<Rightarrow> String \<Rightarrow> nat \<Rightarrow> nat \<Rightarrow> int option" where
  "CompareTo_loop this other len i =
     (if i < len then do {
        this_code_unit \<leftarrow> CharAt this i;
        other_code_unit \<leftarrow> CharAt other i;
        if this_code_unit < other_code_unit then Some (- 1)
        else if other_code_unit < this_code_unit then Some 1
        else CompareTo_loop this other len (i + 1) }
      else Some 0)"
  by pat_completeness auto
termination by (relation "measure (\<lambda>(_, _, len, i). len - i)") auto

definition CompareTo :: "String \<Rightarrow> StringPtr \<Rightarrow> int option" where
  "CompareTo this other =
     (let this_len = Length this;
          other_len = (case other of None \<Rightarrow> 0 | Some o' \<Rightarrow> Length o');
          len = (if this_len < other_len then this_len else other_len)
      in do {
        r \<leftarrow> (case other of None \<Rightarrow> Some 0 | Some o' \<Rightarrow> CompareTo_loop this o' len 0);
        if r \<noteq> 0 then Some r
        else if this_len < other_len then Some (- 1)
        else if other_len < this_len then Some 1 else Some 0 })"

definition StartsWith :: "String \<Rightarrow> StringPtr \<Rightarrow> bool option" where
  "StartsWith str prefix =
     (case prefix of
        None \<Rightarrow> Some False
      | Some p \<Rightarrow> if Length str < Length p then Some False else Equals_loop str p 0 (Length p) 0)"

function EndsWith_loop :: "String \<Rightarrow> String \<Rightarrow> nat \<Rightarrow> nat \<Rightarrow> nat \<Rightarrow> bool option" where
  "EndsWith_loop this other offset len i =
     (if i < len then do {
        c \<leftarrow> CharAt this i;
        d \<leftarrow> CharAt other (i - offset);
        if c \<noteq> d then Some False else EndsWith_loop this other offset len (i + 1) }
      else Some True)"
  by pat_completeness auto
termination by (relation "measure (\<lambda>(_, _, _, len, i). len - i)") auto

definition EndsWith :: "String \<Rightarrow> StringPtr \<Rightarrow> bool option" where
  "EndsWith this other =
     (case other of
        None \<Rightarrow> Some False
      | Some o' \<Rightarrow>
          (let len = Length this; other_len = Length o'; offset = len - other_len in
           if other_len = 0 \<or> len < other_len then Some False
           else EndsWith_loop this o' offset len offset))"

section \<open>Allocation and copying\<close>

definition fresh :: "(nat \<Rightarrow> u16) \<Rightarrow> nat \<Rightarrow> 'a::len word list" where
  "fresh mem len = map (\<lambda>i. ucast (mem i)) [0..<len]"

definition OneByteString_New :: "(nat \<Rightarrow> u16) \<Rightarrow> nat \<Rightarrow> String option" where
  "OneByteString_New mem len = (if kMaxElements < len then None else Some (OneByteString (fresh mem len)))"

definition TwoByteString_New :: "(nat \<Rightarrow> u16) \<Rightarrow> nat \<Rightarrow> String option" where
  "TwoByteString_New mem len = (if kMaxElements < len then None else Some (TwoByteString (fresh mem len)))"

text \<open>A loop that stores a sequence of units one after the other, and \<open>memmove\<close>.\<close>

primrec store_all :: "'a list \<Rightarrow> nat \<Rightarrow> 'a list \<Rightarrow> 'a list option" where
  "store_all dst j [] = Some dst"
| "store_all dst j (x # xs) = do { dst \<leftarrow> write_at dst j x; store_all dst (j + 1) xs }"

definition memmove :: "'a list \<Rightarrow> nat \<Rightarrow> 'a list \<Rightarrow> nat \<Rightarrow> 'a list option" where
  "memmove dst j src len = (if len \<le> length src then store_all dst j (take len src) else None)"

text \<open>The three overloads of \<open>String::Copy\<close> return the destination as they leave it.\<close>

definition Copy_Latin1 :: "String \<Rightarrow> nat \<Rightarrow> u8 list \<Rightarrow> nat \<Rightarrow> String option" where
  "Copy_Latin1 dst dst_offset characters len =
     (if dst_offset \<le> Length dst \<and> len \<le> Length dst - dst_offset then
        (case dst of
           OneByteString d \<Rightarrow>
             if 0 < len then map_option OneByteString (memmove d dst_offset characters len) else Some dst
         | TwoByteString d \<Rightarrow> map_option TwoByteString (memmove d dst_offset (map ucast characters) len)
         | _ \<Rightarrow> Some dst)
      else None)"

definition Copy_UTF16 :: "String \<Rightarrow> nat \<Rightarrow> u16 list \<Rightarrow> nat \<Rightarrow> String option" where
  "Copy_UTF16 dst dst_offset utf16_array array_len =
     (if dst_offset \<le> Length dst \<and> array_len \<le> Length dst - dst_offset then
        (case dst of
           OneByteString d \<Rightarrow>
             if array_len \<le> length utf16_array \<and> list_all (\<lambda>u. IsLatin1 (ucast u)) (take array_len utf16_array)
             then map_option OneByteString (memmove d dst_offset (map ucast utf16_array) array_len)
             else None
         | TwoByteString d \<Rightarrow>
             if 0 < array_len then map_option TwoByteString (memmove d dst_offset utf16_array array_len)
             else Some dst
         | _ \<Rightarrow> None)
      else None)"

definition Copy_String :: "String \<Rightarrow> nat \<Rightarrow> String \<Rightarrow> nat \<Rightarrow> nat \<Rightarrow> String option" where
  "Copy_String dst dst_offset src src_offset len =
     (if dst_offset \<le> Length dst \<and> len \<le> Length dst - dst_offset \<and>
         src_offset \<le> Length src \<and> len \<le> Length src - src_offset then
        if 0 < len then
          (case src of
             OneByteString s \<Rightarrow> Copy_Latin1 dst dst_offset (drop src_offset s) len
           | ExternalOneByteString s \<Rightarrow> Copy_Latin1 dst dst_offset (drop src_offset s) len
           | TwoByteString s \<Rightarrow> Copy_UTF16 dst dst_offset (drop src_offset s) len
           | ExternalTwoByteString s \<Rightarrow> Copy_UTF16 dst dst_offset (drop src_offset s) len)
        else Some dst
      else None)"

definition New_String :: "(nat \<Rightarrow> u16) \<Rightarrow> String \<Rightarrow> String option" where
  "New_String mem str = do {
     result \<leftarrow> (if CharSize str = kOneByteChar then OneByteString_New mem (Length str)
               else TwoByteString_New mem (Length str));
     Copy_String result 0 str 0 (Length str) }"

section \<open>Concatenation and substrings\<close>

definition OneByteString_Concat :: "(nat \<Rightarrow> u16) \<Rightarrow> String \<Rightarrow> String \<Rightarrow> String option" where
  "OneByteString_Concat mem str1 str2 = do {
     result \<leftarrow> OneByteString_New mem (Length str1 + Length str2);
     result \<leftarrow> Copy_String result 0 str1 0 (Length str1);
     Copy_String result (Length str1) str2 0 (Length str2) }"

definition TwoByteString_Concat :: "(nat \<Rightarrow> u16) \<Rightarrow> String \<Rightarrow> String \<Rightarrow> String option" where
  "TwoByteString_Concat mem str1 str2 = do {
     result \<leftarrow> TwoByteString_New mem (Length str1 + Length str2);
     result \<leftarrow> Copy_String result 0 str1 0 (Length str1);
     Copy_String result (Length str1) str2 0 (Length str2) }"

definition Concat :: "(nat \<Rightarrow> u16) \<Rightarrow> String \<Rightarrow> String \<Rightarrow> String option" where
  "Concat mem str1 str2 =
     (let char_size = max (CharSize str1) (CharSize str2) in
      if char_size = kTwoByteChar then TwoByteString_Concat mem str1 str2
      else OneByteString_Concat mem str1 str2)"

text \<open>The common loop of \<open>OneByteString::ConcatAll\<close> and \<open>TwoByteString::ConcatAll\<close>.\<close>

primrec ConcatAll_loop :: "String \<Rightarrow> nat \<Rightarrow> String list \<Rightarrow> String option" where
  "ConcatAll_loop result pos [] = Some result"
| "ConcatAll_loop result pos (str # strs) = do {
     result \<leftarrow> Copy_String result pos str 0 (Length str);
     if Length str \<le> kMaxElements - pos \<and> pos \<le> kMaxElements then ConcatAll_loop result (pos + Length str) strs
     else None }"

definition OneByteString_ConcatAll :: "(nat \<Rightarrow> u16) \<Rightarrow> String list \<Rightarrow> nat \<Rightarrow> String option" where
  "OneByteString_ConcatAll mem strs len = do {
     result \<leftarrow> OneByteString_New mem len; ConcatAll_loop result 0 strs }"

definition TwoByteString_ConcatAll :: "(nat \<Rightarrow> u16) \<Rightarrow> String list \<Rightarrow> nat \<Rightarrow> String option" where
  "TwoByteString_ConcatAll mem strs len = do {
     result \<leftarrow> TwoByteString_New mem len; ConcatAll_loop result 0 strs }"

datatype concat_error = ThrowOOM | AssertFailed

text \<open>The first loop: the length and the character size of the result, \<open>None\<close> when it is too long.\<close>

primrec ConcatAll_size :: "String list \<Rightarrow> nat \<Rightarrow> nat \<Rightarrow> (nat \<times> nat) option" where
  "ConcatAll_size [] result_len char_size = Some (result_len, char_size)"
| "ConcatAll_size (str # strs) result_len char_size =
     (if int kMaxElements - int result_len < int (Length str) then None
      else ConcatAll_size strs (result_len + Length str) (max char_size (CharSize str)))"

definition ConcatAllRange :: "(nat \<Rightarrow> u16) \<Rightarrow> String list \<Rightarrow> nat \<Rightarrow> nat \<Rightarrow> concat_error + String" where
  "ConcatAllRange mem strings start end =
     (if end \<le> length strings then
        (let strs = drop start (take end strings) in
         case ConcatAll_size strs 0 kOneByteChar of
           None \<Rightarrow> Inl ThrowOOM
         | Some (result_len, char_size) \<Rightarrow>
             (case if char_size = kOneByteChar then OneByteString_ConcatAll mem strs result_len
                   else TwoByteString_ConcatAll mem strs result_len of
                None \<Rightarrow> Inl AssertFailed
              | Some r \<Rightarrow> Inr r))
      else Inl AssertFailed)"

definition ConcatAll :: "(nat \<Rightarrow> u16) \<Rightarrow> String list \<Rightarrow> concat_error + String" where
  "ConcatAll mem strings = ConcatAllRange mem strings 0 (length strings)"

function SubString_latin1 :: "String \<Rightarrow> nat \<Rightarrow> nat \<Rightarrow> bool option" where
  "SubString_latin1 str end i =
     (if i < end then do {
        c \<leftarrow> CharAt str i;
        if \<not> IsLatin1 (ucast c) then Some False else SubString_latin1 str end (i + 1) }
      else Some True)"
  by pat_completeness auto
termination by (relation "measure (\<lambda>(_, end, i). end - i)") auto

definition SubString :: "(nat \<Rightarrow> u16) \<Rightarrow> String \<Rightarrow> nat \<Rightarrow> nat \<Rightarrow> StringPtr option" where
  "SubString mem str begin_index len =
     (if begin_index \<le> Length str \<and> len = 0 then Some (Some (OneByteString []))
      else if Length str < begin_index then Some None
      else do {
        is_one_byte_string \<leftarrow>
          (if CharSize str = kTwoByteChar then SubString_latin1 str (begin_index + len) begin_index
           else Some True);
        result \<leftarrow> (if is_one_byte_string then OneByteString_New mem len else TwoByteString_New mem len);
        result \<leftarrow> Copy_String result 0 str begin_index len;
        Some (Some result) })"

definition SubString_from :: "(nat \<Rightarrow> u16) \<Rightarrow> String \<Rightarrow> nat \<Rightarrow> StringPtr option" where
  "SubString_from mem str begin_index =
     (if Length str \<le> begin_index then Some None
      else SubString mem str begin_index (Length str - begin_index))"

definition SubStringUnchecked :: "(nat \<Rightarrow> u16) \<Rightarrow> String \<Rightarrow> nat \<Rightarrow> nat \<Rightarrow> String option" where
  "SubStringUnchecked mem str begin_index len =
     (case str of
        OneByteString s \<Rightarrow>
          if begin_index \<le> Length str \<and> len = 0 then Some (OneByteString [])
          else if begin_index < Length str then do {
            result \<leftarrow> OneByteString_New mem len;
            if 0 < len then map_option OneByteString (memmove (fresh mem len) 0 (drop begin_index s) len)
            else Some result }
          else None
      | _ \<Rightarrow> None)"

section \<open>Hash codes\<close>

definition CombineHashes :: "u32 \<Rightarrow> u32 \<Rightarrow> u32" where
  "CombineHashes hash other_hash =
     (let hash = hash + other_hash;
          hash = hash + push_bit 10 hash
      in hash XOR drop_bit 6 hash)"

definition FinalizeHash :: "u32 \<Rightarrow> nat \<Rightarrow> u32" where
  "FinalizeHash hash hashbits =
     (let hash = hash + push_bit 3 hash;
          hash = hash XOR drop_bit 11 hash;
          hash = hash + push_bit 15 hash;
          hash = ucast (ucast hash AND (push_bit hashbits 1 - 1 :: u64))
      in if hash = 0 then 1 else hash)"

definition HashBytes :: "u8 list \<Rightarrow> u32" where
  "HashBytes bytes = foldl (\<lambda>hash b. CombineHashes hash (ucast b)) (of_nat (length bytes)) bytes"

text \<open>\<open>StringHasher\<close>: its state is the 32-bit word \<open>hash_\<close>.\<close>

definition Hasher_Add :: "u32 \<Rightarrow> u16 \<Rightarrow> u32" where
  "Hasher_Add hash code_unit = CombineHashes hash (ucast code_unit)"

definition Hasher_Add_Latin1 :: "u32 \<Rightarrow> u8 list \<Rightarrow> u32" where
  "Hasher_Add_Latin1 hash code_units = foldl (\<lambda>h c. Hasher_Add h (ucast c)) hash code_units"

definition Hasher_Add_UTF16 :: "u32 \<Rightarrow> u16 list \<Rightarrow> u32" where
  "Hasher_Add_UTF16 hash code_units = foldl Hasher_Add hash code_units"

primrec one_byte_data :: "String \<Rightarrow> u8 list" where
  "one_byte_data (OneByteString d) = d"
| "one_byte_data (ExternalOneByteString d) = d"
| "one_byte_data (TwoByteString d) = []"
| "one_byte_data (ExternalTwoByteString d) = []"

primrec two_byte_data :: "String \<Rightarrow> u16 list" where
  "two_byte_data (OneByteString d) = []"
| "two_byte_data (ExternalOneByteString d) = []"
| "two_byte_data (TwoByteString d) = d"
| "two_byte_data (ExternalTwoByteString d) = d"

definition Hasher_Add_String :: "u32 \<Rightarrow> String \<Rightarrow> nat \<Rightarrow> nat \<Rightarrow> u32 option" where
  "Hasher_Add_String hash str begin_index len =
     (if begin_index + len \<le> Length str then
        if len = 0 then Some hash
        else if IsOneByteString str then
          Some (Hasher_Add_Latin1 hash (take len (drop begin_index (one_byte_data str))))
        else if IsExternalOneByteString str then
          Some (Hasher_Add_Latin1 hash (take len (drop begin_index (one_byte_data str))))
        else if IsTwoByteString str then
          Some (Hasher_Add_UTF16 hash (take len (drop begin_index (two_byte_data str))))
        else if IsExternalOneByteString str then
          Some (Hasher_Add_UTF16 hash (take len (drop begin_index (two_byte_data str))))
        else None
      else None)"

definition Hasher_Finalize :: "u32 \<Rightarrow> u32" where
  "Hasher_Finalize hash = FinalizeHash hash kHashBits"

definition Hash_range :: "String \<Rightarrow> nat \<Rightarrow> nat \<Rightarrow> u32 option" where
  "Hash_range str begin_index len = map_option Hasher_Finalize (Hasher_Add_String 0 str begin_index len)"

definition HashConcat :: "String \<Rightarrow> String \<Rightarrow> u32 option" where
  "HashConcat str1 str2 = do {
     hash \<leftarrow> Hasher_Add_String 0 str1 0 (Length str1);
     hash \<leftarrow> Hasher_Add_String hash str2 0 (Length str2);
     Some (Hasher_Finalize hash) }"

definition Hash_Latin1 :: "u8 list \<Rightarrow> u32" where
  "Hash_Latin1 characters = Hasher_Finalize (Hasher_Add_Latin1 0 characters)"

definition Hash_UTF16 :: "u16 list \<Rightarrow> u32" where
  "Hash_UTF16 characters = Hasher_Finalize (Hasher_Add_UTF16 0 characters)"

primrec Hash_raw :: "String \<Rightarrow> u32" where
  "Hash_raw (OneByteString data) = Hash_Latin1 data"
| "Hash_raw (ExternalOneByteString data) = Hash_Latin1 data"
| "Hash_raw (TwoByteString data) = Hash_UTF16 data"
| "Hash_raw (ExternalTwoByteString data) = Hash_UTF16 data"

section \<open>Escapes and private keys\<close>

definition IsSpecialCharacter :: "'a::len word \<Rightarrow> bool" where
  "IsSpecialCharacter c \<longleftrightarrow>
     c = 34 \<or> c = 10 \<or> c = 12 \<or> c = 8 \<or> c = 9 \<or> c = 11 \<or> c = 13 \<or> c = 92 \<or> c = 36"

definition IsAsciiNonprintable :: "'a::len word \<Rightarrow> bool" where
  "IsAsciiNonprintable c \<longleftrightarrow> unat c < 32 \<or> unat c = 127"

definition EscapeOverhead :: "'a::len word \<Rightarrow> nat" where
  "EscapeOverhead c = (if IsSpecialCharacter c then 1 else if IsAsciiNonprintable c then 3 else 0)"

definition SpecialCharacter :: "'a::len word \<Rightarrow> 'a word option" where
  "SpecialCharacter c =
     (if c = 34 then Some 34 else if c = 10 then Some 110 else if c = 12 then Some 102
      else if c = 8 then Some 98 else if c = 9 then Some 116 else if c = 11 then Some 118
      else if c = 13 then Some 114 else if c = 92 then Some 92 else if c = 36 then Some 36 else None)"

definition hex_digits :: "nat list" where
  "hex_digits = [48, 49, 50, 51, 52, 53, 54, 55, 56, 57, 65, 66, 67, 68, 69, 70]"

definition GetHexCharacter :: "nat \<Rightarrow> nat option" where
  "GetHexCharacter c = (if c < 16 then Some (hex_digits ! c) else None)"

primrec escape_loop :: "'a::len word list \<Rightarrow> nat \<Rightarrow> 'a word list \<Rightarrow> 'a word list option" where
  "escape_loop dst index [] = Some dst"
| "escape_loop dst index (ch # chs) =
     (if IsSpecialCharacter ch then do {
        dst \<leftarrow> write_at dst index 92;
        c \<leftarrow> SpecialCharacter ch;
        dst \<leftarrow> write_at dst (index + 1) c;
        escape_loop dst (index + 2) chs }
      else if IsAsciiNonprintable ch then do {
        dst \<leftarrow> write_at dst index 92;
        dst \<leftarrow> write_at dst (index + 1) 120;
        h \<leftarrow> GetHexCharacter (unat ch div 16);
        dst \<leftarrow> write_at dst (index + 2) (of_nat h);
        l \<leftarrow> GetHexCharacter (unat ch mod 16);
        dst \<leftarrow> write_at dst (index + 3) (of_nat l);
        escape_loop dst (index + 4) chs }
      else do {
        dst \<leftarrow> write_at dst index ch;
        escape_loop dst (index + 1) chs })"

definition escaped_length :: "'a::len word list \<Rightarrow> nat" where
  "escaped_length d = length d + sum_list (map EscapeOverhead d)"

definition OneByteString_EscapeSpecialCharacters :: "(nat \<Rightarrow> u16) \<Rightarrow> u8 list \<Rightarrow> String option" where
  "OneByteString_EscapeSpecialCharacters mem d =
     (if 0 < length d then do {
        dststr \<leftarrow> OneByteString_New mem (escaped_length d);
        map_option OneByteString (escape_loop (one_byte_data dststr) 0 d) }
      else Some (OneByteString []))"

definition TwoByteString_EscapeSpecialCharacters :: "(nat \<Rightarrow> u16) \<Rightarrow> u16 list \<Rightarrow> String option" where
  "TwoByteString_EscapeSpecialCharacters mem d =
     (if 0 < length d then do {
        dststr \<leftarrow> TwoByteString_New mem (escaped_length d);
        map_option TwoByteString (escape_loop (two_byte_data dststr) 0 d) }
      else TwoByteString_New mem 0)"

definition EscapeSpecialCharacters :: "(nat \<Rightarrow> u16) \<Rightarrow> String \<Rightarrow> String option" where
  "EscapeSpecialCharacters mem str =
     (case str of
        OneByteString d \<Rightarrow> OneByteString_EscapeSpecialCharacters mem d
      | TwoByteString d \<Rightarrow> TwoByteString_EscapeSpecialCharacters mem d
      | ExternalOneByteString d \<Rightarrow> OneByteString_EscapeSpecialCharacters mem d
      | ExternalTwoByteString d \<Rightarrow> do {
          copy \<leftarrow> TwoByteString_New mem (Length str);
          copy \<leftarrow> Copy_String copy 0 str 0 (Length str);
          TwoByteString_EscapeSpecialCharacters mem (two_byte_data copy) })"

definition kPrivateKeySeparator :: u16 where "kPrivateKeySeparator = 0x40"

definition at_key_end :: "u16 \<Rightarrow> bool" where
  "at_key_end c \<longleftrightarrow> c = 0x2E \<or> c = 0x26"

function skip_key :: "String \<Rightarrow> nat \<Rightarrow> nat \<Rightarrow> nat option" where
  "skip_key str1 len pos =
     (if pos < len then do {
        c \<leftarrow> CharAt str1 pos;
        if \<not> at_key_end c then skip_key str1 len (pos + 1) else Some pos }
      else Some pos)"
  by pat_completeness auto
termination by (relation "measure (\<lambda>(_, len, pos). len - pos)") auto

declare skip_key.simps [simp del]

lemma skip_key_ge: "skip_key str1 len pos = Some pos' \<Longrightarrow> pos \<le> pos'"
  by (induction str1 len pos rule: skip_key.induct)
    (subst (asm) (2) skip_key.simps, force split: if_splits bind_splits)

function EqualsIgnoringPrivateKey_loop :: "String \<Rightarrow> String \<Rightarrow> nat \<Rightarrow> nat \<Rightarrow> nat \<Rightarrow> nat \<Rightarrow> bool option" where
  "EqualsIgnoringPrivateKey_loop str1 str2 len str2_len pos str2_pos =
     (if pos < len then do {
        ch \<leftarrow> CharAt str1 pos;
        same \<leftarrow> (if str2_pos < str2_len then map_option (\<lambda>d. ch = d) (CharAt str2 str2_pos) else Some False);
        if same then EqualsIgnoringPrivateKey_loop str1 str2 len str2_len (pos + 1) (str2_pos + 1)
        else if ch = kPrivateKeySeparator then do {
          pos' \<leftarrow> skip_key str1 len (pos + 1);
          EqualsIgnoringPrivateKey_loop str1 str2 len str2_len pos' str2_pos }
        else Some False }
      else if pos = len then Some (str2_pos = str2_len) else None)"
  by pat_completeness auto
termination by (relation "measure (\<lambda>(_, _, len, _, pos, _). len - pos)") (auto dest!: skip_key_ge)

definition EqualsIgnoringPrivateKey :: "String \<Rightarrow> String \<Rightarrow> bool option" where
  "EqualsIgnoringPrivateKey str1 str2 =
     (let len = Length str1; str2_len = Length str2 in
      if len = str2_len then Equals_loop str1 str2 0 len 0
      else if len < str2_len then Some False
      else EqualsIgnoringPrivateKey_loop str1 str2 len str2_len 0 0)"

declare Equals_loop.simps [simp del] Equals_array_loop.simps [simp del] Equals_UTF32_loop.simps [simp del]
  CompareTo_loop.simps [simp del] EndsWith_loop.simps [simp del] SubString_latin1.simps [simp del]
  EqualsIgnoringPrivateKey_loop.simps [simp del]

section \<open>Strings as sequences of code units\<close>

primrec units :: "String \<Rightarrow> u16 list" where
  "units (OneByteString d) = map ucast d"
| "units (TwoByteString d) = d"
| "units (ExternalOneByteString d) = map ucast d"
| "units (ExternalTwoByteString d) = d"

named_theorems string_units "operations on strings as operations on their code units"

lemma Length_units [string_units]: "Length str = length (units str)"
  by (cases str) simp_all

lemma CharAt_units [string_units]: "CharAt str i = read_at (units str) i"
  by (cases str) (simp_all add: read_at_def)

lemma read_at_Some [simp]: "i < length a \<Longrightarrow> read_at a i = Some (a ! i)"
  by (simp add: read_at_def)

lemma CharSize_cases: "CharSize str = kOneByteChar \<or> CharSize str = kTwoByteChar"
  by (simp add: CharSize_def)

lemma one_byte_units:
  "CharSize str = kOneByteChar \<Longrightarrow> units str = map ucast (one_byte_data str) \<and> two_byte_data str = []"
  by (cases str) (simp_all add: CharSize_def kOneByteChar_def kTwoByteChar_def)

lemma two_byte_units: "CharSize str = kTwoByteChar \<Longrightarrow> units str = two_byte_data str"
  by (cases str) (simp_all add: CharSize_def kOneByteChar_def kTwoByteChar_def)

lemma Equals_loop_units:
  assumes "len \<le> length (units this)" "b + len \<le> length (units str)" "i \<le> len"
  shows "Equals_loop this str b len i =
    Some (drop i (take len (units this)) = drop (b + i) (take (b + len) (units str)))"
  using assms(3)
proof (induction "len - i" arbitrary: i)
  case 0
  then show ?case using assms by (subst Equals_loop.simps) simp
next
  case (Suc n)
  have i: "i < len" using Suc.hyps(2) by simp
  have d: "drop i (take len (units this)) = units this ! i # drop (Suc i) (take len (units this))"
    "drop (b + i) (take (b + len) (units str)) = units str ! (b + i) # drop (Suc (b + i)) (take (b + len) (units str))"
    using Suc.hyps(2) assms by (simp_all add: Cons_nth_drop_Suc [symmetric])
  show ?case
    using Suc.hyps(1) [of "Suc i"] Suc.hyps(2) i assms
    by (subst Equals_loop.simps) (simp add: string_units d del: drop_take)
qed

lemma Equals_range_units:
  assumes "b = 0 \<or> b < Length str" "b + len \<le> Length str"
  shows "Equals_range this str b len = Some (units this = take len (drop b (units str)))"
proof (cases "len = Length this")
  case True
  then show ?thesis
    using assms Equals_loop_units [of len this b str 0] by (simp add: Equals_range_def string_units take_drop add.commute)
next
  case False
  then have "units this \<noteq> take len (drop b (units str))"
    using assms(2) by (metis Length_units add_leD2 length_take length_drop min.absorb2 le_diff_conv2 add.commute add_leD1)
  then show ?thesis using False assms by (simp add: Equals_range_def)
qed

section \<open>Copying\<close>

lemma store_all_put: "j + length xs \<le> length dst \<Longrightarrow> store_all dst j xs = Some (put dst j xs)"
proof (induction xs arbitrary: dst j)
  case (Cons x xs)
  then have "store_all dst j (x # xs) = store_all (put dst j [x]) (j + 1) xs" by (simp add: write_at_put)
  also have "\<dots> = Some (put (put dst j [x]) (j + 1) xs)" using Cons by simp
  also have "\<dots> = Some (put dst j (x # xs))" using Cons.prems put_put [of j "[x]" xs dst] by simp
  finally show ?case .
qed simp

lemma memmove_put:
  "len \<le> length src \<Longrightarrow> j + len \<le> length dst \<Longrightarrow> memmove dst j src len = Some (put dst j (take len src))"
  by (simp add: memmove_def store_all_put)

lemma map_put: "map f (put d j xs) = put (map f d) j (map f xs)"
  by (simp add: put_def take_map drop_map)

lemma length_fresh [simp]: "length (fresh mem len) = len"
  by (simp add: fresh_def)

lemma put_whole: "length xs = length d \<Longrightarrow> put d 0 xs = xs"
  by (simp add: put_def)

lemma map_ucast_ucast:
  "list_all (\<lambda>u. unat u \<le> 0xFF) us \<Longrightarrow> map ucast (map (ucast :: u16 \<Rightarrow> u8) us) = us"
  by (induction us) (simp_all add: word_unat_eq_iff unat_ucast)

abbreviation latin1_units :: "u16 list \<Rightarrow> bool" where
  "latin1_units us \<equiv> list_all (\<lambda>u. unat u \<le> 0xFF) us"

lemma latin1_ucast [simp]: "latin1_units (map ucast (d :: u8 list))"
proof -
  have "unat (ucast b :: u16) \<le> 0xFF" for b :: u8
    using unsigned_less [of b, where ?'a = nat] by (simp add: unat_ucast)
  then show ?thesis by (simp add: list_all_iff)
qed

lemma latin1_one_byte: "CharSize str = kOneByteChar \<Longrightarrow> latin1_units (units str)"
  using one_byte_units [of str] by simp

text \<open>A destination is a string in the heap: external strings are never written.\<close>

definition writable :: "String \<Rightarrow> bool" where
  "writable dst \<longleftrightarrow> IsOneByteString dst \<or> IsTwoByteString dst"

definition holds :: "String \<Rightarrow> u16 list \<Rightarrow> bool" where
  "holds dst us \<longleftrightarrow> IsTwoByteString dst \<or> IsOneByteString dst \<and> latin1_units us"

lemma Copy_Latin1_units:
  assumes "writable dst" "dst_offset + len \<le> Length dst" "len \<le> length characters"
  obtains dst' where "Copy_Latin1 dst dst_offset characters len = Some dst'"
    "units dst' = put (units dst) dst_offset (map ucast (take len characters))"
    "IsOneByteString dst' = IsOneByteString dst" "IsTwoByteString dst' = IsTwoByteString dst"
proof (cases dst)
  case (OneByteString d)
  then show ?thesis
    using assms that [of "OneByteString (put d dst_offset (take len characters))"]
    by (cases "len = 0") (auto simp: Copy_Latin1_def memmove_put map_put)
next
  case (TwoByteString d)
  then show ?thesis
    using assms that [of "TwoByteString (put d dst_offset (map ucast (take len characters)))"]
    by (simp add: Copy_Latin1_def memmove_put take_map)
qed (use assms(1) in \<open>simp_all add: writable_def\<close>)

lemma Copy_UTF16_units:
  assumes "holds dst (take len utf16_array)" "dst_offset + len \<le> Length dst" "len \<le> length utf16_array"
  obtains dst' where "Copy_UTF16 dst dst_offset utf16_array len = Some dst'"
    "units dst' = put (units dst) dst_offset (take len utf16_array)"
    "IsOneByteString dst' = IsOneByteString dst" "IsTwoByteString dst' = IsTwoByteString dst"
proof (cases dst)
  case (OneByteString d)
  have l: "latin1_units (take len utf16_array)" using assms(1) OneByteString by (simp add: holds_def)
  then have "list_all (\<lambda>u. IsLatin1 (ucast u)) (take len utf16_array)"
    by (simp add: list_all_iff IsLatin1_iff)
  then show ?thesis
    using OneByteString assms(2,3) l map_ucast_ucast [OF l]
      that [of "OneByteString (put d dst_offset (map ucast (take len utf16_array)))"]
    by (simp add: Copy_UTF16_def memmove_put map_put take_map)
next
  case (TwoByteString d)
  then show ?thesis
    using assms that [of "TwoByteString (put d dst_offset (take len utf16_array))"]
    by (cases "len = 0") (auto simp: Copy_UTF16_def memmove_put)
qed (use assms(1) in \<open>simp_all add: holds_def\<close>)

lemma Copy_String_units:
  assumes "holds dst (take len (drop src_offset (units src)))" "dst_offset + len \<le> Length dst"
    "src_offset + len \<le> Length src"
  obtains dst' where "Copy_String dst dst_offset src src_offset len = Some dst'"
    "units dst' = put (units dst) dst_offset (take len (drop src_offset (units src)))"
    "IsOneByteString dst' = IsOneByteString dst" "IsTwoByteString dst' = IsTwoByteString dst"
proof (cases "len = 0")
  case True
  then show ?thesis using assms that [of dst] by (simp add: Copy_String_def)
next
  case False
  have w: "writable dst" using assms(1) by (auto simp: holds_def writable_def)
  have r: "Copy_String dst dst_offset src src_offset len =
      (if CharSize src = kOneByteChar then Copy_Latin1 dst dst_offset (drop src_offset (one_byte_data src)) len
       else Copy_UTF16 dst dst_offset (drop src_offset (two_byte_data src)) len)"
    using False assms(2,3)
    by (cases src) (auto simp: Copy_String_def CharSize_def kOneByteChar_def kTwoByteChar_def)
  show ?thesis
  proof (cases "CharSize src = kOneByteChar")
    case True
    then have u: "units src = map ucast (one_byte_data src)" by (simp add: one_byte_units)
    show ?thesis
      by (rule Copy_Latin1_units [OF w assms(2), of "drop src_offset (one_byte_data src)"])
        (use assms(3) u True r that in \<open>auto simp: string_units take_map drop_map\<close>)
  next
    case two: False
    then have u: "units src = two_byte_data src" using CharSize_cases two_byte_units by metis
    show ?thesis
      by (rule Copy_UTF16_units [of dst len "drop src_offset (two_byte_data src)" dst_offset])
        (use assms u two r that in \<open>auto simp: string_units\<close>)
  qed
qed

lemma New_units:
  assumes "len \<le> kMaxElements"
  shows "\<exists>s. OneByteString_New mem len = Some s \<and> IsOneByteString s \<and> Length s = len"
    "\<exists>s. TwoByteString_New mem len = Some s \<and> IsTwoByteString s \<and> Length s = len"
  using assms by (simp_all add: OneByteString_New_def TwoByteString_New_def)

lemma holds_append: "holds dst (us @ vs) \<longleftrightarrow> holds dst us \<and> holds dst vs"
  by (auto simp: holds_def)

lemma holds_same: "IsOneByteString d = IsOneByteString e \<Longrightarrow> IsTwoByteString d = IsTwoByteString e \<Longrightarrow> holds d us = holds e us"
  by (simp add: holds_def)

lemma Copy_whole:
  assumes "holds dst (units src)" "dst_offset + Length src \<le> Length dst"
  obtains dst' where "Copy_String dst dst_offset src 0 (Length src) = Some dst'"
    "units dst' = put (units dst) dst_offset (units src)"
    "IsOneByteString dst' = IsOneByteString dst" "IsTwoByteString dst' = IsTwoByteString dst"
  by (rule Copy_String_units [of dst "Length src" 0 src dst_offset])
    (use assms that in \<open>auto simp: string_units\<close>)

lemma ConcatAll_loop_units:
  assumes "holds r (concat (map units strs))" "pos + length (concat (map units strs)) \<le> Length r"
    "Length r \<le> kMaxElements"
  shows "\<exists>r'. ConcatAll_loop r pos strs = Some r' \<and> units r' = put (units r) pos (concat (map units strs))"
  using assms
proof (induction strs arbitrary: r pos)
  case (Cons s strs)
  obtain r1 where r1: "Copy_String r pos s 0 (Length s) = Some r1" "units r1 = put (units r) pos (units s)"
    "IsOneByteString r1 = IsOneByteString r" "IsTwoByteString r1 = IsTwoByteString r"
    by (rule Copy_whole [of r s pos]) (use Cons.prems in \<open>auto simp: holds_append string_units\<close>)
  have len: "Length r1 = Length r" using Cons.prems(2) by (simp add: string_units r1(2))
  have "holds r1 (concat (map units strs))" using Cons.prems(1) holds_same [OF r1(3,4)] by (simp add: holds_append)
  then obtain r' where r': "ConcatAll_loop r1 (pos + Length s) strs = Some r'"
    "units r' = put (units r1) (pos + Length s) (concat (map units strs))"
    using Cons.IH [of r1 "pos + Length s"] Cons.prems len by (auto simp: string_units)
  have "put (units r1) (pos + Length s) (concat (map units strs)) = put (units r) pos (concat (map units (s # strs)))"
    unfolding r1(2) using put_put [of pos "units s" "concat (map units strs)" "units r"] Cons.prems(2)
    by (simp add: string_units)
  then show ?case using r1(1) r' Cons.prems by (simp add: string_units)
qed simp

lemma ConcatAll_size_eq:
  "ConcatAll_size strs n c =
     (if n + length (concat (map units strs)) \<le> kMaxElements \<or> strs = []
      then Some (n + length (concat (map units strs)), fold (\<lambda>s c. max c (CharSize s)) strs c) else None)"
  by (induction strs arbitrary: n c) (auto simp: string_units)

lemma fold_CharSize:
  "fold (\<lambda>s c. max c (CharSize s)) strs c = kOneByteChar \<Longrightarrow> c = kOneByteChar \<or> c = kTwoByteChar \<Longrightarrow>
     latin1_units (concat (map units strs)) \<and> c = kOneByteChar"
proof (induction strs arbitrary: c)
  case (Cons s strs)
  have "max c (CharSize s) = kOneByteChar \<or> max c (CharSize s) = kTwoByteChar"
    using Cons.prems(2) CharSize_cases [of s] by (auto simp: kOneByteChar_def kTwoByteChar_def)
  then have "latin1_units (concat (map units strs))" "max c (CharSize s) = kOneByteChar"
    using Cons.IH [of "max c (CharSize s)"] Cons.prems(1) by auto
  moreover have "c = kOneByteChar" "CharSize s = kOneByteChar"
    using calculation(2) Cons.prems(2) CharSize_cases [of s] by (auto simp: kOneByteChar_def kTwoByteChar_def)
  ultimately show ?case using latin1_one_byte by simp
qed simp

lemma Concat_units:
  assumes "Length s1 + Length s2 \<le> kMaxElements"
  shows "\<exists>r. Concat mem s1 s2 = Some r \<and> units r = units s1 @ units s2 \<and> CharSize r = max (CharSize s1) (CharSize s2)"
proof -
  have into: "\<exists>r'. do { r \<leftarrow> Copy_String r 0 s1 0 (Length s1); Copy_String r (Length s1) s2 0 (Length s2) } = Some r' \<and>
      units r' = units s1 @ units s2 \<and> IsOneByteString r' = IsOneByteString r \<and> IsTwoByteString r' = IsTwoByteString r"
    if h: "holds r (units s1 @ units s2)" "Length r = Length s1 + Length s2" for r
  proof -
    obtain r1 where r1: "Copy_String r 0 s1 0 (Length s1) = Some r1" "units r1 = put (units r) 0 (units s1)"
      "IsOneByteString r1 = IsOneByteString r" "IsTwoByteString r1 = IsTwoByteString r"
      by (rule Copy_whole [of r s1 0]) (use h in \<open>auto simp: holds_append\<close>)
    have l1: "Length r1 = Length r" using h(2) by (simp add: string_units r1(2))
    obtain r2 where r2: "Copy_String r1 (Length s1) s2 0 (Length s2) = Some r2"
      "units r2 = put (units r1) (Length s1) (units s2)"
      "IsOneByteString r2 = IsOneByteString r1" "IsTwoByteString r2 = IsTwoByteString r1"
      by (rule Copy_whole [of r1 s2 "Length s1"]) (use h r1 l1 in \<open>auto simp: holds_def\<close>)
    have "units r2 = units s1 @ units s2"
      using h(2) by (simp add: r2(2) r1(2) string_units put_def)
    then show ?thesis using r1 r2 by simp
  qed
  show ?thesis
  proof (cases "max (CharSize s1) (CharSize s2) = kTwoByteChar")
    case True
    obtain r where r: "TwoByteString_New mem (Length s1 + Length s2) = Some r" "IsTwoByteString r"
      "Length r = Length s1 + Length s2" using New_units(2) [OF assms] by blast
    then obtain r' where "TwoByteString_Concat mem s1 s2 = Some r'" "units r' = units s1 @ units s2" "IsTwoByteString r'"
      using into [of r] by (auto simp: holds_def TwoByteString_Concat_def)
    then show ?thesis using True by (cases r') (simp_all add: Concat_def CharSize_def)
  next
    case False
    then have one: "CharSize s1 = kOneByteChar" "CharSize s2 = kOneByteChar"
      using CharSize_cases [of s1] CharSize_cases [of s2] by (auto simp: kOneByteChar_def kTwoByteChar_def)
    obtain r where r: "OneByteString_New mem (Length s1 + Length s2) = Some r" "IsOneByteString r"
      "Length r = Length s1 + Length s2" using New_units(1) [OF assms] by blast
    then obtain r' where "OneByteString_Concat mem s1 s2 = Some r'" "units r' = units s1 @ units s2" "IsOneByteString r'"
      using into [of r] latin1_one_byte one by (auto simp: holds_def OneByteString_Concat_def)
    then show ?thesis using False one by (cases r') (simp_all add: Concat_def CharSize_def)
  qed
qed

lemma ConcatAllRange_units:
  assumes "end \<le> length strings" "start \<le> end"
  defines "us \<equiv> concat (map units (drop start (take end strings)))"
  shows "case ConcatAllRange mem strings start end of
      Inl e \<Rightarrow> e = ThrowOOM \<and> kMaxElements < length us
    | Inr r \<Rightarrow> units r = us \<and> length us \<le> kMaxElements"
proof -
  define strs where "strs = drop start (take end strings)"
  define c where "c = fold (\<lambda>s c. max c (CharSize s)) strs kOneByteChar"
  have us: "us = concat (map units strs)" by (simp add: us_def strs_def)
  have range: "ConcatAllRange mem strings start end =
      (case ConcatAll_size strs 0 kOneByteChar of
         None \<Rightarrow> Inl ThrowOOM
       | Some (result_len, char_size) \<Rightarrow>
           (case if char_size = kOneByteChar then OneByteString_ConcatAll mem strs result_len
                 else TwoByteString_ConcatAll mem strs result_len of
              None \<Rightarrow> Inl AssertFailed | Some r \<Rightarrow> Inr r))"
    using assms(1) by (simp add: ConcatAllRange_def Let_def flip: strs_def)
  show ?thesis
  proof (cases "length us \<le> kMaxElements")
    case False
    then have "ConcatAll_size strs 0 kOneByteChar = None" by (auto simp: ConcatAll_size_eq us)
    then show ?thesis using False by (simp add: range)
  next
    case True
    then have s: "ConcatAll_size strs 0 kOneByteChar = Some (length us, c)" by (simp add: ConcatAll_size_eq us c_def)
    have "\<exists>r. (if c = kOneByteChar then OneByteString_ConcatAll mem strs (length us)
             else TwoByteString_ConcatAll mem strs (length us)) = Some r \<and> units r = us"
    proof (cases "c = kOneByteChar")
      case one: True
      then have l: "latin1_units us" using fold_CharSize [of strs kOneByteChar] by (simp add: c_def us)
      obtain r where r: "OneByteString_New mem (length us) = Some r" "IsOneByteString r" "Length r = length us"
        using New_units(1) [OF True] by blast
      then show ?thesis
        using ConcatAll_loop_units [of r strs 0] l one True
        by (auto simp: OneByteString_ConcatAll_def holds_def us put_whole Length_units)
    next
      case two: False
      obtain r where r: "TwoByteString_New mem (length us) = Some r" "IsTwoByteString r" "Length r = length us"
        using New_units(2) [OF True] by blast
      then show ?thesis
        using ConcatAll_loop_units [of r strs 0] two True
        by (auto simp: TwoByteString_ConcatAll_def holds_def us put_whole Length_units)
    qed
    then show ?thesis using True by (auto simp: range s)
  qed
qed

lemma SubString_latin1_units:
  assumes "end \<le> length (units str)" "i \<le> end"
  shows "SubString_latin1 str end i = Some (latin1_units (drop i (take end (units str))))"
  using assms(2)
proof (induction "end - i" arbitrary: i)
  case 0
  then show ?case using assms by (subst SubString_latin1.simps) simp
next
  case (Suc n)
  have i: "i < end" using Suc.hyps(2) by simp
  have d: "drop i (take end (units str)) = units str ! i # drop (Suc i) (take end (units str))"
    using i assms by (simp add: Cons_nth_drop_Suc [symmetric])
  show ?case
    using Suc.hyps(1) [of "Suc i"] Suc.hyps(2) i assms
    by (subst SubString_latin1.simps) (simp add: string_units d IsLatin1_iff del: drop_take)
qed

lemma SubString_units:
  assumes "begin_index + len \<le> Length str" "len \<le> kMaxElements"
  shows "\<exists>r. SubString mem str begin_index len = Some (Some r) \<and> units r = take len (drop begin_index (units str)) \<and>
    (CharSize r = kOneByteChar \<longleftrightarrow> latin1_units (units r))"
proof (cases "len = 0")
  case True
  then show ?thesis using assms by (simp add: SubString_def CharSize_def)
next
  case False
  define us where "us = take len (drop begin_index (units str))"
  have us: "us = drop begin_index (take (begin_index + len) (units str))" "length us = len"
    using assms by (simp_all add: us_def take_drop string_units add.commute)
  have one: "(if CharSize str = kTwoByteChar then SubString_latin1 str (begin_index + len) begin_index else Some True)
      = Some (latin1_units us)"
  proof (cases "CharSize str = kTwoByteChar")
    case True
    then show ?thesis using SubString_latin1_units [of "begin_index + len" str begin_index] assms us by (simp add: string_units)
  next
    case False
    then have "CharSize str = kOneByteChar" using CharSize_cases by auto
    then have "latin1_units us" using latin1_one_byte [of str] us_def by (auto simp: list_all_iff dest: in_set_takeD in_set_dropD)
    then show ?thesis using False by simp
  qed
  obtain r where r: "(if latin1_units us then OneByteString_New mem len else TwoByteString_New mem len) = Some r"
    "holds r us" "Length r = len" "CharSize r = kOneByteChar \<longleftrightarrow> latin1_units us"
    using assms(2) by (cases "latin1_units us")
      (auto simp: OneByteString_New_def TwoByteString_New_def holds_def CharSize_def kOneByteChar_def kTwoByteChar_def)
  obtain r' where r': "Copy_String r 0 str begin_index len = Some r'" "units r' = put (units r) 0 us"
    "IsOneByteString r' = IsOneByteString r" "IsTwoByteString r' = IsTwoByteString r"
    by (rule Copy_String_units [of r len begin_index str 0]) (use r assms us_def in auto)
  have "units r' = us" using r'(2) r(3) us(2) by (simp add: put_whole string_units)
  moreover have "CharSize r' = CharSize r"
    using r'(3,4) r(2) by (cases r; cases r') (auto simp: CharSize_def holds_def)
  ultimately show ?thesis
    using assms False one r r'(1) by (auto simp: SubString_def us_def)
qed

section \<open>Order and hash codes\<close>

lemma less_Nil_cases: "us = [] \<or> vs = [] \<Longrightarrow> us < vs \<longleftrightarrow> length us < length vs" for us vs :: "u16 list"
  by (cases us; cases vs) auto

definition order_sign :: "u16 list \<Rightarrow> u16 list \<Rightarrow> int" where
  "order_sign us vs = (if us < vs then - 1 else if vs < us then 1 else 0)"

lemma order_sign_Cons:
  "order_sign (x # xs) (y # ys) = (if x < y then - 1 else if y < x then 1 else order_sign xs ys)"
  by (auto simp: order_sign_def)

definition length_sign :: "u16 list \<Rightarrow> u16 list \<Rightarrow> int" where
  "length_sign us vs = (if length us < length vs then - 1 else if length vs < length us then 1 else 0)"

lemma CompareTo_loop_units:
  fixes this other
  defines "u \<equiv> units this" and "v \<equiv> units other"
  assumes "i \<le> min (length u) (length v)"
  shows "\<exists>r. CompareTo_loop this other (min (length u) (length v)) i = Some r \<and>
    (if r \<noteq> 0 then r else length_sign u v) = order_sign (drop i u) (drop i v)"
  using assms(3)
proof (induction "min (length u) (length v) - i" arbitrary: i)
  case 0
  then have i: "i = min (length u) (length v)" by simp
  then have "drop i u = [] \<or> drop i v = []" by auto
  then have "length_sign u v = order_sign (drop i u) (drop i v)"
    using i less_Nil_cases [of "drop i u" "drop i v"] less_Nil_cases [of "drop i v" "drop i u"]
    by (auto simp: length_sign_def order_sign_def)
  then show ?case using i by (subst CompareTo_loop.simps) simp
next
  case (Suc n)
  have i: "i < length u" "i < length v" using Suc.hyps(2) by simp_all
  have d: "drop i u = u ! i # drop (Suc i) u" "drop i v = v ! i # drop (Suc i) v"
    using i by (simp_all add: Cons_nth_drop_Suc)
  have c: "CompareTo_loop this other (min (length u) (length v)) i =
      (if u ! i < v ! i then Some (- 1) else if v ! i < u ! i then Some 1
       else CompareTo_loop this other (min (length u) (length v)) (Suc i))"
    using i by (subst CompareTo_loop.simps) (simp add: CharAt_units u_def v_def)
  have m: "n = min (length u) (length v) - Suc i" "Suc i \<le> min (length u) (length v)"
    using Suc.hyps(2) i by linarith+
  obtain r where r: "CompareTo_loop this other (min (length u) (length v)) (Suc i) = Some r"
    "(if r \<noteq> 0 then r else length_sign u v) = order_sign (drop (Suc i) u) (drop (Suc i) v)"
    using Suc.hyps(1) [OF m] by blast
  show ?case unfolding c d order_sign_Cons using r by (auto split: if_splits)
qed

lemma CompareTo_units: "CompareTo this (Some other) = Some (order_sign (units this) (units other))"
proof -
  define u v where "u = units this" and "v = units other"
  have "(if length u < length v then length u else length v) = min (length u) (length v)" by simp
  then show ?thesis
    using CompareTo_loop_units [of 0 this other]
    by (auto simp: CompareTo_def Length_units Let_def length_sign_def split: if_splits simp flip: u_def v_def)
qed

lemma Hasher_Add_units:
  assumes "begin_index + len \<le> Length str" "IsExternalTwoByteString str \<longrightarrow> len = 0"
  shows "Hasher_Add_String hash str begin_index len =
    Some (Hasher_Add_UTF16 hash (take len (drop begin_index (units str))))"
proof -
  have u: "Hasher_Add_Latin1 h d = Hasher_Add_UTF16 h (map ucast d)" for h d
    by (simp add: Hasher_Add_Latin1_def Hasher_Add_UTF16_def foldl_map)
  show ?thesis
    using assms
    by (cases str) (auto simp: Hasher_Add_String_def u take_map drop_map Hasher_Add_UTF16_def)
qed

lemma Hash_raw_units: "Hash_raw str = Hash_UTF16 (units str)"
  by (cases str) (simp_all add: Hash_Latin1_def Hash_UTF16_def Hasher_Add_Latin1_def Hasher_Add_UTF16_def foldl_map)

lemma FinalizeHash_range:
  assumes "0 < hashbits" "hashbits \<le> 32"
  shows "0 < unat (FinalizeHash hash hashbits)" "unat (FinalizeHash hash hashbits) < 2 ^ hashbits"
proof -
  have m: "push_bit hashbits 1 - 1 = (mask hashbits :: u64)"
    by (simp add: mask_eq_exp_minus_1 push_bit_eq_mult)
  have b: "unat (ucast (ucast (h :: u32) AND (mask hashbits :: u64)) :: u32) < 2 ^ hashbits" for h
  proof -
    have "unat (ucast h AND (mask hashbits :: u64)) < 2 ^ hashbits" by (simp only: unat_and_mask) simp
    then show ?thesis by (metis le_less_trans mod_less_eq_dividend unat_ucast)
  qed
  have one: "(1::nat) < 2 ^ hashbits" using assms(1) by (intro one_less_power) simp_all
  show "0 < unat (FinalizeHash hash hashbits)" "unat (FinalizeHash hash hashbits) < 2 ^ hashbits"
    unfolding FinalizeHash_def m Let_def using b one by (simp_all add: unat_gt_0)
qed

section \<open>Escaped strings\<close>

definition escape_char :: "'a::len word \<Rightarrow> 'a word list" where
  "escape_char c =
     (if IsSpecialCharacter c then [92, the (SpecialCharacter c)]
      else if IsAsciiNonprintable c then [92, 120, of_nat (hex_digits ! (unat c div 16)), of_nat (hex_digits ! (unat c mod 16))]
      else [c])"

lemma length_escape_char: "length (escape_char c) = 1 + EscapeOverhead c"
  by (simp add: escape_char_def EscapeOverhead_def)

lemma escaped_length_eq: "escaped_length d = length (concat (map escape_char d))"
  by (induction d) (simp_all add: escaped_length_def length_escape_char)

lemma SpecialCharacter_total: "IsSpecialCharacter c \<Longrightarrow> SpecialCharacter c = Some (the (SpecialCharacter c))"
  by (auto simp: IsSpecialCharacter_def SpecialCharacter_def)

lemma put_step:
  "j + length xs + length ys \<le> length dst \<Longrightarrow> k = j + length xs \<Longrightarrow> put (put dst j xs) k ys = put dst j (xs @ ys)"
  using put_put by blast

lemma escape_loop_step:
  assumes "index + length (escape_char c) \<le> length dst"
  shows "escape_loop dst index (c # cs) = escape_loop (put dst index (escape_char c)) (index + length (escape_char c)) cs"
proof -
  consider (special) "IsSpecialCharacter c" | (hex) "\<not> IsSpecialCharacter c" "IsAsciiNonprintable c"
    | (plain) "\<not> IsSpecialCharacter c" "\<not> IsAsciiNonprintable c" by blast
  then show ?thesis
  proof cases
    case special
    obtain s where "SpecialCharacter c = Some s" using SpecialCharacter_total [OF special] by blast
    then show ?thesis using assms special by (simp add: escape_char_def write_at_put put_step)
  next
    case hex
    then have "unat c div 16 < 16" by (auto simp: IsAsciiNonprintable_def)
    moreover have four: "index + 4 = Suc (Suc (Suc (Suc index)))" by simp
    ultimately show ?thesis
      using assms hex by (simp add: escape_char_def write_at_put put_step GetHexCharacter_def)
        (simp only: four)
  next
    case plain
    then show ?thesis using assms by (simp add: escape_char_def write_at_put)
  qed
qed

lemma escape_loop_put:
  "index + length (concat (map escape_char cs)) \<le> length dst \<Longrightarrow>
     escape_loop dst index cs = Some (put dst index (concat (map escape_char cs)))"
proof (induction cs arbitrary: index dst)
  case (Cons c cs)
  then have "escape_loop dst index (c # cs) =
      escape_loop (put dst index (escape_char c)) (index + length (escape_char c)) cs"
    by (intro escape_loop_step) simp
  also have "\<dots> = Some (put (put dst index (escape_char c)) (index + length (escape_char c)) (concat (map escape_char cs)))"
    using Cons by (intro Cons.IH) simp
  finally show ?case using Cons.prems by (simp add: put_step)
qed simp

lemma escape_whole:
  "escape_loop (fresh mem (escaped_length d)) 0 d = Some (concat (map escape_char d))"
  by (simp add: escape_loop_put escaped_length_eq put_whole)

lemma ucast_of_nat_iff:
  assumes "n < 256"
  shows "(ucast (c :: u8) :: u16) = of_nat n \<longleftrightarrow> c = of_nat n"
proof -
  have "unat (ucast c :: u16) = unat c" using unsigned_less [of c, where ?'a = nat] by (simp add: unat_ucast)
  moreover have "unat (of_nat n :: u16) = n" "unat (of_nat n :: u8) = n" using assms by (simp_all add: unat_of_nat)
  ultimately show ?thesis by (simp only: word_unat_eq_iff)
qed

lemmas special_ucast_iff = ucast_of_nat_iff [of 34, simplified] ucast_of_nat_iff [of 10, simplified]
  ucast_of_nat_iff [of 12, simplified] ucast_of_nat_iff [of 8, simplified] ucast_of_nat_iff [of 9, simplified]
  ucast_of_nat_iff [of 11, simplified] ucast_of_nat_iff [of 13, simplified] ucast_of_nat_iff [of 92, simplified]
  ucast_of_nat_iff [of 36, simplified]

lemma escape_char_ucast: "map ucast (escape_char c) = escape_char (ucast (c :: u8) :: u16)"
proof -
  have u: "unat (ucast c :: u16) = unat c" using unsigned_less [of c, where ?'a = nat] by (simp add: unat_ucast)
  have n: "IsAsciiNonprintable (ucast c :: u16) = IsAsciiNonprintable c" by (simp add: IsAsciiNonprintable_def u)
  have s: "IsSpecialCharacter (ucast c :: u16) = IsSpecialCharacter c" by (simp add: IsSpecialCharacter_def special_ucast_iff)
  have m: "SpecialCharacter (ucast c :: u16) = map_option ucast (SpecialCharacter c)"
    by (simp add: SpecialCharacter_def special_ucast_iff)
  have h: "ucast (of_nat (hex_digits ! k) :: u8) = (of_nat (hex_digits ! k) :: u16)" if "k < 16" for k
  proof -
    have "list_all (\<lambda>h. ucast (of_nat h :: u8) = (of_nat h :: u16)) hex_digits" by (simp add: hex_digits_def)
    then show ?thesis using that by (simp add: list_all_length hex_digits_def)
  qed
  have "IsAsciiNonprintable c \<Longrightarrow> unat c div 16 < 16" by (auto simp: IsAsciiNonprintable_def)
  moreover obtain t where "IsSpecialCharacter c \<Longrightarrow> SpecialCharacter c = Some t"
    using SpecialCharacter_total by blast
  ultimately show ?thesis by (auto simp: escape_char_def n s m u h)
qed

lemma escape_units:
  assumes "length (concat (map escape_char (units str))) \<le> kMaxElements"
  shows "\<exists>r. EscapeSpecialCharacters mem str = Some r \<and> units r = concat (map escape_char (units str))"
proof -
  have e: "concat (map (escape_char \<circ> ucast) d) = map (ucast :: u8 \<Rightarrow> u16) (concat (map escape_char d))" for d :: "u8 list"
    by (induction d) (simp_all add: escape_char_ucast [symmetric])
  have "length us \<le> length (concat (map escape_char us))" for us :: "u16 list"
    by (induction us) (simp_all add: length_escape_char)
  then have len: "Length str \<le> kMaxElements" using assms le_trans by (fastforce simp: string_units)
  have two: "\<exists>r. TwoByteString_EscapeSpecialCharacters mem d = Some r \<and> units r = concat (map escape_char d) \<and> IsTwoByteString r"
    if "length (concat (map escape_char d)) \<le> kMaxElements" for d
    using that escape_whole [of mem d]
    by (auto simp: TwoByteString_EscapeSpecialCharacters_def TwoByteString_New_def escaped_length_eq fresh_def)
  have one: "\<exists>r. OneByteString_EscapeSpecialCharacters mem d = Some r \<and> units r = map ucast (concat (map escape_char d)) \<and> IsOneByteString r"
    if "length (concat (map escape_char d)) \<le> kMaxElements" for d
    using that escape_whole [of mem d]
    by (auto simp: OneByteString_EscapeSpecialCharacters_def OneByteString_New_def escaped_length_eq)
  show ?thesis
  proof (cases str)
    case (ExternalTwoByteString d)
    obtain r where r: "TwoByteString_New mem (Length str) = Some r" "IsTwoByteString r" "Length r = Length str"
      using New_units(2) [OF len] by blast
    obtain r' where "Copy_String r 0 str 0 (Length str) = Some r'" "units r' = put (units r) 0 (units str)" "IsTwoByteString r'"
      by (rule Copy_whole [of r str 0]) (use r in \<open>auto simp: holds_def\<close>)
    moreover have "put (units r) 0 (units str) = units str" using r(3) by (simp add: put_whole Length_units)
    ultimately have r': "Copy_String r 0 str 0 (Length str) = Some r'" "two_byte_data r' = d"
      using ExternalTwoByteString by (cases r'; auto)+
    obtain ra where "TwoByteString_EscapeSpecialCharacters mem d = Some ra" "units ra = concat (map escape_char d)"
      "IsTwoByteString ra" using two [of d] assms ExternalTwoByteString by auto
    then show ?thesis
      using r(1) r' ExternalTwoByteString by (intro exI [of _ ra]) (simp add: EscapeSpecialCharacters_def)
  next
    case (TwoByteString d)
    then show ?thesis using two [of d] assms by (auto simp: EscapeSpecialCharacters_def)
  qed (use one assms in \<open>fastforce simp: EscapeSpecialCharacters_def e\<close>)+
qed

text \<open>What a reader of escaped text recovers.\<close>

definition hex_value :: "u16 \<Rightarrow> nat" where
  "hex_value h = (if unat h < 58 then unat h - 48 else unat h - 55)"

definition unspecial :: "u16 \<Rightarrow> u16" where
  "unspecial d =
     (if d = 110 then 10 else if d = 102 then 12 else if d = 98 then 8 else if d = 116 then 9
      else if d = 118 then 11 else if d = 114 then 13 else d)"

fun unescape :: "u16 list \<Rightarrow> u16 list" where
  "unescape [] = []"
| "unescape (c # cs) =
     (if c \<noteq> 92 then c # unescape cs
      else case cs of
          [] \<Rightarrow> []
        | d # ds \<Rightarrow>
            if d \<noteq> 120 then unspecial d # unescape ds
            else (case ds of h # l # es \<Rightarrow> of_nat (16 * hex_value h + hex_value l) # unescape es | _ \<Rightarrow> []))"

lemma hex_value_digits: "k < 16 \<Longrightarrow> hex_value (of_nat (hex_digits ! k)) = k"
proof -
  have "list_all (\<lambda>k. hex_value (of_nat (hex_digits ! k)) = k) [0..<16]" by code_simp
  then show "k < 16 \<Longrightarrow> hex_value (of_nat (hex_digits ! k)) = k" by (simp add: list_all_iff)
qed

lemma unescape_escape_char: "unescape (escape_char c @ cs) = c # unescape cs"
proof -
  consider (special) "IsSpecialCharacter c" | (hex) "\<not> IsSpecialCharacter c" "IsAsciiNonprintable c"
    | (plain) "\<not> IsSpecialCharacter c" "\<not> IsAsciiNonprintable c" by blast
  then show ?thesis
  proof cases
    case special
    then show ?thesis
      unfolding IsSpecialCharacter_def
      by (elim disjE) (simp_all add: escape_char_def IsSpecialCharacter_def SpecialCharacter_def unspecial_def)
  next
    case hex
    then have "unat c div 16 < 16" "unat c mod 16 < 16" by (auto simp: IsAsciiNonprintable_def)
    then have "16 * hex_value (of_nat (hex_digits ! (unat c div 16))) + hex_value (of_nat (hex_digits ! (unat c mod 16))) = unat c"
      by (simp only: hex_value_digits) simp
    then have "of_nat (16 * hex_value (of_nat (hex_digits ! (unat c div 16))) + hex_value (of_nat (hex_digits ! (unat c mod 16)))) = c"
      by (simp only: of_nat_unat) simp
    then show ?thesis using hex by (simp add: escape_char_def)
  next
    case plain
    then have "c \<noteq> 92" by (auto simp: IsSpecialCharacter_def)
    then show ?thesis using plain by (simp add: escape_char_def)
  qed
qed

lemma unescape_escape: "unescape (concat (map escape_char us)) = us"
  by (induction us) (simp_all add: unescape_escape_char)

section \<open>Private keys\<close>

text \<open>A name without its private keys: from every separator up to the next \<open>.\<close> or \<open>&\<close>.\<close>

function strip_keys :: "u16 list \<Rightarrow> u16 list" where
  "strip_keys [] = []"
| "strip_keys (c # cs) =
     (if c = kPrivateKeySeparator then strip_keys (dropWhile (\<lambda>c. \<not> at_key_end c) cs) else c # strip_keys cs)"
  by pat_completeness auto
termination by (relation "measure length") (auto simp: le_imp_less_Suc length_dropWhile_le)

lemma length_strip_keys: "length (strip_keys us) \<le> length us"
proof (induction us rule: strip_keys.induct)
  case (2 c cs)
  then show ?case
    using length_dropWhile_le [of "\<lambda>c. \<not> at_key_end c" cs] by (cases "c = kPrivateKeySeparator") auto
qed simp

lemma strip_keys_id_iff: "length (strip_keys us) = length us \<longleftrightarrow> kPrivateKeySeparator \<notin> set us"
proof (induction us rule: strip_keys.induct)
  case (2 c cs)
  then show ?case
    using length_dropWhile_le [of "\<lambda>c. \<not> at_key_end c" cs]
      length_strip_keys [of "dropWhile (\<lambda>c. \<not> at_key_end c) cs"]
    by (cases "c = kPrivateKeySeparator") auto
qed simp

lemma strip_keys_plain: "kPrivateKeySeparator \<notin> set us \<Longrightarrow> strip_keys us = us"
  by (induction us rule: strip_keys.induct) auto

lemma skip_key_units:
  assumes "pos \<le> length (units str1)"
  shows "\<exists>pos'. skip_key str1 (length (units str1)) pos = Some pos' \<and> pos' \<le> length (units str1) \<and> pos \<le> pos' \<and>
    drop pos' (units str1) = dropWhile (\<lambda>c. \<not> at_key_end c) (drop pos (units str1))"
  using assms
proof (induction "length (units str1) - pos" arbitrary: pos)
  case 0
  then show ?case by (subst skip_key.simps) simp
next
  case (Suc n)
  have p: "pos < length (units str1)" using Suc.hyps(2) by simp
  have d: "drop pos (units str1) = units str1 ! pos # drop (Suc pos) (units str1)"
    using p by (simp add: Cons_nth_drop_Suc)
  have m: "n = length (units str1) - Suc pos" "Suc pos \<le> length (units str1)" using Suc.hyps(2) p by linarith+
  obtain pos' where "skip_key str1 (length (units str1)) (Suc pos) = Some pos'" "pos' \<le> length (units str1)"
    "Suc pos \<le> pos'" "drop pos' (units str1) = dropWhile (\<lambda>c. \<not> at_key_end c) (drop (Suc pos) (units str1))"
    using Suc.hyps(1) [OF m] by blast
  then show ?case
    using p by (subst skip_key.simps) (cases "at_key_end (units str1 ! pos)"; simp add: CharAt_units d)
qed

lemma EqualsIgnoringPrivateKey_loop_units:
  fixes str1 str2
  defines "u \<equiv> units str1" and "v \<equiv> units str2"
  assumes "kPrivateKeySeparator \<notin> set v" "pos \<le> length u" "q \<le> length v"
  shows "EqualsIgnoringPrivateKey_loop str1 str2 (length u) (length v) pos q =
    Some (strip_keys (drop pos u) = drop q v)"
  using assms(4,5)
proof (induction "length u - pos" arbitrary: pos q rule: less_induct)
  case less
  show ?case
  proof (cases "pos < length u")
    case False
    then show ?thesis using less.prems by (subst EqualsIgnoringPrivateKey_loop.simps) auto
  next
    case True
    have du: "drop pos u = u ! pos # drop (Suc pos) u" using True by (simp add: Cons_nth_drop_Suc)
    obtain pos' where s: "skip_key str1 (length u) (Suc pos) = Some pos'" "pos' \<le> length u" "Suc pos \<le> pos'"
      "drop pos' u = dropWhile (\<lambda>c. \<not> at_key_end c) (drop (Suc pos) u)"
      using skip_key_units [of "Suc pos" str1] True by (auto simp: u_def)
    have skip: "EqualsIgnoringPrivateKey_loop str1 str2 (length u) (length v) pos' q = Some (strip_keys (drop pos' u) = drop q v)"
      using less.hyps [of pos' q] True s less.prems by simp
    have r: "CharAt str1 pos = Some (u ! pos)" "q < length v \<Longrightarrow> CharAt str2 q = Some (v ! q)"
      using True by (simp_all add: CharAt_units u_def v_def)
    show ?thesis
    proof (cases "q < length v")
      case q: True
      have dv: "drop q v = v ! q # drop (Suc q) v" using q by (simp add: Cons_nth_drop_Suc)
      have sep: "v ! q \<noteq> kPrivateKeySeparator" using assms(3) q by (metis nth_mem)
      have same: "EqualsIgnoringPrivateKey_loop str1 str2 (length u) (length v) (Suc pos) (Suc q) =
          Some (strip_keys (drop (Suc pos) u) = drop (Suc q) v)"
        using less.hyps [of "Suc pos" "Suc q"] True q by simp
      show ?thesis
        using True q r s(1) skip same sep s(4) by (subst EqualsIgnoringPrivateKey_loop.simps) (auto simp: du dv)
    next
      case q: False
      then show ?thesis
        using True r s(1) skip s(4) less.prems by (subst EqualsIgnoringPrivateKey_loop.simps) (auto simp: du)
    qed
  qed
qed

section \<open>Properties\<close>

lemma HashConcat_units:
  "HashConcat str1 str2 =
     (if (IsExternalTwoByteString str1 \<and> 0 < Length str1) \<or> (IsExternalTwoByteString str2 \<and> 0 < Length str2) then None
      else Some (Hash_UTF16 (units str1 @ units str2)))"
proof -
  have part: "Hasher_Add_String h str 0 (Length str) =
      (if IsExternalTwoByteString str \<and> 0 < Length str then None else Some (Hasher_Add_UTF16 h (units str)))" for h str
    using Hasher_Add_units [of 0 "Length str" str h]
    by (cases str) (auto simp: Hasher_Add_String_def Length_units Hasher_Add_UTF16_def)
  show ?thesis by (auto simp: HashConcat_def part Hash_UTF16_def Hasher_Add_UTF16_def)
qed

lemma EqualsConcat_units:
  "EqualsConcat this str1 str2 =
     (if Length str2 = 0 \<and> 0 < Length str1 \<and> units this = units str1 then None
      else Some (units this = units str1 @ units str2))"
proof (cases "Length this = Length str1 + Length str2")
  case True
  have one: "Equals_range str1 this 0 (Length str1) = Some (units str1 = take (Length str1) (units this))"
    using Equals_range_units [of 0 this "Length str1" str1] True by simp
  show ?thesis
  proof (cases "Length str2 = 0 \<and> 0 < Length str1")
    case empty: True
    then have "Equals_range str2 this (Length str1) (Length str2) = None" using True by (simp add: Equals_range_def)
    then show ?thesis using empty one True by (auto simp: EqualsConcat_def Length_units)
  next
    case False
    then have "Equals_range str2 this (Length str1) (Length str2) = Some (units str2 = drop (Length str1) (units this))"
      using Equals_range_units [of "Length str1" this "Length str2" str2] True by (auto simp: Length_units)
    moreover have "units this = units str1 @ units str2 \<longleftrightarrow>
        units str1 = take (Length str1) (units this) \<and> units str2 = drop (Length str1) (units this)"
      unfolding Length_units by (subst eq_commute) (rule append_eq_conv_conj)
    moreover have "\<not> (Length str2 = 0 \<and> 0 < Length str1 \<and> units this = units str1)" using False by blast
    ultimately show ?thesis using one True by (simp only: EqualsConcat_def if_True if_False bind_eq_Some_conv) simp
  qed
next
  case False
  then show ?thesis by (auto simp: EqualsConcat_def Length_units)
qed

text \<open>
  C17. The contract behind looking up the concatenation of two strings in the symbol table without
  building it, for strings whose total length is allowed.  \<open>String::Concat\<close> yields the code units of both
  strings.  \<open>HashConcat\<close> of the parts is the hash of the result, a nonzero 30-bit number, unless a part is a
  non-empty external two-byte string, on which \<open>StringHasher::Add\<close> is unreachable code.  \<open>EqualsConcat\<close>
  accepts exactly the strings with the code units of both parts, unless only the second part is empty and
  the string equals the first, where its assertion on \<open>begin_index\<close> fails.
\<close>

theorem concat_key_consistent:
  assumes "Length str1 + Length str2 \<le> kMaxElements"
  shows "\<exists>r h. Concat mem str1 str2 = Some r \<and> units r = units str1 @ units str2 \<and>
    Hash_range r 0 (Length r) = Some h \<and> Hash_raw r = h \<and> 0 < unat h \<and> unat h < 2 ^ 30 \<and>
    HashConcat str1 str2 =
      (if (IsExternalTwoByteString str1 \<and> 0 < Length str1) \<or> (IsExternalTwoByteString str2 \<and> 0 < Length str2) then None
       else Some h) \<and>
    (\<forall>this. EqualsConcat this str1 str2 =
      (if Length str2 = 0 \<and> 0 < Length str1 \<and> units this = units str1 then None
       else Some (units this = units str1 @ units str2)))"
proof -
  obtain r where r: "Concat mem str1 str2 = Some r" "units r = units str1 @ units str2"
    "CharSize r = max (CharSize str1) (CharSize str2)" using Concat_units [OF assms] by blast
  define h where "h = Hash_UTF16 (units r)"
  have "\<not> IsExternalTwoByteString r"
    using r(1) by (cases r) (auto simp: Concat_def TwoByteString_Concat_def OneByteString_Concat_def
        OneByteString_New_def TwoByteString_New_def Copy_String_def Copy_Latin1_def Copy_UTF16_def Let_def
        split: if_splits bind_splits String.splits)
  then have "Hash_range r 0 (Length r) = Some h"
    using Hasher_Add_units [of 0 "Length r" r] by (simp add: Hash_range_def h_def Hash_UTF16_def Length_units)
  moreover have "0 < unat h" "unat h < 2 ^ 30"
    using FinalizeHash_range [of kHashBits] by (simp_all add: h_def Hash_UTF16_def Hasher_Finalize_def kHashBits_def)
  ultimately show ?thesis using r by (auto simp: Hash_raw_units h_def HashConcat_units EqualsConcat_units)
qed

theorem concat_key_consistent_witness:
  "\<exists>r h. Concat (\<lambda>_. 0) (OneByteString [0x61]) (TwoByteString [0x20AC]) = Some r \<and>
    units r = [0x61, 0x20AC] \<and> HashConcat (OneByteString [0x61]) (TwoByteString [0x20AC]) = Some h \<and>
    Hash_range r 0 (Length r) = Some h \<and> Hash_raw r = h \<and>
    EqualsConcat r (OneByteString [0x61]) (TwoByteString [0x20AC]) = Some True \<and>
    EqualsConcat (TwoByteString [0x61, 0x20AD]) (OneByteString [0x61]) (TwoByteString [0x20AC]) = Some False"
proof -
  have "Length (OneByteString [0x61]) + Length (TwoByteString [0x20AC]) \<le> kMaxElements"
    by (simp add: kMaxElements_def kSmiMax_def kTwoByteChar_def)
  from concat_key_consistent [OF this, of "\<lambda>_. 0"] show ?thesis by auto
qed

text \<open>
  The last branch of \<open>StringHasher::Add\<close> repeats the test for external one-byte strings, so that the
  hash of an external two-byte string ends in \<^verbatim>\<open>UNREACHABLE\<close>; \<open>EqualsConcat\<close> fails its assertion on
  \<open>begin_index\<close> when only the second string is empty.
\<close>

lemma external_two_byte_hash_unreachable:
  "us \<noteq> [] \<Longrightarrow> Hash_range (ExternalTwoByteString us) 0 (length us) = None"
  by (simp add: Hash_range_def Hasher_Add_String_def)

lemma EqualsConcat_empty_second:
  assumes "units this = units str1" "Length str2 = 0" "0 < Length str1"
  shows "EqualsConcat this str1 str2 = None"
  using assms Equals_range_units [of 0 this "Length str1" str1]
  by (simp add: EqualsConcat_def Length_units Equals_range_def)

text \<open>
  C29. \<open>String::ConcatAllRange\<close> either throws the out-of-memory error, exactly when the result would
  exceed the maximal number of elements, or returns the concatenated code units of the selected
  strings; it never fails an assertion.
\<close>

theorem ConcatAllRange_exact:
  assumes "start \<le> end" "end \<le> length strings"
  shows "case ConcatAllRange mem strings start end of
      Inl e \<Rightarrow> e = ThrowOOM \<and> kMaxElements < length (concat (map units (drop start (take end strings))))
    | Inr r \<Rightarrow> units r = concat (map units (drop start (take end strings))) \<and> Length r \<le> kMaxElements"
  using ConcatAllRange_units [OF assms(2,1), of mem] by (auto simp: Length_units split: sum.splits)

theorem ConcatAllRange_exact_witness:
  "case ConcatAllRange (\<lambda>_. 0) [OneByteString [1], TwoByteString [2]] 0 2 of
      Inl e \<Rightarrow> e = ThrowOOM \<and> kMaxElements <
        length (concat (map units (drop 0 (take 2 [OneByteString [1], TwoByteString [2]]))))
    | Inr r \<Rightarrow> units r = concat (map units (drop 0 (take 2 [OneByteString [1], TwoByteString [2]]))) \<and>
        Length r \<le> kMaxElements"
  by (rule ConcatAllRange_exact) simp_all

text \<open>
  C28. \<open>String::SubString\<close> of a range inside a string returns the code units of the range, in a
  one-byte string exactly when all of them are Latin-1.
\<close>

theorem SubString_exact:
  assumes "begin_index + len \<le> Length str" "Length str \<le> kMaxElements"
  shows "\<exists>r. SubString mem str begin_index len = Some (Some r) \<and> units r = take len (drop begin_index (units str)) \<and>
    (CharSize r = kOneByteChar \<longleftrightarrow> list_all (\<lambda>u. unat u \<le> 0xFF) (units r))"
  using assms by (intro SubString_units) simp_all

theorem SubString_exact_witness:
  "\<exists>r. SubString (\<lambda>_. 0) (TwoByteString [0x20AC, 0x61, 0x62]) 1 2 = Some (Some r) \<and>
    units r = take 2 (drop 1 (units (TwoByteString [0x20AC, 0x61, 0x62]))) \<and>
    (CharSize r = kOneByteChar \<longleftrightarrow> list_all (\<lambda>u. unat u \<le> 0xFF) (units r))"
  by (rule SubString_exact) (simp_all add: kMaxElements_def kSmiMax_def kTwoByteChar_def)

text \<open>
  C30. \<open>String::EscapeSpecialCharacters\<close> fills exactly the string it allocates, without writing past
  its end, and loses nothing: reading the escapes back gives the original code units.
\<close>

theorem EscapeSpecialCharacters_exact:
  assumes "length (concat (map escape_char (units str))) \<le> kMaxElements"
  shows "\<exists>r. EscapeSpecialCharacters mem str = Some r \<and> units r = concat (map escape_char (units str)) \<and>
    unescape (units r) = units str"
  using escape_units [OF assms, of mem] by (auto simp: unescape_escape)

theorem EscapeSpecialCharacters_exact_witness:
  "\<exists>r. EscapeSpecialCharacters (\<lambda>_. 0) (OneByteString [0x61, 10, 1]) = Some r \<and>
    units r = concat (map escape_char (units (OneByteString [0x61, 10, 1]))) \<and>
    unescape (units r) = units (OneByteString [0x61, 10, 1])"
  by (rule EscapeSpecialCharacters_exact)
    (simp add: escape_char_def IsSpecialCharacter_def IsAsciiNonprintable_def kMaxElements_def kSmiMax_def kTwoByteChar_def)

text \<open>
  C31. \<open>String::EqualsIgnoringPrivateKey\<close> of a possibly mangled name and a name without separators
  answers whether the first, stripped of its private keys, is the second.
\<close>

theorem EqualsIgnoringPrivateKey_exact:
  assumes "kPrivateKeySeparator \<notin> set (units str2)"
  shows "EqualsIgnoringPrivateKey str1 str2 = Some (strip_keys (units str1) = units str2)"
proof -
  consider "Length str1 = Length str2" | "Length str1 < Length str2" | "Length str2 < Length str1" by linarith
  then show ?thesis
  proof cases
    case 1
    have "strip_keys (units str1) = units str2 \<longleftrightarrow> units str1 = units str2"
      using 1 assms strip_keys_id_iff [of "units str1"] strip_keys_plain by (metis Length_units)
    then show ?thesis
      using 1 Equals_loop_units [of "Length str1" str1 0 str2 0]
      by (simp add: EqualsIgnoringPrivateKey_def Length_units)
  next
    case 2
    then show ?thesis
      using length_strip_keys [of "units str1"] by (auto simp: EqualsIgnoringPrivateKey_def Length_units)
  next
    case 3
    then show ?thesis
      using EqualsIgnoringPrivateKey_loop_units [of str2 0 str1 0] assms
      by (simp add: EqualsIgnoringPrivateKey_def Length_units)
  qed
qed

theorem EqualsIgnoringPrivateKey_exact_witness:
  "EqualsIgnoringPrivateKey (OneByteString [0x5F, 0x66, 0x40, 0x31, 0x2E, 0x61]) (OneByteString [0x5F, 0x66, 0x2E, 0x61]) =
    Some (strip_keys (units (OneByteString [0x5F, 0x66, 0x40, 0x31, 0x2E, 0x61])) = units (OneByteString [0x5F, 0x66, 0x2E, 0x61]))"
  by (rule EqualsIgnoringPrivateKey_exact) (simp add: kPrivateKeySeparator_def)

text \<open>
  \<open>String::CompareTo\<close> orders strings lexicographically by their code units, independently of their
  representation.
\<close>

theorem CompareTo_lexicographic:
  "CompareTo this (Some other) =
     Some (if units this < units other then - 1 else if units other < units this then 1 else 0)"
  by (simp add: CompareTo_units order_sign_def)

end
