(* ===== verification/Ascii_Words.thy ===== *)
theory Ascii_Words
  imports Unicode_Codec
begin

text \<open>
  The words of eight characters that \<^verbatim>\<open>Utf8::Length\<close> and \<^verbatim>\<open>Utf8::Encode\<close> of
  \<^verbatim>\<open>runtime/vm/unicode.cc\<close> read from a one-byte string: the test for plain ASCII and the count of the
  characters above 0x7F, on a 64-bit little-endian host.
\<close>

definition kAsciiWordMask :: u64 where "kAsciiWordMask = 0x8080808080808080"

text \<open>The 64-bit load of eight bytes, and the bytes of a 64-bit store.\<close>

primrec le_word :: "u8 list \<Rightarrow> u64" where
  "le_word [] = 0"
| "le_word (b # bs) = ucast b OR push_bit 8 (le_word bs)"

definition load_word :: "u8 list \<Rightarrow> nat \<Rightarrow> u64 option" where
  "load_word a i = (if i + 8 \<le> length a then Some (le_word (take 8 (drop i a))) else None)"

definition word_bytes :: "u64 \<Rightarrow> u8 list" where
  "word_bytes w = map (\<lambda>k. ucast (drop_bit (8 * k) w)) [0..<8]"

definition count_high :: "u64 \<Rightarrow> u64" where
  "count_high chunk =
     (let chunk = chunk + drop_bit 32 chunk;
          chunk = chunk + drop_bit 16 chunk;
          chunk = chunk + drop_bit 8 chunk
      in drop_bit 7 chunk AND 0xf)"

section \<open>Words of eight characters\<close>

lemma bit_le_word:
  "bit (le_word bs) n \<longleftrightarrow> n < 64 \<and> n div 8 < length bs \<and> bit (bs ! (n div 8)) (n mod 8)"
proof (induction bs arbitrary: n)
  case (Cons b bs)
  show ?case
  proof (cases "n < 8")
    case True
    then show ?thesis by (auto simp: bit_simps)
  next
    case False
    then obtain m where m: "n = m + 8" by (metis add.commute le_Suc_ex not_less)
    moreover have "(m + 8) div 8 = Suc (m div 8)" by simp
    ultimately show ?thesis using Cons.IH [of m] by (auto simp: bit_simps dest: bit_imp_le_length)
  qed
qed simp

lemma word_bytes_le_word:
  assumes "length bs = 8"
  shows "word_bytes (le_word bs) = bs"
proof (rule nth_equalityI)
  fix k assume "k < length (word_bytes (le_word bs))"
  then have k: "k < 8" by (simp add: word_bytes_def)
  have "ucast (drop_bit (8 * k) (le_word bs)) = bs ! k"
  proof (rule bit_word_eqI)
    fix j assume "j < LENGTH(8)"
    then have "j < 8" by simp
    moreover have "8 * k + j < 64" using k \<open>j < 8\<close> by linarith
    ultimately show "bit (ucast (drop_bit (8 * k) (le_word bs)) :: u8) j = bit (bs ! k) j"
      using assms k by (simp add: bit_simps bit_le_word)
  qed
  then show "word_bytes (le_word bs) ! k = bs ! k" using k by (simp add: word_bytes_def)
qed (simp add: word_bytes_def assms)

lemma le_word_AND:
  assumes "length as = length bs"
  shows "le_word as AND le_word bs = le_word (map2 (AND) as bs)"
  by (rule bit_word_eqI) (use assms in \<open>auto simp: bit_simps bit_le_word\<close>)

lemma le_word_mask:
  assumes "length bs = 8"
  shows "le_word bs AND kAsciiWordMask = le_word (map (\<lambda>b. b AND 0x80) bs)"
proof -
  have "kAsciiWordMask = le_word (replicate 8 0x80)" by code_simp
  moreover have "map2 (AND) bs (replicate 8 0x80) = map (\<lambda>b. b AND 0x80) bs"
    by (simp only: zip_replicate2 assms [symmetric] take_all order_refl map_map comp_def split)
  ultimately show ?thesis using le_word_AND [of bs "replicate 8 0x80"] assms by (simp only: length_replicate)
qed

definition high :: "u8 list \<Rightarrow> nat" where
  "high bs = length (filter (\<lambda>b. 128 \<le> unat b) bs)"

lemma high_simps [simp]:
  "high [] = 0" "high (b # bs) = (if 128 \<le> unat b then 1 else 0) + high bs" "high (xs @ ys) = high xs + high ys"
  by (simp_all add: high_def)

lemma top_bit_byte: "b AND 0x80 = (if 128 \<le> unat b then 0x80 else 0)" for b :: u8
proof -
  have "bit b 7 \<longleftrightarrow> 128 \<le> unat b"
    using bit_top [of 7 b] bit_imp_exp_le [of b 7] unsigned_less [of b, where ?'a = nat] by auto
  then show ?thesis by (intro bit_word_eqI) (auto simp: bit_simps lt_8_cases)
qed

text \<open>The three shifts and additions count the marked bytes: all 256 patterns of marks are evaluated.\<close>

abbreviation mark :: "bool \<Rightarrow> u8" where
  "mark b \<equiv> (if b then 0x80 else 0)"

lemma count_high_marks:
  "unat (count_high (le_word [mark a, mark b, mark c, mark d, mark e, mark f, mark g, mark h])) =
     of_bool a + of_bool b + of_bool c + of_bool d + of_bool e + of_bool f + of_bool g + of_bool h"
  by (cases a; cases b; cases c; cases d; cases e; cases f; cases g; cases h; simp add: count_high_def)

lemma length_8: "length xs = 8 \<longleftrightarrow> (\<exists>a b c d e f g h. xs = [a, b, c, d, e, f, g, h])"
  by (auto simp: numeral_eq_Suc length_Suc_conv)

lemma count_high_word:
  assumes "length bs = 8"
  shows "unat (count_high (le_word bs AND kAsciiWordMask)) = high bs"
    and "le_word bs AND kAsciiWordMask = 0 \<longleftrightarrow> high bs = 0"
proof -
  let ?hs = "map (\<lambda>b. b AND 0x80) bs"
  show c: "unat (count_high (le_word bs AND kAsciiWordMask)) = high bs"
  proof -
    obtain a b c d e f g h where bs: "bs = [a, b, c, d, e, f, g, h]" using assms by (simp only: length_8) (elim exE, rule that)
    show ?thesis
      unfolding le_word_mask [OF assms] unfolding bs list.map top_bit_byte count_high_marks
      by (simp add: of_bool_def add.assoc split del: if_split)
  qed
  have "high bs = 0 \<Longrightarrow> ?hs = replicate 8 0"
    using assms by (intro replicate_eqI) (auto simp: high_def top_bit_byte filter_empty_conv)
  moreover have "le_word (replicate 8 0) = 0" by code_simp
  moreover have "count_high 0 = 0" by (simp add: count_high_def)
  ultimately show "le_word bs AND kAsciiWordMask = 0 \<longleftrightarrow> high bs = 0"
    using c assms by (metis le_word_mask unsigned_0)
qed


end
