(* ===== verification/String_Transcoding.thy ===== *)
theory String_Transcoding
  imports Dart_String Ascii_Words
begin

text \<open>
  Strings and their encodings: the iteration over code points and the constructors of
  \<^verbatim>\<open>runtime/vm/object.cc\<close>, the string cases of \<^verbatim>\<open>Utf8::Length\<close> and \<^verbatim>\<open>Utf8::Encode\<close> of
  \<^verbatim>\<open>runtime/vm/unicode.cc\<close> and the comparison with C strings.  Memory from the allocators holds the
  bytes \<open>mem\<close>.
\<close>

section \<open>Iterating over code points\<close>

record CodePointIterator =
  cpi_str :: String
  cpi_ch :: u32
  cpi_index :: int
  cpi_end :: int

definition new_CodePointIterator :: "String \<Rightarrow> CodePointIterator" where
  "new_CodePointIterator str = \<lparr>cpi_str = str, cpi_ch = 0, cpi_index = - 1, cpi_end = int (Length str)\<rparr>"

definition Current :: "CodePointIterator \<Rightarrow> u32 option" where
  "Current it = (if 0 \<le> cpi_index it \<and> cpi_index it < cpi_end it then Some (cpi_ch it) else None)"

definition CharAt_int :: "String \<Rightarrow> int \<Rightarrow> u16 option" where
  "CharAt_int str i = (if 0 \<le> i then CharAt str (nat i) else None)"

definition Next :: "CodePointIterator \<Rightarrow> (bool \<times> CodePointIterator) option" where
  "Next it =
     (if - 1 \<le> cpi_index it then
        (let len = int (Utf16_Length (cpi_ch it)) in
         if cpi_index it < cpi_end it - len then
           (let index = cpi_index it + len in do {
              u \<leftarrow> CharAt_int (cpi_str it) index;
              let ch = (ucast u :: u32);
              ch \<leftarrow>
                (if IsLeadSurrogate ch \<and> index < cpi_end it - 1 then do {
                   u2 \<leftarrow> CharAt_int (cpi_str it) (index + 1);
                   let ch2 = (ucast u2 :: u32);
                   Some (if IsTrailSurrogate ch2 then Utf16_Decode (ucast ch) (ucast ch2) else ch) }
                 else Some ch);
              Some (True, it\<lparr>cpi_index := index, cpi_ch := ch\<rparr>) })
         else Some (False, it\<lparr>cpi_index := cpi_end it\<rparr>))
      else None)"

lemma Next_less:
  "Next it = Some (True, it') \<Longrightarrow> nat (cpi_end it' - cpi_index it') < nat (cpi_end it - cpi_index it)"
  by (auto simp: Next_def Let_def Utf16_Length_def split: if_splits bind_splits)

text \<open>
  The loop \<^verbatim>\<open>while (it.Next()) ...\<close>: the body receives the current code point and either returns from
  the enclosing function (\<open>Inl\<close>) or goes on (\<open>Inr\<close>).
\<close>

function while_Next :: "(u32 \<Rightarrow> 's \<Rightarrow> ('r + 's) option) \<Rightarrow> CodePointIterator \<Rightarrow> 's \<Rightarrow> ('r + 's) option" where
  "while_Next body it s =
     (case Next it of
        None \<Rightarrow> None
      | Some (False, it') \<Rightarrow> Some (Inr s)
      | Some (True, it') \<Rightarrow> do {
          ch \<leftarrow> Current it';
          r \<leftarrow> body ch s;
          (case r of Inl x \<Rightarrow> Some (Inl x) | Inr s' \<Rightarrow> while_Next body it' s') })"
  by pat_completeness auto
termination by (relation "measure (\<lambda>(_, it, _). nat (cpi_end it - cpi_index it))") (auto dest: Next_less)

declare while_Next.simps [simp del]

section \<open>Sizes and encoding\<close>

function Length_words :: "u8 list \<Rightarrow> nat \<Rightarrow> nat \<Rightarrow> nat \<Rightarrow> (nat \<times> nat) option" where
  "Length_words data char_length i len =
     (if i \<le> char_length then do {
        chunk \<leftarrow> load_word data (i - 8);
        let chunk = chunk AND kAsciiWordMask;
        let len = (if chunk \<noteq> 0 then len + unat (count_high chunk) else len);
        Length_words data char_length (i + 8) len }
      else Some (i, len))"
  by pat_completeness auto
termination by (relation "measure (\<lambda>(_, n, i, _). Suc n - i)") auto

function Length_tail :: "String \<Rightarrow> nat \<Rightarrow> nat \<Rightarrow> nat \<Rightarrow> nat option" where
  "Length_tail str char_length i len =
     (if i < char_length then do {
        c \<leftarrow> CharAt str i;
        Length_tail str char_length (i + 1) (if int (unat c) > kMaxOneByteChar then len + 1 else len) }
      else Some len)"
  by pat_completeness auto
termination by (relation "measure (\<lambda>(_, n, i, _). n - i)") auto

declare Length_words.simps [simp del] Length_tail.simps [simp del]

definition Utf8_Length_String :: "String \<Rightarrow> nat option" where
  "Utf8_Length_String str =
     (if IsOneByteString str \<or> IsExternalOneByteString str then do {
        let char_length = Length str;
        (i, len) \<leftarrow> Length_words (one_byte_data str) char_length 8 char_length;
        Length_tail str char_length (i - 8) len }
      else do {
        r \<leftarrow> while_Next (\<lambda>ch len. map_option (\<lambda>k. Inr (len + k)) (Utf8_Length ch))
               (new_CodePointIterator str) (0 :: nat);
        (case r of Inl (x :: nat) \<Rightarrow> Some x | Inr len \<Rightarrow> Some len) })"

text \<open>
  The inner loop of the one-byte case of \<open>Encode\<close>: \<open>Inl\<close> is the early return of \<open>pos\<close>.  Both results
  carry the destination.
\<close>

primrec Encode_bytes :: "u8 list \<Rightarrow> nat \<Rightarrow> u8 list \<Rightarrow> nat \<Rightarrow> ((nat \<times> u8 list) + (nat \<times> u8 list)) option" where
  "Encode_bytes [] array_len dst pos = Some (Inr (pos, dst))"
| "Encode_bytes (c # cs) array_len dst pos = do {
     bytes \<leftarrow> Utf8_Length (ucast c);
     if array_len < pos + bytes then Some (Inl (pos, dst))
     else do {
       bs \<leftarrow> Utf8_Encode (ucast c);
       dst \<leftarrow> store_all dst pos bs;
       Encode_bytes cs array_len dst (pos + bytes) } }"

function Encode_words ::
    "u8 list \<Rightarrow> nat \<Rightarrow> nat \<Rightarrow> u8 list \<Rightarrow> nat \<Rightarrow> nat \<Rightarrow> ((nat \<times> u8 list) + (nat \<times> u8 list)) option" where
  "Encode_words data char_length array_len dst i pos =
     (if i < char_length then do {
        ascii \<leftarrow> (if i + 8 \<le> char_length then map_option (\<lambda>w. w AND kAsciiWordMask = 0) (load_word data i)
                 else Some False);
        if ascii \<and> pos + 8 \<le> array_len then do {
          w \<leftarrow> load_word data i;
          dst \<leftarrow> store_all dst pos (word_bytes w);
          Encode_words data char_length array_len dst (i + 8) (pos + 8) }
        else do {
          r \<leftarrow> Encode_bytes (take (min 8 (char_length - i)) (drop i data)) array_len dst pos;
          (case r of
             Inl x \<Rightarrow> Some (Inl x)
           | Inr (pos, dst) \<Rightarrow> Encode_words data char_length array_len dst (i + 8) pos) } }
      else Some (Inr (pos, dst)))"
  by pat_completeness auto
termination by (relation "measure (\<lambda>(_, n, _, _, i, _). n - i)") auto

declare Encode_words.simps [simp del]

definition Encode_char :: "nat \<Rightarrow> u32 \<Rightarrow> nat \<times> u8 list \<Rightarrow> ((nat \<times> u8 list) + (nat \<times> u8 list)) option" where
  "Encode_char len ch st =
     (let (pos, dst) = st in
      if IsOutOfRange ch then None
      else do {
        let ch = (if IsSurrogate ch then kReplacementChar else ch);
        num_bytes \<leftarrow> Utf8_Length ch;
        if len < pos + num_bytes then Some (Inl (pos, dst))
        else do {
          bs \<leftarrow> Utf8_Encode ch;
          dst \<leftarrow> store_all dst pos bs;
          Some (Inr (pos + num_bytes, dst)) } })"

text \<open>
  The declaration of \<open>pos\<close> in the one-byte case hides the outer one, which is what the function
  returns at its end: the result of that case is 0 unless the early return is taken.
\<close>

definition Utf8_Encode_String :: "String \<Rightarrow> u8 list \<Rightarrow> nat \<Rightarrow> (nat \<times> u8 list) option" where
  "Utf8_Encode_String src dst len = do {
     needed \<leftarrow> Utf8_Length_String src;
     if len < needed then None
     else if IsOneByteString src \<or> IsExternalOneByteString src then do {
       r \<leftarrow> Encode_words (one_byte_data src) (Length src) len dst 0 0;
       (case r of Inl (pos, dst) \<Rightarrow> Some (pos, dst) | Inr (_, dst) \<Rightarrow> Some (0, dst)) }
     else do {
       r \<leftarrow> while_Next (Encode_char len) (new_CodePointIterator src) (0, dst);
       (case r of Inl st \<Rightarrow> Some st | Inr st \<Rightarrow> Some st) } }"

definition ToUTF8 :: "String \<Rightarrow> u8 list \<Rightarrow> nat \<Rightarrow> u8 list option" where
  "ToUTF8 this utf8_array array_len = do {
     needed \<leftarrow> Utf8_Length_String this;
     if array_len < needed then None else map_option snd (Utf8_Encode_String this utf8_array array_len) }"

definition ToCString :: "(nat \<Rightarrow> u16) \<Rightarrow> String \<Rightarrow> u8 list option" where
  "ToCString mem this = do {
     len \<leftarrow> Utf8_Length_String this;
     result \<leftarrow> ToUTF8 this (fresh mem (len + 1)) len;
     write_at result len 0 }"

section \<open>Construction\<close>

definition FromUTF8 :: "(nat \<Rightarrow> u16) \<Rightarrow> u8 list \<Rightarrow> nat \<Rightarrow> StringPtr option" where
  "FromUTF8 mem utf8_array array_len =
     (let (len, type) = CodeUnitCount (take array_len utf8_array) in
      if type = kLatin1 then do {
        strobj \<leftarrow> OneByteString_New mem len;
        if 0 < len then do {
          (ok, d) \<leftarrow> DecodeToLatin1 utf8_array array_len (one_byte_data strobj) len;
          if \<not> ok then do { _ \<leftarrow> ReportInvalidByte utf8_array array_len len; Some None }
          else Some (Some (OneByteString d)) }
        else Some (Some strobj) }
      else do {
        strobj \<leftarrow> TwoByteString_New mem len;
        (ok, d) \<leftarrow> DecodeToUTF16 utf8_array array_len (two_byte_data strobj) len;
        if \<not> ok then do { _ \<leftarrow> ReportInvalidByte utf8_array array_len len; Some None }
        else Some (Some (TwoByteString d)) })"

definition New_cstr :: "(nat \<Rightarrow> u16) \<Rightarrow> u8 list \<Rightarrow> StringPtr option" where
  "New_cstr mem cstr = do { array_len \<leftarrow> c_strlen cstr; FromUTF8 mem cstr array_len }"

definition FromLatin1 :: "(nat \<Rightarrow> u16) \<Rightarrow> u8 list \<Rightarrow> nat \<Rightarrow> String option" where
  "FromLatin1 mem latin1_array array_len = do {
     result \<leftarrow> OneByteString_New mem array_len;
     if 0 < array_len then map_option OneByteString (memmove (one_byte_data result) 0 latin1_array array_len)
     else Some result }"

text \<open>
  \<open>OneByteString::New\<close> and \<open>TwoByteString::New\<close> from arrays of wider units.  \<open>FromUTF16\<close> and \<open>FromUTF32\<close>
  are given the whole array, so that \<open>array_len\<close> is its length.
\<close>

definition OneByteString_New_from :: "(nat \<Rightarrow> u16) \<Rightarrow> u32 list \<Rightarrow> String option" where
  "OneByteString_New_from mem characters = do {
     result \<leftarrow> OneByteString_New mem (length characters);
     if list_all IsLatin1 characters
     then map_option OneByteString (store_all (one_byte_data result) 0 (map ucast characters)) else None }"

definition TwoByteString_New_UTF16 :: "(nat \<Rightarrow> u16) \<Rightarrow> u16 list \<Rightarrow> String option" where
  "TwoByteString_New_UTF16 mem utf16_array =
     (if 0 < length utf16_array then do {
        result \<leftarrow> TwoByteString_New mem (length utf16_array);
        map_option TwoByteString (memmove (two_byte_data result) 0 utf16_array (length utf16_array)) }
      else None)"

definition FromUTF16 :: "(nat \<Rightarrow> u16) \<Rightarrow> u16 list \<Rightarrow> String option" where
  "FromUTF16 mem utf16_array =
     (if list_all (\<lambda>u. IsLatin1 (ucast u)) utf16_array then OneByteString_New_from mem (map ucast utf16_array)
      else TwoByteString_New_UTF16 mem utf16_array)"

primrec store_UTF32 :: "u16 list \<Rightarrow> nat \<Rightarrow> nat \<Rightarrow> u32 list \<Rightarrow> u16 list option" where
  "store_UTF32 d utf16_len j [] = Some d"
| "store_UTF32 d utf16_len j (ch # chs) =
     (if IsSupplementary ch then
        if int j < int utf16_len - 1 then do { d \<leftarrow> Utf16_Encode ch d j; store_UTF32 d utf16_len (j + 2) chs }
        else None
      else if j < utf16_len then do { d \<leftarrow> write_at d j (ucast ch); store_UTF32 d utf16_len (j + 1) chs }
      else None)"

definition TwoByteString_New_UTF32 :: "(nat \<Rightarrow> u16) \<Rightarrow> nat \<Rightarrow> u32 list \<Rightarrow> String option" where
  "TwoByteString_New_UTF32 mem utf16_len utf32_array =
     (if 0 < length utf32_array \<and> length utf32_array \<le> utf16_len then do {
        result \<leftarrow> TwoByteString_New mem utf16_len;
        map_option TwoByteString (store_UTF32 (two_byte_data result) utf16_len 0 utf32_array) }
      else None)"

definition FromUTF32_step :: "bool \<times> nat \<Rightarrow> u32 \<Rightarrow> bool \<times> nat" where
  "FromUTF32_step st ch =
     (let (is_one_byte_string, utf16_len) = st in
      if \<not> IsLatin1 ch then (False, if IsSupplementary ch then utf16_len + 1 else utf16_len)
      else (is_one_byte_string, utf16_len))"

definition FromUTF32 :: "(nat \<Rightarrow> u16) \<Rightarrow> u32 list \<Rightarrow> String option" where
  "FromUTF32 mem utf32_array =
     (let (is_one_byte_string, utf16_len) = foldl FromUTF32_step (True, length utf32_array) utf32_array in
      if is_one_byte_string then OneByteString_New_from mem utf32_array
      else TwoByteString_New_UTF32 mem utf16_len utf32_array)"

section \<open>Comparison with a C string\<close>

text \<open>The state is the rest of the C string, from \<open>cstr\<close> to its terminator, and \<open>len\<close>.\<close>

definition Equals_cstr_step :: "u32 \<Rightarrow> u8 list \<times> nat \<Rightarrow> (bool + (u8 list \<times> nat)) option" where
  "Equals_cstr_step current st =
     (let (cstr, len) = st in do {
        c \<leftarrow> read_at cstr 0;
        if c = 0 then Some (Inl False)
        else do {
          (consumed, ch) \<leftarrow> Utf8_Decode cstr len;
          if consumed = 0 \<or> current \<noteq> ch then Some (Inl False)
          else Some (Inr (drop consumed cstr, len - consumed)) } })"

definition Equals_cstr :: "String \<Rightarrow> u8 list \<Rightarrow> bool option" where
  "Equals_cstr this cstr = do {
     len \<leftarrow> c_strlen cstr;
     r \<leftarrow> while_Next Equals_cstr_step (new_CodePointIterator this) (cstr, len);
     (case r of
        Inl b \<Rightarrow> Some b
      | Inr (cstr, _) \<Rightarrow> map_option (\<lambda>c. c = 0) (read_at cstr 0)) }"


section \<open>The iterator yields the code points\<close>

definition cpi_pos :: "CodePointIterator \<Rightarrow> nat" where
  "cpi_pos it = nat (cpi_index it + int (Utf16_Length (cpi_ch it)))"

definition cpi_wf :: "CodePointIterator \<Rightarrow> bool" where
  "cpi_wf it \<longleftrightarrow> - 1 \<le> cpi_index it \<and> cpi_end it = int (Length (cpi_str it))"

definition remaining :: "CodePointIterator \<Rightarrow> u32 list" where
  "remaining it = utf16_decode (drop (cpi_pos it) (units (cpi_str it)))"

abbreviation code_points :: "String \<Rightarrow> u32 list" where
  "code_points str \<equiv> utf16_decode (units str)"

lemma utf16_decode_Nil_iff [simp]: "utf16_decode us = [] \<longleftrightarrow> us = []"
  by (cases us rule: utf16_decode.cases) auto

lemma Utf16_Length_pos: "1 \<le> Utf16_Length ch"
  by (simp add: Utf16_Length_def)

lemma Utf16_Length_Decode [simp]: "Utf16_Length (Utf16_Decode u v) = 2"
  using sint_code_point [OF code_point_Utf16_Decode, of u v]
  by (simp add: Utf16_Length_def kMaxCodeUnit_def unat_Utf16_Decode)

lemma Utf16_Length_ucast [simp]: "Utf16_Length (ucast (u :: u16)) = 1"
  using sint_code_point [OF code_point_ucast_16, of u] unsigned_less [of u, where ?'a = nat]
  by (simp add: Utf16_Length_def kMaxCodeUnit_def)

lemma int_cpi_pos: "cpi_wf it \<Longrightarrow> int (cpi_pos it) = cpi_index it + int (Utf16_Length (cpi_ch it))"
  using Utf16_Length_pos [of "cpi_ch it"] by (simp add: cpi_pos_def cpi_wf_def)

lemma new_CodePointIterator_wf [simp]:
  "cpi_wf (new_CodePointIterator str)" "remaining (new_CodePointIterator str) = code_points str"
  by (simp_all add: cpi_wf_def remaining_def cpi_pos_def new_CodePointIterator_def Utf16_Length_def kMaxCodeUnit_def)

lemma Next_Nil:
  assumes "cpi_wf it" "remaining it = []"
  shows "Next it = Some (False, it\<lparr>cpi_index := cpi_end it\<rparr>)"
  using assms int_cpi_pos [OF assms(1)] by (auto simp: Next_def Let_def cpi_wf_def remaining_def Length_units)

lemma ucast_ucast_16 [simp]: "ucast (ucast (u :: u16) :: u32) = u"
  using unsigned_less [of u, where ?'a = nat] by (simp add: word_unat_eq_iff unat_ucast)

lemma Next_Cons:
  assumes "cpi_wf it" "remaining it = c # cs"
  obtains it' where "Next it = Some (True, it')" "Current it' = Some c" "cpi_wf it'" "remaining it' = cs"
proof -
  define us where "us = units (cpi_str it)"
  define p where "p = cpi_pos it"
  have ip: "cpi_index it + int (Utf16_Length (cpi_ch it)) = int p" using int_cpi_pos [OF assms(1)] by (simp add: p_def)
  have p: "p < length us" using assms(2) by (cases "p < length us") (simp_all add: remaining_def us_def p_def)
  have e: "cpi_end it = int (length us)" "- 1 \<le> cpi_index it" using assms(1) by (simp_all add: cpi_wf_def us_def Length_units)
  have at: "CharAt_int (cpi_str it) (int q) = read_at us q" for q by (simp add: CharAt_int_def CharAt_units us_def)
  have at1: "CharAt_int (cpi_str it) (int p + 1) = read_at us (Suc p)" using at [of "Suc p"] by (simp add: add.commute)
  have lt: "cpi_index it < cpi_end it - int (Utf16_Length (cpi_ch it))" using ip p e by linarith
  define pair where "pair \<longleftrightarrow> Suc p < length us \<and> IsLeadSurrogate (ucast (us ! p)) \<and> IsTrailSurrogate (ucast (us ! Suc p))"
  define ch where "ch = (if pair then Utf16_Decode (us ! p) (us ! Suc p) else ucast (us ! p))"
  have nx: "Next it = Some (True, it\<lparr>cpi_index := int p, cpi_ch := ch\<rparr>)"
    using p lt e by (auto simp: Next_def Let_def ip at at1 ch_def pair_def)
  have d: "utf16_decode (drop p us) = ch # utf16_decode (drop (p + Utf16_Length ch) us)"
  proof (cases "Suc p < length us")
    case True
    then have "drop p us = us ! p # us ! Suc p # drop (Suc (Suc p)) us" "drop (Suc p) us = us ! Suc p # drop (Suc (Suc p)) us"
      by (simp_all add: Cons_nth_drop_Suc)
    then show ?thesis using True by (simp add: ch_def pair_def)
  next
    case False
    then have "drop (Suc p) us = []" by simp
    then have "drop p us = [us ! p]" using Cons_nth_drop_Suc [OF p] by simp
    then show ?thesis using False by (simp add: ch_def pair_def)
  qed
  have "c = ch" "cs = utf16_decode (drop (p + Utf16_Length ch) us)" using assms(2) d by (simp_all add: remaining_def p_def us_def)
  moreover have "nat (int p + int (Utf16_Length ch)) = p + Utf16_Length ch" by simp
  ultimately show ?thesis
    using nx p e by (intro that [OF nx]) (simp_all add: Current_def cpi_wf_def remaining_def cpi_pos_def us_def Length_units)
qed

primrec run_body :: "(u32 \<Rightarrow> 's \<Rightarrow> ('r + 's) option) \<Rightarrow> u32 list \<Rightarrow> 's \<Rightarrow> ('r + 's) option" where
  "run_body body [] s = Some (Inr s)"
| "run_body body (c # cs) s = do {
     r \<leftarrow> body c s;
     (case r of Inl x \<Rightarrow> Some (Inl x) | Inr s' \<Rightarrow> run_body body cs s') }"

lemma while_Next_run: "cpi_wf it \<Longrightarrow> while_Next body it s = run_body body (remaining it) s"
proof (induction "remaining it" arbitrary: it s)
  case Nil
  then show ?case using Next_Nil [of it] by (subst while_Next.simps) simp
next
  case (Cons c cs)
  obtain it' where it': "Next it = Some (True, it')" "Current it' = Some c" "cpi_wf it'" "remaining it' = cs"
    using Cons.prems Cons.hyps(2) [symmetric] by (rule Next_Cons)
  have "while_Next body it' = run_body body cs"
    using Cons.hyps(1) [of it'] it'(3,4) by (intro ext) simp
  then show ?case
    by (subst while_Next.simps) (simp add: it'(1,2) Cons.hyps(2) [symmetric])
qed

section \<open>The length in UTF-8\<close>

lemma Length_words_high:
  assumes "8 \<le> i" "i \<le> length data + 8"
  obtains i' len' where "Length_words data (length data) i len = Some (i', len')" "8 \<le> i'" "i' \<le> length data + 8"
    "len' + high (drop (i' - 8) data) = len + high (drop (i - 8) data)"
  using assms
proof (induction "length data + 8 - i" arbitrary: i len thesis rule: less_induct)
  case less
  show ?case
  proof (cases "i \<le> length data")
    case True
    define bs where "bs = take 8 (drop (i - 8) data)"
    have bs: "length bs = 8" using True less.prems by (simp add: bs_def)
    have h: "high (drop (i - 8) data) = high bs + high (drop i data)"
      using less.prems(2) append_take_drop_id [of 8 "drop (i - 8) data"] high_simps(3) [of bs "drop i data"]
      by (simp add: bs_def)
    have s: "Length_words data (length data) i len = Length_words data (length data) (i + 8) (len + high bs)"
      using True less.prems(2) count_high_word [OF bs]
      by (subst Length_words.simps) (simp add: load_word_def flip: bs_def)
    show ?thesis
      by (rule less.hyps [of "i + 8" "len + high bs"]) (use True less.prems(2) s h in \<open>auto intro!: less.prems(1)\<close>)
  next
    case False
    then show ?thesis by (intro less.prems(1)) (use less.prems in \<open>simp_all add: Length_words.simps\<close>)
  qed
qed

lemma Length_tail_high:
  assumes "units str = map ucast data" "i \<le> length data"
  shows "Length_tail str (length data) i len = Some (len + high (drop i data))"
  using assms(2)
proof (induction "length data - i" arbitrary: i len)
  case 0
  then show ?case by (simp add: Length_tail.simps)
next
  case (Suc n)
  then have i: "i < length data" "n = length data - Suc i" by linarith+
  have "unat (ucast (data ! i) :: u16) = unat (data ! i)"
    using unsigned_less [of "data ! i", where ?'a = nat] by (simp add: unat_ucast)
  then have "Length_tail str (length data) i len =
      Length_tail str (length data) (Suc i) (len + high [data ! i])"
    using i(1) assms(1) by (subst Length_tail.simps) (auto simp: CharAt_units read_at_def kMaxOneByteChar_def)
  also have "\<dots> = Some (len + high [data ! i] + high (drop (Suc i) data))"
    using Suc.hyps(1) [of "Suc i"] i by simp
  finally show ?case using Cons_nth_drop_Suc [OF i(1)] high_simps(2) by (metis add.assoc add.right_neutral high_simps(1))
qed

abbreviation utf8_size :: "u32 list \<Rightarrow> nat" where
  "utf8_size cps \<equiv> length (concat (map (\<lambda>ch. utf8 (unat ch)) cps))"

lemma one_byte_iff: "CharSize str = kOneByteChar \<longleftrightarrow> IsOneByteString str \<or> IsExternalOneByteString str"
  by (cases str) (simp_all add: CharSize_def kOneByteChar_def kTwoByteChar_def)

lemma ucast_ucast_8: "ucast (ucast (b :: u8) :: u16) = (ucast b :: u32)"
  using unsigned_less [of b, where ?'a = nat] by (simp add: word_unat_eq_iff unat_ucast)

lemma utf16_decode_latin1: "utf16_decode (map ucast (bs :: u8 list)) = map ucast bs"
proof (induction bs)
  case (Cons b bs)
  have "\<not> IsLeadSurrogate (ucast (ucast b :: u16))"
    using unsigned_less [of b, where ?'a = nat] by (simp add: IsLeadSurrogate_iff unat_ucast)
  then show ?case using Cons.IH by (cases bs) (simp_all add: ucast_ucast_8)
qed simp

lemma code_points_one_byte: "CharSize str = kOneByteChar \<Longrightarrow> code_points str = map ucast (one_byte_data str)"
  using one_byte_units [of str] utf16_decode_latin1 by simp

lemma utf8_size_latin1: "utf8_size (map ucast (bs :: u8 list)) = length bs + high bs"
proof (induction bs)
  case (Cons b bs)
  have "length (utf8 (unat b)) = 1 + high [b]"
    using unsigned_less [of b, where ?'a = nat] by (simp add: utf8_def)
  then show ?case using Cons.IH by simp
qed simp

lemma code_point_code_points: "list_all code_point (code_points str)"
  by (rule code_point_utf16_decode)

lemma run_Utf8_Length:
  "list_all code_point cps \<Longrightarrow>
     run_body (\<lambda>ch len. map_option (\<lambda>k. Inr (len + k)) (Utf8_Length ch)) cps n = Some (Inr (n + utf8_size cps))"
  by (induction cps arbitrary: n) (simp_all add: Utf8_Length_spec)

lemma Utf8_Length_String_spec: "Utf8_Length_String str = Some (utf8_size (code_points str))"
proof (cases "CharSize str = kOneByteChar")
  case True
  define data where "data = one_byte_data str"
  have u: "units str = map ucast data" using one_byte_units [OF True] by (simp add: data_def)
  then have n: "Length str = length data" by (simp add: Length_units)
  obtain i len where w: "Length_words data (length data) 8 (length data) = Some (i, len)" "8 \<le> i"
    "i \<le> length data + 8" "len + high (drop (i - 8) data) = length data + high data"
    by (rule Length_words_high [of 8 data "length data"]) auto
  have "Length_tail str (length data) (i - 8) len = Some (length data + high data)"
    using Length_tail_high [OF u, of "i - 8" len] w(3,4) by simp
  moreover have "utf8_size (code_points str) = length data + high data"
    using utf8_size_latin1 [of data] code_points_one_byte [OF True] by (simp add: data_def)
  ultimately show ?thesis
    using True w(1) by (simp add: Utf8_Length_String_def one_byte_iff n flip: data_def)
next
  case False
  then show ?thesis
    by (simp add: Utf8_Length_String_def one_byte_iff while_Next_run run_Utf8_Length [OF code_point_code_points])
qed

section \<open>Encoding in UTF-8\<close>

text \<open>The code points as \<open>Encode\<close> writes them, and their bytes.\<close>

definition scalar :: "u32 \<Rightarrow> u32" where
  "scalar ch = (if IsSurrogate ch then kReplacementChar else ch)"

definition utf8_bytes :: "u32 list \<Rightarrow> u8 list" where
  "utf8_bytes cps = map of_nat (concat (map (\<lambda>ch. utf8 (unat ch)) cps))"

lemma utf8_bytes_simps [simp]:
  "utf8_bytes [] = []" "utf8_bytes (xs @ ys) = utf8_bytes xs @ utf8_bytes ys" "length (utf8_bytes cps) = utf8_size cps"
  by (simp_all add: utf8_bytes_def)

lemma utf8_bytes_Cons: "utf8_bytes (ch # cps) = utf8_bytes [ch] @ utf8_bytes cps"
  by (simp add: utf8_bytes_def)

lemma utf8_less_256: "c \<le> 0x10FFFF \<Longrightarrow> list_all (\<lambda>b. b < 256) (utf8 c)"
  by (simp add: utf8_def) auto

lemma encodes_utf8_bytes: "list_all code_point cps \<Longrightarrow> encodes (utf8_bytes cps) cps"
proof -
  assume cp: "list_all code_point cps"
  have "map unat (map (of_nat :: nat \<Rightarrow> u8) ns) = ns" if "list_all (\<lambda>b. b < 256) ns" for ns
    using that by (induction ns) (simp_all add: unat_of_nat)
  moreover have "list_all (\<lambda>b. b < 256) (concat (map (\<lambda>ch. utf8 (unat ch)) cps))"
    using cp by (induction cps) (simp_all add: utf8_less_256 code_point_def)
  ultimately show ?thesis using cp by (simp only: encodes_def utf8_bytes_def simp_thms)
qed

lemma Utf8_Encode_bytes: "code_point ch \<Longrightarrow> Utf8_Encode ch = Some (utf8_bytes [ch])"
proof -
  assume cp: "code_point ch"
  obtain bs where bs: "Utf8_Encode ch = Some bs" "map unat bs = utf8 (unat ch)" by (rule Utf8_Encode_spec [OF cp])
  have "map of_nat (map unat bs) = bs" by (simp add: comp_def)
  then have "bs = utf8_bytes [ch]" by (simp add: utf8_bytes_def bs(2))
  then show ?thesis using bs(1) by simp
qed

lemma code_point_ucast_8 [simp]: "code_point (ucast (b :: u8))"
  using unsigned_less [of b, where ?'a = nat] by (simp add: code_point_def)

lemma store_utf8:
  assumes "pos + utf8_size [ch] \<le> length dst"
  shows "store_all dst pos (utf8_bytes [ch]) = Some (put dst pos (utf8_bytes [ch]))"
  using assms by (simp add: store_all_put)

lemma put_utf8:
  assumes "pos + utf8_size (cs @ ds) \<le> length dst"
  shows "put (put dst pos (utf8_bytes cs)) (pos + utf8_size cs) (utf8_bytes ds) = put dst pos (utf8_bytes (cs @ ds))"
  using assms put_put [of pos "utf8_bytes cs" "utf8_bytes ds" dst] by simp

lemma Encode_bytes_put:
  assumes "pos + utf8_size (map ucast cs) \<le> array_len" "array_len \<le> length dst"
  shows "Encode_bytes cs array_len dst pos =
    Some (Inr (pos + utf8_size (map ucast cs), put dst pos (utf8_bytes (map ucast cs))))"
  using assms
proof (induction cs arbitrary: pos dst)
  case (Cons c cs)
  let ?d = "put dst pos (utf8_bytes [ucast c])"
  have "Encode_bytes (c # cs) array_len dst pos = Encode_bytes cs array_len ?d (pos + utf8_size [ucast c])"
    using Cons.prems store_utf8 [of pos "ucast c" dst] by (simp add: Utf8_Length_spec Utf8_Encode_bytes)
  also have "\<dots> = Some (Inr (pos + utf8_size (map ucast (c # cs)),
      put ?d (pos + utf8_size [ucast c]) (utf8_bytes (map ucast cs))))"
    using Cons.IH [of "pos + utf8_size [ucast c]" ?d] Cons.prems by (simp add: add.assoc)
  also have "put ?d (pos + utf8_size [ucast c]) (utf8_bytes (map ucast cs)) = put dst pos (utf8_bytes (map ucast (c # cs)))"
    using put_utf8 [of pos "[ucast c]" "map ucast cs" dst] Cons.prems by simp
  finally show ?case .
qed simp

lemma utf8_bytes_ascii: "high bs = 0 \<Longrightarrow> utf8_bytes (map ucast bs) = bs"
  by (induction bs) (simp_all add: utf8_bytes_def utf8_def split: if_splits)

lemma Encode_words_put:
  assumes "pos + utf8_size (map ucast (drop i data)) \<le> array_len" "array_len \<le> length dst"
  shows "Encode_words data (length data) array_len dst i pos =
    Some (Inr (pos + utf8_size (map ucast (drop i data)), put dst pos (utf8_bytes (map ucast (drop i data)))))"
  using assms
proof (induction "length data - i" arbitrary: i pos dst rule: less_induct)
  case less
  show ?case
  proof (cases "i < length data")
    case True
    define bs where "bs = take 8 (drop i data)"
    let ?bs = "map ucast bs" and ?rest = "map ucast (drop (i + 8) data)"
    let ?d = "put dst pos (utf8_bytes ?bs)"
    have "drop i data = bs @ drop (i + 8) data"
      using append_take_drop_id [of 8 "drop i data"] by (simp add: bs_def add.commute)
    then have split: "map ucast (drop i data) = ?bs @ ?rest" by simp
    have room: "pos + utf8_size (?bs @ ?rest) \<le> array_len" using less.prems(1) by (simp only: split)
    have "Encode_words data (length data) array_len ?d (i + 8) (pos + utf8_size ?bs) =
        Some (Inr (pos + utf8_size ?bs + utf8_size ?rest, put ?d (pos + utf8_size ?bs) (utf8_bytes ?rest)))"
      by (rule less.hyps) (use True room less.prems(2) in auto)
    also have "put ?d (pos + utf8_size ?bs) (utf8_bytes ?rest) = put dst pos (utf8_bytes (?bs @ ?rest))"
      by (rule put_utf8) (use room less.prems(2) in linarith)
    finally have rest: "Encode_words data (length data) array_len ?d (i + 8) (pos + utf8_size ?bs) =
        Some (Inr (pos + utf8_size (?bs @ ?rest), put dst pos (utf8_bytes (?bs @ ?rest))))" by simp
    have bytes: "Encode_bytes bs array_len dst pos = Some (Inr (pos + utf8_size ?bs, ?d))"
      by (rule Encode_bytes_put) (use room less.prems(2) in auto)
    have bs': "take (min 8 (length data - i)) (drop i data) = bs" by (simp add: bs_def min_def)
    show ?thesis
    proof (cases "i + 8 \<le> length data \<and> high bs = 0 \<and> pos + 8 \<le> array_len")
      case fast: True
      then have l: "length bs = 8" by (auto simp: bs_def)
      have "utf8_size ?bs = 8" using utf8_size_latin1 [of bs] l fast by simp
      moreover have "store_all dst pos (word_bytes (le_word bs)) = Some ?d"
        using word_bytes_le_word [OF l] utf8_bytes_ascii [of bs] fast l less.prems(2) by (simp add: store_all_put)
      ultimately show ?thesis
        using fast count_high_word(2) [OF l] rest unfolding split
        by (subst Encode_words.simps) (simp add: load_word_def flip: bs_def)
    next
      case slow: False
      have "(if i + 8 \<le> length data then map_option (\<lambda>w. w AND kAsciiWordMask = 0) (load_word data i) else Some False) =
          Some (i + 8 \<le> length data \<and> high bs = 0)"
        using count_high_word(2) [of bs] by (auto simp: load_word_def bs_def)
      then show ?thesis
        using True slow rest bytes unfolding split by (subst Encode_words.simps) (simp only: bs', auto)
    qed
  next
    case False
    then show ?thesis by (simp add: Encode_words.simps)
  qed
qed

lemma scalar_code_point: "code_point ch \<Longrightarrow> code_point (scalar ch)"
  by (simp add: scalar_def kReplacementChar_def code_point_def)

lemma utf8_size_scalar: "utf8_size (map scalar cps) = utf8_size cps"
  by (induction cps) (auto simp: scalar_def kReplacementChar_def IsSurrogate_iff utf8_def)

lemma run_Encode_char:
  assumes "list_all code_point cps" "pos + utf8_size (map scalar cps) \<le> len" "len \<le> length dst"
  shows "run_body (Encode_char len) cps (pos, dst) =
    Some (Inr (pos + utf8_size (map scalar cps), put dst pos (utf8_bytes (map scalar cps))))"
  using assms
proof (induction cps arbitrary: pos dst)
  case (Cons c cs)
  let ?c = "scalar c"
  let ?d = "put dst pos (utf8_bytes [?c])"
  have cp: "code_point c" "code_point ?c" using Cons.prems(1) scalar_code_point by auto
  have "Encode_char len c (pos, dst) = Some (Inr (pos + utf8_size [?c], ?d))"
    using Cons.prems(2,3) store_utf8 [of pos ?c dst] cp
    by (simp add: Encode_char_def IsOutOfRange_iff Utf8_Length_spec Utf8_Encode_bytes Let_def flip: scalar_def)
  then have "run_body (Encode_char len) (c # cs) (pos, dst) = run_body (Encode_char len) cs (pos + utf8_size [?c], ?d)"
    by simp
  also have "\<dots> = Some (Inr (pos + utf8_size (map scalar (c # cs)),
      put ?d (pos + utf8_size [?c]) (utf8_bytes (map scalar cs))))"
    using Cons.IH [of "pos + utf8_size [?c]" ?d] Cons.prems by (simp add: add.assoc)
  also have "put ?d (pos + utf8_size [?c]) (utf8_bytes (map scalar cs)) = put dst pos (utf8_bytes (map scalar (c # cs)))"
    using put_utf8 [of pos "[?c]" "map scalar cs" dst] Cons.prems by simp
  finally show ?case .
qed simp

abbreviation encoded :: "String \<Rightarrow> u8 list" where
  "encoded str \<equiv> utf8_bytes (map scalar (code_points str))"

lemma scalar_latin1: "map scalar (map ucast (bs :: u8 list)) = map ucast bs"
proof -
  have "scalar (ucast b) = ucast b" for b :: u8
    using unsigned_less [of b, where ?'a = nat] by (simp add: scalar_def IsSurrogate_iff)
  then show ?thesis by simp
qed

lemma Utf8_Encode_String_spec:
  assumes "utf8_size (code_points src) \<le> len" "len \<le> length dst"
  shows "Utf8_Encode_String src dst len =
    Some (if CharSize src = kOneByteChar then 0 else utf8_size (code_points src), put dst 0 (encoded src))"
proof (cases "CharSize src = kOneByteChar")
  case True
  have "Length src = length (one_byte_data src)"
    using one_byte_units [OF True] by (simp add: Length_units)
  then show ?thesis
    using True assms code_points_one_byte [OF True] scalar_latin1 [of "one_byte_data src"] Encode_words_put [of 0 0 "one_byte_data src" len dst]
    by (simp add: Utf8_Encode_String_def Utf8_Length_String_spec one_byte_iff del: map_map)
next
  case False
  then show ?thesis
    using assms run_Encode_char [OF code_point_code_points, of 0 src len dst] utf8_size_scalar [of "code_points src"]
    by (simp add: Utf8_Encode_String_def Utf8_Length_String_spec one_byte_iff while_Next_run)
qed

lemma ToUTF8_spec:
  assumes "utf8_size (code_points str) \<le> length dst"
  shows "ToUTF8 str dst (length dst) = Some (put dst 0 (encoded str))"
  using assms Utf8_Encode_String_spec [of str "length dst" dst] by (simp add: ToUTF8_def Utf8_Length_String_spec)

section \<open>Construction from UTF-8\<close>

lemma ReportInvalidByte_total: "i \<le> length a \<Longrightarrow> \<exists>k. ReportInvalidByte_loop a (length a) len i j = Some k"
proof (induction "length a - i" arbitrary: i j rule: less_induct)
  case less
  show ?case
  proof (cases "i < length a \<and> j < len")
    case True
    then obtain k ch where s: "Utf8_Decode (drop i a) (length a - i) = Some (k, ch)"
      "ch \<noteq> - 1 \<Longrightarrow> 0 < k \<and> i + k \<le> length a" by (meson decode_all_step)
    have "\<exists>m. ReportInvalidByte_loop a (length a) len (i + k) j' = Some m" if "ch \<noteq> - 1" for j'
      by (rule less.hyps) (use s(2) [OF that] True in linarith)+
    then show ?thesis using True s(1) by (subst ReportInvalidByte_loop.simps) (auto simp: read_at_def Let_def)
  next
    case False
    then show ?thesis by (subst ReportInvalidByte_loop.simps) auto
  qed
qed

lemma text_type_Latin1: "text_type cps = kLatin1 \<longleftrightarrow> list_all (\<lambda>ch. unat ch \<le> 0xFF) cps"
  by (auto simp: text_type_def list_ex_iff list_all_iff not_le)

lemma latin1_utf16:
  "list_all (\<lambda>ch. unat ch \<le> 0xFF) cps \<Longrightarrow>
     map ucast (concat (map (\<lambda>ch. [ucast ch :: u8]) cps)) = concat (map utf16 cps)"
  by (induction cps) (simp_all add: utf16_def word_unat_eq_iff unat_ucast)

lemma length_latin1_utf16:
  "list_all (\<lambda>ch. unat ch \<le> 0xFF) cps \<Longrightarrow> length (concat (map utf16 cps)) = length cps"
  by (induction cps) (simp_all add: utf16_def)

lemma FromUTF8_encodes:
  assumes "encodes a cps" "length (concat (map utf16 cps)) \<le> kMaxElements"
  obtains r where "FromUTF8 mem a (length a) = Some (Some r)" "units r = concat (map utf16 cps)"
    "IsOneByteString r \<longleftrightarrow> list_all (\<lambda>ch. unat ch \<le> 0xFF) cps" "IsTwoByteString r \<longleftrightarrow> \<not> IsOneByteString r"
proof -
  let ?n = "length (concat (map utf16 cps))"
  note count = CodeUnitCount_encodes [OF assms(1)]
  show thesis
  proof (cases "text_type cps = kLatin1")
    case True
    then have l: "list_all (\<lambda>ch. unat ch \<le> 0xFF) cps" by (simp add: text_type_Latin1)
    have acc: "list_all IsLatin1SequenceStart a" using CodeUnitCount_Latin1 [of a] count True by simp
    define d where "d = concat (map (\<lambda>ch. [ucast ch :: u8]) cps)"
    have n: "length d = ?n" using length_latin1_utf16 [OF l] by (simp add: d_def length_concat comp_def sum_list_triv)
    have "DecodeToLatin1 a (length a) (fresh mem ?n) ?n = Some (True, put (fresh mem ?n) 0 d)"
      unfolding DecodeToLatin1_def d_def
      by (rule latin1_decoder.decodes_whole(1) [OF acc]) (use assms(1) n in \<open>simp_all add: d_def\<close>)
    then have dec: "DecodeToLatin1 a (length a) (fresh mem ?n) ?n = Some (True, d)" using n by (simp add: put_whole)
    have "?n = 0 \<Longrightarrow> d = []" using n by simp
    then have "FromUTF8 mem a (length a) = Some (Some (OneByteString d))"
      using dec count True assms(2) by (auto simp: FromUTF8_def OneByteString_New_def fresh_def)
    then show thesis using that latin1_utf16 [OF l] l by (simp add: d_def)
  next
    case False
    have "DecodeToUTF16 a (length a) (fresh mem ?n) ?n = Some (True, put (fresh mem ?n) 0 (concat (map utf16 cps)))"
      unfolding DecodeToUTF16_def
      by (rule utf16_decoder.decodes_whole(1)) (use assms(1) in \<open>simp_all add: list_all_iff\<close>)
    then have "FromUTF8 mem a (length a) = Some (Some (TwoByteString (concat (map utf16 cps))))"
      using False count assms(2) by (simp add: FromUTF8_def TwoByteString_New_def put_whole)
    then show thesis using that False by (simp add: text_type_Latin1)
  qed
qed

lemma FromUTF8_invalid:
  assumes "\<nexists>cps. encodes a cps" "fst (CodeUnitCount a) \<le> kMaxElements"
  shows "FromUTF8 mem a (length a) = Some (if list_all IsTrailByte a then Some (OneByteString []) else None)"
proof -
  obtain n t where c: "CodeUnitCount a = (n, t)" by fastforce
  obtain k where rep: "ReportInvalidByte a (length a) n = Some k"
    using ReportInvalidByte_total [of 0 a n 0] by (auto simp: ReportInvalidByte_def)
  have z: "n = 0 \<longleftrightarrow> list_all IsTrailByte a" using CodeUnitCount_zero [of a] c by simp
  have lat: "t = kLatin1 \<longleftrightarrow> list_all IsLatin1SequenceStart a" using CodeUnitCount_Latin1 [of a] c by simp
  show ?thesis
  proof (cases "t = kLatin1")
    case True
    obtain d where "DecodeToLatin1 a (length a) (fresh mem n) n = Some (False, d)"
      using latin1_decoder.decodes_whole(2) [of a "fresh mem n" n] assms(1) lat True
      by (auto simp: DecodeToLatin1_def)
    then show ?thesis
      using c True rep z assms(2) by (simp add: FromUTF8_def OneByteString_New_def fresh_def)
  next
    case False
    obtain d where "DecodeToUTF16 a (length a) (fresh mem n) n = Some (False, d)"
      using utf16_decoder.decodes_whole(2) [of a "fresh mem n" n] assms(1)
      by (auto simp: DecodeToUTF16_def list_all_iff)
    moreover have "\<not> list_all IsTrailByte a"
      using False lat by (fastforce simp: list_all_iff IsTrailByte_iff IsLatin1SequenceStart_def word_le_nat_alt)
    ultimately show ?thesis
      using c False rep assms(2) by (simp add: FromUTF8_def TwoByteString_New_def)
  qed
qed

lemma utf16_scalar_length: "code_point ch \<Longrightarrow> length (utf16 (scalar ch)) = length (utf16 ch)"
  by (auto simp: scalar_def utf16_def kReplacementChar_def IsSurrogate_iff)

lemma length_scalar_units: "length (concat (map utf16 (map scalar (code_points str)))) = Length str"
proof -
  have "length (concat (map utf16 (map scalar cps))) = length (concat (map utf16 cps))" if "list_all code_point cps" for cps
    using that by (induction cps) (simp_all add: utf16_scalar_length)
  then show ?thesis by (simp only: code_point_code_points utf16_utf16_decode Length_units)
qed

lemma scalar_units:
  "list_all (\<lambda>ch. \<not> IsSurrogate ch) (code_points str) \<Longrightarrow> map scalar (code_points str) = code_points str"
  by (intro map_idI) (simp add: scalar_def list_all_iff)

lemma encodes_encoded: "encodes (encoded str) (map scalar (code_points str))"
  by (rule encodes_utf8_bytes) (use code_point_code_points [of str] in \<open>simp add: list_all_iff scalar_code_point\<close>)

section \<open>Input followed by other bytes\<close>

text \<open>The decoders read nothing behind \<open>array_len\<close>, so that a C string is read up to its terminator.\<close>

lemma trail_loop_append:
  "n \<le> length a \<Longrightarrow> trail_loop (a @ z) i n m j mal ch = trail_loop a i n m j mal ch"
proof (induction "m - j" arbitrary: j mal ch)
  case 0
  then show ?case by (simp add: trail_loop.simps)
next
  case (Suc d)
  then have "d = m - Suc j" "j < m" by linarith+
  then show ?case
    using Suc.hyps(1) [of "Suc j"] Suc.prems
    by (subst (1 2) trail_loop.simps) (simp add: read_at_def nth_append)
qed

lemma Utf8_Decode_append:
  assumes "0 < length a"
  shows "Utf8_Decode (a @ z) (length a) = Utf8_Decode a (length a)"
proof -
  have "read_at (a @ z) 0 = read_at a 0" using assms by (simp add: read_at_def nth_append)
  then show ?thesis unfolding Utf8_Decode_def trail_loop_append [OF order_refl] by simp
qed

lemma decode_at_cases:
  assumes "i < length a"
  obtains k ch where "Utf8_Decode (drop i a) (length a - i) = Some (k, ch)"
    "Utf8_Decode (drop i a @ z) (length a - i) = Some (k, ch)" "ch \<noteq> - 1 \<longrightarrow> length a - (i + k) < length a - i"
    "read_at (a @ z) i = Some (a ! i)" "read_at a i = Some (a ! i)"
proof -
  obtain k ch where s: "Utf8_Decode (drop i a) (length a - i) = Some (k, ch)"
    "ch \<noteq> - 1 \<Longrightarrow> 0 < k \<and> i + k \<le> length a" using assms by (meson decode_all_step)
  then have "ch \<noteq> - 1 \<Longrightarrow> length a - (i + k) < length a - i" using assms by linarith
  then show ?thesis using that s Utf8_Decode_append [of "drop i a" z] assms by (simp add: read_at_def nth_append)
qed

lemma DecodeToLatin1_loop_append:
  "DecodeToLatin1_loop (a @ z) (length a) dst len i j = DecodeToLatin1_loop a (length a) dst len i j"
proof (induction "length a - i" arbitrary: dst i j rule: less_induct)
  case less
  show ?case
  proof (cases "i < length a")
    case True
    then obtain k ch where s: "Utf8_Decode (drop i a) (length a - i) = Some (k, ch)"
      "Utf8_Decode (drop i a @ z) (length a - i) = Some (k, ch)" "ch \<noteq> - 1 \<longrightarrow> length a - (i + k) < length a - i"
      "read_at (a @ z) i = Some (a ! i)" "read_at a i = Some (a ! i)" by (rule decode_at_cases [where z = z])
    show ?thesis
      using less.hyps [of "i + k"] s(3) by (subst (1 2) DecodeToLatin1_loop.simps) (simp add: True less_imp_le [OF True] s(1,2,4,5) cong: if_cong)
  qed (simp add: DecodeToLatin1_loop.simps)
qed

lemma DecodeToUTF16_loop_append:
  "DecodeToUTF16_loop (a @ z) (length a) dst len i j = DecodeToUTF16_loop a (length a) dst len i j"
proof (induction "length a - i" arbitrary: dst i j rule: less_induct)
  case less
  show ?case
  proof (cases "i < length a")
    case True
    then obtain k ch where s: "Utf8_Decode (drop i a) (length a - i) = Some (k, ch)"
      "Utf8_Decode (drop i a @ z) (length a - i) = Some (k, ch)" "ch \<noteq> - 1 \<longrightarrow> length a - (i + k) < length a - i"
      "read_at (a @ z) i = Some (a ! i)" "read_at a i = Some (a ! i)" by (rule decode_at_cases [where z = z])
    show ?thesis
      using less.hyps [of "i + k"] s(3) by (subst (1 2) DecodeToUTF16_loop.simps) (simp add: True less_imp_le [OF True] s(1,2,4,5) Let_def cong: if_cong)
  qed (simp add: DecodeToUTF16_loop.simps)
qed

lemma ReportInvalidByte_loop_append:
  "ReportInvalidByte_loop (a @ z) (length a) len i j = ReportInvalidByte_loop a (length a) len i j"
proof (induction "length a - i" arbitrary: i j rule: less_induct)
  case less
  show ?case
  proof (cases "i < length a")
    case True
    then obtain k ch where s: "Utf8_Decode (drop i a) (length a - i) = Some (k, ch)"
      "Utf8_Decode (drop i a @ z) (length a - i) = Some (k, ch)" "ch \<noteq> - 1 \<longrightarrow> length a - (i + k) < length a - i"
      "read_at (a @ z) i = Some (a ! i)" "read_at a i = Some (a ! i)" by (rule decode_at_cases [where z = z])
    show ?thesis
      using less.hyps [of "i + k"] s(3) by (subst (1 2) ReportInvalidByte_loop.simps) (simp add: True less_imp_le [OF True] s(1,2,4,5) Let_def cong: if_cong)
  qed (simp add: ReportInvalidByte_loop.simps)
qed

lemma FromUTF8_append: "FromUTF8 mem (a @ z) (length a) = FromUTF8 mem a (length a)"
  unfolding FromUTF8_def DecodeToLatin1_def DecodeToUTF16_def ReportInvalidByte_def
    DecodeToLatin1_loop_append DecodeToUTF16_loop_append ReportInvalidByte_loop_append by simp

lemma c_strlen_append: "0 \<notin> set cs \<Longrightarrow> c_strlen (cs @ 0 # z) = Some (length cs)"
  by (induction cs) auto

lemma New_cstr_append: "0 \<notin> set cs \<Longrightarrow> New_cstr mem (cs @ 0 # z) = FromUTF8 mem cs (length cs)"
  by (simp add: New_cstr_def c_strlen_append FromUTF8_append)

section \<open>Round trips\<close>

lemma encoded_round_trip:
  assumes "Length str \<le> kMaxElements"
  obtains r where "FromUTF8 mem (encoded str) (length (encoded str)) = Some (Some r)"
    "units r = concat (map utf16 (map scalar (code_points str)))"
  by (rule FromUTF8_encodes [OF encodes_encoded, of str mem]) (use assms length_scalar_units in auto)


section \<open>Comparison with a C string\<close>

lemma encodes_Cons_iff:
  assumes "cs \<noteq> []" "Utf8_Decode cs (length cs) = Some (k, ch)"
  shows "encodes cs (c # cps) \<longleftrightarrow> k \<noteq> 0 \<and> c = ch \<and> encodes (drop k cs) cps"
proof
  assume "encodes cs (c # cps)"
  then obtain bs rest where r: "cs = bs @ rest" "encodes rest cps" "Utf8_Decode cs (length cs) = Some (length bs, c)" "bs \<noteq> []"
    by (rule encodes_Cons)
  then show "k \<noteq> 0 \<and> c = ch \<and> encodes (drop k cs) cps" using assms(2) by auto
next
  assume r: "k \<noteq> 0 \<and> c = ch \<and> encodes (drop k cs) cps"
  then have "ch \<noteq> - 1" using Utf8_Decode_total [OF assms(1)] assms(2) by auto
  from Utf8_Decode_sound [OF assms(2) this] have "code_point ch" "map unat (take k cs) = utf8 (unat ch)" by simp_all
  moreover have "map unat cs = map unat (take k cs) @ map unat (drop k cs)" by (simp flip: map_append)
  ultimately show "encodes cs (c # cps)" using r by (simp add: encodes_def)
qed

lemma Equals_cstr_run:
  assumes "0 \<notin> set cs"
  shows "do { r \<leftarrow> run_body Equals_cstr_step cps (cs @ 0 # z, length cs);
       (case r of Inl b \<Rightarrow> Some b | Inr (cstr, _) \<Rightarrow> map_option (\<lambda>c. c = 0) (read_at cstr 0)) } = Some (encodes cs cps)"
  using assms
proof (induction cps arbitrary: cs)
  case Nil
  then show ?case by (cases cs) (auto simp: read_at_def encodes_def)
next
  case (Cons c cps)
  show ?case
  proof (cases "cs = []")
    case True
    have "\<not> encodes [] (c # cps)"
      using utf8_shape(3) [of "unat c"] by (auto simp: encodes_def code_point_def)
    then show ?thesis using True by (simp add: Equals_cstr_step_def read_at_def)
  next
    case False
    obtain k ch where d: "Utf8_Decode cs (length cs) = Some (k, ch)" using Utf8_Decode_total [OF False] by blast
    have d': "Utf8_Decode (cs @ 0 # z) (length cs) = Some (k, ch)" using Utf8_Decode_append [of cs] False d by simp
    have hd: "read_at (cs @ 0 # z) 0 = Some (hd cs)" "hd cs \<noteq> 0"
      using False Cons.prems by (cases cs; auto simp: read_at_def)+
    have k: "k \<le> length cs" if "ch \<noteq> - 1" using Utf8_Decode_sound [OF d that] by simp
    have step: "Equals_cstr_step c (cs @ 0 # z, length cs) =
        Some (if k = 0 \<or> c \<noteq> ch then Inl False else Inr (drop k (cs @ 0 # z), length cs - k))"
      by (simp add: Equals_cstr_step_def hd d')
    show ?thesis
    proof (cases "k = 0 \<or> c \<noteq> ch")
      case True
      then show ?thesis using step encodes_Cons_iff [OF False d, of c cps] by auto
    next
      case go: False
      have "ch \<noteq> - 1" using go Utf8_Decode_total [OF False] d by auto
      from k [OF this] have "drop k (cs @ 0 # z) = drop k cs @ 0 # z" "length cs - k = length (drop k cs)" by simp_all
      moreover have "0 \<notin> set (drop k cs)" using Cons.prems set_drop_subset [of k cs] by blast
      ultimately show ?thesis
        using step go Cons.IH [of "drop k cs"] encodes_Cons_iff [OF False d, of c cps] by simp
    qed
  qed
qed

section \<open>The other constructors\<close>

lemma write_at_end: "length d = Suc (length xs) \<Longrightarrow> write_at (put d 0 xs) (length xs) x = Some (xs @ [x])"
  by (cases d rule: rev_cases) (simp_all add: write_at_def put_def list_update_append)

lemma ToCString_spec: "ToCString mem str = Some (encoded str @ [0])"
proof -
  define n where "n = utf8_size (code_points str)"
  have len: "length (encoded str) = n" using utf8_size_scalar [of "code_points str"] by (simp add: n_def)
  obtain buf :: "u8 list" where buf: "fresh mem (n + 1) = buf" "length buf = Suc n" by simp
  have "ToUTF8 str buf n = Some (put buf 0 (encoded str))"
    using Utf8_Encode_String_spec [of str n buf] buf(2) by (simp add: ToUTF8_def Utf8_Length_String_spec n_def)
  moreover have "write_at (put buf 0 (encoded str)) n 0 = Some (encoded str @ [0])"
    using write_at_end [of buf "encoded str" 0] by (simp only: len buf(2))
  ultimately show ?thesis
    by (simp only: ToCString_def Utf8_Length_String_spec n_def [symmetric] buf(1) bind.bind_lunit)
qed

lemma OneByteString_New_from_units:
  assumes "list_all (\<lambda>ch. unat ch \<le> 0xFF) cps" "length cps \<le> kMaxElements"
  shows "OneByteString_New_from mem cps = Some (OneByteString (map ucast cps))"
proof -
  have "list_all IsLatin1 cps" using assms(1) by (simp add: list_all_iff IsLatin1_iff)
  then show ?thesis
    using assms(2) by (simp add: OneByteString_New_from_def OneByteString_New_def store_all_put put_whole)
qed

lemma FromUTF16_units:
  assumes "length us \<le> kMaxElements"
  shows "\<exists>r. FromUTF16 mem us = Some r \<and> units r = us"
proof (cases "list_all (\<lambda>u. unat u \<le> 0xFF) us")
  case True
  then have l: "list_all (\<lambda>u. IsLatin1 (ucast u)) us" by (simp add: list_all_iff IsLatin1_iff)
  have "list_all (\<lambda>ch. unat ch \<le> 0xFF) (map (ucast :: u16 \<Rightarrow> u32) us)" using True by (simp add: list_all_iff)
  then have "FromUTF16 mem us = Some (OneByteString (map ucast (map (ucast :: u16 \<Rightarrow> u32) us)))"
    using l OneByteString_New_from_units [of "map ucast us" mem] assms by (simp add: FromUTF16_def)
  moreover have "map ucast (map ucast (map (ucast :: u16 \<Rightarrow> u32) us) :: u8 list) = us"
    using True by (induction us) (simp_all add: word_unat_eq_iff unat_ucast)
  ultimately show ?thesis by (simp del: map_map)
next
  case False
  then have "\<not> list_all (\<lambda>u. IsLatin1 (ucast u)) us" "us \<noteq> []" by (auto simp: list_all_iff IsLatin1_iff)
  then show ?thesis
    using assms by (simp add: FromUTF16_def TwoByteString_New_UTF16_def TwoByteString_New_def memmove_put put_whole)
qed

lemma FromUTF32_scan:
  "list_all code_point cps \<Longrightarrow> foldl FromUTF32_step (b, n) cps =
     (b \<and> list_all (\<lambda>ch. unat ch \<le> 0xFF) cps, n + length (concat (map utf16 cps)) - length cps)"
proof (induction cps arbitrary: b n)
  case (Cons c cs)
  have "length cs \<le> length (concat (map utf16 cs))" by (induction cs) (auto simp: utf16_def)
  then show ?case
    using Cons by (auto simp: FromUTF32_step_def IsLatin1_iff IsSupplementary_iff utf16_def)
qed simp

lemma store_UTF32_put:
  assumes "list_all code_point cps" "j + length (concat (map utf16 cps)) \<le> length d"
  shows "store_UTF32 d (length d) j cps = Some (put d j (concat (map utf16 cps)))"
  using assms
proof (induction cps arbitrary: d j)
  case (Cons c cs)
  have room: "j + length (utf16 c) \<le> length d" using Cons.prems(2) by simp
  have "store_UTF32 d (length d) j (c # cs) = store_UTF32 (put d j (utf16 c)) (length d) (j + length (utf16 c)) cs"
    using Cons.prems(1) room Utf16_Encode_put [of c j d]
    by (cases "unat c \<le> 0xFFFF") (simp_all add: utf16_def IsSupplementary_iff write_at_put)
  also have "\<dots> = Some (put (put d j (utf16 c)) (j + length (utf16 c)) (concat (map utf16 cs)))"
    using Cons.IH [of "j + length (utf16 c)" "put d j (utf16 c)"] Cons.prems room by simp
  finally show ?case using put_put [of j "utf16 c" "concat (map utf16 cs)" d] Cons.prems(2) by simp
qed simp

lemma FromUTF32_units:
  assumes "list_all code_point cps" "length (concat (map utf16 cps)) \<le> kMaxElements"
  shows "\<exists>r. FromUTF32 mem cps = Some r \<and> units r = concat (map utf16 cps)"
proof (cases "list_all (\<lambda>ch. unat ch \<le> 0xFF) cps")
  case True
  have "map ucast cps = concat (map (\<lambda>ch. [ucast ch :: u8]) cps)" by (induction cps) simp_all
  then show ?thesis
    using True assms OneByteString_New_from_units [OF True, of mem] latin1_utf16 [OF True] length_latin1_utf16 [OF True]
    by (simp add: FromUTF32_def FromUTF32_scan del: map_map)
next
  case False
  have le: "length cps \<le> length (concat (map utf16 cps))" by (induction cps) (auto simp: utf16_def)
  let ?d = "fresh mem (length (concat (map utf16 cps)))"
  have "store_UTF32 ?d (length (concat (map utf16 cps))) 0 cps = Some (concat (map utf16 cps))"
    using store_UTF32_put [OF assms(1), of 0 ?d] by (simp add: put_whole)
  then show ?thesis
    using False assms le by (auto simp: FromUTF32_def FromUTF32_scan TwoByteString_New_UTF32_def TwoByteString_New_def)
qed

section \<open>What the string functions guarantee\<close>

text \<open>
  C10. \<open>String::ToUTF8\<close> and \<open>String::FromUTF8\<close> are inverse: writing a string into an array of the size
  that \<open>Utf8::Length\<close> announces and reading the array back yields the same text.  The writer takes the
  word-at-a-time path for one-byte strings and the code point iterator for two-byte strings; unpaired surrogates, which
  UTF-8 cannot represent, come back as U+FFFD, one unit for one unit.
\<close>

theorem ToUTF8_FromUTF8:
  assumes "Length str \<le> kMaxElements" "Utf8_Length_String str = Some (length dst)"
  shows "\<exists>bytes r. ToUTF8 str dst (length dst) = Some bytes \<and> length bytes = length dst \<and>
    FromUTF8 mem bytes (length bytes) = Some (Some r) \<and> Length r = Length str \<and>
    units r = concat (map utf16 (map scalar (code_points str))) \<and>
    (list_all (\<lambda>ch. \<not> IsSurrogate ch) (code_points str) \<longrightarrow> units r = units str)"
proof -
  have len: "utf8_size (code_points str) = length dst" using assms(2) by (simp add: Utf8_Length_String_spec)
  then have n: "length (encoded str) = length dst" using utf8_size_scalar [of "code_points str"] by simp
  obtain r where r: "FromUTF8 mem (encoded str) (length (encoded str)) = Some (Some r)"
    "units r = concat (map utf16 (map scalar (code_points str)))" using assms(1) by (rule encoded_round_trip)
  have "Length r = Length str" unfolding Length_units [of r] r(2) by (rule length_scalar_units)
  moreover have "list_all (\<lambda>ch. \<not> IsSurrogate ch) (code_points str) \<longrightarrow> units r = units str"
    unfolding r(2) by (auto simp only: scalar_units utf16_utf16_decode)
  ultimately show ?thesis
    using ToUTF8_spec [of str dst] r n len by (intro exI [of _ "encoded str"] exI [of _ r]) (simp add: put_whole)
qed

theorem ToUTF8_FromUTF8_witness:
  "\<exists>bytes r. ToUTF8 (TwoByteString [0x41, 0xD83D, 0xDE00]) [0, 0, 0, 0, 0] (length [0, 0, 0, 0, 0 :: u8]) = Some bytes \<and>
    FromUTF8 (\<lambda>_. 7) bytes (length bytes) = Some (Some r) \<and> units r = [0x41, 0xD83D, 0xDE00]"
proof -
  let ?str = "TwoByteString [0x41, 0xD83D, 0xDE00]" and ?dst = "[0, 0, 0, 0, 0 :: u8]"
  have cps: "code_points ?str = [0x41, 0x1F600]"
    by (simp add: IsLeadSurrogate_iff IsTrailSurrogate_iff word_unat_eq_iff unat_Utf16_Decode)
  have "Length ?str \<le> kMaxElements" by (simp add: kMaxElements_def kSmiMax_def kTwoByteChar_def)
  moreover have "Utf8_Length_String ?str = Some (length ?dst)"
    unfolding Utf8_Length_String_spec cps by (simp add: utf8_def)
  moreover have "list_all (\<lambda>ch. \<not> IsSurrogate ch) (code_points ?str)" unfolding cps by (simp add: IsSurrogate_iff)
  ultimately show ?thesis using ToUTF8_FromUTF8 [of ?str ?dst "\<lambda>_. 7"] by fastforce
qed

text \<open>
  C20. \<open>String::FromUTF8\<close> on arbitrary bytes: well-formed UTF-8 gives the string of its code points, in
  the one-byte representation exactly when all of them are Latin-1; ill-formed input gives null.  The one
  exception is input made of continuation bytes only, for which the empty string is returned.
\<close>

theorem FromUTF8_exact:
  assumes "fst (CodeUnitCount a) \<le> kMaxElements"
  shows "(\<forall>cps. encodes a cps \<longrightarrow>
      (\<exists>r. FromUTF8 mem a (length a) = Some (Some r) \<and> units r = concat (map utf16 cps) \<and>
         (IsOneByteString r \<longleftrightarrow> list_all (\<lambda>ch. unat ch \<le> 0xFF) cps) \<and> (IsTwoByteString r \<longleftrightarrow> \<not> IsOneByteString r))) \<and>
    ((\<nexists>cps. encodes a cps) \<longrightarrow>
      FromUTF8 mem a (length a) = Some (if list_all IsTrailByte a then Some (OneByteString []) else None))"
proof (intro conjI allI impI)
  fix cps assume e: "encodes a cps"
  then have "length (concat (map utf16 cps)) \<le> kMaxElements" using assms by (simp add: CodeUnitCount_encodes)
  with e show "\<exists>r. FromUTF8 mem a (length a) = Some (Some r) \<and> units r = concat (map utf16 cps) \<and>
      (IsOneByteString r \<longleftrightarrow> list_all (\<lambda>ch. unat ch \<le> 0xFF) cps) \<and> (IsTwoByteString r \<longleftrightarrow> \<not> IsOneByteString r)"
    by (rule FromUTF8_encodes [of a cps mem]) blast
next
  assume "\<nexists>cps. encodes a cps"
  then show "FromUTF8 mem a (length a) = Some (if list_all IsTrailByte a then Some (OneByteString []) else None)"
    using assms by (rule FromUTF8_invalid)
qed

theorem FromUTF8_exact_witness:
  "\<exists>r. FromUTF8 (\<lambda>_. 7) [0xE2, 0x82, 0xAC] (length [0xE2, 0x82, 0xAC :: u8]) = Some (Some r) \<and> units r = [0x20AC]"
proof -
  have "fst (CodeUnitCount [0xE2, 0x82, 0xAC]) = 1" by code_simp
  then have "fst (CodeUnitCount [0xE2, 0x82, 0xAC]) \<le> kMaxElements" by (simp add: kMaxElements_def kSmiMax_def kTwoByteChar_def)
  moreover have "encodes [0xE2, 0x82, 0xAC] [0x20AC]" by (simp add: encodes_def code_point_def utf8_def)
  moreover have "concat (map utf16 [0x20AC]) = [0x20AC]" by (simp add: utf16_def)
  ultimately show ?thesis using FromUTF8_exact [of "[0xE2, 0x82, 0xAC]" "\<lambda>_. 7"] by metis
qed

text \<open>
  \<open>String::Equals(const char*)\<close> decodes the C string as it goes and answers exactly whether its bytes
  up to the terminator are the UTF-8 encoding of the string's code points.
\<close>

theorem Equals_cstr_exact:
  assumes "0 \<notin> set cs"
  shows "Equals_cstr this (cs @ 0 # z) = Some (encodes cs (code_points this))"
  using Equals_cstr_run [OF assms, of "code_points this" z] assms
  by (simp add: Equals_cstr_def c_strlen_append while_Next_run)

theorem Equals_cstr_exact_witness:
  "Equals_cstr (OneByteString [0x41, 0xE9]) ([0x41, 0xC3, 0xA9] @ 0 # []) =
     Some (encodes [0x41, 0xC3, 0xA9] (code_points (OneByteString [0x41, 0xE9])))"
  by (rule Equals_cstr_exact) simp

text \<open>
  The constructors from wider arrays lose nothing: \<open>FromUTF16\<close> keeps every unit, paired or not, and
  \<open>FromUTF32\<close> stores every code point in its UTF-16 form, within the length it computed in its first pass.
\<close>

theorem wide_constructors_exact:
  assumes "length us \<le> kMaxElements" "list_all code_point cps" "length (concat (map utf16 cps)) \<le> kMaxElements"
  shows "(\<exists>r. FromUTF16 mem us = Some r \<and> units r = us) \<and>
    (\<exists>r. FromUTF32 mem cps = Some r \<and> units r = concat (map utf16 cps))"
  using FromUTF16_units [OF assms(1)] FromUTF32_units [OF assms(2,3)] by blast

theorem wide_constructors_exact_witness:
  "(\<exists>r. FromUTF16 (\<lambda>_. 7) [0x41, 0xD800] = Some r \<and> units r = [0x41, 0xD800]) \<and>
    (\<exists>r. FromUTF32 (\<lambda>_. 7) [0x41, 0x1F600] = Some r \<and> units r = concat (map utf16 [0x41, 0x1F600]))"
  by (rule wide_constructors_exact) (simp_all add: kMaxElements_def kSmiMax_def kTwoByteChar_def code_point_def utf16_def)

section \<open>Surprises\<close>

text \<open>The count that \<open>Utf8::Encode\<close> returns for a one-byte string is 0, although the bytes are written.\<close>

lemma Encode_one_byte_returns_zero:
  "CharSize src = kOneByteChar \<Longrightarrow> Utf8_Length_String src = Some (length dst) \<Longrightarrow>
     Utf8_Encode_String src dst (length dst) = Some (0, encoded src)"
  using utf8_size_scalar [of "code_points src"]
  by (simp add: Utf8_Length_String_spec Utf8_Encode_String_spec put_whole)

text \<open>Continuation bytes alone are not UTF-8, yet \<open>FromUTF8\<close> accepts them as the empty string.\<close>

lemma FromUTF8_only_trail_bytes:
  "a \<noteq> [] \<Longrightarrow> list_all IsTrailByte a \<Longrightarrow>
     (\<nexists>cps. encodes a cps) \<and> FromUTF8 mem a (length a) = Some (Some (OneByteString []))"
proof -
  assume a: "a \<noteq> []" "list_all IsTrailByte a"
  have z: "fst (CodeUnitCount a) = 0" using a(2) by (simp add: CodeUnitCount_zero)
  have n: "\<not> encodes a cps" for cps
  proof
    assume e: "encodes a cps"
    then have "cps = []" using z CodeUnitCount_encodes [OF e] by (cases cps) simp_all
    then show False using e a(1) by (simp add: encodes_def)
  qed
  then show ?thesis using FromUTF8_invalid [of a mem] z a(2) by auto
qed

end
