(* ===== verification/Percent_Encoding.thy ===== *)
theory Percent_Encoding
  imports String_Transcoding
begin

text \<open>
  The percent-encoding of strings in \<^verbatim>\<open>runtime/vm/object.cc\<close>: \<^verbatim>\<open>String::EncodeIRI\<close> and
  \<^verbatim>\<open>String::DecodeIRI\<close> with the character classes and hexadecimal digits they use.
\<close>

section \<open>Characters and loops\<close>

definition IsPercent :: "u32 \<Rightarrow> bool" where
  "IsPercent c \<longleftrightarrow> c = 0x25"

definition IsHexCharacter :: "u32 \<Rightarrow> bool" where
  "IsHexCharacter c \<longleftrightarrow> 0x30 \<le> sint c \<and> sint c \<le> 0x39 \<or> 0x41 \<le> sint c \<and> sint c \<le> 0x46"

definition IsURISafeCharacter :: "u8 \<Rightarrow> bool" where
  "IsURISafeCharacter c \<longleftrightarrow>
     0x30 \<le> c \<and> c \<le> 0x39 \<or> 0x61 \<le> c \<and> c \<le> 0x7A \<or> 0x41 \<le> c \<and> c \<le> 0x5A \<or>
     c = 0x2D \<or> c = 0x5F \<or> c = 0x2E \<or> c = 0x7E"

definition GetHexValue :: "u32 \<Rightarrow> u32 option" where
  "GetHexValue c =
     (if 0x30 \<le> sint c \<and> sint c \<le> 0x39 then Some (c - 0x30)
      else if 0x41 \<le> sint c \<and> sint c \<le> 0x46 then Some (c - 0x41 + 10) else None)"

definition MergeHexCharacters :: "u32 \<Rightarrow> u32 \<Rightarrow> u32 option" where
  "MergeHexCharacters c1 c2 = do {
     h \<leftarrow> GetHexValue c1; l \<leftarrow> GetHexValue c2; Some (push_bit 4 h OR l) }"

primrec EncodeIRI_loop :: "u8 list \<Rightarrow> u8 list \<Rightarrow> nat \<Rightarrow> (u8 list \<times> nat) option" where
  "EncodeIRI_loop [] cstr index = Some (cstr, index)"
| "EncodeIRI_loop (byte # bytes) cstr index =
     (if \<not> IsURISafeCharacter byte then do {
        cstr \<leftarrow> write_at cstr index 0x25;
        h \<leftarrow> GetHexCharacter (unat (drop_bit 4 byte));
        cstr \<leftarrow> write_at cstr (index + 1) (of_nat h);
        l \<leftarrow> GetHexCharacter (unat (byte AND 0xF));
        cstr \<leftarrow> write_at cstr (index + 2) (of_nat l);
        EncodeIRI_loop bytes cstr (index + 3) }
      else if byte \<le> 127 then do {
        cstr \<leftarrow> write_at cstr index byte;
        EncodeIRI_loop bytes cstr (index + 1) }
      else None)"

definition EncodeIRI :: "(nat \<Rightarrow> u16) \<Rightarrow> String \<Rightarrow> u8 list option" where
  "EncodeIRI mem str = do {
     len \<leftarrow> Utf8_Length_String str;
     utf8 \<leftarrow> ToUTF8 str (fresh mem len) len;
     let num_escapes = sum_list (map (\<lambda>byte. if \<not> IsURISafeCharacter byte then 2 else 0) utf8);
     (cstr, index) \<leftarrow> EncodeIRI_loop utf8 (fresh mem (len + num_escapes + 1)) 0;
     write_at cstr index 0 }"

text \<open>
  The first loop of \<open>DecodeIRI\<close>, \<open>Inl ()\<close> being the return of \<^verbatim>\<open>String::null()\<close>, and the second loop.
\<close>

function DecodeIRI_scan :: "CodePointIterator \<Rightarrow> nat \<Rightarrow> (unit + nat) option" where
  "DecodeIRI_scan cpi num_escapes =
     (case Next cpi of
        None \<Rightarrow> None
      | Some (False, _) \<Rightarrow> Some (Inr num_escapes)
      | Some (True, cpi1) \<Rightarrow> do {
          code_point \<leftarrow> Current cpi1;
          if \<not> IsPercent code_point then DecodeIRI_scan cpi1 num_escapes
          else case Next cpi1 of
              None \<Rightarrow> None
            | Some (False, _) \<Rightarrow> Some (Inl ())
            | Some (True, cpi2) \<Rightarrow> do {
                code_point \<leftarrow> Current cpi2;
                if \<not> IsHexCharacter code_point then Some (Inl ())
                else case Next cpi2 of
                    None \<Rightarrow> None
                  | Some (False, _) \<Rightarrow> Some (Inl ())
                  | Some (True, cpi3) \<Rightarrow> do {
                      code_point \<leftarrow> Current cpi3;
                      if \<not> IsHexCharacter code_point then Some (Inl ())
                      else DecodeIRI_scan cpi3 (num_escapes + 2) } } })"
  by pat_completeness auto
termination
  by (relation "measure (\<lambda>(it, _). nat (cpi_end it - cpi_index it))") (auto dest!: Next_less)

lemma Next_False: "Next it = Some (False, it') \<Longrightarrow> cpi_index it' = cpi_end it'"
  by (auto simp: Next_def Let_def split: if_splits bind_splits)

lemma Next_Current_less:
  "Next it = Some (b, it') \<Longrightarrow> Current it' = Some ch \<Longrightarrow>
     nat (cpi_end it' - cpi_index it') < nat (cpi_end it - cpi_index it)"
  using Next_False [of it it'] Next_less [of it it'] by (cases b) (auto simp: Current_def split: if_splits)

lemma Next_Next_less:
  assumes "Next it = Some (True, it1)" "Next it1 = Some (b, it2)" "Current it2 = Some c"
    "Next it2 = Some (b', it3)" "Current it3 = Some c'"
  shows "nat (cpi_end it3 - cpi_index it3) < nat (cpi_end it - cpi_index it)"
  using Next_less [OF assms(1)] Next_Current_less [OF assms(2,3)] Next_Current_less [OF assms(4,5)] by linarith

function DecodeIRI_bytes :: "CodePointIterator \<Rightarrow> u8 list \<Rightarrow> nat \<Rightarrow> nat \<Rightarrow> u8 list option" where
  "DecodeIRI_bytes cpi buf utf8_len index =
     (case Next cpi of
        None \<Rightarrow> None
      | Some (False, _) \<Rightarrow> Some buf
      | Some (True, cpi1) \<Rightarrow>
          if index < utf8_len then do {
            code_point \<leftarrow> Current cpi1;
            if IsPercent code_point then
              (case Next cpi1 of
                 None \<Rightarrow> None
               | Some (b2, cpi2) \<Rightarrow> do {
                   ch1 \<leftarrow> Current cpi2;
                   (case Next cpi2 of
                      None \<Rightarrow> None
                    | Some (b3, cpi3) \<Rightarrow> do {
                        ch2 \<leftarrow> Current cpi3;
                        merged \<leftarrow> MergeHexCharacters ch1 ch2;
                        if 0 \<le> sint merged \<and> sint merged < 256 then do {
                          buf \<leftarrow> write_at buf index (ucast merged);
                          DecodeIRI_bytes cpi3 buf utf8_len (index + 1) }
                        else None }) })
            else if 0 \<le> sint code_point \<and> sint code_point < 256 then do {
              buf \<leftarrow> write_at buf index (ucast code_point);
              DecodeIRI_bytes cpi1 buf utf8_len (index + 1) }
            else None }
          else None)"
  by pat_completeness auto
termination
  by (relation "measure (\<lambda>(it, _). nat (cpi_end it - cpi_index it))") (auto dest: Next_less Next_Next_less)

declare DecodeIRI_scan.simps [simp del] DecodeIRI_bytes.simps [simp del]

definition DecodeIRI :: "(nat \<Rightarrow> u16) \<Rightarrow> String \<Rightarrow> StringPtr option" where
  "DecodeIRI mem str = do {
     r \<leftarrow> DecodeIRI_scan (new_CodePointIterator str) 0;
     (case r of
        Inl _ \<Rightarrow> Some None
      | Inr num_escapes \<Rightarrow>
          if num_escapes \<le> Length str then do {
            let utf8_len = Length str - num_escapes;
            utf8 \<leftarrow> DecodeIRI_bytes (new_CodePointIterator str) (fresh mem utf8_len) utf8_len 0;
            FromUTF8 mem utf8 utf8_len }
          else None) }"

section \<open>Escapes\<close>

definition percent :: "u8 \<Rightarrow> u8 list" where
  "percent b =
     (if IsURISafeCharacter b then [b]
      else [0x25, of_nat (hex_digits ! (unat b div 16)), of_nat (hex_digits ! (unat b mod 16))])"

definition hex_of :: "u32 \<Rightarrow> nat option" where
  "hex_of c =
     (if 48 \<le> unat c \<and> unat c \<le> 57 then Some (unat c - 48)
      else if 65 \<le> unat c \<and> unat c \<le> 70 then Some (unat c - 55) else None)"

fun unpercent :: "u32 list \<Rightarrow> u8 list option" where
  "unpercent [] = Some []"
| "unpercent (c # cs) =
     (if c = 0x25 then
        (case cs of
           h # l # cs' \<Rightarrow> do { x \<leftarrow> hex_of h; y \<leftarrow> hex_of l; bs \<leftarrow> unpercent cs'; Some (of_nat (16 * x + y) # bs) }
         | _ \<Rightarrow> None)
      else map_option ((#) (ucast c)) (unpercent cs))"

lemma EncodeIRI_loop_put:
  assumes "index + length (concat (map percent bytes)) < length cstr"
  shows "EncodeIRI_loop bytes cstr index =
    Some (put cstr index (concat (map percent bytes)), index + length (concat (map percent bytes)))"
  using assms
proof (induction bytes arbitrary: cstr index)
  case (Cons b bs)
  let ?c = "put cstr index (percent b)"
  have n: "unat b div 16 < 16" "unat (drop_bit 4 b) = unat b div 16" "unat (b AND 0xF) = unat b mod 16"
    using unsigned_less [of b, where ?'a = nat] unat_and_mask [of b 4]
    by (simp_all add: unat_drop_div mask_eq_exp_minus_1)
  have "IsURISafeCharacter b \<Longrightarrow> b \<le> 127" by (auto simp: IsURISafeCharacter_def word_le_nat_alt)
  moreover have "put (put (put cstr index [x]) (index + 1) [y]) (index + 2) [z] = put cstr index [x, y, z]"
    if "index + 3 \<le> length cstr" for x y z :: u8
    using that put_put [of index "[x]" "[y]" cstr] put_put [of index "[x, y]" "[z]" cstr] by simp
  ultimately have "EncodeIRI_loop (b # bs) cstr index = EncodeIRI_loop bs ?c (index + length (percent b))"
    using Cons.prems n by (auto simp: percent_def GetHexCharacter_def write_at_put numeral_3_eq_3)
  also have "\<dots> = Some (put ?c (index + length (percent b)) (concat (map percent bs)),
      index + length (percent b) + length (concat (map percent bs)))"
    using Cons.prems by (intro Cons.IH) simp
  finally show ?case
    using Cons.prems put_put [of index "percent b" "concat (map percent bs)" cstr] by simp
qed simp

lemma length_percent: "length (concat (map percent bytes)) =
    length bytes + sum_list (map (\<lambda>byte. if \<not> IsURISafeCharacter byte then 2 else 0) bytes)"
  by (induction bytes) (simp_all add: percent_def)

lemma EncodeIRI_spec: "EncodeIRI mem str = Some (concat (map percent (encoded str)) @ [0])"
proof -
  define n where "n = utf8_size (code_points str)"
  have len: "length (encoded str) = n" using utf8_size_scalar [of "code_points str"] by (simp add: n_def)
  let ?out = "concat (map percent (encoded str))"
  define k where "k = length ?out"
  have utf8: "ToUTF8 str (fresh mem n) n = Some (encoded str)"
    using ToUTF8_spec [of str "fresh mem n"] len by (simp add: n_def put_whole)
  have k: "n + sum_list (map (\<lambda>byte. if \<not> IsURISafeCharacter byte then 2 else 0) (encoded str)) + 1 = k + 1"
    unfolding k_def using length_percent [of "encoded str"] len by simp
  obtain buf :: "u8 list" where buf: "fresh mem (k + 1) = buf" "length buf = Suc k" by simp
  have "EncodeIRI_loop (encoded str) buf 0 = Some (put buf 0 ?out, k)"
    using EncodeIRI_loop_put [of 0 "encoded str" buf] buf(2) by (simp only: k_def) simp
  moreover have "write_at (put buf 0 ?out) k 0 = Some (?out @ [0])"
    unfolding k_def by (rule write_at_end) (simp only: buf(2) k_def)
  ultimately show ?thesis
    by (simp only: EncodeIRI_def Utf8_Length_String_spec n_def [symmetric] utf8 Let_def k buf(1) bind.bind_lunit split)
qed

lemma uint_numeral_ge [simp]:
  fixes x :: "'a::len word"
  shows "numeral k \<le> uint x \<longleftrightarrow> numeral k \<le> unat x" "uint x < numeral k \<longleftrightarrow> unat x < numeral k"
  using of_nat_le_iff [of "numeral k" "unat x", where ?'a = int]
    of_nat_less_iff [of "unat x" "numeral k", where ?'a = int] by simp_all

lemma hex_of_code_point: "hex_of c = Some x \<Longrightarrow> code_point c \<and> unat c < 256 \<and> x < 16"
  by (auto simp: hex_of_def code_point_def split: if_splits)

lemma IsHexCharacter_iff: "IsHexCharacter c \<longleftrightarrow> hex_of c \<noteq> None"
  using sint_cases [of c] by (auto simp: IsHexCharacter_def hex_of_def)

lemma GetHexValue_hex_of: "GetHexValue c = map_option of_nat (hex_of c)"
proof (cases "hex_of c")
  case None
  then show ?thesis using sint_cases [of c] by (auto simp: GetHexValue_def hex_of_def split: if_splits)
next
  case (Some x)
  then have "code_point c" by (simp add: hex_of_code_point)
  then show ?thesis
    using Some by (auto simp: GetHexValue_def hex_of_def word_unat_eq_iff unat_sub word_le_nat_alt unat_of_nat split: if_splits)
qed

lemma merge_nibbles:
  assumes "x < 16" "y < 16"
  shows "push_bit 4 (of_nat x) OR of_nat y = (of_nat (16 * x + y) :: u32)"
proof -
  have "\<not> bit (of_nat y :: u32) n" if "4 \<le> n" for n
    using bit_imp_exp_le [of "of_nat y :: u32" n] power_increasing [OF that, of "2 :: nat"] assms(2)
    by (auto simp: unat_of_nat)
  then have "push_bit 4 (of_nat x) AND of_nat y = (0 :: u32)"
    by (intro bit_word_eqI) (auto simp: bit_simps)
  then have "push_bit 4 (of_nat x) OR of_nat y = push_bit 4 (of_nat x) + (of_nat y :: u32)"
    by (rule disjunctive_add_eq_or [symmetric])
  then show ?thesis by (simp add: push_bit_eq_mult)
qed

lemma MergeHexCharacters_hex_of:
  assumes "hex_of h = Some x" "hex_of l = Some y"
  obtains m where "MergeHexCharacters h l = Some m" "sint m = int (16 * x + y)" "ucast m = (of_nat (16 * x + y) :: u8)"
    "16 * x + y < 256"
proof -
  have xy: "x < 16" "y < 16" using assms hex_of_code_point by auto
  define v where "v = 16 * x + y"
  have v: "v < 256" using xy by (simp add: v_def)
  then have "sint (of_nat v :: u32) = int v" by (subst sint_small) (simp_all add: unat_of_nat_u32)
  moreover have "ucast (of_nat v :: u32) = (of_nat v :: u8)" using v by (simp add: word_unat_eq_iff unat_ucast unat_of_nat)
  moreover have "MergeHexCharacters h l = Some (of_nat v)"
    using merge_nibbles [OF xy] by (simp add: MergeHexCharacters_def GetHexValue_hex_of assms v_def)
  ultimately show ?thesis using that v by (simp only: v_def)
qed

lemma unpercent_length: "unpercent cs = Some bs \<Longrightarrow> length bs \<le> length cs"
proof (induction cs arbitrary: bs rule: unpercent.induct)
  case (2 c cs)
  then show ?case by (auto split: if_splits list.splits bind_splits) fastforce
qed simp

lemma DecodeIRI_scan_unpercent:
  "cpi_wf it \<Longrightarrow> DecodeIRI_scan it n =
     Some (case unpercent (remaining it) of
             None \<Rightarrow> Inl () | Some bs \<Rightarrow> Inr (n + (length (remaining it) - length bs)))"
proof (induction "length (remaining it)" arbitrary: it n rule: less_induct)
  case less
  show ?case
  proof (cases "remaining it")
    case Nil
    then show ?thesis using Next_Nil [OF less.prems] by (subst DecodeIRI_scan.simps) simp
  next
    case (Cons c cs)
    obtain it1 where it1: "Next it = Some (True, it1)" "Current it1 = Some c" "cpi_wf it1" "remaining it1 = cs"
      using less.prems Cons by (rule Next_Cons)
    show ?thesis
    proof (cases "c = 0x25")
      case False
      have "DecodeIRI_scan it n = DecodeIRI_scan it1 n"
        using False it1 by (subst DecodeIRI_scan.simps) (simp add: IsPercent_def)
      then show ?thesis
        using less.hyps [of it1 n] it1 Cons False
        by (auto dest: unpercent_length split: option.splits)
    next
      case percent: True
      show ?thesis
      proof (cases cs)
        case Nil
        then show ?thesis
          using percent it1 Cons Next_Nil [of it1] by (subst DecodeIRI_scan.simps) (simp add: IsPercent_def)
      next
        case h: (Cons h cs1)
        obtain it2 where it2: "Next it1 = Some (True, it2)" "Current it2 = Some h" "cpi_wf it2" "remaining it2 = cs1"
          using it1(3) it1(4) [unfolded h] by (rule Next_Cons)
        show ?thesis
        proof (cases cs1)
          case Nil
          then show ?thesis
            using percent it1 it2 Cons h Next_Nil [of it2]
            by (subst DecodeIRI_scan.simps) (simp add: IsPercent_def)
        next
          case l: (Cons l cs2)
          obtain it3 where it3: "Next it2 = Some (True, it3)" "Current it3 = Some l" "cpi_wf it3" "remaining it3 = cs2"
            using it2(3) it2(4) [unfolded l] by (rule Next_Cons)
          have "DecodeIRI_scan it n =
              (if IsHexCharacter h \<and> IsHexCharacter l then DecodeIRI_scan it3 (n + 2) else Some (Inl ()))"
            using percent it1 it2 it3 by (subst DecodeIRI_scan.simps) (simp add: IsPercent_def)
          then show ?thesis
            using less.hyps [of it3 "n + 2"] it3 Cons h l percent unpercent_length [of cs2]
            by (auto simp: IsHexCharacter_iff split: option.splits bind_splits)
        qed
      qed
    qed
  qed
qed

lemma unpercent_Cons:
  assumes "unpercent (c # cs) = Some bs"
  obtains (plain) bs' where "c \<noteq> 0x25" "unpercent cs = Some bs'" "bs = ucast c # bs'"
  | (escape) h l cs' x y bs' where "c = 0x25" "cs = h # l # cs'" "hex_of h = Some x" "hex_of l = Some y"
      "unpercent cs' = Some bs'" "bs = of_nat (16 * x + y) # bs'"
proof (cases "c = 0x25")
  case True
  with assms obtain h l cs' where cs: "cs = h # l # cs'" by (auto split: list.splits)
  with True assms obtain x y bs' where "hex_of h = Some x" "hex_of l = Some y" "unpercent cs' = Some bs'"
    "bs = of_nat (16 * x + y) # bs'" by (auto simp del: of_nat_add of_nat_mult split: bind_splits)
  then show thesis using escape True cs by blast
next
  case False
  then show thesis using plain assms by auto
qed

lemma DecodeIRI_bytes_put:
  assumes "cpi_wf it" "unpercent (remaining it) = Some bs" "index + length bs \<le> length buf"
  shows "DecodeIRI_bytes it buf (length buf) index =
    (if list_all (\<lambda>c. unat c < 256) (remaining it) then Some (put buf index bs) else None)"
  using assms
proof (induction "length (remaining it)" arbitrary: it bs buf index rule: less_induct)
  case less
  show ?case
  proof (cases "remaining it")
    case Nil
    then show ?thesis using Next_Nil [OF less.prems(1)] less.prems(2) by (subst DecodeIRI_bytes.simps) simp
  next
    case (Cons c cs)
    obtain it1 where it1: "Next it = Some (True, it1)" "Current it1 = Some c" "cpi_wf it1" "remaining it1 = cs"
      using less.prems(1) Cons by (rule Next_Cons)
    have rest: "DecodeIRI_bytes it' (put buf index [b]) (length buf) (index + 1) =
        (if list_all (\<lambda>c. unat c < 256) (remaining it') then Some (put buf index (b # bs')) else None)"
      if "cpi_wf it'" "length (remaining it') < length (remaining it)" "unpercent (remaining it') = Some bs'"
        "index + length bs' < length buf" for it' b bs'
      using less.hyps [of it' bs' "index + 1" "put buf index [b]"] that put_put [of index "[b]" bs' buf] by simp
    from less.prems(2) [unfolded Cons] show ?thesis
    proof (cases rule: unpercent_Cons)
      case (plain bs')
      have "DecodeIRI_bytes it buf (length buf) index =
          (if unat c < 256 then DecodeIRI_bytes it1 (put buf index [ucast c]) (length buf) (index + 1) else None)"
        using plain less.prems(3) it1 sint_cases [of c]
        by (subst DecodeIRI_bytes.simps) (auto simp: IsPercent_def write_at_put)
      then show ?thesis using rest [of it1 bs' "ucast c"] plain it1 Cons less.prems(3) by simp
    next
      case (escape h l cs' x y bs')
      obtain it2 where it2: "Next it1 = Some (True, it2)" "Current it2 = Some h" "cpi_wf it2" "remaining it2 = l # cs'"
        using it1(3) it1(4) [unfolded escape(2)] by (rule Next_Cons)
      obtain it3 where it3: "Next it2 = Some (True, it3)" "Current it3 = Some l" "cpi_wf it3" "remaining it3 = cs'"
        using it2(3,4) by (rule Next_Cons)
      obtain m where m: "MergeHexCharacters h l = Some m" "sint m = int (16 * x + y)"
        "ucast m = (of_nat (16 * x + y) :: u8)" "16 * x + y < 256"
        using escape(3,4) by (rule MergeHexCharacters_hex_of)
      have "DecodeIRI_bytes it buf (length buf) index =
          DecodeIRI_bytes it3 (put buf index [of_nat (16 * x + y)]) (length buf) (index + 1)"
        using less.prems(3) it1 it2 it3 m escape(1,6)
        by (subst DecodeIRI_bytes.simps) (simp add: IsPercent_def write_at_put)
      moreover have "unat h < 256" "unat l < 256" using escape(3,4) hex_of_code_point by auto
      ultimately show ?thesis
        using rest [of it3 bs' "of_nat (16 * x + y)"] escape it3 Cons less.prems(3) by simp
    qed
  qed
qed

lemma length_code_points: "length (code_points str) \<le> Length str"
  and length_code_points_latin1: "list_all (\<lambda>c. unat c < 256) (code_points str) \<Longrightarrow> length (code_points str) = Length str"
proof -
  have "length cps \<le> length (concat (map utf16 cps))" for cps by (induction cps) (auto simp: utf16_def)
  from this [of "code_points str"] show "length (code_points str) \<le> Length str"
    by (simp add: utf16_utf16_decode Length_units)
  assume "list_all (\<lambda>c. unat c < 256) (code_points str)"
  then have "list_all (\<lambda>c. unat c \<le> 0xFF) (code_points str)" by (auto simp: list_all_iff)
  from length_latin1_utf16 [OF this] show "length (code_points str) = Length str"
    by (simp add: utf16_utf16_decode Length_units)
qed

lemma DecodeIRI_spec:
  "DecodeIRI mem str =
     (case unpercent (code_points str) of
        None \<Rightarrow> Some None
      | Some bs \<Rightarrow> if list_all (\<lambda>c. unat c < 256) (code_points str) then FromUTF8 mem bs (length bs) else None)"
proof (cases "unpercent (code_points str)")
  case None
  then show ?thesis by (simp add: DecodeIRI_def DecodeIRI_scan_unpercent)
next
  case (Some bs)
  define e where "e = length (code_points str) - length bs"
  have le: "length bs \<le> length (code_points str)" "e \<le> Length str"
    using unpercent_length [OF Some] length_code_points [of str] by (simp_all add: e_def)
  have "length bs \<le> Length str - e" using le length_code_points [of str] by (simp add: e_def)
  then have b: "DecodeIRI_bytes (new_CodePointIterator str) (fresh mem (Length str - e)) (Length str - e) 0 =
      (if list_all (\<lambda>c. unat c < 256) (code_points str) then Some (put (fresh mem (Length str - e)) 0 bs) else None)"
    using DecodeIRI_bytes_put [of "new_CodePointIterator str" bs 0 "fresh mem (Length str - e)"] Some by simp
  have "Length str - e = length bs" if "list_all (\<lambda>c. unat c < 256) (code_points str)"
    using length_code_points_latin1 [OF that] le by (simp add: e_def)
  then show ?thesis
    using Some b le by (simp add: DecodeIRI_def DecodeIRI_scan_unpercent put_whole flip: e_def)
qed

lemma percent_ascii: "list_all (\<lambda>c. 0 < unat c \<and> unat c < 128) (percent b)"
proof -
  have "list_all (\<lambda>h. 0 < h \<and> h < 128) hex_digits" by (simp add: hex_digits_def)
  then have h: "0 < hex_digits ! k \<and> hex_digits ! k < 128" if "k < 16" for k
    using that by (simp add: list_all_length hex_digits_def)
  have "unat b div 16 < 16" using unsigned_less [of b, where ?'a = nat] by simp
  then show ?thesis
    using h [of "unat b div 16"] h [of "unat b mod 16"]
    by (auto simp: percent_def unat_of_nat IsURISafeCharacter_def word_le_nat_alt)
qed

lemma hex_of_digits: "k < 16 \<Longrightarrow> hex_of (ucast (of_nat (hex_digits ! k) :: u8)) = Some k"
proof -
  have "list_all (\<lambda>k. hex_of (ucast (of_nat (hex_digits ! k) :: u8)) = Some k) [0..<16]" by code_simp
  then show "k < 16 \<Longrightarrow> hex_of (ucast (of_nat (hex_digits ! k) :: u8)) = Some k" by (simp add: list_all_iff)
qed

lemma unpercent_percent: "unpercent (map ucast (concat (map percent bs))) = Some bs"
proof (induction bs)
  case (Cons b bs)
  have "unat b div 16 < 16" using unsigned_less [of b, where ?'a = nat] by simp
  then have "hex_of (ucast (of_nat (hex_digits ! (unat b div 16)) :: u8)) = Some (unat b div 16)"
    "hex_of (ucast (of_nat (hex_digits ! (unat b mod 16)) :: u8)) = Some (unat b mod 16)"
    by (simp_all only: hex_of_digits mod_less_divisor zero_less_numeral)
  moreover have "of_nat (16 * (unat b div 16) + unat b mod 16) = b" by (simp only: mult_div_mod_eq) simp
  moreover have "(ucast b :: u32) \<noteq> 0x25" if "IsURISafeCharacter b"
    using that by (auto simp: IsURISafeCharacter_def word_unat_eq_iff word_le_nat_alt)
  moreover have "ucast (ucast b :: u32) = b"
    using unsigned_less [of b, where ?'a = nat] by (simp add: word_unat_eq_iff unat_ucast)
  ultimately show ?case using Cons.IH by (simp add: percent_def del: of_nat_add of_nat_mult)
qed simp

lemma encodes_ascii: "list_all (\<lambda>c. unat c < 128) bs \<Longrightarrow> encodes bs (map ucast bs)"
  by (induction bs) (auto simp: encodes_def utf8_def)

lemma percent_characters:
  assumes "c \<in> set (percent b)"
  shows "IsURISafeCharacter c \<or> c = 0x25 \<or> unat c \<in> set hex_digits"
proof -
  have small: "unat (of_nat (hex_digits ! k) :: u8) = hex_digits ! k" "hex_digits ! k \<in> set hex_digits" if "k < 16" for k
  proof -
    show mem: "hex_digits ! k \<in> set hex_digits" using that by (intro nth_mem) (simp add: hex_digits_def)
    then show "unat (of_nat (hex_digits ! k) :: u8) = hex_digits ! k"
      by (auto simp: hex_digits_def unat_of_nat)
  qed
  have "unat b div 16 < 16" "unat b mod 16 < 16" using unsigned_less [of b, where 'a = nat] by simp_all
  then show ?thesis using assms small by (auto simp: percent_def split: if_splits)
qed

lemma percent_round_trip:
  assumes "Length str \<le> kMaxElements" "length (concat (map percent (encoded str))) \<le> kMaxElements"
  obtains e r where "New_cstr mem (concat (map percent (encoded str)) @ [0]) = Some (Some e)"
    "DecodeIRI mem e = Some (Some r)" "units r = concat (map utf16 (map scalar (code_points str)))"
proof -
  let ?out = "concat (map percent (encoded str))"
  have ascii: "list_all (\<lambda>c. 0 < unat c \<and> unat c < 128) ?out"
    using percent_ascii by (auto simp: list_all_iff)
  have enc: "encodes ?out (map ucast ?out)" by (rule encodes_ascii) (use ascii in \<open>auto simp: list_all_iff\<close>)
  have bytes: "list_all (\<lambda>ch. unat ch \<le> 0xFF) (map (ucast :: u8 \<Rightarrow> u32) ?out)"
    using ascii by (fastforce simp: list_all_iff)
  obtain e where e: "FromUTF8 mem ?out (length ?out) = Some (Some e)" "units e = concat (map utf16 (map ucast ?out))"
    by (rule FromUTF8_encodes [OF enc, of mem]) (use assms(2) length_latin1_utf16 [OF bytes] in auto)
  have "utf16 (ucast (c :: u8)) = [ucast c]" for c
    using unsigned_less [of c, where ?'a = nat] by (simp add: utf16_def word_unat_eq_iff unat_ucast)
  then have "units e = map ucast ?out" using e(2) by (simp add: comp_def)
  then have cps: "code_points e = map ucast ?out" by (simp only: utf16_decode_latin1)
  obtain r where r: "FromUTF8 mem (encoded str) (length (encoded str)) = Some (Some r)"
    "units r = concat (map utf16 (map scalar (code_points str)))"
    using assms(1) by (rule encoded_round_trip)
  have "DecodeIRI mem e = FromUTF8 mem (encoded str) (length (encoded str))"
  proof -
    have "list_all (\<lambda>c. unat c < 256) (map (ucast :: u8 \<Rightarrow> u32) ?out)"
      using ascii by (fastforce simp: list_all_iff)
    then show ?thesis unfolding DecodeIRI_spec cps unpercent_percent by simp
  qed
  moreover have "0 \<notin> set ?out" using ascii by (fastforce simp: list_all_iff)
  ultimately show ?thesis using that e(1) r New_cstr_append [of ?out mem "[]"] by simp
qed

section \<open>What percent-encoding guarantees\<close>

text \<open>
  C22. \<open>String::EncodeIRI\<close> and \<open>String::DecodeIRI\<close> are inverse: \<open>EncodeIRI\<close> returns a C string that consists of
  unreserved ASCII characters and escapes, and, as long as the encoding is not longer than the longest string, a
  string made from it decodes to the original text, unpaired surrogates being replaced.
\<close>

theorem EncodeIRI_DecodeIRI:
  assumes "Length str \<le> kMaxElements"
  shows "\<exists>out. EncodeIRI mem str = Some (out @ [0]) \<and>
    list_all (\<lambda>c. IsURISafeCharacter c \<or> c = 0x25 \<or> unat c \<in> set hex_digits) out \<and>
    (length out \<le> kMaxElements \<longrightarrow>
      (\<exists>e r. New_cstr mem (out @ [0]) = Some (Some e) \<and> DecodeIRI mem e = Some (Some r) \<and>
        units r = concat (map utf16 (map scalar (code_points str))) \<and>
        (list_all (\<lambda>ch. \<not> IsSurrogate ch) (code_points str) \<longrightarrow> units r = units str)))"
proof -
  let ?out = "concat (map percent (encoded str))"
  have "list_all (\<lambda>c. IsURISafeCharacter c \<or> c = 0x25 \<or> unat c \<in> set hex_digits) ?out"
    using percent_characters by (auto simp: list_all_iff)
  moreover have "\<exists>e r. New_cstr mem (?out @ [0]) = Some (Some e) \<and> DecodeIRI mem e = Some (Some r) \<and>
      units r = concat (map utf16 (map scalar (code_points str))) \<and>
      (list_all (\<lambda>ch. \<not> IsSurrogate ch) (code_points str) \<longrightarrow> units r = units str)" if fits: "length ?out \<le> kMaxElements"
  proof -
    obtain e r where er: "New_cstr mem (?out @ [0]) = Some (Some e)" "DecodeIRI mem e = Some (Some r)"
      "units r = concat (map utf16 (map scalar (code_points str)))" by (rule percent_round_trip [OF assms fits])
    moreover have "list_all (\<lambda>ch. \<not> IsSurrogate ch) (code_points str) \<longrightarrow> units r = units str"
      unfolding er(3) by (auto simp only: scalar_units utf16_utf16_decode)
    ultimately show ?thesis by blast
  qed
  ultimately show ?thesis using EncodeIRI_spec [of mem str] by blast
qed

theorem EncodeIRI_DecodeIRI_witness:
  "\<exists>e r. EncodeIRI (\<lambda>_. 7) (OneByteString [0x41, 0xE9]) = Some [0x41, 0x25, 0x43, 0x33, 0x25, 0x41, 0x39, 0] \<and>
    New_cstr (\<lambda>_. 7) [0x41, 0x25, 0x43, 0x33, 0x25, 0x41, 0x39, 0] = Some (Some e) \<and>
    DecodeIRI (\<lambda>_. 7) e = Some (Some r) \<and> units r = [0x41, 0xE9]"
proof -
  let ?str = "OneByteString [0x41, 0xE9]" and ?out = "[0x41, 0x25, 0x43, 0x33, 0x25, 0x41, 0x39] :: u8 list"
  have enc: "EncodeIRI (\<lambda>_. 7) ?str = Some (?out @ [0])"
    by (simp add: EncodeIRI_spec IsLeadSurrogate_iff scalar_def IsSurrogate_iff utf8_bytes_def utf8_def percent_def
        IsURISafeCharacter_def hex_digits_def)
  have "Length ?str \<le> kMaxElements" by (simp add: kMaxElements_def kSmiMax_def kTwoByteChar_def)
  from EncodeIRI_DecodeIRI [OF this, of "\<lambda>_. 7"] obtain out where out: "EncodeIRI (\<lambda>_. 7) ?str = Some (out @ [0])"
    "length out \<le> kMaxElements \<longrightarrow> (\<exists>e r. New_cstr (\<lambda>_. 7) (out @ [0]) = Some (Some e) \<and> DecodeIRI (\<lambda>_. 7) e = Some (Some r) \<and>
       (list_all (\<lambda>ch. \<not> IsSurrogate ch) (code_points ?str) \<longrightarrow> units r = units ?str))" by blast
  have "out = ?out" using out(1) enc by simp
  moreover have "length ?out \<le> kMaxElements" by (simp add: kMaxElements_def kSmiMax_def kTwoByteChar_def)
  moreover have "list_all (\<lambda>ch. \<not> IsSurrogate ch) (code_points ?str)" by (simp add: IsLeadSurrogate_iff IsSurrogate_iff)
  ultimately have "\<exists>e r. New_cstr (\<lambda>_. 7) (?out @ [0]) = Some (Some e) \<and> DecodeIRI (\<lambda>_. 7) e = Some (Some r) \<and>
      units r = [0x41, 0xE9]" using out(2) by fastforce
  then show ?thesis using enc by simp
qed

text \<open>A code point above 0xFF outside an escape fails an assertion of \<open>DecodeIRI\<close> instead of giving null.\<close>

lemma DecodeIRI_wide_character:
  "unpercent (code_points str) \<noteq> None \<Longrightarrow> list_ex (\<lambda>c. 256 \<le> unat c) (code_points str) \<Longrightarrow>
     DecodeIRI mem str = None"
  by (fastforce simp: DecodeIRI_spec list_all_iff list_ex_iff)

end
