(* ===== verification/Case_Mapping.thy ===== *)
theory Case_Mapping
  imports Unicode_Codec
begin

text \<open>
  The class \<^verbatim>\<open>CaseMapping\<close> of \<^verbatim>\<open>runtime/platform/unicode.h\<close> with the tables of
  \<^verbatim>\<open>runtime/vm/unicode_data.cc\<close>.  The entries of the tables are integers; \<open>drop_bit\<close> on an integer is
  the arithmetic shift.  A read outside a table has the result \<open>None\<close>.
\<close>

section \<open>Tables\<close>

definition stage1 :: "int list" where
  "stage1 =
    [0, 1, 2, 3, 4, 5, 6, 6, 6, 6, 6, 6, 6, 6, 6, 6, 7, 6, 6, 6,
     6, 6, 6, 6, 6, 6, 6, 6, 6, 8, 9, 10, 6, 11, 6, 6, 12, 6, 6, 6,
     6, 6, 6, 6, 13, 14, 6, 6, 6, 6, 6, 6, 6, 6, 6, 6, 6, 6, 6, 6,
     6, 6, 6, 6, 6, 6, 6, 6, 6, 6, 6, 6, 6, 6, 6, 6, 6, 6, 6, 6,
     6, 6, 6, 6, 6, 6, 6, 6, 6, 6, 6, 6, 6, 6, 6, 6, 6, 6, 6, 6,
     6, 6, 6, 6, 6, 6, 6, 6, 6, 6, 6, 6, 6, 6, 6, 6, 6, 6, 6, 6,
     6, 6, 6, 6, 6, 6, 6, 6, 6, 6, 6, 6, 6, 6, 6, 6, 6, 6, 6, 6,
     6, 6, 6, 6, 6, 6, 6, 6, 6, 6, 6, 6, 6, 6, 6, 6, 6, 6, 6, 6,
     6, 6, 6, 6, 6, 6, 15, 16, 6, 6, 6, 6, 6, 6, 6, 6, 6, 6, 6, 6,
     6, 6, 6, 6, 6, 6, 6, 6, 6, 6, 6, 6, 6, 6, 6, 6, 6, 6, 6, 6,
     6, 6, 6, 6, 6, 6, 6, 6, 6, 6, 6, 6, 6, 6, 6, 6, 6, 6, 6, 6,
     6, 6, 6, 6, 6, 6, 6, 6, 6, 6, 6, 6, 6, 6, 6, 6, 6, 6, 6, 6,
     6, 6, 6, 6, 6, 6, 6, 6, 6, 6, 6, 6, 6, 6, 6, 17, 6, 6, 6, 6,
     18]"

definition stage2_block_0 :: "int list" where
  "stage2_block_0 =
    [0, 0, 0, 0, 0, 0, 0, 0, 0, 0, 0, 0, 0, 0, 0, 0,
     0, 0, 0, 0, 0, 0, 0, 0, 0, 0, 0, 0, 0, 0, 0, 0,
     0, 0, 0, 0, 0, 0, 0, 0, 0, 0, 0, 0, 0, 0, 0, 0,
     0, 0, 0, 0, 0, 0, 0, 0, 0, 0, 0, 0, 0, 0, 0, 0,
     0, 130, 130, 130, 130, 130, 130, 130, 130, 130, 130, 130, 130, 130, 130, 130,
     130, 130, 130, 130, 130, 130, 130, 130, 130, 130, 130, 0, 0, 0, 0, 0,
     0, - 127, - 127, - 127, - 127, - 127, - 127, - 127, - 127, - 127, - 127, - 127, - 127, - 127, - 127, - 127,
     - 127, - 127, - 127, - 127, - 127, - 127, - 127, - 127, - 127, - 127, - 127, 0, 0, 0, 0, 0,
     0, 0, 0, 0, 0, 0, 0, 0, 0, 0, 0, 0, 0, 0, 0, 0,
     0, 0, 0, 0, 0, 0, 0, 0, 0, 0, 0, 0, 0, 0, 0, 0,
     0, 0, 0, 0, 0, 0, 0, 0, 0, 0, 0, 0, 0, 0, 0, 0,
     0, 0, 0, 0, 0, 2973, 0, 0, 0, 0, 0, 0, 0, 0, 0, 0,
     130, 130, 130, 130, 130, 130, 130, 130, 130, 130, 130, 130, 130, 130, 130, 130,
     130, 130, 130, 130, 130, 130, 130, 0, 130, 130, 130, 130, 130, 130, 130, 0,
     - 127, - 127, - 127, - 127, - 127, - 127, - 127, - 127, - 127, - 127, - 127, - 127, - 127, - 127, - 127, - 127,
     - 127, - 127, - 127, - 127, - 127, - 127, - 127, 0, - 127, - 127, - 127, - 127, - 127, - 127, - 127, 485]"

definition stage2_block_1 :: "int list" where
  "stage2_block_1 =
    [6, - 3, 6, - 3, 6, - 3, 6, - 3, 6, - 3, 6, - 3, 6, - 3, 6, - 3,
     6, - 3, 6, - 3, 6, - 3, 6, - 3, 6, - 3, 6, - 3, 6, - 3, 6, - 3,
     6, - 3, 6, - 3, 6, - 3, 6, - 3, 6, - 3, 6, - 3, 6, - 3, 6, - 3,
     - 794, - 927, 6, - 3, 6, - 3, 6, - 3, 0, 6, - 3, 6, - 3, 6, - 3, 6,
     - 3, 6, - 3, 6, - 3, 6, - 3, 6, - 3, 0, 6, - 3, 6, - 3, 6, - 3,
     6, - 3, 6, - 3, 6, - 3, 6, - 3, 6, - 3, 6, - 3, 6, - 3, 6, - 3,
     6, - 3, 6, - 3, 6, - 3, 6, - 3, 6, - 3, 6, - 3, 6, - 3, 6, - 3,
     6, - 3, 6, - 3, 6, - 3, 6, - 3, - 482, 6, - 3, 6, - 3, 6, - 3, - 1199,
     781, 842, 6, - 3, 6, - 3, 826, 6, - 3, 822, 822, 6, - 3, 0, 318, 810,
     814, 6, - 3, 822, 830, 389, 846, 838, 6, - 3, 653, 0, 846, 854, 521, 858,
     6, - 3, 6, - 3, 6, - 3, 874, 6, - 3, 874, 0, 0, 6, - 3, 874, 6,
     - 3, 870, 870, 6, - 3, 6, - 3, 878, 6, - 3, 0, 0, 6, - 3, 0, 225,
     0, 0, 0, 0, 10, 3, - 7, 10, 7, - 7, 10, 11, - 7, 6, - 3, 6,
     - 3, 6, - 3, 6, - 3, 6, - 3, 6, - 3, 6, - 3, 6, - 3, - 315, 6, - 3,
     6, - 3, 6, - 3, 6, - 3, 6, - 3, 6, - 3, 6, - 3, 6, - 3, 6, - 3,
     0, 10, 15, - 7, 6, - 3, - 386, - 222, 6, - 3, 6, - 3, 6, - 3, 6, - 3]"

definition stage2_block_2 :: "int list" where
  "stage2_block_2 =
    [6, - 3, 6, - 3, 6, - 3, 6, - 3, 6, - 3, 6, - 3, 6, - 3, 6, - 3,
     6, - 3, 6, - 3, 6, - 3, 6, - 3, 6, - 3, 6, - 3, 6, - 3, 6, - 3,
     - 518, 0, 6, - 3, 6, - 3, 6, - 3, 6, - 3, 6, - 3, 6, - 3, 6, - 3,
     6, - 3, 6, - 3, 0, 0, 0, 0, 0, 0, 19, 6, - 3, - 650, 23, 0,
     0, 6, - 3, - 778, 278, 286, 6, - 3, 6, - 3, 6, - 3, 6, - 3, 6, - 3,
     27, 31, 0, - 839, - 823, 0, - 819, - 819, 0, - 807, 0, - 811, 0, 0, 0, 0,
     - 819, 0, 0, - 827, 0, 0, 0, 0, - 835, - 843, 0, 35, 0, 0, 0, - 843,
     0, 39, - 851, 0, 0, - 855, 0, 0, 0, 0, 0, 0, 0, 43, 0, 0,
     - 871, 0, 0, - 871, 0, 0, 0, 0, - 871, - 275, - 867, - 867, - 283, 0, 0, 0,
     0, 0, - 875, 0, 0, 0, 0, 0, 0, 0, 0, 0, 0, 0, 0, 0,
     0, 0, 0, 0, 0, 0, 0, 0, 0, 0, 0, 0, 0, 0, 0, 0,
     0, 0, 0, 0, 0, 0, 0, 0, 0, 0, 0, 0, 0, 0, 0, 0,
     0, 0, 0, 0, 0, 0, 0, 0, 0, 0, 0, 0, 0, 0, 0, 0,
     0, 0, 0, 0, 0, 0, 0, 0, 0, 0, 0, 0, 0, 0, 0, 0,
     0, 0, 0, 0, 0, 0, 0, 0, 0, 0, 0, 0, 0, 0, 0, 0,
     0, 0, 0, 0, 0, 0, 0, 0, 0, 0, 0, 0, 0, 0, 0, 0]"

definition stage2_block_3 :: "int list" where
  "stage2_block_3 =
    [0, 0, 0, 0, 0, 0, 0, 0, 0, 0, 0, 0, 0, 0, 0, 0,
     0, 0, 0, 0, 0, 0, 0, 0, 0, 0, 0, 0, 0, 0, 0, 0,
     0, 0, 0, 0, 0, 0, 0, 0, 0, 0, 0, 0, 0, 0, 0, 0,
     0, 0, 0, 0, 0, 0, 0, 0, 0, 0, 0, 0, 0, 0, 0, 0,
     0, 0, 0, 0, 0, 337, 0, 0, 0, 0, 0, 0, 0, 0, 0, 0,
     0, 0, 0, 0, 0, 0, 0, 0, 0, 0, 0, 0, 0, 0, 0, 0,
     0, 0, 0, 0, 0, 0, 0, 0, 0, 0, 0, 0, 0, 0, 0, 0,
     6, - 3, 6, - 3, 0, 0, 6, - 3, 0, 0, 0, 521, 521, 521, 0, 0,
     0, 0, 0, 0, 0, 0, 154, 0, 150, 150, 150, 0, 258, 0, 254, 254,
     0, 130, 130, 130, 130, 130, 130, 130, 130, 130, 130, 130, 130, 130, 130, 130,
     130, 130, 0, 130, 130, 130, 130, 130, 130, 130, 130, 130, - 151, - 147, - 147, - 147,
     0, - 127, - 127, - 127, - 127, - 127, - 127, - 127, - 127, - 127, - 127, - 127, - 127, - 127, - 127, - 127,
     - 127, - 127, - 123, - 127, - 127, - 127, - 127, - 127, - 127, - 127, - 127, - 127, - 255, - 251, - 251, 34,
     - 247, - 227, 0, 0, 0, - 187, - 215, - 31, 6, - 3, 6, - 3, 6, - 3, 6, - 3,
     6, - 3, 6, - 3, 6, - 3, 6, - 3, 6, - 3, 6, - 3, 6, - 3, 6, - 3,
     - 343, - 319, 29, 0, - 238, - 383, 0, 6, - 3, - 26, 6, - 3, 0, - 518, - 518, - 518]"

definition stage2_block_4 :: "int list" where
  "stage2_block_4 =
    [322, 322, 322, 322, 322, 322, 322, 322, 322, 322, 322, 322, 322, 322, 322, 322,
     130, 130, 130, 130, 130, 130, 130, 130, 130, 130, 130, 130, 130, 130, 130, 130,
     130, 130, 130, 130, 130, 130, 130, 130, 130, 130, 130, 130, 130, 130, 130, 130,
     - 127, - 127, - 127, - 127, - 127, - 127, - 127, - 127, - 127, - 127, - 127, - 127, - 127, - 127, - 127, - 127,
     - 127, - 127, - 127, - 127, - 127, - 127, - 127, - 127, - 127, - 127, - 127, - 127, - 127, - 127, - 127, - 127,
     - 319, - 319, - 319, - 319, - 319, - 319, - 319, - 319, - 319, - 319, - 319, - 319, - 319, - 319, - 319, - 319,
     6, - 3, 6, - 3, 6, - 3, 6, - 3, 6, - 3, 6, - 3, 6, - 3, 6, - 3,
     6, - 3, 6, - 3, 6, - 3, 6, - 3, 6, - 3, 6, - 3, 6, - 3, 6, - 3,
     6, - 3, 0, 0, 0, 0, 0, 0, 0, 0, 6, - 3, 6, - 3, 6, - 3,
     6, - 3, 6, - 3, 6, - 3, 6, - 3, 6, - 3, 6, - 3, 6, - 3, 6, - 3,
     6, - 3, 6, - 3, 6, - 3, 6, - 3, 6, - 3, 6, - 3, 6, - 3, 6, - 3,
     6, - 3, 6, - 3, 6, - 3, 6, - 3, 6, - 3, 6, - 3, 6, - 3, 6, - 3,
     62, 6, - 3, 6, - 3, 6, - 3, 6, - 3, 6, - 3, 6, - 3, 6, - 3, - 59,
     6, - 3, 6, - 3, 6, - 3, 6, - 3, 6, - 3, 6, - 3, 6, - 3, 6, - 3,
     6, - 3, 6, - 3, 6, - 3, 6, - 3, 6, - 3, 6, - 3, 6, - 3, 6, - 3,
     6, - 3, 6, - 3, 6, - 3, 6, - 3, 6, - 3, 6, - 3, 6, - 3, 6, - 3]"

definition stage2_block_5 :: "int list" where
  "stage2_block_5 =
    [6, - 3, 6, - 3, 6, - 3, 6, - 3, 6, - 3, 6, - 3, 6, - 3, 6, - 3,
     6, - 3, 6, - 3, 6, - 3, 6, - 3, 6, - 3, 6, - 3, 6, - 3, 6, - 3,
     6, - 3, 6, - 3, 0, 0, 0, 0, 0, 0, 0, 0, 0, 0, 0, 0,
     0, 194, 194, 194, 194, 194, 194, 194, 194, 194, 194, 194, 194, 194, 194, 194,
     194, 194, 194, 194, 194, 194, 194, 194, 194, 194, 194, 194, 194, 194, 194, 194,
     194, 194, 194, 194, 194, 194, 194, 0, 0, 0, 0, 0, 0, 0, 0, 0,
     0, - 191, - 191, - 191, - 191, - 191, - 191, - 191, - 191, - 191, - 191, - 191, - 191, - 191, - 191, - 191,
     - 191, - 191, - 191, - 191, - 191, - 191, - 191, - 191, - 191, - 191, - 191, - 191, - 191, - 191, - 191, - 191,
     - 191, - 191, - 191, - 191, - 191, - 191, - 191, 0, 0, 0, 0, 0, 0, 0, 0, 0,
     0, 0, 0, 0, 0, 0, 0, 0, 0, 0, 0, 0, 0, 0, 0, 0,
     0, 0, 0, 0, 0, 0, 0, 0, 0, 0, 0, 0, 0, 0, 0, 0,
     0, 0, 0, 0, 0, 0, 0, 0, 0, 0, 0, 0, 0, 0, 0, 0,
     0, 0, 0, 0, 0, 0, 0, 0, 0, 0, 0, 0, 0, 0, 0, 0,
     0, 0, 0, 0, 0, 0, 0, 0, 0, 0, 0, 0, 0, 0, 0, 0,
     0, 0, 0, 0, 0, 0, 0, 0, 0, 0, 0, 0, 0, 0, 0, 0,
     0, 0, 0, 0, 0, 0, 0, 0, 0, 0, 0, 0, 0, 0, 0, 0]"

definition stage2_block_6 :: "int list" where
  "stage2_block_6 =
    [0, 0, 0, 0, 0, 0, 0, 0, 0, 0, 0, 0, 0, 0, 0, 0,
     0, 0, 0, 0, 0, 0, 0, 0, 0, 0, 0, 0, 0, 0, 0, 0,
     0, 0, 0, 0, 0, 0, 0, 0, 0, 0, 0, 0, 0, 0, 0, 0,
     0, 0, 0, 0, 0, 0, 0, 0, 0, 0, 0, 0, 0, 0, 0, 0,
     0, 0, 0, 0, 0, 0, 0, 0, 0, 0, 0, 0, 0, 0, 0, 0,
     0, 0, 0, 0, 0, 0, 0, 0, 0, 0, 0, 0, 0, 0, 0, 0,
     0, 0, 0, 0, 0, 0, 0, 0, 0, 0, 0, 0, 0, 0, 0, 0,
     0, 0, 0, 0, 0, 0, 0, 0, 0, 0, 0, 0, 0, 0, 0, 0,
     0, 0, 0, 0, 0, 0, 0, 0, 0, 0, 0, 0, 0, 0, 0, 0,
     0, 0, 0, 0, 0, 0, 0, 0, 0, 0, 0, 0, 0, 0, 0, 0,
     0, 0, 0, 0, 0, 0, 0, 0, 0, 0, 0, 0, 0, 0, 0, 0,
     0, 0, 0, 0, 0, 0, 0, 0, 0, 0, 0, 0, 0, 0, 0, 0,
     0, 0, 0, 0, 0, 0, 0, 0, 0, 0, 0, 0, 0, 0, 0, 0,
     0, 0, 0, 0, 0, 0, 0, 0, 0, 0, 0, 0, 0, 0, 0, 0,
     0, 0, 0, 0, 0, 0, 0, 0, 0, 0, 0, 0, 0, 0, 0, 0,
     0, 0, 0, 0, 0, 0, 0, 0, 0, 0, 0, 0, 0, 0, 0, 0]"

definition stage2_block_7 :: "int list" where
  "stage2_block_7 =
    [0, 0, 0, 0, 0, 0, 0, 0, 0, 0, 0, 0, 0, 0, 0, 0,
     0, 0, 0, 0, 0, 0, 0, 0, 0, 0, 0, 0, 0, 0, 0, 0,
     0, 0, 0, 0, 0, 0, 0, 0, 0, 0, 0, 0, 0, 0, 0, 0,
     0, 0, 0, 0, 0, 0, 0, 0, 0, 0, 0, 0, 0, 0, 0, 0,
     0, 0, 0, 0, 0, 0, 0, 0, 0, 0, 0, 0, 0, 0, 0, 0,
     0, 0, 0, 0, 0, 0, 0, 0, 0, 0, 0, 0, 0, 0, 0, 0,
     0, 0, 0, 0, 0, 0, 0, 0, 0, 0, 0, 0, 0, 0, 0, 0,
     0, 0, 0, 0, 0, 0, 0, 0, 0, 0, 0, 0, 0, 0, 0, 0,
     0, 0, 0, 0, 0, 0, 0, 0, 0, 0, 0, 0, 0, 0, 0, 0,
     0, 0, 0, 0, 0, 0, 0, 0, 0, 0, 0, 0, 0, 0, 0, 0,
     29058, 29058, 29058, 29058, 29058, 29058, 29058, 29058, 29058, 29058, 29058, 29058, 29058, 29058, 29058, 29058,
     29058, 29058, 29058, 29058, 29058, 29058, 29058, 29058, 29058, 29058, 29058, 29058, 29058, 29058, 29058, 29058,
     29058, 29058, 29058, 29058, 29058, 29058, 0, 0, 0, 0, 0, 0, 0, 0, 0, 0,
     0, 0, 0, 0, 0, 0, 0, 0, 0, 0, 0, 0, 0, 0, 0, 0,
     0, 0, 0, 0, 0, 0, 0, 0, 0, 0, 0, 0, 0, 0, 0, 0,
     0, 0, 0, 0, 0, 0, 0, 0, 0, 0, 0, 0, 0, 0, 0, 0]"

definition stage2_block_8 :: "int list" where
  "stage2_block_8 =
    [0, 0, 0, 0, 0, 0, 0, 0, 0, 0, 0, 0, 0, 0, 0, 0,
     0, 0, 0, 0, 0, 0, 0, 0, 0, 0, 0, 0, 0, 0, 0, 0,
     0, 0, 0, 0, 0, 0, 0, 0, 0, 0, 0, 0, 0, 0, 0, 0,
     0, 0, 0, 0, 0, 0, 0, 0, 0, 0, 0, 0, 0, 0, 0, 0,
     0, 0, 0, 0, 0, 0, 0, 0, 0, 0, 0, 0, 0, 0, 0, 0,
     0, 0, 0, 0, 0, 0, 0, 0, 0, 0, 0, 0, 0, 0, 0, 0,
     0, 0, 0, 0, 0, 0, 0, 0, 0, 0, 0, 0, 0, 0, 0, 0,
     0, 0, 0, 0, 0, 0, 0, 0, 0, 47, 0, 0, 0, 15257, 0, 0,
     0, 0, 0, 0, 0, 0, 0, 0, 0, 0, 0, 0, 0, 0, 0, 0,
     0, 0, 0, 0, 0, 0, 0, 0, 0, 0, 0, 0, 0, 0, 0, 0,
     0, 0, 0, 0, 0, 0, 0, 0, 0, 0, 0, 0, 0, 0, 0, 0,
     0, 0, 0, 0, 0, 0, 0, 0, 0, 0, 0, 0, 0, 0, 0, 0,
     0, 0, 0, 0, 0, 0, 0, 0, 0, 0, 0, 0, 0, 0, 0, 0,
     0, 0, 0, 0, 0, 0, 0, 0, 0, 0, 0, 0, 0, 0, 0, 0,
     0, 0, 0, 0, 0, 0, 0, 0, 0, 0, 0, 0, 0, 0, 0, 0,
     0, 0, 0, 0, 0, 0, 0, 0, 0, 0, 0, 0, 0, 0, 0, 0]"

definition stage2_block_9 :: "int list" where
  "stage2_block_9 =
    [6, - 3, 6, - 3, 6, - 3, 6, - 3, 6, - 3, 6, - 3, 6, - 3, 6, - 3,
     6, - 3, 6, - 3, 6, - 3, 6, - 3, 6, - 3, 6, - 3, 6, - 3, 6, - 3,
     6, - 3, 6, - 3, 6, - 3, 6, - 3, 6, - 3, 6, - 3, 6, - 3, 6, - 3,
     6, - 3, 6, - 3, 6, - 3, 6, - 3, 6, - 3, 6, - 3, 6, - 3, 6, - 3,
     6, - 3, 6, - 3, 6, - 3, 6, - 3, 6, - 3, 6, - 3, 6, - 3, 6, - 3,
     6, - 3, 6, - 3, 6, - 3, 6, - 3, 6, - 3, 6, - 3, 6, - 3, 6, - 3,
     6, - 3, 6, - 3, 6, - 3, 6, - 3, 6, - 3, 6, - 3, 6, - 3, 6, - 3,
     6, - 3, 6, - 3, 6, - 3, 6, - 3, 6, - 3, 6, - 3, 6, - 3, 6, - 3,
     6, - 3, 6, - 3, 6, - 3, 6, - 3, 6, - 3, 6, - 3, 6, - 3, 6, - 3,
     6, - 3, 6, - 3, 6, - 3, 0, 0, 0, 0, 0, - 235, 0, 0, - 30458, 0,
     6, - 3, 6, - 3, 6, - 3, 6, - 3, 6, - 3, 6, - 3, 6, - 3, 6, - 3,
     6, - 3, 6, - 3, 6, - 3, 6, - 3, 6, - 3, 6, - 3, 6, - 3, 6, - 3,
     6, - 3, 6, - 3, 6, - 3, 6, - 3, 6, - 3, 6, - 3, 6, - 3, 6, - 3,
     6, - 3, 6, - 3, 6, - 3, 6, - 3, 6, - 3, 6, - 3, 6, - 3, 6, - 3,
     6, - 3, 6, - 3, 6, - 3, 6, - 3, 6, - 3, 6, - 3, 6, - 3, 6, - 3,
     6, - 3, 6, - 3, 6, - 3, 6, - 3, 6, - 3, 6, - 3, 6, - 3, 6, - 3]"

definition stage2_block_10 :: "int list" where
  "stage2_block_10 =
    [33, 33, 33, 33, 33, 33, 33, 33, - 30, - 30, - 30, - 30, - 30, - 30, - 30, - 30,
     33, 33, 33, 33, 33, 33, 0, 0, - 30, - 30, - 30, - 30, - 30, - 30, 0, 0,
     33, 33, 33, 33, 33, 33, 33, 33, - 30, - 30, - 30, - 30, - 30, - 30, - 30, - 30,
     33, 33, 33, 33, 33, 33, 33, 33, - 30, - 30, - 30, - 30, - 30, - 30, - 30, - 30,
     33, 33, 33, 33, 33, 33, 0, 0, - 30, - 30, - 30, - 30, - 30, - 30, 0, 0,
     0, 33, 0, 33, 0, 33, 0, 33, 0, - 30, 0, - 30, 0, - 30, 0, - 30,
     33, 33, 33, 33, 33, 33, 33, 33, - 30, - 30, - 30, - 30, - 30, - 30, - 30, - 30,
     297, 297, 345, 345, 345, 345, 401, 401, 513, 513, 449, 449, 505, 505, 0, 0,
     33, 33, 33, 33, 33, 33, 33, 33, - 30, - 30, - 30, - 30, - 30, - 30, - 30, - 30,
     33, 33, 33, 33, 33, 33, 33, 33, - 30, - 30, - 30, - 30, - 30, - 30, - 30, - 30,
     33, 33, 33, 33, 33, 33, 33, 33, - 30, - 30, - 30, - 30, - 30, - 30, - 30, - 30,
     33, 33, 0, 37, 0, 0, 0, 0, - 30, - 30, - 294, - 294, - 34, 0, - 28819, 0,
     0, 0, 0, 37, 0, 0, 0, 0, - 342, - 342, - 342, - 342, - 34, 0, 0, 0,
     33, 33, 0, 0, 0, 0, 0, 0, - 30, - 30, - 398, - 398, 0, 0, 0, 0,
     33, 33, 0, 0, 0, 29, 0, 0, - 30, - 30, - 446, - 446, - 26, 0, 0, 0,
     0, 0, 0, 37, 0, 0, 0, 0, - 510, - 510, - 502, - 502, - 34, 0, 0, 0]"

definition stage2_block_11 :: "int list" where
  "stage2_block_11 =
    [0, 0, 0, 0, 0, 0, 0, 0, 0, 0, 0, 0, 0, 0, 0, 0,
     0, 0, 0, 0, 0, 0, 0, 0, 0, 0, 0, 0, 0, 0, 0, 0,
     0, 0, 0, 0, 0, 0, - 30066, 0, 0, 0, 51, 55, 0, 0, 0, 0,
     0, 0, 114, 0, 0, 0, 0, 0, 0, 0, 0, 0, 0, 0, 0, 0,
     0, 0, 0, 0, 0, 0, 0, 0, 0, 0, 0, 0, 0, 0, - 111, 0,
     0, 0, 0, 0, 0, 0, 0, 0, 0, 0, 0, 0, 0, 0, 0, 0,
     66, 66, 66, 66, 66, 66, 66, 66, 66, 66, 66, 66, 66, 66, 66, 66,
     - 63, - 63, - 63, - 63, - 63, - 63, - 63, - 63, - 63, - 63, - 63, - 63, - 63, - 63, - 63, - 63,
     0, 0, 0, 6, - 3, 0, 0, 0, 0, 0, 0, 0, 0, 0, 0, 0,
     0, 0, 0, 0, 0, 0, 0, 0, 0, 0, 0, 0, 0, 0, 0, 0,
     0, 0, 0, 0, 0, 0, 0, 0, 0, 0, 0, 0, 0, 0, 0, 0,
     0, 0, 0, 0, 0, 0, 0, 0, 0, 0, 0, 0, 0, 0, 0, 0,
     0, 0, 0, 0, 0, 0, 0, 0, 0, 0, 0, 0, 0, 0, 0, 0,
     0, 0, 0, 0, 0, 0, 0, 0, 0, 0, 0, 0, 0, 0, 0, 0,
     0, 0, 0, 0, 0, 0, 0, 0, 0, 0, 0, 0, 0, 0, 0, 0,
     0, 0, 0, 0, 0, 0, 0, 0, 0, 0, 0, 0, 0, 0, 0, 0]"

definition stage2_block_12 :: "int list" where
  "stage2_block_12 =
    [0, 0, 0, 0, 0, 0, 0, 0, 0, 0, 0, 0, 0, 0, 0, 0,
     0, 0, 0, 0, 0, 0, 0, 0, 0, 0, 0, 0, 0, 0, 0, 0,
     0, 0, 0, 0, 0, 0, 0, 0, 0, 0, 0, 0, 0, 0, 0, 0,
     0, 0, 0, 0, 0, 0, 0, 0, 0, 0, 0, 0, 0, 0, 0, 0,
     0, 0, 0, 0, 0, 0, 0, 0, 0, 0, 0, 0, 0, 0, 0, 0,
     0, 0, 0, 0, 0, 0, 0, 0, 0, 0, 0, 0, 0, 0, 0, 0,
     0, 0, 0, 0, 0, 0, 0, 0, 0, 0, 0, 0, 0, 0, 0, 0,
     0, 0, 0, 0, 0, 0, 0, 0, 0, 0, 0, 0, 0, 0, 0, 0,
     0, 0, 0, 0, 0, 0, 0, 0, 0, 0, 0, 0, 0, 0, 0, 0,
     0, 0, 0, 0, 0, 0, 0, 0, 0, 0, 0, 0, 0, 0, 0, 0,
     0, 0, 0, 0, 0, 0, 0, 0, 0, 0, 0, 0, 0, 0, 0, 0,
     0, 0, 0, 0, 0, 0, 106, 106, 106, 106, 106, 106, 106, 106, 106, 106,
     106, 106, 106, 106, 106, 106, 106, 106, 106, 106, 106, 106, 106, 106, 106, 106,
     - 103, - 103, - 103, - 103, - 103, - 103, - 103, - 103, - 103, - 103, - 103, - 103, - 103, - 103, - 103, - 103,
     - 103, - 103, - 103, - 103, - 103, - 103, - 103, - 103, - 103, - 103, 0, 0, 0, 0, 0, 0,
     0, 0, 0, 0, 0, 0, 0, 0, 0, 0, 0, 0, 0, 0, 0, 0]"

definition stage2_block_13 :: "int list" where
  "stage2_block_13 =
    [194, 194, 194, 194, 194, 194, 194, 194, 194, 194, 194, 194, 194, 194, 194, 194,
     194, 194, 194, 194, 194, 194, 194, 194, 194, 194, 194, 194, 194, 194, 194, 194,
     194, 194, 194, 194, 194, 194, 194, 194, 194, 194, 194, 194, 194, 194, 194, 0,
     - 191, - 191, - 191, - 191, - 191, - 191, - 191, - 191, - 191, - 191, - 191, - 191, - 191, - 191, - 191, - 191,
     - 191, - 191, - 191, - 191, - 191, - 191, - 191, - 191, - 191, - 191, - 191, - 191, - 191, - 191, - 191, - 191,
     - 191, - 191, - 191, - 191, - 191, - 191, - 191, - 191, - 191, - 191, - 191, - 191, - 191, - 191, - 191, 0,
     6, - 3, 59, - 15254, 63, 67, 71, 6, - 3, 6, - 3, 6, - 3, 75, 79, 83,
     0, 0, 6, - 3, 0, 6, - 3, 0, 0, 0, 0, 0, 0, 0, 0, 0,
     6, - 3, 6, - 3, 6, - 3, 6, - 3, 6, - 3, 6, - 3, 6, - 3, 6, - 3,
     6, - 3, 6, - 3, 6, - 3, 6, - 3, 6, - 3, 6, - 3, 6, - 3, 6, - 3,
     6, - 3, 6, - 3, 6, - 3, 6, - 3, 6, - 3, 6, - 3, 6, - 3, 6, - 3,
     6, - 3, 6, - 3, 6, - 3, 6, - 3, 6, - 3, 6, - 3, 6, - 3, 6, - 3,
     6, - 3, 6, - 3, 6, - 3, 6, - 3, 6, - 3, 6, - 3, 6, - 3, 6, - 3,
     6, - 3, 6, - 3, 6, - 3, 6, - 3, 6, - 3, 6, - 3, 6, - 3, 6, - 3,
     6, - 3, 6, - 3, 0, 0, 0, 0, 0, 0, 0, 0, 0, 0, 0, 0,
     0, 0, 0, 0, 0, 0, 0, 0, 0, 0, 0, 0, 0, 0, 0, 0]"

definition stage2_block_14 :: "int list" where
  "stage2_block_14 =
    [- 29055, - 29055, - 29055, - 29055, - 29055, - 29055, - 29055, - 29055, - 29055, - 29055, - 29055, - 29055, - 29055, - 29055, - 29055, - 29055,
     - 29055, - 29055, - 29055, - 29055, - 29055, - 29055, - 29055, - 29055, - 29055, - 29055, - 29055, - 29055, - 29055, - 29055, - 29055, - 29055,
     - 29055, - 29055, - 29055, - 29055, - 29055, - 29055, 0, 0, 0, 0, 0, 0, 0, 0, 0, 0,
     0, 0, 0, 0, 0, 0, 0, 0, 0, 0, 0, 0, 0, 0, 0, 0,
     0, 0, 0, 0, 0, 0, 0, 0, 0, 0, 0, 0, 0, 0, 0, 0,
     0, 0, 0, 0, 0, 0, 0, 0, 0, 0, 0, 0, 0, 0, 0, 0,
     0, 0, 0, 0, 0, 0, 0, 0, 0, 0, 0, 0, 0, 0, 0, 0,
     0, 0, 0, 0, 0, 0, 0, 0, 0, 0, 0, 0, 0, 0, 0, 0,
     0, 0, 0, 0, 0, 0, 0, 0, 0, 0, 0, 0, 0, 0, 0, 0,
     0, 0, 0, 0, 0, 0, 0, 0, 0, 0, 0, 0, 0, 0, 0, 0,
     0, 0, 0, 0, 0, 0, 0, 0, 0, 0, 0, 0, 0, 0, 0, 0,
     0, 0, 0, 0, 0, 0, 0, 0, 0, 0, 0, 0, 0, 0, 0, 0,
     0, 0, 0, 0, 0, 0, 0, 0, 0, 0, 0, 0, 0, 0, 0, 0,
     0, 0, 0, 0, 0, 0, 0, 0, 0, 0, 0, 0, 0, 0, 0, 0,
     0, 0, 0, 0, 0, 0, 0, 0, 0, 0, 0, 0, 0, 0, 0, 0,
     0, 0, 0, 0, 0, 0, 0, 0, 0, 0, 0, 0, 0, 0, 0, 0]"

definition stage2_block_15 :: "int list" where
  "stage2_block_15 =
    [0, 0, 0, 0, 0, 0, 0, 0, 0, 0, 0, 0, 0, 0, 0, 0,
     0, 0, 0, 0, 0, 0, 0, 0, 0, 0, 0, 0, 0, 0, 0, 0,
     0, 0, 0, 0, 0, 0, 0, 0, 0, 0, 0, 0, 0, 0, 0, 0,
     0, 0, 0, 0, 0, 0, 0, 0, 0, 0, 0, 0, 0, 0, 0, 0,
     6, - 3, 6, - 3, 6, - 3, 6, - 3, 6, - 3, 6, - 3, 6, - 3, 6, - 3,
     6, - 3, 6, - 3, 6, - 3, 6, - 3, 6, - 3, 6, - 3, 6, - 3, 6, - 3,
     0, 0, 6, - 3, 6, - 3, 6, - 3, 6, - 3, 6, - 3, 6, - 3, 0, 0,
     0, 0, 0, 0, 0, 0, 0, 0, 0, 0, 0, 0, 0, 0, 0, 0,
     6, - 3, 6, - 3, 6, - 3, 6, - 3, 6, - 3, 6, - 3, 6, - 3, 6, - 3,
     6, - 3, 6, - 3, 6, - 3, 6, - 3, 0, 0, 0, 0, 0, 0, 0, 0,
     0, 0, 0, 0, 0, 0, 0, 0, 0, 0, 0, 0, 0, 0, 0, 0,
     0, 0, 0, 0, 0, 0, 0, 0, 0, 0, 0, 0, 0, 0, 0, 0,
     0, 0, 0, 0, 0, 0, 0, 0, 0, 0, 0, 0, 0, 0, 0, 0,
     0, 0, 0, 0, 0, 0, 0, 0, 0, 0, 0, 0, 0, 0, 0, 0,
     0, 0, 0, 0, 0, 0, 0, 0, 0, 0, 0, 0, 0, 0, 0, 0,
     0, 0, 0, 0, 0, 0, 0, 0, 0, 0, 0, 0, 0, 0, 0, 0]"

definition stage2_block_16 :: "int list" where
  "stage2_block_16 =
    [0, 0, 0, 0, 0, 0, 0, 0, 0, 0, 0, 0, 0, 0, 0, 0,
     0, 0, 0, 0, 0, 0, 0, 0, 0, 0, 0, 0, 0, 0, 0, 0,
     0, 0, 6, - 3, 6, - 3, 6, - 3, 6, - 3, 6, - 3, 6, - 3, 6, - 3,
     0, 0, 6, - 3, 6, - 3, 6, - 3, 6, - 3, 6, - 3, 6, - 3, 6, - 3,
     6, - 3, 6, - 3, 6, - 3, 6, - 3, 6, - 3, 6, - 3, 6, - 3, 6, - 3,
     6, - 3, 6, - 3, 6, - 3, 6, - 3, 6, - 3, 6, - 3, 6, - 3, 6, - 3,
     6, - 3, 6, - 3, 6, - 3, 6, - 3, 6, - 3, 6, - 3, 6, - 3, 6, - 3,
     0, 0, 0, 0, 0, 0, 0, 0, 0, 6, - 3, 6, - 3, 87, 6, - 3,
     6, - 3, 6, - 3, 6, - 3, 6, - 3, 0, 0, 0, 6, - 3, 0, 0, 0,
     0, 0, 0, 0, 0, 0, 0, 0, 0, 0, 0, 0, 0, 0, 0, 0,
     0, 0, 0, 0, 0, 0, 0, 0, 0, 0, 0, 0, 0, 0, 0, 0,
     0, 0, 0, 0, 0, 0, 0, 0, 0, 0, 0, 0, 0, 0, 0, 0,
     0, 0, 0, 0, 0, 0, 0, 0, 0, 0, 0, 0, 0, 0, 0, 0,
     0, 0, 0, 0, 0, 0, 0, 0, 0, 0, 0, 0, 0, 0, 0, 0,
     0, 0, 0, 0, 0, 0, 0, 0, 0, 0, 0, 0, 0, 0, 0, 0,
     0, 0, 0, 0, 0, 0, 0, 0, 0, 0, 0, 0, 0, 0, 0, 0]"

definition stage2_block_17 :: "int list" where
  "stage2_block_17 =
    [0, 0, 0, 0, 0, 0, 0, 0, 0, 0, 0, 0, 0, 0, 0, 0,
     0, 0, 0, 0, 0, 0, 0, 0, 0, 0, 0, 0, 0, 0, 0, 0,
     0, 130, 130, 130, 130, 130, 130, 130, 130, 130, 130, 130, 130, 130, 130, 130,
     130, 130, 130, 130, 130, 130, 130, 130, 130, 130, 130, 0, 0, 0, 0, 0,
     0, - 127, - 127, - 127, - 127, - 127, - 127, - 127, - 127, - 127, - 127, - 127, - 127, - 127, - 127, - 127,
     - 127, - 127, - 127, - 127, - 127, - 127, - 127, - 127, - 127, - 127, - 127, 0, 0, 0, 0, 0,
     0, 0, 0, 0, 0, 0, 0, 0, 0, 0, 0, 0, 0, 0, 0, 0,
     0, 0, 0, 0, 0, 0, 0, 0, 0, 0, 0, 0, 0, 0, 0, 0,
     0, 0, 0, 0, 0, 0, 0, 0, 0, 0, 0, 0, 0, 0, 0, 0,
     0, 0, 0, 0, 0, 0, 0, 0, 0, 0, 0, 0, 0, 0, 0, 0,
     0, 0, 0, 0, 0, 0, 0, 0, 0, 0, 0, 0, 0, 0, 0, 0,
     0, 0, 0, 0, 0, 0, 0, 0, 0, 0, 0, 0, 0, 0, 0, 0,
     0, 0, 0, 0, 0, 0, 0, 0, 0, 0, 0, 0, 0, 0, 0, 0,
     0, 0, 0, 0, 0, 0, 0, 0, 0, 0, 0, 0, 0, 0, 0, 0,
     0, 0, 0, 0, 0, 0, 0, 0, 0, 0, 0, 0, 0, 0, 0, 0,
     0, 0, 0, 0, 0, 0, 0, 0, 0, 0, 0, 0, 0, 0, 0, 0]"

definition stage2_block_18 :: "int list" where
  "stage2_block_18 =
    [162, 162, 162, 162, 162, 162, 162, 162, 162, 162, 162, 162, 162, 162, 162, 162,
     162, 162, 162, 162, 162, 162, 162, 162, 162, 162, 162, 162, 162, 162, 162, 162,
     162, 162, 162, 162, 162, 162, 162, 162, - 159, - 159, - 159, - 159, - 159, - 159, - 159, - 159,
     - 159, - 159, - 159, - 159, - 159, - 159, - 159, - 159, - 159, - 159, - 159, - 159, - 159, - 159, - 159, - 159,
     - 159, - 159, - 159, - 159, - 159, - 159, - 159, - 159, - 159, - 159, - 159, - 159, - 159, - 159, - 159, - 159,
     0, 0, 0, 0, 0, 0, 0, 0, 0, 0, 0, 0, 0, 0, 0, 0,
     0, 0, 0, 0, 0, 0, 0, 0, 0, 0, 0, 0, 0, 0, 0, 0,
     0, 0, 0, 0, 0, 0, 0, 0, 0, 0, 0, 0, 0, 0, 0, 0,
     0, 0, 0, 0, 0, 0, 0, 0, 0, 0, 0, 0, 0, 0, 0, 0,
     0, 0, 0, 0, 0, 0, 0, 0, 0, 0, 0, 0, 0, 0, 0, 0,
     0, 0, 0, 0, 0, 0, 0, 0, 0, 0, 0, 0, 0, 0, 0, 0,
     0, 0, 0, 0, 0, 0, 0, 0, 0, 0, 0, 0, 0, 0, 0, 0,
     0, 0, 0, 0, 0, 0, 0, 0, 0, 0, 0, 0, 0, 0, 0, 0,
     0, 0, 0, 0, 0, 0, 0, 0, 0, 0, 0, 0, 0, 0, 0, 0,
     0, 0, 0, 0, 0, 0, 0, 0, 0, 0, 0, 0, 0, 0, 0, 0,
     0, 0, 0, 0, 0, 0, 0, 0, 0, 0, 0, 0, 0, 0, 0, 0]"

definition stage2_blocks :: "int list list" where
  "stage2_blocks =
    [stage2_block_0, stage2_block_1, stage2_block_2, stage2_block_3, stage2_block_4,
     stage2_block_5, stage2_block_6, stage2_block_7, stage2_block_8, stage2_block_9,
     stage2_block_10, stage2_block_11, stage2_block_12, stage2_block_13, stage2_block_14,
     stage2_block_15, stage2_block_16, stage2_block_17, stage2_block_18]"

definition stage2 :: "int list" where
  "stage2 = concat stage2_blocks"

definition stage2_exception :: "(int \<times> int) list" where
  "stage2_exception =
    [(- 1, 1), (- 1, 1), (- 1, 1), (- 1, 1), (0, 10795), (0, 10792),
     (10783, 0), (10780, 0), (10743, 0), (10749, 0), (10727, 0), (35332, 0),
     (0, - 8383), (0, - 8262), (0, - 10743), (0, - 10727), (- 10795, 0), (- 10792, 0),
     (0, - 10780), (0, - 10749), (0, - 10783), (0, - 35332)]"

section \<open>Conversion\<close>

definition kUppercase :: int where "kUppercase = 1"
definition kLowercase :: int where "kLowercase = 2"
definition kException :: int where "kException = 3"
definition kTypeShift :: nat where "kTypeShift = 2"
definition kTypeMask :: int where "kTypeMask = 3"
definition kStage1Size :: int where "kStage1Size = 261"
definition kBlockSizeLog2 :: nat where "kBlockSizeLog2 = 8"
definition kBlockSize :: int where "kBlockSize = push_bit kBlockSizeLog2 1"

definition read_table :: "'a list \<Rightarrow> int \<Rightarrow> 'a option" where
  "read_table t i = (if 0 \<le> i then read_at t (nat i) else None)"

definition Convert :: "u32 \<Rightarrow> int \<Rightarrow> u32 option" where
  "Convert ch mapping =
     (if IsLatin1 ch then do {
        info \<leftarrow> read_table stage2 (sint ch);
        Some (if info AND kTypeMask = mapping then ch + of_int (drop_bit kTypeShift info) else ch) }
      else if sint ch \<le> push_bit kBlockSizeLog2 kStage1Size then do {
        page \<leftarrow> read_table stage1 (drop_bit kBlockSizeLog2 (sint ch));
        let offset = signed_take_bit 15 (push_bit kBlockSizeLog2 page);
        info \<leftarrow> read_table stage2 (offset + (sint ch AND (kBlockSize - 1)));
        let type = info AND kTypeMask;
        if type = mapping then Some (ch + of_int (drop_bit kTypeShift info))
        else if type = kException then do {
          e \<leftarrow> read_table stage2_exception (drop_bit kTypeShift info);
          d \<leftarrow> (if mapping - 1 = 0 then Some (fst e) else if mapping - 1 = 1 then Some (snd e) else None);
          Some (ch + of_int d) }
        else Some ch }
      else Some ch)"

definition ToUpper :: "u32 \<Rightarrow> u32 option" where
  "ToUpper ch = Convert ch kUppercase"

definition ToLower :: "u32 \<Rightarrow> u32 option" where
  "ToLower ch = Convert ch kLowercase"

definition TryConvertToLatin1 :: "u16 \<Rightarrow> u16" where
  "TryConvertToLatin1 c =
     (if c = 0x39c \<or> c = 0x3bc then 0xb5 else if c = 0x178 then 0xff else c)"

section \<open>The tables as a function\<close>

lemma length_stage1: "length stage1 = 261"
  by (simp add: stage1_def)

lemma stage1_range: "list_all (\<lambda>p. 0 \<le> p \<and> p < 19) stage1"
  by (simp add: stage1_def)

lemma length_stage2_blocks: "length stage2_blocks = 19"
  by (simp add: stage2_blocks_def)

lemma length_block: "list_all (\<lambda>b. length b = 256) stage2_blocks"
  by code_simp

lemma length_exceptions: "length stage2_exception = 22"
  by (simp add: stage2_exception_def)

lemma concat_equal_blocks:
  "list_all (\<lambda>b. length b = n) bs \<Longrightarrow> i < length bs \<Longrightarrow> k < n \<Longrightarrow>
     read_at (concat bs) (n * i + k) = Some (bs ! i ! k)"
proof (induction bs arbitrary: i)
  case (Cons b bs)
  show ?case
  proof (cases i)
    case (Suc j)
    then have "read_at (concat bs) (n * j + k) = Some (bs ! j ! k)" using Cons by simp
    then show ?thesis using Suc Cons.prems by (auto simp: read_at_def nth_append split: if_splits)
  qed (use Cons.prems in \<open>auto simp: read_at_def nth_append\<close>)
qed simp

text \<open>The entry of a code point below the end of the tables, and what it adds to the code point.\<close>

definition entry :: "nat \<Rightarrow> int" where
  "entry c = stage2_blocks ! nat (stage1 ! (c div 256)) ! (c mod 256)"

definition exception :: "int \<Rightarrow> int \<Rightarrow> int" where
  "exception mapping info =
     (let e = stage2_exception ! nat (drop_bit 2 info) in if mapping = kUppercase then fst e else snd e)"

definition delta :: "int \<Rightarrow> int \<Rightarrow> int" where
  "delta mapping info =
     (if info AND 3 = mapping then drop_bit 2 info
      else if info AND 3 = 3 then exception mapping info else 0)"

definition shift :: "int \<Rightarrow> u32 \<Rightarrow> int" where
  "shift mapping ch = (if unat ch < 66816 then delta mapping (entry (unat ch)) else 0)"

lemma block0_plain: "list_all (\<lambda>info. info AND 3 \<noteq> 3) stage2_block_0"
  by code_simp

lemma exception_index: "list_all (list_all (\<lambda>info. info AND 3 = 3 \<longrightarrow> 0 \<le> info \<and> info < 88)) stage2_blocks"
  by code_simp

lemma stage1_nth: "p < 261 \<Longrightarrow> 0 \<le> stage1 ! p \<and> stage1 ! p < 19"
  using stage1_range by (simp add: list_all_length length_stage1)

lemma page_less: "c < 66816 \<Longrightarrow> c div 256 < 261" for c :: nat
  by (simp add: div_less_iff_less_mult)

lemma read_stage2:
  assumes "c < 66816"
  shows "read_table stage2 (256 * stage1 ! (c div 256) + int (c mod 256)) = Some (entry c)"
proof -
  have p: "0 \<le> stage1 ! (c div 256)" "stage1 ! (c div 256) < 19" using page_less [OF assms] stage1_nth by auto
  then have n: "nat (256 * stage1 ! (c div 256) + int (c mod 256)) = 256 * nat (stage1 ! (c div 256)) + c mod 256"
    by (simp add: nat_add_distrib nat_mult_distrib)
  have "read_at (concat stage2_blocks) (256 * nat (stage1 ! (c div 256)) + c mod 256) = Some (entry c)"
    unfolding entry_def using p length_block length_stage2_blocks by (intro concat_equal_blocks) auto
  then show ?thesis using p(1) by (simp only: read_table_def stage2_def n) simp
qed

lemma entry_exception:
  assumes "c < 66816" "entry c AND 3 = 3"
  shows "0 \<le> entry c \<and> entry c < 88"
proof -
  have "nat (stage1 ! (c div 256)) < 19" using page_less [OF assms(1)] stage1_nth [of "c div 256"] by (simp add: nat_less_iff)
  then have "list_all (\<lambda>info. info AND 3 = 3 \<longrightarrow> 0 \<le> info \<and> info < 88) (stage2_blocks ! nat (stage1 ! (c div 256)))"
    "length (stage2_blocks ! nat (stage1 ! (c div 256))) = 256"
    using exception_index length_block length_stage2_blocks by (auto simp: list_all_length)
  then show ?thesis using assms(2) by (auto simp: list_all_length entry_def)
qed

lemma read_exception:
  assumes "c < 66816" "entry c AND 3 = 3"
  shows "read_table stage2_exception (drop_bit 2 (entry c)) = Some (stage2_exception ! nat (drop_bit 2 (entry c)))"
proof -
  have "0 \<le> e \<Longrightarrow> e < 88 \<Longrightarrow> 0 \<le> e div 4 \<and> e div 4 < 22" for e :: int by presburger
  then have "0 \<le> drop_bit 2 (entry c)" "drop_bit 2 (entry c) < 22"
    using entry_exception [OF assms] by (simp_all add: drop_bit_eq_div)
  then show ?thesis by (simp add: read_table_def read_at_def length_exceptions nat_less_iff)
qed

lemma stage1_0: "stage1 ! 0 = 0"
  by (simp add: stage1_def)

lemma length_block_0: "length stage2_block_0 = 256"
  by code_simp

lemma entry_Latin1: "c < 256 \<Longrightarrow> entry c AND 3 \<noteq> 3"
  using block0_plain length_block_0
  by (simp add: entry_def stage1_0 stage2_blocks_def list_all_length)

lemmas mapping_consts = kUppercase_def kLowercase_def kException_def kTypeShift_def kTypeMask_def
  kStage1Size_def kBlockSizeLog2_def kBlockSize_def

lemma Convert_shift:
  assumes "mapping = kUppercase \<or> mapping = kLowercase" "code_point ch" "unat ch \<noteq> 66816"
  shows "Convert ch mapping = Some (ch + of_int (shift mapping ch))"
proof -
  define c where "c = unat ch"
  have s: "sint ch = int c" using assms(2) by (simp add: c_def)
  consider "c < 256" | "256 \<le> c" "c < 66816" | "66816 < c" using assms(3) c_def by linarith
  then show ?thesis
  proof cases
    case 1
    then have "read_table stage2 (int c) = Some (entry c)"
      using read_stage2 [of c] by (simp add: stage1_0)
    then show ?thesis
      using 1 entry_Latin1 [of c]
      by (simp add: Convert_def IsLatin1_iff s shift_def delta_def mapping_consts flip: c_def)
  next
    case 2
    have "int c div 256 = int (c div 256)" by (simp add: zdiv_int)
    then have "read_table stage1 (int c div 256) = Some (stage1 ! (c div 256))"
      using page_less [OF 2(2)] by (simp only: read_table_def read_at_def length_stage1) simp
    moreover have "signed_take_bit 15 (256 * stage1 ! (c div 256)) = 256 * stage1 ! (c div 256)"
      using stage1_nth [OF page_less [OF 2(2)]] by (intro signed_take_bit_int_eq_self) auto
    moreover have "int c AND 255 = int (c mod 256)"
      using take_bit_eq_mask [of 8 "int c"] by (simp add: take_bit_eq_mod mask_eq_exp_minus_1 zmod_int)
    moreover note read_stage2 [OF 2(2)] read_exception [OF 2(2)]
    ultimately show ?thesis
      using 2 assms(1)
      by (auto simp: Convert_def IsLatin1_iff s shift_def delta_def exception_def mapping_consts
          push_bit_eq_mult drop_bit_eq_div Let_def mult.commute simp flip: c_def)
  next
    case 3
    then show ?thesis by (simp add: Convert_def IsLatin1_iff s shift_def mapping_consts flip: c_def)
  qed
qed

lemma Convert_past_end: "Convert 66816 mapping = None"
  by (simp add: Convert_def IsLatin1_iff sint_small mapping_consts read_table_def read_at_def length_stage1
      drop_bit_eq_div)

section \<open>What the tables map\<close>

text \<open>
  The mappings keep code points in range and never cross the boundary of the Basic Multilingual
  Plane.  Block by block: every page that has no block of its own refers to block 6, which is empty.
\<close>

definition keeps_width :: "int \<Rightarrow> int \<Rightarrow> bool" where
  "keeps_width c d \<longleftrightarrow> 0 \<le> c + d \<and> c + d \<le> 0x10FFFF \<and> (c \<le> 0xFFFF \<longleftrightarrow> c + d \<le> 0xFFFF)"

fun block_keeps_width :: "int \<Rightarrow> int list \<Rightarrow> bool" where
  "block_keeps_width c [] \<longleftrightarrow> True"
| "block_keeps_width c (info # infos) \<longleftrightarrow>
     (if info = 0 then block_keeps_width (c + 1) infos
      else if keeps_width c (delta kUppercase info) then
        if keeps_width c (delta kLowercase info) then block_keeps_width (c + 1) infos else False
      else False)"

definition own_pages :: "nat list" where
  "own_pages = [0, 1, 2, 3, 4, 5, 16, 29, 30, 31, 33, 36, 44, 45, 166, 167, 255, 260]"

lemma block6_empty: "stage2_block_6 = replicate 256 0"
  by code_simp

lemma block6_nth: "k < 256 \<Longrightarrow> stage2_block_6 ! k = 0"
  by (simp only: block6_empty nth_replicate)

lemma stage1_pages: "stage1 = map (\<lambda>p. if p \<in> set own_pages then stage1 ! p else 6) [0..<261]"
  by code_simp

lemma page_0: "block_keeps_width 0 stage2_block_0"
  by code_simp

lemma page_1: "block_keeps_width 256 stage2_block_1"
  by code_simp

lemma page_2: "block_keeps_width 512 stage2_block_2"
  by code_simp

lemma page_3: "block_keeps_width 768 stage2_block_3"
  by code_simp

lemma page_4: "block_keeps_width 1024 stage2_block_4"
  by code_simp

lemma page_5: "block_keeps_width 1280 stage2_block_5"
  by code_simp

lemma page_16: "block_keeps_width 4096 stage2_block_7"
  by code_simp

lemma page_29: "block_keeps_width 7424 stage2_block_8"
  by code_simp

lemma page_30: "block_keeps_width 7680 stage2_block_9"
  by code_simp

lemma page_31: "block_keeps_width 7936 stage2_block_10"
  by code_simp

lemma page_33: "block_keeps_width 8448 stage2_block_11"
  by code_simp

lemma page_36: "block_keeps_width 9216 stage2_block_12"
  by code_simp

lemma page_44: "block_keeps_width 11264 stage2_block_13"
  by code_simp

lemma page_45: "block_keeps_width 11520 stage2_block_14"
  by code_simp

lemma page_166: "block_keeps_width 42496 stage2_block_15"
  by code_simp

lemma page_167: "block_keeps_width 42752 stage2_block_16"
  by code_simp

lemma page_255: "block_keeps_width 65280 stage2_block_17"
  by code_simp

lemma page_260: "block_keeps_width 66560 stage2_block_18"
  by code_simp

lemmas page_blocks =
  page_0 page_1 page_2 page_3 page_4 page_5 page_16 page_29 page_30 page_31 page_33 page_36 page_44 page_45 page_166 page_167 page_255 page_260

lemma own_pages_keep_width:
  "list_all (\<lambda>p. block_keeps_width (256 * int p) (stage2_blocks ! nat (stage1 ! p))) own_pages"
  by (simp add: own_pages_def stage1_def stage2_blocks_def page_blocks)

lemma delta_zero [simp]: "delta kUppercase 0 = 0" "delta kLowercase 0 = 0"
  by (simp_all add: delta_def mapping_consts)

lemma block_keeps_width_nth:
  "block_keeps_width c infos \<Longrightarrow> k < length infos \<Longrightarrow> 0 \<le> c \<Longrightarrow> c + int (length infos) \<le> 0x110000 \<Longrightarrow>
     keeps_width (c + int k) (delta kUppercase (infos ! k)) \<and> keeps_width (c + int k) (delta kLowercase (infos ! k))"
proof (induction c infos arbitrary: k rule: block_keeps_width.induct)
  case (2 c info infos)
  show ?case
  proof (cases k)
    case 0
    then show ?thesis using 2(3-) by (cases "info = 0") (auto simp: keeps_width_def split: if_splits)
  next
    case (Suc j)
    then show ?thesis
      using 2(1) [of j] 2(2) [of j] 2(3-) by (cases "info = 0") (auto simp: algebra_simps split: if_splits)
  qed
qed simp

lemma shift_keeps_width:
  assumes "mapping = kUppercase \<or> mapping = kLowercase" "code_point ch"
  shows "keeps_width (int (unat ch)) (shift mapping ch)"
proof (cases "unat ch < 66816")
  case True
  define p where "p = unat ch div 256"
  have "int (unat ch) = int (256 * p + unat ch mod 256)" by (simp only: p_def mult_div_mod_eq)
  then have c: "int (unat ch) = 256 * int p + int (unat ch mod 256)" by (simp only: of_nat_add of_nat_mult of_nat_numeral)
  have p: "p < 261" using page_less [OF True] by (simp add: p_def)
  have len: "length (stage2_blocks ! nat (stage1 ! p)) = 256"
    using length_block length_stage2_blocks stage1_nth [OF p] by (simp add: list_all_length nat_less_iff)
  have sh: "shift mapping ch = delta mapping (stage2_blocks ! nat (stage1 ! p) ! (unat ch mod 256))"
    using True by (simp add: shift_def entry_def p_def)
  show ?thesis
  proof (cases "p \<in> set own_pages")
    case own: True
    then have "block_keeps_width (256 * int p) (stage2_blocks ! nat (stage1 ! p))"
      using own_pages_keep_width by (simp add: list_all_iff)
    then show ?thesis
      using block_keeps_width_nth [of "256 * int p" "stage2_blocks ! nat (stage1 ! p)" "unat ch mod 256"]
        assms(1) len p by (simp only: sh c) auto
  next
    case False
    then have "stage1 ! p = 6" using p by (subst stage1_pages) simp
    then have "shift mapping ch = 0"
      using assms(1) by (auto simp: sh stage2_blocks_def block6_nth)
    then show ?thesis using True by (simp add: keeps_width_def)
  qed
next
  case False
  then show ?thesis using assms(2) by (simp add: shift_def keeps_width_def code_point_def)
qed

lemma Convert_code_point:
  assumes "mapping = kUppercase \<or> mapping = kLowercase" "code_point ch" "ch \<noteq> 66816"
  obtains d where "Convert ch mapping = Some d" "code_point d" "Utf16_Length d = Utf16_Length ch"
    "int (unat d) = int (unat ch) + shift mapping ch"
proof
  have ne: "unat ch \<noteq> 66816" using assms(3) by (simp add: word_unat_eq_iff)
  show "Convert ch mapping = Some (ch + of_int (shift mapping ch))"
    using assms(1,2) ne by (rule Convert_shift)
  define x where "x = int (unat ch) + shift mapping ch"
  have "keeps_width (int (unat ch)) (shift mapping ch)" using assms(1,2) by (rule shift_keeps_width)
  then have x: "0 \<le> x" "x \<le> 0x10FFFF" "int (unat ch) \<le> 0xFFFF \<longleftrightarrow> x \<le> 0xFFFF"
    by (simp_all only: keeps_width_def x_def)
  have e: "ch + of_int (shift mapping ch) = word_of_int x" by (simp add: x_def)
  have "uint (word_of_int x :: u32) = x"
    unfolding uint_word_of_int_eq by (rule take_bit_int_eq_self) (use x in simp_all)
  then have u: "int (unat (word_of_int x :: u32)) = x" by simp
  then show "int (unat (ch + of_int (shift mapping ch))) = int (unat ch) + shift mapping ch"
    by (simp only: e x_def)
  have cp: "code_point (word_of_int x)" using u x(2) unfolding code_point_def by linarith
  then show "code_point (ch + of_int (shift mapping ch))" by (simp only: e)
  show "Utf16_Length (ch + of_int (shift mapping ch)) = Utf16_Length ch"
    using x(3) by (simp only: e Utf16_Length_def kMaxCodeUnit_def sint_code_point [OF cp] sint_code_point [OF assms(2)] u)
qed

section \<open>Properties\<close>

text \<open>
  C38. \<open>CaseMapping::ToUpper\<close> and \<open>ToLower\<close> map code points to code points, read only inside their
  tables, and keep the number of UTF-16 code units of the code point they convert, for every code
  point except U+10500.
\<close>

theorem case_mapping_total:
  assumes "\<not> IsOutOfRange ch" "ch \<noteq> 0x10500"
  shows "\<exists>u l. ToUpper ch = Some u \<and> ToLower ch = Some l \<and> \<not> IsOutOfRange u \<and> \<not> IsOutOfRange l \<and>
    Utf16_Length u = Utf16_Length ch \<and> Utf16_Length l = Utf16_Length ch"
proof -
  have c: "code_point ch" "ch \<noteq> 66816" using assms by (simp_all add: IsOutOfRange_iff)
  obtain u where "Convert ch kUppercase = Some u" "code_point u" "Utf16_Length u = Utf16_Length ch"
    using Convert_code_point [OF disjI1 [OF refl] c] by blast
  moreover obtain l where "Convert ch kLowercase = Some l" "code_point l" "Utf16_Length l = Utf16_Length ch"
    using Convert_code_point [OF disjI2 [OF refl] c] by blast
  ultimately show ?thesis by (simp add: ToUpper_def ToLower_def IsOutOfRange_iff)
qed

theorem case_mapping_total_witness:
  "\<exists>u l. ToUpper 0xE9 = Some u \<and> ToLower 0xE9 = Some l \<and> \<not> IsOutOfRange u \<and> \<not> IsOutOfRange l \<and>
    Utf16_Length u = Utf16_Length 0xE9 \<and> Utf16_Length l = Utf16_Length 0xE9"
  by (rule case_mapping_total) (simp_all add: IsOutOfRange_iff code_point_def)

text \<open>
  The bound of the table test is inclusive: for U+10500, the first code point after the tables, the
  index 261 into the 261 entries of \<open>stage1\<close> is read.
\<close>

lemma case_mapping_reads_past_table: "ToUpper 0x10500 = None" "ToLower 0x10500 = None"
  using Convert_past_end by (simp_all add: ToUpper_def ToLower_def)

end
