(* ===== verification/Case_Conversion.thy ===== *)
theory Case_Conversion
  imports String_Transcoding Case_Mapping
begin

text \<open>
  The case conversion of whole strings in \<^verbatim>\<open>runtime/vm/object.cc\<close>: \<^verbatim>\<open>String::Transform\<close> with its
  one-byte and two-byte variants, applied to the mappings of \<^verbatim>\<open>CaseMapping\<close>.
\<close>

section \<open>Operations\<close>

definition Transform_step :: "(u32 \<Rightarrow> u32 option) \<Rightarrow> u32 \<Rightarrow> bool \<times> u32 \<Rightarrow> (unit + (bool \<times> u32)) option" where
  "Transform_step mapping src st =
     (let (has_mapping, dst_max) = st in do {
        dst \<leftarrow> mapping src;
        Some (Inr (if src \<noteq> dst then True else has_mapping, if sint dst_max < sint dst then dst else dst_max)) })"

function OneByteString_Transform_loop :: "(u32 \<Rightarrow> u32 option) \<Rightarrow> String \<Rightarrow> u8 list \<Rightarrow> nat \<Rightarrow> u8 list option" where
  "OneByteString_Transform_loop mapping str result i =
     (if i < Length str then do {
        c \<leftarrow> CharAt str i;
        ch \<leftarrow> mapping (ucast c);
        if IsLatin1 ch then do {
          result \<leftarrow> write_at result i (ucast ch);
          OneByteString_Transform_loop mapping str result (i + 1) }
        else None }
      else Some result)"
  by pat_completeness auto
termination by (relation "measure (\<lambda>(_, str, _, i). Length str - i)") auto

declare OneByteString_Transform_loop.simps [simp del]

definition OneByteString_Transform :: "(nat \<Rightarrow> u16) \<Rightarrow> (u32 \<Rightarrow> u32 option) \<Rightarrow> String \<Rightarrow> String option" where
  "OneByteString_Transform mem mapping str = do {
     result \<leftarrow> OneByteString_New mem (Length str);
     map_option OneByteString (OneByteString_Transform_loop mapping str (one_byte_data result) 0) }"

definition TwoByteString_Transform_step ::
    "(u32 \<Rightarrow> u32 option) \<Rightarrow> u32 \<Rightarrow> nat \<times> u16 list \<Rightarrow> (unit + (nat \<times> u16 list)) option" where
  "TwoByteString_Transform_step mapping src st =
     (let (i, result) = st in do {
        dst \<leftarrow> mapping src;
        if 0 \<le> sint dst \<and> sint dst \<le> 0x10FFFF then do {
          let len = Utf16_Length dst;
          result \<leftarrow> (if len = 1 then write_at result i (ucast dst) else Utf16_Encode dst result i);
          Some (Inr (i + len, result)) }
        else None })"

definition TwoByteString_Transform :: "(nat \<Rightarrow> u16) \<Rightarrow> (u32 \<Rightarrow> u32 option) \<Rightarrow> String \<Rightarrow> String option" where
  "TwoByteString_Transform mem mapping str = do {
     result \<leftarrow> TwoByteString_New mem (Length str);
     r \<leftarrow> while_Next (TwoByteString_Transform_step mapping) (new_CodePointIterator str) (0, two_byte_data result);
     (case r of Inl _ \<Rightarrow> None | Inr (_, d) \<Rightarrow> Some (TwoByteString d)) }"

definition Transform :: "(nat \<Rightarrow> u16) \<Rightarrow> (u32 \<Rightarrow> u32 option) \<Rightarrow> String \<Rightarrow> String option" where
  "Transform mem mapping str = do {
     r \<leftarrow> while_Next (Transform_step mapping) (new_CodePointIterator str) (False, 0);
     (case r of
        Inl _ \<Rightarrow> None
      | Inr (has_mapping, dst_max) \<Rightarrow>
          if \<not> has_mapping then Some str
          else if IsLatin1 dst_max then OneByteString_Transform mem mapping str
          else if IsBmp dst_max \<or> IsSupplementary dst_max then TwoByteString_Transform mem mapping str
          else None) }"

definition ToUpperCase :: "(nat \<Rightarrow> u16) \<Rightarrow> String \<Rightarrow> String option" where
  "ToUpperCase mem str = Transform mem ToUpper str"

definition ToLowerCase :: "(nat \<Rightarrow> u16) \<Rightarrow> String \<Rightarrow> String option" where
  "ToLowerCase mem str = Transform mem ToLower str"

section \<open>The mapped text\<close>

text \<open>What the conversion relies on: a mapped code point takes as many UTF-16 units as the original.\<close>

definition same_width :: "(u32 \<Rightarrow> u32 option) \<Rightarrow> u32 \<Rightarrow> bool" where
  "same_width mapping ch \<longleftrightarrow>
     (\<exists>d. mapping ch = Some d \<and> code_point d \<and> Utf16_Length d = Utf16_Length ch)"

lemma case_mapping_same_width:
  assumes "code_point ch" "ch \<noteq> 66816"
  shows "same_width ToUpper ch" "same_width ToLower ch"
proof -
  show "same_width ToUpper ch"
    by (rule Convert_code_point [of kUppercase ch]) (use assms in \<open>auto simp: same_width_def ToUpper_def\<close>)
  show "same_width ToLower ch"
    by (rule Convert_code_point [of kLowercase ch]) (use assms in \<open>auto simp: same_width_def ToLower_def\<close>)
qed

lemma run_Transform:
  assumes "list_all (same_width mapping) cps" "code_point m"
  obtains m' where "run_body (Transform_step mapping) cps (b, m) =
      Some (Inr (b \<or> list_ex (\<lambda>ch. mapping ch \<noteq> Some ch) cps, m'))"
    "code_point m'" "\<And>n. unat m' \<le> n \<longleftrightarrow> unat m \<le> n \<and> list_all (\<lambda>ch. unat (the (mapping ch)) \<le> n) cps"
  using assms
proof (induction cps arbitrary: b m thesis)
  case Nil
  then show ?case by simp
next
  case (Cons c cs)
  obtain d where d: "mapping c = Some d" "code_point d" using Cons.prems(2) by (auto simp: same_width_def)
  define m1 where "m1 = (if sint m < sint d then d else m)"
  have "sint m < sint d \<longleftrightarrow> unat m < unat d"
    using Cons.prems(3) d(2) by (simp only: sint_code_point of_nat_less_iff)
  then have m1: "code_point m1" "unat m1 \<le> n \<longleftrightarrow> unat m \<le> n \<and> unat d \<le> n" for n
    using d(2) Cons.prems(3) by (auto simp: m1_def)
  obtain m' where m': "run_body (Transform_step mapping) cs (b \<or> c \<noteq> d, m1) =
      Some (Inr ((b \<or> c \<noteq> d) \<or> list_ex (\<lambda>ch. mapping ch \<noteq> Some ch) cs, m'))" "code_point m'"
    "\<And>n. unat m' \<le> n \<longleftrightarrow> unat m1 \<le> n \<and> list_all (\<lambda>ch. unat (the (mapping ch)) \<le> n) cs"
    using Cons.IH [where m = m1 and b = "b \<or> c \<noteq> d"] Cons.prems(2) m1(1) by auto
  have "Transform_step mapping c (b, m) = Some (Inr (b \<or> c \<noteq> d, m1))"
    by (auto simp: Transform_step_def d m1_def)
  then show ?case
    by (intro Cons.prems(1) [of m']) (use m' m1 d in \<open>auto\<close>)
qed

lemma OneByteString_Transform_put:
  assumes "\<And>u. u \<in> set (units str) \<Longrightarrow> \<exists>d. mapping (ucast u) = Some d \<and> unat d \<le> 0xFF"
    and "i \<le> Length str" "length result = Length str"
  shows "OneByteString_Transform_loop mapping str result i =
    Some (put result i (map (\<lambda>u. ucast (the (mapping (ucast u)))) (drop i (units str))))"
  using assms(2,3)
proof (induction "Length str - i" arbitrary: i result)
  case 0
  then show ?case by (simp add: OneByteString_Transform_loop.simps Length_units)
next
  case (Suc n)
  then have i: "i < Length str" "n = Length str - Suc i" by linarith+
  define u where "u = units str ! i"
  have u: "drop i (units str) = u # drop (Suc i) (units str)" "u \<in> set (units str)"
    using i(1) by (simp_all add: u_def Length_units Cons_nth_drop_Suc)
  obtain d where d: "mapping (ucast u) = Some d" "unat d \<le> 0xFF" using assms(1) [OF u(2)] by blast
  have "OneByteString_Transform_loop mapping str result i =
      OneByteString_Transform_loop mapping str (put result i [ucast d]) (Suc i)"
    using i(1) d Suc.prems(2)
    by (subst OneByteString_Transform_loop.simps)
      (simp add: CharAt_units read_at_def Length_units u_def IsLatin1_iff write_at_put)
  also have "\<dots> = Some (put (put result i [ucast d]) (Suc i) (map (\<lambda>u. ucast (the (mapping (ucast u)))) (drop (Suc i) (units str))))"
    using Suc.hyps(1) [of "Suc i" "put result i [ucast d]"] i Suc.prems(2) by simp
  finally show ?case
    using put_put [of i "[ucast d]" "map (\<lambda>u. ucast (the (mapping (ucast u)))) (drop (Suc i) (units str))" result]
      u(1) d(1) i(1) Suc.prems(2) by (simp add: Length_units)
qed

lemma run_TwoByteString_Transform:
  assumes "list_all (same_width mapping) cps" "i + length (concat (map (\<lambda>ch. utf16 (the (mapping ch))) cps)) \<le> length result"
  shows "run_body (TwoByteString_Transform_step mapping) cps (i, result) =
    Some (Inr (i + length (concat (map (\<lambda>ch. utf16 (the (mapping ch))) cps)),
      put result i (concat (map (\<lambda>ch. utf16 (the (mapping ch))) cps))))"
  using assms
proof (induction cps arbitrary: i result)
  case (Cons c cs)
  obtain d where d: "mapping c = Some d" "code_point d" using Cons.prems(1) by (auto simp: same_width_def)
  let ?r = "put result i (utf16 d)"
  have room: "i + length (utf16 d) \<le> length result" using Cons.prems(2) d(1) by simp
  have "(if Utf16_Length d = 1 then write_at result i (ucast d) else Utf16_Encode d result i) = Some ?r"
    using room d(2) Utf16_Encode_put [OF d(2), of i result]
    by (cases "unat d \<le> 0xFFFF") (simp_all add: Utf16_Length_def kMaxCodeUnit_def utf16_def write_at_put not_le)
  then have "TwoByteString_Transform_step mapping c (i, result) = Some (Inr (i + length (utf16 d), ?r))"
    using d by (simp add: TwoByteString_Transform_step_def Let_def length_utf16 code_point_def)
  then show ?case
    using Cons.IH [of "i + length (utf16 d)" ?r] Cons.prems d(1)
      put_put [of i "utf16 d" "concat (map (\<lambda>ch. utf16 (the (mapping ch))) cs)" result] by simp
qed simp

lemma bmp_units:
  assumes "list_all (\<lambda>ch. Utf16_Length ch = 1) (code_points str)"
  shows "code_points str = map ucast (units str)"
proof -
  have *: "cps = map ucast (concat (map utf16 cps))"
    if "list_all (\<lambda>ch. Utf16_Length ch = 1) cps" "list_all code_point cps" for cps
    using that by (induction cps)
      (auto simp: Utf16_Length_def kMaxCodeUnit_def utf16_def word_unat_eq_iff unat_ucast split: if_splits)
  have "code_points str = map ucast (concat (map utf16 (code_points str)))"
    by (rule *) (use assms code_point_code_points in auto)
  then show ?thesis by (simp add: utf16_utf16_decode)
qed

lemma length_mapped:
  assumes "list_all (same_width mapping) (code_points str)"
  shows "length (concat (map (\<lambda>ch. utf16 (the (mapping ch))) (code_points str))) = Length str"
proof -
  have "length (concat (map (\<lambda>ch. utf16 (the (mapping ch))) cps)) = length (concat (map utf16 cps))"
    if "list_all (same_width mapping) cps" "list_all code_point cps" for cps
    using that by (induction cps) (auto simp: same_width_def length_utf16)
  from this [OF assms code_point_code_points] show ?thesis by (simp add: utf16_utf16_decode Length_units)
qed

lemma OneByteString_Transform_units:
  assumes keep: "list_all (same_width mapping) (code_points str)" and len: "Length str \<le> kMaxElements"
    and small: "list_all (\<lambda>ch. unat (the (mapping ch)) \<le> 0xFF) (code_points str)"
  shows "\<exists>r. OneByteString_Transform mem mapping str = Some r \<and>
    units r = concat (map (\<lambda>ch. utf16 (the (mapping ch))) (code_points str))"
proof -
  have "Utf16_Length ch = 1" if ch: "ch \<in> set (code_points str)" for ch
  proof -
    obtain d where "mapping ch = Some d" "code_point d" "Utf16_Length d = Utf16_Length ch" "unat d \<le> 0xFF"
      using ch keep small by (fastforce simp: list_all_iff same_width_def)
    then show ?thesis by (simp add: Utf16_Length_def kMaxCodeUnit_def split: if_splits)
  qed
  then have cps: "code_points str = map ucast (units str)" by (intro bmp_units) (simp add: list_all_iff)
  have m: "\<exists>d. mapping (ucast u) = Some d \<and> unat d \<le> 0xFF" if "u \<in> set (units str)" for u
    using that keep small cps by (fastforce simp: list_all_iff same_width_def)
  let ?out = "map (\<lambda>u. ucast (the (mapping (ucast u))) :: u8) (units str)"
  have "OneByteString_Transform mem mapping str = Some (OneByteString ?out)"
    using OneByteString_Transform_put [of str mapping 0 "fresh mem (Length str)"] m len
    by (simp add: OneByteString_Transform_def OneByteString_New_def put_whole Length_units)
  moreover have "map ucast (map (\<lambda>u. ucast (the (mapping (ucast u))) :: u8) us) =
      concat (map (\<lambda>ch. utf16 (the (mapping ch))) (map ucast us))" if "set us \<subseteq> set (units str)" for us :: "u16 list"
    using that m by (induction us) (fastforce simp: utf16_def word_unat_eq_iff unat_ucast)+
  ultimately show ?thesis by (simp add: cps)
qed

lemma Transform_units:
  assumes keep: "list_all (same_width mapping) (code_points str)" and len: "Length str \<le> kMaxElements"
  shows "\<exists>r. Transform mem mapping str = Some r \<and>
    units r = concat (map (\<lambda>ch. utf16 (the (mapping ch))) (code_points str))"
proof -
  let ?cps = "code_points str"
  have "code_point 0" by (simp add: code_point_def)
  then obtain m where m: "run_body (Transform_step mapping) ?cps (False, 0) =
      Some (Inr (list_ex (\<lambda>ch. mapping ch \<noteq> Some ch) ?cps, m))" "code_point m"
    "\<And>n. unat m \<le> n \<longleftrightarrow> list_all (\<lambda>ch. unat (the (mapping ch)) \<le> n) ?cps"
    by (rule run_Transform [OF keep, where b = False]) auto
  have range: "IsBmp m \<or> IsSupplementary m"
    using m(2) by (auto simp: IsBmp_def IsSupplementary_iff)
  consider (same) "\<not> list_ex (\<lambda>ch. mapping ch \<noteq> Some ch) ?cps"
    | (one) "list_ex (\<lambda>ch. mapping ch \<noteq> Some ch) ?cps" "unat m \<le> 0xFF"
    | (two) "list_ex (\<lambda>ch. mapping ch \<noteq> Some ch) ?cps" "\<not> unat m \<le> 0xFF" by blast
  then show ?thesis
  proof cases
    case same
    then have "map (\<lambda>ch. utf16 (the (mapping ch))) ?cps = map utf16 ?cps" by (auto simp: list_ex_iff)
    then have "concat (map (\<lambda>ch. utf16 (the (mapping ch))) ?cps) = units str" by (simp only: utf16_utf16_decode)
    then show ?thesis using same m(1) by (simp add: Transform_def while_Next_run)
  next
    case one
    then show ?thesis
      using OneByteString_Transform_units [OF keep len] m by (simp add: Transform_def while_Next_run IsLatin1_iff)
  next
    case two
    have "TwoByteString_Transform mem mapping str =
        Some (TwoByteString (concat (map (\<lambda>ch. utf16 (the (mapping ch))) ?cps)))"
      using run_TwoByteString_Transform [OF keep, of 0 "fresh mem (Length str)"] length_mapped [OF keep] len
      by (simp add: TwoByteString_Transform_def TwoByteString_New_def while_Next_run put_whole)
    then show ?thesis using two m(1) range by (simp add: Transform_def while_Next_run IsLatin1_iff)
  qed
qed

lemma Transform_fails:
  assumes "list_ex (\<lambda>ch. mapping ch = None) (code_points str)"
  shows "Transform mem mapping str = None"
proof -
  have "run_body (Transform_step mapping) cps st = None" if "list_ex (\<lambda>ch. mapping ch = None) cps" for cps st
    using that by (induction cps arbitrary: st)
      (auto simp: Transform_step_def split: bind_splits prod.splits)
  then show ?thesis using assms by (simp add: Transform_def while_Next_run)
qed

section \<open>What case conversion guarantees\<close>

text \<open>
  C18. Case conversion: for every string without U+10500, \<open>String::ToUpperCase\<close> and \<open>String::ToLowerCase\<close>
  return a string of the same length whose code points are the mapped ones, whichever of the unchanged,
  one-byte and two-byte results they choose.  A string that contains U+10500 makes both read past
  the end of the mapping table.
\<close>

theorem case_conversion_exact:
  assumes "Length str \<le> kMaxElements"
  shows "(0x10500 \<notin> set (code_points str) \<longrightarrow>
      (\<exists>u l. ToUpperCase mem str = Some u \<and> Length u = Length str \<and>
         units u = concat (map (\<lambda>ch. utf16 (the (ToUpper ch))) (code_points str)) \<and>
         ToLowerCase mem str = Some l \<and> Length l = Length str \<and>
         units l = concat (map (\<lambda>ch. utf16 (the (ToLower ch))) (code_points str)))) \<and>
    (0x10500 \<in> set (code_points str) \<longrightarrow> ToUpperCase mem str = None \<and> ToLowerCase mem str = None)"
proof (intro conjI impI)
  assume "0x10500 \<notin> set (code_points str)"
  then have k: "list_all (same_width ToUpper) (code_points str)" "list_all (same_width ToLower) (code_points str)"
    using code_point_code_points [of str] case_mapping_same_width by (auto simp: list_all_iff)
  obtain u where u: "ToUpperCase mem str = Some u" "units u = concat (map (\<lambda>ch. utf16 (the (ToUpper ch))) (code_points str))"
    using Transform_units [OF k(1) assms] by (auto simp: ToUpperCase_def)
  obtain l where l: "ToLowerCase mem str = Some l" "units l = concat (map (\<lambda>ch. utf16 (the (ToLower ch))) (code_points str))"
    using Transform_units [OF k(2) assms] by (auto simp: ToLowerCase_def)
  have "Length u = Length str" "Length l = Length str"
    unfolding Length_units [of u] Length_units [of l] u(2) l(2) by (rule length_mapped [OF k(1)], rule length_mapped [OF k(2)])
  with u l show "\<exists>u l. ToUpperCase mem str = Some u \<and> Length u = Length str \<and>
      units u = concat (map (\<lambda>ch. utf16 (the (ToUpper ch))) (code_points str)) \<and>
      ToLowerCase mem str = Some l \<and> Length l = Length str \<and>
      units l = concat (map (\<lambda>ch. utf16 (the (ToLower ch))) (code_points str))" by blast
next
  assume e: "0x10500 \<in> set (code_points str)"
  have "ToUpper 0x10500 = None" "ToLower 0x10500 = None"
    using Convert_past_end by (simp_all add: ToUpper_def ToLower_def)
  with e have "list_ex (\<lambda>ch. ToUpper ch = None) (code_points str)" "list_ex (\<lambda>ch. ToLower ch = None) (code_points str)"
    unfolding list_ex_iff by blast+
  then show "ToUpperCase mem str = None" "ToLowerCase mem str = None"
    by (simp_all add: ToUpperCase_def ToLowerCase_def Transform_fails)
qed

theorem case_conversion_exact_witness:
  "\<exists>u l. ToUpperCase (\<lambda>_. 7) (OneByteString [0x61, 0xFF]) = Some u \<and>
    units u = concat (map (\<lambda>ch. utf16 (the (ToUpper ch))) [0x61, 0xFF]) \<and>
    ToLowerCase (\<lambda>_. 7) (OneByteString [0x61, 0xFF]) = Some l \<and>
    units l = concat (map (\<lambda>ch. utf16 (the (ToLower ch))) [0x61, 0xFF])"
proof -
  have cps: "code_points (OneByteString [0x61, 0xFF]) = [0x61, 0xFF]" by (simp add: IsLeadSurrogate_iff)
  have "Length (OneByteString [0x61, 0xFF]) \<le> kMaxElements" by (simp add: kMaxElements_def kSmiMax_def kTwoByteChar_def)
  from case_conversion_exact [OF this, of "\<lambda>_. 7"] show ?thesis unfolding cps by auto
qed

end
