(* ===== verification/Parallel_Moves.thy ===== *)
theory Parallel_Moves
  imports VM_Prelude
begin

text \<open>
  The parallel move resolver of \<^verbatim>\<open>runtime/vm/compiler/backend/flow_graph_compiler.cc\<close>: it turns a set of
  moves that are meant to happen at once into a sequence of machine instructions, breaking cycles with swaps.
  The code generator of a target is a parameter; \<open>move_target\<close> states what the resolver needs of it.
\<close>

section \<open>Locations and moves\<close>

text \<open>
  Two locations that differ denote disjoint storage, which is the invariant stated with the class
  \<^verbatim>\<open>Location\<close>.  Constants are identified by a number, stack slots by base register and index.
\<close>

datatype Location =
  NoLocation
| Constant nat
| Register nat
| FpuRegister nat
| StackSlot nat int
| DoubleStackSlot nat int
| QuadStackSlot nat int

fun IsConstant :: "Location \<Rightarrow> bool" where
  "IsConstant (Constant _) \<longleftrightarrow> True" | "IsConstant _ \<longleftrightarrow> False"

record MoveOperands =
  dest :: Location
  src :: Location

definition operands_ok :: "MoveOperands \<Rightarrow> bool" where
  "operands_ok m \<longleftrightarrow> src m \<noteq> NoLocation \<or> dest m = NoLocation"

definition IsPending :: "MoveOperands \<Rightarrow> bool option" where
  "IsPending m = (if operands_ok m then Some (dest m = NoLocation \<and> src m \<noteq> NoLocation) else None)"

definition IsEliminated :: "MoveOperands \<Rightarrow> bool option" where
  "IsEliminated m = (if operands_ok m then Some (src m = NoLocation) else None)"

definition Blocks :: "MoveOperands \<Rightarrow> Location \<Rightarrow> bool option" where
  "Blocks m loc = do { e \<leftarrow> IsEliminated m; Some (\<not> e \<and> src m = loc) }"

definition IsRedundant :: "MoveOperands \<Rightarrow> bool option" where
  "IsRedundant m = do { e \<leftarrow> IsEliminated m; Some (e \<or> dest m = NoLocation \<or> src m = dest m) }"

definition Eliminate :: "MoveOperands \<Rightarrow> MoveOperands" where
  "Eliminate m = m\<lparr>dest := NoLocation, src := NoLocation\<rparr>"

definition MarkPending :: "MoveOperands \<Rightarrow> (Location \<times> MoveOperands) option" where
  "MarkPending m = do { p \<leftarrow> IsPending m; if p then None else Some (dest m, m\<lparr>dest := NoLocation\<rparr>) }"

definition ClearPending :: "MoveOperands \<Rightarrow> Location \<Rightarrow> MoveOperands option" where
  "ClearPending m d = do { p \<leftarrow> IsPending m; if p then Some (m\<lparr>dest := d\<rparr>) else None }"

section \<open>The resolver\<close>

text \<open>
  A target lowers a move or a swap to instructions; it may inspect the moves that are left to find a
  scratch register.  The frame layout is that of the function being compiled.
\<close>

record 'i Target =
  lower_move :: "MoveOperands list \<Rightarrow> Location \<Rightarrow> Location \<Rightarrow> 'i list option"
  lower_swap :: "MoveOperands list \<Rightarrow> Location \<Rightarrow> Location \<Rightarrow> 'i list option"
  first_local_from_fp :: int
  param_end_from_fp :: int
  StackSize :: int
  FPREG :: nat

record 'i Resolver =
  moves :: "MoveOperands list"
  code :: "'i list"

definition VariableIndexForFrameSlot :: "'i Target \<Rightarrow> int \<Rightarrow> int option" where
  "VariableIndexForFrameSlot t frame_slot =
     (if frame_slot \<le> first_local_from_fp t then Some (frame_slot - first_local_from_fp t)
      else if param_end_from_fp t < frame_slot then Some (frame_slot - param_end_from_fp t) else None)"

definition slot_in_frame :: "'i Target \<Rightarrow> Location \<Rightarrow> bool" where
  "slot_in_frame t dst =
     (let in_frame = (\<lambda>base i. base \<noteq> FPREG t \<or>
        (case VariableIndexForFrameSlot t i of None \<Rightarrow> False | Some v \<Rightarrow> - v < StackSize t)) in
      case dst of StackSlot base i \<Rightarrow> in_frame base i | DoubleStackSlot base i \<Rightarrow> in_frame base i | _ \<Rightarrow> True)"

definition BuildInitialMoveList :: "MoveOperands list \<Rightarrow> MoveOperands list option" where
  "BuildInitialMoveList parallel_move =
     (if list_all operands_ok parallel_move
      then Some (filter (\<lambda>m. IsRedundant m = Some False) parallel_move) else None)"

definition EmitMove :: "'i Target \<Rightarrow> nat \<Rightarrow> 'i Resolver \<Rightarrow> 'i Resolver option" where
  "EmitMove t index r = do {
     move \<leftarrow> read_at (moves r) index;
     if slot_in_frame t (dest move) then do {
       is \<leftarrow> lower_move t (moves r) (dest move) (src move);
       Some (r\<lparr>moves := (moves r)[index := Eliminate move], code := code r @ is\<rparr>) }
     else None }"

text \<open>The loop at the end of \<open>EmitSwap\<close> redirects the sources of the moves that are left.\<close>

primrec redirect :: "Location \<Rightarrow> Location \<Rightarrow> MoveOperands list \<Rightarrow> MoveOperands list option" where
  "redirect source destination [] = Some []"
| "redirect source destination (m # ms) = do {
     b \<leftarrow> Blocks m source;
     m' \<leftarrow> (if b then Some (m\<lparr>src := destination\<rparr>)
           else do { b \<leftarrow> Blocks m destination; Some (if b then m\<lparr>src := source\<rparr> else m) });
     ms' \<leftarrow> redirect source destination ms;
     Some (m' # ms') }"

definition EmitSwap :: "'i Target \<Rightarrow> nat \<Rightarrow> 'i Resolver \<Rightarrow> 'i Resolver option" where
  "EmitSwap t index r = do {
     move \<leftarrow> read_at (moves r) index;
     is \<leftarrow> lower_swap t (moves r) (dest move) (src move);
     ms \<leftarrow> redirect (src move) (dest move) ((moves r)[index := Eliminate move]);
     Some (r\<lparr>moves := ms, code := code r @ is\<rparr>) }"

text \<open>
  The two loops of \<open>PerformMove\<close>.  The first one calls \<open>PerformMove\<close> on the moves that block a destination,
  the second one looks for a pending move that does.
\<close>

primrec perform_blockers ::
    "(nat \<Rightarrow> 'i Resolver \<Rightarrow> 'i Resolver option) \<Rightarrow> Location \<Rightarrow> nat list \<Rightarrow> 'i Resolver \<Rightarrow> 'i Resolver option" where
  "perform_blockers perform destination [] r = Some r"
| "perform_blockers perform destination (i # is) r = do {
     other_move \<leftarrow> read_at (moves r) i;
     b \<leftarrow> Blocks other_move destination;
     p \<leftarrow> (if b then IsPending other_move else Some True);
     r \<leftarrow> (if b \<and> \<not> p then perform i r else Some r);
     perform_blockers perform destination is r }"

primrec find_blocker :: "Location \<Rightarrow> MoveOperands list \<Rightarrow> bool option" where
  "find_blocker destination [] = Some False"
| "find_blocker destination (m # ms) = do {
     b \<leftarrow> Blocks m destination;
     if b then do { p \<leftarrow> IsPending m; if p then Some True else None }
     else find_blocker destination ms }"

text \<open>The recursion depth is bounded by the number of moves, which \<open>fuel\<close> stands for.\<close>

primrec PerformMove :: "nat \<Rightarrow> 'i Target \<Rightarrow> nat \<Rightarrow> 'i Resolver \<Rightarrow> 'i Resolver option" where
  "PerformMove 0 t index r = None"
| "PerformMove (Suc fuel) t index r = do {
     move \<leftarrow> read_at (moves r) index;
     p \<leftarrow> IsPending move;
     redundant \<leftarrow> IsRedundant move;
     if p \<or> redundant \<or> src move = NoLocation then None
     else do {
       (destination, pending) \<leftarrow> MarkPending move;
       let r = r\<lparr>moves := (moves r)[index := pending]\<rparr>;
       r \<leftarrow> perform_blockers (PerformMove fuel t) destination [0..<length (moves r)] r;
       move \<leftarrow> read_at (moves r) index;
       move \<leftarrow> ClearPending move destination;
       let r = r\<lparr>moves := (moves r)[index := move]\<rparr>;
       if src move = destination then Some (r\<lparr>moves := (moves r)[index := Eliminate move]\<rparr>)
       else do {
         blocked \<leftarrow> find_blocker destination (moves r);
         if blocked then EmitSwap t index r else EmitMove t index r } } }"

primrec perform_all :: "nat \<Rightarrow> 'i Target \<Rightarrow> nat list \<Rightarrow> 'i Resolver \<Rightarrow> 'i Resolver option" where
  "perform_all fuel t [] r = Some r"
| "perform_all fuel t (i # is) r = do {
     move \<leftarrow> read_at (moves r) i;
     e \<leftarrow> IsEliminated move;
     r \<leftarrow> (if \<not> e \<and> \<not> IsConstant (src move) then PerformMove fuel t i r else Some r);
     perform_all fuel t is r }"

primrec emit_constants :: "'i Target \<Rightarrow> nat list \<Rightarrow> 'i Resolver \<Rightarrow> 'i Resolver option" where
  "emit_constants t [] r = Some r"
| "emit_constants t (i # is) r = do {
     move \<leftarrow> read_at (moves r) i;
     e \<leftarrow> IsEliminated move;
     r \<leftarrow> (if \<not> e then if IsConstant (src move) then EmitMove t i r else None else Some r);
     emit_constants t is r }"

definition EmitNativeCode :: "'i Target \<Rightarrow> MoveOperands list \<Rightarrow> 'i list option" where
  "EmitNativeCode t parallel_move = do {
     ms \<leftarrow> BuildInitialMoveList parallel_move;
     r \<leftarrow> perform_all (Suc (length ms)) t [0..<length ms] \<lparr>moves = ms, code = []\<rparr>;
     r \<leftarrow> emit_constants t [0..<length ms] r;
     Some (code r) }"

definition IsScratchLocation :: "MoveOperands list \<Rightarrow> Location \<Rightarrow> bool option" where
  "IsScratchLocation ms loc =
     (if list_all operands_ok ms
      then Some (\<not> list_ex (\<lambda>m. Blocks m loc = Some True) ms \<and> list_ex (\<lambda>m. dest m = loc) ms) else None)"

section \<open>The state of the resolution\<close>

text \<open>
  \<open>D i\<close> is the destination of move \<open>i\<close>, which the list of moves itself forgets while the move is
  pending.  \<open>P\<close> is the stack of pending moves, innermost first: each of them reads the destination of the next
  one, whose \<open>PerformMove\<close> has called it.
\<close>

definition alive :: "MoveOperands list \<Rightarrow> nat \<Rightarrow> bool" where
  "alive ms i \<longleftrightarrow> i < length ms \<and> src (ms ! i) \<noteq> NoLocation"

fun chain :: "(nat \<Rightarrow> Location) \<Rightarrow> MoveOperands list \<Rightarrow> nat list \<Rightarrow> bool" where
  "chain D ms (p # q # ps) \<longleftrightarrow> src (ms ! p) = D q \<and> chain D ms (q # ps)"
| "chain D ms ps \<longleftrightarrow> True"

definition graph_inv :: "(nat \<Rightarrow> Location) \<Rightarrow> nat list \<Rightarrow> MoveOperands list \<Rightarrow> bool" where
  "graph_inv D P ms \<longleftrightarrow>
     inj_on D {..<length ms} \<and> (\<forall>i<length ms. D i \<noteq> NoLocation \<and> \<not> IsConstant (D i)) \<and>
     distinct P \<and> (\<forall>p\<in>set P. alive ms p \<and> dest (ms ! p) = NoLocation \<and> \<not> IsConstant (src (ms ! p))) \<and>
     (\<forall>i<length ms. src (ms ! i) = NoLocation \<longrightarrow> dest (ms ! i) = NoLocation) \<and>
     (\<forall>i. alive ms i \<and> i \<notin> set P \<longrightarrow> dest (ms ! i) = D i \<and> src (ms ! i) \<noteq> D i) \<and>
     chain D ms P"

lemma graph_operands_ok: "graph_inv D P ms \<Longrightarrow> i < length ms \<Longrightarrow> operands_ok (ms ! i)"
  by (auto simp: graph_inv_def operands_ok_def)

lemma graph_all_ok: "graph_inv D P ms \<Longrightarrow> list_all operands_ok ms"
  by (simp add: list_all_length graph_operands_ok)

lemma graph_D: "graph_inv D P ms \<Longrightarrow> i < length ms \<Longrightarrow> j < length ms \<Longrightarrow> D i = D j \<longleftrightarrow> i = j"
  by (auto simp: graph_inv_def dest: inj_onD)

lemma chain_cong: "(\<And>p. p \<in> set P \<Longrightarrow> src (ms ! p) = src (ms' ! p)) \<Longrightarrow> chain D ms P = chain D ms' P"
  by (induction D ms P rule: chain.induct) auto

lemma chain_Cons: "chain D ms (p # P) \<longleftrightarrow> (P = [] \<or> src (ms ! p) = D (hd P)) \<and> chain D ms P"
  by (cases P) auto

lemma chain_src:
  "chain D ms P \<Longrightarrow> p \<in> set P \<Longrightarrow> p = last P \<or> (\<exists>q\<in>set P. src (ms ! p) = D q \<and> q \<in> set (tl P))"
  by (induction D ms P rule: chain.induct) auto

lemma Blocks_ok [simp]: "operands_ok m \<Longrightarrow> loc \<noteq> NoLocation \<Longrightarrow> Blocks m loc = Some (src m = loc)"
  by (auto simp: Blocks_def IsEliminated_def)

lemma IsPending_ok [simp]:
  "operands_ok m \<Longrightarrow> IsPending m = Some (dest m = NoLocation \<and> src m \<noteq> NoLocation)"
  "operands_ok m \<Longrightarrow> IsEliminated m = Some (src m = NoLocation)"
  "operands_ok m \<Longrightarrow> IsRedundant m = Some (src m = NoLocation \<or> dest m = NoLocation \<or> src m = dest m)"
  by (simp_all add: IsPending_def IsEliminated_def IsRedundant_def)

lemma Eliminate_simps [simp]: "src (Eliminate m) = NoLocation" "dest (Eliminate m) = NoLocation" "operands_ok (Eliminate m)"
  by (simp_all add: Eliminate_def operands_ok_def)

lemma alive_update [simp]: "i < length ms \<Longrightarrow> alive (ms[i := Eliminate m]) j \<longleftrightarrow> alive ms j \<and> j \<noteq> i"
  by (auto simp: alive_def nth_list_update)

lemma find_blocker_eq:
  assumes "list_all operands_ok ms" "destination \<noteq> NoLocation"
    and "\<And>i. i < length ms \<Longrightarrow> src (ms ! i) = destination \<Longrightarrow> dest (ms ! i) = NoLocation"
  shows "find_blocker destination ms = Some (\<exists>i<length ms. src (ms ! i) = destination)"
  using assms
proof (induction ms)
  case (Cons m ms)
  have "find_blocker destination ms = Some (\<exists>i<length ms. src (ms ! i) = destination)"
    using Cons.prems(1,2) Cons.prems(3) [of "Suc i" for i] by (intro Cons.IH) auto
  then show ?case
    using Cons.prems(1,2) Cons.prems(3) [of 0] by (auto simp: less_Suc_eq_0_disj)
qed simp

lemma redirect_eq:
  assumes "list_all operands_ok ms" "source \<noteq> NoLocation" "destination \<noteq> NoLocation"
  shows "redirect source destination ms =
    Some (map (\<lambda>m. if src m = source then m\<lparr>src := destination\<rparr>
                   else if src m = destination then m\<lparr>src := source\<rparr> else m) ms)"
  using assms by (induction ms) auto

lemma graph_eliminate:
  assumes "graph_inv D (index # P) ms"
  shows "graph_inv D P (ms[index := Eliminate m])"
proof -
  have i: "index < length ms" "index \<notin> set P" using assms by (auto simp: graph_inv_def alive_def)
  have "chain D (ms[index := Eliminate m]) P"
    using assms i by (subst chain_cong [of P _ ms]) (auto simp: graph_inv_def chain_Cons nth_list_update)
  then show ?thesis
    using assms i by (auto simp: graph_inv_def nth_list_update alive_update split: if_splits)
qed

lemma graph_mark:
  assumes "graph_inv D P ms" "alive ms index" "index \<notin> set P" "\<not> IsConstant (src (ms ! index))"
    "P = [] \<or> src (ms ! index) = D (hd P)"
  shows "graph_inv D (index # P) (ms[index := (ms ! index)\<lparr>dest := NoLocation\<rparr>])"
proof -
  have i: "index < length ms" using assms(2) by (simp add: alive_def)
  have a: "alive (ms[index := (ms ! index)\<lparr>dest := NoLocation\<rparr>]) j = alive ms j" for j
    using i by (cases "j = index") (simp_all add: alive_def)
  have "chain D (ms[index := (ms ! index)\<lparr>dest := NoLocation\<rparr>]) P"
    using assms i by (subst chain_cong [of P _ ms]) (auto simp: graph_inv_def nth_list_update)
  then show ?thesis
    using assms i by (auto simp: graph_inv_def nth_list_update a chain_Cons)
qed

definition redirected :: "Location \<Rightarrow> Location \<Rightarrow> MoveOperands \<Rightarrow> MoveOperands" where
  "redirected source destination m =
     (if src m = source then m\<lparr>src := destination\<rparr>
      else if src m = destination then m\<lparr>src := source\<rparr> else m)"

lemma redirected_simps [simp]:
  "dest (redirected s d m) = dest m"
  "src (redirected s d m) = (if src m = s then d else if src m = d then s else src m)"
  by (simp_all add: redirected_def)

lemma chain_redirected:
  assumes "chain D ms P" "\<And>q. q \<in> set (tl P) \<Longrightarrow> D q \<noteq> s \<and> D q \<noteq> d"
    and "\<And>p. p \<in> set P \<Longrightarrow> src (ms ! p) \<noteq> s \<Longrightarrow> src (ms ! p) \<noteq> d \<Longrightarrow> src (ms' ! p) = src (ms ! p)"
  shows "chain D ms' P"
  using assms by (induction D ms P rule: chain.induct) auto

lemma graph_swap:
  assumes g: "graph_inv D (index # P) ms" and P: "P \<noteq> []"
    and s: "s = src (ms ! index)" and d: "d = D index"
    and free: "\<And>j. alive ms j \<Longrightarrow> j \<notin> set (index # P) \<Longrightarrow> src (ms ! j) \<noteq> d"
  shows "graph_inv D P (map (redirected s d) (ms[index := Eliminate m]))" (is "graph_inv D P ?ms")
proof -
  have i: "index < length ms" "index \<notin> set P" using g by (auto simp: graph_inv_def alive_def)
  have hd: "s = D (hd P)" "hd P \<in> set P" using g P s by (auto simp: graph_inv_def chain_Cons)
  have lt: "p < length ms" if "p \<in> set P" for p using g that by (auto simp: graph_inv_def alive_def)
  have D: "D p = D q \<longleftrightarrow> p = q" if "p \<in> set P" "q \<in> set (index # P)" for p q
    using graph_D [OF g] lt that i(1) by auto
  have no: "s \<noteq> NoLocation" "d \<noteq> NoLocation" "\<not> IsConstant s" "\<not> IsConstant d"
    using g hd lt i(1) d by (auto simp: graph_inv_def)
  have nth: "?ms ! j = redirected s d (ms ! j)" if "j < length ms" "j \<noteq> index" for j using that by simp
  have al: "alive ?ms j \<longleftrightarrow> alive ms j \<and> j \<noteq> index" for j
    using no i(1) by (auto simp: alive_def nth_list_update split: if_splits)
  have "chain D ?ms P"
  proof (rule chain_redirected [of D ms P s d])
    show "chain D ms P" using g by (simp add: graph_inv_def chain_Cons)
    fix q assume q: "q \<in> set (tl P)"
    then have "q \<in> set P" "q \<noteq> hd P" using g P by (cases P; auto simp: graph_inv_def)+
    then show "D q \<noteq> s \<and> D q \<noteq> d" using D hd d i(2) by auto
  next
    fix p assume p: "p \<in> set P" "src (ms ! p) \<noteq> s" "src (ms ! p) \<noteq> d"
    then have "index \<noteq> p" using i(2) by auto
    then show "src (?ms ! p) = src (ms ! p)" using p lt [of p] by simp
  qed
  moreover have "alive ?ms p \<and> dest (?ms ! p) = NoLocation \<and> \<not> IsConstant (src (?ms ! p))" if p: "p \<in> set P" for p
  proof -
    have "index \<noteq> p" using i(2) p by auto
    then show ?thesis using g no lt [OF p] p unfolding al by (simp add: graph_inv_def)
  qed
  moreover have "\<forall>j<length ms. src (?ms ! j) = NoLocation \<longrightarrow> dest (?ms ! j) = NoLocation"
    using g no i(1) by (auto simp: graph_inv_def nth_list_update split: if_splits)
  moreover have "dest (?ms ! j) = D j \<and> src (?ms ! j) \<noteq> D j" if "alive ?ms j" "j \<notin> set P" for j
  proof -
    have j: "alive ms j" "j \<noteq> index" "j < length ms" using that(1) al by (auto simp: alive_def)
    then have "dest (ms ! j) = D j" "src (ms ! j) \<noteq> D j" "src (ms ! j) \<noteq> d" "D j \<noteq> d"
      using g that(2) free [of j] graph_D [OF g, of j index] i(1) d by (auto simp: graph_inv_def)
    then show ?thesis using nth [OF j(3,2)] by auto
  qed
  ultimately show ?thesis using g by (simp add: graph_inv_def)
qed

section \<open>What the resolver needs of a target\<close>

text \<open>
  A context \<open>c\<close> fixes how values are read.  \<open>cls\<close> sorts the locations that moves may connect; within a class
  any location can be moved to or swapped with any other.  Lowered code may leave anything in a scratch location.
\<close>

locale move_target =
  fixes t :: "'i Target"
    and run :: "'i list \<Rightarrow> 'm \<Rightarrow> 'm option"
    and ready :: "'m \<Rightarrow> bool"
    and val :: "'c \<Rightarrow> 'm \<Rightarrow> Location \<Rightarrow> 'v"
    and const_val :: "'c \<Rightarrow> Location \<Rightarrow> Location \<Rightarrow> 'v"
    and cls :: "'c \<Rightarrow> Location \<Rightarrow> nat option"
    and const_ok :: "'c \<Rightarrow> Location \<Rightarrow> Location \<Rightarrow> bool"
  assumes run_Nil: "run [] m = Some m"
    and run_append: "run (is @ js) m = Option.bind (run is m) (run js)"
    and cls_storage: "cls c l \<noteq> None \<Longrightarrow> l \<noteq> NoLocation \<and> \<not> IsConstant l"
    and move_law: "\<lbrakk>ready m; list_all operands_ok ms; cls c d \<noteq> None; cls c s = cls c d; s \<noteq> d\<rbrakk> \<Longrightarrow>
      \<exists>is m'. lower_move t ms d s = Some is \<and> run is m = Some m' \<and> ready m' \<and> val c m' d = val c m s \<and>
        (\<forall>l. cls c l \<noteq> None \<and> l \<noteq> d \<and> IsScratchLocation ms l \<noteq> Some True \<longrightarrow> val c m' l = val c m l)"
    and constant_law: "\<lbrakk>ready m; list_all operands_ok ms; cls c d \<noteq> None; IsConstant s; const_ok c d s\<rbrakk> \<Longrightarrow>
      \<exists>is m'. lower_move t ms d s = Some is \<and> run is m = Some m' \<and> ready m' \<and> val c m' d = const_val c d s \<and>
        (\<forall>l. cls c l \<noteq> None \<and> l \<noteq> d \<and> IsScratchLocation ms l \<noteq> Some True \<longrightarrow> val c m' l = val c m l)"
    and swap_law: "\<lbrakk>ready m; list_all operands_ok ms; cls c d \<noteq> None; cls c s = cls c d; s \<noteq> d\<rbrakk> \<Longrightarrow>
      \<exists>is m'. lower_swap t ms d s = Some is \<and> run is m = Some m' \<and> ready m' \<and>
        val c m' d = val c m s \<and> val c m' s = val c m d \<and>
        (\<forall>l. cls c l \<noteq> None \<and> l \<noteq> d \<and> l \<noteq> s \<and> IsScratchLocation ms l \<noteq> Some True \<longrightarrow> val c m' l = val c m l)"
begin

text \<open>
  Move \<open>i\<close> has to deliver the value \<open>V i\<close>.  As long as it is alive its source holds that value, afterwards its
  destination does; what is no destination at all keeps the contents it has in \<open>m0\<close>.
\<close>

definition data_inv where
  "data_inv c D V m0 ms m \<longleftrightarrow>
     (\<forall>i<length ms. cls c (D i) \<noteq> None \<and> slot_in_frame t (D i) \<and>
        (if alive ms i
         then if IsConstant (src (ms ! i)) then const_ok c (D i) (src (ms ! i)) \<and> const_val c (D i) (src (ms ! i)) = V i
              else cls c (src (ms ! i)) = cls c (D i) \<and> val c m (src (ms ! i)) = V i
         else val c m (D i) = V i)) \<and>
     (\<forall>l. cls c l \<noteq> None \<and> l \<notin> D ` {..<length ms} \<longrightarrow> val c m l = val c m0 l)"

lemma scratch_alive:
  assumes g: "graph_inv D (index # P) ms"
    and sc: "IsScratchLocation (ms[index := (ms ! index)\<lparr>dest := D index\<rparr>]) l = Some True" and l: "l \<noteq> NoLocation"
  shows "\<exists>j. alive ms j \<and> l = D j" "\<And>i. alive ms i \<Longrightarrow> src (ms ! i) \<noteq> l"
proof -
  let ?ms = "ms[index := (ms ! index)\<lparr>dest := D index\<rparr>]"
  have i: "index < length ms" "alive ms index" using g by (auto simp: graph_inv_def alive_def)
  have ok: "list_all operands_ok ?ms"
    using sc by (auto simp: IsScratchLocation_def split: if_splits)
  then have s: "\<forall>m\<in>set ?ms. src m \<noteq> l" "\<exists>m\<in>set ?ms. dest m = l"
    using sc l by (auto simp: IsScratchLocation_def list_ex_iff list_all_iff)
  have src: "src (?ms ! j) = src (ms ! j)" if "j < length ms" for j using that i by (cases "j = index") auto
  show "src (ms ! j) \<noteq> l" if "alive ms j" for j
    using s(1) that src [of j] by (auto simp: alive_def all_set_conv_all_nth)
  from s(2) obtain j where j: "j < length ms" "dest (?ms ! j) = l" by (auto simp: in_set_conv_nth)
  show "\<exists>j. alive ms j \<and> l = D j"
  proof (cases "j = index")
    case True
    then show ?thesis using j i by auto
  next
    case False
    then have "dest (ms ! j) = l" using j by simp
    then have "alive ms j" "j \<notin> set P" using g j(1) l by (auto simp: graph_inv_def alive_def)
    then show ?thesis using g False \<open>dest (ms ! j) = l\<close> by (auto simp: graph_inv_def)
  qed
qed

lemma frame_kept:
  assumes g: "graph_inv D (index # P) ms" and d: "data_inv c D V m0 ms m"
    and frame: "\<forall>l. cls c l \<noteq> None \<and> l \<notin> X \<and>
      IsScratchLocation (ms[index := (ms ! index)\<lparr>dest := D index\<rparr>]) l \<noteq> Some True \<longrightarrow> val c m' l = val c m l"
  shows "\<And>i. alive ms i \<Longrightarrow> \<not> IsConstant (src (ms ! i)) \<Longrightarrow> src (ms ! i) \<notin> X \<Longrightarrow> val c m' (src (ms ! i)) = V i"
    and "\<And>i. i < length ms \<Longrightarrow> \<not> alive ms i \<Longrightarrow> D i \<notin> X \<Longrightarrow> val c m' (D i) = V i"
    and "\<And>l. cls c l \<noteq> None \<Longrightarrow> l \<notin> D ` {..<length ms} \<Longrightarrow> l \<notin> X \<Longrightarrow> val c m' l = val c m0 l"
proof -
  note sc = scratch_alive [OF g]
  have fr: "cls c l \<noteq> None \<Longrightarrow> l \<notin> X \<Longrightarrow> val c m' l = val c m l \<or>
      IsScratchLocation (ms[index := (ms ! index)\<lparr>dest := D index\<rparr>]) l = Some True" for l
    using frame by blast
  show "val c m' (src (ms ! i)) = V i" if a: "alive ms i" "\<not> IsConstant (src (ms ! i))" "src (ms ! i) \<notin> X" for i
  proof -
    have "cls c (src (ms ! i)) \<noteq> None" "val c m (src (ms ! i)) = V i" "src (ms ! i) \<noteq> NoLocation"
      using d a by (auto simp: data_inv_def alive_def)
    then show ?thesis using fr [of "src (ms ! i)"] a sc(2) by metis
  qed
  show "val c m' (D i) = V i" if a: "i < length ms" "\<not> alive ms i" "D i \<notin> X" for i
  proof -
    have "cls c (D i) \<noteq> None" "val c m (D i) = V i" "D i \<noteq> NoLocation"
      using d g a by (auto simp: data_inv_def graph_inv_def)
    moreover have "\<not> (\<exists>j. alive ms j \<and> D i = D j)" using a graph_D [OF g] by (auto simp: alive_def)
    ultimately show ?thesis using fr [of "D i"] a sc(1) by metis
  qed
  show "val c m' l = val c m0 l" if a: "cls c l \<noteq> None" "l \<notin> D ` {..<length ms}" "l \<notin> X" for l
  proof -
    have "l \<noteq> NoLocation" using cls_storage [OF a(1)] by simp
    moreover have "\<not> (\<exists>j. alive ms j \<and> l = D j)" using a(2) by (auto simp: alive_def)
    ultimately show ?thesis using fr [OF a(1,3)] sc(1) d a(1,2) by (metis data_inv_def)
  qed
qed
end

context move_target
begin

text \<open>Emitting the move on top of the stack when no other move reads its destination.\<close>

lemma EmitMove_step:
  assumes g: "graph_inv D (index # P) ms" and d: "data_inv c D V m0 ms m" and r: "ready m"
    and ne: "src (ms ! index) \<noteq> D index" and free: "\<And>j. alive ms j \<Longrightarrow> src (ms ! j) \<noteq> D index"
  obtains "is" m' where
    "EmitMove t index \<lparr>moves = ms[index := (ms ! index)\<lparr>dest := D index\<rparr>], code = cs\<rparr> =
       Some \<lparr>moves = ms[index := Eliminate (ms ! index)], code = cs @ is\<rparr>"
    "run is m = Some m'" "ready m'" "data_inv c D V m0 (ms[index := Eliminate (ms ! index)]) m'"
proof -
  let ?ms = "ms[index := (ms ! index)\<lparr>dest := D index\<rparr>]" and ?s = "src (ms ! index)"
  have i: "index < length ms" "alive ms index" using g by (auto simp: graph_inv_def alive_def)
  have nc: "\<not> IsConstant ?s" using g by (simp add: graph_inv_def)
  have cl: "cls c (D index) \<noteq> None" "cls c ?s = cls c (D index)" "slot_in_frame t (D index)" "val c m ?s = V index"
    using d i nc by (auto simp: data_inv_def)
  have ok: "list_all operands_ok ?ms"
    using graph_all_ok [OF g] i by (auto simp: list_all_length nth_list_update operands_ok_def alive_def)
  obtain "is" m' where l: "lower_move t ?ms (D index) ?s = Some is" "run is m = Some m'" "ready m'"
    "val c m' (D index) = val c m ?s"
    "\<forall>l. cls c l \<noteq> None \<and> l \<notin> {D index} \<and> IsScratchLocation ?ms l \<noteq> Some True \<longrightarrow> val c m' l = val c m l"
    using move_law [OF r ok cl(1,2) ne] by auto
  note kept = frame_kept [OF g d l(5)]
  have "data_inv c D V m0 (ms[index := Eliminate (ms ! index)]) m'"
    unfolding data_inv_def
  proof (intro conjI allI impI)
    fix j assume "j < length (ms[index := Eliminate (ms ! index)])"
    then have j: "j < length ms" by simp
    show "cls c (D j) \<noteq> None" "slot_in_frame t (D j)" using d j by (auto simp: data_inv_def)
    let ?ms' = "ms[index := Eliminate (ms ! index)]"
    show "if alive ?ms' j then
        if IsConstant (src (?ms' ! j)) then const_ok c (D j) (src (?ms' ! j)) \<and> const_val c (D j) (src (?ms' ! j)) = V j
        else cls c (src (?ms' ! j)) = cls c (D j) \<and> val c m' (src (?ms' ! j)) = V j
      else val c m' (D j) = V j"
    proof (cases "j = index")
      case True
      then show ?thesis using i l(4) cl(4) by simp
    next
      case False
      then have n: "D j \<notin> {D index}" using graph_D [OF g j i(1)] by simp
      show ?thesis
        using False i(1) d j kept(1) [of j] kept(2) [OF j _ n] free [of j] by (auto simp: data_inv_def)
    qed
  next
    fix l assume "cls c l \<noteq> None \<and> l \<notin> D ` {..<length (ms[index := Eliminate (ms ! index)])}"
    then show "val c m' l = val c m0 l" using kept(3) [of l] i(1) by auto
  qed
  moreover have "EmitMove t index \<lparr>moves = ?ms, code = cs\<rparr> =
      Some \<lparr>moves = ms[index := Eliminate (ms ! index)], code = cs @ is\<rparr>"
    using i l(1) cl(3) by (simp add: EmitMove_def read_at_def Eliminate_def)
  ultimately show ?thesis using that l(2,3) by blast
qed

text \<open>Swapping when the source of the move is the destination of the next pending one.\<close>

lemma EmitSwap_step:
  assumes g: "graph_inv D (index # P) ms" and d: "data_inv c D V m0 ms m" and r: "ready m"
    and ne: "src (ms ! index) \<noteq> D index" and P: "P \<noteq> []"
  obtains "is" m' where
    "EmitSwap t index \<lparr>moves = ms[index := (ms ! index)\<lparr>dest := D index\<rparr>], code = cs\<rparr> =
       Some \<lparr>moves = map (redirected (src (ms ! index)) (D index)) (ms[index := Eliminate (ms ! index)]), code = cs @ is\<rparr>"
    "run is m = Some m'" "ready m'"
    "data_inv c D V m0 (map (redirected (src (ms ! index)) (D index)) (ms[index := Eliminate (ms ! index)])) m'"
proof -
  let ?ms = "ms[index := (ms ! index)\<lparr>dest := D index\<rparr>]" and ?s = "src (ms ! index)" and ?d = "D index"
  let ?ms' = "map (redirected ?s ?d) (ms[index := Eliminate (ms ! index)])"
  have i: "index < length ms" "alive ms index" "index \<notin> set P" using g by (auto simp: graph_inv_def alive_def)
  have hd: "?s = D (hd P)" "hd P \<in> set P" using g P by (auto simp: graph_inv_def chain_Cons)
  have hd': "alive ms (hd P)" "hd P \<noteq> index" "hd P < length ms" using g hd(2) i by (auto simp: graph_inv_def alive_def)
  have nc: "\<not> IsConstant ?s" "?s \<noteq> NoLocation" "?d \<noteq> NoLocation" "\<not> IsConstant ?d"
    using g i by (auto simp: graph_inv_def alive_def)
  have cl: "cls c ?d \<noteq> None" "cls c ?s = cls c ?d" "val c m ?s = V index" using d i nc by (auto simp: data_inv_def)
  have ok: "list_all operands_ok ?ms" "list_all operands_ok (ms[index := Eliminate (ms ! index)])"
    using graph_all_ok [OF g] i by (auto simp: list_all_length nth_list_update operands_ok_def alive_def)
  obtain "is" m' where l: "lower_swap t ?ms ?d ?s = Some is" "run is m = Some m'" "ready m'"
    "val c m' ?d = val c m ?s" "val c m' ?s = val c m ?d"
    "\<forall>l. cls c l \<noteq> None \<and> l \<notin> {?d, ?s} \<and> IsScratchLocation ?ms l \<noteq> Some True \<longrightarrow> val c m' l = val c m l"
    using swap_law [OF r ok(1) cl(1,2) ne] by auto
  note kept = frame_kept [OF g d l(6)]
  have al: "alive ?ms' j \<longleftrightarrow> alive ms j \<and> j \<noteq> index" for j
    using nc i(1) by (auto simp: alive_def nth_list_update split: if_splits)
  have "data_inv c D V m0 ?ms' m'"
    unfolding data_inv_def
  proof (intro conjI allI impI)
    fix j assume "j < length ?ms'"
    then have j: "j < length ms" by simp
    show "cls c (D j) \<noteq> None" "slot_in_frame t (D j)" using d j by (auto simp: data_inv_def)
    show "if alive ?ms' j then
        if IsConstant (src (?ms' ! j)) then const_ok c (D j) (src (?ms' ! j)) \<and> const_val c (D j) (src (?ms' ! j)) = V j
        else cls c (src (?ms' ! j)) = cls c (D j) \<and> val c m' (src (?ms' ! j)) = V j
      else val c m' (D j) = V j"
    proof (cases "j = index")
      case True
      then show ?thesis using l(4) cl(3) by (simp add: al)
    next
      case False
      have nth: "?ms' ! j = redirected ?s ?d (ms ! j)" using j False by simp
      show ?thesis
      proof (cases "alive ms j")
        case True
        have *: "if IsConstant (src (ms ! j)) then const_ok c (D j) (src (ms ! j)) \<and> const_val c (D j) (src (ms ! j)) = V j
            else cls c (src (ms ! j)) = cls c (D j) \<and> val c m (src (ms ! j)) = V j"
          using d j True by (simp add: data_inv_def)
        consider "IsConstant (src (ms ! j))" | "src (ms ! j) = ?s" | "src (ms ! j) = ?d"
          | "\<not> IsConstant (src (ms ! j))" "src (ms ! j) \<notin> {?d, ?s}" by auto
        then show ?thesis
        proof cases
          case 1
          then have "src (ms ! j) \<noteq> ?s" "src (ms ! j) \<noteq> ?d" using nc by auto
          then show ?thesis using True False * 1 unfolding al nth by simp
        next
          case 4
          then show ?thesis using True False * kept(1) [OF True 4] unfolding al nth by simp
        qed (use True False * l(4,5) cl nc ne in \<open>auto simp: al nth\<close>)
      next
        case dead: False
        then have "D j \<notin> {?d, ?s}"
          using graph_D [OF g j i(1)] graph_D [OF g j hd'(3)] hd hd'(1) False by auto
        then show ?thesis using kept(2) [OF j dead] dead by (simp add: al)
      qed
    qed
  next
    fix l assume "cls c l \<noteq> None \<and> l \<notin> D ` {..<length ?ms'}"
    then show "val c m' l = val c m0 l" using kept(3) [of l] i(1) hd hd'(3) by auto
  qed
  moreover have "EmitSwap t index \<lparr>moves = ?ms, code = cs\<rparr> = Some \<lparr>moves = ?ms', code = cs @ is\<rparr>"
  proof -
    have "?ms[index := Eliminate (?ms ! index)] = ms[index := Eliminate (ms ! index)]"
      using i by (simp add: Eliminate_def)
    then show ?thesis
      using i l(1) redirect_eq [OF ok(2) nc(2,3)]
      by (simp add: EmitSwap_def read_at_def redirected_def [abs_def])
  qed
  ultimately show ?thesis using that l(2,3) by blast
qed
end

section \<open>The resolution delivers every value\<close>

text \<open>
  What performing moves may do to the list: moves only disappear, and no move outside the stack becomes a
  reader of the destination of a pending one.
\<close>

definition progress :: "(nat \<Rightarrow> Location) \<Rightarrow> nat list \<Rightarrow> MoveOperands list \<Rightarrow> MoveOperands list \<Rightarrow> bool" where
  "progress D P ms ms' \<longleftrightarrow> length ms' = length ms \<and>
     (\<forall>j. alive ms' j \<longrightarrow> alive ms j \<and> IsConstant (src (ms' ! j)) = IsConstant (src (ms ! j))) \<and>
     (\<forall>j p. alive ms' j \<and> j \<notin> set P \<and> p \<in> set P \<and> src (ms' ! j) = D p \<longrightarrow> src (ms ! j) = D p)"

lemma progress_refl [simp]: "progress D P ms ms"
  by (simp add: progress_def)

lemma progress_trans: "progress D P a b \<Longrightarrow> progress D P b c \<Longrightarrow> progress D P a c"
  unfolding progress_def by metis

lemma progress_pop: "progress D (index # P) a b \<Longrightarrow> progress D P b c \<Longrightarrow> \<not> alive c index \<Longrightarrow> progress D P a c"
  unfolding progress_def by (metis set_ConsD list.set_intros(2))

lemma progress_eliminate: "index < length ms \<Longrightarrow> progress D P ms (ms[index := Eliminate m])"
  by (auto simp: progress_def)

lemma progress_swap:
  assumes g: "graph_inv D (index # P) ms" and P: "P \<noteq> []"
    and free: "\<And>j. alive ms j \<Longrightarrow> j \<notin> set (index # P) \<Longrightarrow> src (ms ! j) \<noteq> D index"
  shows "progress D P ms (map (redirected (src (ms ! index)) (D index)) (ms[index := Eliminate m]))"
    (is "progress D P ms ?ms")
    and "\<not> alive (map (redirected (src (ms ! index)) (D index)) (ms[index := Eliminate m])) index"
proof -
  have i: "index < length ms" "index \<notin> set P" "src (ms ! index) \<noteq> NoLocation" "D index \<noteq> NoLocation"
    "\<not> IsConstant (src (ms ! index))" "\<not> IsConstant (D index)"
    using g by (auto simp: graph_inv_def alive_def)
  have al: "alive ?ms j \<longleftrightarrow> alive ms j \<and> j \<noteq> index" for j
    using i by (auto simp: alive_def nth_list_update split: if_splits)
  then show "\<not> alive ?ms index" by simp
  have nth: "?ms ! j = redirected (src (ms ! index)) (D index) (ms ! j)" if "alive ms j" "j \<noteq> index" for j
    using that by (simp add: alive_def)
  have "src (ms ! j) = D p" if j: "alive ms j" "j \<noteq> index" "j \<notin> set P" "p \<in> set P" "src (?ms ! j) = D p" for j p
  proof -
    have "p < length ms" "p \<noteq> index" using g j(4) i(2) by (auto simp: graph_inv_def alive_def)
    then have "D p \<noteq> D index" using graph_D [OF g _ i(1)] by simp
    moreover have "src (ms ! j) \<noteq> D index" using free [OF j(1)] j(2,3) by simp
    ultimately show ?thesis using j nth by (simp split: if_splits)
  qed
  then show "progress D P ms ?ms" using i unfolding progress_def al by (auto simp: nth)
qed

definition unpending :: "nat list \<Rightarrow> MoveOperands list \<Rightarrow> nat" where
  "unpending P ms = card {i. alive ms i \<and> i \<notin> set P}"

lemma finite_alive [simp]: "finite {i. alive ms i \<and> Q i}"
  by (rule finite_subset [of _ "{..<length ms}"]) (auto simp: alive_def)

lemma unpending_progress: "progress D Q ms ms' \<Longrightarrow> unpending P ms' \<le> unpending P ms"
  unfolding unpending_def by (rule card_mono) (auto simp: progress_def)

lemma unpending_mark:
  assumes "alive ms index" "index \<notin> set P"
  shows "Suc (unpending (index # P) (ms[index := (ms ! index)\<lparr>dest := l\<rparr>])) = unpending P ms"
proof -
  have "alive (ms[index := (ms ! index)\<lparr>dest := l\<rparr>]) j \<longleftrightarrow> alive ms j" for j
    using assms(1) by (cases "j = index") (simp_all add: alive_def)
  moreover have "{i. alive ms i \<and> i \<notin> set P} = insert index {i. alive ms i \<and> i \<notin> set (index # P)}"
    using assms by auto
  ultimately show ?thesis unfolding unpending_def by (simp add: card_insert_if)
qed

context move_target
begin

text \<open>
  \<open>leads\<close>: running \<open>f\<close> on the resolver appends code that takes the machine from \<open>m\<close> to \<open>m'\<close> and keeps both invariants.
\<close>

definition inv where
  "inv c D V m0 P ms m \<longleftrightarrow> graph_inv D P ms \<and> data_inv c D V m0 ms m \<and> ready m"

definition leads where
  "leads c D V m0 P f ms cs m ms' cs' m' \<longleftrightarrow>
     (\<exists>is. cs' = cs @ is \<and> run is m = Some m') \<and> f \<lparr>moves = ms, code = cs\<rparr> = Some \<lparr>moves = ms', code = cs'\<rparr> \<and>
     inv c D V m0 P ms' m' \<and> progress D P ms ms'"

lemma run_trans:
  "\<exists>is. cs' = cs @ is \<and> run is m = Some m' \<Longrightarrow> \<exists>is. cs'' = cs' @ is \<and> run is m' = Some m'' \<Longrightarrow>
   \<exists>is. cs'' = cs @ is \<and> run is m = Some m''"
  by (auto simp: run_append)

lemma blockers_lead:
  assumes perform: "\<And>P ms cs m index. inv c D V m0 P ms m \<Longrightarrow> alive ms index \<Longrightarrow> index \<notin> set P \<Longrightarrow>
      \<not> IsConstant (src (ms ! index)) \<Longrightarrow> P = [] \<or> src (ms ! index) = D (hd P) \<Longrightarrow> unpending P ms \<le> fuel \<Longrightarrow>
      \<exists>ms' cs' m'. leads c D V m0 P (PerformMove fuel t index) ms cs m ms' cs' m' \<and> \<not> alive ms' index"
    and "inv c D V m0 (q # P) ms m" "\<forall>i\<in>set is. i < length ms" "unpending (q # P) ms \<le> fuel"
  shows "\<exists>ms' cs' m'. leads c D V m0 (q # P) (perform_blockers (PerformMove fuel t) (D q) is) ms cs m ms' cs' m' \<and>
    (\<forall>j\<in>set is. alive ms' j \<and> j \<notin> set (q # P) \<longrightarrow> src (ms' ! j) \<noteq> D q)"
  using assms(2-)
proof (induction "is" arbitrary: ms cs m)
  case Nil
  then show ?case by (auto simp: leads_def run_Nil intro!: exI [of _ "[]"])
next
  case (Cons i "is")
  have g: "graph_inv D (q # P) ms" using Cons.prems(1) by (simp add: inv_def)
  have i: "i < length ms" using Cons.prems(2) by simp
  have q: "q < length ms" "D q \<noteq> NoLocation" "\<not> IsConstant (D q)" using g by (auto simp: graph_inv_def alive_def)
  note ok = graph_operands_ok [OF g i]
  define blocking where "blocking \<longleftrightarrow> src (ms ! i) = D q \<and> dest (ms ! i) \<noteq> NoLocation"
  have unfold: "perform_blockers (PerformMove fuel t) (D q) (i # is) \<lparr>moves = ms, code = cs\<rparr> =
      Option.bind (if blocking then PerformMove fuel t i \<lparr>moves = ms, code = cs\<rparr> else Some \<lparr>moves = ms, code = cs\<rparr>)
        (perform_blockers (PerformMove fuel t) (D q) is)"
    using i q ok by (auto simp: read_at_def blocking_def)
  have "\<exists>ms1 cs1 m1. leads c D V m0 (q # P) (\<lambda>r. if blocking then PerformMove fuel t i r else Some r) ms cs m ms1 cs1 m1 \<and>
      (alive ms1 i \<and> i \<notin> set (q # P) \<longrightarrow> src (ms1 ! i) \<noteq> D q)"
  proof (cases blocking)
    case True
    then have "alive ms i" "i \<notin> set (q # P)" "\<not> IsConstant (src (ms ! i))" "src (ms ! i) = D (hd (q # P))"
      using q i g by (auto simp: blocking_def alive_def graph_inv_def)
    then show ?thesis using perform [OF Cons.prems(1), of i cs] Cons.prems(3) True by fastforce
  next
    case False
    then have "src (ms ! i) \<noteq> D q" if "alive ms i" "i \<notin> set (q # P)"
      using g i that by (auto simp: graph_inv_def blocking_def)
    then show ?thesis using False Cons.prems(1) by (auto simp: leads_def run_Nil intro!: exI [of _ "[]"])
  qed
  then obtain ms1 cs1 m1 where s1: "leads c D V m0 (q # P) (\<lambda>r. if blocking then PerformMove fuel t i r else Some r) ms cs m ms1 cs1 m1"
      "alive ms1 i \<and> i \<notin> set (q # P) \<longrightarrow> src (ms1 ! i) \<noteq> D q" by blast
  then have p1: "inv c D V m0 (q # P) ms1 m1" "progress D (q # P) ms ms1" by (auto simp: leads_def)
  then have "\<forall>i\<in>set is. i < length ms1" "unpending (q # P) ms1 \<le> fuel"
    using Cons.prems(2,3) unpending_progress [OF p1(2)] by (auto simp: progress_def intro: le_trans)
  then obtain ms2 cs2 m2 where s2: "leads c D V m0 (q # P) (perform_blockers (PerformMove fuel t) (D q) is) ms1 cs1 m1 ms2 cs2 m2"
      "\<forall>j\<in>set is. alive ms2 j \<and> j \<notin> set (q # P) \<longrightarrow> src (ms2 ! j) \<noteq> D q"
    using Cons.IH [OF p1(1)] by blast
  have "alive ms2 i \<and> i \<notin> set (q # P) \<longrightarrow> src (ms2 ! i) \<noteq> D q"
    using s1(2) s2(1) unfolding leads_def progress_def by (metis list.set_intros(1))
  moreover have "leads c D V m0 (q # P) (perform_blockers (PerformMove fuel t) (D q) (i # is)) ms cs m ms2 cs2 m2"
    using s1(1) s2(1) unfolding leads_def unfold by (auto intro: progress_trans simp: run_append run_Nil split: if_splits)
  ultimately show ?case using s2(2) by (metis set_ConsD)
qed
end

context move_target
begin

text \<open>The last part of \<open>PerformMove\<close>, once no move outside the stack reads the destination any more.\<close>

lemma finish_leads:
  assumes inv: "inv c D V m0 (index # P) ms m"
    and free: "\<And>j. alive ms j \<Longrightarrow> j \<notin> set (index # P) \<Longrightarrow> src (ms ! j) \<noteq> D index"
  shows "\<exists>ms' cs' m'. leads c D V m0 P
      (\<lambda>r. do { move \<leftarrow> read_at (moves r) index;
         move \<leftarrow> ClearPending move (D index);
         let r = r\<lparr>moves := (moves r)[index := move]\<rparr>;
         if src move = D index then Some (r\<lparr>moves := (moves r)[index := Eliminate move]\<rparr>)
         else do {
           blocked \<leftarrow> find_blocker (D index) (moves r);
           if blocked then EmitSwap t index r else EmitMove t index r } }) ms cs m ms' cs' m' \<and> \<not> alive ms' index"
    (is "\<exists>ms' cs' m'. leads c D V m0 P ?f ms cs m ms' cs' m' \<and> _")
proof -
  let ?ms = "ms[index := (ms ! index)\<lparr>dest := D index\<rparr>]"
  have g: "graph_inv D (index # P) ms" and d: "data_inv c D V m0 ms m" and r: "ready m" using inv by (auto simp: inv_def)
  have i: "index < length ms" "src (ms ! index) \<noteq> NoLocation" "dest (ms ! index) = NoLocation" "D index \<noteq> NoLocation"
    using g by (auto simp: graph_inv_def alive_def)
  have clear: "ClearPending (ms ! index) (D index) = Some ((ms ! index)\<lparr>dest := D index\<rparr>)"
    using graph_operands_ok [OF g i(1)] i by (simp add: ClearPending_def)
  show ?thesis
  proof (cases "src (ms ! index) = D index")
    case True
    have "data_inv c D V m0 (ms[index := Eliminate (ms ! index)]) m"
      unfolding data_inv_def
    proof (intro conjI allI impI)
      fix j assume "j < length (ms[index := Eliminate (ms ! index)])"
      then have j: "j < length ms" by simp
      show "cls c (D j) \<noteq> None" "slot_in_frame t (D j)" using d j by (auto simp: data_inv_def)
      let ?ms' = "ms[index := Eliminate (ms ! index)]"
      show "if alive ?ms' j then
          if IsConstant (src (?ms' ! j)) then const_ok c (D j) (src (?ms' ! j)) \<and> const_val c (D j) (src (?ms' ! j)) = V j
          else cls c (src (?ms' ! j)) = cls c (D j) \<and> val c m (src (?ms' ! j)) = V j
        else val c m (D j) = V j"
      proof (cases "j = index")
        case same: True
        have "alive ms index" "\<not> IsConstant (D index)" using g i by (auto simp: graph_inv_def)
        then show ?thesis using d i True same by (auto simp: data_inv_def)
      next
        case False
        then show ?thesis using d j i by (simp add: data_inv_def)
      qed
    qed (use d in \<open>auto simp: data_inv_def\<close>)
    moreover have "?f \<lparr>moves = ms, code = cs\<rparr> = Some \<lparr>moves = ms[index := Eliminate (ms ! index)], code = cs @ []\<rparr>"
      using True i clear by (simp add: read_at_def Eliminate_def)
    ultimately show ?thesis
      using graph_eliminate [OF g] r progress_eliminate [OF i(1)] i run_Nil [of m] unfolding leads_def inv_def
      by (metis alive_update)
  next
    case False
    have ok: "list_all operands_ok ?ms"
      using graph_all_ok [OF g] i by (auto simp: list_all_length nth_list_update operands_ok_def)
    define blocked where "blocked \<longleftrightarrow> (\<exists>j<length ms. src (ms ! j) = D index)"
    have src: "src (?ms ! j) = src (ms ! j)" if "j < length ms" for j using that by (cases "j = index") auto
    have pend: "j \<in> set P" if "j < length ms" "src (ms ! j) = D index" for j
      using that False free [of j] i by (auto simp: alive_def)
    have "find_blocker (D index) ?ms = Some (\<exists>j<length ?ms. src (?ms ! j) = D index)"
    proof (rule find_blocker_eq [OF ok i(4)])
      fix j assume j: "j < length ?ms" "src (?ms ! j) = D index"
      then have "j \<in> set P" "j \<noteq> index" using pend [of j] src [of j] False by auto
      then show "dest (?ms ! j) = NoLocation" using g by (auto simp: graph_inv_def)
    qed
    moreover have "(\<exists>j<length ?ms. src (?ms ! j) = D index) \<longleftrightarrow> blocked"
      unfolding blocked_def using src by (metis length_list_update)
    ultimately have f: "?f \<lparr>moves = ms, code = cs\<rparr> =
        (if blocked then EmitSwap t index \<lparr>moves = ?ms, code = cs\<rparr> else EmitMove t index \<lparr>moves = ?ms, code = cs\<rparr>)"
      using False i clear by (simp add: read_at_def Let_def)
    show ?thesis
    proof (cases blocked)
      case True
      then have P: "P \<noteq> []" using pend by (auto simp: blocked_def)
      show ?thesis
        using EmitSwap_step [OF g d r False P, of cs] progress_swap [OF g P free] graph_swap [OF g P refl refl free] True
        unfolding leads_def inv_def f by (metis (no_types))
    next
      case nb: False
      then have "\<And>j. alive ms j \<Longrightarrow> src (ms ! j) \<noteq> D index" by (auto simp: blocked_def alive_def)
      then show ?thesis
        using EmitMove_step [OF g d r False, of cs] progress_eliminate [OF i(1)] graph_eliminate [OF g] nb i(1)
        unfolding leads_def inv_def f by (metis (no_types) alive_update)
    qed
  qed
qed

lemma PerformMove_leads:
  assumes "inv c D V m0 P ms m" "alive ms index" "index \<notin> set P" "\<not> IsConstant (src (ms ! index))"
    "P = [] \<or> src (ms ! index) = D (hd P)" "unpending P ms \<le> fuel"
  shows "\<exists>ms' cs' m'. leads c D V m0 P (PerformMove fuel t index) ms cs m ms' cs' m' \<and> \<not> alive ms' index"
  using assms
proof (induction fuel arbitrary: P ms cs m index)
  case 0
  then show ?case using unpending_mark [of ms index P NoLocation] by simp
next
  case (Suc fuel)
  let ?ms = "ms[index := (ms ! index)\<lparr>dest := NoLocation\<rparr>]"
  note a = Suc.prems(2-5)
  have g: "graph_inv D P ms" and d: "data_inv c D V m0 ms m" "ready m" using Suc.prems(1) by (auto simp: inv_def)
  have i: "index < length ms" "src (ms ! index) \<noteq> NoLocation" "dest (ms ! index) = D index" "D index \<noteq> NoLocation"
    "src (ms ! index) \<noteq> D index"
    using g a by (auto simp: graph_inv_def alive_def)
  have al: "alive ?ms j \<longleftrightarrow> alive ms j" "src (?ms ! j) = src (ms ! j)" for j
    using i(1) by (cases "j = index"; simp add: alive_def)+
  have "data_inv c D V m0 ?ms m" using d(1) unfolding data_inv_def al by simp
  then have inv1: "inv c D V m0 (index # P) ?ms m" using graph_mark [OF g a] d(2) by (simp add: inv_def)
  have "unpending (index # P) ?ms \<le> fuel" using unpending_mark [OF a(1,2), of NoLocation] Suc.prems(6) by simp
  from blockers_lead [OF Suc.IH inv1 _ this, of "[0..<length ms]" cs]
  obtain ms1 cs1 m1 where s1:
      "leads c D V m0 (index # P) (perform_blockers (PerformMove fuel t) (D index) [0..<length ms]) ?ms cs m ms1 cs1 m1"
      "\<forall>j\<in>set [0..<length ms]. alive ms1 j \<and> j \<notin> set (index # P) \<longrightarrow> src (ms1 ! j) \<noteq> D index"
    by auto
  have p1: "inv c D V m0 (index # P) ms1 m1" "progress D (index # P) ?ms ms1" using s1(1) by (auto simp: leads_def)
  then have free: "src (ms1 ! j) \<noteq> D index" if "alive ms1 j" "j \<notin> set (index # P)" for j
    using s1(2) that by (auto simp: progress_def alive_def)
  from finish_leads [OF p1(1) free, of cs1]
  obtain ms2 cs2 m2 where s2: "leads c D V m0 P
      (\<lambda>r. do { move \<leftarrow> read_at (moves r) index;
         move \<leftarrow> ClearPending move (D index);
         let r = r\<lparr>moves := (moves r)[index := move]\<rparr>;
         if src move = D index then Some (r\<lparr>moves := (moves r)[index := Eliminate move]\<rparr>)
         else do {
           blocked \<leftarrow> find_blocker (D index) (moves r);
           if blocked then EmitSwap t index r else EmitMove t index r } }) ms1 cs1 m1 ms2 cs2 m2" "\<not> alive ms2 index"
    by blast
  have "progress D P ms ms2"
  proof (rule progress_pop [where b = ms1 and index = index])
    show "progress D (index # P) ms ms1" using p1(2) unfolding progress_def al by simp
  qed (use s2 in \<open>simp_all add: leads_def\<close>)
  moreover have "PerformMove (Suc fuel) t index \<lparr>moves = ms, code = cs\<rparr> = Some \<lparr>moves = ms2, code = cs2\<rparr>"
    using s1(1) s2(1) i graph_operands_ok [OF g i(1)]
    by (simp add: leads_def read_at_def MarkPending_def)
  moreover have "\<exists>is. cs2 = cs @ is \<and> run is m = Some m2"
    using run_trans s1(1) s2(1) unfolding leads_def by blast
  ultimately show ?case using s2 unfolding leads_def by blast
qed
end

context move_target
begin

lemma perform_all_leads:
  assumes "inv c D V m0 [] ms m" "\<forall>i\<in>set is. i < length ms" "length ms < fuel"
  shows "\<exists>ms' cs' m'. leads c D V m0 [] (perform_all fuel t is) ms cs m ms' cs' m' \<and>
    (\<forall>j\<in>set is. alive ms' j \<longrightarrow> IsConstant (src (ms' ! j)))"
  using assms
proof (induction "is" arbitrary: ms cs m)
  case Nil
  then show ?case by (auto simp: leads_def run_Nil intro!: exI [of _ "[]"])
next
  case (Cons i "is")
  have g: "graph_inv D [] ms" using Cons.prems(1) by (simp add: inv_def)
  have i: "i < length ms" using Cons.prems(2) by simp
  define todo where "todo \<longleftrightarrow> alive ms i \<and> \<not> IsConstant (src (ms ! i))"
  have unfold: "perform_all fuel t (i # is) \<lparr>moves = ms, code = cs\<rparr> =
      Option.bind (if todo then PerformMove fuel t i \<lparr>moves = ms, code = cs\<rparr> else Some \<lparr>moves = ms, code = cs\<rparr>)
        (perform_all fuel t is)"
    using i graph_operands_ok [OF g i] by (auto simp: read_at_def todo_def alive_def)
  have "unpending [] ms \<le> card {..<length ms}" unfolding unpending_def by (rule card_mono) (auto simp: alive_def)
  then have fuel: "unpending [] ms \<le> fuel" using Cons.prems(3) by simp
  have "\<exists>ms1 cs1 m1. leads c D V m0 [] (\<lambda>r. if todo then PerformMove fuel t i r else Some r) ms cs m ms1 cs1 m1 \<and>
      (alive ms1 i \<longrightarrow> IsConstant (src (ms1 ! i)))"
  proof (cases todo)
    case True
    then show ?thesis using PerformMove_leads [OF Cons.prems(1) _ _ _ _ fuel, of i cs] by (fastforce simp: todo_def)
  next
    case False
    then show ?thesis using Cons.prems(1) by (auto simp: leads_def run_Nil todo_def intro!: exI [of _ "[]"])
  qed
  then obtain ms1 cs1 m1 where s1: "leads c D V m0 [] (\<lambda>r. if todo then PerformMove fuel t i r else Some r) ms cs m ms1 cs1 m1"
      "alive ms1 i \<longrightarrow> IsConstant (src (ms1 ! i))" by blast
  then have p1: "inv c D V m0 [] ms1 m1" "length ms1 = length ms" by (auto simp: leads_def progress_def)
  then obtain ms2 cs2 m2 where s2: "leads c D V m0 [] (perform_all fuel t is) ms1 cs1 m1 ms2 cs2 m2"
      "\<forall>j\<in>set is. alive ms2 j \<longrightarrow> IsConstant (src (ms2 ! j))"
    using Cons.IH [OF p1(1), of cs1] Cons.prems(2,3) by auto
  have "alive ms2 i \<longrightarrow> IsConstant (src (ms2 ! i))"
    using s1(2) s2(1) unfolding leads_def progress_def by blast
  moreover have "leads c D V m0 [] (perform_all fuel t (i # is)) ms cs m ms2 cs2 m2"
    using s1(1) s2(1) unfolding leads_def unfold by (auto intro: progress_trans simp: run_append run_Nil split: if_splits)
  ultimately show ?case using s2(2) by (metis set_ConsD)
qed

lemma EmitMove_constant_step:
  assumes inv: "inv c D V m0 [] ms m" and a: "alive ms index" "IsConstant (src (ms ! index))"
    and con: "\<And>j. alive ms j \<Longrightarrow> IsConstant (src (ms ! j))"
  shows "\<exists>ms' cs' m'. leads c D V m0 [] (EmitMove t index) ms cs m ms' cs' m' \<and> \<not> alive ms' index"
proof -
  have g: "graph_inv D [] ms" and d: "data_inv c D V m0 ms m" and r: "ready m" using inv by (auto simp: inv_def)
  let ?s = "src (ms ! index)" and ?ms = "ms[index := Eliminate (ms ! index)]"
  have i: "index < length ms" "dest (ms ! index) = D index" using g a by (auto simp: graph_inv_def alive_def)
  have cl: "cls c (D index) \<noteq> None" "slot_in_frame t (D index)" "const_ok c (D index) ?s" "const_val c (D index) ?s = V index"
    using d i a by (auto simp: data_inv_def)
  obtain "is" m' where l: "lower_move t ms (D index) ?s = Some is" "run is m = Some m'" "ready m'"
    "val c m' (D index) = V index"
    and fr: "\<forall>l. cls c l \<noteq> None \<and> l \<noteq> D index \<and> IsScratchLocation ms l \<noteq> Some True \<longrightarrow> val c m' l = val c m l"
    using constant_law [OF r graph_all_ok [OF g] cl(1) a(2) cl(3)] cl(4) by auto
  have sc: "\<exists>j. alive ms j \<and> l = D j" if "IsScratchLocation ms l = Some True" "l \<noteq> NoLocation" for l
  proof -
    from that obtain j where "j < length ms" "dest (ms ! j) = l"
      by (auto simp: IsScratchLocation_def list_ex_iff in_set_conv_nth split: if_splits)
    then show ?thesis using g that(2) by (auto simp: graph_inv_def alive_def)
  qed
  have kept: "val c m' l = val c m l" if "cls c l \<noteq> None" "l \<noteq> D index" "\<nexists>j. alive ms j \<and> l = D j" for l
    using fr that sc [of l] cls_storage [OF that(1)] by blast
  have "data_inv c D V m0 ?ms m'"
    unfolding data_inv_def
  proof (intro conjI allI impI)
    fix j assume "j < length ?ms"
    then have j: "j < length ms" by simp
    show "cls c (D j) \<noteq> None" "slot_in_frame t (D j)" using d j by (auto simp: data_inv_def)
    have "val c m' (D j) = V j" if "\<not> alive ms j" "j \<noteq> index"
    proof -
      have "D j \<noteq> D index" "\<nexists>i. alive ms i \<and> D j = D i" using that j i graph_D [OF g j] by (auto simp: alive_def)
      moreover have "cls c (D j) \<noteq> None" "val c m (D j) = V j" using d j that by (simp_all add: data_inv_def)
      ultimately show ?thesis using kept by simp
    qed
    then show "if alive ?ms j then
        if IsConstant (src (?ms ! j)) then const_ok c (D j) (src (?ms ! j)) \<and> const_val c (D j) (src (?ms ! j)) = V j
        else cls c (src (?ms ! j)) = cls c (D j) \<and> val c m' (src (?ms ! j)) = V j
      else val c m' (D j) = V j"
      using d j i l(4) con [of j] by (cases "j = index") (auto simp: data_inv_def)
  next
    fix l assume l: "cls c l \<noteq> None \<and> l \<notin> D ` {..<length ?ms}"
    then have "val c m' l = val c m l" using kept [of l] i by (auto simp: alive_def)
    then show "val c m' l = val c m0 l" using d l by (simp add: data_inv_def)
  qed
  moreover have "graph_inv D [] ?ms"
    using g i by (auto simp: graph_inv_def nth_list_update)
  moreover have "EmitMove t index \<lparr>moves = ms, code = cs\<rparr> = Some \<lparr>moves = ?ms, code = cs @ is\<rparr>"
    using i l(1) cl(2) by (simp add: EmitMove_def read_at_def)
  ultimately show ?thesis
    using l(2,3) progress_eliminate [OF i(1)] i(1) unfolding leads_def inv_def by (metis alive_update)
qed

lemma emit_constants_leads:
  assumes "inv c D V m0 [] ms m" "\<forall>i\<in>set is. i < length ms" "\<And>j. alive ms j \<Longrightarrow> IsConstant (src (ms ! j))"
  shows "\<exists>ms' cs' m'. leads c D V m0 [] (emit_constants t is) ms cs m ms' cs' m' \<and> (\<forall>j\<in>set is. \<not> alive ms' j)"
  using assms
proof (induction "is" arbitrary: ms cs m)
  case Nil
  then show ?case by (auto simp: leads_def run_Nil intro!: exI [of _ "[]"])
next
  case (Cons i "is")
  have g: "graph_inv D [] ms" using Cons.prems(1) by (simp add: inv_def)
  have i: "i < length ms" using Cons.prems(2) by simp
  have unfold: "emit_constants t (i # is) \<lparr>moves = ms, code = cs\<rparr> =
      Option.bind (if alive ms i then EmitMove t i \<lparr>moves = ms, code = cs\<rparr> else Some \<lparr>moves = ms, code = cs\<rparr>)
        (emit_constants t is)"
    using i graph_operands_ok [OF g i] Cons.prems(3) [of i] by (auto simp: read_at_def alive_def)
  have "\<exists>ms1 cs1 m1. leads c D V m0 [] (\<lambda>r. if alive ms i then EmitMove t i r else Some r) ms cs m ms1 cs1 m1 \<and> \<not> alive ms1 i"
    using EmitMove_constant_step [OF Cons.prems(1) _ _ Cons.prems(3), of i cs] Cons.prems(1,3)
    by (cases "alive ms i") (auto simp: leads_def run_Nil intro!: exI [of _ "[]"])
  then obtain ms1 cs1 m1 where s1: "leads c D V m0 [] (\<lambda>r. if alive ms i then EmitMove t i r else Some r) ms cs m ms1 cs1 m1"
      "\<not> alive ms1 i" by blast
  then have p1: "inv c D V m0 [] ms1 m1" "length ms1 = length ms" "\<And>j. alive ms1 j \<Longrightarrow> IsConstant (src (ms1 ! j))"
    using Cons.prems(3) by (auto simp: leads_def progress_def)
  then obtain ms2 cs2 m2 where s2: "leads c D V m0 [] (emit_constants t is) ms1 cs1 m1 ms2 cs2 m2" "\<forall>j\<in>set is. \<not> alive ms2 j"
    using Cons.IH [OF p1(1), of cs1] Cons.prems(2) by auto
  have "\<not> alive ms2 i" using s1(2) s2(1) unfolding leads_def progress_def by blast
  moreover have "leads c D V m0 [] (emit_constants t (i # is)) ms cs m ms2 cs2 m2"
    using s1(1) s2(1) unfolding leads_def unfold by (auto intro: progress_trans simp: run_append run_Nil split: if_splits)
  ultimately show ?case using s2(2) by (metis set_ConsD)
qed

text \<open>
  A parallel move is well-formed when no two moves share a destination and each source can be moved to its
  destination.  Moves from a location to itself are allowed and dropped.
\<close>

definition parallel_ok where
  "parallel_ok c ms \<longleftrightarrow> distinct (map dest ms) \<and>
     (\<forall>m\<in>set ms. cls c (dest m) \<noteq> None \<and> slot_in_frame t (dest m) \<and>
        (if IsConstant (src m) then const_ok c (dest m) (src m) else cls c (src m) = cls c (dest m)))"

definition source_val where
  "source_val c m0 m = (if IsConstant (src m) then const_val c (dest m) (src m) else val c m0 (src m))"

theorem EmitNativeCode_delivers:
  assumes ok: "parallel_ok c ms" and r: "ready m0"
  shows "\<exists>is m'. EmitNativeCode t ms = Some is \<and> run is m0 = Some m' \<and> ready m' \<and>
    (\<forall>m\<in>set ms. val c m' (dest m) = source_val c m0 m) \<and>
    (\<forall>l. cls c l \<noteq> None \<and> l \<notin> dest ` set ms \<longrightarrow> val c m' l = val c m0 l)"
proof -
  define fs where "fs = filter (\<lambda>m. src m \<noteq> dest m) ms"
  have m: "dest m \<noteq> NoLocation" "\<not> IsConstant (dest m)" "src m \<noteq> NoLocation" "operands_ok m" "cls c (dest m) \<noteq> None"
      "slot_in_frame t (dest m)" "if IsConstant (src m) then const_ok c (dest m) (src m) else cls c (src m) = cls c (dest m)"
    if "m \<in> set ms" for m
    using ok that cls_storage [of c "dest m"] cls_storage [of c "src m"]
    by (auto simp: parallel_ok_def operands_ok_def split: if_splits)
  have fs: "BuildInitialMoveList ms = Some fs"
    using m unfolding BuildInitialMoveList_def fs_def by (auto simp: list_all_iff intro!: filter_cong)
  define D where "D = (\<lambda>i. dest (fs ! i))"
  define V where "V = (\<lambda>i. source_val c m0 (fs ! i))"
  have nth: "fs ! i \<in> set ms" "src (fs ! i) \<noteq> dest (fs ! i)" if "i < length fs" for i
    using nth_mem [OF that] by (auto simp: fs_def)
  have "distinct (map dest fs)" using ok by (simp add: parallel_ok_def fs_def distinct_map_filter)
  then have "inj_on D {..<length fs}" by (auto simp: D_def inj_on_def distinct_conv_nth)
  then have inv0: "inv c D V m0 [] fs m0"
    using r m nth by (auto simp: inv_def graph_inv_def data_inv_def alive_def D_def V_def source_val_def)
  from perform_all_leads [OF inv0, of "[0..<length fs]" "Suc (length fs)" "[]"]
  obtain ms1 cs1 m1 where s1: "leads c D V m0 [] (perform_all (Suc (length fs)) t [0..<length fs]) fs [] m0 ms1 cs1 m1"
      "\<forall>j\<in>set [0..<length fs]. alive ms1 j \<longrightarrow> IsConstant (src (ms1 ! j))" by auto
  then have p1: "inv c D V m0 [] ms1 m1" "length ms1 = length fs" "\<And>j. alive ms1 j \<Longrightarrow> IsConstant (src (ms1 ! j))"
    by (auto simp: leads_def progress_def alive_def)
  from emit_constants_leads [OF p1(1), of "[0..<length fs]" cs1] p1(2,3)
  obtain ms2 cs2 m2 where s2: "leads c D V m0 [] (emit_constants t [0..<length fs]) ms1 cs1 m1 ms2 cs2 m2"
      "\<forall>j\<in>set [0..<length fs]. \<not> alive ms2 j" by auto
  have len: "length ms2 = length fs" and d: "data_inv c D V m0 ms2 m2" and r2: "ready m2"
    using s2 p1(2) by (auto simp: leads_def progress_def inv_def)
  have em: "EmitNativeCode t ms = Some cs2" "run cs2 m0 = Some m2"
    using s1(1) s2(1) fs by (auto simp: EmitNativeCode_def leads_def run_append)
  have reached: "val c m2 (dest m) = source_val c m0 m" if f: "m \<in> set fs" for m
  proof -
    obtain j where "j < length fs" "fs ! j = m" using f by (auto simp: in_set_conv_nth)
    then show ?thesis using d len s2(2) by (auto simp: data_inv_def D_def V_def)
  qed
  have img: "D ` {..<length ms2} = dest ` set fs" using len by (auto simp: D_def set_conv_nth)
  have rest: "val c m2 l = val c m0 l" if "cls c l \<noteq> None" "l \<notin> dest ` set fs" for l
    using d that img by (auto simp: data_inv_def)
  have "val c m2 (dest m) = source_val c m0 m" if mm: "m \<in> set ms" for m
  proof (cases "m \<in> set fs")
    case False
    then have same: "src m = dest m" using mm by (simp add: fs_def)
    have "dest m \<notin> dest ` set fs" using ok mm False by (auto simp: parallel_ok_def fs_def distinct_map inj_on_def)
    then show ?thesis using rest m [OF mm] same by (simp add: source_val_def)
  qed (rule reached)
  moreover have "val c m2 l = val c m0 l" if "cls c l \<noteq> None" "l \<notin> dest ` set ms" for l
    using rest that by (auto simp: fs_def)
  ultimately show ?thesis using em r2 by blast
qed
end
end
