(* ===== verification/X64_Moves.thy ===== *)
theory X64_Moves
  imports Parallel_Moves
begin

text \<open>
  The x64 back end of the parallel move resolver: \<^verbatim>\<open>FlowGraphCompiler::EmitMove\<close> and
  \<^verbatim>\<open>ParallelMoveResolver::EmitSwap\<close> of \<^verbatim>\<open>flow_graph_compiler_x64.cc\<close>, the constants of
  \<^verbatim>\<open>il_x64.cc\<close>, the assembler macros they use and the scratch registers of \<^verbatim>\<open>flow_graph_compiler.cc\<close>,
  over a machine that runs the instructions they emit.
\<close>

unbundle bit_operations_syntax

section \<open>Registers and instructions\<close>

abbreviation RSP :: nat where "RSP \<equiv> 4"
abbreviation RBP :: nat where "RBP \<equiv> 5"
abbreviation TMP :: nat where "TMP \<equiv> 11"
abbreviation THR :: nat where "THR \<equiv> 14"
abbreviation PP :: nat where "PP \<equiv> 15"
abbreviation CODE_REG :: nat where "CODE_REG \<equiv> 12"
abbreviation ARGS_DESC_REG :: nat where "ARGS_DESC_REG \<equiv> 10"
abbreviation FpuTMP :: nat where "FpuTMP \<equiv> 15"

abbreviation kNumberOfCpuRegisters :: nat where "kNumberOfCpuRegisters \<equiv> 16"
abbreviation kNumberOfFpuRegisters :: nat where "kNumberOfFpuRegisters \<equiv> 16"

datatype Address =
  SlotAddress Location
| ThreadAddress int
| PoolAddress nat
| FieldAddress nat

datatype Instr =
  movq_rr nat nat | movq_ra nat Address | movq_ar Address nat | movq_ri nat u64 | movq_ai Address u64
| movq_xr nat nat | xchgq nat nat | xorq_ra nat Address | xorq_ar Address nat | xorl nat nat
| movaps nat nat | movsd_xa nat Address | movsd_ax Address nat | movups_xa nat Address | movups_ax Address nat
| xorps nat nat | pushq nat | popq nat | push_xmm nat | pop_xmm nat

text \<open>
  A stack slot is its own storage, as the invariant of \<^verbatim>\<open>Location\<close> has it.  What is pushed goes to
  \<open>spilled\<close>; while it is not empty, the offsets of slots addressed through \<open>RSP\<close> are wrong and such an access is
  stuck.
\<close>

record Machine =
  cpu :: "nat \<Rightarrow> u64"
  xmm :: "nat \<Rightarrow> u64 \<times> u64"
  slots :: "Location \<Rightarrow> u64 \<times> u64"
  spilled :: "(u64 \<times> u64) list"
  thread_word :: "int \<Rightarrow> u64"
  pool_word :: "nat \<Rightarrow> u64"
  double_field :: "u64 \<Rightarrow> u64"

fun slot_base :: "Location \<Rightarrow> nat option" where
  "slot_base (StackSlot base _) = Some base"
| "slot_base (DoubleStackSlot base _) = Some base"
| "slot_base (QuadStackSlot base _) = Some base"
| "slot_base _ = None"

definition slot_reachable :: "Machine \<Rightarrow> Location \<Rightarrow> bool" where
  "slot_reachable m l \<longleftrightarrow> slot_base l \<noteq> None \<and> (slot_base l = Some RSP \<longrightarrow> spilled m = [])"

fun read64 :: "Address \<Rightarrow> Machine \<Rightarrow> u64 option" where
  "read64 (SlotAddress l) m = (if slot_reachable m l then Some (fst (slots m l)) else None)"
| "read64 (ThreadAddress offset) m = Some (thread_word m offset)"
| "read64 (PoolAddress i) m = Some (pool_word m i)"
| "read64 (FieldAddress r) m = Some (double_field m (cpu m r))"

fun write64 :: "Address \<Rightarrow> u64 \<Rightarrow> Machine \<Rightarrow> Machine option" where
  "write64 (SlotAddress l) w m =
     (if slot_reachable m l then Some (m\<lparr>slots := (slots m)(l := (w, snd (slots m l)))\<rparr>) else None)"
| "write64 _ w m = None"

fun read128 :: "Address \<Rightarrow> Machine \<Rightarrow> (u64 \<times> u64) option" where
  "read128 (SlotAddress (QuadStackSlot b i)) m =
     (if slot_reachable m (QuadStackSlot b i) then Some (slots m (QuadStackSlot b i)) else None)"
| "read128 _ m = None"

fun write128 :: "Address \<Rightarrow> u64 \<times> u64 \<Rightarrow> Machine \<Rightarrow> Machine option" where
  "write128 (SlotAddress (QuadStackSlot b i)) w m =
     (if slot_reachable m (QuadStackSlot b i) then Some (m\<lparr>slots := (slots m)(QuadStackSlot b i := w)\<rparr>) else None)"
| "write128 _ w m = None"

definition set_cpu :: "nat \<Rightarrow> u64 \<Rightarrow> Machine \<Rightarrow> Machine" where
  "set_cpu r w m = m\<lparr>cpu := (cpu m)(r := w)\<rparr>"

definition set_xmm :: "nat \<Rightarrow> u64 \<times> u64 \<Rightarrow> Machine \<Rightarrow> Machine" where
  "set_xmm r w m = m\<lparr>xmm := (xmm m)(r := w)\<rparr>"

text \<open>A load of 64 bits into an XMM register clears its upper half, a 32-bit operation that of a CPU register.\<close>

fun exec :: "Instr \<Rightarrow> Machine \<Rightarrow> Machine option" where
  "exec (movq_rr d s) m = Some (set_cpu d (cpu m s) m)"
| "exec (movq_ra d a) m = do { w \<leftarrow> read64 a m; Some (set_cpu d w m) }"
| "exec (movq_ar a s) m = write64 a (cpu m s) m"
| "exec (movq_ri d w) m = Some (set_cpu d w m)"
| "exec (movq_ai a w) m = write64 a w m"
| "exec (movq_xr d s) m = Some (set_xmm d (cpu m s, 0) m)"
| "exec (xchgq a b) m = Some (set_cpu a (cpu m b) (set_cpu b (cpu m a) m))"
| "exec (xorq_ra d a) m = do { w \<leftarrow> read64 a m; Some (set_cpu d (cpu m d XOR w) m) }"
| "exec (xorq_ar a s) m = do { w \<leftarrow> read64 a m; write64 a (w XOR cpu m s) m }"
| "exec (xorl d s) m = Some (set_cpu d (take_bit 32 (cpu m d XOR cpu m s)) m)"
| "exec (movaps d s) m = Some (set_xmm d (xmm m s) m)"
| "exec (movsd_xa d a) m = do { w \<leftarrow> read64 a m; Some (set_xmm d (w, 0) m) }"
| "exec (movsd_ax a s) m = write64 a (fst (xmm m s)) m"
| "exec (movups_xa d a) m = do { w \<leftarrow> read128 a m; Some (set_xmm d w m) }"
| "exec (movups_ax a s) m = write128 a (xmm m s) m"
| "exec (xorps d s) m =
     Some (set_xmm d (fst (xmm m d) XOR fst (xmm m s), snd (xmm m d) XOR snd (xmm m s)) m)"
| "exec (pushq r) m = Some (m\<lparr>spilled := (cpu m r, 0) # spilled m\<rparr>)"
| "exec (popq r) m =
     (case spilled m of [] \<Rightarrow> None | w # ws \<Rightarrow> Some (set_cpu r (fst w) (m\<lparr>spilled := ws\<rparr>)))"
| "exec (push_xmm r) m = Some (m\<lparr>spilled := xmm m r # spilled m\<rparr>)"
| "exec (pop_xmm r) m =
     (case spilled m of [] \<Rightarrow> None | w # ws \<Rightarrow> Some (set_xmm r w (m\<lparr>spilled := ws\<rparr>)))"

primrec run :: "Instr list \<Rightarrow> Machine \<Rightarrow> Machine option" where
  "run [] m = Some m" | "run (i # is) m = Option.bind (exec i m) (run is)"

section \<open>Assembler macros\<close>

text \<open>
  Objects are Smis, given by their raw word, or heap objects.  Which of them are reachable from the thread and
  where the object pool puts them is up to the compilation; \<open>address\<close> is where a heap object lives.
\<close>

datatype Object = SmiObject u64 | HeapObject nat

datatype ConstantRepresentation = kUnboxedInteger | kTagged | kUnboxedDouble

record ConstantInstr =
  representation :: ConstantRepresentation
  object :: Object
  int64_value :: u64
  double_bits :: "u64 option"

record X64 =
  intrinsic_mode :: bool
  constant_pool_allowed :: bool
  CanLoadFromThread :: "Object \<Rightarrow> int option"
  FindObject :: "Object \<Rightarrow> nat"
  FindImmediate :: "u64 \<Rightarrow> nat"
  address :: "nat \<Rightarrow> u64"
  constant_instruction :: "nat \<Rightarrow> ConstantInstr"
  first_local :: int
  param_end :: int
  stack_size :: int

definition is_int32 :: "u64 \<Rightarrow> bool" where
  "is_int32 imm \<longleftrightarrow> - (2 ^ 31) \<le> sint imm \<and> sint imm < 2 ^ 31"

definition MoveMemoryToMemory :: "Address \<Rightarrow> Address \<Rightarrow> Instr list" where
  "MoveMemoryToMemory dst from = [movq_ra TMP from, movq_ar dst TMP]"

definition Exchange_reg :: "nat \<Rightarrow> Address \<Rightarrow> Instr list" where
  "Exchange_reg reg mem = [movq_ra TMP mem, movq_ar mem reg, movq_rr reg TMP]"

definition Exchange_mem :: "Address \<Rightarrow> Address \<Rightarrow> Instr list" where
  "Exchange_mem mem1 mem2 = [movq_ra TMP mem1, xorq_ra TMP mem2, xorq_ar mem1 TMP, xorq_ar mem2 TMP]"

definition movq_address_immediate :: "Address \<Rightarrow> u64 \<Rightarrow> Instr list" where
  "movq_address_immediate dst imm = (if is_int32 imm then [movq_ai dst imm] else [movq_ri TMP imm, movq_ar dst TMP])"

definition CanLoadFromObjectPool :: "X64 \<Rightarrow> Object \<Rightarrow> bool" where
  "CanLoadFromObjectPool e obj =
     (if \<not> constant_pool_allowed e then False
      else case obj of SmiObject raw \<Rightarrow> \<not> is_int32 raw | HeapObject _ \<Rightarrow> True)"

definition LoadWordFromPoolIndex :: "X64 \<Rightarrow> nat \<Rightarrow> nat \<Rightarrow> Instr list option" where
  "LoadWordFromPoolIndex e dst idx =
     (if constant_pool_allowed e \<and> dst \<noteq> PP then Some [movq_ra dst (PoolAddress idx)] else None)"

definition LoadImmediate :: "X64 \<Rightarrow> nat \<Rightarrow> u64 \<Rightarrow> Instr list option" where
  "LoadImmediate e reg imm =
     (if imm = 0 then Some [xorl reg reg]
      else if is_int32 imm \<or> \<not> constant_pool_allowed e then Some [movq_ri reg imm]
      else LoadWordFromPoolIndex e reg (FindImmediate e imm))"

definition MoveImmediate :: "X64 \<Rightarrow> Address \<Rightarrow> u64 \<Rightarrow> Instr list option" where
  "MoveImmediate e dst imm =
     (if is_int32 imm then Some (movq_address_immediate dst imm)
      else do { is \<leftarrow> LoadImmediate e TMP imm; Some (is @ [movq_ar dst TMP]) })"

definition LoadObject :: "X64 \<Rightarrow> nat \<Rightarrow> Object \<Rightarrow> Instr list option" where
  "LoadObject e dst obj =
     (case CanLoadFromThread e obj of Some offset \<Rightarrow> Some [movq_ra dst (ThreadAddress offset)]
      | None \<Rightarrow>
        if CanLoadFromObjectPool e obj then LoadWordFromPoolIndex e dst (FindObject e obj)
        else case obj of SmiObject raw \<Rightarrow> LoadImmediate e dst raw | HeapObject _ \<Rightarrow> None)"

definition StoreObject :: "X64 \<Rightarrow> Address \<Rightarrow> Object \<Rightarrow> Instr list option" where
  "StoreObject e dst obj =
     (case CanLoadFromThread e obj of Some offset \<Rightarrow> Some [movq_ra TMP (ThreadAddress offset), movq_ar dst TMP]
      | None \<Rightarrow>
        if CanLoadFromObjectPool e obj then do { is \<leftarrow> LoadObject e TMP obj; Some (is @ [movq_ar dst TMP]) }
        else case obj of SmiObject raw \<Rightarrow> MoveImmediate e dst raw | HeapObject _ \<Rightarrow> None)"

section \<open>Scratch registers\<close>

definition RegMaskBit :: "nat \<Rightarrow> u64" where
  "RegMaskBit reg = push_bit reg 1"

definition kReservedCpuRegisters :: u64 where
  "kReservedCpuRegisters = RegMaskBit RSP OR RegMaskBit RBP OR RegMaskBit TMP OR RegMaskBit PP OR RegMaskBit THR"

text \<open>The result is a register and whether it has to be spilled.\<close>

definition AllocateScratchRegister ::
    "MoveOperands list \<Rightarrow> (nat \<Rightarrow> Location) \<Rightarrow> u64 \<Rightarrow> nat \<Rightarrow> nat \<Rightarrow> (nat \<times> bool) option" where
  "AllocateScratchRegister ms kind blocked_mask first_free_register last_free_register =
     (let regs = filter (\<lambda>reg. RegMaskBit reg AND blocked_mask = 0) [first_free_register..<Suc last_free_register] in
      if \<not> list_all operands_ok ms then None
      else case find (\<lambda>reg. IsScratchLocation ms (kind reg) = Some True) regs of Some reg \<Rightarrow> Some (reg, False)
      | None \<Rightarrow> (case regs of reg # _ \<Rightarrow> Some (reg, True) | [] \<Rightarrow> None))"

definition ScratchFpuRegister :: "MoveOperands list \<Rightarrow> nat \<Rightarrow> (nat \<times> Instr list \<times> Instr list) option" where
  "ScratchFpuRegister ms blocked = do {
     (reg, spill) \<leftarrow> AllocateScratchRegister ms FpuRegister (RegMaskBit blocked OR RegMaskBit FpuTMP) 0 (kNumberOfFpuRegisters - 1);
     Some (reg, if spill then [push_xmm reg] else [], if spill then [pop_xmm reg] else []) }"

definition AllocateTemporary :: "X64 \<Rightarrow> MoveOperands list \<Rightarrow> (nat \<times> Instr list \<times> Instr list) option" where
  "AllocateTemporary e ms = do {
     let blocked_mask = (if intrinsic_mode e then kReservedCpuRegisters OR RegMaskBit ARGS_DESC_REG OR RegMaskBit CODE_REG
                         else kReservedCpuRegisters);
     (reg, spill) \<leftarrow> AllocateScratchRegister ms Register blocked_mask 0 (kNumberOfCpuRegisters - 1);
     Some (reg, if spill then [pushq reg] else [], if spill then [popq reg] else []) }"

section \<open>Moves, constants and swaps\<close>

text \<open>\<open>tmp\<close> is \<open>None\<close> where the source passes \<^verbatim>\<open>kNoRegister\<close>.\<close>

definition load_double :: "X64 \<Rightarrow> nat \<Rightarrow> ConstantInstr \<Rightarrow> nat option \<Rightarrow> Instr list option" where
  "load_double e dst k tmp = do {
     bits \<leftarrow> double_bits k;
     if bits = 0 then Some [xorps dst dst]
     else do {
       tmp \<leftarrow> tmp;
       is \<leftarrow> LoadObject e tmp (object k);
       Some (is @ [movsd_xa dst (FieldAddress tmp)]) } }"

fun EmitMoveToLocation :: "X64 \<Rightarrow> ConstantInstr \<Rightarrow> Location \<Rightarrow> nat option \<Rightarrow> Instr list option" where
  "EmitMoveToLocation e k (Register r) tmp =
     (case representation k of
        kUnboxedInteger \<Rightarrow> Some (if int64_value k = 0 then [xorl r r] else [movq_ri r (int64_value k)])
      | kTagged \<Rightarrow> LoadObject e r (object k)
      | kUnboxedDouble \<Rightarrow> None)"
| "EmitMoveToLocation e k (FpuRegister x) tmp = load_double e x k tmp"
| "EmitMoveToLocation e k (DoubleStackSlot b i) tmp = do {
     is \<leftarrow> load_double e FpuTMP k tmp;
     Some (is @ [movsd_ax (SlotAddress (DoubleStackSlot b i)) FpuTMP]) }"
| "EmitMoveToLocation e k (StackSlot b i) tmp =
     (case representation k of
        kUnboxedInteger \<Rightarrow> Some (movq_address_immediate (SlotAddress (StackSlot b i)) (int64_value k))
      | kTagged \<Rightarrow> StoreObject e (SlotAddress (StackSlot b i)) (object k)
      | kUnboxedDouble \<Rightarrow> None)"
| "EmitMoveToLocation e k _ tmp = None"

text \<open>The cases of \<open>FlowGraphCompiler::EmitMove\<close>.\<close>

fun move_cases :: "X64 \<Rightarrow> MoveOperands list \<Rightarrow> Location \<Rightarrow> Location \<Rightarrow> Instr list option" where
  "move_cases e ms destination (Register s) =
     (case destination of Register d \<Rightarrow> Some [movq_rr d s]
      | StackSlot _ _ \<Rightarrow> Some [movq_ar (SlotAddress destination) s] | _ \<Rightarrow> None)"
| "move_cases e ms destination (StackSlot b i) =
     (let source = SlotAddress (StackSlot b i) in
      case destination of Register d \<Rightarrow> Some [movq_ra d source]
      | FpuRegister d \<Rightarrow> Some [movq_ra TMP source, movq_xr d TMP]
      | StackSlot _ _ \<Rightarrow> Some (MoveMemoryToMemory (SlotAddress destination) source)
      | _ \<Rightarrow> None)"
| "move_cases e ms destination (FpuRegister s) =
     (case destination of FpuRegister d \<Rightarrow> Some [movaps d s]
      | DoubleStackSlot _ _ \<Rightarrow> Some [movsd_ax (SlotAddress destination) s]
      | QuadStackSlot _ _ \<Rightarrow> Some [movups_ax (SlotAddress destination) s] | _ \<Rightarrow> None)"
| "move_cases e ms destination (DoubleStackSlot b i) =
     (let source = SlotAddress (DoubleStackSlot b i);
          through = [movsd_xa FpuTMP source, movsd_ax (SlotAddress destination) FpuTMP] in
      case destination of FpuRegister d \<Rightarrow> Some [movsd_xa d source]
      | DoubleStackSlot _ _ \<Rightarrow> Some through | StackSlot _ _ \<Rightarrow> Some through | _ \<Rightarrow> None)"
| "move_cases e ms destination (QuadStackSlot b i) =
     (let source = SlotAddress (QuadStackSlot b i) in
      case destination of FpuRegister d \<Rightarrow> Some [movups_xa d source]
      | QuadStackSlot _ _ \<Rightarrow> Some [movups_xa FpuTMP source, movups_ax (SlotAddress destination) FpuTMP]
      | _ \<Rightarrow> None)"
| "move_cases e ms destination (Constant k) =
     (let instr = constant_instruction e k;
          with_temporary = do {
            (scratch, spill, restore) \<leftarrow> AllocateTemporary e ms;
            is \<leftarrow> EmitMoveToLocation e instr destination (Some scratch);
            if slot_base destination = Some RSP then None else Some (spill @ is @ restore) } in
      case destination of FpuRegister _ \<Rightarrow> with_temporary | DoubleStackSlot _ _ \<Rightarrow> with_temporary
      | _ \<Rightarrow> EmitMoveToLocation e instr destination None)"
| "move_cases e ms destination NoLocation = None"

text \<open>
  The check that \<open>ParallelMoveResolver::EmitMove\<close> makes afterwards is part of \<open>with_temporary\<close>: no operand is
  addressed through \<open>RSP\<close> when a temporary has been allocated.
\<close>

definition x64_EmitMove :: "X64 \<Rightarrow> MoveOperands list \<Rightarrow> Location \<Rightarrow> Location \<Rightarrow> Instr list option" where
  "x64_EmitMove e ms destination source = (if destination = source then Some [] else move_cases e ms destination source)"

text \<open>The instructions of \<open>EmitSwap\<close>; its effect on the moves is in \<open>EmitSwap\<close> of the resolver.\<close>

definition swap_fpu_slot :: "nat \<Rightarrow> Location \<Rightarrow> Instr list option" where
  "swap_fpu_slot reg slot =
     (case slot of
        DoubleStackSlot _ _ \<Rightarrow> Some [movsd_xa FpuTMP (SlotAddress slot), movsd_ax (SlotAddress slot) reg, movaps reg FpuTMP]
      | QuadStackSlot _ _ \<Rightarrow> Some [movups_xa FpuTMP (SlotAddress slot), movups_ax (SlotAddress slot) reg, movaps reg FpuTMP]
      | _ \<Rightarrow> None)"

definition x64_EmitSwap :: "MoveOperands list \<Rightarrow> Location \<Rightarrow> Location \<Rightarrow> Instr list option" where
  "x64_EmitSwap ms destination source =
     (case (source, destination) of
        (Register s, Register d) \<Rightarrow> Some [xchgq d s]
      | (Register s, StackSlot _ _) \<Rightarrow> Some (Exchange_reg s (SlotAddress destination))
      | (StackSlot _ _, Register d) \<Rightarrow> Some (Exchange_reg d (SlotAddress source))
      | (StackSlot _ _, StackSlot _ _) \<Rightarrow> Some (Exchange_mem (SlotAddress destination) (SlotAddress source))
      | (FpuRegister s, FpuRegister d) \<Rightarrow> Some [movaps FpuTMP s, movaps s d, movaps d FpuTMP]
      | (FpuRegister s, _) \<Rightarrow> swap_fpu_slot s destination
      | (_, FpuRegister d) \<Rightarrow> swap_fpu_slot d source
      | (DoubleStackSlot _ _, DoubleStackSlot _ _) \<Rightarrow> do {
          (reg, spill, restore) \<leftarrow> ScratchFpuRegister ms FpuTMP;
          Some (spill @ [movsd_xa FpuTMP (SlotAddress source), movsd_xa reg (SlotAddress destination),
            movsd_ax (SlotAddress destination) FpuTMP, movsd_ax (SlotAddress source) reg] @ restore) }
      | (QuadStackSlot _ _, QuadStackSlot _ _) \<Rightarrow> do {
          (reg, spill, restore) \<leftarrow> ScratchFpuRegister ms FpuTMP;
          Some (spill @ [movups_xa FpuTMP (SlotAddress source), movups_xa reg (SlotAddress destination),
            movups_ax (SlotAddress destination) FpuTMP, movups_ax (SlotAddress source) reg] @ restore) }
      | _ \<Rightarrow> None)"

definition x64_target :: "X64 \<Rightarrow> Instr Target" where
  "x64_target e = \<lparr>lower_move = x64_EmitMove e, lower_swap = x64_EmitSwap,
     first_local_from_fp = first_local e, param_end_from_fp = param_end e, StackSize = stack_size e, FPREG = RBP\<rparr>"

section \<open>The target keeps its contract\<close>

text \<open>
  Registers the compiler reserves hold no values, and values of 64 and of 128 bits are kept apart: \<open>quad x\<close> says
  that XMM register \<open>x\<close> takes part in moves of 128 bits.  Spilling moves \<open>RSP\<close>, so the slots of floating-point
  values have to be addressed through the frame pointer.
\<close>

definition x64_cls :: "(nat \<Rightarrow> bool) \<Rightarrow> Location \<Rightarrow> nat option" where
  "x64_cls quad l =
     (case l of Register r \<Rightarrow> if r < kNumberOfCpuRegisters \<and> r \<notin> {RSP, RBP, TMP, THR, PP} then Some 0 else None
      | StackSlot b _ \<Rightarrow> if b \<in> {RSP, RBP} then Some 0 else None
      | FpuRegister x \<Rightarrow> if x < kNumberOfFpuRegisters \<and> x \<noteq> FpuTMP then Some (if quad x then 2 else 1) else None
      | DoubleStackSlot b _ \<Rightarrow> if b = RBP then Some 1 else None
      | QuadStackSlot b _ \<Rightarrow> if b = RBP then Some 2 else None
      | _ \<Rightarrow> None)"

definition x64_val :: "(nat \<Rightarrow> bool) \<Rightarrow> Machine \<Rightarrow> Location \<Rightarrow> u64 \<times> u64" where
  "x64_val quad m l =
     (case l of Register r \<Rightarrow> (cpu m r, 0) | FpuRegister x \<Rightarrow> if quad x then xmm m x else (fst (xmm m x), 0)
      | StackSlot _ _ \<Rightarrow> (fst (slots m l), 0) | DoubleStackSlot _ _ \<Rightarrow> (fst (slots m l), 0)
      | QuadStackSlot _ _ \<Rightarrow> slots m l | _ \<Rightarrow> (0, 0))"

definition raw_object :: "X64 \<Rightarrow> Object \<Rightarrow> u64" where
  "raw_object e obj = (case obj of SmiObject raw \<Rightarrow> raw | HeapObject i \<Rightarrow> address e i)"

definition loadable :: "X64 \<Rightarrow> Object \<Rightarrow> bool" where
  "loadable e obj \<longleftrightarrow> CanLoadFromThread e obj \<noteq> None \<or> constant_pool_allowed e \<or> (\<exists>raw. obj = SmiObject raw)"

text \<open>The thread, the object pool and the heap hold the constants where the compiler expects them.\<close>

definition constants_present :: "X64 \<Rightarrow> Machine \<Rightarrow> bool" where
  "constants_present e m \<longleftrightarrow>
     (\<forall>k. let c = constant_instruction e k; obj = object c in
        (\<forall>offset. CanLoadFromThread e obj = Some offset \<longrightarrow> thread_word m offset = raw_object e obj) \<and>
        pool_word m (FindObject e obj) = raw_object e obj \<and>
        (\<forall>b. double_bits c = Some b \<longrightarrow> double_field m (raw_object e obj) = b))"

definition x64_ready :: "X64 \<Rightarrow> Machine \<Rightarrow> bool" where
  "x64_ready e m \<longleftrightarrow> spilled m = [] \<and> constants_present e m"

lemma constants_present_update [simp]:
  "constants_present e (m\<lparr>cpu := c\<rparr>) = constants_present e m"
  "constants_present e (m\<lparr>xmm := x\<rparr>) = constants_present e m"
  "constants_present e (m\<lparr>slots := s\<rparr>) = constants_present e m"
  "constants_present e (m\<lparr>spilled := p\<rparr>) = constants_present e m"
  by (simp_all add: constants_present_def)

definition is_float_location :: "Location \<Rightarrow> bool" where
  "is_float_location l = (case l of FpuRegister _ \<Rightarrow> True | DoubleStackSlot _ _ \<Rightarrow> True | QuadStackSlot _ _ \<Rightarrow> True | _ \<Rightarrow> False)"

definition constant_of :: "X64 \<Rightarrow> Location \<Rightarrow> ConstantInstr" where
  "constant_of e s = (case s of Constant k \<Rightarrow> constant_instruction e k | _ \<Rightarrow> constant_instruction e 0)"

definition x64_const_ok :: "X64 \<Rightarrow> (nat \<Rightarrow> bool) \<Rightarrow> Location \<Rightarrow> Location \<Rightarrow> bool" where
  "x64_const_ok e quad d s \<longleftrightarrow> (let c = constant_of e s in
     if is_float_location d
     then slot_base d \<in> {None, Some RBP} \<and> (\<forall>b i. d \<noteq> QuadStackSlot b i) \<and>
       (double_bits c = Some 0 \<or> double_bits c \<noteq> None \<and> loadable e (object c))
     else representation c = kUnboxedInteger \<or> representation c = kTagged \<and> loadable e (object c))"

definition x64_const_val :: "X64 \<Rightarrow> (nat \<Rightarrow> bool) \<Rightarrow> Location \<Rightarrow> Location \<Rightarrow> u64 \<times> u64" where
  "x64_const_val e quad d s =
     (let c = constant_of e s in
      if is_float_location d then (the (double_bits c), 0)
      else (if representation c = kUnboxedInteger then int64_value c else raw_object e (object c), 0))"

lemma run_append_x64: "run (is @ js) m = Option.bind (run is m) (run js)"
proof (induction "is" arbitrary: m)
  case (Cons i "is")
  then show ?case by (cases "exec i m") simp_all
qed simp

lemmas machine_defs = set_cpu_def set_xmm_def slot_reachable_def

lemma AllocateScratchRegister_Some:
  assumes ok: "list_all operands_ok ms" and free: "r \<le> n" "RegMaskBit r AND blocked = 0"
  obtains reg spill where "AllocateScratchRegister ms kind blocked 0 n = Some (reg, spill)" "reg \<le> n" "RegMaskBit reg AND blocked = 0"
    "spill \<or> IsScratchLocation ms (kind reg) = Some True"
proof -
  define regs where "regs = filter (\<lambda>reg. RegMaskBit reg AND blocked = 0) [0..<Suc n]"
  have r: "reg \<le> n \<and> RegMaskBit reg AND blocked = 0" if "reg \<in> set regs" for reg using that by (auto simp: regs_def simp del: upt_Suc)
  have ne: "regs \<noteq> []" using free by (auto simp: regs_def filter_empty_conv simp del: upt_Suc)
  show thesis
  proof (cases "find (\<lambda>reg. IsScratchLocation ms (kind reg) = Some True) regs")
    case None
    then have "AllocateScratchRegister ms kind blocked 0 n = Some (hd regs, True)"
      using ok ne unfolding AllocateScratchRegister_def Let_def regs_def [symmetric] by (cases regs) auto
    then show thesis using that r [OF hd_in_set [OF ne]] by blast
  next
    case (Some reg)
    then have "AllocateScratchRegister ms kind blocked 0 n = Some (reg, False)"
      using ok unfolding AllocateScratchRegister_def Let_def regs_def [symmetric] by simp
    moreover have "reg \<in> set regs" "IsScratchLocation ms (kind reg) = Some True"
      using Some by (auto simp: find_Some_iff)
    ultimately show thesis using that r by blast
  qed
qed

lemma RegMaskBit_and: "n < 64 \<Longrightarrow> RegMaskBit n AND blocked = 0 \<longleftrightarrow> \<not> bit blocked n"
proof -
  assume n: "n < 64"
  then have "bit (RegMaskBit n AND blocked) k \<longleftrightarrow> k = n \<and> bit blocked n" for k
    by (auto simp: RegMaskBit_def bit_simps)
  then show ?thesis using n by (simp add: bit_eq_iff [of "RegMaskBit n AND blocked" 0])
qed

lemma ScratchFpuRegister_Some:
  assumes "list_all operands_ok ms"
  obtains reg spill where "ScratchFpuRegister ms FpuTMP =
      Some (reg, if spill then [push_xmm reg] else [], if spill then [pop_xmm reg] else [])"
    "reg < FpuTMP" "spill \<or> IsScratchLocation ms (FpuRegister reg) = Some True"
proof -
  let ?blocked = "RegMaskBit FpuTMP OR RegMaskBit FpuTMP"
  obtain reg spill where a: "AllocateScratchRegister ms FpuRegister ?blocked 0 15 = Some (reg, spill)" "reg \<le> 15"
      "RegMaskBit reg AND ?blocked = 0" "spill \<or> IsScratchLocation ms (FpuRegister reg) = Some True"
    using AllocateScratchRegister_Some [OF assms, of 0 15 ?blocked FpuRegister] by (auto simp: RegMaskBit_and RegMaskBit_def bit_simps)
  have "bit (RegMaskBit FpuTMP) FpuTMP" by (simp add: RegMaskBit_def)
  then have "reg \<noteq> 15" using a(3) by (auto simp: RegMaskBit_and bit_simps)
  then show thesis using a that [of reg spill] by (simp add: ScratchFpuRegister_def)
qed

lemma AllocateTemporary_Some:
  assumes "list_all operands_ok ms"
  obtains reg spill where "AllocateTemporary e ms = Some (reg, if spill then [pushq reg] else [], if spill then [popq reg] else [])"
    "reg < 16" "reg \<notin> {RSP, RBP, TMP, THR, PP}" "spill \<or> IsScratchLocation ms (Register reg) = Some True"
proof -
  define blocked where "blocked = (if intrinsic_mode e then kReservedCpuRegisters OR RegMaskBit ARGS_DESC_REG OR RegMaskBit CODE_REG
                         else kReservedCpuRegisters)"
  have "RegMaskBit 0 AND blocked = 0" by (simp add: blocked_def kReservedCpuRegisters_def RegMaskBit_def)
  then obtain reg spill where a: "AllocateScratchRegister ms Register blocked 0 15 = Some (reg, spill)" "reg \<le> 15"
      "RegMaskBit reg AND blocked = 0" "spill \<or> IsScratchLocation ms (Register reg) = Some True"
    using AllocateScratchRegister_Some [OF assms, of 0 15 blocked Register] by auto
  then have "\<not> bit kReservedCpuRegisters reg" by (auto simp: RegMaskBit_and blocked_def bit_simps split: if_splits)
  then have "reg \<notin> {RSP, RBP, TMP, THR, PP}" by (auto simp: kReservedCpuRegisters_def RegMaskBit_def)
  then show thesis using a that [of reg spill] by (simp add: AllocateTemporary_def blocked_def)
qed

lemmas move_defs = x64_target_def x64_EmitMove_def x64_cls_def x64_val_def x64_ready_def machine_defs
  MoveMemoryToMemory_def Exchange_reg_def Exchange_mem_def swap_fpu_slot_def

lemma x64_move_law:
  assumes "x64_ready e m" "x64_cls quad d \<noteq> None" "x64_cls quad s = x64_cls quad d" "s \<noteq> d"
  shows "\<exists>is m'. lower_move (x64_target e) ms d s = Some is \<and> run is m = Some m' \<and> x64_ready e m' \<and>
    x64_val quad m' d = x64_val quad m s \<and> (\<forall>l. x64_cls quad l \<noteq> None \<and> l \<noteq> d \<longrightarrow> x64_val quad m' l = x64_val quad m l)"
  using assms
  by (cases d; cases s; simp add: move_defs split: if_splits; auto split: Location.splits if_splits)


lemma xor_exchange [simp]: "(a :: u64) XOR (a XOR b) = b" "b XOR ((a :: u64) XOR b) = a"
  by (simp_all add: xor.assoc [symmetric]) (simp add: xor.commute [of b a] xor.assoc)

lemma x64_EmitSwap_simps [simp]:
  "x64_EmitSwap ms (Register d) (Register s) = Some [xchgq d s]"
  "x64_EmitSwap ms (StackSlot b i) (Register s) = Some (Exchange_reg s (SlotAddress (StackSlot b i)))"
  "x64_EmitSwap ms (Register d) (StackSlot b i) = Some (Exchange_reg d (SlotAddress (StackSlot b i)))"
  "x64_EmitSwap ms (StackSlot b i) (StackSlot b' i') = Some (Exchange_mem (SlotAddress (StackSlot b i)) (SlotAddress (StackSlot b' i')))"
  "x64_EmitSwap ms (FpuRegister d) (FpuRegister s) = Some [movaps FpuTMP s, movaps s d, movaps d FpuTMP]"
  "x64_EmitSwap ms (DoubleStackSlot b i) (FpuRegister s) = swap_fpu_slot s (DoubleStackSlot b i)"
  "x64_EmitSwap ms (QuadStackSlot b i) (FpuRegister s) = swap_fpu_slot s (QuadStackSlot b i)"
  "x64_EmitSwap ms (FpuRegister d) (DoubleStackSlot b i) = swap_fpu_slot d (DoubleStackSlot b i)"
  "x64_EmitSwap ms (FpuRegister d) (QuadStackSlot b i) = swap_fpu_slot d (QuadStackSlot b i)"
  by (simp_all add: x64_EmitSwap_def)

lemma x64_swap_xmm:
  assumes "x64_ready e m" "a < FpuTMP" "b < FpuTMP" "quad a = quad b" "a \<noteq> b"
  shows "\<exists>m'. run [movaps FpuTMP b, movaps b a, movaps a FpuTMP] m = Some m' \<and> x64_ready e m' \<and>
    x64_val quad m' (FpuRegister a) = x64_val quad m (FpuRegister b) \<and>
    x64_val quad m' (FpuRegister b) = x64_val quad m (FpuRegister a) \<and>
    (\<forall>l. x64_cls quad l \<noteq> None \<and> l \<noteq> FpuRegister a \<and> l \<noteq> FpuRegister b \<longrightarrow> x64_val quad m' l = x64_val quad m l)"
  using assms by (simp add: machine_defs x64_ready_def) (auto simp: x64_val_def x64_cls_def split: Location.splits if_splits)

lemma x64_swap_cpu:
  assumes "x64_ready e m" "a \<noteq> b"
  shows "\<exists>m'. run [xchgq a b] m = Some m' \<and> x64_ready e m' \<and>
    x64_val quad m' (Register a) = x64_val quad m (Register b) \<and> x64_val quad m' (Register b) = x64_val quad m (Register a) \<and>
    (\<forall>l. l \<noteq> Register a \<and> l \<noteq> Register b \<longrightarrow> x64_val quad m' l = x64_val quad m l)"
  using assms by (simp add: machine_defs x64_ready_def) (auto simp: x64_val_def split: Location.splits)

lemma x64_exchange_reg:
  assumes "x64_ready e m" "r \<noteq> TMP"
  shows "\<exists>m'. run (Exchange_reg r (SlotAddress (StackSlot b i))) m = Some m' \<and> x64_ready e m' \<and>
    x64_val quad m' (Register r) = x64_val quad m (StackSlot b i) \<and>
    x64_val quad m' (StackSlot b i) = x64_val quad m (Register r) \<and>
    (\<forall>l. x64_cls quad l \<noteq> None \<and> l \<noteq> Register r \<and> l \<noteq> StackSlot b i \<longrightarrow> x64_val quad m' l = x64_val quad m l)"
  using assms by (simp add: machine_defs Exchange_reg_def x64_ready_def)
    (auto simp: x64_val_def x64_cls_def split: Location.splits if_splits)

lemma x64_exchange_mem:
  assumes "x64_ready e m" "StackSlot b i \<noteq> StackSlot b' i'"
  shows "\<exists>m'. run (Exchange_mem (SlotAddress (StackSlot b i)) (SlotAddress (StackSlot b' i'))) m = Some m' \<and> x64_ready e m' \<and>
    x64_val quad m' (StackSlot b i) = x64_val quad m (StackSlot b' i') \<and>
    x64_val quad m' (StackSlot b' i') = x64_val quad m (StackSlot b i) \<and>
    (\<forall>l. x64_cls quad l \<noteq> None \<and> l \<noteq> StackSlot b i \<and> l \<noteq> StackSlot b' i' \<longrightarrow> x64_val quad m' l = x64_val quad m l)"
  using assms by (simp add: machine_defs Exchange_mem_def x64_ready_def)
    (auto simp: x64_val_def x64_cls_def split: Location.splits if_splits)

lemma x64_swap_fpu_slot:
  assumes "x64_ready e m" "x < FpuTMP" "slot = (if quad x then QuadStackSlot RBP i else DoubleStackSlot RBP i)"
  shows "\<exists>is m'. swap_fpu_slot x slot = Some is \<and> run is m = Some m' \<and> x64_ready e m' \<and>
    x64_val quad m' (FpuRegister x) = x64_val quad m slot \<and> x64_val quad m' slot = x64_val quad m (FpuRegister x) \<and>
    (\<forall>l. x64_cls quad l \<noteq> None \<and> l \<noteq> FpuRegister x \<and> l \<noteq> slot \<longrightarrow> x64_val quad m' l = x64_val quad m l)"
  using assms by (cases "quad x"; simp add: machine_defs swap_fpu_slot_def x64_ready_def;
    auto simp: x64_val_def x64_cls_def split: Location.splits if_splits)

text \<open>Two slots are swapped through a second register, which is restored unless it is a scratch location.\<close>

lemma x64_swap_double_slots:
  assumes "x64_ready e m" "i \<noteq> j" "reg < FpuTMP" "spill \<or> IsScratchLocation ms (FpuRegister reg) = Some True"
  shows "\<exists>m'. run ((if spill then [push_xmm reg] else []) @
      [movsd_xa FpuTMP (SlotAddress (DoubleStackSlot RBP j)), movsd_xa reg (SlotAddress (DoubleStackSlot RBP i)),
       movsd_ax (SlotAddress (DoubleStackSlot RBP i)) FpuTMP, movsd_ax (SlotAddress (DoubleStackSlot RBP j)) reg] @
      (if spill then [pop_xmm reg] else [])) m = Some m' \<and> x64_ready e m' \<and>
    x64_val quad m' (DoubleStackSlot RBP i) = x64_val quad m (DoubleStackSlot RBP j) \<and>
    x64_val quad m' (DoubleStackSlot RBP j) = x64_val quad m (DoubleStackSlot RBP i) \<and>
    (\<forall>l. x64_cls quad l \<noteq> None \<and> l \<noteq> DoubleStackSlot RBP i \<and> l \<noteq> DoubleStackSlot RBP j \<and>
       IsScratchLocation ms l \<noteq> Some True \<longrightarrow> x64_val quad m' l = x64_val quad m l)"
  using assms by (cases spill; simp add: machine_defs x64_ready_def; auto simp: x64_val_def x64_cls_def split: Location.splits if_splits)

lemma x64_swap_quad_slots:
  assumes "x64_ready e m" "i \<noteq> j" "reg < FpuTMP" "spill \<or> IsScratchLocation ms (FpuRegister reg) = Some True"
  shows "\<exists>m'. run ((if spill then [push_xmm reg] else []) @
      [movups_xa FpuTMP (SlotAddress (QuadStackSlot RBP j)), movups_xa reg (SlotAddress (QuadStackSlot RBP i)),
       movups_ax (SlotAddress (QuadStackSlot RBP i)) FpuTMP, movups_ax (SlotAddress (QuadStackSlot RBP j)) reg] @
      (if spill then [pop_xmm reg] else [])) m = Some m' \<and> x64_ready e m' \<and>
    x64_val quad m' (QuadStackSlot RBP i) = x64_val quad m (QuadStackSlot RBP j) \<and>
    x64_val quad m' (QuadStackSlot RBP j) = x64_val quad m (QuadStackSlot RBP i) \<and>
    (\<forall>l. x64_cls quad l \<noteq> None \<and> l \<noteq> QuadStackSlot RBP i \<and> l \<noteq> QuadStackSlot RBP j \<and>
       IsScratchLocation ms l \<noteq> Some True \<longrightarrow> x64_val quad m' l = x64_val quad m l)"
  using assms by (cases spill; simp add: machine_defs x64_ready_def; auto simp: x64_val_def x64_cls_def split: Location.splits if_splits)

lemma x64_swap_law:
  assumes r: "x64_ready e m" and ok: "list_all operands_ok ms"
    and c: "x64_cls quad d \<noteq> None" "x64_cls quad s = x64_cls quad d" "s \<noteq> d"
  shows "\<exists>is m'. x64_EmitSwap ms d s = Some is \<and> run is m = Some m' \<and> x64_ready e m' \<and>
    x64_val quad m' d = x64_val quad m s \<and> x64_val quad m' s = x64_val quad m d \<and>
    (\<forall>l. x64_cls quad l \<noteq> None \<and> l \<noteq> d \<and> l \<noteq> s \<and> IsScratchLocation ms l \<noteq> Some True \<longrightarrow> x64_val quad m' l = x64_val quad m l)"
proof -
  obtain reg spill where sc: "ScratchFpuRegister ms FpuTMP =
      Some (reg, if spill then [push_xmm reg] else [], if spill then [pop_xmm reg] else [])"
    "reg < FpuTMP" "spill \<or> IsScratchLocation ms (FpuRegister reg) = Some True"
    by (rule ScratchFpuRegister_Some [OF ok])
  consider
      (xmm) a b where "d = FpuRegister a" "s = FpuRegister b" "a < FpuTMP" "b < FpuTMP" "quad a = quad b" "a \<noteq> b"
    | (double) i j where "d = DoubleStackSlot RBP i" "s = DoubleStackSlot RBP j" "i \<noteq> j"
    | (quad) i j where "d = QuadStackSlot RBP i" "s = QuadStackSlot RBP j" "i \<noteq> j"
    | (cpu) a b where "d = Register a" "s = Register b" "a \<noteq> b"
    | (cpu_slot) a b i where "a \<noteq> TMP" "d = Register a \<and> s = StackSlot b i \<or> d = StackSlot b i \<and> s = Register a"
    | (slots) b i b' i' where "d = StackSlot b i" "s = StackSlot b' i'"
    | (fpu_slot) x i slot where "x < FpuTMP" "slot = (if quad x then QuadStackSlot RBP i else DoubleStackSlot RBP i)"
        "d = FpuRegister x \<and> s = slot \<or> d = slot \<and> s = FpuRegister x"
    using c by (cases d; cases s) (auto simp: x64_cls_def is_float_location_def split: if_splits)
  then show ?thesis
  proof cases
    case xmm
    then show ?thesis using x64_swap_xmm [where quad = quad, OF r xmm(3-)] by auto
  next
    case double
    then show ?thesis
      using x64_swap_double_slots [OF r double(3) sc(2,3)] sc(1) by (simp add: x64_EmitSwap_def)
  next
    case quad
    then show ?thesis
      using x64_swap_quad_slots [OF r quad(3) sc(2,3)] sc(1) by (simp add: x64_EmitSwap_def)
  next
    case cpu
    then show ?thesis using x64_swap_cpu [OF r cpu(3)] by simp
  next
    case cpu_slot
    then show ?thesis using x64_exchange_reg [OF r cpu_slot(1), of b i quad] by auto
  next
    case slots
    then show ?thesis using x64_exchange_mem [OF r, of b i b' i' quad] c(3) by auto
  next
    case fpu_slot
    have "x64_EmitSwap ms d s = swap_fpu_slot x slot" using fpu_slot(2,3) by (cases "quad x") auto
    then show ?thesis using x64_swap_fpu_slot [where quad = quad, OF r fpu_slot(1,2)] fpu_slot(3) by auto
  qed
qed

text \<open>Constants.\<close>

lemma LoadObject_run:
  assumes "constants_present e m" "obj = object (constant_instruction e k)" "loadable e obj" "dst \<noteq> PP"
  shows "\<exists>is. LoadObject e dst obj = Some is \<and> run is m = Some (set_cpu dst (raw_object e obj) m)"
proof -
  have "pool_word m (FindObject e obj) = raw_object e obj"
    "\<And>offset. CanLoadFromThread e obj = Some offset \<Longrightarrow> thread_word m offset = raw_object e obj"
    using assms(1,2) by (auto simp: constants_present_def Let_def)
  with assms(3,4) show ?thesis
    by (cases obj) (auto simp: LoadObject_def LoadWordFromPoolIndex_def LoadImmediate_def CanLoadFromObjectPool_def
      raw_object_def loadable_def split: option.splits)
qed

lemma StoreObject_run:
  assumes "constants_present e m" "obj = object (constant_instruction e k)" "loadable e obj" "slot_reachable m slot"
  shows "\<exists>is w. StoreObject e (SlotAddress slot) obj = Some is \<and>
    run is m = Some (m\<lparr>cpu := (cpu m)(TMP := w), slots := (slots m)(slot := (raw_object e obj, snd (slots m slot)))\<rparr>)"
proof -
  have id: "m\<lparr>cpu := (cpu m)(TMP := cpu m TMP), slots := f\<rparr> = m\<lparr>slots := f\<rparr>" for f by simp
  obtain "is" where l: "LoadObject e TMP obj = Some is" "run is m = Some (set_cpu TMP (raw_object e obj) m)"
    using LoadObject_run [OF assms(1-3), of TMP] by auto
  have w: "run [movq_ar (SlotAddress slot) TMP] (set_cpu TMP (raw_object e obj) m) =
      Some (m\<lparr>cpu := (cpu m)(TMP := raw_object e obj), slots := (slots m)(slot := (raw_object e obj, snd (slots m slot)))\<rparr>)"
    using assms(4) by (simp add: machine_defs)
  have "\<exists>i. StoreObject e (SlotAddress slot) obj = Some [i] \<and> (\<exists>raw. obj = SmiObject raw \<and> i = movq_ai (SlotAddress slot) raw) \<or>
      StoreObject e (SlotAddress slot) obj = Some (is @ [movq_ar (SlotAddress slot) TMP])"
    using l(1) assms(3)
    by (cases obj) (auto simp: StoreObject_def LoadObject_def MoveImmediate_def movq_address_immediate_def CanLoadFromObjectPool_def
        loadable_def split: option.splits)
  then show ?thesis
  proof (elim exE disjE conjE)
    fix i raw assume "StoreObject e (SlotAddress slot) obj = Some [i]" "obj = SmiObject raw" "i = movq_ai (SlotAddress slot) raw"
    then show ?thesis using assms(4) by (auto simp: raw_object_def intro!: exI [of _ "cpu m TMP"])
  next
    assume "StoreObject e (SlotAddress slot) obj = Some (is @ [movq_ar (SlotAddress slot) TMP])"
    then show ?thesis using l(2) w by (auto simp: run_append_x64)
  qed
qed

lemma load_double_run:
  assumes "constants_present e m" "k = constant_instruction e n" "double_bits k = Some bits" "bits = 0 \<or> loadable e (object k)" "tmp \<noteq> PP"
  shows "\<exists>is w. load_double e x k (Some tmp) = Some is \<and>
    run is m = Some (m\<lparr>cpu := (cpu m)(tmp := w), xmm := (xmm m)(x := (bits, 0))\<rparr>)"
proof (cases "bits = 0")
  case True
  then show ?thesis using assms(3) by (auto simp: load_double_def machine_defs intro!: exI [of _ "cpu m tmp"])
next
  case False
  then obtain "is" where "LoadObject e tmp (object k) = Some is"
      "run is m = Some (set_cpu tmp (raw_object e (object k)) m)"
    using LoadObject_run [OF assms(1), of "object k" n tmp] assms by auto
  moreover have "double_field m (raw_object e (object k)) = bits"
    using assms(1-3) by (simp add: constants_present_def Let_def)
  ultimately show ?thesis using False assms(3) by (auto simp: load_double_def run_append_x64 machine_defs)
qed

lemma x64_float_constant:
  assumes r: "x64_ready e m" and ok: "list_all operands_ok ms" and c: "x64_cls quad d \<noteq> None" "is_float_location d"
    and k: "s = Constant k" "x64_const_ok e quad d s"
  shows "\<exists>is m'. move_cases e ms d s = Some is \<and> run is m = Some m' \<and> x64_ready e m' \<and>
    x64_val quad m' d = x64_const_val e quad d s \<and>
    (\<forall>l. x64_cls quad l \<noteq> None \<and> l \<noteq> d \<and> IsScratchLocation ms l \<noteq> Some True \<longrightarrow> x64_val quad m' l = x64_val quad m l)"
proof -
  obtain tmp spill where t: "AllocateTemporary e ms = Some (tmp, if spill then [pushq tmp] else [], if spill then [popq tmp] else [])"
    "tmp < 16" "tmp \<notin> {RSP, RBP, TMP, THR, PP}" "spill \<or> IsScratchLocation ms (Register tmp) = Some True"
    by (rule AllocateTemporary_Some [OF ok])
  obtain bits where b: "double_bits (constant_instruction e k) = Some bits" "bits = 0 \<or> loadable e (object (constant_instruction e k))"
    using k c(2) by (auto simp: x64_const_ok_def constant_of_def Let_def)
  define m1 where "m1 = (if spill then m\<lparr>spilled := [(cpu m tmp, 0)]\<rparr> else m)"
  have m1: "constants_present e m1" "run (if spill then [pushq tmp] else []) m = Some m1" and sp: "spilled m = []"
    using r by (auto simp: m1_def x64_ready_def)
  consider x where "d = FpuRegister x" "x \<noteq> FpuTMP" | i where "d = DoubleStackSlot RBP i"
    using c k by (cases d) (auto simp: x64_cls_def is_float_location_def x64_const_ok_def Let_def split: if_splits)
  then show ?thesis
  proof cases
    case 1
    obtain "is" w where "load_double e x (constant_instruction e k) (Some tmp) = Some is"
        "run is m1 = Some (m1\<lparr>cpu := (cpu m1)(tmp := w), xmm := (xmm m1)(x := (bits, 0))\<rparr>)"
      using load_double_run [OF m1(1) refl b, of tmp x] t(3) by auto
    then show ?thesis using 1 t r b k m1(2) sp
      by (simp add: run_append_x64 constant_of_def x64_const_val_def is_float_location_def)
        (auto simp: m1_def machine_defs x64_ready_def x64_val_def x64_cls_def split: Location.splits if_splits)
  next
    case 2
    obtain "is" w where "load_double e FpuTMP (constant_instruction e k) (Some tmp) = Some is"
        "run is m1 = Some (m1\<lparr>cpu := (cpu m1)(tmp := w), xmm := (xmm m1)(FpuTMP := (bits, 0))\<rparr>)"
      using load_double_run [OF m1(1) refl b, of tmp FpuTMP] t(3) by auto
    then show ?thesis using 2 t r b k m1(2) sp
      by (simp add: run_append_x64 constant_of_def x64_const_val_def is_float_location_def)
        (auto simp: m1_def machine_defs x64_ready_def x64_val_def x64_cls_def split: Location.splits if_splits)
  qed
qed

lemma x64_constant_law:
  assumes r: "x64_ready e m" and ok: "list_all operands_ok ms" and c: "x64_cls quad d \<noteq> None"
    and k: "IsConstant s" "x64_const_ok e quad d s"
  shows "\<exists>is m'. lower_move (x64_target e) ms d s = Some is \<and> run is m = Some m' \<and> x64_ready e m' \<and>
    x64_val quad m' d = x64_const_val e quad d s \<and>
    (\<forall>l. x64_cls quad l \<noteq> None \<and> l \<noteq> d \<and> IsScratchLocation ms l \<noteq> Some True \<longrightarrow> x64_val quad m' l = x64_val quad m l)"
proof -
  obtain n where n: "s = Constant n" using k(1) by (cases s) auto
  let ?k = "constant_instruction e n"
  have cp: "constants_present e m" and sp: "spilled m = []" using r by (auto simp: x64_ready_def)
  have lower: "lower_move (x64_target e) ms d s = move_cases e ms d s"
    using n c by (auto simp: x64_target_def x64_EmitMove_def x64_cls_def)
  consider "is_float_location d" | x where "d = Register x" "x \<notin> {RSP, RBP, TMP, THR, PP}" | b i where "d = StackSlot b i"
    using c by (cases d) (auto simp: x64_cls_def is_float_location_def split: if_splits)
  then show ?thesis
  proof cases
    case 1
    then show ?thesis using x64_float_constant [OF r ok c 1 n k(2)] lower by simp
  next
    case 2
    have "\<exists>is. EmitMoveToLocation e ?k d None = Some is \<and> run is m = Some (set_cpu x (fst (x64_const_val e quad d s)) m)"
      using k n 2 LoadObject_run [OF cp refl, of n x]
      by (auto simp: x64_const_ok_def x64_const_val_def constant_of_def is_float_location_def Let_def)
    moreover have "move_cases e ms d s = EmitMoveToLocation e ?k d None" using n 2 by (simp add: Let_def)
    moreover have "x64_ready e (set_cpu x w m)" "x64_val quad (set_cpu x w m) d = (w, 0)"
      "l \<noteq> d \<Longrightarrow> x64_val quad (set_cpu x w m) l = x64_val quad m l" for w l
      using 2 r by (auto simp: set_cpu_def x64_ready_def x64_val_def split: Location.splits)
    moreover have "(fst (x64_const_val e quad d s), 0) = x64_const_val e quad d s"
      using 2 by (simp add: x64_const_val_def is_float_location_def Let_def)
    ultimately show ?thesis unfolding lower by metis
  next
    case 3
    have "\<exists>is w. EmitMoveToLocation e ?k d None = Some is \<and> run is m = Some
        (m\<lparr>cpu := (cpu m)(TMP := w), slots := (slots m)(d := (fst (x64_const_val e quad d s), snd (slots m d)))\<rparr>)"
    proof (cases "representation ?k")
      case kUnboxedInteger
      then show ?thesis using 3 n sp
        by (cases "is_int32 (int64_value ?k)")
          (auto simp: x64_const_val_def constant_of_def is_float_location_def movq_address_immediate_def machine_defs
            intro!: exI [of _ "if is_int32 (int64_value ?k) then cpu m TMP else int64_value ?k"])
    next
      case kTagged
      then show ?thesis using k n 3 sp StoreObject_run [OF cp refl, of n d]
        by (auto simp: x64_const_ok_def x64_const_val_def constant_of_def is_float_location_def slot_reachable_def Let_def)
    qed (use k n 3 in \<open>auto simp: x64_const_ok_def constant_of_def is_float_location_def Let_def\<close>)
    moreover have "move_cases e ms d s = EmitMoveToLocation e ?k d None" using n 3 by (simp add: Let_def)
    moreover have "x64_ready e (m\<lparr>cpu := (cpu m)(TMP := w), slots := (slots m)(d := v)\<rparr>)"
      "x64_val quad (m\<lparr>cpu := (cpu m)(TMP := w), slots := (slots m)(d := v)\<rparr>) d = (fst v, 0)"
      "l \<noteq> d \<Longrightarrow> x64_cls quad l \<noteq> None \<Longrightarrow>
       x64_val quad (m\<lparr>cpu := (cpu m)(TMP := w), slots := (slots m)(d := v)\<rparr>) l = x64_val quad m l" for w v l
      using 3 r by (auto simp: x64_ready_def x64_val_def x64_cls_def split: Location.splits if_splits)
    moreover have "(fst (x64_const_val e quad d s), 0) = x64_const_val e quad d s"
      using 3 by (simp add: x64_const_val_def is_float_location_def Let_def)
    ultimately show ?thesis unfolding lower by (metis fst_conv)
  qed
qed

interpretation x64: move_target "x64_target e" run "x64_ready e" x64_val "x64_const_val e" x64_cls "x64_const_ok e" for e
proof unfold_locales
  fix m :: Machine and ms quad d s
  assume a: "x64_ready e m" "list_all operands_ok ms" "x64_cls quad d \<noteq> None" "x64_cls quad s = x64_cls quad d" "s \<noteq> d"
  show "\<exists>is m'. lower_move (x64_target e) ms d s = Some is \<and> run is m = Some m' \<and> x64_ready e m' \<and>
      x64_val quad m' d = x64_val quad m s \<and>
      (\<forall>l. x64_cls quad l \<noteq> None \<and> l \<noteq> d \<and> IsScratchLocation ms l \<noteq> Some True \<longrightarrow> x64_val quad m' l = x64_val quad m l)"
    using x64_move_law [OF a(1,3-5), of ms] by blast
  show "\<exists>is m'. lower_swap (x64_target e) ms d s = Some is \<and> run is m = Some m' \<and> x64_ready e m' \<and>
      x64_val quad m' d = x64_val quad m s \<and> x64_val quad m' s = x64_val quad m d \<and>
      (\<forall>l. x64_cls quad l \<noteq> None \<and> l \<noteq> d \<and> l \<noteq> s \<and> IsScratchLocation ms l \<noteq> Some True \<longrightarrow> x64_val quad m' l = x64_val quad m l)"
    using x64_swap_law [OF a] by (simp add: x64_target_def)
next
  fix quad l
  show "x64_cls quad l \<noteq> None \<Longrightarrow> l \<noteq> NoLocation \<and> \<not> IsConstant l" by (cases l) (simp_all add: x64_cls_def)
qed (simp, rule run_append_x64, rule x64_constant_law)

section \<open>Parallel moves on x64\<close>

definition x64_parallel_ok :: "X64 \<Rightarrow> (nat \<Rightarrow> bool) \<Rightarrow> MoveOperands list \<Rightarrow> bool" where
  "x64_parallel_ok e quad ms \<longleftrightarrow> distinct (map dest ms) \<and>
     (\<forall>mv\<in>set ms. x64_cls quad (dest mv) \<noteq> None \<and> slot_in_frame (x64_target e) (dest mv) \<and>
        (if IsConstant (src mv) then x64_const_ok e quad (dest mv) (src mv) else x64_cls quad (src mv) = x64_cls quad (dest mv)))"

definition x64_source_val :: "X64 \<Rightarrow> (nat \<Rightarrow> bool) \<Rightarrow> Machine \<Rightarrow> MoveOperands \<Rightarrow> u64 \<times> u64" where
  "x64_source_val e quad m mv =
     (if IsConstant (src mv) then x64_const_val e quad (dest mv) (src mv) else x64_val quad m (src mv))"

text \<open>
  C3. The code the resolver emits on x64 performs the moves at once.  For moves with distinct destinations, each
  from a constant or a location of the same class, \<open>EmitNativeCode\<close> returns code (its assertions hold and its
  recursion ends) that runs to its end, after which every destination holds what its source held before the first
  instruction, every other register and slot that can hold a value is unchanged, and the stack is balanced.
\<close>

theorem EmitNativeCode_x64_correct:
  assumes "x64_parallel_ok e quad ms" "x64_ready e m"
  shows "\<exists>is m'. EmitNativeCode (x64_target e) ms = Some is \<and> run is m = Some m' \<and> spilled m' = [] \<and>
    (\<forall>mv\<in>set ms. x64_val quad m' (dest mv) = x64_source_val e quad m mv) \<and>
    (\<forall>l. x64_cls quad l \<noteq> None \<and> l \<notin> dest ` set ms \<longrightarrow> x64_val quad m' l = x64_val quad m l)"
  using x64.EmitNativeCode_delivers [of e quad ms m] assms
  unfolding x64.parallel_ok_def x64.source_val_def x64_parallel_ok_def x64_source_val_def x64_ready_def by blast

definition sample_x64 :: X64 where
  "sample_x64 = \<lparr>intrinsic_mode = False, constant_pool_allowed = True, CanLoadFromThread = (\<lambda>_. None), FindObject = (\<lambda>_. 7),
     FindImmediate = (\<lambda>_. 0), address = (\<lambda>_. 0x1001),
     constant_instruction = (\<lambda>_. \<lparr>representation = kTagged, object = HeapObject 0, int64_value = 0, double_bits = Some 0x3FF0000000000000\<rparr>),
     first_local = -1, param_end = 1, stack_size = 8\<rparr>"

definition sample_machine :: Machine where
  "sample_machine = \<lparr>cpu = (\<lambda>r. of_nat r), xmm = (\<lambda>x. (of_nat x, 0)), slots = (\<lambda>_. (42, 0)), spilled = [],
     thread_word = (\<lambda>_. 0), pool_word = (\<lambda>_. 0x1001), double_field = (\<lambda>_. 0x3FF0000000000000)\<rparr>"

definition sample_moves :: "MoveOperands list" where
  "sample_moves =
     [\<lparr>dest = Register 0, src = Register 1\<rparr>, \<lparr>dest = StackSlot RBP (-2), src = Register 0\<rparr>,
      \<lparr>dest = Register 1, src = StackSlot RBP (-2)\<rparr>, \<lparr>dest = FpuRegister 3, src = Constant 0\<rparr>]"

theorem EmitNativeCode_x64_correct_witness:
  "\<exists>is m'. EmitNativeCode (x64_target sample_x64) sample_moves = Some is \<and> run is sample_machine = Some m' \<and>
     cpu m' 0 = 1 \<and> fst (slots m' (StackSlot RBP (-2))) = 0 \<and> cpu m' 1 = 42 \<and> fst (xmm m' 3) = 0x3FF0000000000000 \<and> cpu m' 2 = 2"
proof -
  have ok: "x64_parallel_ok sample_x64 (\<lambda>_. False) sample_moves"
    by (simp add: x64_parallel_ok_def sample_moves_def x64_cls_def slot_in_frame_def x64_target_def sample_x64_def
        VariableIndexForFrameSlot_def x64_const_ok_def constant_of_def is_float_location_def loadable_def Let_def)
  have ready: "x64_ready sample_x64 sample_machine"
    by (simp add: x64_ready_def constants_present_def sample_x64_def sample_machine_def raw_object_def Let_def)
  from EmitNativeCode_x64_correct [OF ok ready]
  obtain "is" m' where r: "EmitNativeCode (x64_target sample_x64) sample_moves = Some is" "run is sample_machine = Some m'"
    and v: "\<forall>mv\<in>set sample_moves. x64_val (\<lambda>_. False) m' (dest mv) = x64_source_val sample_x64 (\<lambda>_. False) sample_machine mv"
    and k: "\<forall>l. x64_cls (\<lambda>_. False) l \<noteq> None \<and> l \<notin> dest ` set sample_moves \<longrightarrow>
      x64_val (\<lambda>_. False) m' l = x64_val (\<lambda>_. False) sample_machine l"
    by blast
  have "cpu m' 0 = 1" "fst (slots m' (StackSlot RBP (-2))) = 0" "cpu m' 1 = 42" "fst (xmm m' 3) = 0x3FF0000000000000"
    using v by (simp_all add: sample_moves_def x64_val_def x64_source_val_def x64_const_val_def constant_of_def
        is_float_location_def sample_x64_def sample_machine_def Let_def)
  moreover have "cpu m' 2 = 2"
    using k [rule_format, of "Register 2"] by (simp add: sample_moves_def x64_cls_def x64_val_def sample_machine_def)
  ultimately show ?thesis using r by blast
qed

text \<open>
  C40. The hypothesis that keeps widths apart is needed.  When a 128-bit value goes from XMM0 to XMM1 while a double goes
  from XMM1 to a stack slot and another from that slot to XMM0, the swaps through the slot are 64 bits wide and XMM1
  ends with the upper half of its value lost.  Listed in another order, the same moves are compiled correctly.
\<close>

theorem mixed_width_cycle_truncates:
  "(\<exists>is m'. EmitNativeCode (x64_target e)
       [\<lparr>dest = FpuRegister 1, src = FpuRegister 0\<rparr>, \<lparr>dest = DoubleStackSlot RBP i, src = FpuRegister 1\<rparr>,
        \<lparr>dest = FpuRegister 0, src = DoubleStackSlot RBP i\<rparr>] = Some is \<and>
     run is m = Some m' \<and> xmm m' 1 = (fst (xmm m 0), 0)) \<and>
   (\<exists>is m'. EmitNativeCode (x64_target e)
       [\<lparr>dest = DoubleStackSlot RBP i, src = FpuRegister 1\<rparr>, \<lparr>dest = FpuRegister 0, src = DoubleStackSlot RBP i\<rparr>,
        \<lparr>dest = FpuRegister 1, src = FpuRegister 0\<rparr>] = Some is \<and>
     run is m = Some m' \<and> xmm m' 1 = xmm m 0)"
  by (simp add: EmitNativeCode_def BuildInitialMoveList_def numeral_eq_Suc read_at_def MarkPending_def ClearPending_def
      operands_ok_def EmitSwap_def x64_target_def swap_fpu_slot_def machine_defs Eliminate_def)
end
