(* ===== verification/Thread_Pool.thy ===== *)
theory Thread_Pool
  imports VM_Prelude "HOL-Library.Sublist"
begin

text \<open>
  The thread pool of \<^verbatim>\<open>runtime/vm/thread_pool.cc\<close>, with the idle hook of the pool that runs isolates
  (\<^verbatim>\<open>MutatorThreadPool\<close> in \<^verbatim>\<open>isolate.cc\<close>).  Every critical section of the pool monitor is one
  operation on the state of the pool; the step relation interleaves them with the threads that leave the monitor to
  run a task, to wait, or to join workers that have died, and with the thread that shuts the pool down and waits on
  the exit monitor.
\<close>

section \<open>State\<close>

text \<open>
  Where the thread of a worker is.  The worker is created before its thread is started; \<open>Woken\<close> has returned from waiting with a
  result (timed out or not) and re-enters the monitor; the hook \<open>OnEnterIdleLocked\<close> may notify the isolate group
  outside the monitor (\<open>IdleHook\<close>) or wait itself; \<open>Exiting\<close> joins the workers listed.
\<close>

datatype WorkerState =
  NotStarted
| LoopHead
| RunningTask nat
| IdleHook
| HookWaiting
| HookWoken bool
| Waiting
| Woken bool
| Exiting "nat list"
| Exited

text \<open>
  Where the thread that calls \<open>Shutdown\<close> is: before the test of \<open>all_workers_dead_\<close> under the exit monitor, waiting on the
  exit monitor, past the loop, joining the workers it has obtained, or back from the call.
\<close>

datatype ShutdownThread =
  NoShutdown
| ExitCheck
| ExitWaiting
| Leaving
| Joining "nat list"
| Returned

text \<open>
  Workers and tasks are numbered.  \<open>submitted\<close>, \<open>started\<close> and \<open>finished\<close> record the history of the tasks, \<open>joined\<close>
  the workers that have been joined and deleted, \<open>died\<close> the order in which workers died; the code has no such fields.
\<close>

record Pool =
  shutting_down :: bool
  count_running :: nat
  count_idle :: nat
  count_dead :: nat
  running_workers :: "nat list"
  idle_workers :: "nat list"
  dead_workers :: "nat list"
  pending_tasks :: nat
  tasks :: "nat list"
  all_workers_dead :: bool
  max_pool_size :: nat
  is_blocked :: "nat list"
  state :: "nat \<Rightarrow> WorkerState"
  workers_created :: nat
  submitted :: "nat list"
  started :: "nat list"
  finished :: "nat list"
  joined :: "nat list"
  shutdown_thread :: ShutdownThread
  died :: "nat \<Rightarrow> nat"
  deaths :: nat

definition ThreadPool :: "nat \<Rightarrow> Pool" where
  "ThreadPool max_size = \<lparr>shutting_down = False, count_running = 0, count_idle = 0, count_dead = 0,
     running_workers = [], idle_workers = [], dead_workers = [], pending_tasks = 0, tasks = [], all_workers_dead = False,
     max_pool_size = max_size, is_blocked = [], state = (\<lambda>_. Exited), workers_created = 0,
     submitted = [], started = [], finished = [], joined = [], shutdown_thread = NoShutdown, died = (\<lambda>_. 0), deaths = 0\<rparr>"

section \<open>The operations under the monitor\<close>

text \<open>A counter that would drop below zero, like a failing assertion, is a failure.\<close>

definition decrement :: "nat \<Rightarrow> nat option" where
  "decrement n = (if n = 0 then None else Some (n - 1))"

definition goto :: "nat \<Rightarrow> WorkerState \<Rightarrow> Pool \<Rightarrow> Pool" where
  "goto w st p = p\<lparr>state := (state p)(w := st)\<rparr>"

definition IdleToRunningLocked :: "nat \<Rightarrow> Pool \<Rightarrow> Pool option" where
  "IdleToRunningLocked w p =
     (if w \<notin> set (idle_workers p) then None
      else do {
        idle \<leftarrow> decrement (count_idle p);
        Some (p\<lparr>idle_workers := remove1 w (idle_workers p), running_workers := running_workers p @ [w],
                count_idle := idle, count_running := count_running p + 1\<rparr>) })"

definition RunningToIdleLocked :: "nat \<Rightarrow> Pool \<Rightarrow> Pool option" where
  "RunningToIdleLocked w p =
     (if tasks p \<noteq> [] \<or> w \<notin> set (running_workers p) then None
      else do {
        running \<leftarrow> decrement (count_running p);
        Some (p\<lparr>running_workers := remove1 w (running_workers p), idle_workers := idle_workers p @ [w],
                count_running := running, count_idle := count_idle p + 1\<rparr>) })"

text \<open>
  \<open>Notify\<close> on the exit monitor.  The worker sets \<open>all_workers_dead_\<close> before it enters the exit monitor to notify; the only thread
  that can act in between is the one in \<open>Shutdown\<close>, and all it can do is to find the flag set and leave its loop, which
  it may as well do after the notification.  So setting the flag and notifying are one step.
\<close>

definition exit_Notify :: "Pool \<Rightarrow> Pool" where
  "exit_Notify p = p\<lparr>shutdown_thread := (if shutdown_thread p = ExitWaiting then ExitCheck else shutdown_thread p)\<rparr>"

definition IdleToDeadLocked :: "nat \<Rightarrow> Pool \<Rightarrow> Pool option" where
  "IdleToDeadLocked w p =
     (if tasks p \<noteq> [] \<or> w \<notin> set (idle_workers p) then None
      else do {
        idle \<leftarrow> decrement (count_idle p);
        let p = p\<lparr>idle_workers := remove1 w (idle_workers p), dead_workers := dead_workers p @ [w],
                  count_idle := idle, count_dead := count_dead p + 1, died := (died p)(w := deaths p), deaths := deaths p + 1\<rparr>;
        Some (if shutting_down p \<and> running_workers p = [] \<and> idle_workers p = []
              then exit_Notify (p\<lparr>all_workers_dead := True\<rparr>) else p) })"

definition ObtainDeadWorkersLocked :: "Pool \<Rightarrow> nat list \<times> Pool" where
  "ObtainDeadWorkersLocked p = (dead_workers p, p\<lparr>dead_workers := [], count_dead := 0\<rparr>)"

definition new_worker :: "Pool \<Rightarrow> Pool" where
  "new_worker p = goto (workers_created p) NotStarted
     (p\<lparr>idle_workers := idle_workers p @ [workers_created p], count_idle := count_idle p + 1,
        workers_created := workers_created p + 1\<rparr>)"

text \<open>\<open>Notify\<close> wakes one waiting thread, the one the system picks, or does nothing when none waits.\<close>

fun waits :: "WorkerState \<Rightarrow> bool" where
  "waits Waiting \<longleftrightarrow> True" | "waits HookWaiting \<longleftrightarrow> True" | "waits _ \<longleftrightarrow> False"

fun wake :: "bool \<Rightarrow> WorkerState \<Rightarrow> WorkerState" where
  "wake timed_out Waiting = Woken timed_out"
| "wake timed_out HookWaiting = HookWoken timed_out"
| "wake timed_out st = st"

definition Notify :: "nat option \<Rightarrow> Pool \<Rightarrow> Pool" where
  "Notify pick p = (case pick of None \<Rightarrow> p | Some w \<Rightarrow> goto w (wake False (state p w)) p)"

definition NotifyAll :: "Pool \<Rightarrow> Pool" where
  "NotifyAll p = p\<lparr>state := wake False \<circ> state p\<rparr>"

definition ScheduleTaskLocked :: "nat \<Rightarrow> nat option \<Rightarrow> Pool \<Rightarrow> Pool option" where
  "ScheduleTaskLocked task pick p =
     (let p = p\<lparr>tasks := tasks p @ [task], pending_tasks := pending_tasks p + 1\<rparr> in
      if pending_tasks p \<le> count_idle p
      then if idle_workers p = [] then None else Some (Notify pick p)
      else if 0 < max_pool_size p \<and> max_pool_size p \<le> count_idle p + count_running p
      then Some (if idle_workers p \<noteq> [] then Notify pick p else p)
      else Some (new_worker p))"

definition RunImpl :: "nat \<Rightarrow> nat option \<Rightarrow> Pool \<Rightarrow> Pool option" where
  "RunImpl task pick p =
     (if shutting_down p then Some p
      else do { p \<leftarrow> ScheduleTaskLocked task pick p; Some (p\<lparr>submitted := submitted p @ [task]\<rparr>) })"

definition MarkCurrentWorkerAsBlocked :: "nat \<Rightarrow> Pool \<Rightarrow> Pool option" where
  "MarkCurrentWorkerAsBlocked w p =
     (if w \<in> set (is_blocked p) then None
      else let p = p\<lparr>is_blocked := w # is_blocked p\<rparr> in
        if max_pool_size p > 0
        then let p = p\<lparr>max_pool_size := max_pool_size p + 1\<rparr> in
          Some (if idle_workers p = [] \<and> pending_tasks p > 0 then new_worker p else p)
        else Some p)"

definition MarkCurrentWorkerAsUnBlocked :: "nat \<Rightarrow> Pool \<Rightarrow> Pool option" where
  "MarkCurrentWorkerAsUnBlocked w p =
     (if w \<in> set (is_blocked p)
      then let p = p\<lparr>is_blocked := remove1 w (is_blocked p)\<rparr> in
        if max_pool_size p > 0
        then if max_pool_size p - 1 > 0 then Some (p\<lparr>max_pool_size := max_pool_size p - 1\<rparr>) else None
        else Some p
      else Some p)"

text \<open>\<open>Shutdown\<close>, cut at the places where its thread leaves a monitor or waits to join a worker.\<close>

definition Shutdown_request :: "Pool \<Rightarrow> Pool" where
  "Shutdown_request p =
     (let p = p\<lparr>shutting_down := True, shutdown_thread := ExitCheck\<rparr> in
      if running_workers p = [] \<and> idle_workers p = [] then p\<lparr>all_workers_dead := True\<rparr> else NotifyAll p)"

definition Shutdown_wait :: "Pool \<Rightarrow> Pool" where
  "Shutdown_wait p = p\<lparr>shutdown_thread := (if all_workers_dead p then Leaving else ExitWaiting)\<rparr>"

definition Shutdown_obtain :: "Pool \<Rightarrow> Pool option" where
  "Shutdown_obtain p =
     (if count_idle p \<noteq> 0 \<or> count_running p \<noteq> 0 \<or> idle_workers p \<noteq> [] \<or> running_workers p \<noteq> [] then None
      else let (to_join, p) = ObtainDeadWorkersLocked p in Some (p\<lparr>shutdown_thread := Joining to_join\<rparr>))"

definition Shutdown_finish :: "Pool \<Rightarrow> Pool option" where
  "Shutdown_finish p =
     (if count_dead p \<noteq> 0 \<or> dead_workers p \<noteq> [] then None else Some (p\<lparr>shutdown_thread := Returned\<rparr>))"

section \<open>The loop of a worker\<close>

text \<open>\<open>WorkerLoop\<close>, cut at the places where the thread leaves the monitor.\<close>

definition die :: "nat \<Rightarrow> Pool \<Rightarrow> Pool option" where
  "die w p = do {
     let (to_join, p) = ObtainDeadWorkersLocked p;
     p \<leftarrow> IdleToDeadLocked w p;
     Some (goto w (Exiting to_join) p) }"

definition die_or_wait :: "nat \<Rightarrow> Pool \<Rightarrow> Pool option" where
  "die_or_wait w p = (if shutting_down p then die w p else Some (goto w Waiting p))"

definition after_hook :: "nat \<Rightarrow> Pool \<Rightarrow> Pool option" where
  "after_hook w p = (if tasks p \<noteq> [] then Some (goto w LoopHead p) else die_or_wait w p)"

text \<open>
  What the hook does depends on flags and on the idle time handler of the isolate group: it returns, notifies the group that
  it is idle, or waits for the idle timeout first.
\<close>

datatype Hook = HookReturns | HookNotifies | HookWaits

definition OnEnterIdleLocked :: "Hook \<Rightarrow> nat \<Rightarrow> Pool \<Rightarrow> Pool option" where
  "OnEnterIdleLocked hook w p =
     (case hook of HookReturns \<Rightarrow> after_hook w p
      | HookNotifies \<Rightarrow> Some (goto w IdleHook p)
      | HookWaits \<Rightarrow> Some (goto w HookWaiting p))"

definition after_hook_wait :: "nat \<Rightarrow> bool \<Rightarrow> bool \<Rightarrow> Pool \<Rightarrow> Pool option" where
  "after_hook_wait w timed_out should_notify p =
     (if tasks p \<noteq> [] then after_hook w p
      else if shutting_down p then after_hook w p
      else if timed_out \<and> should_notify then Some (goto w IdleHook p)
      else after_hook w p)"

definition after_drain :: "Hook \<Rightarrow> nat \<Rightarrow> Pool \<Rightarrow> Pool option" where
  "after_drain hook w p =
     (if running_workers p = [] then if tasks p \<noteq> [] then None else OnEnterIdleLocked hook w p else die_or_wait w p)"

definition drain :: "Hook \<Rightarrow> nat \<Rightarrow> Pool \<Rightarrow> Pool option" where
  "drain hook w p =
     (case tasks p of
        task # ts \<Rightarrow> do {
          pending \<leftarrow> decrement (pending_tasks p);
          Some (goto w (RunningTask task) (p\<lparr>tasks := ts, pending_tasks := pending, started := started p @ [task]\<rparr>)) }
      | [] \<Rightarrow> do { p \<leftarrow> RunningToIdleLocked w p; after_drain hook w p })"

definition loop_head :: "Hook \<Rightarrow> nat \<Rightarrow> Pool \<Rightarrow> Pool option" where
  "loop_head hook w p =
     (if tasks p \<noteq> [] then do { p \<leftarrow> IdleToRunningLocked w p; drain hook w p } else after_drain hook w p)"

definition after_wait :: "nat \<Rightarrow> bool \<Rightarrow> Pool \<Rightarrow> Pool option" where
  "after_wait w timed_out p =
     (if tasks p \<noteq> [] then Some (goto w LoopHead p)
      else if shutting_down p \<or> timed_out then die w p
      else Some (goto w Waiting p))"

section \<open>Steps\<close>

text \<open>
  The steps of the threads.  \<open>WakeUp\<close> is a timeout or a spurious wake-up, \<open>ExitWakeUp\<close> a spurious one on the exit monitor.
  \<open>JoinDead\<close> joins the first worker of an exiting worker's list and \<open>ShutdownJoin\<close> the first of the shutdown thread's list, which
  is possible once the thread of that worker has ended.  \<open>Shutdown\<close> is called by one thread at a time; the destructor calls it
  again.
\<close>

datatype Action =
  Run nat "nat option"
| StartThread nat
| EnterLoop nat Hook
| TaskDone nat Hook
| HookDone nat
| HookWaitDone nat bool
| WakeUp nat bool
| WaitDone nat
| JoinDead nat
| ThreadExit nat
| MarkBlocked nat
| MarkUnBlocked nat
| ShutdownRequest
| ShutdownWait
| ExitWakeUp
| ShutdownObtain
| ShutdownJoin
| ShutdownFinish

definition live_workers :: "Pool \<Rightarrow> nat list" where
  "live_workers p = running_workers p @ idle_workers p"

text \<open>What the callers of the pool and the system guarantee when they take a step.\<close>

fun enabled :: "Action \<Rightarrow> Pool \<Rightarrow> bool" where
  "enabled (Run task pick) p \<longleftrightarrow> task \<notin> set (submitted p) \<and>
     (case pick of Some w \<Rightarrow> w \<in> set (idle_workers p) \<and> waits (state p w)
      | None \<Rightarrow> list_all (\<lambda>w. \<not> waits (state p w)) (idle_workers p))"
| "enabled (StartThread w) p \<longleftrightarrow> state p w = NotStarted"
| "enabled (EnterLoop w hook) p \<longleftrightarrow> state p w = LoopHead"
| "enabled (TaskDone w hook) p \<longleftrightarrow> (case state p w of RunningTask _ \<Rightarrow> True | _ \<Rightarrow> False)"
| "enabled (HookDone w) p \<longleftrightarrow> state p w = IdleHook"
| "enabled (HookWaitDone w should_notify) p \<longleftrightarrow> (case state p w of HookWoken _ \<Rightarrow> True | _ \<Rightarrow> False)"
| "enabled (WakeUp w timed_out) p \<longleftrightarrow> waits (state p w)"
| "enabled (WaitDone w) p \<longleftrightarrow> (case state p w of Woken _ \<Rightarrow> True | _ \<Rightarrow> False)"
| "enabled (JoinDead w) p \<longleftrightarrow> (case state p w of Exiting (d # _) \<Rightarrow> state p d = Exited | _ \<Rightarrow> False)"
| "enabled (ThreadExit w) p \<longleftrightarrow> state p w = Exiting []"
| "enabled (MarkBlocked w) p \<longleftrightarrow> (case state p w of RunningTask _ \<Rightarrow> w \<notin> set (is_blocked p) | _ \<Rightarrow> False)"
| "enabled (MarkUnBlocked w) p \<longleftrightarrow> (case state p w of RunningTask _ \<Rightarrow> True | _ \<Rightarrow> False)"
| "enabled ShutdownRequest p \<longleftrightarrow> shutdown_thread p = NoShutdown \<or> shutdown_thread p = Returned"
| "enabled ShutdownWait p \<longleftrightarrow> shutdown_thread p = ExitCheck"
| "enabled ExitWakeUp p \<longleftrightarrow> shutdown_thread p = ExitWaiting"
| "enabled ShutdownObtain p \<longleftrightarrow> shutdown_thread p = Leaving"
| "enabled ShutdownJoin p \<longleftrightarrow> (case shutdown_thread p of Joining (d # _) \<Rightarrow> state p d = Exited | _ \<Rightarrow> False)"
| "enabled ShutdownFinish p \<longleftrightarrow> shutdown_thread p = Joining []"

fun apply_action :: "Action \<Rightarrow> Pool \<Rightarrow> Pool option" where
  "apply_action (Run task pick) p = RunImpl task pick p"
| "apply_action (StartThread w) p = Some (goto w LoopHead p)"
| "apply_action (EnterLoop w hook) p = loop_head hook w p"
| "apply_action (TaskDone w hook) p =
     (case state p w of RunningTask task \<Rightarrow> drain hook w (p\<lparr>finished := finished p @ [task]\<rparr>) | _ \<Rightarrow> None)"
| "apply_action (HookDone w) p = after_hook w p"
| "apply_action (HookWaitDone w should_notify) p =
     (case state p w of HookWoken timed_out \<Rightarrow> after_hook_wait w timed_out should_notify p | _ \<Rightarrow> None)"
| "apply_action (WakeUp w timed_out) p = Some (goto w (wake timed_out (state p w)) p)"
| "apply_action (WaitDone w) p = (case state p w of Woken timed_out \<Rightarrow> after_wait w timed_out p | _ \<Rightarrow> None)"
| "apply_action (JoinDead w) p =
     (case state p w of Exiting (d # ds) \<Rightarrow> Some (goto w (Exiting ds) (p\<lparr>joined := joined p @ [d]\<rparr>)) | _ \<Rightarrow> None)"
| "apply_action (ThreadExit w) p = Some (goto w Exited p)"
| "apply_action (MarkBlocked w) p = MarkCurrentWorkerAsBlocked w p"
| "apply_action (MarkUnBlocked w) p = MarkCurrentWorkerAsUnBlocked w p"
| "apply_action ShutdownRequest p = Some (Shutdown_request p)"
| "apply_action ShutdownWait p = Some (Shutdown_wait p)"
| "apply_action ExitWakeUp p = Some (p\<lparr>shutdown_thread := ExitCheck\<rparr>)"
| "apply_action ShutdownObtain p = Shutdown_obtain p"
| "apply_action ShutdownJoin p =
     (case shutdown_thread p of Joining (d # ds) \<Rightarrow> Some (p\<lparr>shutdown_thread := Joining ds, joined := joined p @ [d]\<rparr>) | _ \<Rightarrow> None)"
| "apply_action ShutdownFinish p = Shutdown_finish p"

inductive step :: "Action \<Rightarrow> Pool \<Rightarrow> Pool \<Rightarrow> bool" where
  step: "enabled a p \<Longrightarrow> apply_action a p = Some p' \<Longrightarrow> step a p p'"

inductive_cases step_cases: "step a p p'"
inductive_simps step_iff: "step a p p'"

inductive reachable :: "nat \<Rightarrow> Pool \<Rightarrow> bool" for max_size where
  init: "reachable max_size (ThreadPool max_size)"
| next_step: "reachable max_size p \<Longrightarrow> step a p p' \<Longrightarrow> reachable max_size p'"

section \<open>Invariant\<close>

fun is_running :: "WorkerState \<Rightarrow> bool" where
  "is_running (RunningTask _) \<longleftrightarrow> True" | "is_running _ \<longleftrightarrow> False"

fun is_gone :: "WorkerState \<Rightarrow> bool" where
  "is_gone (Exiting _) \<longleftrightarrow> True" | "is_gone Exited \<longleftrightarrow> True" | "is_gone _ \<longleftrightarrow> False"

definition is_idle :: "WorkerState \<Rightarrow> bool" where
  "is_idle st \<longleftrightarrow> \<not> is_running st \<and> \<not> is_gone st"

definition counts_ok :: "Pool \<Rightarrow> bool" where
  "counts_ok p \<longleftrightarrow> count_running p = length (running_workers p) \<and> count_idle p = length (idle_workers p) \<and>
     count_dead p = length (dead_workers p) \<and> pending_tasks p = length (tasks p)"

definition lists_ok :: "Pool \<Rightarrow> bool" where
  "lists_ok p \<longleftrightarrow> distinct (running_workers p) \<and> distinct (idle_workers p) \<and> distinct (dead_workers p) \<and>
     (\<forall>w. (w \<in> set (running_workers p) \<longleftrightarrow> is_running (state p w)) \<and> (w \<in> set (idle_workers p) \<longleftrightarrow> is_idle (state p w)) \<and>
        (w \<in> set (dead_workers p) \<longrightarrow> is_gone (state p w) \<and> w < workers_created p) \<and>
        (workers_created p \<le> w \<longrightarrow> state p w = Exited))"

text \<open>Tasks start in the order in which they were submitted, once each.\<close>

definition order_ok :: "Pool \<Rightarrow> bool" where
  "order_ok p \<longleftrightarrow> submitted p = started p @ tasks p \<and> distinct (started p @ tasks p)"

definition runs_ok :: "Pool \<Rightarrow> bool" where
  "runs_ok p \<longleftrightarrow> distinct (finished p) \<and>
     (\<forall>task. task \<in> set (started p) \<longleftrightarrow> task \<in> set (finished p) \<or> (\<exists>w. state p w = RunningTask task)) \<and>
     (\<forall>w task. state p w = RunningTask task \<longrightarrow> task \<notin> set (finished p) \<and> (\<forall>w'. state p w' = RunningTask task \<longrightarrow> w' = w))"

definition size_ok :: "nat \<Rightarrow> Pool \<Rightarrow> bool" where
  "size_ok max_size p \<longleftrightarrow> distinct (is_blocked p) \<and>
     max_pool_size p = (if max_size = 0 then 0 else max_size + length (is_blocked p))"

text \<open>
  Every pending task, up to the number of idle workers, has an idle worker of its own that is awake; there is a
  worker while there are tasks; after a shutdown request no worker waits for tasks.
\<close>

definition awake_idle :: "Pool \<Rightarrow> nat" where
  "awake_idle p = length (filter (\<lambda>w. \<not> waits (state p w)) (idle_workers p))"

definition wakeups_ok :: "Pool \<Rightarrow> bool" where
  "wakeups_ok p \<longleftrightarrow> min (length (tasks p)) (length (idle_workers p)) \<le> awake_idle p \<and>
     (tasks p \<noteq> [] \<longrightarrow> live_workers p \<noteq> []) \<and>
     (shutting_down p \<longrightarrow> (\<forall>w. state p w \<noteq> Waiting)) \<and>
     (all_workers_dead p \<longleftrightarrow> shutting_down p \<and> live_workers p = [])"

text \<open>A dead worker is in one list of workers to join, or joined, and joined only after its thread has ended.\<close>

definition joins_ok :: "Pool \<Rightarrow> bool" where
  "joins_ok p \<longleftrightarrow> distinct (joined p) \<and> (\<forall>d\<in>set (joined p). state p d = Exited \<and> d \<notin> set (dead_workers p) \<and> d < workers_created p) \<and>
     (\<forall>w ds. state p w = Exiting ds \<longrightarrow> distinct ds \<and>
        (\<forall>d\<in>set ds. is_gone (state p d) \<and> d < workers_created p \<and> d \<notin> set (dead_workers p) \<and> d \<notin> set (joined p) \<and>
           (\<forall>w' ds'. state p w' = Exiting ds' \<and> d \<in> set ds' \<longrightarrow> w' = w)))"

text \<open>
  A worker that has died is in a list of workers to join, or joined; whoever joins a worker died after it, so that joins cannot
  wait for each other.
\<close>

fun joining :: "ShutdownThread \<Rightarrow> nat list" where
  "joining (Joining ds) = ds" | "joining _ = []"

definition deaths_ok :: "Pool \<Rightarrow> bool" where
  "deaths_ok p \<longleftrightarrow> distinct (joining (shutdown_thread p)) \<and>
     (\<forall>d\<in>set (joining (shutdown_thread p)). is_gone (state p d) \<and> d < workers_created p \<and> d \<notin> set (dead_workers p) \<and>
        d \<notin> set (joined p) \<and> (\<forall>w ds. state p w = Exiting ds \<longrightarrow> d \<notin> set ds)) \<and>
     (\<forall>w<workers_created p. is_gone (state p w) \<longrightarrow> died p w < deaths p \<and>
        (w \<in> set (dead_workers p) \<or> w \<in> set (joined p) \<or> w \<in> set (joining (shutdown_thread p)) \<or>
         (\<exists>v ds. state p v = Exiting ds \<and> w \<in> set ds))) \<and>
     (\<forall>w ds d. state p w = Exiting ds \<and> d \<in> set ds \<longrightarrow> died p d < died p w)"

text \<open>The thread in \<open>Shutdown\<close> does not sleep once all workers are dead, and does not leave its loop before.\<close>

fun past_wait :: "ShutdownThread \<Rightarrow> bool" where
  "past_wait Leaving \<longleftrightarrow> True" | "past_wait (Joining ds) \<longleftrightarrow> True" | "past_wait Returned \<longleftrightarrow> True" | "past_wait _ \<longleftrightarrow> False"

definition shutdown_ok :: "Pool \<Rightarrow> bool" where
  "shutdown_ok p \<longleftrightarrow> (shutting_down p \<longleftrightarrow> shutdown_thread p \<noteq> NoShutdown) \<and>
     (all_workers_dead p \<longrightarrow> shutdown_thread p \<noteq> ExitWaiting) \<and>
     (past_wait (shutdown_thread p) \<longrightarrow> all_workers_dead p) \<and>
     (past_wait (shutdown_thread p) \<and> shutdown_thread p \<noteq> Leaving \<longrightarrow> dead_workers p = [])"

definition core_inv :: "nat \<Rightarrow> Pool \<Rightarrow> bool" where
  "core_inv max_size p \<longleftrightarrow> counts_ok p \<and> lists_ok p \<and> order_ok p \<and> runs_ok p \<and> size_ok max_size p \<and> joins_ok p \<and> deaths_ok p"

definition pool_inv :: "nat \<Rightarrow> Pool \<Rightarrow> bool" where
  "pool_inv max_size p \<longleftrightarrow> core_inv max_size p \<and> wakeups_ok p \<and> shutdown_ok p"

lemma is_idle_simps [simp]:
  "is_idle NotStarted" "is_idle LoopHead" "is_idle IdleHook" "is_idle HookWaiting" "is_idle (HookWoken b)" "is_idle Waiting"
  "is_idle (Woken b)" "\<not> is_idle (RunningTask task)" "\<not> is_idle (Exiting ds)" "\<not> is_idle Exited"
  by (simp_all add: is_idle_def)

lemma wake_simps [simp]:
  "is_running (wake b st) = is_running st" "is_gone (wake b st) = is_gone st" "is_idle (wake b st) = is_idle st"
  "wake b st = RunningTask task \<longleftrightarrow> st = RunningTask task" "wake b st = Exiting ds \<longleftrightarrow> st = Exiting ds"
  "wake b st = Exited \<longleftrightarrow> st = Exited" "\<not> waits (wake b st)" "wake b st \<noteq> Waiting"
  by (cases st; simp add: is_idle_def)+

lemma waits_idle: "waits st \<Longrightarrow> is_idle st"
  by (cases st) simp_all

lemma waits_iff: "waits st \<longleftrightarrow> st = Waiting \<or> st = HookWaiting"
  by (cases st) simp_all

lemma goto_simps [simp]:
  "state (goto w st p) = (state p)(w := st)" "shutting_down (goto w st p) = shutting_down p"
  "count_running (goto w st p) = count_running p" "count_idle (goto w st p) = count_idle p" "count_dead (goto w st p) = count_dead p"
  "running_workers (goto w st p) = running_workers p" "idle_workers (goto w st p) = idle_workers p"
  "dead_workers (goto w st p) = dead_workers p" "pending_tasks (goto w st p) = pending_tasks p" "tasks (goto w st p) = tasks p"
  "all_workers_dead (goto w st p) = all_workers_dead p" "max_pool_size (goto w st p) = max_pool_size p"
  "is_blocked (goto w st p) = is_blocked p" "workers_created (goto w st p) = workers_created p"
  "submitted (goto w st p) = submitted p" "started (goto w st p) = started p" "finished (goto w st p) = finished p"
  "joined (goto w st p) = joined p" "shutdown_thread (goto w st p) = shutdown_thread p" "died (goto w st p) = died p"
  "deaths (goto w st p) = deaths p"
  by (simp_all add: goto_def)

lemma ThreadPool_inv: "pool_inv max_size (ThreadPool max_size)"
  by (simp add: pool_inv_def core_inv_def ThreadPool_def counts_ok_def lists_ok_def order_ok_def runs_ok_def size_ok_def wakeups_ok_def joins_ok_def
      deaths_ok_def shutdown_ok_def live_workers_def awake_idle_def)

lemmas pool_inv_defs = pool_inv_def core_inv_def counts_ok_def lists_ok_def order_ok_def runs_ok_def size_ok_def wakeups_ok_def joins_ok_def deaths_ok_def
  shutdown_ok_def live_workers_def

lemma runs_ok_cong:
  assumes "started p' = started p" "finished p' = finished p"
    and "\<And>w task. state p' w = RunningTask task \<longleftrightarrow> state p w = RunningTask task"
  shows "runs_ok p' = runs_ok p"
  using assms by (simp add: runs_ok_def)

lemma joins_ok_cong:
  assumes "joined p' = joined p" "dead_workers p' = dead_workers p" "workers_created p \<le> workers_created p'"
    and ex: "\<And>w ds. state p' w = Exiting ds \<Longrightarrow> state p w = Exiting ds"
    and kept: "\<And>w. w < workers_created p \<Longrightarrow> state p w = Exited \<Longrightarrow> state p' w = Exited"
      "\<And>w. w < workers_created p \<Longrightarrow> is_gone (state p w) \<Longrightarrow> is_gone (state p' w)"
    and j: "joins_ok p"
  shows "joins_ok p'"
proof -
  have e: "distinct ds" "d \<in> set ds \<Longrightarrow> is_gone (state p d) \<and> d < workers_created p \<and> d \<notin> set (dead_workers p) \<and> d \<notin> set (joined p)"
      "d \<in> set ds \<Longrightarrow> state p w' = Exiting ds' \<Longrightarrow> d \<in> set ds' \<Longrightarrow> w' = w" if "state p w = Exiting ds" for w ds d w' ds'
    using j that unfolding joins_ok_def by blast+
  have f: "distinct (joined p)" "d \<in> set (joined p) \<Longrightarrow> state p d = Exited \<and> d \<notin> set (dead_workers p) \<and> d < workers_created p" for d
    using j unfolding joins_ok_def by blast+
  show ?thesis
    unfolding joins_ok_def assms(1,2)
  proof (intro conjI allI impI ballI)
    fix d assume "d \<in> set (joined p)"
    then show "state p' d = Exited" "d \<notin> set (dead_workers p)" "d < workers_created p'" using f(2) kept(1) assms(3) by (blast intro: less_le_trans)+
  next
    fix w ds d assume w: "state p' w = Exiting ds" and d: "d \<in> set ds"
    note e = e [OF ex [OF w]]
    show "is_gone (state p' d)" "d < workers_created p'" "d \<notin> set (dead_workers p)" "d \<notin> set (joined p)"
      using e(2) [OF d] kept(2) assms(3) by (blast intro: less_le_trans)+
    fix w' ds' assume "state p' w' = Exiting ds' \<and> d \<in> set ds'"
    then show "w' = w" using e(3) [OF d] ex by blast
  qed (rule f(1), use e(1) ex in blast)
qed

lemma deaths_ok_cong:
  assumes same: "joined p' = joined p" "dead_workers p' = dead_workers p" "shutdown_thread p' = shutdown_thread p" "died p' = died p"
      "deaths p' = deaths p" "workers_created p \<le> workers_created p'"
    and ex: "\<And>w ds. state p' w = Exiting ds \<Longrightarrow> state p w = Exiting ds"
      "\<And>w ds. state p w = Exiting ds \<Longrightarrow> ds \<noteq> [] \<Longrightarrow> state p' w = Exiting ds"
    and gone: "\<And>w. w < workers_created p \<Longrightarrow> is_gone (state p w) \<Longrightarrow> is_gone (state p' w)"
      "\<And>w. w < workers_created p' \<Longrightarrow> is_gone (state p' w) \<Longrightarrow> w < workers_created p \<and> is_gone (state p w)"
    and d: "deaths_ok p"
  shows "deaths_ok p'"
proof -
  let ?js = "joining (shutdown_thread p)"
  have j: "distinct ?js" "d \<in> set ?js \<Longrightarrow> is_gone (state p d) \<and> d < workers_created p \<and> d \<notin> set (dead_workers p) \<and> d \<notin> set (joined p)"
      "d \<in> set ?js \<Longrightarrow> state p w = Exiting ds \<Longrightarrow> d \<notin> set ds" for d w ds
    using d unfolding deaths_ok_def by blast+
  have g: "died p w < deaths p" "w \<in> set (dead_workers p) \<or> w \<in> set (joined p) \<or> w \<in> set ?js \<or> (\<exists>v ds. state p v = Exiting ds \<and> w \<in> set ds)"
    if "w < workers_created p" "is_gone (state p w)" for w
    using d that unfolding deaths_ok_def by blast+
  have o: "died p d < died p w" if "state p w = Exiting ds" "d \<in> set ds" for w ds d
    using d that unfolding deaths_ok_def by blast
  show ?thesis
    unfolding deaths_ok_def same(1-5)
  proof (intro conjI allI impI ballI)
    fix d assume dj: "d \<in> set ?js"
    then show "is_gone (state p' d)" "d < workers_created p'" "d \<notin> set (dead_workers p)" "d \<notin> set (joined p)"
      using j(2) [of d] gone(1) same(6) by auto
    show "d \<notin> set ds" if "state p' w = Exiting ds" for w ds by (rule j(3) [OF dj ex(1) [OF that]])
  next
    fix w assume "w < workers_created p'" "is_gone (state p' w)"
    then have w: "w < workers_created p" "is_gone (state p w)" using gone(2) by blast+
    show "died p w < deaths p" by (rule g(1) [OF w])
    show "w \<in> set (dead_workers p) \<or> w \<in> set (joined p) \<or> w \<in> set ?js \<or> (\<exists>v ds. state p' v = Exiting ds \<and> w \<in> set ds)"
      using g(2) [OF w] ex(2) by (metis empty_iff empty_set)
  next
    fix w ds d assume "state p' w = Exiting ds \<and> d \<in> set ds"
    then show "died p d < died p w" using o ex(1) by blast
  qed (rule j(1))
qed

lemma shutdown_ok_same [simp]:
  "shutdown_ok (goto w st p) = shutdown_ok p" "shutdown_ok (new_worker p) = shutdown_ok p" "shutdown_ok (Notify pick p) = shutdown_ok p"
  by (simp_all add: shutdown_ok_def new_worker_def Notify_def split: option.split)

text \<open>Moving an idle worker between idle states keeps the invariant unless it falls asleep on pending tasks.\<close>

lemma awake_idle_goto:
  assumes "w \<in> set (idle_workers p)" "distinct (idle_workers p)"
  shows "awake_idle (goto w st p) + (if waits (state p w) then 0 else 1) = awake_idle p + (if waits st then 0 else 1)"
proof -
  obtain xs ys where x: "idle_workers p = xs @ w # ys" "w \<notin> set xs" "w \<notin> set ys"
    using assms by (metis split_list distinct_append distinct.simps(2) not_distinct_conv_prefix disjoint_iff list.set_intros(1))
  have "filter (\<lambda>v. \<not> waits (((state p)(w := st)) v)) zs = filter (\<lambda>v. \<not> waits (state p v)) zs" if "w \<notin> set zs" for zs
    using that by (intro filter_cong) auto
  then show ?thesis using x by (simp add: awake_idle_def)
qed

lemma goto_idle_core:
  assumes p: "core_inv max_size p" and w: "is_idle (state p w)" "is_idle st"
  shows "core_inv max_size (goto w st p)"
proof -
  have "\<not> is_running st" "\<not> is_gone st" "\<not> is_running (state p w)" "\<not> is_gone (state p w)"
    using w by (auto simp: is_idle_def)
  then have same: "state (goto w st p) v = RunningTask task \<longleftrightarrow> state p v = RunningTask task"
      "state (goto w st p) v = Exiting ds \<longleftrightarrow> state p v = Exiting ds" "state (goto w st p) v = Exited \<longleftrightarrow> state p v = Exited"
      "is_gone (state (goto w st p) v) \<longleftrightarrow> is_gone (state p v)" "is_running (state (goto w st p) v) \<longleftrightarrow> is_running (state p v)"
      "is_idle (state (goto w st p) v) \<longleftrightarrow> is_idle (state p v)" for v task ds
    using w by auto
  have "joins_ok (goto w st p)"
    by (rule joins_ok_cong [of "goto w st p" p]) (use p same in \<open>simp_all only: goto_simps(2-) core_inv_def order_refl\<close>)
  moreover have "deaths_ok (goto w st p)"
    by (rule deaths_ok_cong [of "goto w st p" p]) (use p same in \<open>simp_all only: goto_simps(2-) core_inv_def order_refl simp_thms\<close>)
  moreover have "runs_ok (goto w st p)"
    by (subst runs_ok_cong [of "goto w st p" p]) (use p same in \<open>simp_all only: goto_simps(2-) core_inv_def\<close>)
  moreover have "lists_ok (goto w st p)"
    using p unfolding core_inv_def lists_ok_def same by simp
  ultimately show ?thesis using p by (simp add: core_inv_def counts_ok_def order_ok_def size_ok_def)
qed

lemma goto_idle_inv:
  assumes p: "pool_inv max_size p" and w: "is_idle (state p w)" "is_idle st"
    and sleep: "waits st \<Longrightarrow> tasks p = []" and down: "st = Waiting \<Longrightarrow> \<not> shutting_down p"
  shows "pool_inv max_size (goto w st p)"
proof -
  have mem: "w \<in> set (idle_workers p)" and d: "distinct (idle_workers p)" using p w by (auto simp: pool_inv_defs)
  have "wakeups_ok (goto w st p)"
    using p awake_idle_goto [OF mem d, of st] sleep down by (auto simp: pool_inv_def wakeups_ok_def live_workers_def split: if_splits)
  then show ?thesis using p goto_idle_core [OF _ w] by (simp add: pool_inv_def)
qed

lemma new_worker_core:
  assumes "core_inv max_size p"
  shows "core_inv max_size (new_worker p)"
proof -
  have w: "state p (workers_created p) = Exited" "workers_created p \<notin> set (idle_workers p)"
    using assms by (auto simp: core_inv_def lists_ok_def)
  have same: "state (new_worker p) v = RunningTask task \<longleftrightarrow> state p v = RunningTask task"
      "state (new_worker p) v = Exiting ds \<longleftrightarrow> state p v = Exiting ds" for v task ds
    using w by (auto simp: new_worker_def)
  have "joins_ok (new_worker p)"
    by (rule joins_ok_cong [of "new_worker p" p]) (use assms same in \<open>simp_all add: new_worker_def core_inv_def\<close>)
  moreover have "deaths_ok (new_worker p)"
    by (rule deaths_ok_cong [of "new_worker p" p])
      (use assms same in \<open>auto simp: new_worker_def core_inv_def less_Suc_eq split: if_splits\<close>)
  moreover have "runs_ok (new_worker p)"
    by (subst runs_ok_cong [of "new_worker p" p]) (use assms same in \<open>simp_all add: new_worker_def core_inv_def\<close>)
  moreover have "lists_ok (new_worker p)"
    using assms w by (auto simp: core_inv_def lists_ok_def new_worker_def)
  ultimately show ?thesis using assms by (simp add: core_inv_def counts_ok_def order_ok_def size_ok_def new_worker_def)
qed

lemma new_worker_awake:
  assumes "core_inv max_size p"
  shows "awake_idle (new_worker p) = awake_idle p + 1" "length (idle_workers (new_worker p)) = length (idle_workers p) + 1"
proof -
  have "workers_created p \<notin> set (idle_workers p)" using assms by (auto simp: core_inv_def lists_ok_def)
  then have "filter (\<lambda>v. \<not> waits (((state p)(workers_created p := NotStarted)) v)) (idle_workers p) =
      filter (\<lambda>v. \<not> waits (state p v)) (idle_workers p)"
    by (intro filter_cong) auto
  then show "awake_idle (new_worker p) = awake_idle p + 1" "length (idle_workers (new_worker p)) = length (idle_workers p) + 1"
    by (simp_all add: awake_idle_def new_worker_def)
qed

lemma new_worker_wakeups:
  assumes p: "core_inv max_size p" and "min (length (tasks p)) (Suc (length (idle_workers p))) \<le> Suc (awake_idle p)"
    and "shutting_down p \<longrightarrow> (\<forall>w. state p w \<noteq> Waiting)" "\<not> (all_workers_dead p)"
  shows "wakeups_ok (new_worker p)"
  using assms new_worker_awake [OF p] by (auto simp: wakeups_ok_def live_workers_def) (auto simp: new_worker_def split: if_splits)

lemma RunImpl_inv:
  assumes p: "pool_inv max_size p" and en: "enabled (Run task pick) p"
  shows "\<exists>p'. RunImpl task pick p = Some p' \<and> pool_inv max_size p'"
proof (cases "shutting_down p")
  case True
  then show ?thesis using p by (simp add: RunImpl_def)
next
  case up: False
  define q where "q = p\<lparr>tasks := tasks p @ [task], pending_tasks := pending_tasks p + 1, submitted := submitted p @ [task]\<rparr>"
  have "lists_ok q = lists_ok p" "runs_ok q = runs_ok p" "size_ok max_size q = size_ok max_size p" "joins_ok q = joins_ok p"
      "deaths_ok q = deaths_ok p"
    by (simp_all add: q_def lists_ok_def runs_ok_def size_ok_def joins_ok_def deaths_ok_def)
  then have core: "core_inv max_size q"
    using p en by (simp add: core_inv_def pool_inv_def counts_ok_def order_ok_def) (simp add: q_def)
  have cnt: "count_idle p = length (idle_workers p)" "count_running p = length (running_workers p)" "pending_tasks p = length (tasks p)"
    and d: "distinct (idle_workers p)"
    using p by (simp_all add: pool_inv_def core_inv_def counts_ok_def lists_ok_def)
  have wk: "min (length (tasks p)) (length (idle_workers p)) \<le> awake_idle p" "\<not> all_workers_dead p" "max_pool_size q = max_pool_size p"
    using p up by (simp_all add: pool_inv_def wakeups_ok_def q_def)
  have aw: "awake_idle q = awake_idle p" by (simp add: awake_idle_def q_def)
  have so: "shutdown_ok q" using p by (simp add: pool_inv_def shutdown_ok_def q_def)
  have push: "Notify pick (p\<lparr>tasks := ts, pending_tasks := n\<rparr>)\<lparr>submitted := s\<rparr> = Notify pick (p\<lparr>tasks := ts, pending_tasks := n, submitted := s\<rparr>)"
      "new_worker (p\<lparr>tasks := ts, pending_tasks := n\<rparr>)\<lparr>submitted := s\<rparr> = new_worker (p\<lparr>tasks := ts, pending_tasks := n, submitted := s\<rparr>)" for ts n s
    by (simp_all add: Notify_def new_worker_def goto_def split: option.split)
  have same: "submitted (Notify pick r) = submitted r" "submitted (new_worker r) = submitted r" for r
    by (simp_all add: Notify_def new_worker_def split: option.split)
  have notify: "pool_inv max_size (Notify pick q)" if ne: "idle_workers p \<noteq> []"
  proof (cases pick)
    case None
    then have "awake_idle p = length (idle_workers p)" using en by (auto simp: awake_idle_def list_all_iff filter_id_conv [THEN iffD2])
    then have "wakeups_ok q" using up wk aw ne by (auto simp: wakeups_ok_def live_workers_def q_def)
    then show ?thesis using core None so by (simp add: Notify_def pool_inv_def)
  next
    case (Some w)
    then have w: "w \<in> set (idle_workers q)" "waits (state q w)" "is_idle (state q w)" using en waits_idle by (auto simp: q_def)
    have "awake_idle (goto w (wake False (state q w)) q) = awake_idle q + 1"
      using awake_idle_goto [OF w(1), of "wake False (state q w)"] w(2) d by (simp add: q_def)
    then have "wakeups_ok (Notify pick q)"
      using Some up wk aw ne by (auto simp: Notify_def wakeups_ok_def live_workers_def q_def)
    then show ?thesis using goto_idle_core [OF core w(3), of "wake False (state q w)"] w(3) Some so by (simp add: pool_inv_def Notify_def)
  qed
  have new: "pool_inv max_size (new_worker q)"
    using new_worker_core [OF core] new_worker_wakeups [OF core] wk up aw so by (auto simp: pool_inv_def q_def)
  have full: "pool_inv max_size q" if "idle_workers p = []" "0 < max_pool_size p" "max_pool_size p \<le> length (running_workers p)"
  proof -
    have "wakeups_ok q" using that up wk by (auto simp: wakeups_ok_def live_workers_def q_def)
    then show ?thesis using core so by (simp add: pool_inv_def)
  qed
  show ?thesis
    using up cnt notify new full
    by (auto simp: RunImpl_def ScheduleTaskLocked_def Let_def push same q_def)
qed

lemma die_deaths:
  assumes core: "core_inv max_size p" and w: "w < workers_created p" "\<not> is_gone (state p w)"
    and q: "joining (shutdown_thread q) = joining (shutdown_thread p)" "dead_workers q = [w]" "joined q = joined p"
      "workers_created q = workers_created p" "died q = (died p)(w := deaths p)" "deaths q = Suc (deaths p)"
      "state q = (state p)(w := Exiting (dead_workers p))"
  shows "deaths_ok q"
proof -
  have li: "lists_ok p" and jo: "joins_ok p" and de: "deaths_ok p" using core by (simp_all add: core_inv_def)
  let ?js = "joining (shutdown_thread p)"
  have j: "distinct ?js" "d \<in> set ?js \<Longrightarrow> is_gone (state p d) \<and> d < workers_created p \<and> d \<notin> set (dead_workers p) \<and> d \<notin> set (joined p)"
      "d \<in> set ?js \<Longrightarrow> state p v = Exiting ds \<Longrightarrow> d \<notin> set ds" for d v ds
    using de unfolding deaths_ok_def by blast+
  have g: "died p v < deaths p" "v \<in> set (dead_workers p) \<or> v \<in> set (joined p) \<or> v \<in> set ?js \<or> (\<exists>u ds. state p u = Exiting ds \<and> v \<in> set ds)"
    if "v < workers_created p" "is_gone (state p v)" for v
    using de that unfolding deaths_ok_def by blast+
  have o: "died p d < died p v" "is_gone (state p d)" if "state p v = Exiting ds" "d \<in> set ds" for v ds d
    using de jo that unfolding deaths_ok_def joins_ok_def by blast+
  have dd: "is_gone (state p d) \<and> d < workers_created p" if "d \<in> set (dead_workers p)" for d using li that by (simp add: lists_ok_def)
  show ?thesis
    unfolding deaths_ok_def q
  proof (intro conjI allI impI ballI)
    fix d assume dj: "d \<in> set ?js"
    then show "is_gone (((state p)(w := Exiting (dead_workers p))) d)" "d < workers_created p" "d \<notin> set [w]" "d \<notin> set (joined p)"
      using j(2) [OF dj] w by auto
    show "d \<notin> set ds" if "((state p)(w := Exiting (dead_workers p))) v = Exiting ds" for v ds
      using j(2) [OF dj] j(3) [OF dj, of v ds] that by (auto split: if_splits)
  next
    fix v assume v: "v < workers_created p" "is_gone (((state p)(w := Exiting (dead_workers p))) v)"
    show "((died p)(w := deaths p)) v < Suc (deaths p)" using g(1) [of v] v by (auto split: if_splits intro: less_SucI)
    show "v \<in> set [w] \<or> v \<in> set (joined p) \<or> v \<in> set ?js \<or> (\<exists>u ds. ((state p)(w := Exiting (dead_workers p))) u = Exiting ds \<and> v \<in> set ds)"
    proof (cases "v = w")
      case False
      then consider "v \<in> set (dead_workers p)" | "v \<in> set (joined p)" | "v \<in> set ?js" | u ds where "state p u = Exiting ds" "v \<in> set ds"
        using g(2) [of v] v by auto
      then show ?thesis
      proof cases
        case (4 u ds)
        then have "u \<noteq> w" using w(2) by auto
        then show ?thesis using 4 by auto
      qed auto
    qed simp
  next
    fix v ds d assume a: "((state p)(w := Exiting (dead_workers p))) v = Exiting ds \<and> d \<in> set ds"
    show "((died p)(w := deaths p)) d < ((died p)(w := deaths p)) v"
    proof (cases "v = w")
      case True
      then have "d \<in> set (dead_workers p)" using a by simp
      then show ?thesis using True dd [of d] g(1) [of d] w(2) by auto
    next
      case False
      then have "state p v = Exiting ds" "d \<in> set ds" using a by auto
      then show ?thesis using False o w(2) by fastforce
    qed
  qed (rule j(1))
qed

lemma die_inv:
  assumes p: "pool_inv max_size p" and w: "is_idle (state p w)" and t: "tasks p = []"
  shows "\<exists>p'. die w p = Some p' \<and> pool_inv max_size p'"
proof -
  define p' where "p' = goto w (Exiting (dead_workers p)) (p\<lparr>dead_workers := [w], count_dead := 1,
    idle_workers := remove1 w (idle_workers p), count_idle := count_idle p - 1,
    died := (died p)(w := deaths p), deaths := deaths p + 1,
    all_workers_dead := (all_workers_dead p \<or> shutting_down p \<and> running_workers p = [] \<and> remove1 w (idle_workers p) = []),
    shutdown_thread := (if shutting_down p \<and> running_workers p = [] \<and> remove1 w (idle_workers p) = [] \<and> shutdown_thread p = ExitWaiting
      then ExitCheck else shutdown_thread p)\<rparr>)"
  have core: "core_inv max_size p" and wk: "wakeups_ok p" using p by (simp_all add: pool_inv_def)
  have li: "lists_ok p" using core by (simp add: core_inv_def)
  have mem: "w \<in> set (idle_workers p)" and d: "distinct (idle_workers p)" and cr: "w < workers_created p"
    using li w by (auto simp: lists_ok_def) (metis is_idle_simps(10) not_le)
  have ne: "\<not> is_running (state p w)" "\<not> is_gone (state p w)" using w by (auto simp: is_idle_def)
  have "die w p = Some p'"
    using mem t core by (auto simp: die_def ObtainDeadWorkersLocked_def IdleToDeadLocked_def decrement_def p'_def core_inv_def
        counts_ok_def goto_def Let_def exit_Notify_def)
  moreover have "counts_ok p'" using core mem by (simp add: core_inv_def counts_ok_def p'_def length_remove1)
  moreover have "lists_ok p'"
    using li ne w cr d unfolding lists_ok_def p'_def by auto
  moreover have "runs_ok p'"
    by (subst runs_ok_cong [of p' p]) (use core ne in \<open>auto simp: p'_def core_inv_def\<close>)
  moreover have "joins_ok p'"
  proof -
    have j: "joins_ok p" using core by (simp add: core_inv_def)
    have g: "\<And>v. v \<in> set (dead_workers p) \<Longrightarrow> is_gone (state p v) \<and> v < workers_created p \<and> v \<noteq> w" "distinct (dead_workers p)"
      using li ne by (auto simp: lists_ok_def)
    have x: "w \<notin> set (joined p)" "\<And>v ds. state p v = Exiting ds \<Longrightarrow> w \<notin> set ds" using j ne by (force simp: joins_ok_def)+
    show ?thesis using j g x ne unfolding joins_ok_def p'_def by auto
  qed
  moreover have "deaths_ok p'"
  proof -
    have "joining (shutdown_thread p') = joining (shutdown_thread p)" "dead_workers p' = [w]" "joined p' = joined p"
        "workers_created p' = workers_created p" "died p' = (died p)(w := deaths p)" "deaths p' = Suc (deaths p)"
        "state p' = (state p)(w := Exiting (dead_workers p))"
      by (simp_all add: p'_def)
    then show ?thesis using die_deaths [OF core cr ne(2)] by simp
  qed
  moreover have "order_ok p'" "size_ok max_size p'" using core by (simp_all add: core_inv_def order_ok_def size_ok_def p'_def)
  moreover have "wakeups_ok p'" using wk t mem by (auto simp: wakeups_ok_def live_workers_def p'_def)
  moreover have "shutdown_ok p'"
  proof -
    have "\<not> all_workers_dead p" using wk mem by (auto simp: wakeups_ok_def live_workers_def)
    then have "\<not> past_wait (shutdown_thread p)" "shutting_down p \<longleftrightarrow> shutdown_thread p \<noteq> NoShutdown"
      using p by (auto simp: pool_inv_def shutdown_ok_def)
    then show ?thesis using \<open>\<not> all_workers_dead p\<close> by (auto simp: shutdown_ok_def p'_def)
  qed
  ultimately show ?thesis by (auto simp: pool_inv_def core_inv_def)
qed

lemma die_or_wait_inv:
  assumes "pool_inv max_size p" "is_idle (state p w)" "tasks p = []"
  shows "\<exists>p'. die_or_wait w p = Some p' \<and> pool_inv max_size p'"
  using die_inv [OF assms] goto_idle_inv [OF assms(1,2), of Waiting] assms(3) by (auto simp: die_or_wait_def)

lemma after_hook_inv:
  assumes "pool_inv max_size p" "is_idle (state p w)"
  shows "\<exists>p'. after_hook w p = Some p' \<and> pool_inv max_size p'"
  using die_or_wait_inv [OF assms] goto_idle_inv [OF assms, of LoopHead] by (auto simp: after_hook_def)

lemma after_drain_inv:
  assumes "pool_inv max_size p" "is_idle (state p w)" "tasks p = []"
  shows "\<exists>p'. after_drain hook w p = Some p' \<and> pool_inv max_size p'"
  using die_or_wait_inv [OF assms] after_hook_inv [OF assms(1,2)] goto_idle_inv [OF assms(1,2), of IdleHook]
    goto_idle_inv [OF assms(1,2), of HookWaiting] assms(3)
  by (auto simp: after_drain_def OnEnterIdleLocked_def split: Hook.split)

lemma after_hook_wait_inv:
  assumes "pool_inv max_size p" "is_idle (state p w)"
  shows "\<exists>p'. after_hook_wait w timed_out notify p = Some p' \<and> pool_inv max_size p'"
  using after_hook_inv [OF assms] goto_idle_inv [OF assms, of IdleHook] by (auto simp: after_hook_wait_def)

lemma after_wait_inv:
  assumes "pool_inv max_size p" "is_idle (state p w)"
  shows "\<exists>p'. after_wait w timed_out p = Some p' \<and> pool_inv max_size p'"
  using die_inv [OF assms] goto_idle_inv [OF assms, of Waiting] goto_idle_inv [OF assms, of LoopHead] by (auto simp: after_wait_def)

text \<open>The state of the worker itself does not matter to what follows a drained queue.\<close>

lemma after_drain_goto: "after_drain hook w (goto w st p) = after_drain hook w p"
proof -
  have "die w (goto w st p) = die w p"
    by (simp add: die_def ObtainDeadWorkersLocked_def IdleToDeadLocked_def exit_Notify_def goto_def Let_def split: Option.bind_split)
  then show ?thesis
    by (simp add: after_drain_def OnEnterIdleLocked_def after_hook_def die_or_wait_def split: Hook.split)
qed

lemma remove_awake:
  assumes "w \<in> set (idle_workers p)" "distinct (idle_workers p)" "\<not> waits (state p w)"
  shows "Suc (length (filter (\<lambda>v. \<not> waits (((state p)(w := st)) v)) (remove1 w (idle_workers p)))) = awake_idle p"
proof -
  obtain xs ys where x: "idle_workers p = xs @ w # ys" "w \<notin> set xs" "w \<notin> set ys"
    using assms by (metis split_list distinct_append distinct.simps(2) not_distinct_conv_prefix disjoint_iff list.set_intros(1))
  have "filter (\<lambda>v. \<not> waits (((state p)(w := st)) v)) zs = filter (\<lambda>v. \<not> waits (state p v)) zs" if "w \<notin> set zs" for zs
    using that by (intro filter_cong) auto
  then show ?thesis using x assms(3) by (simp add: awake_idle_def remove1_append)
qed

lemma runs_ok_start:
  assumes r: "runs_ok p" and n: "task \<notin> set (started p)" and u: "started p' = started p @ [task]" "finished p' = finished p"
    "\<And>v t. state p' v = RunningTask t \<longleftrightarrow> v = w \<and> t = task \<or> v \<noteq> w \<and> state p v = RunningTask t" and w: "\<not> is_running (state p w)"
  shows "runs_ok p'"
proof -
  have nw: "state p w \<noteq> RunningTask t" for t using w by auto
  have s: "\<And>t. t \<in> set (started p) \<longleftrightarrow> t \<in> set (finished p) \<or> (\<exists>v. state p v = RunningTask t)"
    and f: "\<And>v t. state p v = RunningTask t \<Longrightarrow> t \<notin> set (finished p) \<and> (\<forall>v'. state p v' = RunningTask t \<longrightarrow> v' = v)"
    and d: "distinct (finished p)" using r unfolding runs_ok_def by blast+
  have "t \<in> set (started p @ [task]) \<longleftrightarrow> t \<in> set (finished p) \<or> (\<exists>v. v = w \<and> t = task \<or> v \<noteq> w \<and> state p v = RunningTask t)" for t
    using s [of t] nw by auto
  moreover have "task \<notin> set (finished p)" "\<And>v. state p v \<noteq> RunningTask task" using n s by blast+
  ultimately show ?thesis unfolding runs_ok_def u using d f by blast
qed

lemma runs_ok_finish:
  assumes r: "runs_ok p" and w: "state p w = RunningTask task" and u: "started p' = started p" "finished p' = finished p @ [task]"
    "\<And>v t. state p' v = RunningTask t \<longleftrightarrow> v \<noteq> w \<and> state p v = RunningTask t"
  shows "runs_ok p'"
proof -
  have s: "\<And>t. t \<in> set (started p) \<longleftrightarrow> t \<in> set (finished p) \<or> (\<exists>v. state p v = RunningTask t)"
    and f: "\<And>v t. state p v = RunningTask t \<Longrightarrow> t \<notin> set (finished p) \<and> (\<forall>v'. state p v' = RunningTask t \<longrightarrow> v' = v)"
    and d: "distinct (finished p)" using r unfolding runs_ok_def by blast+
  have a: "t \<in> set (started p) \<longleftrightarrow> t \<in> set (finished p @ [task]) \<or> (\<exists>v. v \<noteq> w \<and> state p v = RunningTask t)" for t
  proof -
    have "state p w = RunningTask t \<longleftrightarrow> t = task" using w by auto
    then have "(\<exists>v. state p v = RunningTask t) \<longleftrightarrow> t = task \<or> (\<exists>v. v \<noteq> w \<and> state p v = RunningTask t)" by metis
    then show ?thesis using s [of t] by auto
  qed
  have b: "distinct (finished p @ [task])" using d f [OF w] by simp
  have c: "t \<notin> set (finished p @ [task])" if "v \<noteq> w \<and> state p v = RunningTask t" for v t
  proof -
    have "t \<noteq> task" using f [OF w] that by metis
    then show ?thesis using f [of v t] that by simp
  qed
  show ?thesis unfolding runs_ok_def u
  proof (intro conjI allI impI)
    fix v v' t assume "v \<noteq> w \<and> state p v = RunningTask t" "v' \<noteq> w \<and> state p v' = RunningTask t"
    then show "v' = v" using f [of v t] by blast
  qed (rule a b c | assumption)+
qed

text \<open>An idle worker takes the first task.\<close>

lemma loop_head_inv:
  assumes p: "pool_inv max_size p" and w: "state p w = LoopHead"
  shows "\<exists>p'. loop_head hook w p = Some p' \<and> pool_inv max_size p'"
proof (cases "tasks p")
  case Nil
  then show ?thesis using after_drain_inv [OF p] w by (simp add: loop_head_def)
next
  case (Cons task ts)
  define p' where "p' = goto w (RunningTask task) (p\<lparr>idle_workers := remove1 w (idle_workers p), running_workers := running_workers p @ [w],
    count_idle := count_idle p - 1, count_running := count_running p + 1, tasks := ts, pending_tasks := pending_tasks p - 1,
    started := started p @ [task]\<rparr>)"
  have core: "core_inv max_size p" and wk: "wakeups_ok p" using p by (simp_all add: pool_inv_def)
  have li: "lists_ok p" and ru: "runs_ok p" and or: "order_ok p" using core by (simp_all add: core_inv_def)
  have mem: "w \<in> set (idle_workers p)" "w \<notin> set (running_workers p)" and d: "distinct (idle_workers p)" using li w by (auto simp: lists_ok_def)
  have "loop_head hook w p = Some p'"
    using mem Cons core by (auto simp: loop_head_def IdleToRunningLocked_def drain_def decrement_def p'_def core_inv_def counts_ok_def goto_def)
  moreover have "counts_ok p'" using core mem Cons by (simp add: core_inv_def counts_ok_def p'_def length_remove1)
  moreover have "lists_ok p'" using li w mem unfolding lists_ok_def p'_def by auto
  moreover have "order_ok p'" "size_ok max_size p'" using core Cons by (auto simp: core_inv_def order_ok_def size_ok_def p'_def)
  moreover have "runs_ok p'"
  proof -
    have "task \<notin> set (started p)" using or Cons by (auto simp: order_ok_def)
    then show ?thesis using w by (intro runs_ok_start [OF ru, where w = w and task = task]) (auto simp: p'_def)
  qed
  moreover have "joins_ok p'"
    by (rule joins_ok_cong [of p' p]) (use core w in \<open>auto simp: p'_def core_inv_def split: if_splits\<close>)
  moreover have "deaths_ok p'"
    by (rule deaths_ok_cong [of p' p]) (use core w in \<open>auto simp: p'_def core_inv_def split: if_splits\<close>)
  moreover have "shutdown_ok p'" using p by (simp add: pool_inv_def shutdown_ok_def p'_def)
  moreover have "wakeups_ok p'"
  proof -
    have aw: "Suc (awake_idle p') = awake_idle p" using remove_awake [OF mem(1) d, of "RunningTask task"] w by (simp add: awake_idle_def p'_def)
    have f: "tasks p' = ts" "length (idle_workers p') = length (idle_workers p) - 1" "live_workers p' \<noteq> []" "shutting_down p' = shutting_down p"
        "all_workers_dead p' = all_workers_dead p" "state p' = (state p)(w := RunningTask task)"
      using mem by (simp_all add: p'_def live_workers_def length_remove1)
    have l: "live_workers p \<noteq> []" using mem by (auto simp: live_workers_def)
    show ?thesis using wk aw Cons l f(3) unfolding wakeups_ok_def f by auto
  qed
  ultimately show ?thesis by (auto simp: pool_inv_def core_inv_def)
qed

lemma task_done_inv:
  assumes p: "pool_inv max_size p" and w: "state p w = RunningTask task"
  shows "\<exists>p'. drain hook w (p\<lparr>finished := finished p @ [task]\<rparr>) = Some p' \<and> pool_inv max_size p'"
proof -
  have core: "core_inv max_size p" and wk: "wakeups_ok p" using p by (simp_all add: pool_inv_def)
  have li: "lists_ok p" and ru: "runs_ok p" and or: "order_ok p" and cn: "counts_ok p" using core by (simp_all add: core_inv_def)
  have mem: "w \<in> set (running_workers p)" "w \<notin> set (idle_workers p)" using li w by (auto simp: lists_ok_def)
  show ?thesis
  proof (cases "tasks p")
    case (Cons succ ts)
    define p' where "p' = goto w (RunningTask succ) (p\<lparr>finished := finished p @ [task], tasks := ts, pending_tasks := pending_tasks p - 1,
      started := started p @ [succ]\<rparr>)"
    have "drain hook w (p\<lparr>finished := finished p @ [task]\<rparr>) = Some p'"
      using Cons cn by (simp add: drain_def decrement_def p'_def counts_ok_def goto_def)
    moreover have "counts_ok p'" "order_ok p'" "size_ok max_size p'" using core Cons by (auto simp: core_inv_def counts_ok_def order_ok_def size_ok_def p'_def)
    moreover have "lists_ok p'" using li w mem unfolding lists_ok_def p'_def by auto
    moreover have "runs_ok p'"
    proof -
      let ?q = "goto w LoopHead (p\<lparr>finished := finished p @ [task]\<rparr>)"
      have "runs_ok ?q" by (rule runs_ok_finish [OF ru w]) auto
      moreover have "succ \<notin> set (started ?q)" using or Cons by (auto simp: order_ok_def)
      ultimately show ?thesis by (rule runs_ok_start [where w = w]) (auto simp: p'_def)
    qed
    moreover have "joins_ok p'"
      by (rule joins_ok_cong [of p' p]) (use core w in \<open>auto simp: p'_def core_inv_def split: if_splits\<close>)
  moreover have "deaths_ok p'"
    by (rule deaths_ok_cong [of p' p]) (use core w in \<open>auto simp: p'_def core_inv_def split: if_splits\<close>)
  moreover have "shutdown_ok p'" using p by (simp add: pool_inv_def shutdown_ok_def p'_def)
    moreover have "wakeups_ok p'"
    proof -
      have "awake_idle p' = awake_idle p" unfolding awake_idle_def p'_def using mem by (auto intro!: arg_cong [where f = length] filter_cong)
      moreover have "tasks p' = ts" "idle_workers p' = idle_workers p" "live_workers p' = live_workers p" "shutting_down p' = shutting_down p"
          "all_workers_dead p' = all_workers_dead p" "state p' = (state p)(w := RunningTask succ)"
        by (simp_all add: p'_def live_workers_def)
      ultimately show ?thesis using wk Cons unfolding wakeups_ok_def by auto
    qed
    ultimately show ?thesis by (auto simp: pool_inv_def core_inv_def)
  next
    case Nil
    define q where "q = p\<lparr>finished := finished p @ [task], running_workers := remove1 w (running_workers p),
      idle_workers := idle_workers p @ [w], count_running := count_running p - 1, count_idle := count_idle p + 1\<rparr>"
    have "drain hook w (p\<lparr>finished := finished p @ [task]\<rparr>) = after_drain hook w (goto w LoopHead q)"
      using Nil mem cn by (auto simp: drain_def RunningToIdleLocked_def decrement_def q_def counts_ok_def after_drain_goto)
    moreover have "pool_inv max_size (goto w LoopHead q)"
    proof -
      have "counts_ok (goto w LoopHead q)" using cn mem by (simp add: counts_ok_def q_def length_remove1)
      moreover have "lists_ok (goto w LoopHead q)" using li w mem unfolding lists_ok_def q_def by auto
      moreover have "order_ok (goto w LoopHead q)" "size_ok max_size (goto w LoopHead q)"
        using core by (auto simp: core_inv_def order_ok_def size_ok_def q_def)
      moreover have "runs_ok (goto w LoopHead q)" by (rule runs_ok_finish [OF ru w]) (auto simp: q_def)
      moreover have "joins_ok (goto w LoopHead q)"
        by (rule joins_ok_cong [of _ p]) (use core w in \<open>auto simp: q_def core_inv_def split: if_splits\<close>)
      moreover have "deaths_ok (goto w LoopHead q)"
        by (rule deaths_ok_cong [of _ p]) (use core w in \<open>auto simp: q_def core_inv_def split: if_splits\<close>)
      moreover have "shutdown_ok (goto w LoopHead q)" using p by (simp add: pool_inv_def shutdown_ok_def q_def)
      moreover have "wakeups_ok (goto w LoopHead q)"
        using wk Nil mem by (auto simp: wakeups_ok_def live_workers_def q_def split: if_splits)
      ultimately show ?thesis by (auto simp: pool_inv_def core_inv_def)
    qed
    ultimately show ?thesis using after_drain_inv [of max_size "goto w LoopHead q" w hook] Nil by (simp add: q_def)
  qed
qed

lemma block_inv:
  assumes p: "pool_inv max_size p" and w: "w \<notin> set (is_blocked p)" "is_running (state p w)"
  shows "\<exists>p'. MarkCurrentWorkerAsBlocked w p = Some p' \<and> pool_inv max_size p'"
proof -
  define q where "q = p\<lparr>is_blocked := w # is_blocked p, max_pool_size := (if max_pool_size p > 0 then max_pool_size p + 1 else 0)\<rparr>"
  have core: "core_inv max_size p" and wk: "wakeups_ok p" using p by (simp_all add: pool_inv_def)
  have "counts_ok q = counts_ok p" "lists_ok q = lists_ok p" "order_ok q = order_ok p" "runs_ok q = runs_ok p" "joins_ok q = joins_ok p"
      "deaths_ok q = deaths_ok p"
    by (simp_all add: q_def counts_ok_def lists_ok_def order_ok_def runs_ok_def joins_ok_def deaths_ok_def)
  moreover have "size_ok max_size q" using core w by (auto simp: core_inv_def size_ok_def q_def)
  ultimately have qc: "core_inv max_size q" using core by (simp add: core_inv_def)
  moreover have q: "wakeups_ok q" using wk by (simp add: wakeups_ok_def awake_idle_def live_workers_def q_def)
  moreover have so: "shutdown_ok q" using p by (simp add: pool_inv_def shutdown_ok_def q_def)
  ultimately have "pool_inv max_size q" by (simp add: pool_inv_def)
  moreover have "pool_inv max_size (new_worker q)"
  proof -
    have "w \<in> set (running_workers p)" using core w(2) by (simp add: core_inv_def lists_ok_def)
    then have "\<not> all_workers_dead q" using wk by (auto simp: wakeups_ok_def live_workers_def q_def)
    moreover have "min (length (tasks q)) (Suc (length (idle_workers q))) \<le> Suc (awake_idle q)"
        "shutting_down q \<longrightarrow> (\<forall>w. state q w \<noteq> Waiting)"
      using q by (auto simp: wakeups_ok_def)
    ultimately show ?thesis using new_worker_core [OF qc] new_worker_wakeups [OF qc] so by (simp add: pool_inv_def)
  qed
  moreover have "MarkCurrentWorkerAsBlocked w p = Some (if max_pool_size p > 0 \<and> idle_workers p = [] \<and> pending_tasks p > 0 then new_worker q else q)"
    using w by (simp add: MarkCurrentWorkerAsBlocked_def q_def Let_def)
  ultimately show ?thesis by simp
qed

lemma unblock_inv:
  assumes p: "pool_inv max_size p"
  shows "\<exists>p'. MarkCurrentWorkerAsUnBlocked w p = Some p' \<and> pool_inv max_size p'"
proof (cases "w \<in> set (is_blocked p)")
  case True
  define q where "q = p\<lparr>is_blocked := remove1 w (is_blocked p), max_pool_size := max_pool_size p - 1\<rparr>"
  have core: "core_inv max_size p" and wk: "wakeups_ok p" using p by (simp_all add: pool_inv_def)
  have len: "length (is_blocked p) = Suc (length (remove1 w (is_blocked p)))" using length_pos_if_in_set [OF True] True by (simp add: length_remove1)
  have "counts_ok q = counts_ok p" "lists_ok q = lists_ok p" "order_ok q = order_ok p" "runs_ok q = runs_ok p" "joins_ok q = joins_ok p"
      "deaths_ok q = deaths_ok p"
    by (simp_all add: q_def counts_ok_def lists_ok_def order_ok_def runs_ok_def joins_ok_def deaths_ok_def)
  moreover have "size_ok max_size q" using core len by (auto simp: core_inv_def size_ok_def q_def)
  moreover have "wakeups_ok q" using wk by (simp add: wakeups_ok_def awake_idle_def live_workers_def q_def)
  moreover have "shutdown_ok q" using p by (simp add: pool_inv_def shutdown_ok_def q_def)
  ultimately have "pool_inv max_size q" using core by (simp add: pool_inv_def core_inv_def)
  moreover have "MarkCurrentWorkerAsUnBlocked w p = Some q"
    using True core len by (auto simp: MarkCurrentWorkerAsUnBlocked_def q_def Let_def core_inv_def size_ok_def)
  ultimately show ?thesis by simp
qed (use p in \<open>simp add: MarkCurrentWorkerAsUnBlocked_def\<close>)

text \<open>The steps of the thread in \<open>Shutdown\<close>.\<close>

lemma core_inv_cong:
  assumes "core_inv max_size p" "joining (shutdown_thread q) = joining (shutdown_thread p)" "q = p\<lparr>shutting_down := b, all_workers_dead := a, shutdown_thread := st\<rparr>"
  shows "core_inv max_size q"
proof -
  have j: "joining st = joining (shutdown_thread p)" using assms(2,3) by simp
  have "counts_ok q = counts_ok p" "lists_ok q = lists_ok p" "order_ok q = order_ok p" "runs_ok q = runs_ok p" "size_ok max_size q = size_ok max_size p"
      "joins_ok q = joins_ok p"
    by (simp_all add: assms(3) counts_ok_def lists_ok_def order_ok_def runs_ok_def size_ok_def joins_ok_def)
  moreover have "deaths_ok q = deaths_ok p" unfolding deaths_ok_def assms(3) by (simp add: j)
  ultimately show ?thesis using assms(1) by (simp add: core_inv_def)
qed

lemma shutdown_thread_core:
  assumes "core_inv max_size p" "joining st = joining (shutdown_thread p)"
  shows "core_inv max_size (p\<lparr>shutting_down := b, shutdown_thread := st, all_workers_dead := a\<rparr>)"
    "core_inv max_size (p\<lparr>shutting_down := b, shutdown_thread := st\<rparr>)"
    "core_inv max_size (p\<lparr>shutdown_thread := st\<rparr>)"
proof -
  show "core_inv max_size (p\<lparr>shutting_down := b, shutdown_thread := st, all_workers_dead := a\<rparr>)"
    by (rule core_inv_cong [where b = b and a = a and st = st, OF assms(1)]) (simp_all add: assms(2))
  show "core_inv max_size (p\<lparr>shutting_down := b, shutdown_thread := st\<rparr>)"
    by (rule core_inv_cong [where b = b and a = "all_workers_dead p" and st = st, OF assms(1)]) (simp_all add: assms(2))
  show "core_inv max_size (p\<lparr>shutdown_thread := st\<rparr>)"
    by (rule core_inv_cong [where b = "shutting_down p" and a = "all_workers_dead p" and st = st, OF assms(1)]) (simp_all add: assms(2))
qed

lemma shutdown_request_inv:
  assumes p: "pool_inv max_size p" and en: "shutdown_thread p = NoShutdown \<or> shutdown_thread p = Returned"
  shows "pool_inv max_size (Shutdown_request p)"
proof -
  let ?p = "p\<lparr>shutting_down := True, shutdown_thread := ExitCheck\<rparr>"
  have core: "core_inv max_size p" and wk: "wakeups_ok p" using p by (simp_all add: pool_inv_def)
  have j: "joining ExitCheck = joining (shutdown_thread p)" using en by auto
  show ?thesis
  proof (cases "running_workers p = [] \<and> idle_workers p = []")
    case True
    have "state p v \<noteq> Waiting" for v using core True by (auto simp: core_inv_def lists_ok_def) (metis is_idle_simps(6))
    then have "wakeups_ok (?p\<lparr>all_workers_dead := True\<rparr>)"
      using wk True by (auto simp: wakeups_ok_def live_workers_def awake_idle_def)
    moreover have "shutdown_ok (?p\<lparr>all_workers_dead := True\<rparr>)" by (simp add: shutdown_ok_def)
    moreover have "core_inv max_size (?p\<lparr>all_workers_dead := True\<rparr>)" by (rule shutdown_thread_core(1) [OF core j])
    ultimately show ?thesis using True by (simp add: Shutdown_request_def pool_inv_def)
  next
    case False
    have q: "core_inv max_size ?p" by (rule shutdown_thread_core(2) [OF core j])
    have st: "state (NotifyAll ?p) v = RunningTask task \<longleftrightarrow> state ?p v = RunningTask task" "state (NotifyAll ?p) v = Exiting ds \<longleftrightarrow> state ?p v = Exiting ds"
        "state (NotifyAll ?p) v = Exited \<longleftrightarrow> state ?p v = Exited" "is_gone (state (NotifyAll ?p) v) \<longleftrightarrow> is_gone (state ?p v)"
        "is_running (state (NotifyAll ?p) v) \<longleftrightarrow> is_running (state ?p v)" "is_idle (state (NotifyAll ?p) v) \<longleftrightarrow> is_idle (state ?p v)" for v task ds
      by (simp_all add: NotifyAll_def)
    have "runs_ok (NotifyAll ?p)" by (subst runs_ok_cong [of _ ?p]) (use q st in \<open>simp_all add: core_inv_def NotifyAll_def\<close>)
    moreover have "joins_ok (NotifyAll ?p)" by (rule joins_ok_cong [of _ ?p]) (use q st in \<open>simp_all add: core_inv_def NotifyAll_def\<close>)
    moreover have "deaths_ok (NotifyAll ?p)" by (rule deaths_ok_cong [of _ ?p]) (use q st in \<open>simp_all add: core_inv_def NotifyAll_def\<close>)
    moreover have "lists_ok (NotifyAll ?p)" using core unfolding core_inv_def lists_ok_def st by (simp add: NotifyAll_def)
    moreover have "awake_idle (NotifyAll ?p) = length (idle_workers p)" by (simp add: awake_idle_def NotifyAll_def)
    then have "wakeups_ok (NotifyAll ?p)" using wk False by (auto simp: wakeups_ok_def live_workers_def) (simp_all add: NotifyAll_def)
    moreover have "shutdown_ok (NotifyAll ?p)" by (simp add: shutdown_ok_def NotifyAll_def)
    ultimately show ?thesis using core False
      by (auto simp: Shutdown_request_def pool_inv_def core_inv_def counts_ok_def order_ok_def size_ok_def NotifyAll_def)
  qed
qed

lemma shutdown_wait_inv:
  assumes p: "pool_inv max_size p" and en: "shutdown_thread p = ExitCheck"
  shows "pool_inv max_size (Shutdown_wait p)"
proof -
  let ?st = "if all_workers_dead p then Leaving else ExitWaiting"
  have "core_inv max_size (p\<lparr>shutdown_thread := ?st\<rparr>)"
    by (rule shutdown_thread_core(3)) (use p en in \<open>auto simp: pool_inv_def\<close>)
  moreover have "shutdown_ok (p\<lparr>shutdown_thread := ?st\<rparr>)" using p en by (auto simp: pool_inv_def shutdown_ok_def)
  moreover have "wakeups_ok (p\<lparr>shutdown_thread := ?st\<rparr>)" using p by (simp add: pool_inv_def wakeups_ok_def live_workers_def awake_idle_def)
  ultimately show ?thesis by (simp add: pool_inv_def Shutdown_wait_def)
qed

lemma exit_wake_up_inv:
  assumes p: "pool_inv max_size p" and en: "shutdown_thread p = ExitWaiting"
  shows "pool_inv max_size (p\<lparr>shutdown_thread := ExitCheck\<rparr>)"
proof -
  have "core_inv max_size (p\<lparr>shutdown_thread := ExitCheck\<rparr>)"
    by (rule shutdown_thread_core(3)) (use p en in \<open>auto simp: pool_inv_def\<close>)
  then show ?thesis using p en by (simp add: pool_inv_def shutdown_ok_def wakeups_ok_def live_workers_def awake_idle_def)
qed

lemma shutdown_obtain_inv:
  assumes p: "pool_inv max_size p" and en: "shutdown_thread p = Leaving"
  shows "\<exists>p'. Shutdown_obtain p = Some p' \<and> pool_inv max_size p'"
proof -
  let ?p = "p\<lparr>dead_workers := [], count_dead := 0, shutdown_thread := Joining (dead_workers p)\<rparr>"
  have core: "core_inv max_size p" and wk: "wakeups_ok p" and so: "shutdown_ok p" using p by (simp_all add: pool_inv_def)
  have li: "lists_ok p" and jo: "joins_ok p" and de: "deaths_ok p" using core by (simp_all add: core_inv_def)
  have dead: "all_workers_dead p" using so en by (simp add: shutdown_ok_def)
  then have e: "running_workers p = []" "idle_workers p = []" using wk by (auto simp: wakeups_ok_def live_workers_def)
  have dw: "\<And>d. d \<in> set (dead_workers p) \<Longrightarrow> is_gone (state p d) \<and> d < workers_created p" "distinct (dead_workers p)"
    using li unfolding lists_ok_def by blast+
  have j: "\<And>d. d \<in> set (dead_workers p) \<Longrightarrow> d \<notin> set (joined p) \<and> (\<forall>w ds. state p w = Exiting ds \<longrightarrow> d \<notin> set ds)"
    using jo unfolding joins_ok_def by blast
  have "joins_ok ?p" using jo unfolding joins_ok_def by simp
  moreover have "deaths_ok ?p" using de dw j en unfolding deaths_ok_def by auto
  moreover have "lists_ok ?p" using li by (simp add: lists_ok_def)
  moreover have "runs_ok ?p = runs_ok p" by (simp add: runs_ok_def)
  moreover have "wakeups_ok ?p" using wk by (simp add: wakeups_ok_def live_workers_def awake_idle_def)
  moreover have "shutdown_ok ?p" using so en by (simp add: shutdown_ok_def)
  ultimately have "pool_inv max_size ?p" using core by (simp add: pool_inv_def core_inv_def counts_ok_def order_ok_def size_ok_def)
  moreover have "Shutdown_obtain p = Some ?p"
    using core e by (simp add: Shutdown_obtain_def ObtainDeadWorkersLocked_def core_inv_def counts_ok_def)
  ultimately show ?thesis by simp
qed

lemma shutdown_join_inv:
  assumes p: "pool_inv max_size p" and en: "shutdown_thread p = Joining (d # ds)" "state p d = Exited"
  shows "pool_inv max_size (p\<lparr>shutdown_thread := Joining ds, joined := joined p @ [d]\<rparr>)" (is "pool_inv max_size ?p")
proof -
  have core: "core_inv max_size p" and wk: "wakeups_ok p" and so: "shutdown_ok p" using p by (simp_all add: pool_inv_def)
  have li: "lists_ok p" and jo: "joins_ok p" and de: "deaths_ok p" using core by (simp_all add: core_inv_def)
  have dd: "d < workers_created p" "d \<notin> set (dead_workers p)" "d \<notin> set (joined p)" "\<And>w ds. state p w = Exiting ds \<Longrightarrow> d \<notin> set ds"
    using de en unfolding deaths_ok_def by auto
  have "joins_ok ?p" using jo dd en(2) unfolding joins_ok_def by auto
  moreover have "deaths_ok ?p" using de en unfolding deaths_ok_def by auto
  moreover have "lists_ok ?p" using li by (simp add: lists_ok_def)
  moreover have "runs_ok ?p = runs_ok p" by (simp add: runs_ok_def)
  moreover have "wakeups_ok ?p" using wk by (simp add: wakeups_ok_def live_workers_def awake_idle_def)
  moreover have "shutdown_ok ?p" using so en by (simp add: shutdown_ok_def)
  ultimately show ?thesis using core by (simp add: pool_inv_def core_inv_def counts_ok_def order_ok_def size_ok_def)
qed

lemma shutdown_finish_inv:
  assumes p: "pool_inv max_size p" and en: "shutdown_thread p = Joining []"
  shows "\<exists>p'. Shutdown_finish p = Some p' \<and> pool_inv max_size p'"
proof -
  have core: "core_inv max_size (p\<lparr>shutdown_thread := Returned\<rparr>)"
    by (rule shutdown_thread_core(3)) (use p en in \<open>auto simp: pool_inv_def\<close>)
  have d: "dead_workers p = []" "count_dead p = 0" using p en by (auto simp: pool_inv_def shutdown_ok_def core_inv_def counts_ok_def)
  then have "pool_inv max_size (p\<lparr>shutdown_thread := Returned\<rparr>)"
    using p core en by (auto simp: pool_inv_def shutdown_ok_def wakeups_ok_def live_workers_def awake_idle_def)
  then show ?thesis using d by (simp add: Shutdown_finish_def)
qed

lemma join_deaths:
  assumes core: "core_inv max_size p" and w: "state p w = Exiting (d # ds)"
  shows "deaths_ok (goto w (Exiting ds) (p\<lparr>joined := joined p @ [d]\<rparr>))" (is "deaths_ok ?p")
proof -
  have de: "deaths_ok p" using core by (simp add: core_inv_def)
  let ?js = "joining (shutdown_thread p)"
  have j: "distinct ?js" "c \<in> set ?js \<Longrightarrow> is_gone (state p c) \<and> c < workers_created p \<and> c \<notin> set (dead_workers p) \<and> c \<notin> set (joined p)"
      "c \<in> set ?js \<Longrightarrow> state p v = Exiting vs \<Longrightarrow> c \<notin> set vs" for c v vs
    using de unfolding deaths_ok_def by blast+
  have g: "died p v < deaths p" "v \<in> set (dead_workers p) \<or> v \<in> set (joined p) \<or> v \<in> set ?js \<or> (\<exists>u vs. state p u = Exiting vs \<and> v \<in> set vs)"
    if "v < workers_created p" "is_gone (state p v)" for v
    using de that unfolding deaths_ok_def by blast+
  have o: "died p c < died p v" if "state p v = Exiting vs" "c \<in> set vs" for v vs c
    using de that unfolding deaths_ok_def by blast
  have gone: "is_gone (state ?p v) \<longleftrightarrow> is_gone (state p v)" for v using w by simp
  have ex: "\<exists>us. state p v = Exiting us \<and> set vs \<subseteq> set us" if "state ?p v = Exiting vs" for v vs
    using that w by (auto split: if_splits)
  show ?thesis
    unfolding deaths_ok_def gone
  proof (intro conjI allI impI ballI)
    show "distinct (joining (shutdown_thread ?p))" using j(1) by simp
    fix c assume "c \<in> set (joining (shutdown_thread ?p))"
    then have c: "c \<in> set ?js" by simp
    show "is_gone (state p c)" "c < workers_created ?p" "c \<notin> set (dead_workers ?p)" "c \<notin> set (joined ?p)"
      using j(2) [OF c] j(3) [OF c w] by auto
    show "c \<notin> set vs" if "state ?p v = Exiting vs" for v vs using ex [OF that] j(3) [OF c] by blast
  next
    fix v assume "v < workers_created ?p" "is_gone (state p v)"
    then have v: "v < workers_created p" "is_gone (state p v)" by simp_all
    show "died ?p v < deaths ?p" using g(1) [OF v] by simp
    consider "v \<in> set (dead_workers p)" | "v \<in> set (joined p)" | "v \<in> set ?js" | u vs where "state p u = Exiting vs" "v \<in> set vs"
      using g(2) [OF v] by blast
    then show "v \<in> set (dead_workers ?p) \<or> v \<in> set (joined ?p) \<or> v \<in> set (joining (shutdown_thread ?p)) \<or>
        (\<exists>u vs. state ?p u = Exiting vs \<and> v \<in> set vs)"
    proof cases
      case (4 u vs)
      then show ?thesis using w by (cases "u = w") auto
    qed auto
  next
    fix v vs c assume "state ?p v = Exiting vs \<and> c \<in> set vs"
    then obtain us where "state p v = Exiting us" "c \<in> set us" using ex by blast
    then show "died ?p c < died ?p v" using o by simp
  qed
qed

lemma join_inv:
  assumes p: "pool_inv max_size p" and w: "state p w = Exiting (d # ds)" and d: "state p d = Exited"
  shows "pool_inv max_size (goto w (Exiting ds) (p\<lparr>joined := joined p @ [d]\<rparr>))" (is "pool_inv max_size ?p")
proof -
  have core: "core_inv max_size p" and wk: "wakeups_ok p" using p by (simp_all add: pool_inv_def)
  have li: "lists_ok p" and jo: "joins_ok p" using core by (simp_all add: core_inv_def)
  have e: "distinct vs \<and> (\<forall>c\<in>set vs. is_gone (state p c) \<and> c < workers_created p \<and> c \<notin> set (dead_workers p) \<and> c \<notin> set (joined p) \<and>
      (\<forall>w' ds'. state p w' = Exiting ds' \<and> c \<in> set ds' \<longrightarrow> w' = v))" if "state p v = Exiting vs" for v vs
    using jo that unfolding joins_ok_def by blast
  have j: "distinct (joined p)" "\<And>c. c \<in> set (joined p) \<Longrightarrow> state p c = Exited \<and> c \<notin> set (dead_workers p) \<and> c < workers_created p"
    using jo unfolding joins_ok_def by blast+
  have me: "\<And>v vs. state ?p v = Exiting vs \<Longrightarrow> \<exists>us. state p v = Exiting us \<and> set vs \<subseteq> set us \<and> (distinct us \<longrightarrow> distinct vs) \<and> (d \<in> set vs \<longrightarrow> False)"
  proof -
    fix v vs assume v: "state ?p v = Exiting vs"
    show "\<exists>us. state p v = Exiting us \<and> set vs \<subseteq> set us \<and> (distinct us \<longrightarrow> distinct vs) \<and> (d \<in> set vs \<longrightarrow> False)"
    proof (cases "v = w")
      case True
      then show ?thesis using v w e [OF w] by auto
    next
      case False
      then have "state p v = Exiting vs" using v by simp
      moreover have "d \<notin> set vs" using e [OF w] False \<open>state p v = Exiting vs\<close> by auto
      ultimately show ?thesis by auto
    qed
  qed
  have "joins_ok ?p"
    unfolding joins_ok_def
  proof (intro conjI allI impI ballI)
    show "distinct (joined ?p)" using j(1) e [OF w] by simp
    fix c assume "c \<in> set (joined ?p)"
    then show "state ?p c = Exited" "c \<notin> set (dead_workers ?p)" "c < workers_created ?p" using j(2) [of c] e [OF w] d w by auto
  next
    fix v vs assume v: "state ?p v = Exiting vs"
    then obtain us where us: "state p v = Exiting us" "set vs \<subseteq> set us" "distinct us \<longrightarrow> distinct vs" "d \<notin> set vs" using me by blast
    then show "distinct vs" using e by blast
    fix c assume c: "c \<in> set vs"
    then have "is_gone (state p c)" "c < workers_created p" "c \<notin> set (dead_workers p)" "c \<notin> set (joined p)" "c \<noteq> d"
        "\<And>w' ds'. state p w' = Exiting ds' \<and> c \<in> set ds' \<Longrightarrow> w' = v"
      using e [OF us(1)] us(2,4) by auto
    then show "is_gone (state ?p c)" "c < workers_created ?p" "c \<notin> set (dead_workers ?p)" "c \<notin> set (joined ?p)"
      by auto
    fix w' ds' assume "state ?p w' = Exiting ds' \<and> c \<in> set ds'"
    then show "w' = v" using me [of w' ds'] \<open>\<And>w' ds'. state p w' = Exiting ds' \<and> c \<in> set ds' \<Longrightarrow> w' = v\<close> by blast
  qed
  moreover have "deaths_ok ?p" by (rule join_deaths [OF core w])
  moreover have "lists_ok ?p" using li w unfolding lists_ok_def by auto
  moreover have "runs_ok ?p" by (subst runs_ok_cong [of _ p]) (use core w in \<open>auto simp: core_inv_def\<close>)
  moreover have "wakeups_ok ?p"
  proof -
    have "w \<notin> set (idle_workers p)" using li w by (auto simp: lists_ok_def)
    then have "awake_idle ?p = awake_idle p" unfolding awake_idle_def by (auto intro!: arg_cong [where f = length] filter_cong)
    then show ?thesis using wk by (auto simp: wakeups_ok_def live_workers_def split: if_splits)
  qed
  moreover have "shutdown_ok ?p" using p by (simp add: pool_inv_def shutdown_ok_def)
  ultimately show ?thesis using core by (simp add: pool_inv_def core_inv_def counts_ok_def order_ok_def size_ok_def)
qed

lemma exit_inv:
  assumes p: "pool_inv max_size p" and w: "state p w = Exiting []"
  shows "pool_inv max_size (goto w Exited p)" (is "pool_inv max_size ?p")
proof -
  have core: "core_inv max_size p" and wk: "wakeups_ok p" using p by (simp_all add: pool_inv_def)
  have li: "lists_ok p" and jo: "joins_ok p" using core by (simp_all add: core_inv_def)
  have "joins_ok ?p"
    by (rule joins_ok_cong [of ?p p]) (use jo w in \<open>auto split: if_splits\<close>)
  moreover have "deaths_ok ?p"
    by (rule deaths_ok_cong [of ?p p]) (use core w in \<open>auto simp: core_inv_def split: if_splits\<close>)
  moreover have "lists_ok ?p" using li w unfolding lists_ok_def by auto
  moreover have "runs_ok ?p" by (subst runs_ok_cong [of _ p]) (use core w in \<open>auto simp: core_inv_def\<close>)
  moreover have "wakeups_ok ?p"
  proof -
    have "w \<notin> set (idle_workers p)" using li w by (auto simp: lists_ok_def)
    then have "awake_idle ?p = awake_idle p" unfolding awake_idle_def by (auto intro!: arg_cong [where f = length] filter_cong)
    then show ?thesis using wk by (auto simp: wakeups_ok_def live_workers_def split: if_splits)
  qed
  moreover have "shutdown_ok ?p" using p by (simp add: pool_inv_def shutdown_ok_def)
  ultimately show ?thesis using core by (simp add: pool_inv_def core_inv_def counts_ok_def order_ok_def size_ok_def)
qed

text \<open>No step fails: every assertion of the pool holds whenever it is reached, and the invariant is kept.\<close>

lemma apply_action_inv:
  assumes p: "pool_inv max_size p" and en: "enabled a p"
  shows "\<exists>p'. apply_action a p = Some p' \<and> pool_inv max_size p'"
proof (cases a)
  case (Run task pick)
  then show ?thesis using RunImpl_inv [OF p] en by simp
next
  case (StartThread w)
  then show ?thesis using goto_idle_inv [OF p, of w LoopHead] en by simp
next
  case (EnterLoop w hook)
  then show ?thesis using loop_head_inv [OF p] en by simp
next
  case (TaskDone w hook)
  then show ?thesis using task_done_inv [OF p] en by (auto split: WorkerState.splits)
next
  case (HookDone w)
  then show ?thesis using after_hook_inv [OF p, of w] en by simp
next
  case (HookWaitDone w should_notify)
  then show ?thesis using after_hook_wait_inv [OF p, of w] en by (auto split: WorkerState.splits)
next
  case (WakeUp w timed_out)
  then show ?thesis using goto_idle_inv [OF p, of w "wake timed_out (state p w)"] waits_idle en by simp
next
  case (WaitDone w)
  then show ?thesis using after_wait_inv [OF p, of w] en by (auto split: WorkerState.splits)
next
  case (JoinDead w)
  then show ?thesis using join_inv [OF p, of w] en by (auto split: WorkerState.splits list.splits)
next
  case (ThreadExit w)
  then show ?thesis using exit_inv [OF p] en by simp
next
  case (MarkBlocked w)
  then show ?thesis using block_inv [OF p, of w] en by (auto split: WorkerState.splits)
next
  case (MarkUnBlocked w)
  then show ?thesis using unblock_inv [OF p] by simp
next
  case ShutdownRequest
  then show ?thesis using shutdown_request_inv [OF p] en by simp
next
  case ShutdownWait
  then show ?thesis using shutdown_wait_inv [OF p] en by simp
next
  case ExitWakeUp
  then show ?thesis using exit_wake_up_inv [OF p] en by simp
next
  case ShutdownObtain
  then show ?thesis using shutdown_obtain_inv [OF p] en by simp
next
  case ShutdownJoin
  then show ?thesis using shutdown_join_inv [OF p] en by (auto split: ShutdownThread.splits list.splits)
next
  case ShutdownFinish
  then show ?thesis using shutdown_finish_inv [OF p] en by simp
qed

lemma reachable_inv: "reachable max_size p \<Longrightarrow> pool_inv max_size p"
proof (induction rule: reachable.induct)
  case (next_step p a p')
  then show ?case using apply_action_inv [OF next_step.IH] by (fastforce elim: step_cases)
qed (rule ThreadPool_inv)

end
