(* ===== verification/Thread_Pool_Progress.thy ===== *)
theory Thread_Pool_Progress
  imports Thread_Pool
begin

text \<open>
  Executions of the thread pool: what a step does to a worker, that every task runs and that every shutdown ends under
  fair scheduling, and the properties of the pool.
\<close>

section \<open>Progress\<close>

text \<open>
  An execution interleaves steps, or idles.  In a fair one no thread stays forever where it can go on: threads are scheduled,
  tasks and the idle hook return, and the timed wait of the hook ends.  A worker that waits for tasks may wait forever.
\<close>

definition pool_execution :: "nat \<Rightarrow> (nat \<Rightarrow> Pool) \<Rightarrow> bool" where
  "pool_execution max_size run \<longleftrightarrow> run 0 = ThreadPool max_size \<and> (\<forall>i. run (Suc i) = run i \<or> (\<exists>a. step a (run i) (run (Suc i))))"

definition due :: "WorkerState \<Rightarrow> bool" where
  "due st \<longleftrightarrow> \<not> is_gone st \<and> st \<noteq> Waiting"

definition fair :: "(nat \<Rightarrow> Pool) \<Rightarrow> bool" where
  "fair run \<longleftrightarrow> (\<forall>i w. due (state (run i) w) \<longrightarrow> (\<exists>j>i. state (run j) w \<noteq> state (run i) w))"

lemma execution_inv: "pool_execution max_size run \<Longrightarrow> pool_inv max_size (run i)"
proof -
  assume e: "pool_execution max_size run"
  have "reachable max_size (run i)"
    by (induction i) (use e in \<open>auto simp: pool_execution_def intro: reachable.intros dest: spec [of _ "_ :: nat"]\<close>, metis next_step)
  then show ?thesis by (rule reachable_inv)
qed

lemma first_change:
  assumes "i < j" "f j \<noteq> f i"
  obtains k where "i \<le> k" "f k = f i" "f (Suc k) \<noteq> f (k :: nat)"
proof -
  have "\<exists>k\<ge>i. f k = f i \<and> f (Suc k) \<noteq> f k"
  proof (rule ccontr)
    assume n: "\<not> ?thesis"
    have "f (i + k) = f i" for k
    proof (induction k)
      case (Suc k)
      then show ?case using n by (metis add_Suc_right le_add1)
    qed simp
    then show False using assms by (metis less_imp_add_positive)
  qed
  then show thesis using that by blast
qed

lemma fair_change:
  assumes "fair run" "due (state (run i) w)"
  obtains k where "i \<le> k" "state (run k) w = state (run i) w" "state (run (Suc k)) w \<noteq> state (run k) w"
proof -
  obtain j where "i < j" "state (run j) w \<noteq> state (run i) w" using assms by (auto simp: fair_def)
  then show thesis by (rule first_change [where f = "\<lambda>k. state (run k) w"]) (rule that)
qed

lemma execution_step:
  assumes "pool_execution max_size run" "state (run (Suc k)) w \<noteq> state (run k) w"
  obtains a where "enabled a (run k)" "apply_action a (run k) = Some (run (Suc k))"
  using assms unfolding pool_execution_def step_iff by metis

section \<open>What a step does to a worker\<close>

lemma decrement_Some [simp]: "decrement n = Some k \<longleftrightarrow> n = Suc k"
  by (cases n) (auto simp: decrement_def)

lemma bind_Some: "Option.bind x f = Some y \<longleftrightarrow> (\<exists>v. x = Some v \<and> f v = Some y)"
  by (cases x) auto

fun actor :: "Action \<Rightarrow> nat option" where
  "actor (StartThread w) = Some w" | "actor (EnterLoop w _) = Some w" | "actor (TaskDone w _) = Some w"
| "actor (HookDone w) = Some w" | "actor (HookWaitDone w _) = Some w" | "actor (WakeUp w _) = Some w"
| "actor (WaitDone w) = Some w" | "actor (JoinDead w) = Some w" | "actor (ThreadExit w) = Some w"
| "actor _ = None"

lemma wake_same: "\<not> waits st \<Longrightarrow> wake b st = st"
  by (cases st) simp_all

text \<open>The worker \<open>w\<close> moves to \<open>st\<close> and nothing happens to the tasks.\<close>

definition moves_to :: "nat \<Rightarrow> WorkerState \<Rightarrow> Pool \<Rightarrow> Pool \<Rightarrow> bool" where
  "moves_to w st p p' \<longleftrightarrow> state p' = (state p)(w := st) \<and> tasks p' = tasks p \<and> started p' = started p \<and> submitted p' = submitted p \<and>
     finished p' = finished p \<and> shutting_down p' = shutting_down p \<and> workers_created p' = workers_created p \<and>
     (\<forall>v. v \<noteq> w \<longrightarrow> died p' v = died p v) \<and> (shutdown_thread p \<noteq> ExitWaiting \<longrightarrow> shutdown_thread p' = shutdown_thread p)"

lemma moves_to_goto: "moves_to w st p (goto w st p)"
  by (simp add: moves_to_def)

lemma exit_Notify_simps [simp]:
  "state (exit_Notify p) = state p" "tasks (exit_Notify p) = tasks p" "started (exit_Notify p) = started p"
  "submitted (exit_Notify p) = submitted p" "finished (exit_Notify p) = finished p" "shutting_down (exit_Notify p) = shutting_down p"
  "workers_created (exit_Notify p) = workers_created p" "died (exit_Notify p) = died p"
  "shutdown_thread p \<noteq> ExitWaiting \<Longrightarrow> shutdown_thread (exit_Notify p) = shutdown_thread p"
  by (simp_all add: exit_Notify_def)

lemma die_moves: "die w p = Some p' \<Longrightarrow> moves_to w (Exiting (dead_workers p)) p p'"
  by (auto simp: die_def ObtainDeadWorkersLocked_def IdleToDeadLocked_def bind_Some Let_def moves_to_def split: if_splits)

lemma die_or_wait_moves:
  "die_or_wait w p = Some p' \<Longrightarrow> \<exists>st. moves_to w st p p' \<and> (if shutting_down p then is_gone st else st = Waiting)"
  using moves_to_goto [of w Waiting p] by (auto simp: die_or_wait_def dest!: die_moves split: if_splits)

lemma after_hook_moves:
  "after_hook w p = Some p' \<Longrightarrow> \<exists>st. moves_to w st p p' \<and>
     (if tasks p \<noteq> [] then st = LoopHead else if shutting_down p then is_gone st else st = Waiting)"
  using moves_to_goto [of w LoopHead p] by (cases "tasks p = []") (auto simp: after_hook_def dest!: die_or_wait_moves)

lemma after_hook_wait_moves:
  "after_hook_wait w timed_out notify p = Some p' \<Longrightarrow> \<exists>st. moves_to w st p p' \<and>
     (if tasks p \<noteq> [] then st = LoopHead else if shutting_down p then is_gone st else st = Waiting \<or> st = IdleHook)"
  using moves_to_goto [of w IdleHook p] by (auto simp: after_hook_wait_def dest!: after_hook_moves split: if_splits)

lemma after_wait_moves:
  "after_wait w timed_out p = Some p' \<Longrightarrow> \<exists>st. moves_to w st p p' \<and>
     (if tasks p \<noteq> [] then st = LoopHead else if shutting_down p then is_gone st else st = Waiting \<or> is_gone st)"
  using moves_to_goto [of w LoopHead p] moves_to_goto [of w Waiting p]
  by (auto simp: after_wait_def dest!: die_moves split: if_splits)

lemma after_drain_moves:
  assumes "after_drain hook w p = Some p'" "tasks p = []"
  shows "\<exists>st. moves_to w st p p' \<and> (st = IdleHook \<or> st = HookWaiting \<or> is_gone st \<or> st = Waiting \<and> \<not> shutting_down p)"
  using assms moves_to_goto [of w IdleHook p] moves_to_goto [of w HookWaiting p]
  by (auto simp: after_drain_def OnEnterIdleLocked_def split: if_splits Hook.splits dest!: die_or_wait_moves after_hook_moves)

lemma drain_moves:
  assumes "drain hook w p = Some p'"
  shows "case tasks p of
     [] \<Rightarrow> \<exists>st. moves_to w st p p' \<and> (st = IdleHook \<or> st = HookWaiting \<or> is_gone st \<or> st = Waiting \<and> \<not> shutting_down p)
   | task # ts \<Rightarrow> moves_to w (RunningTask task) (p\<lparr>tasks := ts, started := started p @ [task]\<rparr>) p'"
proof (cases "tasks p")
  case Nil
  then obtain q where q: "RunningToIdleLocked w p = Some q" "after_drain hook w q = Some p'" using assms by (auto simp: drain_def bind_Some)
  moreover have "state q = state p" "tasks q = tasks p" "started q = started p" "submitted q = submitted p" "finished q = finished p"
      "shutting_down q = shutting_down p" "workers_created q = workers_created p" "died q = died p" "shutdown_thread q = shutdown_thread p"
    using q(1) by (auto simp: RunningToIdleLocked_def bind_Some split: if_splits)
  ultimately show ?thesis using after_drain_moves [OF q(2)] Nil by (simp add: moves_to_def)
qed (use assms in \<open>auto simp: drain_def bind_Some moves_to_def\<close>)

lemma loop_head_moves:
  assumes "loop_head hook w p = Some p'"
  shows "case tasks p of
     [] \<Rightarrow> \<exists>st. moves_to w st p p' \<and> (st = IdleHook \<or> st = HookWaiting \<or> is_gone st \<or> st = Waiting \<and> \<not> shutting_down p)
   | task # ts \<Rightarrow> moves_to w (RunningTask task) (p\<lparr>tasks := ts, started := started p @ [task]\<rparr>) p'"
proof (cases "tasks p")
  case Nil
  then show ?thesis using assms after_drain_moves by (simp add: loop_head_def)
next
  case (Cons task ts)
  then obtain q where q: "IdleToRunningLocked w p = Some q" "drain hook w q = Some p'" using assms by (auto simp: loop_head_def bind_Some)
  moreover have "state q = state p" "tasks q = tasks p" "started q = started p" "submitted q = submitted p" "finished q = finished p"
      "shutting_down q = shutting_down p" "workers_created q = workers_created p" "died q = died p" "shutdown_thread q = shutdown_thread p"
    using q(1) by (auto simp: IdleToRunningLocked_def bind_Some split: if_splits)
  ultimately show ?thesis using drain_moves [OF q(2)] Cons by (simp add: moves_to_def)
qed

lemma outside_step:
  assumes "apply_action a p = Some p'" "actor a = None" "pending_tasks p = length (tasks p)"
  shows "started p' = started p" "finished p' = finished p" "prefix (submitted p) (submitted p')"
    "shutting_down p \<Longrightarrow> shutting_down p' \<and> submitted p' = submitted p"
    "state p' w = state p w \<or> waits (state p w) \<and> state p' w = wake False (state p w) \<or>
     w = workers_created p \<and> (tasks p \<noteq> [] \<or> \<not> shutting_down p)"
proof -
  have "started p' = started p \<and> finished p' = finished p \<and> prefix (submitted p) (submitted p') \<and>
    (shutting_down p \<longrightarrow> shutting_down p' \<and> submitted p' = submitted p) \<and>
    (state p' w = state p w \<or> waits (state p w) \<and> state p' w = wake False (state p w) \<or>
     w = workers_created p \<and> (tasks p \<noteq> [] \<or> \<not> shutting_down p))"
  proof (cases a)
    case (Run task pick)
    then show ?thesis using assms(1)
      by (cases "waits (state p w)"; auto simp: RunImpl_def ScheduleTaskLocked_def Notify_def new_worker_def Let_def bind_Some wake_same split: if_splits option.splits)
  next
    case (MarkBlocked v)
    then show ?thesis using assms(1,3)
      by (auto simp: MarkCurrentWorkerAsBlocked_def new_worker_def Let_def split: if_splits)
  next
    case (MarkUnBlocked v)
    then show ?thesis using assms(1) by (auto simp: MarkCurrentWorkerAsUnBlocked_def Let_def split: if_splits)
  next
    case ShutdownRequest
    then show ?thesis using assms(1)
      by (cases "waits (state p w)") (auto simp: Shutdown_request_def NotifyAll_def Let_def wake_same split: if_splits)
  next
    case ShutdownObtain
    then show ?thesis using assms(1) by (auto simp: Shutdown_obtain_def ObtainDeadWorkersLocked_def split: if_splits)
  next
    case ShutdownJoin
    then show ?thesis using assms(1) by (auto split: ShutdownThread.splits list.splits)
  qed (use assms in \<open>auto simp: Shutdown_wait_def Shutdown_finish_def split: if_splits\<close>)
  then show "started p' = started p" "finished p' = finished p" "prefix (submitted p) (submitted p')"
    "shutting_down p \<Longrightarrow> shutting_down p' \<and> submitted p' = submitted p"
    "state p' w = state p w \<or> waits (state p w) \<and> state p' w = wake False (state p w) \<or>
     w = workers_created p \<and> (tasks p \<noteq> [] \<or> \<not> shutting_down p)" by blast+
qed

text \<open>How far a worker is from its end once the queue is empty and the pool shuts down.\<close>

fun rank :: "WorkerState \<Rightarrow> nat" where
  "rank NotStarted = 6" | "rank LoopHead = 5" | "rank (RunningTask _) = 5" | "rank HookWaiting = 3" | "rank (HookWoken _) = 2"
| "rank Waiting = 3" | "rank (Woken _) = 2" | "rank IdleHook = 1" | "rank _ = 0"

lemma rank_gone [simp]: "is_gone st \<Longrightarrow> rank st = 0"
  by (cases st) simp_all

definition worker_step :: "nat \<Rightarrow> Pool \<Rightarrow> Pool \<Rightarrow> bool" where
  "worker_step w p p' \<longleftrightarrow> submitted p' = submitted p \<and> shutting_down p' = shutting_down p \<and> prefix (started p) (started p') \<and>
     (\<forall>v. v \<noteq> w \<longrightarrow> state p' v = state p v) \<and> set (finished p) \<subseteq> set (finished p') \<and>
     (is_gone (state p w) \<longrightarrow> is_gone (state p' w)) \<and>
     (tasks p \<noteq> [] \<and> \<not> is_gone (state p w) \<and> \<not> waits (state p w) \<longrightarrow>
        started p' \<noteq> started p \<or> state p w \<noteq> LoopHead \<and> \<not> is_running (state p w) \<and> state p' w = LoopHead) \<and>
     (tasks p = [] \<and> shutting_down p \<and> \<not> is_gone (state p w) \<longrightarrow> rank (state p' w) < rank (state p w)) \<and>
     (\<forall>task. state p w = RunningTask task \<longrightarrow> task \<in> set (finished p')) \<and>
     (\<forall>v. v \<noteq> w \<longrightarrow> died p' v = died p v) \<and> (shutdown_thread p \<noteq> ExitWaiting \<longrightarrow> shutdown_thread p' = shutdown_thread p)"

lemma own_step:
  assumes "enabled a p" "apply_action a p = Some p'" "actor a = Some w"
  shows "worker_step w p p'"
proof (cases a)
  case (EnterLoop v hook)
  then show ?thesis using assms loop_head_moves [of hook w p p']
    by (cases "tasks p") (auto simp: worker_step_def moves_to_def)
next
  case (TaskDone v hook)
  then obtain task where t: "state p w = RunningTask task" "drain hook w (p\<lparr>finished := finished p @ [task]\<rparr>) = Some p'"
    using assms by (auto split: WorkerState.splits)
  then show ?thesis using drain_moves [OF t(2)]
    by (cases "tasks p") (auto simp: worker_step_def moves_to_def)
next
  case (HookDone v)
  then show ?thesis using assms after_hook_moves [of w p p'] by (auto simp: worker_step_def moves_to_def split: if_splits)
next
  case (HookWaitDone v notify)
  then obtain b where b: "state p w = HookWoken b" "after_hook_wait w b notify p = Some p'" using assms by (auto split: WorkerState.splits)
  then show ?thesis using after_hook_wait_moves [OF b(2)] by (auto simp: worker_step_def moves_to_def split: if_splits)
next
  case (WakeUp v b)
  then show ?thesis using assms by (cases "state p w") (auto simp: worker_step_def)
next
  case (WaitDone v)
  then obtain b where b: "state p w = Woken b" "after_wait w b p = Some p'" using assms by (auto split: WorkerState.splits)
  then show ?thesis using after_wait_moves [OF b(2)] by (auto simp: worker_step_def moves_to_def split: if_splits)
next
  case (JoinDead v)
  then show ?thesis using assms by (auto simp: worker_step_def split: WorkerState.splits list.splits)
qed (use assms in \<open>auto simp: worker_step_def\<close>)

section \<open>Every task runs and every shutdown ends\<close>

lemma execution_cases [consumes 1, case_names idle outside worker]:
  assumes "pool_execution max_size run"
  obtains (idle) "run (Suc i) = run i"
  | (outside) a where "actor a = None" "apply_action a (run i) = Some (run (Suc i))"
  | (worker) w where "worker_step w (run i) (run (Suc i))"
proof -
  consider "run (Suc i) = run i" | a where "enabled a (run i)" "apply_action a (run i) = Some (run (Suc i))"
    using assms unfolding pool_execution_def step_iff by metis
  then show thesis
  proof cases
    case 2
    then show thesis using outside worker own_step by (cases "actor a") blast+
  qed (rule idle)
qed

lemma execution_pending: "pool_execution max_size run \<Longrightarrow> pending_tasks (run i) = length (tasks (run i))"
  using execution_inv by (simp add: pool_inv_def core_inv_def counts_ok_def)

lemma execution_Suc:
  assumes e: "pool_execution max_size run"
  shows "prefix (started (run i)) (started (run (Suc i)))" "prefix (submitted (run i)) (submitted (run (Suc i)))"
    "set (finished (run i)) \<subseteq> set (finished (run (Suc i)))"
    "shutting_down (run i) \<Longrightarrow> shutting_down (run (Suc i)) \<and> submitted (run (Suc i)) = submitted (run i)"
proof -
  have "prefix (started (run i)) (started (run (Suc i))) \<and> prefix (submitted (run i)) (submitted (run (Suc i))) \<and>
    set (finished (run i)) \<subseteq> set (finished (run (Suc i))) \<and>
    (shutting_down (run i) \<longrightarrow> shutting_down (run (Suc i)) \<and> submitted (run (Suc i)) = submitted (run i))"
    using e
  proof (cases rule: execution_cases [where i = i])
    case (outside a)
    then show ?thesis using outside_step(1-4) [OF outside(2,1) execution_pending [OF e]] by simp
  qed (simp_all add: worker_step_def)
  then show "prefix (started (run i)) (started (run (Suc i)))" "prefix (submitted (run i)) (submitted (run (Suc i)))"
    "set (finished (run i)) \<subseteq> set (finished (run (Suc i)))"
    "shutting_down (run i) \<Longrightarrow> shutting_down (run (Suc i)) \<and> submitted (run (Suc i)) = submitted (run i)" by blast+
qed

lemma execution_mono:
  assumes e: "pool_execution max_size run" and "i \<le> j"
  shows "prefix (started (run i)) (started (run j))" "prefix (submitted (run i)) (submitted (run j))"
    "set (finished (run i)) \<subseteq> set (finished (run j))"
    "shutting_down (run i) \<Longrightarrow> shutting_down (run j) \<and> submitted (run j) = submitted (run i)"
proof -
  have "prefix (started (run i)) (started (run j)) \<and> prefix (submitted (run i)) (submitted (run j)) \<and>
    set (finished (run i)) \<subseteq> set (finished (run j)) \<and>
    (shutting_down (run i) \<longrightarrow> shutting_down (run j) \<and> submitted (run j) = submitted (run i))"
    using assms(2)
  proof (induction rule: dec_induct)
    case (step n)
    then show ?case using execution_Suc [OF e, of n] by (metis prefix_order.trans subset_trans)
  qed simp
  then show "prefix (started (run i)) (started (run j))" "prefix (submitted (run i)) (submitted (run j))"
    "set (finished (run i)) \<subseteq> set (finished (run j))"
    "shutting_down (run i) \<Longrightarrow> shutting_down (run j) \<and> submitted (run j) = submitted (run i)" by blast+
qed

text \<open>While there are tasks, a worker that is awake moves to the head of its loop or starts one.\<close>

lemma busy_change:
  assumes e: "pool_execution max_size run" and "tasks (run k) \<noteq> []" "state (run (Suc k)) w \<noteq> state (run k) w"
    "\<not> is_gone (state (run k) w)" "\<not> waits (state (run k) w)" "started (run (Suc k)) = started (run k)"
  shows "state (run k) w \<noteq> LoopHead \<and> \<not> is_running (state (run k) w) \<and> state (run (Suc k)) w = LoopHead"
  using e
proof (cases rule: execution_cases [where i = k])
  case (outside a)
  have "w \<noteq> workers_created (run k)"
    using execution_inv [OF e, of k] assms(4) by (auto simp: pool_inv_def core_inv_def lists_ok_def)
  then show ?thesis using outside_step(5) [OF outside(2,1) execution_pending [OF e], of w] assms(3,5) by auto
next
  case (worker v)
  then have "v = w" using assms(3) by (auto simp: worker_step_def)
  then show ?thesis using worker assms by (simp add: worker_step_def)
qed (use assms(3) in simp)

lemma awake_worker:
  assumes inv: "pool_inv max_size p" and t: "tasks p \<noteq> []"
  obtains w where "\<not> is_gone (state p w)" "\<not> waits (state p w)"
proof (cases "idle_workers p")
  case Nil
  then obtain w where "w \<in> set (running_workers p)" using inv t by (cases "running_workers p") (auto simp: pool_inv_def wakeups_ok_def live_workers_def)
  then have "is_running (state p w)" using inv by (simp add: pool_inv_def core_inv_def lists_ok_def)
  then show thesis using that [of w] by (cases "state p w") auto
next
  case (Cons v vs)
  then have "0 < awake_idle p" using inv t by (cases "tasks p") (auto simp: pool_inv_def wakeups_ok_def)
  then obtain w where "w \<in> set (idle_workers p)" "\<not> waits (state p w)" by (auto simp: awake_idle_def filter_empty_conv)
  moreover have "is_idle (state p w)" using calculation(1) inv by (simp add: pool_inv_def core_inv_def lists_ok_def)
  ultimately show thesis using that by (auto simp: is_idle_def)
qed

lemma task_starts:
  assumes e: "pool_execution max_size run" and f: "fair run" and t: "tasks (run i) \<noteq> []"
  obtains j where "i < j" "length (started (run i)) < length (started (run j))"
proof (rule ccontr)
  assume "\<not> thesis"
  then have le: "length (started (run j)) \<le> length (started (run i))" if "i < j" for j using that \<open>\<And>j. _ \<Longrightarrow> _ \<Longrightarrow> thesis\<close> by (meson not_less)
  have same: "started (run j) = started (run i)" if "i \<le> j" for j
    using execution_mono(1) [OF e that] le [of j] that by (cases "i = j") (auto simp: prefix_def)
  have ts: "tasks (run j) \<noteq> []" if "i \<le> j" for j
  proof -
    have "submitted (run k) = started (run k) @ tasks (run k)" for k
      using execution_inv [OF e, of k] by (simp add: pool_inv_def core_inv_def order_ok_def)
    then show ?thesis using execution_mono(2) [OF e that] same [OF that] t by (auto simp: prefix_def)
  qed
  have change: "\<exists>k\<ge>i. state (run k) w = LoopHead" "state (run j) w \<noteq> LoopHead \<and> \<not> is_running (state (run j) w)"
    if j: "i \<le> j" "\<not> is_gone (state (run j) w)" "\<not> waits (state (run j) w)" for j w
  proof -
    have "due (state (run j) w)" using j by (auto simp: due_def)
    then obtain k where k: "j \<le> k" "state (run k) w = state (run j) w" "state (run (Suc k)) w \<noteq> state (run k) w"
      by (rule fair_change [OF f])
    then have "state (run k) w \<noteq> LoopHead \<and> \<not> is_running (state (run k) w) \<and> state (run (Suc k)) w = LoopHead"
      using busy_change [OF e ts [of k] k(3)] same [of k] same [of "Suc k"] j by simp
    then show "\<exists>k\<ge>i. state (run k) w = LoopHead" "state (run j) w \<noteq> LoopHead \<and> \<not> is_running (state (run j) w)"
      using k j(1) le_SucI le_trans by (metis, simp)
  qed
  obtain w where "\<not> is_gone (state (run i) w)" "\<not> waits (state (run i) w)" by (rule awake_worker [OF execution_inv [OF e] t])
  then obtain k where "i \<le> k" "state (run k) w = LoopHead" using change(1) [of i w] by blast
  then show False using change(2) [of k w] by simp
qed

lemma queue_advances:
  assumes e: "pool_execution max_size run" and f: "fair run" and n: "n < length (submitted (run i))"
  shows "\<exists>j\<ge>i. n < length (started (run j))"
  using n
proof (induction "Suc n - length (started (run i))" arbitrary: i rule: less_induct)
  case less
  show ?case
  proof (cases "n < length (started (run i))")
    case False
    have "submitted (run i) = started (run i) @ tasks (run i)"
      using execution_inv [OF e, of i] by (simp add: pool_inv_def core_inv_def order_ok_def)
    then have "tasks (run i) \<noteq> []" using less.prems False by auto
    then obtain j where j: "i < j" "length (started (run i)) < length (started (run j))" by (rule task_starts [OF e f])
    have "n < length (submitted (run j))"
      using less.prems execution_mono(2) [OF e, of i j] j(1) by (auto dest: prefix_length_le)
    moreover have "Suc n - length (started (run j)) < Suc n - length (started (run i))" using j False by linarith
    ultimately obtain k where "j \<le> k" "n < length (started (run k))" using less.hyps by blast
    then show ?thesis using j(1) by (meson le_trans less_imp_le)
  qed auto
qed

lemma running_task_finishes:
  assumes e: "pool_execution max_size run" and f: "fair run" and w: "state (run i) w = RunningTask task"
  shows "\<exists>j\<ge>i. task \<in> set (finished (run j))"
proof -
  have "due (state (run i) w)" using w by (simp add: due_def)
  then obtain k where k: "i \<le> k" "state (run k) w = state (run i) w" "state (run (Suc k)) w \<noteq> state (run k) w"
    by (rule fair_change [OF f])
  have "task \<in> set (finished (run (Suc k)))"
    using e
  proof (cases rule: execution_cases [where i = k])
    case (outside a)
    have "w \<noteq> workers_created (run k)"
      using execution_inv [OF e, of k] k(2) w by (auto simp: pool_inv_def core_inv_def lists_ok_def)
    then show ?thesis using outside_step(5) [OF outside(2,1) execution_pending [OF e], of w] k(2,3) w by auto
  next
    case (worker v)
    then have "v = w" using k(3) by (auto simp: worker_step_def)
    then show ?thesis using worker k(2) w by (simp add: worker_step_def)
  qed (use k(3) in simp)
  then show ?thesis using k(1) le_SucI by blast
qed

text \<open>Once the pool shuts down and the queue is empty, workers only come closer to their end.\<close>

lemma closing_step:
  assumes e: "pool_execution max_size run" and d: "shutting_down (run k)" "tasks (run k) = []" "state (run (Suc k)) w \<noteq> state (run k) w"
  shows "if is_gone (state (run k) w) then is_gone (state (run (Suc k)) w) else rank (state (run (Suc k)) w) < rank (state (run k) w)"
  using e
proof (cases rule: execution_cases [where i = k])
  case (outside a)
  have "waits (state (run k) w)" "state (run (Suc k)) w = wake False (state (run k) w)"
    using outside_step(5) [OF outside(2,1) execution_pending [OF e], of w] d by auto
  then show ?thesis by (cases "state (run k) w") auto
next
  case (worker v)
  then have "v = w" using d(3) by (auto simp: worker_step_def)
  then show ?thesis using worker d by (simp add: worker_step_def)
qed (use d(3) in simp)

lemma closing_tasks:
  assumes e: "pool_execution max_size run" and d: "shutting_down (run i)" "tasks (run i) = []" "i \<le> j"
  shows "shutting_down (run j)" "tasks (run j) = []"
proof -
  have o: "submitted (run k) = started (run k) @ tasks (run k)" for k
    using execution_inv [OF e, of k] by (simp add: pool_inv_def core_inv_def order_ok_def)
  show "shutting_down (run j)" using execution_mono(4) [OF e d(3) d(1)] by simp
  have "prefix (started (run i)) (started (run j))" by (rule execution_mono(1) [OF e d(3)])
  then show "tasks (run j) = []" using execution_mono(4) [OF e d(3) d(1)] o [of i] o [of j] d(2) by (auto simp: prefix_def)
qed

lemma worker_ends:
  assumes e: "pool_execution max_size run" and f: "fair run" and d: "shutting_down (run i)" "tasks (run i) = []"
  shows "\<exists>j\<ge>i. is_gone (state (run j) w)"
  using d
proof (induction "rank (state (run i) w)" arbitrary: i rule: less_induct)
  case less
  show ?case
  proof (cases "is_gone (state (run i) w)")
    case False
    have "state (run i) w \<noteq> Waiting" using execution_inv [OF e, of i] less.prems by (auto simp: pool_inv_def wakeups_ok_def)
    then have "due (state (run i) w)" using False by (simp add: due_def)
    then obtain k where k: "i \<le> k" "state (run k) w = state (run i) w" "state (run (Suc k)) w \<noteq> state (run k) w"
      by (rule fair_change [OF f])
    note closed = closing_tasks [OF e less.prems]
    have "rank (state (run (Suc k)) w) < rank (state (run i) w)"
      using closing_step [OF e closed [OF k(1)] k(3)] False k(2) by simp
    then obtain j where "Suc k \<le> j" "is_gone (state (run j) w)"
      using less.hyps [of "Suc k"] closed [of "Suc k"] k(1) by auto
    then show ?thesis using k(1) by (meson Suc_leD le_trans)
  qed auto
qed

lemma gone_stays:
  assumes e: "pool_execution max_size run" and d: "shutting_down (run i)" "tasks (run i) = []" "is_gone (state (run i) w)" and "i \<le> j"
  shows "is_gone (state (run j) w)"
  using \<open>i \<le> j\<close>
proof (induction rule: dec_induct)
  case (step n)
  then show ?case using closing_step [OF e closing_tasks [OF e d(1,2) step.hyps(1)], of w] by (cases "state (run (Suc n)) w = state (run n) w") auto
qed (rule d(3))

section \<open>The threads of the workers end and are joined\<close>

text \<open>What fairness means for the threads that leave: a thread ends, and a join returns, once the thread joined has ended.\<close>

definition can_leave :: "Pool \<Rightarrow> nat \<Rightarrow> bool" where
  "can_leave p w \<longleftrightarrow> (case state p w of Exiting [] \<Rightarrow> True | Exiting (d # _) \<Rightarrow> state p d = Exited | _ \<Rightarrow> False)"

definition shutdown_due :: "Pool \<Rightarrow> bool" where
  "shutdown_due p \<longleftrightarrow>
     (case shutdown_thread p of ExitCheck \<Rightarrow> True | Leaving \<Rightarrow> True | Joining [] \<Rightarrow> True | Joining (d # _) \<Rightarrow> state p d = Exited
      | _ \<Rightarrow> False)"

definition exits_fair :: "(nat \<Rightarrow> Pool) \<Rightarrow> bool" where
  "exits_fair run \<longleftrightarrow> (\<forall>i w. can_leave (run i) w \<longrightarrow> (\<exists>j>i. state (run j) w \<noteq> state (run i) w)) \<and>
     (\<forall>i. shutdown_due (run i) \<longrightarrow> (\<exists>j>i. shutdown_thread (run j) \<noteq> shutdown_thread (run i)))"

fun joins_left :: "WorkerState \<Rightarrow> nat" where
  "joins_left (Exiting ds) = Suc (length ds)" | "joins_left _ = 0"

lemma gone_step:
  assumes "enabled a p" "apply_action a p = Some p'" "actor a = Some w" "is_gone (state p w)"
  shows "died p' w = died p w \<and> joins_left (state p' w) < joins_left (state p w)"
proof (cases a)
  case (JoinDead v)
  then show ?thesis using assms by (auto split: WorkerState.splits list.splits)
next
  case (ThreadExit v)
  then show ?thesis using assms by auto
next
  case (WakeUp v b)
  then show ?thesis using assms by (cases "state p w") auto
qed (use assms in \<open>auto split: WorkerState.splits\<close>)

lemma outside_died:
  assumes "apply_action a p = Some p'" "actor a = None"
  shows "died p' = died p"
proof (cases a)
  case (Run task pick)
  then show ?thesis using assms(1)
    by (auto simp: RunImpl_def ScheduleTaskLocked_def Notify_def new_worker_def Let_def bind_Some split: if_splits option.splits)
next
  case ShutdownJoin
  then show ?thesis using assms(1) by (auto split: ShutdownThread.splits list.splits)
qed (use assms in \<open>auto simp: MarkCurrentWorkerAsBlocked_def MarkCurrentWorkerAsUnBlocked_def new_worker_def Shutdown_request_def
  Shutdown_wait_def Shutdown_obtain_def Shutdown_finish_def ObtainDeadWorkersLocked_def NotifyAll_def Let_def split: if_splits\<close>)

text \<open>From \<open>i\<close> on the pool is closed: it shuts down, there are no tasks, and every worker has died.\<close>

definition closed :: "(nat \<Rightarrow> Pool) \<Rightarrow> nat \<Rightarrow> bool" where
  "closed run i \<longleftrightarrow> shutting_down (run i) \<and> tasks (run i) = [] \<and> (\<forall>w. is_gone (state (run i) w))"

lemma pool_empties:
  assumes e: "pool_execution max_size run" and f: "fair run" and d: "shutting_down (run i)" "tasks (run i) = []"
  shows "\<exists>j\<ge>i. closed run j"
proof -
  have all: "\<exists>j\<ge>i. \<forall>w<n. is_gone (state (run j) w)" for n
  proof (induction n)
    case (Suc n)
    then obtain j where j: "i \<le> j" "\<forall>w<n. is_gone (state (run j) w)" by blast
    note closed = closing_tasks [OF e d j(1)]
    obtain k where "j \<le> k" "is_gone (state (run k) n)" using worker_ends [OF e f closed] by blast
    then show ?case using gone_stays [OF e closed] j le_trans less_Suc_eq by metis
  qed auto
  obtain j where j: "i \<le> j" "\<forall>w<workers_created (run i). is_gone (state (run j) w)" using all by blast
  have "is_gone (state (run j) w)" for w
  proof (cases "w < workers_created (run i)")
    case False
    then have "is_gone (state (run i) w)" using execution_inv [OF e, of i] by (auto simp: pool_inv_def core_inv_def lists_ok_def not_less)
    then show ?thesis using gone_stays [OF e d _ j(1)] by blast
  qed (use j in blast)
  then show ?thesis using closing_tasks [OF e d j(1)] j(1) by (auto simp: closed_def)
qed

lemma all_gone_dead:
  assumes inv: "pool_inv max_size p" and "shutting_down p" "\<And>w. is_gone (state p w)"
  shows "all_workers_dead p"
proof -
  have "\<not> is_running (state p w)" "\<not> is_idle (state p w)" for w
    using assms(3) [of w] by (auto simp: is_idle_def elim: is_running.elims)
  moreover have "w \<in> set (running_workers p) \<longleftrightarrow> is_running (state p w)" "w \<in> set (idle_workers p) \<longleftrightarrow> is_idle (state p w)" for w
    using inv by (simp_all add: pool_inv_def core_inv_def lists_ok_def)
  ultimately have "w \<notin> set (live_workers p)" for w by (simp add: live_workers_def)
  then have "live_workers p = []" by (metis last_in_set)
  then show ?thesis using inv assms(2) by (simp add: pool_inv_def wakeups_ok_def)
qed

lemma closed_stays: "pool_execution max_size run \<Longrightarrow> closed run i \<Longrightarrow> i \<le> j \<Longrightarrow> closed run j"
  using closing_tasks [of max_size run i j] gone_stays [of max_size run i _ j] by (auto simp: closed_def)

lemma closed_step:
  assumes e: "pool_execution max_size run" and c: "closed run k"
  shows "died (run (Suc k)) w = died (run k) w"
    "state (run (Suc k)) w \<noteq> state (run k) w \<Longrightarrow> joins_left (state (run (Suc k)) w) < joins_left (state (run k) w)"
proof -
  have "died (run (Suc k)) w = died (run k) w \<and>
    (state (run (Suc k)) w \<noteq> state (run k) w \<longrightarrow> joins_left (state (run (Suc k)) w) < joins_left (state (run k) w))"
  proof (cases "run (Suc k) = run k")
    case False
    then obtain a where a: "enabled a (run k)" "apply_action a (run k) = Some (run (Suc k))"
      using e unfolding pool_execution_def step_iff by metis
    have g: "is_gone (state (run k) w)" using c by (simp add: closed_def)
    show ?thesis
    proof (cases "actor a")
      case None
      have "\<not> waits (state (run k) w)" using g by (cases "state (run k) w") auto
      then show ?thesis
        using outside_died [OF a(2) None] outside_step(5) [OF a(2) None execution_pending [OF e], of w] c by (auto simp: closed_def)
    next
      case (Some v)
      then show ?thesis
        using gone_step [OF a, of w] own_step [OF a, of v] g by (cases "v = w") (auto simp: worker_step_def)
    qed
  qed simp
  then show "died (run (Suc k)) w = died (run k) w"
    "state (run (Suc k)) w \<noteq> state (run k) w \<Longrightarrow> joins_left (state (run (Suc k)) w) < joins_left (state (run k) w)" by blast+
qed

lemma closed_died:
  assumes "pool_execution max_size run" "closed run i" "i \<le> j"
  shows "died (run j) w = died (run i) w"
  using assms(3)
proof (induction rule: dec_induct)
  case (step n)
  then show ?case using closed_step(1) [OF assms(1) closed_stays [OF assms(1,2) step.hyps(1)]] by simp
qed simp

text \<open>A worker ends because those it joins died before it and end first.\<close>

lemma joins_earlier_deaths: "pool_inv max_size p \<Longrightarrow> state p w = Exiting ds \<Longrightarrow> d \<in> set ds \<Longrightarrow> died p d < died p w"
  unfolding pool_inv_def core_inv_def deaths_ok_def by blast

lemma worker_exits:
  assumes e: "pool_execution max_size run" and f: "exits_fair run"
  shows "closed run i \<Longrightarrow> \<exists>j\<ge>i. state (run j) w = Exited"
proof (induction "died (run i) w" arbitrary: w i rule: less_induct)
  case outer: less
  from outer.prems outer.hyps show ?case
  proof (induction "joins_left (state (run i) w)" arbitrary: i rule: less_induct)
    case less
    show ?case
    proof (cases "state (run i) w = Exited")
      case False
      then obtain ds where ds: "state (run i) w = Exiting ds" using less.prems(1) by (auto simp: closed_def elim: is_gone.elims)
      have "\<exists>m>i. state (run m) w \<noteq> state (run i) w"
      proof (cases ds)
        case Nil
        then have "can_leave (run i) w" using ds by (simp add: can_leave_def)
        then show ?thesis using f by (simp add: exits_fair_def)
      next
        case (Cons d es)
        have "died (run i) d < died (run i) w"
          using joins_earlier_deaths [OF execution_inv [OF e] ds] Cons by simp
        then obtain m where m: "i \<le> m" "state (run m) d = Exited" using less.prems by blast
        show ?thesis
        proof (cases "state (run m) w = state (run i) w")
          case True
          then have "can_leave (run m) w" using m(2) ds Cons by (simp add: can_leave_def)
          then obtain n where "m < n" "state (run n) w \<noteq> state (run m) w" using f unfolding exits_fair_def by blast
          then show ?thesis using True m(1) by (metis le_less_trans)
        next
          case False
          then show ?thesis using m(1) by (metis le_neq_implies_less)
        qed
      qed
      then obtain m where "i < m" "state (run m) w \<noteq> state (run i) w" by blast
      then obtain k where k: "i \<le> k" "state (run k) w = state (run i) w" "state (run (Suc k)) w \<noteq> state (run k) w"
        by (rule first_change [where f = "\<lambda>k. state (run k) w"])
      have c: "closed run k" "closed run (Suc k)" using closed_stays [OF e less.prems(1)] k(1) by simp_all
      have "\<exists>j\<ge>Suc k. state (run j) w = Exited"
      proof (rule less.hyps [OF _ c(2)])
        show "joins_left (state (run (Suc k)) w) < joins_left (state (run i) w)" using closed_step(2) [OF e c(1) k(3)] k(2) by simp
        show "\<And>w' i'. died (run i') w' < died (run (Suc k)) w \<Longrightarrow> closed run i' \<Longrightarrow> \<exists>j\<ge>i'. state (run j) w' = Exited"
          using less.prems(2) closed_died [OF e less.prems(1), of "Suc k" w] k(1) by simp
      qed
      then show ?thesis using k(1) by (meson Suc_leD le_trans)
    qed auto
  qed
qed

section \<open>The call of \<open>Shutdown\<close> returns\<close>

text \<open>When \<open>Shutdown\<close> has returned, every worker has been joined and every task has finished.\<close>

lemma dead_pool:
  assumes inv: "pool_inv max_size p" and d: "all_workers_dead p"
  shows "is_gone (state p w)" "tasks p = []" "set (finished p) = set (submitted p)"
proof -
  have li: "lists_ok p" and o: "order_ok p" and r: "runs_ok p" and wk: "wakeups_ok p" using inv by (simp_all add: pool_inv_def core_inv_def)
  have e: "running_workers p = []" "idle_workers p = []" using wk d by (auto simp: wakeups_ok_def live_workers_def)
  then have n: "\<not> is_running (state p v)" "\<not> is_idle (state p v)" for v using li by (auto simp: lists_ok_def)
  then show "is_gone (state p w)" by (auto simp: is_idle_def)
  show t: "tasks p = []" using wk e by (auto simp: wakeups_ok_def live_workers_def)
  have "state p v \<noteq> RunningTask task" for v task using n(1) [of v] by auto
  then show "set (finished p) = set (submitted p)" using o r t by (auto simp: order_ok_def runs_ok_def)
qed

lemma returned_joined:
  assumes inv: "pool_inv max_size p" and ret: "shutdown_thread p = Returned"
  shows "state p w = Exited" "set (joined p) = {..<workers_created p}"
proof -
  have li: "lists_ok p" and jo: "joins_ok p" and de: "deaths_ok p" and so: "shutdown_ok p"
    using inv by (simp_all add: pool_inv_def core_inv_def)
  have dead: "all_workers_dead p" "dead_workers p = []" using so ret by (simp_all add: shutdown_ok_def)
  have cr: "v < workers_created p" if "state p v \<noteq> Exited" for v using li that by (auto simp: lists_ok_def not_le [symmetric])
  have owned: "v \<in> set (joined p) \<or> (\<exists>u ds. state p u = Exiting ds \<and> v \<in> set ds)" if "v < workers_created p" for v
    using de that dead_pool(1) [OF inv dead(1), of v] dead(2) ret by (simp add: deaths_ok_def)
  have j: "state p v = Exited \<and> v < workers_created p" if "v \<in> set (joined p)" for v using jo that by (simp add: joins_ok_def)
  have all: "state p v = Exited" for v
  proof (rule ccontr)
    assume "state p v \<noteq> Exited"
    define A where "A = {v. state p v \<noteq> Exited}"
    have fin: "finite A" by (rule finite_subset [of _ "{..<workers_created p}"]) (auto simp: A_def cr)
    then have "Max (died p ` A) \<in> died p ` A" using \<open>state p v \<noteq> Exited\<close> by (intro Max_in) (auto simp: A_def)
    then obtain u where u: "u \<in> A" "died p u = Max (died p ` A)" by auto
    then have "u \<notin> set (joined p)" using j by (auto simp: A_def)
    then obtain x ds where x: "state p x = Exiting ds" "u \<in> set ds" using owned [of u] cr [of u] u(1) by (auto simp: A_def)
    have "died p u < died p x" by (rule joins_earlier_deaths [OF inv x])
    moreover have "died p x \<le> Max (died p ` A)" using fin x(1) by (intro Max_ge) (auto simp: A_def)
    ultimately show False using u(2) by simp
  qed
  then show "state p w = Exited" .
  show "set (joined p) = {..<workers_created p}" using owned all j by fastforce
qed

lemma outside_shutdown:
  assumes "enabled a p" "apply_action a p = Some p'" "actor a = None" "shutdown_thread p' \<noteq> shutdown_thread p"
  shows "shutdown_thread p = NoShutdown \<or> shutdown_thread p = ExitWaiting \<or> shutdown_thread p = Returned \<or>
    shutdown_thread p = ExitCheck \<and> (all_workers_dead p \<longrightarrow> shutdown_thread p' = Leaving) \<or>
    shutdown_thread p = Leaving \<and> (\<exists>ds. shutdown_thread p' = Joining ds) \<or>
    (\<exists>d ds. shutdown_thread p = Joining (d # ds) \<and> shutdown_thread p' = Joining ds) \<or>
    shutdown_thread p = Joining [] \<and> shutdown_thread p' = Returned"
proof (cases a)
  case (Run task pick)
  then show ?thesis using assms(2,4)
    by (auto simp: RunImpl_def ScheduleTaskLocked_def Notify_def new_worker_def Let_def bind_Some split: if_splits option.splits)
next
  case ShutdownJoin
  then show ?thesis using assms(1,2) by (auto split: ShutdownThread.splits list.splits)
qed (use assms in \<open>auto simp: MarkCurrentWorkerAsBlocked_def MarkCurrentWorkerAsUnBlocked_def new_worker_def Shutdown_request_def
  Shutdown_wait_def Shutdown_obtain_def Shutdown_finish_def ObtainDeadWorkersLocked_def NotifyAll_def Let_def split: if_splits\<close>)

lemma shutdown_step:
  assumes e: "pool_execution max_size run" and c: "closed run k" and ch: "shutdown_thread (run (Suc k)) \<noteq> shutdown_thread (run k)"
  shows "case shutdown_thread (run k) of
     ExitCheck \<Rightarrow> shutdown_thread (run (Suc k)) = Leaving
   | Leaving \<Rightarrow> (\<exists>ds. shutdown_thread (run (Suc k)) = Joining ds)
   | Joining [] \<Rightarrow> shutdown_thread (run (Suc k)) = Returned
   | Joining (d # ds) \<Rightarrow> shutdown_thread (run (Suc k)) = Joining ds
   | Returned \<Rightarrow> True
   | _ \<Rightarrow> False"
proof -
  have inv: "pool_inv max_size (run k)" by (rule execution_inv [OF e])
  have dead: "all_workers_dead (run k)" using all_gone_dead [OF inv] c by (simp add: closed_def)
  have th: "shutdown_thread (run k) \<noteq> NoShutdown" "shutdown_thread (run k) \<noteq> ExitWaiting"
    using inv dead c by (auto simp: pool_inv_def shutdown_ok_def closed_def)
  obtain a where a: "enabled a (run k)" "apply_action a (run k) = Some (run (Suc k))"
    using e ch unfolding pool_execution_def step_iff by metis
  show ?thesis
  proof (cases "actor a")
    case None
    then show ?thesis using outside_shutdown [OF a None ch] th dead by (auto split: ShutdownThread.splits list.splits)
  next
    case (Some w)
    then show ?thesis using own_step [OF a Some] th(2) ch by (simp add: worker_step_def)
  qed
qed

text \<open>The thread in \<open>Shutdown\<close> moves on: it is not asleep, and the workers it joins end.\<close>

lemma shutdown_moves:
  assumes e: "pool_execution max_size run" and f: "exits_fair run" and c: "closed run i" and n: "shutdown_thread (run i) \<noteq> Returned"
  obtains k where "i \<le> k" "shutdown_thread (run k) = shutdown_thread (run i)" "shutdown_thread (run (Suc k)) \<noteq> shutdown_thread (run k)"
proof -
  have inv: "pool_inv max_size (run i)" by (rule execution_inv [OF e])
  have "all_workers_dead (run i)" using all_gone_dead [OF inv] c by (simp add: closed_def)
  then have th: "shutdown_thread (run i) \<noteq> NoShutdown" "shutdown_thread (run i) \<noteq> ExitWaiting"
    using inv c by (auto simp: pool_inv_def shutdown_ok_def closed_def)
  have "\<exists>m\<ge>i. shutdown_due (run m) \<or> shutdown_thread (run m) \<noteq> shutdown_thread (run i)"
  proof (cases "\<exists>d ds. shutdown_thread (run i) = Joining (d # ds)")
    case True
    then obtain d ds where d: "shutdown_thread (run i) = Joining (d # ds)" by blast
    obtain m where "i \<le> m" "state (run m) d = Exited" using worker_exits [OF e f c] by blast
    then show ?thesis using d by (auto simp: shutdown_due_def intro!: exI [of _ m])
  next
    case False
    then have "shutdown_due (run i)" using th n by (auto simp: shutdown_due_def split: ShutdownThread.splits list.splits)
    then show ?thesis by blast
  qed
  then obtain m where m: "i \<le> m" "shutdown_due (run m) \<or> shutdown_thread (run m) \<noteq> shutdown_thread (run i)" by blast
  have "\<exists>j>i. shutdown_thread (run j) \<noteq> shutdown_thread (run i)"
  proof (cases "shutdown_thread (run m) = shutdown_thread (run i)")
    case True
    then obtain j where "m < j" "shutdown_thread (run j) \<noteq> shutdown_thread (run m)" using m(2) f by (auto simp: exits_fair_def)
    then show ?thesis using True m(1) by (metis le_less_trans)
  next
    case False
    then show ?thesis using m(1) by (metis le_neq_implies_less)
  qed
  then obtain j where "i < j" "shutdown_thread (run j) \<noteq> shutdown_thread (run i)" by blast
  then show thesis by (rule first_change [where f = "\<lambda>k. shutdown_thread (run k)"]) (rule that)
qed

lemma joining_returns:
  assumes e: "pool_execution max_size run" and f: "exits_fair run"
  shows "closed run i \<Longrightarrow> shutdown_thread (run i) = Joining ds \<Longrightarrow> \<exists>j\<ge>i. shutdown_thread (run j) = Returned"
proof (induction ds arbitrary: i)
  case Nil
  obtain k where k: "i \<le> k" "shutdown_thread (run k) = Joining []" "shutdown_thread (run (Suc k)) \<noteq> shutdown_thread (run k)"
    by (rule shutdown_moves [OF e f Nil.prems(1)]) (use Nil.prems in auto)
  then have "shutdown_thread (run (Suc k)) = Returned" using shutdown_step [OF e closed_stays [OF e Nil.prems(1) k(1)] k(3)] by simp
  then show ?case using k(1) le_SucI by blast
next
  case (Cons d ds)
  obtain k where k: "i \<le> k" "shutdown_thread (run k) = Joining (d # ds)" "shutdown_thread (run (Suc k)) \<noteq> shutdown_thread (run k)"
    by (rule shutdown_moves [OF e f Cons.prems(1)]) (use Cons.prems in auto)
  then have "shutdown_thread (run (Suc k)) = Joining ds" using shutdown_step [OF e closed_stays [OF e Cons.prems(1) k(1)] k(3)] by simp
  then obtain j where "Suc k \<le> j" "shutdown_thread (run j) = Returned"
    using Cons.IH [of "Suc k"] closed_stays [OF e Cons.prems(1), of "Suc k"] k(1) by auto
  then show ?case using k(1) by (meson Suc_leD le_trans)
qed

lemma shutdown_returns:
  assumes e: "pool_execution max_size run" and f: "exits_fair run" and c: "closed run i"
  shows "\<exists>j\<ge>i. shutdown_thread (run j) = Returned"
proof -
  have leaving: "\<exists>j\<ge>m. shutdown_thread (run j) = Returned" if m: "closed run m" "shutdown_thread (run m) = Leaving" for m
  proof -
    obtain k where k: "m \<le> k" "shutdown_thread (run k) = Leaving" "shutdown_thread (run (Suc k)) \<noteq> shutdown_thread (run k)"
      by (rule shutdown_moves [OF e f m(1)]) (use m in auto)
    then obtain ds where "shutdown_thread (run (Suc k)) = Joining ds" using shutdown_step [OF e closed_stays [OF e m(1) k(1)] k(3)] by auto
    then show ?thesis using joining_returns [OF e f closed_stays [OF e m(1)]] k(1) by (meson Suc_leD le_SucI le_trans)
  qed
  have inv: "pool_inv max_size (run i)" by (rule execution_inv [OF e])
  have "all_workers_dead (run i)" using all_gone_dead [OF inv] c by (simp add: closed_def)
  then have "shutdown_thread (run i) \<noteq> NoShutdown" "shutdown_thread (run i) \<noteq> ExitWaiting"
    using inv c by (auto simp: pool_inv_def shutdown_ok_def closed_def)
  then show ?thesis
  proof (cases "shutdown_thread (run i)")
    case ExitCheck
    obtain k where k: "i \<le> k" "shutdown_thread (run k) = ExitCheck" "shutdown_thread (run (Suc k)) \<noteq> shutdown_thread (run k)"
      by (rule shutdown_moves [OF e f c]) (use ExitCheck in auto)
    then have "shutdown_thread (run (Suc k)) = Leaving" using shutdown_step [OF e closed_stays [OF e c k(1)] k(3)] by simp
    then show ?thesis using leaving closed_stays [OF e c] k(1) by (meson Suc_leD le_SucI le_trans)
  qed (use leaving [OF c] joining_returns [OF e f c] in auto)
qed

section \<open>Finite traces\<close>

text \<open>A list of actions gives an execution that takes them in turn and then idles.\<close>

fun trace :: "Action list \<Rightarrow> Pool \<Rightarrow> nat \<Rightarrow> Pool" where
  "trace [] p n = p"
| "trace (a # as) p 0 = p"
| "trace (a # as) p (Suc n) = (case apply_action a p of None \<Rightarrow> p | Some q \<Rightarrow> trace as q n)"

fun trace_ok :: "Action list \<Rightarrow> Pool \<Rightarrow> bool" where
  "trace_ok [] p \<longleftrightarrow> True"
| "trace_ok (a # as) p \<longleftrightarrow> enabled a p \<and> (case apply_action a p of None \<Rightarrow> False | Some q \<Rightarrow> trace_ok as q)"

lemma trace_0 [simp]: "trace as p 0 = p"
  by (cases as) simp_all

lemma trace_step: "trace_ok as p \<Longrightarrow> trace as p (Suc i) = trace as p i \<or> (\<exists>a. step a (trace as p i) (trace as p (Suc i)))"
proof (induction as p i rule: trace.induct)
  case (2 a as p)
  then show ?case by (auto simp: step_iff split: option.splits)
qed (auto split: option.splits)

lemma trace_beyond: "length as \<le> i \<Longrightarrow> trace as p i = trace as p (length as)"
  by (induction as p i rule: trace.induct) (auto split: option.splits)

lemma trace_execution: "trace_ok as (ThreadPool max_size) \<Longrightarrow> pool_execution max_size (trace as (ThreadPool max_size))"
  using trace_step by (auto simp: pool_execution_def)

lemma trace_fair:
  assumes "\<And>w. \<not> due (state (trace as p (length as)) w)"
  shows "fair (trace as p)"
  unfolding fair_def
proof (intro allI impI)
  fix i w assume d: "due (state (trace as p i) w)"
  then have "i < length as" using assms trace_beyond [of as i p] by (metis not_less)
  moreover have "state (trace as p (length as)) w \<noteq> state (trace as p i) w" using d assms by metis
  ultimately show "\<exists>j>i. state (trace as p j) w \<noteq> state (trace as p i) w" by blast
qed

lemma trace_exits_fair:
  assumes "\<And>w. state (trace as p (length as)) w = Exited" "shutdown_thread (trace as p (length as)) = Returned"
  shows "exits_fair (trace as p)"
  unfolding exits_fair_def
proof (intro conjI allI impI)
  fix i w assume c: "can_leave (trace as p i) w"
  then have "state (trace as p i) w \<noteq> Exited" by (auto simp: can_leave_def)
  moreover have "i < length as" using calculation assms(1) trace_beyond [of as i p] by (metis not_less)
  ultimately show "\<exists>j>i. state (trace as p j) w \<noteq> state (trace as p i) w" using assms(1) by metis
next
  fix i assume "shutdown_due (trace as p i)"
  then have "shutdown_thread (trace as p i) \<noteq> Returned" by (auto simp: shutdown_due_def)
  moreover have "i < length as" using calculation assms(2) trace_beyond [of as i p] by (metis not_less)
  ultimately show "\<exists>j>i. shutdown_thread (trace as p j) \<noteq> shutdown_thread (trace as p i)" using assms(2) by metis
qed

lemma trace_reachable: "trace_ok as p \<Longrightarrow> reachable max_size p \<Longrightarrow> reachable max_size (trace as p n)"
proof (induction as p n rule: trace.induct)
  case (3 a as p n)
  then obtain q where q: "enabled a p" "apply_action a p = Some q" "trace_ok as q" by (auto split: option.splits)
  then have "reachable max_size q" using next_step [OF 3(3)] by (auto simp: step_iff)
  then show ?case using 3(1) [OF q(2,3)] q(2) by simp
qed simp_all

lemmas trace_simps = ThreadPool_def RunImpl_def ScheduleTaskLocked_def new_worker_def goto_def Let_def loop_head_def IdleToRunningLocked_def
  drain_def RunningToIdleLocked_def after_drain_def OnEnterIdleLocked_def after_hook_def die_or_wait_def die_def ObtainDeadWorkersLocked_def
  IdleToDeadLocked_def exit_Notify_def Shutdown_request_def Shutdown_wait_def Shutdown_obtain_def Shutdown_finish_def NotifyAll_def decrement_def

definition sample_actions :: "Action list" where
  "sample_actions = [Run 7 None, StartThread 0, EnterLoop 0 HookReturns, TaskDone 0 HookReturns]"

definition shutdown_actions :: "Action list" where
  "shutdown_actions = [Run 7 None, StartThread 0, EnterLoop 0 HookReturns, ShutdownRequest, ShutdownWait,
     TaskDone 0 HookReturns, ShutdownWait, ShutdownObtain, ThreadExit 0, ShutdownJoin, ShutdownFinish]"

section \<open>Correctness of the pool\<close>

text \<open>
  C14. No assertion of the thread pool fails and no counter drops below zero, in whatever order the threads enter the monitor;
  tasks start in the order in which they were submitted, none twice, and a task that has started is running on one worker or
  has finished.
\<close>

theorem thread_pool_safe:
  assumes "reachable max_size p"
  shows "(\<forall>a. enabled a p \<longrightarrow> apply_action a p \<noteq> None) \<and>
    submitted p = started p @ tasks p \<and> distinct (submitted p) \<and> distinct (finished p) \<and>
    set (started p) = set (finished p) \<union> {task. \<exists>w. state p w = RunningTask task} \<and>
    (\<forall>w w' task. state p w = RunningTask task \<and> state p w' = RunningTask task \<longrightarrow> w = w' \<and> task \<notin> set (finished p))"
proof -
  have inv: "pool_inv max_size p" by (rule reachable_inv [OF assms])
  then have "order_ok p" and r: "runs_ok p" by (simp_all add: pool_inv_def core_inv_def)
  moreover have "\<forall>w w' task. state p w = RunningTask task \<and> state p w' = RunningTask task \<longrightarrow> w = w' \<and> task \<notin> set (finished p)"
    using r unfolding runs_ok_def by blast
  ultimately show ?thesis using apply_action_inv [OF inv] by (fastforce simp: order_ok_def runs_ok_def)
qed

theorem thread_pool_safe_witness:
  "started (trace sample_actions (ThreadPool 1) 3) = [7] \<and>
   submitted (trace sample_actions (ThreadPool 1) 3) =
     started (trace sample_actions (ThreadPool 1) 3) @ tasks (trace sample_actions (ThreadPool 1) 3)"
proof -
  have "trace_ok sample_actions (ThreadPool 1)" by (simp add: sample_actions_def trace_simps)
  then have "reachable 1 (trace sample_actions (ThreadPool 1) 3)" by (rule trace_reachable) (rule init)
  from thread_pool_safe [OF this] show ?thesis by (simp add: sample_actions_def trace_simps numeral_3_eq_3)
qed

text \<open>
  C13. No wake-up is lost: at any time, for every pending task up to the number of idle workers there is an idle worker that is
  not waiting on the monitor, so idle workers never sleep on work; while tasks are pending there is a worker, and after a shutdown
  request no worker waits for tasks.
\<close>

theorem no_lost_wakeup:
  assumes "reachable max_size p"
  shows "min (length (tasks p)) (length (idle_workers p)) \<le> length (filter (\<lambda>w. \<not> waits (state p w)) (idle_workers p)) \<and>
    (tasks p \<noteq> [] \<longrightarrow> running_workers p @ idle_workers p \<noteq> []) \<and>
    (shutting_down p \<longrightarrow> (\<forall>w. state p w \<noteq> Waiting))"
  using reachable_inv [OF assms] by (auto simp: pool_inv_def wakeups_ok_def awake_idle_def live_workers_def)

theorem no_lost_wakeup_witness:
  "min (length (tasks (trace sample_actions (ThreadPool 1) 2))) (length (idle_workers (trace sample_actions (ThreadPool 1) 2))) = 1 \<and>
   0 < length (filter (\<lambda>w. \<not> waits (state (trace sample_actions (ThreadPool 1) 2) w)) (idle_workers (trace sample_actions (ThreadPool 1) 2)))"
proof -
  have ok: "trace_ok sample_actions (ThreadPool 1)" by (simp add: sample_actions_def trace_simps)
  have "min (length (tasks (trace sample_actions (ThreadPool 1) 2))) (length (idle_workers (trace sample_actions (ThreadPool 1) 2))) = 1"
    by (simp add: sample_actions_def trace_simps numeral_2_eq_2)
  then show ?thesis using no_lost_wakeup [OF trace_reachable [OF ok init], of 2] by linarith
qed

text \<open>
  C4. Every task that \<open>Run\<close> accepts runs to its end: in every fair execution, whatever the pool size, the interleaving of
  submissions, wake-ups, time-outs, blocked workers and a shutdown request, each submitted task is eventually finished.
\<close>

theorem every_task_runs:
  assumes "pool_execution max_size run" "fair run" "task \<in> set (submitted (run i))"
  shows "\<exists>j\<ge>i. task \<in> set (finished (run j))"
proof -
  note e = assms(1) and f = assms(2) and t = assms(3)
  obtain n where n: "n < length (submitted (run i))" "submitted (run i) ! n = task" using t by (auto simp: in_set_conv_nth)
  then obtain j where j: "i \<le> j" "n < length (started (run j))" using queue_advances [OF e f] by blast
  have inv: "order_ok (run j)" "runs_ok (run j)" using execution_inv [OF e, of j] by (simp_all add: pool_inv_def core_inv_def)
  have "submitted (run j) ! n = task" using execution_mono(2) [OF e j(1)] n by (auto simp: prefix_def nth_append)
  then have "started (run j) ! n = task" using inv(1) j(2) by (simp add: order_ok_def nth_append)
  then have "task \<in> set (started (run j))" using j(2) nth_mem by blast
  then consider "task \<in> set (finished (run j))" | w where "state (run j) w = RunningTask task" using inv(2) by (auto simp: runs_ok_def)
  then show ?thesis using running_task_finishes [OF e f] j(1) by cases (meson le_trans)+
qed

theorem every_task_runs_witness: "\<exists>j\<ge>1. 7 \<in> set (finished (trace sample_actions (ThreadPool 1) j))"
proof -
  have "trace_ok sample_actions (ThreadPool 1)" by (simp add: sample_actions_def trace_simps)
  moreover have "\<not> due (state (trace sample_actions (ThreadPool 1) (length sample_actions)) w)" for w
    by (simp add: sample_actions_def trace_simps due_def)
  moreover have "7 \<in> set (submitted (trace sample_actions (ThreadPool 1) 1))" by (simp add: sample_actions_def trace_simps)
  ultimately show ?thesis using every_task_runs [OF trace_execution trace_fair] by blast
qed

lemma shutdown_sample:
  "trace_ok shutdown_actions (ThreadPool 1)"
  "state (trace shutdown_actions (ThreadPool 1) (length shutdown_actions)) w = Exited"
  "shutdown_thread (trace shutdown_actions (ThreadPool 1) (length shutdown_actions)) = Returned"
  by (simp_all add: shutdown_actions_def trace_simps)

text \<open>
  C5. A shutdown ends: in every fair execution, in which also threads end and joins of ended threads return, a call of \<open>Shutdown\<close>
  eventually returns.  It does not miss the notification of the exit monitor by the last worker that dies, the joins among the
  dying workers do not wait for each other, and when the call has returned every worker's thread has ended and every task
  submitted before the request has finished.
\<close>

theorem shutdown_terminates:
  assumes "pool_execution max_size run" "fair run" "exits_fair run" "shutting_down (run i)"
  shows "\<exists>j\<ge>i. shutdown_thread (run j) = Returned \<and> (\<forall>w. state (run j) w = Exited) \<and>
    set (finished (run j)) = set (submitted (run i))"
proof -
  note e = assms(1) and f = assms(2) and d = assms(4)
  have o: "submitted (run k) = started (run k) @ tasks (run k)" for k
    using execution_inv [OF e, of k] by (simp add: pool_inv_def core_inv_def order_ok_def)
  obtain j where j: "i \<le> j" "tasks (run j) = []"
  proof (cases "submitted (run i)")
    case (Cons t ts)
    then obtain j where "i \<le> j" "length ts < length (started (run j))" using queue_advances [OF e f, of "length ts" i] by auto
    moreover have "length (started (run j)) + length (tasks (run j)) = Suc (length ts)"
      using o [of j] execution_mono(4) [OF e \<open>i \<le> j\<close> d] Cons by (metis length_Cons length_append)
    ultimately have "length (tasks (run j)) = 0" by linarith
    then show thesis using that [of j] \<open>i \<le> j\<close> by simp
  qed (use that [of i] o [of i] in auto)
  have "shutting_down (run j)" using execution_mono(4) [OF e j(1) d] by simp
  then obtain k where k: "j \<le> k" "closed run k" using pool_empties [OF e f _ j(2)] by blast
  obtain m where m: "k \<le> m" "shutdown_thread (run m) = Returned" using shutdown_returns [OF e assms(3) k(2)] by blast
  have im: "i \<le> m" using j(1) k(1) m(1) by simp
  have inv: "pool_inv max_size (run m)" by (rule execution_inv [OF e])
  then have "all_workers_dead (run m)" using m(2) by (simp add: pool_inv_def shutdown_ok_def)
  then have "set (finished (run m)) = set (submitted (run i))"
    using dead_pool(3) [OF inv] execution_mono(4) [OF e im d] by simp
  then show ?thesis using returned_joined(1) [OF inv m(2)] m(2) im by blast
qed

theorem shutdown_terminates_witness:
  "\<exists>j\<ge>4. shutdown_thread (trace shutdown_actions (ThreadPool 1) j) = Returned \<and>
     set (finished (trace shutdown_actions (ThreadPool 1) j)) = {7}"
proof -
  have "\<not> due (state (trace shutdown_actions (ThreadPool 1) (length shutdown_actions)) w)" for w
    unfolding shutdown_sample(2) by (simp add: due_def)
  then have "fair (trace shutdown_actions (ThreadPool 1))" by (rule trace_fair)
  moreover have "exits_fair (trace shutdown_actions (ThreadPool 1))" by (rule trace_exits_fair) (rule shutdown_sample)+
  moreover have "shutting_down (trace shutdown_actions (ThreadPool 1) 4)" "submitted (trace shutdown_actions (ThreadPool 1) 4) = [7]"
    by (simp_all add: shutdown_actions_def trace_simps numeral_eq_Suc)
  ultimately show ?thesis using shutdown_terminates [OF trace_execution [OF shutdown_sample(1)], of 4] by auto
qed

text \<open>
  C6. Nothing is left when \<open>Shutdown\<close> has returned: all worker lists and the queue are empty, every worker that was ever created has
  ended and been joined, once, and every task that \<open>Run\<close> accepted has finished, in whatever order the threads ran.
\<close>

theorem shutdown_leaves_nothing:
  assumes "reachable max_size p" "shutdown_thread p = Returned"
  shows "running_workers p = [] \<and> idle_workers p = [] \<and> dead_workers p = [] \<and> tasks p = [] \<and>
    (\<forall>w. state p w = Exited) \<and> distinct (joined p) \<and> set (joined p) = {..<workers_created p} \<and>
    distinct (finished p) \<and> set (finished p) = set (submitted p)"
proof -
  have inv: "pool_inv max_size p" by (rule reachable_inv [OF assms(1)])
  then have "all_workers_dead p" "dead_workers p = []" using assms(2) by (simp_all add: pool_inv_def shutdown_ok_def)
  moreover have "running_workers p @ idle_workers p = []"
    using inv calculation(1) by (auto simp: pool_inv_def wakeups_ok_def live_workers_def)
  moreover have "distinct (joined p)" "distinct (finished p)" using inv by (simp_all add: pool_inv_def core_inv_def joins_ok_def runs_ok_def)
  ultimately show ?thesis using dead_pool(2,3) [OF inv] returned_joined [OF inv assms(2)] by simp
qed

theorem shutdown_leaves_nothing_witness:
  "shutdown_thread (trace shutdown_actions (ThreadPool 1) 11) = Returned \<and>
   set (joined (trace shutdown_actions (ThreadPool 1) 11)) = {0} \<and>
   set (finished (trace shutdown_actions (ThreadPool 1) 11)) = {7}"
proof -
  let ?p = "trace shutdown_actions (ThreadPool 1) 11"
  have "reachable 1 ?p" by (rule trace_reachable [OF shutdown_sample(1) init])
  moreover have ret: "shutdown_thread ?p = Returned" "workers_created ?p = 1" "submitted ?p = [7]"
    by (simp_all add: shutdown_actions_def trace_simps numeral_eq_Suc)
  ultimately show ?thesis using shutdown_leaves_nothing [of 1 ?p] by auto
qed

text \<open>
  The idle hook looks at the shutdown flag only after its own wait.  The last worker can start that wait after the shutdown request has
  notified everybody, and the shutdown then takes as long as the idle time-out.
\<close>

lemma shutdown_waits_for_idle_hook:
  "\<exists>p. reachable 1 p \<and> shutting_down p \<and> tasks p = [] \<and> live_workers p = [0] \<and> state p 0 = HookWaiting"
proof (intro exI conjI)
  let ?as = "[Run 7 None, StartThread 0, EnterLoop 0 HookReturns, ShutdownRequest, TaskDone 0 HookWaits]"
  let ?p = "trace ?as (ThreadPool 1) 5"
  show "reachable 1 ?p" by (rule trace_reachable [OF _ init]) (simp add: trace_simps)
  show "shutting_down ?p" "tasks ?p = []" "live_workers ?p = [0]" "state ?p 0 = HookWaiting"
    by (simp_all add: trace_simps numeral_eq_Suc live_workers_def)
qed

end
