(* ===== verification/Spec2Isabelle.thy ===== *)
theory Spec2Isabelle
  imports
    Magic_Division String_Hash Priority_Queue Data_Stream Range_Inference
    Percent_Encoding Case_Conversion X64_Moves Thread_Pool_Progress
begin

text \<open>
  Verification of parts of the Dart virtual machine.

  The program is the C++ virtual machine under \<^verbatim>\<open>src/runtime\<close>.  The development covers four groups of its
  parts: the platform library (\<^verbatim>\<open>runtime/platform\<close>), the strings of the object model with their Unicode
  codecs (\<^verbatim>\<open>runtime/vm/object.cc\<close>, \<^verbatim>\<open>unicode.cc\<close>), three pieces of the optimising compiler (range
  analysis, the parallel move resolver with its x64 back end, and division by constants), and the
  infrastructure of byte streams and of the thread pool.

  \<^bold>\<open>Conventions.\<close>  Integers that wrap are words (\<open>u8\<close> to \<open>u64\<close> of \<open>VM_Prelude\<close>); \<^verbatim>\<open>intptr_t\<close> lengths and indices that the
  code keeps non-negative are natural numbers; the 64-bit arithmetic of range analysis is \<open>int\<close> with the
  overflow tests and the wrap-around of the code written out.  A failing \<^verbatim>\<open>ASSERT\<close>, \<^verbatim>\<open>UNREACHABLE\<close>, an access
  outside an array and other undefined behaviour give \<open>None\<close>, so a theorem that concludes \<open>f x = Some y\<close> also says
  that none of them happens.  A pointer that may be null is a second option.  Loops are recursive functions with
  termination proofs.  The host is little-endian with 64-bit words and debug assertions.  Where the code counts
  with \<^verbatim>\<open>int\<close> (the loops of \<^verbatim>\<open>String::EndsWith\<close> and \<^verbatim>\<open>String::EncodeIRI\<close>) the model counts with natural numbers, which
  is the same for strings shorter than \<open>2 ^ 31\<close>.

  \<^bold>\<open>Platform library.\<close>
  \<^item> \<open>Platform_Utils\<close> and \<open>Platform_Arith\<close>: \<^verbatim>\<open>Utils\<close> of \<^verbatim>\<open>utils.h\<close> and \<^verbatim>\<open>utils.cc\<close>, one definition per helper: rounding to
    powers of two, bit counts and reversal, sign extension, range checks, overflow tests, saturating and wrapping
    arithmetic, rotations.  The lemmas characterise the results (least power of two, exact overflow tests).
  \<^item> \<open>Magic_Division\<close>: \<^verbatim>\<open>Utils::CalculateMagicAndShiftForDivRem\<close> and the instruction sequences that
    \<^verbatim>\<open>EmitInt64ModTruncDiv\<close> of \<^verbatim>\<open>il_x64.cc\<close> and \<^verbatim>\<open>il_arm64.cc\<close> emit from it, executed on 64-bit registers.  They compute the
    truncated quotient and the Euclidean remainder for every divisor they are used for.
  \<^item> \<open>String_Hash\<close>: \<^verbatim>\<open>Utils::StringHash\<close> and \<^verbatim>\<open>WordHash\<close>; the hash does not depend on the alignment of the bytes.
  \<^item> \<open>Keyed_Map\<close>, \<open>Simple_HashMap\<close>: the locale \<open>keyed_map\<close> is the contract of a dictionary; the open-addressing table of
    \<^verbatim>\<open>hashmap.h\<close> and \<^verbatim>\<open>hashmap.cc\<close> interprets it.  The table's invariant (every key reachable from its home slot
    without crossing a gap, load bounded) is kept by insertion with growth and by removal with its back-shifting
    loop.  \<open>Resize\<close> and \<open>Lookup\<close> call each other; depth two is enough because an insertion into the doubled table does
    not grow it again.
  \<^item> \<open>Priority_Queue\<close>: \<^verbatim>\<open>priority_queue.h\<close>, a binary heap whose offset map is a client of \<open>keyed_map\<close>.  The abstract queue is a
    multiset of entries.  Insertion, removal of the minimum and change of priority keep the heap order;
    \<open>RemoveByValue\<close> keeps the offset map but not the heap order (\<open>RemoveByValue_breaks_Minimum\<close>).

  \<^bold>\<open>Unicode and strings.\<close>
  \<^item> \<open>Unicode_Codec\<close>: \<^verbatim>\<open>Utf\<close>, \<^verbatim>\<open>Utf8\<close> and \<^verbatim>\<open>Utf16\<close> of \<^verbatim>\<open>platform/unicode.h\<close> and \<^verbatim>\<open>unicode.cc\<close> with their tables.  The relation \<open>encodes\<close> is the
    specification of UTF-8.  The locale \<open>utf8_decoder\<close> holds the argument shared by the three decoders to Latin-1,
    UTF-16 and UTF-32, each of which interprets it.
  \<^item> \<open>Case_Mapping\<close>: \<^verbatim>\<open>CaseMapping\<close> with the complete tables of \<^verbatim>\<open>vm/unicode_data.cc\<close>, and \<^verbatim>\<open>Latin1::TryConvertToLatin1\<close>.
  \<^item> \<open>Dart_String\<close>: the four representations of \<^verbatim>\<open>String\<close> as a datatype, with \<open>units\<close>, the list of code units, as the abstraction:
    comparison, hashing (\<^verbatim>\<open>StringHasher\<close> of \<^verbatim>\<open>object.cc\<close>, \<^verbatim>\<open>hash.h\<close>), allocation, copying, concatenation,
    substrings, escaping and the comparison of mangled names.  The collection \<open>string_units\<close> rewrites operations to
    lists of units.  What a fresh string contains is the parameter \<open>mem\<close>; no result depends on it.
  \<^item> \<open>Ascii_Words\<close>, \<open>String_Transcoding\<close>: the word-at-a-time paths of \<^verbatim>\<open>vm/unicode.cc\<close>, the code point iterator, and
    the conversions between strings and UTF-8, UTF-16, UTF-32 and C strings.
  \<^item> \<open>Percent_Encoding\<close>, \<open>Case_Conversion\<close>: \<^verbatim>\<open>EncodeIRI\<close>, \<^verbatim>\<open>DecodeIRI\<close>, \<^verbatim>\<open>Transform\<close>, \<^verbatim>\<open>ToUpperCase\<close>, \<^verbatim>\<open>ToLowerCase\<close> of \<^verbatim>\<open>object.cc\<close>.

  \<^bold>\<open>Optimising compiler.\<close>
  \<^item> \<open>Range_Boundary\<close>, \<open>Range_Ops\<close>, \<open>Range_Inference\<close>: \<^verbatim>\<open>range_analysis.h\<close> and \<^verbatim>\<open>range_analysis.cc\<close>.  The flow graph is a record that
    gives each definition its instruction, block and type; its facts that the analysis relies on (SSA order,
    well-formed constants) are \<open>well_ranked\<close>.  An \<open>execution\<close> assigns values to the definitions evaluated so far, in
    agreement with the instructions and the assigned ranges.  \<open>Range_Boundary\<close> has boundaries and
    their canonicalisation, whose minimum and maximum versions interpret the locale \<open>boundary_step\<close>; \<open>Range_Ops\<close> the transfer
    functions; \<open>Range_Inference\<close> the constraints from comparisons, \<^verbatim>\<open>InferRange\<close> of every instruction, joins, widening and
    narrowing, the fixpoint iteration, and the decision on redundant bounds checks.  The lemmas show that values stay
    inside ranges, that eliminated overflow and bounds checks were unnecessary, and that widening stabilises.
    Joins are sound for ranges that are inhabited; \<open>phi_join_eliminates_needed_check\<close> shows what
    happens when one is not.
  \<^item> \<open>Parallel_Moves\<close>, \<open>X64_Moves\<close>: \<^verbatim>\<open>ParallelMoveResolver\<close> of \<^verbatim>\<open>flow_graph_compiler.cc\<close> and the moves, swaps, constants and scratch
    registers of \<^verbatim>\<open>flow_graph_compiler_x64.cc\<close>, \<^verbatim>\<open>il_x64.cc\<close> and the x64 assembler.  The resolver is proved once in the locale
    \<open>move_target\<close>, for any back end whose moves and swaps do what they say; the x64 back end, executed on a machine of
    registers, stack slots and a spill area, interprets it.  The recursion of \<open>PerformMove\<close> runs on fuel, the number of moves,
    which is enough because each level marks another move as pending; the theorem says that code is returned.

  \<^bold>\<open>Streams and threads.\<close>
  \<^item> \<open>Data_Stream\<close>: \<^verbatim>\<open>datastream.h\<close> and \<^verbatim>\<open>datastream.cc\<close>: \<^verbatim>\<open>ReadStream\<close>, \<^verbatim>\<open>BaseWriteStream\<close> and its three growing variants in one
    record, the variable-length encodings with their loops and unrolled readers, LEB128.  Encodings round-trip, the
    unrolled readers are the loop, and growing keeps the contents.  Whether the allocator grants a
    buffer is the parameter \<open>alloc\<close>.
  \<^item> \<open>Thread_Pool\<close>, \<open>Thread_Pool_Progress\<close>: \<^verbatim>\<open>thread_pool.cc\<close> and the idle hook of \<^verbatim>\<open>MutatorThreadPool\<close> in \<^verbatim>\<open>isolate.cc\<close>.  The record \<open>Pool\<close>
    has the fields of \<^verbatim>\<open>ThreadPool\<close>, the place of each worker's thread and of the thread in \<^verbatim>\<open>Shutdown\<close>, and a history of
    tasks, joins and deaths.  Each critical section is one operation; \<open>step\<close> interleaves them with running
    tasks, waits that end by a notification, a time-out or for no reason, thread exits and joins.  The
    invariant \<open>pool_inv\<close> holds in every reachable state and excludes failing assertions, lost wake-ups on the pool monitor
    and a lost notification on the exit monitor.  In fair executions (\<open>fair\<close>: scheduled threads, tasks, hooks and timed
    waits make progress; \<open>exits_fair\<close>: threads end, joins of ended threads return and the thread in
    \<^verbatim>\<open>Shutdown\<close> is scheduled when it is not waiting) every task runs and every shutdown returns.  A join is
    possible once the joined thread has ended, which is what \<^verbatim>\<open>OSThread::Join\<close> does.  Setting
    \<^verbatim>\<open>all_workers_dead_\<close> and notifying the exit monitor are one step: in between only the thread in \<^verbatim>\<open>Shutdown\<close> can act, and it can
    only find the flag set.  \<^verbatim>\<open>Shutdown\<close> is called by one thread at a time.

  \<^bold>\<open>Interaction.\<close>  The priority queue calls the hash map through \<open>keyed_map\<close>; strings are built from the codecs and the case
  mapping; percent-encoding and case conversion are built from the transcoding of strings; the resolver calls its back end
  through \<open>move_target\<close>.  The other parts are independent of each other, so there are no properties in this theory:
  each theory ends with those of its component, every one with a concrete instance where it has hypotheses.

  \<^bold>\<open>Not modelled.\<close>  The heap and garbage collector, the rest of the object model, isolates and messages, snapshots,
  the kernel loader, the other passes and back ends of the compiler, instruction encodings, the foreign function interface,
  regular expressions, the embedding interface, service and debugger, and \<^verbatim>\<open>runtime/bin\<close>: they work on raw memory shared between
  threads, on machine code, or are input and output.  Of range analysis the passes that rewrite the flow graph
  and the induction analysis of \<^verbatim>\<open>loops.cc\<close> are left out; of strings, the symbol table, external finalizers
  and cached hashes; of streams, formatted printing; of the thread pool, the start of the OS threads and
  the choice of the idle hook, which is left open.  The Dart sources under \<^verbatim>\<open>sdk\<close> and \<^verbatim>\<open>pkg\<close> are not part of the
  virtual machine.
\<close>

end
